(* ===== verification/Rust_Prelude.thy ===== *)
theory Rust_Prelude
  imports Main "HOL-Library.Word"
begin

text \<open>
  What every component of the development shares: the machine integers of the source as
  words, \<open>Result\<close> as a sum with its bind, a poisonable \<open>Mutex\<close>, and the part of Rust's
  standard string library that the modelled crates call. A Rust \<open>str\<close> is a sequence of
  bytes that is valid UTF-8, and is modelled as a \<open>string\<close> whose characters are those
  bytes: byte lengths, byte order, ASCII searches and slices then agree with the source
  literally, and a Unicode white-space character is the byte sequence that encodes it.
  The lemmas are collected in \<open>rust_str\<close> (strings) and \<open>rust_res\<close> (results), which the
  component proofs hand to the simplifier.
\<close>

section \<open>Collections of facts\<close>

named_theorems rust_str \<open>equations of the string library\<close>
named_theorems rust_res \<open>equations of the result type\<close>

section \<open>Types\<close>

type_synonym u8 = "8 word"
type_synonym u16 = "16 word"
type_synonym u32 = "32 word"
type_synonym u64 = "64 word"
type_synonym i32 = "32 word"
type_synonym str = string
type_synonym bytes = "u8 list"
type_synonym duration = nat \<comment> \<open>\<open>std::time::Duration\<close>, in nanoseconds\<close>

section \<open>Result\<close>

text \<open>\<open>Result<T, E>\<close> is \<open>'e + 'a\<close>: \<open>Inl\<close> is \<open>Err\<close>, \<open>Inr\<close> is \<open>Ok\<close>; \<open>rbind\<close> is the \<open>?\<close> operator.\<close>

definition rbind :: "'e + 'a \<Rightarrow> ('a \<Rightarrow> 'e + 'b) \<Rightarrow> 'e + 'b" where
  "rbind r f = (case r of Inl e \<Rightarrow> Inl e | Inr x \<Rightarrow> f x)"

fun is_ok :: "'e + 'a \<Rightarrow> bool" where
  "is_ok (Inl e) = False"
| "is_ok (Inr x) = True"

fun ok_opt :: "'e + 'a \<Rightarrow> 'a option" where
  "ok_opt (Inl e) = None"
| "ok_opt (Inr x) = Some x"

definition ok_or :: "'e \<Rightarrow> 'a option \<Rightarrow> 'e + 'a" where
  "ok_or e m = (case m of None \<Rightarrow> Inl e | Some x \<Rightarrow> Inr x)"

fun unwrap_or :: "'a \<Rightarrow> 'a option \<Rightarrow> 'a" where
  "unwrap_or d None = d"
| "unwrap_or d (Some x) = x"

lemma rbind_simps [simp, rust_res]: "rbind (Inl e) f = Inl e" "rbind (Inr x) f = f x"
  by (simp_all add: rbind_def)

lemma rbind_Inr_iff [rust_res]: "rbind r f = Inr y \<longleftrightarrow> (\<exists>x. r = Inr x \<and> f x = Inr y)"
  by (cases r) auto

lemma ok_or_simps [simp, rust_res]: "ok_or e None = Inl e" "ok_or e (Some x) = Inr x"
  by (simp_all add: ok_or_def)

lemma ok_or_Inr_iff [rust_res]: "ok_or e m = Inr x \<longleftrightarrow> m = Some x"
  by (cases m) auto

lemma is_ok_iff [rust_res]: "is_ok r \<longleftrightarrow> (\<exists>x. r = Inr x)"
  by (cases r) auto

text \<open>\<open>collect::<Result<Vec<_>, _>>()\<close> stops at the first error.\<close>

fun rcollect :: "('a \<Rightarrow> 'e + 'b) \<Rightarrow> 'a list \<Rightarrow> 'e + 'b list" where
  "rcollect f [] = Inr []"
| "rcollect f (x # xs) = rbind (f x) (\<lambda>y. rbind (rcollect f xs) (\<lambda>ys. Inr (y # ys)))"

lemma rcollect_map_Inr: "(\<And>x. x \<in> set xs \<Longrightarrow> f x = Inr (g x)) \<Longrightarrow> rcollect f xs = Inr (map g xs)"
  by (induction xs) auto

section \<open>Mutex\<close>

text \<open>
  A \<open>std::sync::Mutex\<close> holds a value and a poison flag, which a panic of a lock holder
  sets. \<open>lock\<close> is \<open>Err\<close> (here \<open>None\<close>) on a poisoned mutex.
\<close>

record 'a mutex =
  poisoned :: bool
  inner :: 'a

definition mutex_new :: "'a \<Rightarrow> 'a mutex" where
  "mutex_new x = \<lparr>poisoned = False, inner = x\<rparr>"

definition lock :: "'a mutex \<Rightarrow> 'a option" where
  "lock m = (if poisoned m then None else Some (inner m))"

lemma lock_new [simp]: "lock (mutex_new x) = Some x"
  by (simp add: lock_def mutex_new_def)

section \<open>Checked arithmetic\<close>

definition checked_add_u64 :: "u64 \<Rightarrow> u64 \<Rightarrow> u64 option" where
  "checked_add_u64 a b = (if unat a + unat b < 2 ^ 64 then Some (a + b) else None)"

lemma checked_add_u64_Some:
  "checked_add_u64 a b = Some c \<longleftrightarrow> unat a + unat b < 2 ^ 64 \<and> c = a + b"
  by (auto simp: checked_add_u64_def)

lemma unat_checked_add_u64: "checked_add_u64 a b = Some c \<Longrightarrow> unat c = unat a + unat b"
  by (auto simp: checked_add_u64_def unat_word_ariths split: if_splits)

section \<open>Masks\<close>

text \<open>\<open>(1 << k) - 1\<close>\<close>

lemma mask_eq: "push_bit k 1 - 1 = (mask k :: 'a::len word)" "2 ^ k - 1 = (mask k :: 'a word)"
  by (simp_all add: mask_eq_exp_minus_1 push_bit_eq_mult)

lemma take_bit_self:
  assumes "unat (x :: 'a::len word) < 2 ^ n"
  shows "take_bit n x = x"
proof -
  have "unat (take_bit n x) = unat x" unfolding unsigned_take_bit_eq using assms by (rule take_bit_nat_eq_self)
  then show ?thesis by (rule unsigned_word_eqI)
qed

end
