(* ===== verification/Rust_Str.thy ===== *)
theory Rust_Str
  imports Rust_Prelude "HOL-Library.Sublist"
begin

text \<open>
  The operations of \<open>str\<close> that the modelled crates call, on byte strings: white-space
  trimming and splitting, splitting at a character or a separator, prefixes, and the
  decimal parser and printer of the unsigned integers. The lemmas at the end say how
  trimming, splitting and parsing undo joining and printing.
\<close>

section \<open>White space\<close>

text \<open>
  \<open>char::is_whitespace\<close> is the Unicode property \<open>White_Space\<close>: 25 characters, listed here
  by their UTF-8 encodings. None of the encodings is a prefix of another, and on valid
  UTF-8 an encoding found at a byte position is a character there.
\<close>

definition ws_encodings :: "str list" where
  "ws_encodings =
     [[CHR 0x09], [CHR 0x0A], [CHR 0x0B], [CHR 0x0C], [CHR 0x0D], [CHR 0x20],
      [CHR 0xC2, CHR 0x85], [CHR 0xC2, CHR 0xA0], [CHR 0xE1, CHR 0x9A, CHR 0x80],
      [CHR 0xE2, CHR 0x80, CHR 0x80], [CHR 0xE2, CHR 0x80, CHR 0x81],
      [CHR 0xE2, CHR 0x80, CHR 0x82], [CHR 0xE2, CHR 0x80, CHR 0x83],
      [CHR 0xE2, CHR 0x80, CHR 0x84], [CHR 0xE2, CHR 0x80, CHR 0x85],
      [CHR 0xE2, CHR 0x80, CHR 0x86], [CHR 0xE2, CHR 0x80, CHR 0x87],
      [CHR 0xE2, CHR 0x80, CHR 0x88], [CHR 0xE2, CHR 0x80, CHR 0x89],
      [CHR 0xE2, CHR 0x80, CHR 0x8A], [CHR 0xE2, CHR 0x80, CHR 0xA8],
      [CHR 0xE2, CHR 0x80, CHR 0xA9], [CHR 0xE2, CHR 0x80, CHR 0xAF],
      [CHR 0xE2, CHR 0x81, CHR 0x9F], [CHR 0xE3, CHR 0x80, CHR 0x80]]"

fun strip_prefix :: "str \<Rightarrow> str \<Rightarrow> str option" where
  "strip_prefix [] s = Some s"
| "strip_prefix (p # ps) [] = None"
| "strip_prefix (p # ps) (c # cs) = (if p = c then strip_prefix ps cs else None)"

fun strip_any :: "str list \<Rightarrow> str \<Rightarrow> str option" where
  "strip_any [] s = None"
| "strip_any (p # ps) s =
     (case strip_prefix p s of
        Some r \<Rightarrow> if p = [] then strip_any ps s else Some r
      | None \<Rightarrow> strip_any ps s)"

lemma strip_prefix_Some: "strip_prefix p s = Some r \<longleftrightarrow> s = p @ r"
  by (induction p s rule: strip_prefix.induct) auto

lemma strip_any_Some_length: "strip_any ps s = Some r \<Longrightarrow> length r < length s"
  by (induction ps) (auto simp: strip_prefix_Some split: option.splits if_splits)

definition strip_ws :: "str \<Rightarrow> str option" where
  "strip_ws s = strip_any ws_encodings s"

function trim_with :: "str list \<Rightarrow> str \<Rightarrow> str" where
  "trim_with encs s = (case strip_any encs s of None \<Rightarrow> s | Some r \<Rightarrow> trim_with encs r)"
  by pat_completeness auto
termination
  by (relation "measure (\<lambda>(encs, s). length s)") (auto dest: strip_any_Some_length)

declare trim_with.simps [simp del]

definition trim_start :: "str \<Rightarrow> str" where
  "trim_start s = trim_with ws_encodings s"

definition trim_end :: "str \<Rightarrow> str" where
  "trim_end s = rev (trim_with (map rev ws_encodings) (rev s))"

definition trim :: "str \<Rightarrow> str" where
  "trim s = trim_end (trim_start s)"

function split_ws_acc :: "str \<Rightarrow> str \<Rightarrow> str list" where
  "split_ws_acc cur s =
     (case strip_ws s of
        Some r \<Rightarrow> (if cur = [] then [] else [rev cur]) @ split_ws_acc [] r
      | None \<Rightarrow>
          (case s of
             [] \<Rightarrow> (if cur = [] then [] else [rev cur])
           | c # cs \<Rightarrow> split_ws_acc (c # cur) cs))"
  by pat_completeness auto
termination
  by (relation "measure (\<lambda>(cur, s). length s)")
     (auto simp: strip_ws_def dest: strip_any_Some_length)

declare split_ws_acc.simps [simp del]

definition split_whitespace :: "str \<Rightarrow> str list" where
  "split_whitespace s = split_ws_acc [] s"

text \<open>\<open>contains(char::is_whitespace)\<close>\<close>

fun contains_ws :: "str \<Rightarrow> bool" where
  "contains_ws [] = False"
| "contains_ws (c # cs) = (strip_ws (c # cs) \<noteq> None \<or> contains_ws cs)"

section \<open>Splitting and searching\<close>

fun split_char :: "char \<Rightarrow> str \<Rightarrow> str list" where
  "split_char d [] = [[]]"
| "split_char d (c # cs) =
     (if c = d then [] # split_char d cs
      else (case split_char d cs of [] \<Rightarrow> [[c]] | w # ws \<Rightarrow> (c # w) # ws))"

fun split_once :: "char \<Rightarrow> str \<Rightarrow> (str \<times> str) option" where
  "split_once d [] = None"
| "split_once d (c # cs) =
     (if c = d then Some ([], cs) else map_option (\<lambda>(a, b). (c # a, b)) (split_once d cs))"

definition rsplit_once :: "char \<Rightarrow> str \<Rightarrow> (str \<times> str) option" where
  "rsplit_once d s = map_option (\<lambda>(a, b). (rev b, rev a)) (split_once d (rev s))"

text \<open>\<open>s.find(pat)\<close> gives the byte index of the first occurrence; \<open>pat\<close> is not empty.\<close>

fun find_str :: "str \<Rightarrow> str \<Rightarrow> nat option" where
  "find_str pat [] = (if pat = [] then Some 0 else None)"
| "find_str pat (c # cs) =
     (if prefix pat (c # cs) then Some 0 else map_option Suc (find_str pat cs))"

definition contains_str :: "str \<Rightarrow> str \<Rightarrow> bool" where
  "contains_str pat s = (find_str pat s \<noteq> None)"

lemma find_str_Some_length: "find_str pat s = Some i \<Longrightarrow> i + length pat \<le> length s"
  by (induction pat s arbitrary: i rule: find_str.induct)
     (auto dest: prefix_length_le split: if_splits)

lemma find_str_drop_less:
  assumes "pat \<noteq> []" "find_str pat s = Some i"
  shows "length s - (i + length pat) < length s"
  using assms find_str_Some_length [OF assms(2)] by (cases pat) auto

text \<open>\<open>s.split(pat)\<close> for a separator of several characters: non-overlapping, from the left.\<close>

function split_str :: "str \<Rightarrow> str \<Rightarrow> str list" where
  "split_str pat s =
     (if pat = [] then [s]
      else (case find_str pat s of
              None \<Rightarrow> [s]
            | Some i \<Rightarrow> take i s # split_str pat (drop (i + length pat) s)))"
  by pat_completeness auto

termination
  by (relation "measure (\<lambda>(pat, s). length s)") (auto dest: find_str_drop_less)

declare split_str.simps [simp del]

fun join :: "str \<Rightarrow> str list \<Rightarrow> str" where
  "join sep [] = []"
| "join sep [x] = x"
| "join sep (x # y # ys) = x @ sep @ join sep (y # ys)"

definition starts_with :: "str \<Rightarrow> str \<Rightarrow> bool" where
  "starts_with s p = prefix p s"

section \<open>Numbers\<close>

definition is_digit :: "char \<Rightarrow> bool" where
  "is_digit c \<longleftrightarrow> 48 \<le> (of_char c :: nat) \<and> (of_char c :: nat) \<le> 57"

definition digit_char :: "nat \<Rightarrow> char" where
  "digit_char d = char_of (48 + d)"

fun digits_val :: "nat \<Rightarrow> str \<Rightarrow> nat option" where
  "digits_val acc [] = Some acc"
| "digits_val acc (c # cs) =
     (if is_digit c then digits_val (10 * acc + (of_char c - 48)) cs else None)"

text \<open>
  \<open>from_str\<close> of an unsigned integer of \<open>w\<close> bits: the empty string and a lone sign are
  errors, one leading \<open>+\<close> is accepted, every other character is a digit, and the value
  has to fit.
\<close>

definition parse_uint :: "nat \<Rightarrow> str \<Rightarrow> nat option" where
  "parse_uint w s =
     (let ds = (case s of c # cs \<Rightarrow> if c = CHR ''+'' then cs else s | [] \<Rightarrow> []) in
      if ds = [] then None
      else (case digits_val 0 ds of
              None \<Rightarrow> None
            | Some n \<Rightarrow> if n < 2 ^ w then Some n else None))"

definition parse_u64 :: "str \<Rightarrow> u64 option" where
  "parse_u64 s = map_option word_of_nat (parse_uint 64 s)"

definition parse_u16 :: "str \<Rightarrow> u16 option" where
  "parse_u16 s = map_option word_of_nat (parse_uint 16 s)"

fun show_nat :: "nat \<Rightarrow> str" where
  "show_nat n = (if n < 10 then [digit_char n] else show_nat (n div 10) @ [digit_char (n mod 10)])"

declare show_nat.simps [simp del]

definition show_int :: "int \<Rightarrow> str" where
  "show_int i = (if i < 0 then ''-'' @ show_nat (nat (- i)) else show_nat (nat i))"

section \<open>Lemmas\<close>

text \<open>A graphic ASCII character neither starts nor ends the encoding of white space.\<close>

definition is_graph :: "char \<Rightarrow> bool" where
  "is_graph c \<longleftrightarrow> 33 \<le> (of_char c :: nat) \<and> (of_char c :: nat) \<le> 126"

lemma strip_any_None_hd:
  assumes "\<And>e. e \<in> set encs \<Longrightarrow> e \<noteq> [] \<and> \<not> is_graph (hd e)" "is_graph c"
  shows "strip_any encs (c # cs) = None"
  using assms(1)
proof (induction encs)
  case (Cons e encs)
  from Cons.prems [of e] assms(2) have "strip_prefix e (c # cs) = None"
    by (cases e) auto
  with Cons show ?case by simp
qed simp

lemma ws_encodings_graph:
  "e \<in> set ws_encodings \<Longrightarrow> e \<noteq> [] \<and> \<not> is_graph (hd e)"
  "e \<in> set (map rev ws_encodings) \<Longrightarrow> e \<noteq> [] \<and> \<not> is_graph (hd e)"
  by (auto simp: ws_encodings_def is_graph_def)

lemma strip_ws_graph [rust_str]: "is_graph c \<Longrightarrow> strip_ws (c # cs) = None"
  unfolding strip_ws_def by (rule strip_any_None_hd [OF ws_encodings_graph(1)])

lemma strip_any_Nil [simp]: "strip_any encs [] = None"
  by (cases "strip_any encs []") (auto dest: strip_any_Some_length)

lemma trim_with_stop: "strip_any encs s = None \<Longrightarrow> trim_with encs s = s"
  by (simp add: trim_with.simps)

lemma trim_Nil [simp]: "trim [] = []"
  by (simp add: trim_def trim_end_def trim_start_def trim_with_stop)

lemma trim_graph [rust_str]:
  assumes "s = [] \<or> is_graph (hd s) \<and> is_graph (last s)"
  shows "trim s = s"
proof (cases "s = []")
  case False
  then obtain c cs where s: "s = c # cs" by (cases s) auto
  obtain d ds where r: "rev s = d # ds" using False by (cases "rev s") auto
  have "d = last s" using r by (metis last_rev list.sel(1) rev_rev_ident hd_rev)
  then have "strip_any (map rev ws_encodings) (rev s) = None"
    unfolding r using assms False by (intro strip_any_None_hd ws_encodings_graph(2)) auto
  moreover have "strip_any ws_encodings s = None"
    unfolding s using assms False s by (intro strip_any_None_hd ws_encodings_graph(1)) auto
  ultimately show ?thesis
    by (simp add: trim_def trim_start_def trim_end_def trim_with_stop)
qed simp

lemma split_char_not_Nil [simp]: "split_char d s \<noteq> []"
  by (induction s) (auto split: list.splits)

lemma split_char_notin [rust_str]: "d \<notin> set s \<Longrightarrow> split_char d s = [s]"
  by (induction s) auto

lemma split_char_append [rust_str]: "d \<notin> set a \<Longrightarrow> split_char d (a @ d # b) = a # split_char d b"
  by (induction a) auto

lemma split_char_join:
  "xs \<noteq> [] \<Longrightarrow> (\<And>x. x \<in> set xs \<Longrightarrow> d \<notin> set x) \<Longrightarrow> split_char d (join [d] xs) = xs"
  by (induction "[d]" xs rule: join.induct) (auto simp: rust_str)

lemma split_once_None [rust_str]: "d \<notin> set s \<Longrightarrow> split_once d s = None"
  by (induction s) auto

lemma split_once_append [rust_str]: "d \<notin> set a \<Longrightarrow> split_once d (a @ d # b) = Some (a, b)"
  by (induction a) auto

lemma split_once_SomeD: "split_once d s = Some (a, b) \<Longrightarrow> s = a @ d # b \<and> d \<notin> set a"
  by (induction s arbitrary: a) (auto split: if_splits)

lemma rsplit_once_append [rust_str]: "d \<notin> set b \<Longrightarrow> rsplit_once d (a @ d # b) = Some (a, b)"
  by (simp add: rsplit_once_def rust_str)

lemma rsplit_once_None [rust_str]: "d \<notin> set s \<Longrightarrow> rsplit_once d s = None"
  by (simp add: rsplit_once_def rust_str)

lemma rsplit_once_SomeD: "rsplit_once d s = Some (a, b) \<Longrightarrow> s = a @ d # b \<and> d \<notin> set b"
  by (auto simp: rsplit_once_def dest!: split_once_SomeD)
     (metis append.assoc append_Cons append_Nil rev.simps(2) rev_append rev_rev_ident)

lemma digit_char_val [simp]: "d < 10 \<Longrightarrow> (of_char (digit_char d) :: nat) = 48 + d"
  by (simp add: digit_char_def)

lemma is_digit_digit_char [simp]: "d < 10 \<Longrightarrow> is_digit (digit_char d)"
  by (simp add: is_digit_def)

lemma is_digit_graph: "is_digit c \<Longrightarrow> is_graph c"
  by (simp add: is_digit_def is_graph_def)

lemma show_nat_not_Nil [simp]: "show_nat n \<noteq> []"
  by (subst show_nat.simps) simp

lemma show_nat_digits: "c \<in> set (show_nat n) \<Longrightarrow> is_digit c"
proof (induction n arbitrary: c rule: show_nat.induct)
  case (1 n)
  then show ?case
    by (subst (asm) (2) show_nat.simps) (auto split: if_splits)
qed

lemma digits_val_append:
  "digits_val acc (xs @ ys) = (case digits_val acc xs of None \<Rightarrow> None | Some a \<Rightarrow> digits_val a ys)"
  by (induction xs arbitrary: acc) auto

lemma digits_val_show_nat: "digits_val 0 (show_nat n) = Some n"
proof (induction n rule: show_nat.induct)
  case (1 n)
  show ?case
    by (subst show_nat.simps) (auto simp: digits_val_append "1.IH")
qed

lemma plus_not_digit: "\<not> is_digit (CHR ''+'')"
  by (simp add: is_digit_def)

lemma parse_uint_show_nat: "n < 2 ^ w \<Longrightarrow> parse_uint w (show_nat n) = Some n"
proof -
  assume n: "n < 2 ^ w"
  obtain c cs where s: "show_nat n = c # cs" by (cases "show_nat n") auto
  then have "c \<noteq> CHR ''+''" using show_nat_digits [of c n] plus_not_digit by auto
  then show ?thesis using s n digits_val_show_nat [of n] by (simp add: parse_uint_def)
qed

lemma parse_u64_show [rust_str]: "parse_u64 (show_nat (unat w)) = Some w"
proof -
  have "unat w < 2 ^ 64" using unsigned_less [of w] by simp
  then show ?thesis by (simp add: parse_u64_def parse_uint_show_nat)
qed

lemma parse_u16_show [rust_str]: "parse_u16 (show_nat (unat w)) = Some w"
proof -
  have "unat w < 2 ^ 16" using unsigned_less [of w] by simp
  then show ?thesis by (simp add: parse_u16_def parse_uint_show_nat)
qed

end
