(* ===== verification/Rust_Path.thy ===== *)
theory Rust_Path
  imports Rust_Str
begin

text \<open>
  The part of \<open>std::path\<close> (on Unix) that the capability checks call: \<open>components\<close>,
  \<open>starts_with\<close>, equality, \<open>is_absolute\<close> and \<open>join\<close>. A path is the byte string it was
  made from; \<open>starts_with\<close> and equality compare components, not bytes. The second half
  is a specification the source does not have: \<open>lexical_resolve\<close>, the location a path
  names once its \<open>..\<close> components are taken, and \<open>inside\<close>, what it means to stay below a
  directory.
\<close>

type_synonym path = str

datatype component = RootDir | CurDir | ParentDir | Normal str

definition seg_component :: "str \<Rightarrow> component list" where
  "seg_component seg =
     (if seg = [] \<or> seg = ''.'' then []
      else if seg = ''..'' then [ParentDir] else [Normal seg])"

definition is_absolute :: "path \<Rightarrow> bool" where
  "is_absolute p = starts_with p ''/''"

definition path_components :: "path \<Rightarrow> component list" where
  "path_components p =
     (let segs = split_char CHR ''/'' p in
      if is_absolute p then RootDir # concat (map seg_component segs)
      else (if hd segs = ''.'' then [CurDir] else seg_component (hd segs))
           @ concat (map seg_component (tl segs)))"

definition path_starts_with :: "path \<Rightarrow> path \<Rightarrow> bool" where
  "path_starts_with p base = prefix (path_components base) (path_components p)"

definition path_eq :: "path \<Rightarrow> path \<Rightarrow> bool" where
  "path_eq p q = (path_components p = path_components q)"

definition path_join :: "path \<Rightarrow> path \<Rightarrow> path" where
  "path_join base p =
     (if is_absolute p then p
      else if base \<noteq> [] \<and> last base \<noteq> CHR ''/'' then base @ ''/'' @ p else base @ p)"

section \<open>Where a path leads\<close>

text \<open>
  \<open>lexical_resolve\<close> walks the components with a stack: \<open>..\<close> leaves the last directory
  entered (at the root it stays), \<open>.\<close> does nothing. It is what the file system does on a
  path without symbolic links.
\<close>

fun resolve_from :: "str list \<Rightarrow> component list \<Rightarrow> str list" where
  "resolve_from st [] = st"
| "resolve_from st (RootDir # cs) = resolve_from [] cs"
| "resolve_from st (CurDir # cs) = resolve_from st cs"
| "resolve_from st (ParentDir # cs) = resolve_from (butlast st) cs"
| "resolve_from st (Normal n # cs) = resolve_from (st @ [n]) cs"

definition lexical_resolve :: "path \<Rightarrow> str list" where
  "lexical_resolve p = resolve_from [] (path_components p)"

definition inside :: "path \<Rightarrow> path \<Rightarrow> bool" where
  "inside dir p = prefix (lexical_resolve dir) (lexical_resolve p)"

lemma resolve_from_append: "resolve_from st (xs @ ys) = resolve_from (resolve_from st xs) ys"
  by (induction st xs rule: resolve_from.induct) auto

lemma resolve_from_descends:
  "ParentDir \<notin> set cs \<Longrightarrow> RootDir \<notin> set cs \<Longrightarrow> prefix st (resolve_from st cs)"
  by (induction st cs rule: resolve_from.induct)
     (auto intro: prefix_order.trans [of st "st @ [n]" for st n])

lemma RootDir_seg [simp]: "RootDir \<notin> set (seg_component s)"
  by (simp add: seg_component_def)

lemma RootDir_tl_components: "RootDir \<notin> set (tl (path_components p))"
proof (cases "is_absolute p")
  case False
  then have "RootDir \<notin> set (path_components p)" by (simp add: path_components_def Let_def)
  then show ?thesis by (cases "path_components p") auto
qed (simp add: path_components_def Let_def)

lemma RootDir_only_first: "path_components p = cs @ ds \<Longrightarrow> cs \<noteq> [] \<Longrightarrow> RootDir \<notin> set ds"
  using RootDir_tl_components [of p] by (cases cs) auto

lemma path_components_Nil_iff_relative: "path_components [] = []"
  by (simp add: path_components_def seg_component_def is_absolute_def starts_with_def)

lemma path_components_absolute: "is_absolute p \<Longrightarrow> \<exists>cs. path_components p = RootDir # cs"
  by (simp add: path_components_def Let_def)

text \<open>
  Component prefixes confine a path as long as what follows the prefix has no \<open>..\<close>.
\<close>

lemma starts_with_inside:
  assumes "path_starts_with p base" "path_components base \<noteq> []"
    and "ParentDir \<notin> set (path_components p)"
  shows "inside base p"
proof -
  from assms(1) obtain ds where ds: "path_components p = path_components base @ ds"
    by (auto simp: path_starts_with_def prefix_def)
  then have "RootDir \<notin> set ds" using assms(2) by (rule RootDir_only_first)
  moreover have "ParentDir \<notin> set ds" using assms(3) ds by simp
  ultimately show ?thesis
    by (simp add: inside_def lexical_resolve_def ds resolve_from_append resolve_from_descends)
qed

section \<open>Appending segments\<close>

lemma split_char_append_gen: "split_char d (a @ d # b) = split_char d a @ split_char d b"
  by (induction a) (auto split: list.splits)

lemma path_components_append:
  assumes "base \<noteq> []"
  shows "path_components (base @ CHR ''/'' # q)
       = path_components base @ concat (map seg_component (split_char CHR ''/'' q))"
proof -
  have "is_absolute (base @ CHR ''/'' # q) = is_absolute base"
    using assms by (cases base) (auto simp: is_absolute_def starts_with_def)
  then show ?thesis
    by (simp add: path_components_def Let_def split_char_append_gen)
qed

definition normal_segment :: "str \<Rightarrow> bool" where
  "normal_segment s \<longleftrightarrow> s \<noteq> [] \<and> s \<noteq> ''.'' \<and> s \<noteq> ''..'' \<and> CHR ''/'' \<notin> set s"

lemma seg_component_normal: "normal_segment s \<Longrightarrow> seg_component s = [Normal s]"
  by (simp add: normal_segment_def seg_component_def)

lemma concat_seg_normal:
  "(\<And>s. s \<in> set ss \<Longrightarrow> normal_segment s) \<Longrightarrow> concat (map seg_component ss) = map Normal ss"
  by (induction ss) (auto simp: seg_component_normal)

lemma resolve_from_normal: "resolve_from st (map Normal ss) = st @ ss"
  by (induction ss arbitrary: st) auto

lemma resolve_from_parents:
  "resolve_from st (replicate n ParentDir) = take (length st - n) st"
proof (induction n arbitrary: st)
  case (Suc n)
  then show ?case by (simp add: butlast_conv_take min_def)
qed simp

text \<open>
  The segments \<open>..\<close>, repeated often enough, lead from below any directory to any other
  location, and keep the directory as a component prefix.
\<close>

definition escape_path :: "path \<Rightarrow> str list \<Rightarrow> path" where
  "escape_path base target =
     base @ ''/'' @ join ''/'' (replicate (length (lexical_resolve base)) ''..'' @ target)"

lemma components_escape_path:
  assumes "base \<noteq> []" "\<And>s. s \<in> set target \<Longrightarrow> normal_segment s"
  shows "path_components (escape_path base target)
       = path_components base @ replicate (length (lexical_resolve base)) ParentDir @ map Normal target"
proof -
  let ?n = "length (lexical_resolve base)"
  let ?segs = "replicate ?n ''..'' @ target"
  have dots: "concat (replicate n (seg_component ''..'')) = replicate n ParentDir" for n
    by (induction n) (auto simp: seg_component_def)
  have "concat (map seg_component (split_char CHR ''/'' (join ''/'' ?segs)))
      = concat (map seg_component ?segs)"
  proof (cases "?segs = []")
    case False
    have "CHR ''/'' \<notin> set s" if "s \<in> set ?segs" for s
      using that assms(2) by (auto simp: normal_segment_def)
    with False show ?thesis by (subst split_char_join) auto
  qed (simp add: seg_component_def)
  then show ?thesis
    using assms by (simp add: escape_path_def path_components_append dots concat_seg_normal)
qed

lemma escape_path_leads:
  assumes "base \<noteq> []" "\<And>s. s \<in> set target \<Longrightarrow> normal_segment s"
  shows "path_starts_with (escape_path base target) base"
    and "lexical_resolve (escape_path base target) = target"
proof -
  note comps = components_escape_path [OF assms]
  show "path_starts_with (escape_path base target) base"
    by (simp add: path_starts_with_def comps)
  show "lexical_resolve (escape_path base target) = target"
    by (simp add: lexical_resolve_def comps resolve_from_append resolve_from_parents
        resolve_from_normal)
qed

end
