(* ===== verification/Caps.thy ===== *)
theory Caps
  imports Rust_Path
begin

text \<open>
  The data of \<open>crates/rusty-js-runtime/src/caps.rs\<close>: the four enforcement modes, module
  identities and their provenance, the capability records (\<open>Fs\<close>, \<open>Stdio\<close>, \<open>Clock\<close>,
  \<open>Scheduler\<close>, \<open>Process\<close>, \<open>Env\<close>, \<open>Net\<close>) with the policies inside them, the operations
  that are checked against them, and the decision functions. The dispatcher that uses
  them is in \<open>Caps_Dispatch\<close>. Two properties close the theory: the confinement of path
  prefixes and the attenuation of derived file-system capabilities.
\<close>

section \<open>Modes and modules\<close>

datatype CapMode = Compat | Audit | SealedDeps | Sealed

definition CapMode_default :: CapMode where
  "CapMode_default = Compat"

fun CapMode_as_str :: "CapMode \<Rightarrow> str" where
  "CapMode_as_str Compat = ''compat''"
| "CapMode_as_str Audit = ''audit''"
| "CapMode_as_str SealedDeps = ''sealed-deps''"
| "CapMode_as_str Sealed = ''sealed''"

definition CapMode_from_str :: "str \<Rightarrow> CapMode option" where
  "CapMode_from_str s =
     (if s = ''compat'' \<or> s = ''0'' then Some Compat
      else if s = ''audit'' \<or> s = ''1'' then Some Audit
      else if s = ''sealed-deps'' \<or> s = ''2'' then Some SealedDeps
      else if s = ''sealed'' \<or> s = ''3'' then Some Sealed
      else None)"

datatype ModuleProvenance = Application | Dependency | External | Builtin

fun is_application :: "ModuleProvenance \<Rightarrow> bool" where
  "is_application Application = True"
| "is_application Builtin = True"
| "is_application Dependency = False"
| "is_application External = False"

record ModuleId =
  url :: str
  provenance :: ModuleProvenance

definition ModuleId_application :: "str \<Rightarrow> ModuleId" where
  "ModuleId_application u = \<lparr>url = u, provenance = Application\<rparr>"

definition ModuleId_dependency :: "str \<Rightarrow> ModuleId" where
  "ModuleId_dependency u = \<lparr>url = u, provenance = Dependency\<rparr>"

definition ModuleId_builtin :: "str \<Rightarrow> ModuleId" where
  "ModuleId_builtin name = \<lparr>url = name, provenance = Builtin\<rparr>"

record CapabilityError =
  capability :: str
  operation :: str
  calling_module :: str
  err_mode :: CapMode
  hint :: "str option"

definition CapabilityError_fmt :: "CapabilityError \<Rightarrow> str" where
  "CapabilityError_fmt e =
     capability e @ ''.'' @ operation e @ '': no '' @ capability e
     @ '' capability granted to module '' @ [CHR 0x27] @ calling_module e @ [CHR 0x27]
     @ '' (mode: '' @ CapMode_as_str (err_mode e) @ '')''
     @ (case hint e of
          None \<Rightarrow> ''''
        | Some h \<Rightarrow> '' '' @ [CHR 0xE2, CHR 0x80, CHR 0x94] @ '' hint: '' @ h)"

section \<open>File system\<close>

datatype PathPolicy =
  PathNone | PathAny | PathPrefix path | PathPrefixes "path list" | PathExact "path list"

fun PathPolicy_allows :: "PathPolicy \<Rightarrow> path \<Rightarrow> bool" where
  "PathPolicy_allows PathNone p = False"
| "PathPolicy_allows PathAny p = True"
| "PathPolicy_allows (PathPrefix q) p = path_starts_with p q"
| "PathPolicy_allows (PathPrefixes qs) p = list_ex (\<lambda>q. path_starts_with p q) qs"
| "PathPolicy_allows (PathExact qs) p = list_ex (\<lambda>q. path_eq q p) qs"

text \<open>
  The current directory is the operating system's: \<open>cwd\<close> is what \<open>std::env::current_dir\<close>
  returns, \<open>None\<close> when it fails.
\<close>

definition path_allowed_for_fs_op :: "path option \<Rightarrow> PathPolicy \<Rightarrow> path \<Rightarrow> bool" where
  "path_allowed_for_fs_op cwd policy p =
     (if PathPolicy_allows policy p then True
      else if is_absolute p then False
      else (case cwd of
              None \<Rightarrow> False
            | Some d \<Rightarrow> PathPolicy_allows policy (path_join d p)))"

record Fs =
  fs_read :: PathPolicy
  fs_write :: PathPolicy
  fs_list :: PathPolicy
  fs_stat :: PathPolicy
  fs_mkdir :: PathPolicy
  fs_remove :: PathPolicy

definition Fs_full :: Fs where
  "Fs_full = \<lparr>fs_read = PathAny, fs_write = PathAny, fs_list = PathAny,
              fs_stat = PathAny, fs_mkdir = PathAny, fs_remove = PathAny\<rparr>"

definition Fs_none :: Fs where
  "Fs_none = \<lparr>fs_read = PathNone, fs_write = PathNone, fs_list = PathNone,
              fs_stat = PathNone, fs_mkdir = PathNone, fs_remove = PathNone\<rparr>"

definition sub_dir :: "Fs \<Rightarrow> path \<Rightarrow> Fs" where
  "sub_dir self pre =
     (let narrow = (\<lambda>p. case p of PathNone \<Rightarrow> PathNone | _ \<Rightarrow> PathPrefix pre) in
      \<lparr>fs_read = narrow (fs_read self), fs_write = narrow (fs_write self),
       fs_list = narrow (fs_list self), fs_stat = narrow (fs_stat self),
       fs_mkdir = narrow (fs_mkdir self), fs_remove = narrow (fs_remove self)\<rparr>)"

definition read_only :: "Fs \<Rightarrow> Fs" where
  "read_only self =
     \<lparr>fs_read = fs_read self, fs_write = PathNone, fs_list = fs_list self,
      fs_stat = fs_stat self, fs_mkdir = PathNone, fs_remove = PathNone\<rparr>"

datatype FsOp =
  FsRead path | FsWrite path | FsList path | FsStat path | FsMkdir path | FsRemove path

fun FsOp_describe :: "FsOp \<Rightarrow> str" where
  "FsOp_describe (FsRead p) = ''read('' @ p @ '')''"
| "FsOp_describe (FsWrite p) = ''write('' @ p @ '')''"
| "FsOp_describe (FsList p) = ''list('' @ p @ '')''"
| "FsOp_describe (FsStat p) = ''stat('' @ p @ '')''"
| "FsOp_describe (FsMkdir p) = ''mkdir('' @ p @ '')''"
| "FsOp_describe (FsRemove p) = ''remove('' @ p @ '')''"

fun FsOp_policy :: "FsOp \<Rightarrow> Fs \<Rightarrow> PathPolicy \<times> str \<times> path" where
  "FsOp_policy (FsRead p) cap = (fs_read cap, ''read'', p)"
| "FsOp_policy (FsWrite p) cap = (fs_write cap, ''write'', p)"
| "FsOp_policy (FsList p) cap = (fs_list cap, ''list'', p)"
| "FsOp_policy (FsStat p) cap = (fs_stat cap, ''stat'', p)"
| "FsOp_policy (FsMkdir p) cap = (fs_mkdir cap, ''mkdir'', p)"
| "FsOp_policy (FsRemove p) cap = (fs_remove cap, ''remove'', p)"

section \<open>Standard streams, clock, scheduler, process\<close>

record Stdio =
  stdout :: bool
  stderr :: bool

definition Stdio_full :: Stdio where
  "Stdio_full = \<lparr>stdout = True, stderr = True\<rparr>"

definition Stdio_none :: Stdio where
  "Stdio_none = \<lparr>stdout = False, stderr = False\<rparr>"

datatype StdioOp = StdioStdout bytes | StdioStderr bytes

datatype ClockResolution = ClockDisabled | ClockCoarse duration | ClockFine

record Clock =
  resolution :: ClockResolution

definition Clock_fine :: Clock where
  "Clock_fine = \<lparr>resolution = ClockFine\<rparr>"

definition Clock_disabled :: Clock where
  "Clock_disabled = \<lparr>resolution = ClockDisabled\<rparr>"

definition Clock_coarse :: "duration \<Rightarrow> Clock" where
  "Clock_coarse d = \<lparr>resolution = ClockCoarse d\<rparr>"

datatype ClockOp = ClockNow | ClockHighResolution

record Scheduler =
  timers :: bool
  microtasks :: bool
  min_delay :: duration

definition Scheduler_full :: Scheduler where
  "Scheduler_full = \<lparr>timers = True, microtasks = True, min_delay = 0\<rparr>"

definition Scheduler_none :: Scheduler where
  "Scheduler_none = \<lparr>timers = False, microtasks = False, min_delay = 0\<rparr>"

datatype SchedulerOp = SchedTimer duration | SchedMicrotask

definition as_millis :: "duration \<Rightarrow> nat" where
  "as_millis d = d div 1000000"

record Process =
  may_exit :: bool
  may_read_cwd :: bool
  may_read_pid :: bool
  may_spawn :: bool

definition Process_full :: Process where
  "Process_full = \<lparr>may_exit = True, may_read_cwd = True, may_read_pid = True, may_spawn = True\<rparr>"

definition Process_none :: Process where
  "Process_none = \<lparr>may_exit = False, may_read_cwd = False, may_read_pid = False, may_spawn = False\<rparr>"

datatype ProcessOp = ProcExit i32 | ProcReadCwd | ProcReadPid | ProcSpawn str

section \<open>Environment\<close>

datatype EnvVarPolicy = EnvNone | EnvAny | EnvWhitelist "str list"

fun EnvVarPolicy_allows :: "EnvVarPolicy \<Rightarrow> str \<Rightarrow> bool" where
  "EnvVarPolicy_allows EnvNone name = False"
| "EnvVarPolicy_allows EnvAny name = True"
| "EnvVarPolicy_allows (EnvWhitelist ws) name = list_ex (\<lambda>w. w = name) ws"

record Env =
  vars :: EnvVarPolicy
  system_info :: bool

definition Env_full :: Env where
  "Env_full = \<lparr>vars = EnvAny, system_info = True\<rparr>"

definition Env_none :: Env where
  "Env_none = \<lparr>vars = EnvNone, system_info = False\<rparr>"

datatype EnvOp = EnvReadVar str | EnvSystemInfo str

section \<open>Network\<close>

record NetEndpoint =
  host :: str
  port :: u16

definition NetEndpoint_new :: "str \<Rightarrow> u16 \<Rightarrow> NetEndpoint" where
  "NetEndpoint_new h p = \<lparr>host = h, port = p\<rparr>"

definition NetEndpoint_matches :: "NetEndpoint \<Rightarrow> str \<Rightarrow> u16 \<Rightarrow> bool" where
  "NetEndpoint_matches ep h p \<longleftrightarrow> host ep = h \<and> port ep = p"

definition is_loopback_host :: "str \<Rightarrow> bool" where
  "is_loopback_host h \<longleftrightarrow>
     h = ''127.0.0.1'' \<or> h = ''localhost'' \<or> h = ''::1'' \<or> h = ''[::1]''"

datatype NetListenPolicy =
  ListenNone | ListenAny | ListenLoopbackAnyPort | ListenExact "NetEndpoint list"

fun NetListenPolicy_allows :: "NetListenPolicy \<Rightarrow> str \<Rightarrow> u16 \<Rightarrow> bool" where
  "NetListenPolicy_allows ListenNone h p = False"
| "NetListenPolicy_allows ListenAny h p = True"
| "NetListenPolicy_allows ListenLoopbackAnyPort h p = is_loopback_host h"
| "NetListenPolicy_allows (ListenExact eps) h p = list_ex (\<lambda>ep. NetEndpoint_matches ep h p) eps"

datatype NetConnectPolicy =
  ConnectNone | ConnectAny | ConnectLoopbackAnyPort
  | ConnectHosts "str list" | ConnectExact "NetEndpoint list"

fun NetConnectPolicy_allows :: "NetConnectPolicy \<Rightarrow> str \<Rightarrow> u16 \<Rightarrow> bool" where
  "NetConnectPolicy_allows ConnectNone h p = False"
| "NetConnectPolicy_allows ConnectAny h p = True"
| "NetConnectPolicy_allows ConnectLoopbackAnyPort h p = is_loopback_host h"
| "NetConnectPolicy_allows (ConnectHosts hs) h p = list_ex (\<lambda>x. x = h) hs"
| "NetConnectPolicy_allows (ConnectExact eps) h p = list_ex (\<lambda>ep. NetEndpoint_matches ep h p) eps"

record Net =
  listen :: NetListenPolicy
  connect :: NetConnectPolicy

definition Net_full :: Net where
  "Net_full = \<lparr>listen = ListenAny, connect = ConnectAny\<rparr>"

definition Net_none :: Net where
  "Net_none = \<lparr>listen = ListenNone, connect = ConnectNone\<rparr>"

definition loopback_server :: Net where
  "loopback_server = \<lparr>listen = ListenLoopbackAnyPort, connect = ConnectLoopbackAnyPort\<rparr>"

definition listen_exact :: "str \<Rightarrow> u16 \<Rightarrow> Net" where
  "listen_exact h p = \<lparr>listen = ListenExact [NetEndpoint_new h p], connect = ConnectNone\<rparr>"

datatype NetOp = NetListen str u16 | NetConnect str u16

definition host_port :: "str \<Rightarrow> u16 \<Rightarrow> str" where
  "host_port h p = h @ '':'' @ show_nat (unat p)"

fun NetOp_describe :: "NetOp \<Rightarrow> str" where
  "NetOp_describe (NetListen h p) = ''listen('' @ host_port h p @ '')''"
| "NetOp_describe (NetConnect h p) = ''connect('' @ host_port h p @ '')''"

fun NetOp_allows :: "NetOp \<Rightarrow> Net \<Rightarrow> bool" where
  "NetOp_allows (NetListen h p) cap = NetListenPolicy_allows (listen cap) h p"
| "NetOp_allows (NetConnect h p) cap = NetConnectPolicy_allows (connect cap) h p"

fun NetOp_hint :: "NetOp \<Rightarrow> str" where
  \<open>NetOp_hint (NetListen h p) =
     ''add to cruft-caps.json: { "net": ["'' @ host_port h p @ ''"] }''\<close>
| \<open>NetOp_hint (NetConnect h p) =
     ''add to cruft-caps.json: { "net": ["'' @ host_port h p @ ''"] }''\<close>

section \<open>The ambient bundle\<close>

record AmbientCaps =
  amb_fs :: Fs
  amb_stdio :: Stdio
  amb_clock :: Clock
  amb_scheduler :: Scheduler
  amb_process :: Process
  amb_env :: Env
  amb_net :: Net

definition AmbientCaps_full :: AmbientCaps where
  "AmbientCaps_full =
     \<lparr>amb_fs = Fs_full, amb_stdio = Stdio_full, amb_clock = Clock_fine,
      amb_scheduler = Scheduler_full, amb_process = Process_full, amb_env = Env_full,
      amb_net = Net_full\<rparr>"

definition AmbientCaps_default :: AmbientCaps where
  "AmbientCaps_default = AmbientCaps_full"

section \<open>What the file-system policies confine\<close>

text \<open>The location a file operation names: relative paths start at the current directory.\<close>

definition effective_path :: "path \<Rightarrow> path \<Rightarrow> path" where
  "effective_path cwd p = (if is_absolute p then p else path_join cwd p)"

definition fs_allows :: "path option \<Rightarrow> Fs \<Rightarrow> FsOp \<Rightarrow> bool" where
  "fs_allows cwd cap op =
     path_allowed_for_fs_op cwd (fst (FsOp_policy op cap)) (snd (snd (FsOp_policy op cap)))"

definition is_read_op :: "FsOp \<Rightarrow> bool" where
  "is_read_op op = (case op of FsRead _ \<Rightarrow> True | FsList _ \<Rightarrow> True | FsStat _ \<Rightarrow> True | _ \<Rightarrow> False)"

lemma starts_with_absolute: "is_absolute base \<Longrightarrow> path_starts_with p base \<Longrightarrow> is_absolute p"
proof (rule ccontr)
  assume base: "is_absolute base" and sw: "path_starts_with p base" and "\<not> is_absolute p"
  then have "RootDir \<notin> set (path_components p)" by (simp add: path_components_def Let_def)
  moreover have "RootDir \<in> set (path_components base)"
    using path_components_absolute [OF base] by auto
  ultimately show False using sw by (auto simp: path_starts_with_def prefix_def)
qed

lemma allowed_prefixes_effective:
  assumes "path_allowed_for_fs_op (Some cwd) (PathPrefixes ds) p"
    and "\<And>d. d \<in> set ds \<Longrightarrow> is_absolute d"
  shows "\<exists>d \<in> set ds. path_starts_with (effective_path cwd p) d"
  using assms starts_with_absolute
  by (fastforce simp: path_allowed_for_fs_op_def effective_path_def list_ex_iff split: if_splits)

lemma allowed_prefixes_inside:
  assumes "path_allowed_for_fs_op (Some cwd) (PathPrefixes ds) p"
    and abs: "\<And>d. d \<in> set ds \<Longrightarrow> is_absolute d"
    and "ParentDir \<notin> set (path_components (effective_path cwd p))"
  shows "\<exists>d \<in> set ds. inside d (effective_path cwd p)"
proof -
  from allowed_prefixes_effective [OF assms(1,2)] obtain d
    where d: "d \<in> set ds" "path_starts_with (effective_path cwd p) d" by blast
  with abs path_components_absolute [of d] have "path_components d \<noteq> []" by auto
  with d assms(3) show ?thesis using starts_with_inside by blast
qed

text \<open>
  A prefix policy does not confine by itself. For every non-empty directory
  there is a path that the policy allows and that leads to any chosen location, through
  \<open>..\<close> components, which the component-wise \<open>starts_with\<close> never resolves.
\<close>

theorem prefix_policy_escape:
  assumes "dir \<noteq> []" and "\<forall>s \<in> set target. normal_segment s"
  shows "\<exists>p. path_allowed_for_fs_op cwd (PathPrefix dir) p \<and> lexical_resolve p = target"
proof -
  have *: "normal_segment s" if "s \<in> set target" for s using that assms(2) by blast
  have "path_allowed_for_fs_op cwd (PathPrefix dir) (escape_path dir target)"
    using escape_path_leads(1) [OF assms(1) *] by (simp add: path_allowed_for_fs_op_def)
  then show ?thesis using escape_path_leads(2) [OF assms(1) *] by blast
qed

theorem prefix_policy_escape_witness:
  "\<exists>p. path_allowed_for_fs_op None (PathPrefix ''/srv/app'') p
       \<and> lexical_resolve p = [''etc'', ''passwd'']"
  using prefix_policy_escape [of "''/srv/app''" "[''etc'', ''passwd'']" None]
  by (simp add: normal_segment_def)

text \<open>
  \<open>read_only\<close> attenuates. What the derived capability allows, the original
  allows, and it allows no write, no directory creation and no removal.
\<close>

theorem read_only_attenuates:
  "fs_allows cwd (read_only cap) op \<longleftrightarrow> is_read_op op \<and> fs_allows cwd cap op"
  by (cases op)
     (auto simp: fs_allows_def read_only_def is_read_op_def path_allowed_for_fs_op_def
           split: option.splits)

lemma sub_dir_policy:
  "fst (FsOp_policy op (sub_dir cap pre)) =
     (if fst (FsOp_policy op cap) = PathNone then PathNone else PathPrefix pre)"
  by (cases op) (auto simp: sub_dir_def Let_def split: PathPolicy.splits)

lemma sub_dir_path: "snd (snd (FsOp_policy op (sub_dir cap pre))) = snd (snd (FsOp_policy op cap))"
  by (cases op) (auto simp: sub_dir_def Let_def)

text \<open>
  Exactly what \<open>sub_dir\<close> grants. An operation survives when the original
  policy for it was not \<open>None\<close> and the path has the new prefix; the original's own
  restriction plays no part.
\<close>

theorem sub_dir_exact:
  "fs_allows cwd (sub_dir cap pre) op \<longleftrightarrow>
     fst (FsOp_policy op cap) \<noteq> PathNone
     \<and> path_allowed_for_fs_op cwd (PathPrefix pre) (snd (snd (FsOp_policy op cap)))"
  by (auto simp: fs_allows_def sub_dir_policy sub_dir_path path_allowed_for_fs_op_def
      split: option.splits)

text \<open>
  Property C40: on a capability whose policies are all \<open>None\<close> or \<open>Any\<close>, as \<open>Fs::full\<close> is,
  \<open>sub_dir\<close> attenuates; on one that is already narrowed it can widen the authority: a
  capability for one directory yields a capability for a different one.
\<close>

theorem sub_dir_attenuation_boundary:
  "(\<forall>op. fst (FsOp_policy op cap) \<in> {PathNone, PathAny} \<longrightarrow>
      fs_allows cwd (sub_dir cap pre) op \<longrightarrow> fs_allows cwd cap op)
   \<and> (\<exists>narrow op. fs_allows cwd (sub_dir narrow ''/b'') op \<and> \<not> fs_allows cwd narrow op
        \<and> narrow = sub_dir Fs_full ''/a'')"
proof
  show "\<forall>op. fst (FsOp_policy op cap) \<in> {PathNone, PathAny} \<longrightarrow>
      fs_allows cwd (sub_dir cap pre) op \<longrightarrow> fs_allows cwd cap op"
    by (auto simp: fs_allows_def sub_dir_policy sub_dir_path path_allowed_for_fs_op_def
        split: option.splits)
  have "fs_allows cwd (sub_dir (sub_dir Fs_full ''/a'') ''/b'') (FsRead ''/b/x'')
      \<and> \<not> fs_allows cwd (sub_dir Fs_full ''/a'') (FsRead ''/b/x'')"
    by (simp add: fs_allows_def sub_dir_def Let_def Fs_full_def path_allowed_for_fs_op_def
        path_starts_with_def path_components_def is_absolute_def starts_with_def
        seg_component_def)
  then show "\<exists>narrow op. fs_allows cwd (sub_dir narrow ''/b'') op \<and> \<not> fs_allows cwd narrow op
        \<and> narrow = sub_dir Fs_full ''/a''" by blast
qed

theorem sub_dir_attenuation_boundary_witness:
  "fs_allows None (sub_dir Fs_full ''/a'') (FsRead ''/a/x'') \<and> fs_allows None Fs_full (FsRead ''/a/x'')
   \<and> (\<exists>narrow op. fs_allows None (sub_dir narrow ''/b'') op \<and> \<not> fs_allows None narrow op)"
proof -
  have h: "fs_allows None (sub_dir Fs_full ''/a'') (FsRead ''/a/x'')"
    by (simp add: fs_allows_def sub_dir_def Let_def Fs_full_def path_allowed_for_fs_op_def
        path_starts_with_def path_components_def is_absolute_def starts_with_def
        seg_component_def)
  with sub_dir_attenuation_boundary [of Fs_full None "''/a''"] show ?thesis
    by (auto simp: Fs_full_def)
qed

end
