(* ===== verification/Caps_Dispatch.thy ===== *)
theory Caps_Dispatch
  imports Caps
begin

text \<open>
  The dispatcher of \<open>crates/rusty-js-runtime/src/caps.rs\<close>: the audit log, the per-module
  grants and the eight \<open>require_*\<close> checks every host operation goes through, and the
  caller classification of \<open>crates/cruft/src/fs.rs\<close>. The state is threaded explicitly: a
  check returns its \<open>Result\<close> and the dispatcher with the log it leaves. What the checks
  read from the operating system is the argument \<open>HostEnv\<close>.

  All eight checks obey one contract, the locale \<open>cap_gate\<close>: open modes let everything
  through, enforced modes decide by the authority the caller holds, and the log records
  the call in audit mode only. The consequences are proved once, inside the locale, and
  interpreted for each check.
\<close>

section \<open>State\<close>

record HostEnv =
  current_dir :: "path option"
  now_micros :: "nat option"

record AuditRecord =
  rec_caller :: str
  rec_capability :: str
  rec_operation :: str
  timestamp_micros :: nat

record AuditLog =
  records :: "AuditRecord list"

definition AuditLog_default :: AuditLog where
  "AuditLog_default = \<lparr>records = []\<rparr>"

definition AuditLog_record :: "HostEnv \<Rightarrow> AuditLog \<Rightarrow> ModuleId \<Rightarrow> str \<Rightarrow> str \<Rightarrow> AuditLog" where
  "AuditLog_record env log caller cap op =
     log\<lparr>records := records log @
           [\<lparr>rec_caller = url caller, rec_capability = cap, rec_operation = op,
             timestamp_micros = unwrap_or 0 (now_micros env)\<rparr>]\<rparr>"

record ModuleGrant =
  g_fs :: Fs
  g_net :: Net
  g_env :: Env
  g_process :: Process
  g_stdio :: Stdio

record CapDispatcher =
  mode :: CapMode
  ambient :: AmbientCaps
  net_grant :: Net
  audit :: "AuditLog mutex"
  per_module :: "(str \<rightharpoonup> ModuleGrant) mutex"

definition CapDispatcher_new :: "CapMode \<Rightarrow> CapDispatcher" where
  "CapDispatcher_new m =
     \<lparr>mode = m, ambient = AmbientCaps_full, net_grant = Net_none,
      audit = mutex_new AuditLog_default, per_module = mutex_new Map.empty\<rparr>"

definition grant_module ::
  "CapDispatcher \<Rightarrow> str \<Rightarrow> Fs \<Rightarrow> Net \<Rightarrow> Env \<Rightarrow> Process \<Rightarrow> Stdio \<Rightarrow> CapDispatcher" where
  "grant_module d u fs net env process stdio =
     (case lock (per_module d) of
        Some g \<Rightarrow>
          d\<lparr>per_module := (per_module d)\<lparr>inner :=
              g(u \<mapsto> \<lparr>g_fs = fs, g_net = net, g_env = env, g_process = process, g_stdio = stdio\<rparr>)\<rparr>\<rparr>
      | None \<Rightarrow> d)"

definition module_grant :: "CapDispatcher \<Rightarrow> str \<Rightarrow> ModuleGrant option" where
  "module_grant d u = (case lock (per_module d) of None \<Rightarrow> None | Some g \<Rightarrow> g u)"

definition with_net_grant :: "CapDispatcher \<Rightarrow> Net \<Rightarrow> CapDispatcher" where
  "with_net_grant d net = d\<lparr>net_grant := net\<rparr>"

definition CapDispatcher_compat :: CapDispatcher where
  "CapDispatcher_compat = CapDispatcher_new Compat"

definition CapDispatcher_default :: CapDispatcher where
  "CapDispatcher_default = CapDispatcher_compat"

definition audit_mode :: CapDispatcher where
  "audit_mode = CapDispatcher_new Audit"

text \<open>\<open>drain_audit\<close> panics on a poisoned log: \<open>None\<close>.\<close>

definition drain_audit :: "CapDispatcher \<Rightarrow> (AuditRecord list \<times> CapDispatcher) option" where
  "drain_audit d =
     (case lock (audit d) of
        None \<Rightarrow> None
      | Some g \<Rightarrow> Some (records g, d\<lparr>audit := (audit d)\<lparr>inner := g\<lparr>records := []\<rparr>\<rparr>\<rparr>))"

definition record_audit :: "HostEnv \<Rightarrow> CapDispatcher \<Rightarrow> ModuleId \<Rightarrow> str \<Rightarrow> str \<Rightarrow> CapDispatcher" where
  "record_audit env d caller cap op =
     (if mode d \<noteq> Audit then d
      else (case lock (audit d) of
              Some g \<Rightarrow>
                d\<lparr>audit := (audit d)\<lparr>inner := AuditLog_record env g caller cap op\<rparr>\<rparr>
            | None \<Rightarrow> d))"

section \<open>The checks\<close>

type_synonym verdict = "(CapabilityError + unit) \<times> CapDispatcher"

definition is_some_and :: "'a option \<Rightarrow> ('a \<Rightarrow> bool) \<Rightarrow> bool" where
  "is_some_and m f = (case m of None \<Rightarrow> False | Some x \<Rightarrow> f x)"

definition require_fs :: "HostEnv \<Rightarrow> CapDispatcher \<Rightarrow> Fs \<Rightarrow> FsOp \<Rightarrow> ModuleId \<Rightarrow> verdict" where
  \<open>require_fs env d cap op caller =
     (let op_desc = FsOp_describe op;
          d' = record_audit env d caller ''fs'' op_desc in
      ((case mode d' of
          Compat \<Rightarrow> Inr ()
        | Audit \<Rightarrow> Inr ()
        | m \<Rightarrow>
            if m = SealedDeps \<and> is_application (provenance caller) then Inr ()
            else
              (let (policy, action, p) = FsOp_policy op cap;
                   granted = is_some_and (module_grant d' (url caller))
                     (\<lambda>g. path_allowed_for_fs_op (current_dir env) (fst (FsOp_policy op (g_fs g))) p) in
               if path_allowed_for_fs_op (current_dir env) policy p \<or> granted then Inr ()
               else Inl \<lparr>capability = ''fs'', operation = op_desc, calling_module = url caller,
                         err_mode = mode d',
                         hint = Some (''add to cruft-caps.json: { "fs": ["'' @ p @ ''"] } for fs '' @ action)\<rparr>)),
       d'))\<close>

fun stdio_allows :: "StdioOp \<Rightarrow> Stdio \<Rightarrow> bool" where
  "stdio_allows (StdioStdout _) c = stdout c"
| "stdio_allows (StdioStderr _) c = stderr c"

fun stdio_stream :: "StdioOp \<Rightarrow> str" where
  "stdio_stream (StdioStdout _) = ''stdout''"
| "stdio_stream (StdioStderr _) = ''stderr''"

definition require_stdio :: "HostEnv \<Rightarrow> CapDispatcher \<Rightarrow> Stdio \<Rightarrow> StdioOp \<Rightarrow> ModuleId \<Rightarrow> verdict" where
  \<open>require_stdio env d cap op caller =
     (let (allowed, stream) = (stdio_allows op cap, stdio_stream op);
          op_desc = ''write('' @ stream @ '')'';
          d' = record_audit env d caller ''stdio'' op_desc in
      ((case mode d' of
          Compat \<Rightarrow> Inr ()
        | Audit \<Rightarrow> Inr ()
        | m \<Rightarrow>
            if m = SealedDeps \<and> is_application (provenance caller) then Inr ()
            else
              (let granted = is_some_and (module_grant d' (url caller)) (\<lambda>g. stdio_allows op (g_stdio g)) in
               if allowed \<or> granted then Inr ()
               else Inl \<lparr>capability = ''stdio'', operation = op_desc, calling_module = url caller,
                         err_mode = mode d',
                         hint = Some (''add to cruft-caps.json: { "stdio": { "'' @ stream @ ''": true } }'')\<rparr>)),
       d'))\<close>

fun ClockOp_desc :: "ClockOp \<Rightarrow> str" where
  "ClockOp_desc ClockNow = ''now()''"
| "ClockOp_desc ClockHighResolution = ''highResolution()''"

definition require_clock :: "HostEnv \<Rightarrow> CapDispatcher \<Rightarrow> Clock \<Rightarrow> ClockOp \<Rightarrow> ModuleId \<Rightarrow> verdict" where
  \<open>require_clock env d cap op caller =
     (let op_desc = ClockOp_desc op;
          d' = record_audit env d caller ''clock'' op_desc in
      ((case mode d' of
          Compat \<Rightarrow> Inr ()
        | Audit \<Rightarrow> Inr ()
        | m \<Rightarrow>
            if m = SealedDeps \<and> is_application (provenance caller) then Inr ()
            else
              (case resolution cap of
                 ClockDisabled \<Rightarrow>
                   Inl \<lparr>capability = ''clock'', operation = op_desc, calling_module = url caller,
                        err_mode = mode d',
                        hint = Some ''no cruft-caps.json grant surface exists for clock yet; avoid clock access or run outside --sealed''\<rparr>
               | _ \<Rightarrow> Inr ())),
       d'))\<close>

fun scheduler_allows :: "SchedulerOp \<Rightarrow> Scheduler \<Rightarrow> bool" where
  "scheduler_allows (SchedTimer _) c = timers c"
| "scheduler_allows SchedMicrotask c = microtasks c"

fun SchedulerOp_kind :: "SchedulerOp \<Rightarrow> str" where
  "SchedulerOp_kind (SchedTimer _) = ''timers''"
| "SchedulerOp_kind SchedMicrotask = ''microtasks''"

fun SchedulerOp_desc :: "SchedulerOp \<Rightarrow> str" where
  "SchedulerOp_desc (SchedTimer t) = ''timer('' @ show_nat (as_millis t) @ ''ms)''"
| "SchedulerOp_desc SchedMicrotask = ''microtask''"

definition require_scheduler ::
  "HostEnv \<Rightarrow> CapDispatcher \<Rightarrow> Scheduler \<Rightarrow> SchedulerOp \<Rightarrow> ModuleId \<Rightarrow> verdict" where
  \<open>require_scheduler env d cap op caller =
     (let (allowed, kind, op_desc) = (scheduler_allows op cap, SchedulerOp_kind op, SchedulerOp_desc op);
          d' = record_audit env d caller ''scheduler'' op_desc in
      ((case mode d' of
          Compat \<Rightarrow> Inr ()
        | Audit \<Rightarrow> Inr ()
        | m \<Rightarrow>
            if m = SealedDeps \<and> is_application (provenance caller) then Inr ()
            else if allowed then Inr ()
            else Inl \<lparr>capability = ''scheduler'', operation = op_desc, calling_module = url caller,
                      err_mode = mode d',
                      hint = Some (''no cruft-caps.json grant surface exists for scheduler '' @ kind
                               @ '' yet; avoid scheduler access or run outside --sealed'')\<rparr>),
       d'))\<close>

fun process_allows :: "ProcessOp \<Rightarrow> Process \<Rightarrow> bool" where
  "process_allows (ProcExit _) c = may_exit c"
| "process_allows ProcReadCwd c = may_read_cwd c"
| "process_allows ProcReadPid c = may_read_pid c"
| "process_allows (ProcSpawn _) c = may_spawn c"

fun ProcessOp_desc :: "ProcessOp \<Rightarrow> str" where
  "ProcessOp_desc (ProcExit c) = ''exit('' @ show_int (sint c) @ '')''"
| "ProcessOp_desc ProcReadCwd = ''cwd()''"
| "ProcessOp_desc ProcReadPid = ''pid''"
| "ProcessOp_desc (ProcSpawn program) = ''spawn('' @ program @ '')''"

fun ProcessOp_hint :: "ProcessOp \<Rightarrow> str" where
  \<open>ProcessOp_hint (ProcSpawn program) =
     ''add to cruft-caps.json: { "exec": ["'' @ program @ ''"] }''\<close>
| \<open>ProcessOp_hint (ProcExit _) =
     ''no cruft-caps.json grant surface exists for process exit yet; avoid process.exit or run outside --sealed''\<close>
| \<open>ProcessOp_hint ProcReadCwd =
     ''no cruft-caps.json grant surface exists for process cwd yet; avoid process.cwd or run outside --sealed''\<close>
| \<open>ProcessOp_hint ProcReadPid =
     ''no cruft-caps.json grant surface exists for process pid yet; avoid process.pid or run outside --sealed''\<close>

definition require_process ::
  "HostEnv \<Rightarrow> CapDispatcher \<Rightarrow> Process \<Rightarrow> ProcessOp \<Rightarrow> ModuleId \<Rightarrow> verdict" where
  \<open>require_process env d cap op caller =
     (let (allowed, op_desc) = (process_allows op cap, ProcessOp_desc op);
          d' = record_audit env d caller ''process'' op_desc in
      ((case mode d' of
          Compat \<Rightarrow> Inr ()
        | Audit \<Rightarrow> Inr ()
        | m \<Rightarrow>
            if m = SealedDeps \<and> is_application (provenance caller) then Inr ()
            else
              (let granted = is_some_and (module_grant d' (url caller)) (\<lambda>g. process_allows op (g_process g)) in
               if allowed \<or> granted then Inr ()
               else Inl \<lparr>capability = ''process'', operation = op_desc, calling_module = url caller,
                         err_mode = mode d', hint = Some (ProcessOp_hint op)\<rparr>)),
       d'))\<close>

fun env_allows :: "EnvOp \<Rightarrow> Env \<Rightarrow> bool" where
  "env_allows (EnvReadVar name) c = EnvVarPolicy_allows (vars c) name"
| "env_allows (EnvSystemInfo _) c = system_info c"

fun EnvOp_desc :: "EnvOp \<Rightarrow> str" where
  "EnvOp_desc (EnvReadVar name) = ''readVar('' @ name @ '')''"
| "EnvOp_desc (EnvSystemInfo field) = ''systemInfo('' @ field @ '')''"

fun EnvOp_hint :: "EnvOp \<Rightarrow> str" where
  \<open>EnvOp_hint (EnvReadVar name) =
     ''add to cruft-caps.json: { "env": ["'' @ name @ ''"] }''\<close>
| \<open>EnvOp_hint (EnvSystemInfo _) =
     ''no cruft-caps.json grant surface exists for env systemInfo yet; avoid systemInfo access or run outside --sealed''\<close>

definition require_env :: "HostEnv \<Rightarrow> CapDispatcher \<Rightarrow> Env \<Rightarrow> EnvOp \<Rightarrow> ModuleId \<Rightarrow> verdict" where
  \<open>require_env env d cap op caller =
     (let op_desc = EnvOp_desc op;
          d' = record_audit env d caller ''env'' op_desc in
      ((case mode d' of
          Compat \<Rightarrow> Inr ()
        | Audit \<Rightarrow> Inr ()
        | m \<Rightarrow>
            if m = SealedDeps \<and> is_application (provenance caller) then Inr ()
            else
              (let granted = is_some_and (module_grant d' (url caller)) (\<lambda>g. env_allows op (g_env g)) in
               if env_allows op cap \<or> granted then Inr ()
               else Inl \<lparr>capability = ''env'', operation = op_desc, calling_module = url caller,
                         err_mode = mode d', hint = Some (EnvOp_hint op)\<rparr>)),
       d'))\<close>

definition require_net :: "HostEnv \<Rightarrow> CapDispatcher \<Rightarrow> Net \<Rightarrow> NetOp \<Rightarrow> ModuleId \<Rightarrow> verdict" where
  \<open>require_net env d cap op caller =
     (let op_desc = NetOp_describe op;
          d' = record_audit env d caller ''net'' op_desc in
      ((case mode d' of
          Compat \<Rightarrow> Inr ()
        | Audit \<Rightarrow> Inr ()
        | m \<Rightarrow>
            if m = SealedDeps \<and> is_application (provenance caller) then Inr ()
            else
              (let granted = is_some_and (module_grant d' (url caller)) (\<lambda>g. NetOp_allows op (g_net g)) in
               if NetOp_allows op cap \<or> NetOp_allows op (net_grant d') \<or> granted then Inr ()
               else Inl \<lparr>capability = ''net'', operation = op_desc, calling_module = url caller,
                         err_mode = mode d', hint = Some (NetOp_hint op)\<rparr>)),
       d'))\<close>

definition has_explicit_net_grant :: "CapDispatcher \<Rightarrow> NetOp \<Rightarrow> ModuleId \<Rightarrow> bool" where
  "has_explicit_net_grant d op caller \<longleftrightarrow>
     NetOp_allows op (net_grant d)
     \<or> is_some_and (module_grant d (url caller)) (\<lambda>g. NetOp_allows op (g_net g))"

definition require_native_addon_load ::
  "HostEnv \<Rightarrow> CapDispatcher \<Rightarrow> str \<Rightarrow> ModuleId \<Rightarrow> verdict" where
  "require_native_addon_load env d p caller =
     (let op_desc = ''dlopen('' @ p @ '')'';
          d' = record_audit env d caller ''native-addon'' op_desc in
      ((case mode d' of
          Compat \<Rightarrow> Inr ()
        | Audit \<Rightarrow> Inr ()
        | _ \<Rightarrow> Inl \<lparr>capability = ''native-addon'', operation = op_desc, calling_module = url caller,
                   err_mode = mode d',
                   hint = Some ''.node native addons execute arbitrary host code; run outside sealed modes''\<rparr>),
       d'))"

text \<open>
  \<open>check_fs\<close> of \<open>crates/cruft/src/fs.rs\<close>, the only caller of \<open>require_fs\<close>: the running
  module's URL (empty when no module runs) decides the provenance, and the base authority
  is empty. The \<open>RuntimeError\<close> it returns carries the formatted capability error.
\<close>

definition classify_provenance :: "str \<Rightarrow> ModuleProvenance" where
  "classify_provenance u =
     (if contains_str ''/node_modules/'' u then Dependency
      else if starts_with u ''node:'' then Builtin
      else Application)"

definition check_fs ::
  "HostEnv \<Rightarrow> str list \<Rightarrow> CapDispatcher \<Rightarrow> FsOp \<Rightarrow> (str + unit) \<times> CapDispatcher" where
  "check_fs env current_module_url d op =
     (let u = (if current_module_url = [] then [] else last current_module_url);
          caller = \<lparr>url = u, provenance = classify_provenance u\<rparr>;
          (r, d') = require_fs env d Fs_none op caller in
      ((case r of Inl e \<Rightarrow> Inl (CapabilityError_fmt e) | Inr x \<Rightarrow> Inr x), d'))"

section \<open>Frame lemmas\<close>

lemma record_audit_frame [simp]:
  "mode (record_audit env d m c op) = mode d"
  "ambient (record_audit env d m c op) = ambient d"
  "net_grant (record_audit env d m c op) = net_grant d"
  "per_module (record_audit env d m c op) = per_module d"
  "module_grant (record_audit env d m c op) u = module_grant d u"
  by (auto simp: record_audit_def module_grant_def split: option.splits)

lemma grant_module_frame [simp]:
  "mode (grant_module d u fs net env pr st) = mode d"
  "net_grant (grant_module d u fs net env pr st) = net_grant d"
  "audit (grant_module d u fs net env pr st) = audit d"
  by (auto simp: grant_module_def split: option.splits)

lemma module_grant_grant_module:
  "module_grant (grant_module d u fs net env pr st) v =
     (if v = u \<and> \<not> poisoned (per_module d)
      then Some \<lparr>g_fs = fs, g_net = net, g_env = env, g_process = pr, g_stdio = st\<rparr>
      else module_grant d v)"
  by (auto simp: grant_module_def module_grant_def lock_def)

lemma module_grant_other [simp]:
  "v \<noteq> u \<Longrightarrow> module_grant (grant_module d u fs net env pr st) v = module_grant d v"
  by (simp add: module_grant_grant_module)

lemma module_grant_mode [simp]: "module_grant (d\<lparr>mode := x\<rparr>) u = module_grant d u"
  by (simp add: module_grant_def)

lemma is_some_and_simps [simp]: "\<not> is_some_and None f" "is_some_and (Some x) f = f x"
  by (simp_all add: is_some_and_def)

text \<open>Which records a dispatcher has logged, whether or not the log is readable.\<close>

definition logged :: "CapDispatcher \<Rightarrow> AuditRecord list" where
  "logged d = records (inner (audit d))"

lemma logged_record_audit:
  "logged (record_audit env d m c op) =
     logged d @ (if mode d = Audit \<and> \<not> poisoned (audit d)
                 then [\<lparr>rec_caller = url m, rec_capability = c, rec_operation = op,
                        timestamp_micros = unwrap_or 0 (now_micros env)\<rparr>]
                 else [])"
  by (auto simp: logged_def record_audit_def AuditLog_record_def lock_def)

lemma poisoned_record_audit [simp]:
  "poisoned (audit (record_audit env d m c op)) = poisoned (audit d)"
  by (auto simp: record_audit_def split: option.splits)

section \<open>The contract of a check\<close>

text \<open>
  \<open>enforced exempt d m\<close>: the dispatcher decides this caller by the authority it holds.
  \<open>exempt\<close> says whether the application is outside \<open>SealedDeps\<close>, as it is for every
  check but the one for native addons.
\<close>

definition enforced :: "bool \<Rightarrow> CapDispatcher \<Rightarrow> ModuleId \<Rightarrow> bool" where
  "enforced exempt d m \<longleftrightarrow>
     mode d = Sealed
     \<or> mode d = SealedDeps \<and> \<not> (exempt \<and> is_application (provenance m))"

text \<open>How strict a mode is, and a dispatcher run in another mode.\<close>

fun strictness :: "CapMode \<Rightarrow> nat" where
  "strictness Compat = 0"
| "strictness Audit = 0"
| "strictness SealedDeps = 1"
| "strictness Sealed = 2"

locale cap_gate =
  fixes req :: "HostEnv \<Rightarrow> CapDispatcher \<Rightarrow> 'cap \<Rightarrow> 'op \<Rightarrow> ModuleId \<Rightarrow> verdict"
    and cap_name :: "'op \<Rightarrow> str"
    and desc :: "'op \<Rightarrow> str"
    and exempt :: "'op \<Rightarrow> bool"
    and authority :: "HostEnv \<Rightarrow> CapDispatcher \<Rightarrow> 'cap \<Rightarrow> 'op \<Rightarrow> ModuleId \<Rightarrow> bool"
  assumes open_ok: "\<not> enforced (exempt op) d m \<Longrightarrow> fst (req env d c op m) = Inr ()"
    and closed_iff: "enforced (exempt op) d m \<Longrightarrow> is_ok (fst (req env d c op m)) \<longleftrightarrow> authority env d c op m"
    and next_state: "snd (req env d c op m) = record_audit env d m (cap_name op) (desc op)"
    and error_names: "fst (req env d c op m) = Inl e \<Longrightarrow>
          capability e = cap_name op \<and> operation e = desc op \<and> calling_module e = url m
          \<and> err_mode e = mode d \<and> hint e \<noteq> None"
    and authority_mode: "authority env (d\<lparr>mode := x\<rparr>) c op m = authority env d c op m"
    and authority_log: "authority env (record_audit env' d m' nm ds) c op m = authority env d c op m"
    and authority_other: "url m \<noteq> u \<Longrightarrow>
          authority env (grant_module d u fs net en pr st) c op m = authority env d c op m"
begin

lemma ok_iff: "is_ok (fst (req env d c op m)) \<longleftrightarrow> \<not> enforced (exempt op) d m \<or> authority env d c op m"
  using open_ok closed_iff by fastforce

lemma denied_iff:
  "(\<exists>e. fst (req env d c op m) = Inl e) \<longleftrightarrow> enforced (exempt op) d m \<and> \<not> authority env d c op m"
  using ok_iff [of env d c op m] by (cases "fst (req env d c op m)") auto

lemma ok_antimono_mode:
  assumes "strictness x \<le> strictness (mode d)" "is_ok (fst (req env d c op m))"
  shows "is_ok (fst (req env (d\<lparr>mode := x\<rparr>) c op m))"
  using assms unfolding ok_iff authority_mode
  by (cases x; cases "mode d") (auto simp: enforced_def)

lemma grant_isolation:
  assumes "url m \<noteq> u"
  shows "is_ok (fst (req env (grant_module d u fs net en pr st) c op m))
       \<longleftrightarrow> is_ok (fst (req env d c op m))"
  using assms unfolding ok_iff by (simp add: enforced_def authority_other)

lemma ok_after_log:
  "is_ok (fst (req env (record_audit env' d m' nm ds) c op m)) \<longleftrightarrow> is_ok (fst (req env d c op m))"
  unfolding ok_iff by (simp add: enforced_def authority_log)

lemma log_exact:
  "logged (snd (req env d c op m)) =
     logged d @ (if mode d = Audit \<and> \<not> poisoned (audit d)
                 then [\<lparr>rec_caller = url m, rec_capability = cap_name op, rec_operation = desc op,
                        timestamp_micros = unwrap_or 0 (now_micros env)\<rparr>]
                 else [])"
  by (simp add: next_state logged_record_audit)

end

section \<open>The authority each check consults\<close>

definition fs_authority :: "HostEnv \<Rightarrow> CapDispatcher \<Rightarrow> Fs \<Rightarrow> FsOp \<Rightarrow> ModuleId \<Rightarrow> bool" where
  "fs_authority env d c op m \<longleftrightarrow>
     path_allowed_for_fs_op (current_dir env) (fst (FsOp_policy op c)) (snd (snd (FsOp_policy op c)))
     \<or> is_some_and (module_grant d (url m))
          (\<lambda>g. path_allowed_for_fs_op (current_dir env) (fst (FsOp_policy op (g_fs g))) (snd (snd (FsOp_policy op c))))"

definition stdio_authority :: "HostEnv \<Rightarrow> CapDispatcher \<Rightarrow> Stdio \<Rightarrow> StdioOp \<Rightarrow> ModuleId \<Rightarrow> bool" where
  "stdio_authority env d c op m \<longleftrightarrow>
     stdio_allows op c \<or> is_some_and (module_grant d (url m)) (\<lambda>g. stdio_allows op (g_stdio g))"

definition clock_authority :: "HostEnv \<Rightarrow> CapDispatcher \<Rightarrow> Clock \<Rightarrow> ClockOp \<Rightarrow> ModuleId \<Rightarrow> bool" where
  "clock_authority env d c op m \<longleftrightarrow>
     resolution c \<noteq> ClockDisabled"

definition scheduler_authority :: "HostEnv \<Rightarrow> CapDispatcher \<Rightarrow> Scheduler \<Rightarrow> SchedulerOp \<Rightarrow> ModuleId \<Rightarrow> bool" where
  "scheduler_authority env d c op m \<longleftrightarrow>
     scheduler_allows op c"

definition process_authority :: "HostEnv \<Rightarrow> CapDispatcher \<Rightarrow> Process \<Rightarrow> ProcessOp \<Rightarrow> ModuleId \<Rightarrow> bool" where
  "process_authority env d c op m \<longleftrightarrow>
     process_allows op c \<or> is_some_and (module_grant d (url m)) (\<lambda>g. process_allows op (g_process g))"

definition env_authority :: "HostEnv \<Rightarrow> CapDispatcher \<Rightarrow> Env \<Rightarrow> EnvOp \<Rightarrow> ModuleId \<Rightarrow> bool" where
  "env_authority env d c op m \<longleftrightarrow>
     env_allows op c \<or> is_some_and (module_grant d (url m)) (\<lambda>g. env_allows op (g_env g))"

definition net_authority :: "HostEnv \<Rightarrow> CapDispatcher \<Rightarrow> Net \<Rightarrow> NetOp \<Rightarrow> ModuleId \<Rightarrow> bool" where
  "net_authority env d c op m \<longleftrightarrow>
     NetOp_allows op c \<or> NetOp_allows op (net_grant d)
     \<or> is_some_and (module_grant d (url m)) (\<lambda>g. NetOp_allows op (g_net g))"

lemmas authority_defs =
  fs_authority_def stdio_authority_def clock_authority_def scheduler_authority_def
  process_authority_def env_authority_def net_authority_def

lemmas gate_simps = Let_def enforced_def is_ok_iff authority_defs

section \<open>Every check is a gate\<close>

interpretation fs: cap_gate require_fs "\<lambda>_. ''fs''" FsOp_describe "\<lambda>_. True" fs_authority
  by unfold_locales
     (auto simp: require_fs_def gate_simps split: CapMode.splits if_splits prod.splits)

interpretation stdio: cap_gate require_stdio "\<lambda>_. ''stdio''" "\<lambda>op. ''write('' @ stdio_stream op @ '')''" "\<lambda>_. True" stdio_authority
  by unfold_locales
     (auto simp: require_stdio_def gate_simps split: CapMode.splits if_splits prod.splits)

interpretation clock: cap_gate require_clock "\<lambda>_. ''clock''" ClockOp_desc "\<lambda>_. True" clock_authority
  by unfold_locales
     (auto simp: require_clock_def gate_simps split: CapMode.splits if_splits prod.splits ClockResolution.splits)

interpretation scheduler: cap_gate require_scheduler "\<lambda>_. ''scheduler''" SchedulerOp_desc "\<lambda>_. True" scheduler_authority
  by unfold_locales
     (auto simp: require_scheduler_def gate_simps split: CapMode.splits if_splits prod.splits)

interpretation process: cap_gate require_process "\<lambda>_. ''process''" ProcessOp_desc "\<lambda>_. True" process_authority
  by unfold_locales
     (auto simp: require_process_def gate_simps split: CapMode.splits if_splits prod.splits)

interpretation env: cap_gate require_env "\<lambda>_. ''env''" EnvOp_desc "\<lambda>_. True" env_authority
  by unfold_locales
     (auto simp: require_env_def gate_simps split: CapMode.splits if_splits prod.splits)

interpretation net: cap_gate require_net "\<lambda>_. ''net''" NetOp_describe "\<lambda>_. True" net_authority
  by unfold_locales
     (auto simp: require_net_def gate_simps split: CapMode.splits if_splits prod.splits)

text \<open>Native addons: no capability argument, no authority at all, no exemption.\<close>

interpretation native: cap_gate
  "\<lambda>env d (_ :: unit) p m. require_native_addon_load env d p m" "\<lambda>_. ''native-addon''"
  "\<lambda>p. ''dlopen('' @ p @ '')''" "\<lambda>_. False" "\<lambda>env d _ p m. False"
  by unfold_locales
     (auto simp: require_native_addon_load_def gate_simps split: CapMode.splits if_splits)

section \<open>Requests and runs\<close>

text \<open>
  A host operation is one of the eight checks with its arguments; \<open>perform\<close> calls the
  check. A run of the runtime interleaves requests of any modules with grants and drains
  of the log, in any order.
\<close>

datatype Request =
  ReqFs Fs FsOp | ReqStdio Stdio StdioOp | ReqClock Clock ClockOp
  | ReqScheduler Scheduler SchedulerOp | ReqProcess Process ProcessOp | ReqEnv Env EnvOp
  | ReqNet Net NetOp | ReqNative str

fun perform :: "HostEnv \<Rightarrow> CapDispatcher \<Rightarrow> Request \<Rightarrow> ModuleId \<Rightarrow> verdict" where
  "perform env d (ReqFs c op) m = require_fs env d c op m"
| "perform env d (ReqStdio c op) m = require_stdio env d c op m"
| "perform env d (ReqClock c op) m = require_clock env d c op m"
| "perform env d (ReqScheduler c op) m = require_scheduler env d c op m"
| "perform env d (ReqProcess c op) m = require_process env d c op m"
| "perform env d (ReqEnv c op) m = require_env env d c op m"
| "perform env d (ReqNet c op) m = require_net env d c op m"
| "perform env d (ReqNative p) m = require_native_addon_load env d p m"

fun holds_authority :: "HostEnv \<Rightarrow> CapDispatcher \<Rightarrow> Request \<Rightarrow> ModuleId \<Rightarrow> bool" where
  "holds_authority env d (ReqFs c op) m = fs_authority env d c op m"
| "holds_authority env d (ReqStdio c op) m = stdio_authority env d c op m"
| "holds_authority env d (ReqClock c op) m = clock_authority env d c op m"
| "holds_authority env d (ReqScheduler c op) m = scheduler_authority env d c op m"
| "holds_authority env d (ReqProcess c op) m = process_authority env d c op m"
| "holds_authority env d (ReqEnv c op) m = env_authority env d c op m"
| "holds_authority env d (ReqNet c op) m = net_authority env d c op m"
| "holds_authority env d (ReqNative p) m = False"

definition exempts_application :: "Request \<Rightarrow> bool" where
  "exempts_application r = (case r of ReqNative _ \<Rightarrow> False | _ \<Rightarrow> True)"

fun req_capability :: "Request \<Rightarrow> str" where
  "req_capability (ReqFs c op) = ''fs''"
| "req_capability (ReqStdio c op) = ''stdio''"
| "req_capability (ReqClock c op) = ''clock''"
| "req_capability (ReqScheduler c op) = ''scheduler''"
| "req_capability (ReqProcess c op) = ''process''"
| "req_capability (ReqEnv c op) = ''env''"
| "req_capability (ReqNet c op) = ''net''"
| "req_capability (ReqNative p) = ''native-addon''"

fun req_operation :: "Request \<Rightarrow> str" where
  "req_operation (ReqFs c op) = FsOp_describe op"
| "req_operation (ReqStdio c op) = ''write('' @ stdio_stream op @ '')''"
| "req_operation (ReqClock c op) = ClockOp_desc op"
| "req_operation (ReqScheduler c op) = SchedulerOp_desc op"
| "req_operation (ReqProcess c op) = ProcessOp_desc op"
| "req_operation (ReqEnv c op) = EnvOp_desc op"
| "req_operation (ReqNet c op) = NetOp_describe op"
| "req_operation (ReqNative p) = ''dlopen('' @ p @ '')''"

text \<open>A request whose own capability argument carries no authority.\<close>

fun bare_request :: "Request \<Rightarrow> bool" where
  "bare_request (ReqFs c op) = (c = Fs_none)"
| "bare_request (ReqStdio c op) = (c = Stdio_none)"
| "bare_request (ReqClock c op) = (c = Clock_disabled)"
| "bare_request (ReqScheduler c op) = (c = Scheduler_none)"
| "bare_request (ReqProcess c op) = (c = Process_none)"
| "bare_request (ReqEnv c op) = (c = Env_none)"
| "bare_request (ReqNet c op) = (c = Net_none)"
| "bare_request (ReqNative p) = True"

text \<open>The eight gates are one gate on requests.\<close>

interpretation gate: cap_gate
  "\<lambda>env d (_ :: unit) r m. perform env d r m" req_capability req_operation
  exempts_application "\<lambda>env d _ r m. holds_authority env d r m"
proof (unfold_locales, goal_cases)
  case (1 r d m env)
  then show ?case
    by (cases r) (simp_all add: exempts_application_def fs.open_ok stdio.open_ok clock.open_ok
        scheduler.open_ok process.open_ok env.open_ok net.open_ok native.open_ok)
next
  case (2 r d m env)
  then show ?case
    by (cases r) (simp_all add: exempts_application_def fs.closed_iff stdio.closed_iff
        clock.closed_iff scheduler.closed_iff process.closed_iff env.closed_iff net.closed_iff
        native.closed_iff)
next
  case (3 env d _ r m)
  show ?case
    by (cases r) (simp_all add: fs.next_state stdio.next_state clock.next_state
        scheduler.next_state process.next_state env.next_state net.next_state native.next_state)
next
  case (4 env d _ r m e)
  then show ?case
    by (cases r) (auto dest: fs.error_names stdio.error_names clock.error_names
        scheduler.error_names process.error_names env.error_names net.error_names
        native.error_names)
next
  case (5 env d x _ r m)
  show ?case
    by (cases r) (simp_all add: fs.authority_mode stdio.authority_mode clock.authority_mode
        scheduler.authority_mode process.authority_mode env.authority_mode net.authority_mode)
next
  case (6 env env' d m' nm ds _ r m)
  show ?case
    by (cases r) (simp_all add: fs.authority_log stdio.authority_log clock.authority_log
        scheduler.authority_log process.authority_log env.authority_log net.authority_log)
next
  case (7 m u env d fs net en pr st _ r)
  then show ?case
    by (cases r) (simp_all add: fs.authority_other stdio.authority_other clock.authority_other
        scheduler.authority_other process.authority_other env.authority_other net.authority_other)
qed

datatype cap_event =
  Grant str Fs Net Env Process Stdio | Call HostEnv Request ModuleId | Drain

inductive cap_step :: "CapDispatcher \<Rightarrow> cap_event \<Rightarrow> CapDispatcher \<Rightarrow> bool" where
  step_grant: "cap_step d (Grant u fs net en pr st) (grant_module d u fs net en pr st)"
| step_call: "cap_step d (Call env r m) (snd (perform env d r m))"
| step_drain: "drain_audit d = Some (rs, d') \<Longrightarrow> cap_step d Drain d'"

inductive cap_run :: "CapDispatcher \<Rightarrow> cap_event list \<Rightarrow> CapDispatcher \<Rightarrow> bool" where
  run_done: "cap_run d [] d"
| run_more: "cap_step d e d' \<Longrightarrow> cap_run d' es d'' \<Longrightarrow> cap_run d (e # es) d''"

inductive_simps cap_run_Cons: "cap_run d (e # es) d''"
inductive_simps cap_run_Nil: "cap_run d [] d''"
inductive_cases cap_step_GrantE: "cap_step d (Grant u fs net en pr st) d'"
inductive_cases cap_step_CallE: "cap_step d (Call env r m) d'"
inductive_cases cap_step_DrainE: "cap_step d Drain d'"

definition grants_to :: "str \<Rightarrow> cap_event \<Rightarrow> bool" where
  "grants_to u e = (case e of Grant v _ _ _ _ _ \<Rightarrow> u = v | _ \<Rightarrow> False)"

lemma drain_audit_SomeD:
  assumes "drain_audit d = Some (rs, d')"
  shows "rs = logged d" "logged d' = []" "mode d' = mode d" "net_grant d' = net_grant d"
    "module_grant d' u = module_grant d u" "poisoned (audit d') = poisoned (audit d)"
  using assms
  by (auto simp: drain_audit_def logged_def lock_def module_grant_def split: if_splits)

lemma cap_step_frame:
  assumes "cap_step d e d'"
  shows "mode d' = mode d" "net_grant d' = net_grant d"
    "\<not> grants_to u e \<Longrightarrow> module_grant d' u = module_grant d u"
    "poisoned (audit d') = poisoned (audit d)"
  using assms
  by (cases rule: cap_step.cases; auto simp: gate.next_state grants_to_def drain_audit_SomeD)+

lemma cap_run_frame:
  assumes "cap_run d es d'"
  shows "mode d' = mode d" "net_grant d' = net_grant d"
    "(\<And>e. e \<in> set es \<Longrightarrow> \<not> grants_to u e) \<Longrightarrow> module_grant d' u = module_grant d u"
    "poisoned (audit d') = poisoned (audit d)"
  using assms by (induction rule: cap_run.induct) (auto simp: cap_step_frame)

lemma bare_request_no_authority:
  assumes "bare_request r" "module_grant d (url m) = None" "net_grant d = Net_none"
  shows "\<not> holds_authority env d r m"
proof (cases r)
  case (ReqFs c op)
  with assms show ?thesis
    by (cases op) (auto simp: authority_defs Fs_none_def path_allowed_for_fs_op_def split: option.splits)
next
  case (ReqStdio c op)
  with assms show ?thesis by (cases op) (auto simp: authority_defs Stdio_none_def)
next
  case (ReqScheduler c op)
  with assms show ?thesis by (cases op) (auto simp: authority_defs Scheduler_none_def)
next
  case (ReqProcess c op)
  with assms show ?thesis by (cases op) (auto simp: authority_defs Process_none_def)
next
  case (ReqEnv c op)
  with assms show ?thesis by (cases op) (auto simp: authority_defs Env_none_def)
next
  case (ReqNet c op)
  with assms show ?thesis by (cases op) (auto simp: authority_defs Net_none_def)
qed (use assms in \<open>auto simp: authority_defs Clock_disabled_def\<close>)

lemma enforced_sealed:
  "mode d = Sealed \<or> mode d = SealedDeps \<and> \<not> is_application (provenance m) \<Longrightarrow> enforced x d m"
  by (auto simp: enforced_def)

section \<open>Properties\<close>

text \<open>
  Deny by default. In a dispatcher started in a sealed mode, whatever grants
  other modules receive and whatever requests and drains happen in between, a module that
  was granted nothing (any module under \<open>Sealed\<close>, any module that is not application code
  under \<open>SealedDeps\<close>) is refused every host operation that carries no authority of its
  own, and the error names the capability, the operation, the module and the mode.
\<close>

theorem sealed_deny_by_default:
  assumes "cap_run (CapDispatcher_new x) es d"
    and "x = Sealed \<or> x = SealedDeps \<and> \<not> is_application (provenance m)"
    and "\<forall>e \<in> set es. \<not> grants_to (url m) e"
    and "bare_request r"
  shows "\<exists>e. fst (perform env d r m) = Inl e \<and> capability e = req_capability r
           \<and> operation e = req_operation r \<and> calling_module e = url m \<and> err_mode e = x"
proof -
  have mode: "mode d = x" and "net_grant d = Net_none"
    using cap_run_frame(1,2) [OF assms(1)] by (simp_all add: CapDispatcher_new_def)
  moreover have "module_grant d (url m) = None"
    using cap_run_frame(3) [OF assms(1), of "url m"] assms(3)
    by (simp add: CapDispatcher_new_def module_grant_def)
  ultimately have "\<not> holds_authority env d r m"
    using assms(4) bare_request_no_authority by blast
  moreover have "enforced (exempts_application r) d m"
    using assms(2) mode enforced_sealed by blast
  ultimately obtain e where "fst (perform env d r m) = Inl e"
    using gate.denied_iff by blast
  with gate.error_names mode show ?thesis by blast
qed

definition example_dep :: ModuleId where
  "example_dep = ModuleId_dependency ''file:///app/node_modules/leftpad/index.js''"

theorem sealed_deny_by_default_witness:
  "\<exists>e. fst (perform \<lparr>current_dir = Some ''/app'', now_micros = Some 7\<rparr>
          (grant_module (CapDispatcher_new SealedDeps) ''file:///app/main.js''
             Fs_full Net_full Env_full Process_full Stdio_full)
          (ReqEnv Env_none (EnvReadVar ''HOME'')) example_dep) = Inl e
        \<and> capability e = ''env'' \<and> operation e = ''readVar(HOME)''
        \<and> calling_module e = url example_dep \<and> err_mode e = SealedDeps"
proof -
  let ?g = "Grant ''file:///app/main.js'' Fs_full Net_full Env_full Process_full Stdio_full"
  have run: "cap_run (CapDispatcher_new SealedDeps) [?g]
      (grant_module (CapDispatcher_new SealedDeps) ''file:///app/main.js''
         Fs_full Net_full Env_full Process_full Stdio_full)"
    by (rule run_more [OF step_grant run_done])
  show ?thesis
    using sealed_deny_by_default [OF run, of example_dep "ReqEnv Env_none (EnvReadVar ''HOME'')"]
    by (simp add: example_dep_def ModuleId_dependency_def grants_to_def)
qed

text \<open>
  Property C1: complete mediation. A request succeeds exactly when the mode does not bind
  the caller, or the caller holds the authority: the capability argument allows the
  operation, or the caller's own module grant does, or, for the network, the dispatcher's
  network grant does. Native addons are never exempt and no authority exists for them.
\<close>

theorem perform_ok_iff_authority:
  "is_ok (fst (perform env d r m)) \<longleftrightarrow>
     mode d = Compat \<or> mode d = Audit
     \<or> (mode d = SealedDeps \<and> is_application (provenance m) \<and> exempts_application r)
     \<or> holds_authority env d r m"
proof -
  have "enforced (exempts_application r) d m \<longleftrightarrow>
      \<not> (mode d = Compat \<or> mode d = Audit
         \<or> mode d = SealedDeps \<and> is_application (provenance m) \<and> exempts_application r)"
    by (cases "mode d") (auto simp: enforced_def)
  then show ?thesis using gate.ok_iff [of env d r m] by blast
qed

text \<open>
  The modes are ordered. What a stricter mode lets through, every laxer mode
  lets through too, for the same dispatcher state, request and caller.
\<close>

theorem perform_mode_monotone:
  assumes "strictness x \<le> strictness (mode d)" and "is_ok (fst (perform env d r m))"
  shows "is_ok (fst (perform env (d\<lparr>mode := x\<rparr>) r m))"
  using gate.ok_antimono_mode [OF assms] .

theorem perform_mode_monotone_witness:
  "is_ok (fst (perform \<lparr>current_dir = None, now_micros = None\<rparr>
     ((CapDispatcher_new Sealed)\<lparr>mode := SealedDeps\<rparr>) (ReqStdio Stdio_full (StdioStdout [])) example_dep))"
proof -
  have "is_ok (fst (perform \<lparr>current_dir = None, now_micros = None\<rparr> (CapDispatcher_new Sealed)
      (ReqStdio Stdio_full (StdioStdout [])) example_dep))"
    unfolding gate.ok_iff by (simp add: authority_defs Stdio_full_def)
  then show ?thesis
    by (intro perform_mode_monotone) (simp_all add: CapDispatcher_new_def)
qed

text \<open>
  Grants are isolated. Granting one module anything changes no decision for a
  caller with another URL, in any mode and for any request.
\<close>

theorem grant_module_isolated:
  assumes "url m \<noteq> u"
  shows "is_ok (fst (perform env (grant_module d u fs net en pr st) r m))
       \<longleftrightarrow> is_ok (fst (perform env d r m))"
  using gate.grant_isolation [OF assms] .

theorem grant_module_isolated_witness:
  "is_ok (fst (perform \<lparr>current_dir = None, now_micros = None\<rparr>
      (grant_module (CapDispatcher_new Sealed) ''file:///x.js'' Fs_full Net_full Env_full Process_full Stdio_full) (ReqNet Net_none (NetConnect ''h'' 80)) example_dep))
   \<longleftrightarrow> is_ok (fst (perform \<lparr>current_dir = None, now_micros = None\<rparr> (CapDispatcher_new Sealed) (ReqNet Net_none (NetConnect ''h'' 80)) example_dep))"
  by (rule grant_module_isolated) (simp add: example_dep_def ModuleId_dependency_def)

text \<open>What the audit log holds after a run: one record per request since the last drain.\<close>

fun audit_trail :: "AuditRecord list \<Rightarrow> cap_event list \<Rightarrow> AuditRecord list" where
  "audit_trail acc [] = acc"
| "audit_trail acc (Call env r m # es) =
     audit_trail (acc @ [\<lparr>rec_caller = url m, rec_capability = req_capability r,
       rec_operation = req_operation r, timestamp_micros = unwrap_or 0 (now_micros env)\<rparr>]) es"
| "audit_trail acc (Drain # es) = audit_trail [] es"
| "audit_trail acc (Grant u fs net en pr st # es) = audit_trail acc es"

lemma cap_run_logged:
  assumes "cap_run d es d'" "mode d = Audit" "\<not> poisoned (audit d)"
  shows "logged d' = audit_trail (logged d) es"
  using assms
proof (induction rule: cap_run.induct)
  case (run_more d e d' es d'')
  then have "mode d' = Audit" "\<not> poisoned (audit d')"
    using cap_step_frame by auto
  with run_more.IH have IH: "logged d'' = audit_trail (logged d') es" by blast
  from run_more.hyps(1) show ?case
  proof (cases rule: cap_step.cases)
    case (step_grant u fs net en pr st)
    then show ?thesis using IH by (simp add: logged_def)
  next
    case (step_call env r m)
    then show ?thesis using IH run_more.prems by (simp add: gate.log_exact)
  next
    case (step_drain rs)
    then show ?thesis using IH by (simp add: drain_audit_SomeD(2))
  qed
qed simp

lemma cap_run_not_logged:
  assumes "cap_run d es d'" "mode d \<noteq> Audit" "logged d = []"
  shows "logged d' = []"
  using assms
proof (induction rule: cap_run.induct)
  case (run_more d e d' es d'')
  from run_more.hyps(1) run_more.prems have "logged d' = []"
    by (cases rule: cap_step.cases)
       (auto simp: gate.log_exact drain_audit_SomeD(2), simp add: logged_def)
  moreover have "mode d' \<noteq> Audit"
    using cap_step_frame(1) [OF run_more.hyps(1)] run_more.prems(1) by simp
  ultimately show ?case using run_more.IH by blast
qed simp

text \<open>
  The audit is complete and exact. After any run of a dispatcher started in
  audit mode the log holds exactly one record per request since the last drain, in order,
  with the caller, capability, operation and time of that request; in every other mode it
  stays empty. Auditing never refuses a request.
\<close>

theorem audit_log_complete:
  assumes "cap_run (CapDispatcher_new x) es d"
  shows "logged d = (if x = Audit then audit_trail [] es else [])
    \<and> (x = Audit \<longrightarrow> fst (perform env d r m) = Inr ())"
proof
  have start: "logged (CapDispatcher_new x) = []" "mode (CapDispatcher_new x) = x"
    "\<not> poisoned (audit (CapDispatcher_new x))"
    by (simp_all add: CapDispatcher_new_def logged_def mutex_new_def AuditLog_default_def)
  show "logged d = (if x = Audit then audit_trail [] es else [])"
    using cap_run_logged [OF assms] cap_run_not_logged [OF assms] start by auto
  show "x = Audit \<longrightarrow> fst (perform env d r m) = Inr ()"
    using gate.open_ok cap_run_frame(1) [OF assms] start(2) by (simp add: enforced_def)
qed

theorem audit_log_complete_witness:
  "logged (snd (perform \<lparr>current_dir = None, now_micros = Some 5\<rparr> (CapDispatcher_new Audit)
       (ReqNative ''/x.node'') example_dep))
   = [\<lparr>rec_caller = url example_dep, rec_capability = ''native-addon'',
       rec_operation = ''dlopen(/x.node)'', timestamp_micros = 5\<rparr>]"
proof -
  let ?env = "\<lparr>current_dir = None, now_micros = Some 5\<rparr>"
  have "cap_run (CapDispatcher_new Audit) [Call ?env (ReqNative ''/x.node'') example_dep]
      (snd (perform ?env (CapDispatcher_new Audit) (ReqNative ''/x.node'') example_dep))"
    by (rule run_more [OF step_call run_done])
  from audit_log_complete [OF this] show ?thesis by simp
qed

text \<open>
  No native code in a sealed process. After any run that started in a sealed
  mode, with any grants to any module, loading a native addon is refused for every caller,
  application code included.
\<close>

theorem sealed_no_native_addon:
  assumes "cap_run (CapDispatcher_new x) es d" and "x = Sealed \<or> x = SealedDeps"
  shows "\<exists>e. fst (require_native_addon_load env d p m) = Inl e \<and> capability e = ''native-addon''
           \<and> calling_module e = url m"
proof -
  have "mode d = x" using cap_run_frame(1) [OF assms(1)] by (simp add: CapDispatcher_new_def)
  then have "enforced False d m" using assms(2) by (auto simp: enforced_def)
  then obtain e where e: "fst (require_native_addon_load env d p m) = Inl e"
    using native.denied_iff by blast
  with native.error_names show ?thesis by blast
qed

theorem sealed_no_native_addon_witness:
  "\<exists>e. fst (require_native_addon_load \<lparr>current_dir = None, now_micros = None\<rparr>
         (CapDispatcher_new SealedDeps) ''/x.node'' (ModuleId_application ''file:///a.js'')) = Inl e
       \<and> capability e = ''native-addon'' \<and> calling_module e = ''file:///a.js''"
  using sealed_no_native_addon [OF run_done, of SealedDeps
      "\<lparr>current_dir = None, now_micros = None\<rparr>" "''/x.node''" "ModuleId_application ''file:///a.js''"]
  by (simp add: ModuleId_application_def)

end
