(* ===== verification/Utf8.thy ===== *)
theory Utf8
  imports Rust_Str
begin

text \<open>
  UTF-8 as \<open>std::str::from_utf8\<close> and \<open>chars\<close> read it: the length of the well-formed
  character at the front of a byte string, validity of a whole byte string, and the
  encoder behind \<open>String::push\<close>.
\<close>

abbreviation byte :: "char \<Rightarrow> nat" where
  "byte c \<equiv> of_char c"

definition is_cont :: "char \<Rightarrow> bool" where
  "is_cont c \<longleftrightarrow> 0x80 \<le> byte c \<and> byte c \<le> 0xBF"

text \<open>How many continuation bytes a lead byte announces, and which ones may follow it.\<close>

definition utf8_need :: "nat \<Rightarrow> nat option" where
  "utf8_need b =
     (if b < 0x80 then Some 0
      else if 0xC2 \<le> b \<and> b \<le> 0xDF then Some 1
      else if 0xE0 \<le> b \<and> b \<le> 0xEF then Some 2
      else if 0xF0 \<le> b \<and> b \<le> 0xF4 then Some 3
      else None)"

definition utf8_tail_ok :: "nat \<Rightarrow> str \<Rightarrow> bool" where
  "utf8_tail_ok b ts \<longleftrightarrow>
     list_all is_cont ts
     \<and> (b = 0xE0 \<longrightarrow> 0xA0 \<le> byte (hd ts)) \<and> (b = 0xED \<longrightarrow> byte (hd ts) \<le> 0x9F)
     \<and> (b = 0xF0 \<longrightarrow> 0x90 \<le> byte (hd ts)) \<and> (b = 0xF4 \<longrightarrow> byte (hd ts) \<le> 0x8F)"

definition utf8_char_len :: "str \<Rightarrow> nat option" where
  "utf8_char_len s =
     (case s of
        [] \<Rightarrow> None
      | c # cs \<Rightarrow>
          (case utf8_need (byte c) of
             None \<Rightarrow> None
           | Some k \<Rightarrow>
               if k \<le> length cs \<and> utf8_tail_ok (byte c) (take k cs) then Some (Suc k) else None))"

lemma utf8_char_len_bounds: "utf8_char_len s = Some n \<Longrightarrow> 1 \<le> n \<and> n \<le> length s"
  by (cases s) (auto simp: utf8_char_len_def split: option.splits if_splits)

lemma utf8_char_len_append: "utf8_char_len s = Some n \<Longrightarrow> utf8_char_len (s @ t) = Some n"
  by (cases s) (auto simp: utf8_char_len_def split: option.splits if_splits)

lemma utf8_char_len_ascii [simp]: "byte c < 0x80 \<Longrightarrow> utf8_char_len (c # cs) = Some 1"
  by (simp add: utf8_char_len_def utf8_need_def utf8_tail_ok_def)

function utf8_valid :: "str \<Rightarrow> bool" where
  "utf8_valid s =
     (s = [] \<or> (case utf8_char_len s of None \<Rightarrow> False | Some n \<Rightarrow> utf8_valid (drop n s)))"
  by pat_completeness auto
termination
  by (relation "measure length") (auto dest: utf8_char_len_bounds)

declare utf8_valid.simps [simp del]

lemma utf8_valid_Nil [simp]: "utf8_valid []"
  by (simp add: utf8_valid.simps)

lemma utf8_valid_ascii [simp]: "byte c < 0x80 \<Longrightarrow> utf8_valid (c # cs) = utf8_valid cs"
  by (subst utf8_valid.simps) simp

lemma ascii_valid: "(\<And>c. c \<in> set s \<Longrightarrow> byte c < 0x80) \<Longrightarrow> utf8_valid (s @ r) = utf8_valid r"
  by (induction s) auto

lemma utf8_valid_drop: "utf8_char_len s = Some n \<Longrightarrow> utf8_valid s = utf8_valid (drop n s)"
  using utf8_char_len_bounds [of s n] by (subst utf8_valid.simps) auto

lemma utf8_valid_append: "utf8_valid s \<Longrightarrow> utf8_valid (s @ t) = utf8_valid t"
proof (induction s rule: utf8_valid.induct)
  case (1 s)
  show ?case
  proof (cases "s = []")
    case False
    with "1.prems" obtain n where n: "utf8_char_len s = Some n" and v: "utf8_valid (drop n s)"
      by (subst (asm) utf8_valid.simps) (auto split: option.splits)
    have "utf8_valid (s @ t) = utf8_valid (drop n s @ t)"
      using utf8_valid_drop [OF utf8_char_len_append [OF n]] utf8_char_len_bounds [OF n] by simp
    also have "\<dots> = utf8_valid t" using "1.IH" [OF n v] .
    finally show ?thesis .
  qed simp
qed

text \<open>\<open>Utf8Error::valid_up_to\<close>: how many bytes from the front are whole valid characters.\<close>

function utf8_valid_up_to :: "str \<Rightarrow> nat" where
  "utf8_valid_up_to s =
     (case utf8_char_len s of None \<Rightarrow> 0 | Some n \<Rightarrow> n + utf8_valid_up_to (drop n s))"
  by pat_completeness auto
termination
  by (relation "measure length") (auto dest!: utf8_char_len_bounds)

declare utf8_valid_up_to.simps [simp del]

text \<open>\<open>String::push\<close> of the character with a given scalar value.\<close>

definition utf8_encode :: "nat \<Rightarrow> str" where
  "utf8_encode n =
     (if n < 0x80 then [char_of n]
      else if n < 0x800 then [char_of (0xC0 + n div 0x40), char_of (0x80 + n mod 0x40)]
      else if n < 0x10000 then
        [char_of (0xE0 + n div 0x1000), char_of (0x80 + n div 0x40 mod 0x40), char_of (0x80 + n mod 0x40)]
      else
        [char_of (0xF0 + n div 0x40000), char_of (0x80 + n div 0x1000 mod 0x40),
         char_of (0x80 + n div 0x40 mod 0x40), char_of (0x80 + n mod 0x40)])"

text \<open>A scalar value is a code point that is not a surrogate: \<open>char::from_u32\<close>.\<close>

definition is_scalar :: "nat \<Rightarrow> bool" where
  "is_scalar n \<longleftrightarrow> n \<le> 0x10FFFF \<and> \<not> (0xD800 \<le> n \<and> n \<le> 0xDFFF)"

end
