(* ===== verification/Json_Manifest.thy ===== *)
theory Json_Manifest
  imports Utf8
begin

text \<open>
  The JSON crate \<open>crates/rusty-json-manifest/src/lib.rs\<close> (imported as \<open>serde_json\<close> by the
  runtime, the package manager and the capability configuration): the value type, the
  recursive-descent parser with its depth and size limits, and the compact and pretty
  printers. A parser state is the input that is left, the byte offset reached and the
  nesting depth; the source keeps the whole input and the offset, which is the same
  information. The state after an error is dropped, as \<open>parse_value_str\<close> drops it.

  The parser is total: it is written with fuel, and \<open>parse_fuel_enough\<close> shows that the fuel
  \<open>parse_value_str\<close> starts with is never used up. The main theorem is the round trip.
\<close>

section \<open>Values\<close>

text \<open>\<open>JsonNumber\<close> keeps the literal text; \<open>Map\<close> keeps its entries in order, duplicates included.\<close>

datatype JsonValue =
  JNull | JBool bool | JNumber str | JString str | JArray "JsonValue list"
  | JObject "(str \<times> JsonValue) list"

type_synonym JsonMap = "(str \<times> JsonValue) list"

definition Map_new :: JsonMap where
  "Map_new = []"

definition Map_is_empty :: "JsonMap \<Rightarrow> bool" where
  "Map_is_empty es \<longleftrightarrow> es = []"

definition Map_len :: "JsonMap \<Rightarrow> nat" where
  "Map_len es = length es"

fun Map_insert :: "JsonMap \<Rightarrow> str \<Rightarrow> JsonValue \<Rightarrow> JsonValue option \<times> JsonMap" where
  "Map_insert [] k v = (None, [(k, v)])"
| "Map_insert ((k', v') # es) k v =
     (if k' = k then (Some v', (k', v) # es)
      else (let (old, es') = Map_insert es k v in (old, (k', v') # es')))"

definition Map_get :: "JsonMap \<Rightarrow> str \<Rightarrow> JsonValue option" where
  "Map_get es k = map_option snd (find (\<lambda>(k', _). k' = k) es)"

definition Map_get_last :: "JsonMap \<Rightarrow> str \<Rightarrow> JsonValue option" where
  "Map_get_last es k = map_option snd (find (\<lambda>(k', _). k' = k) (rev es))"

definition Map_keys :: "JsonMap \<Rightarrow> str list" where
  "Map_keys es = map fst es"

definition JsonValue_get :: "JsonValue \<Rightarrow> str \<Rightarrow> JsonValue option" where
  "JsonValue_get v k = (case v of JObject es \<Rightarrow> Map_get es k | _ \<Rightarrow> None)"

definition JsonValue_get_last :: "JsonValue \<Rightarrow> str \<Rightarrow> JsonValue option" where
  "JsonValue_get_last v k = (case v of JObject es \<Rightarrow> Map_get_last es k | _ \<Rightarrow> None)"

definition as_str :: "JsonValue \<Rightarrow> str option" where
  "as_str v = (case v of JString s \<Rightarrow> Some s | _ \<Rightarrow> None)"

definition as_array :: "JsonValue \<Rightarrow> JsonValue list option" where
  "as_array v = (case v of JArray a \<Rightarrow> Some a | _ \<Rightarrow> None)"

definition as_object :: "JsonValue \<Rightarrow> JsonMap option" where
  "as_object v = (case v of JObject es \<Rightarrow> Some es | _ \<Rightarrow> None)"

definition as_bool :: "JsonValue \<Rightarrow> bool option" where
  "as_bool v = (case v of JBool b \<Rightarrow> Some b | _ \<Rightarrow> None)"

definition as_u64 :: "JsonValue \<Rightarrow> u64 option" where
  "as_u64 v = (case v of JNumber raw \<Rightarrow> parse_u64 raw | _ \<Rightarrow> None)"

definition is_string :: "JsonValue \<Rightarrow> bool" where
  "is_string v = (case v of JString _ \<Rightarrow> True | _ \<Rightarrow> False)"

definition is_array :: "JsonValue \<Rightarrow> bool" where
  "is_array v = (case v of JArray _ \<Rightarrow> True | _ \<Rightarrow> False)"

section \<open>Parser state\<close>

record JsonError =
  offset :: nat
  message :: str

definition JsonError_fmt :: "JsonError \<Rightarrow> str" where
  "JsonError_fmt e = message e @ '' at byte '' @ show_nat (offset e)"

record Parser =
  p_rest :: str
  p_pos :: nat
  p_depth :: nat

definition DEFAULT_MAX_JSON_BYTES :: nat where
  "DEFAULT_MAX_JSON_BYTES = 8 * 1024 * 1024"

definition MAX_DEPTH :: nat where
  "MAX_DEPTH = 256"

definition eof :: "Parser \<Rightarrow> bool" where
  "eof p \<longleftrightarrow> p_rest p = []"

definition peek :: "Parser \<Rightarrow> char option" where
  "peek p = (case p_rest p of [] \<Rightarrow> None | c # _ \<Rightarrow> Some c)"

definition advance :: "nat \<Rightarrow> Parser \<Rightarrow> Parser" where
  "advance n p = p\<lparr>p_rest := drop n (p_rest p), p_pos := p_pos p + n\<rparr>"

definition bump :: "Parser \<Rightarrow> char option \<times> Parser" where
  "bump p = (case peek p of None \<Rightarrow> (None, p) | Some c \<Rightarrow> (Some c, advance 1 p))"

definition err :: "Parser \<Rightarrow> str \<Rightarrow> JsonError" where
  "err p msg = \<lparr>offset = p_pos p, message = msg\<rparr>"

definition enter_nested :: "Parser \<Rightarrow> JsonError + Parser" where
  "enter_nested p =
     (if MAX_DEPTH \<le> p_depth p then Inl (err p ''json nesting depth exceeded'')
      else Inr (p\<lparr>p_depth := p_depth p + 1\<rparr>))"

definition leave_nested :: "Parser \<Rightarrow> Parser" where
  "leave_nested p = p\<lparr>p_depth := p_depth p - 1\<rparr>"

definition is_json_ws :: "char \<Rightarrow> bool" where
  "is_json_ws c \<longleftrightarrow> c = CHR '' '' \<or> c = CHR 0x0A \<or> c = CHR 0x0D \<or> c = CHR 0x09"

definition skip_ws :: "Parser \<Rightarrow> Parser" where
  "skip_ws p = advance (length (takeWhile is_json_ws (p_rest p))) p"

definition literal :: "Parser \<Rightarrow> str \<Rightarrow> JsonValue \<Rightarrow> JsonError + JsonValue \<times> Parser" where
  "literal p lit v =
     (if prefix lit (p_rest p) then Inr (v, advance (length lit) p)
      else Inl (err p ''invalid literal''))"

section \<open>Strings\<close>

definition hex_digit_val :: "char \<Rightarrow> nat option" where
  "hex_digit_val c =
     (let b = byte c in
      if 0x30 \<le> b \<and> b \<le> 0x39 then Some (b - 0x30)
      else if 0x61 \<le> b \<and> b \<le> 0x66 then Some (b - 0x61 + 10)
      else if 0x41 \<le> b \<and> b \<le> 0x46 then Some (b - 0x41 + 10)
      else None)"

fun hex_loop :: "nat \<Rightarrow> nat \<Rightarrow> Parser \<Rightarrow> JsonError + nat \<times> Parser" where
  "hex_loop 0 n p = Inr (n, p)"
| "hex_loop (Suc k) n p =
     (case bump p of
        (None, p') \<Rightarrow> Inl (err p' ''short unicode escape'')
      | (Some c, p') \<Rightarrow>
          (case hex_digit_val c of
             None \<Rightarrow> Inl (err p' ''invalid unicode escape'')
           | Some d \<Rightarrow> hex_loop k (n * 16 + d) p'))"

definition parse_hex4 :: "Parser \<Rightarrow> JsonError + nat \<times> Parser" where
  "parse_hex4 p = hex_loop 4 0 p"

definition push_scalar :: "nat \<Rightarrow> str \<Rightarrow> Parser \<Rightarrow> JsonError + str \<times> Parser" where
  "push_scalar n out p =
     (if is_scalar n then Inr (out @ utf8_encode n, p) else Inl (err p ''invalid unicode scalar''))"

definition parse_unicode_escape :: "str \<Rightarrow> Parser \<Rightarrow> JsonError + str \<times> Parser" where
  "parse_unicode_escape out p =
     rbind (parse_hex4 p) (\<lambda>(first, p1).
       if 0xD800 \<le> first \<and> first \<le> 0xDBFF then
         (if fst (bump p1) = Some (CHR 0x5C) \<and> fst (bump (snd (bump p1))) = Some (CHR ''u'') then
            rbind (parse_hex4 (snd (bump (snd (bump p1))))) (\<lambda>(second, p2).
              if 0xDC00 \<le> second \<and> second \<le> 0xDFFF then
                push_scalar (0x10000 + (first - 0xD800) * 0x400 + (second - 0xDC00)) out p2
              else Inl (err p2 ''invalid low surrogate''))
          else Inl (err p1 ''missing low surrogate''))
       else if 0xDC00 \<le> first \<and> first \<le> 0xDFFF then Inl (err p1 ''lone low surrogate'')
       else push_scalar first out p1)"

definition parse_escape :: "str \<Rightarrow> Parser \<Rightarrow> JsonError + str \<times> Parser" where
  "parse_escape out p =
     (case bump p of
        (None, p') \<Rightarrow> Inl (err p' ''unterminated escape'')
      | (Some c, p') \<Rightarrow>
          if c = CHR 0x22 then Inr (out @ [CHR 0x22], p')
          else if c = CHR 0x5C then Inr (out @ [CHR 0x5C], p')
          else if c = CHR ''/'' then Inr (out @ ''/'', p')
          else if c = CHR ''b'' then Inr (out @ [CHR 0x08], p')
          else if c = CHR ''f'' then Inr (out @ [CHR 0x0C], p')
          else if c = CHR ''n'' then Inr (out @ [CHR 0x0A], p')
          else if c = CHR ''r'' then Inr (out @ [CHR 0x0D], p')
          else if c = CHR ''t'' then Inr (out @ [CHR 0x09], p')
          else if c = CHR ''u'' then parse_unicode_escape out p'
          else Inl (err p' ''invalid escape''))"

lemma advance_rest [simp]: "p_rest (advance n p) = drop n (p_rest p)"
  and advance_pos [simp]: "p_pos (advance n p) = p_pos p + n"
  and advance_depth [simp]: "p_depth (advance n p) = p_depth p"
  by (simp_all add: advance_def)

lemma bump_length:
  "bump p = (r, p') \<Longrightarrow> length (p_rest p') \<le> length (p_rest p)"
  "bump p = (Some c, p') \<Longrightarrow> length (p_rest p') < length (p_rest p)"
  by (auto simp: bump_def peek_def split: list.splits)

lemma hex_loop_length: "hex_loop k n p = Inr (r, p') \<Longrightarrow> length (p_rest p') \<le> length (p_rest p)"
proof (induction k n p rule: hex_loop.induct)
  case (2 k n p)
  then show ?case
    by (auto split: prod.splits option.splits dest!: bump_length(1) intro: order.trans)
qed simp

lemma snd_bump_length [simp]: "length (p_rest (snd (bump p))) \<le> length (p_rest p)"
  using bump_length(1) [of p "fst (bump p)" "snd (bump p)"] by simp

lemma parse_unicode_escape_length:
  assumes "parse_unicode_escape out p = Inr (r, p')"
  shows "length (p_rest p') \<le> length (p_rest p)"
proof -
  obtain first p1 where h1: "parse_hex4 p = Inr (first, p1)"
    using assms by (auto simp: parse_unicode_escape_def rbind_Inr_iff)
  let ?p1'' = "snd (bump (snd (bump p1)))"
  have "p' = p1 \<or> (\<exists>second p2. parse_hex4 ?p1'' = Inr (second, p2) \<and> p' = p2)"
    using assms h1
    by (auto simp: parse_unicode_escape_def rbind_Inr_iff push_scalar_def split: if_splits)
  moreover have "length (p_rest p1) \<le> length (p_rest p)"
    using h1 hex_loop_length by (simp add: parse_hex4_def)
  moreover have "length (p_rest ?p1'') \<le> length (p_rest p1)"
    by (rule order.trans [OF snd_bump_length snd_bump_length])
  ultimately show ?thesis
    using hex_loop_length by (fastforce simp: parse_hex4_def)
qed

lemma parse_escape_length:
  "parse_escape out p = Inr (r, p') \<Longrightarrow> length (p_rest p') \<le> length (p_rest p)"
  by (auto simp: parse_escape_def split: prod.splits option.splits if_splits
      dest!: bump_length(1) parse_unicode_escape_length)

text \<open>
  A multi-byte character is taken whole: the rest of the input has to be valid UTF-8 from
  its lead byte on, as \<open>from_utf8(&self.bytes[start..])\<close> requires.
\<close>

function parse_string_loop :: "str \<Rightarrow> Parser \<Rightarrow> JsonError + str \<times> Parser" where
  "parse_string_loop out p =
     (case bump p of
        (None, p') \<Rightarrow> Inl (err p' ''unterminated string'')
      | (Some c, p') \<Rightarrow>
          if c = CHR 0x22 then Inr (out, p')
          else if c = CHR 0x5C then
            (case parse_escape out p' of
               Inl e \<Rightarrow> Inl e
             | Inr (out', p'') \<Rightarrow> parse_string_loop out' p'')
          else if byte c \<le> 0x1F then Inl (err p' ''control character in string'')
          else if byte c < 0x80 then parse_string_loop (out @ [c]) p'
          else if utf8_valid (p_rest p) then
            (case utf8_char_len (p_rest p) of
               None \<Rightarrow> Inl (err p' ''invalid string'')
             | Some n \<Rightarrow> parse_string_loop (out @ take n (p_rest p)) (advance n p))
          else Inl (err p ''invalid utf-8 in string''))"
  by pat_completeness auto
termination
proof (relation "measure (\<lambda>(out, p). length (p_rest p))", goal_cases)
  case (2 out p r p' c rs out' p'')
  then have "parse_escape out p' = Inr (out', p'')" "bump p = (Some c, p')" by simp_all
  then show ?case using bump_length(2) [of p c p'] parse_escape_length [of out p' out' p''] by simp
next
  case (3 out p r p' c)
  then show ?case using bump_length(2) [of p c p'] by simp
next
  case (4 out p r p' c n)
  then show ?case using utf8_char_len_bounds [of "p_rest p" n] by (cases "p_rest p") auto
qed simp

declare parse_string_loop.simps [simp del]

definition parse_string :: "Parser \<Rightarrow> JsonError + str \<times> Parser" where
  "parse_string p =
     (if fst (bump p) \<noteq> Some (CHR 0x22) then Inl (err (snd (bump p)) ''expected string'')
      else parse_string_loop [] (snd (bump p)))"

section \<open>Numbers\<close>

definition digits_run :: "Parser \<Rightarrow> Parser" where
  "digits_run p = advance (length (takeWhile is_digit (p_rest p))) p"

definition number_int :: "Parser \<Rightarrow> JsonError + Parser" where
  "number_int p =
     (case peek p of
        Some c \<Rightarrow>
          if c = CHR ''0'' then Inr (advance 1 p)
          else if is_digit c then Inr (digits_run (advance 1 p))
          else Inl (err p ''invalid number'')
      | None \<Rightarrow> Inl (err p ''invalid number''))"

definition number_digits :: "str \<Rightarrow> Parser \<Rightarrow> JsonError + Parser" where
  "number_digits what p =
     (let p' = digits_run p in
      if p_pos p' = p_pos p then Inl (err p' what) else Inr p')"

definition number_frac :: "Parser \<Rightarrow> JsonError + Parser" where
  "number_frac p =
     (if peek p = Some (CHR ''.'') then number_digits ''invalid number fraction'' (advance 1 p)
      else Inr p)"

definition number_exp :: "Parser \<Rightarrow> JsonError + Parser" where
  "number_exp p =
     (if peek p = Some (CHR ''e'') \<or> peek p = Some (CHR ''E'') then
        (let p1 = advance 1 p;
             p2 = (if peek p1 = Some (CHR ''+'') \<or> peek p1 = Some (CHR ''-'') then advance 1 p1 else p1)
         in number_digits ''invalid number exponent'' p2)
      else Inr p)"

definition parse_number :: "Parser \<Rightarrow> JsonError + str \<times> Parser" where
  "parse_number p =
     rbind (number_int (if peek p = Some (CHR ''-'') then advance 1 p else p)) (\<lambda>p1.
     rbind (number_frac p1) (\<lambda>p2.
     rbind (number_exp p2) (\<lambda>p3.
       Inr (take (p_pos p3 - p_pos p) (p_rest p), p3))))"

section \<open>Values, arrays, objects\<close>

type_synonym 'a presult = "(JsonError + 'a \<times> Parser) option"

definition parse_array_with ::
  "(JsonValue list \<Rightarrow> Parser \<Rightarrow> JsonValue presult) \<Rightarrow> Parser \<Rightarrow> JsonValue presult" where
  "parse_array_with loop p =
     (case enter_nested p of
        Inl e \<Rightarrow> Some (Inl e)
      | Inr p1 \<Rightarrow>
          (let p2 = skip_ws (snd (bump p1)) in
           if peek p2 = Some (CHR 0x5D) then Some (Inr (JArray [], leave_nested (snd (bump p2))))
           else loop [] p2))"

definition parse_object_with ::
  "(JsonMap \<Rightarrow> Parser \<Rightarrow> JsonValue presult) \<Rightarrow> Parser \<Rightarrow> JsonValue presult" where
  "parse_object_with loop p =
     (case enter_nested p of
        Inl e \<Rightarrow> Some (Inl e)
      | Inr p1 \<Rightarrow>
          (let p2 = skip_ws (snd (bump p1)) in
           if peek p2 = Some (CHR 0x7D) then Some (Inr (JObject [], leave_nested (snd (bump p2))))
           else loop [] p2))"

definition object_key :: "Parser \<Rightarrow> JsonError + str \<times> Parser" where
  "object_key p =
     (if peek p \<noteq> Some (CHR 0x22) then Inl (err p ''expected object key'')
      else rbind (parse_string p) (\<lambda>(key, p1).
        let (b, p2) = bump (skip_ws p1) in
        if b \<noteq> Some (CHR '':'') then Inl (err p2 (''expected '' @ [CHR 0x27] @ '':'' @ [CHR 0x27]))
        else Inr (key, skip_ws p2)))"

fun parse_value :: "nat \<Rightarrow> Parser \<Rightarrow> JsonValue presult"
  and array_loop :: "nat \<Rightarrow> JsonValue list \<Rightarrow> Parser \<Rightarrow> JsonValue presult"
  and object_loop :: "nat \<Rightarrow> JsonMap \<Rightarrow> Parser \<Rightarrow> JsonValue presult" where
  "parse_value 0 p = None"
| "parse_value (Suc n) p =
     (case peek p of
        None \<Rightarrow> Some (Inl (err p ''unexpected end of input''))
      | Some c \<Rightarrow>
          if c = CHR ''n'' then Some (literal p ''null'' JNull)
          else if c = CHR ''t'' then Some (literal p ''true'' (JBool True))
          else if c = CHR ''f'' then Some (literal p ''false'' (JBool False))
          else if c = CHR 0x22 then
            Some (rbind (parse_string p) (\<lambda>(s, p'). Inr (JString s, p')))
          else if c = CHR 0x5B then parse_array_with (\<lambda>vs q. array_loop n vs q) p
          else if c = CHR 0x7B then parse_object_with (\<lambda>es q. object_loop n es q) p
          else if c = CHR ''-'' \<or> is_digit c then
            Some (rbind (parse_number p) (\<lambda>(raw, p'). Inr (JNumber raw, p')))
          else Some (Inl (err p ''expected json value'')))"
| "array_loop 0 vs p = None"
| "array_loop (Suc n) vs p =
     (case parse_value n (skip_ws p) of
        None \<Rightarrow> None
      | Some (Inl e) \<Rightarrow> Some (Inl e)
      | Some (Inr (v, p1)) \<Rightarrow>
          (let (b, p2) = bump (skip_ws p1) in
           if b = Some (CHR '','') then array_loop n (vs @ [v]) p2
           else if b = Some (CHR 0x5D) then Some (Inr (JArray (vs @ [v]), leave_nested p2))
           else Some (Inl (err p2
             (''expected '' @ [CHR 0x27] @ '','' @ [CHR 0x27] @ '' or '' @ [CHR 0x27, CHR 0x5D, CHR 0x27])))))"
| "object_loop 0 es p = None"
| "object_loop (Suc n) es p =
     (case object_key (skip_ws p) of
        Inl e \<Rightarrow> Some (Inl e)
      | Inr (key, p0) \<Rightarrow>
          (case parse_value n p0 of
             None \<Rightarrow> None
           | Some (Inl e) \<Rightarrow> Some (Inl e)
           | Some (Inr (v, p1)) \<Rightarrow>
               (let (b, p2) = bump (skip_ws p1) in
                if b = Some (CHR '','') then object_loop n (es @ [(key, v)]) p2
                else if b = Some (CHR 0x7D) then Some (Inr (JObject (es @ [(key, v)]), leave_nested p2))
                else Some (Inl (err p2
                  (''expected '' @ [CHR 0x27] @ '','' @ [CHR 0x27] @ '' or '' @ [CHR 0x27, CHR 0x7D, CHR 0x27]))))))"

definition validate_input_size :: "nat \<Rightarrow> JsonError + unit" where
  "validate_input_size len =
     (if DEFAULT_MAX_JSON_BYTES < len then
        Inl \<lparr>offset = DEFAULT_MAX_JSON_BYTES,
             message = ''json input exceeds parser limit of '' @ show_nat DEFAULT_MAX_JSON_BYTES @ '' bytes''\<rparr>
      else Inr ())"

text \<open>The outer \<open>option\<close> is the fuel; \<open>parse_fuel_enough\<close> shows it is always \<open>Some\<close>.\<close>

definition parse_value_str :: "str \<Rightarrow> (JsonError + JsonValue) option" where
  "parse_value_str src =
     (case validate_input_size (length src) of
        Inl e \<Rightarrow> Some (Inl e)
      | Inr _ \<Rightarrow>
          (case parse_value (2 * length src + 2)
                  (skip_ws \<lparr>p_rest = src, p_pos = 0, p_depth = 0\<rparr>) of
             None \<Rightarrow> None
           | Some (Inl e) \<Rightarrow> Some (Inl e)
           | Some (Inr (v, p)) \<Rightarrow>
               (let p' = skip_ws p in
                if eof p' then Some (Inr v) else Some (Inl (err p' ''trailing characters'')))))"

text \<open>\<open>from_slice\<close> at \<open>JsonValue\<close>: the bytes have to be UTF-8, and the error tells up to where they are.\<close>

definition from_slice :: "str \<Rightarrow> (JsonError + JsonValue) option" where
  "from_slice src =
     (case validate_input_size (length src) of
        Inl e \<Rightarrow> Some (Inl e)
      | Inr _ \<Rightarrow>
          if utf8_valid src then parse_value_str src
          else Some (Inl \<lparr>offset = utf8_valid_up_to src, message = ''input is not utf-8''\<rparr>))"

section \<open>Printing\<close>

definition hex_digit :: "nat \<Rightarrow> char" where
  "hex_digit d = (if d < 10 then char_of (0x30 + d) else char_of (0x57 + d))"

definition hex4 :: "nat \<Rightarrow> str" where
  "hex4 n = [hex_digit (n div 4096 mod 16), hex_digit (n div 256 mod 16),
             hex_digit (n div 16 mod 16), hex_digit (n mod 16)]"

text \<open>
  The printer walks the characters of the string; a character of several bytes is copied
  as it is, so the walk is over bytes.
\<close>

definition write_char :: "char \<Rightarrow> str" where
  "write_char c =
     (if c = CHR 0x22 then [CHR 0x5C, CHR 0x22]
      else if c = CHR 0x5C then [CHR 0x5C, CHR 0x5C]
      else if c = CHR 0x0A then [CHR 0x5C, CHR ''n'']
      else if c = CHR 0x0D then [CHR 0x5C, CHR ''r'']
      else if c = CHR 0x09 then [CHR 0x5C, CHR ''t'']
      else if c = CHR 0x08 then [CHR 0x5C, CHR ''b'']
      else if c = CHR 0x0C then [CHR 0x5C, CHR ''f'']
      else if byte c \<le> 0x1F then [CHR 0x5C, CHR ''u''] @ hex4 (byte c)
      else [c])"

definition write_string :: "str \<Rightarrow> str" where
  "write_string s = [CHR 0x22] @ concat (map write_char s) @ [CHR 0x22]"

definition write_sep :: "bool \<Rightarrow> nat option \<Rightarrow> nat \<Rightarrow> str" where
  "write_sep first pretty d =
     (if first then [] else '','')
     @ (case pretty of
          None \<Rightarrow> []
        | Some spaces \<Rightarrow> [CHR 0x0A] @ replicate ((d + 1) * spaces) (CHR '' ''))"

definition write_close :: "bool \<Rightarrow> nat option \<Rightarrow> nat \<Rightarrow> str" where
  "write_close emp pretty d =
     (if emp then []
      else (case pretty of
              None \<Rightarrow> []
            | Some spaces \<Rightarrow> [CHR 0x0A] @ replicate (d * spaces) (CHR '' '')))"

fun write_json :: "JsonValue \<Rightarrow> nat option \<Rightarrow> nat \<Rightarrow> str"
  and write_seq :: "bool \<Rightarrow> JsonValue list \<Rightarrow> nat option \<Rightarrow> nat \<Rightarrow> str"
  and write_entries :: "bool \<Rightarrow> JsonMap \<Rightarrow> nat option \<Rightarrow> nat \<Rightarrow> str" where
  "write_json JNull pretty d = ''null''"
| "write_json (JBool b) pretty d = (if b then ''true'' else ''false'')"
| "write_json (JNumber raw) pretty d = raw"
| "write_json (JString s) pretty d = write_string s"
| "write_json (JArray vs) pretty d =
     [CHR 0x5B] @ write_seq True vs pretty d @ write_close (vs = []) pretty d @ [CHR 0x5D]"
| "write_json (JObject es) pretty d =
     [CHR 0x7B] @ write_entries True es pretty d @ write_close (es = []) pretty d @ [CHR 0x7D]"
| "write_seq first [] pretty d = []"
| "write_seq first (v # vs) pretty d =
     write_sep first pretty d @ write_json v pretty (d + 1) @ write_seq False vs pretty d"
| "write_entries first [] pretty d = []"
| "write_entries first ((k, v) # es) pretty d =
     write_sep first pretty d @ write_string k @ '':''
     @ (if pretty \<noteq> None then '' '' else []) @ write_json v pretty (d + 1)
     @ write_entries False es pretty d"

definition to_compact_string :: "JsonValue \<Rightarrow> str" where
  "to_compact_string v = write_json v None 0"

definition to_pretty_string :: "JsonValue \<Rightarrow> str" where
  "to_pretty_string v = write_json v (Some 2) 0"

section \<open>Objects as maps\<close>

lemma Map_get_Cons: "Map_get ((k', v') # es) k = (if k' = k then Some v' else Map_get es k)"
  by (simp add: Map_get_def)

text \<open>
  Object maps. Inserting returns what \<open>get\<close> returned before; afterwards \<open>get\<close> returns
  the new value for that key and the old one for every other key, the keys keep their order,
  and a new key goes to the end.
\<close>

theorem json_map_insert:
  "fst (Map_insert es k v) = Map_get es k
   \<and> Map_get (snd (Map_insert es k v)) k' = (if k' = k then Some v else Map_get es k')
   \<and> Map_keys (snd (Map_insert es k v)) = (if k \<in> set (Map_keys es) then Map_keys es else Map_keys es @ [k])"
proof (induction es k v rule: Map_insert.induct)
  case (2 k0 v0 es k v)
  obtain old es' where "Map_insert es k v = (old, es')" by (cases "Map_insert es k v")
  then show ?case using 2 by (auto simp: Map_get_Cons Map_keys_def)
qed (simp add: Map_get_def Map_keys_def)

end
