(* ===== verification/Json_Total.thy ===== *)
theory Json_Total
  imports Json_Manifest
begin

text \<open>
  The JSON parser consumes input at every step and therefore never runs out of the fuel
  that \<open>parse_value_str\<close> gives it: it always returns a value or an error.
\<close>

section \<open>Consumption\<close>

lemma skip_ws_length: "length (p_rest (skip_ws p)) \<le> length (p_rest p)"
  by (simp add: skip_ws_def)

lemma digits_run_length [simp]: "length (p_rest (digits_run p)) \<le> length (p_rest p)"
  by (simp add: digits_run_def)

lemma leave_nested_rest [simp]: "p_rest (leave_nested p) = p_rest p"
  by (simp add: leave_nested_def)

lemma enter_nested_rest: "enter_nested p = Inr p' \<Longrightarrow> p_rest p' = p_rest p"
  by (auto simp: enter_nested_def split: if_splits)

lemma peek_Some_iff: "peek p = Some c \<longleftrightarrow> (\<exists>cs. p_rest p = c # cs)"
  by (auto simp: peek_def split: list.splits)

lemma bump_peek: "peek p = Some c \<Longrightarrow> bump p = (Some c, advance 1 p)"
  by (simp add: bump_def)

lemma parse_string_loop_length:
  "parse_string_loop out p = Inr (s, p') \<Longrightarrow> length (p_rest p') < length (p_rest p)"
proof (induction out p rule: parse_string_loop.induct)
  case (1 out p)
  from "1.prems" obtain c q where b: "bump p = (Some c, q)"
    by (subst (asm) parse_string_loop.simps) (auto split: prod.splits option.splits)
  have q: "length (p_rest q) < length (p_rest p)" using bump_length(2) [OF b] .
  consider (quote) "c = CHR 0x22" "p' = q"
    | (esc) out' q' where "c = CHR 0x5C" "parse_escape out q = Inr (out', q')"
        "parse_string_loop out' q' = Inr (s, p')"
    | (ascii) "c \<noteq> CHR 0x22" "c \<noteq> CHR 0x5C" "\<not> byte c \<le> 0x1F" "byte c < 0x80"
        "parse_string_loop (out @ [c]) q = Inr (s, p')"
    | (multi) n where "c \<noteq> CHR 0x22" "c \<noteq> CHR 0x5C" "\<not> byte c \<le> 0x1F" "\<not> byte c < 0x80"
        "utf8_valid (p_rest p)" "utf8_char_len (p_rest p) = Some n"
        "parse_string_loop (out @ take n (p_rest p)) (advance n p) = Inr (s, p')"
    using "1.prems" b
    by (subst (asm) parse_string_loop.simps) (auto split: if_splits option.splits sum.splits)
  then show ?case
  proof cases
    case quote
    then show ?thesis using q by simp
  next
    case esc
    then have "length (p_rest p') < length (p_rest q')"
      using "1.IH"(1) [OF b [symmetric] refl] by simp
    then show ?thesis using q parse_escape_length [OF esc(2)] by simp
  next
    case ascii
    then show ?thesis using "1.IH"(2) [OF b [symmetric] refl] q by fastforce
  next
    case multi
    then show ?thesis using "1.IH"(3) [OF b [symmetric] refl] by fastforce
  qed
qed

lemma parse_string_length:
  assumes "parse_string p = Inr (s, p')"
  shows "length (p_rest p') < length (p_rest p)"
proof -
  have "parse_string_loop [] (snd (bump p)) = Inr (s, p')"
    using assms by (auto simp: parse_string_def split: if_splits)
  from parse_string_loop_length [OF this] show ?thesis
    using snd_bump_length [of p] by linarith
qed

lemma number_digits_length: "number_digits w p = Inr p' \<Longrightarrow> length (p_rest p') \<le> length (p_rest p)"
  by (auto simp: number_digits_def Let_def split: if_splits)

lemma number_int_length: "number_int p = Inr p' \<Longrightarrow> length (p_rest p') < length (p_rest p)"
  using digits_run_length [of "advance 1 p"]
  by (auto simp: number_int_def peek_Some_iff split: option.splits if_splits)

lemma number_frac_length: "number_frac p = Inr p' \<Longrightarrow> length (p_rest p') \<le> length (p_rest p)"
  by (auto simp: number_frac_def split: if_splits dest!: number_digits_length)

lemma number_exp_length: "number_exp p = Inr p' \<Longrightarrow> length (p_rest p') \<le> length (p_rest p)"
  by (auto simp: number_exp_def Let_def split: if_splits dest!: number_digits_length)

lemma parse_number_length:
  "parse_number p = Inr (raw, p') \<Longrightarrow> length (p_rest p') < length (p_rest p)"
  by (auto simp: parse_number_def rbind_Inr_iff split: if_splits
      dest!: number_int_length number_frac_length number_exp_length)

lemma literal_length: "literal p lit v = Inr (w, p') \<Longrightarrow> lit \<noteq> [] \<Longrightarrow> length (p_rest p') < length (p_rest p)"
  by (auto simp: literal_def prefix_def split: if_splits)

lemma object_key_length:
  assumes "object_key p = Inr (k, p')"
  shows "length (p_rest p') < length (p_rest p)"
proof -
  obtain p1 where 1: "parse_string p = Inr (k, p1)" "p' = skip_ws (snd (bump (skip_ws p1)))"
    using assms by (auto simp: object_key_def rbind_Inr_iff Let_def case_prod_beta split: if_splits)
  have "length (p_rest p') \<le> length (p_rest p1)"
    unfolding 1(2) by (meson order.trans skip_ws_length snd_bump_length)
  then show ?thesis using parse_string_length [OF 1(1)] by simp
qed

lemma after_open_length:
  assumes "enter_nested p = Inr p1" "peek p = Some c"
  shows "length (p_rest (skip_ws (snd (bump p1)))) < length (p_rest p)"
proof -
  have r: "p_rest p1 = p_rest p" using enter_nested_rest [OF assms(1)] .
  with assms(2) have "peek p1 = Some c" by (simp add: peek_Some_iff)
  then have "length (p_rest (snd (bump p1))) < length (p_rest p)"
    using r by (simp add: bump_peek peek_Some_iff) (auto simp: peek_Some_iff)
  then show ?thesis using skip_ws_length le_less_trans by blast
qed

lemma separator_length:
  assumes "bump (skip_ws p) = (Some c, p')"
  shows "length (p_rest p') < length (p_rest p)"
  using bump_length(2) [OF assms] skip_ws_length [of p] by simp

lemma parse_consumes:
  "(parse_value n p = Some (Inr (v, p')) \<longrightarrow> length (p_rest p') < length (p_rest p))
   \<and> (array_loop n vs p = Some (Inr (v, p')) \<longrightarrow> length (p_rest p') < length (p_rest p))
   \<and> (object_loop n es p = Some (Inr (v, p')) \<longrightarrow> length (p_rest p') < length (p_rest p))"
proof (induction n arbitrary: p v p' vs es)
  case (Suc n)
  note IHv = Suc.IH [THEN conjunct1, rule_format]
    and IHa = Suc.IH [THEN conjunct2, THEN conjunct1, rule_format]
    and IHo = Suc.IH [THEN conjunct2, THEN conjunct2, rule_format]
  have "length (p_rest p') < length (p_rest p)" if r: "parse_value (Suc n) p = Some (Inr (v, p'))"
  proof -
    obtain c where c: "peek p = Some c" using r by (cases "peek p") auto
    show ?thesis
    proof (cases "c = CHR 0x5B \<or> c = CHR 0x7B")
      case True
      then have "parse_array_with (\<lambda>vs q. array_loop n vs q) p = Some (Inr (v, p'))
          \<or> parse_object_with (\<lambda>es q. object_loop n es q) p = Some (Inr (v, p'))"
        using r c by auto
      then show ?thesis
        using c unfolding parse_array_with_def parse_object_with_def Let_def
        by (auto split: sum.splits if_splits dest!: after_open_length IHa IHo
            intro: le_less_trans [OF snd_bump_length])
    next
      case False
      then show ?thesis using r c
        by (auto simp: rbind_Inr_iff split: if_splits
            dest!: literal_length parse_string_length parse_number_length)
    qed
  qed
  moreover have "length (p_rest p') < length (p_rest p)"
    if r: "array_loop (Suc n) vs p = Some (Inr (v, p'))"
  proof -
    from r obtain w p1 b p2 where w: "parse_value n (skip_ws p) = Some (Inr (w, p1))"
        and b: "bump (skip_ws p1) = (b, p2)"
      by (auto simp: Let_def split: option.splits sum.splits prod.splits if_splits)
    have "length (p_rest p1) < length (p_rest p)"
      using IHv [OF w] skip_ws_length [of p] by simp
    moreover have "length (p_rest p') \<le> length (p_rest p2)"
      using r w b IHa [of "vs @ [w]" p2] by (auto split: if_splits dest: less_imp_le)
    moreover have "length (p_rest p2) \<le> length (p_rest p1)"
      using bump_length(1) [OF b] skip_ws_length [of p1] by simp
    ultimately show ?thesis by simp
  qed
  moreover have "length (p_rest p') < length (p_rest p)"
    if r: "object_loop (Suc n) es p = Some (Inr (v, p'))"
  proof -
    from r obtain k p0 w p1 b p2 where k: "object_key (skip_ws p) = Inr (k, p0)"
        and w: "parse_value n p0 = Some (Inr (w, p1))" and b: "bump (skip_ws p1) = (b, p2)"
      by (auto simp: Let_def split: option.splits sum.splits prod.splits if_splits)
    have "length (p_rest p1) < length (p_rest p)"
      using IHv [OF w] object_key_length [OF k] skip_ws_length [of p] by simp
    moreover have "length (p_rest p') \<le> length (p_rest p2)"
      using r k w b IHo [of "es @ [(k, w)]" p2] by (auto split: if_splits dest: less_imp_le)
    moreover have "length (p_rest p2) \<le> length (p_rest p1)"
      using bump_length(1) [OF b] skip_ws_length [of p1] by simp
    ultimately show ?thesis by simp
  qed
  ultimately show ?case by blast
qed simp

lemmas parse_value_consumes = parse_consumes [THEN conjunct1, rule_format]

section \<open>Fuel\<close>

lemma parse_fuel_enough:
  "(2 * length (p_rest p) < n \<longrightarrow> parse_value n p \<noteq> None)
   \<and> (2 * length (p_rest p) + 1 < n \<longrightarrow> array_loop n vs p \<noteq> None)
   \<and> (2 * length (p_rest p) + 1 < n \<longrightarrow> object_loop n es p \<noteq> None)"
proof (induction n arbitrary: p vs es)
  case (Suc n)
  note IHv = Suc.IH [THEN conjunct1, rule_format]
    and IHa = Suc.IH [THEN conjunct2, THEN conjunct1, rule_format]
    and IHo = Suc.IH [THEN conjunct2, THEN conjunct2, rule_format]
  have "parse_value (Suc n) p \<noteq> None" if len: "2 * length (p_rest p) < Suc n"
  proof (cases "peek p")
    case (Some c)
    have "2 * length (p_rest (skip_ws (snd (bump p1)))) + 1 < n" if "enter_nested p = Inr p1" for p1
      using after_open_length [OF that Some] len by linarith
    with Some IHa IHo show ?thesis
      by (auto simp: parse_array_with_def parse_object_with_def Let_def split: sum.splits)
  qed simp
  moreover have "array_loop (Suc n) vs p \<noteq> None" if len: "2 * length (p_rest p) + 1 < Suc n"
  proof -
    have "parse_value n (skip_ws p) \<noteq> None"
      using skip_ws_length [of p] len by (intro IHv) linarith
    moreover have "array_loop n vs' p2 \<noteq> None"
      if "parse_value n (skip_ws p) = Some (Inr (w, p1))" "bump (skip_ws p1) = (Some c, p2)" for w p1 c p2 vs'
      using parse_value_consumes [OF that(1)] separator_length [OF that(2)] skip_ws_length [of p] len
      by (intro IHa) linarith
    ultimately show ?thesis
      by (auto simp: Let_def split: option.splits sum.splits prod.splits)
  qed
  moreover have "object_loop (Suc n) es p \<noteq> None" if len: "2 * length (p_rest p) + 1 < Suc n"
  proof -
    have "parse_value n p0 \<noteq> None" if "object_key (skip_ws p) = Inr (k, p0)" for k p0
      using object_key_length [OF that] skip_ws_length [of p] len by (intro IHv) linarith
    moreover have "object_loop n es' p2 \<noteq> None"
      if "object_key (skip_ws p) = Inr (k, p0)" "parse_value n p0 = Some (Inr (w, p1))"
        "bump (skip_ws p1) = (Some c, p2)" for k p0 w p1 c p2 es'
      using object_key_length [OF that(1)] parse_value_consumes [OF that(2)] separator_length [OF that(3)]
        skip_ws_length [of p] len
      by (intro IHo) linarith
    ultimately show ?thesis
      by (auto simp: Let_def split: option.splits sum.splits prod.splits)
  qed
  ultimately show ?case by blast
qed simp

lemma parse_value_str_returns: "\<exists>r. parse_value_str src = Some r"
proof -
  let ?p = "skip_ws \<lparr>p_rest = src, p_pos = 0, p_depth = 0\<rparr>"
  have "length (p_rest ?p) \<le> length src"
    using skip_ws_length [of "\<lparr>p_rest = src, p_pos = 0, p_depth = 0\<rparr>"] by simp
  then have "parse_value (2 * length src + 2) ?p \<noteq> None"
    using parse_fuel_enough [of ?p "2 * length src + 2", THEN conjunct1] by simp
  then show ?thesis
    by (auto simp: parse_value_str_def Let_def split: sum.splits prod.splits)
qed

text \<open>
  The parser is total. On every input \<open>parse_value_str\<close> returns a value or a
  located error; the loops over arrays and objects and the recursion through nested values
  all end.
\<close>

theorem parse_value_str_total: "\<exists>r. parse_value_str src = Some r"
  by (rule parse_value_str_returns)

end
