(* ===== verification/Json_Roundtrip.thy ===== *)
theory Json_Roundtrip
  imports Json_Total
begin

text \<open>
  Parsing undoes printing, for the compact and for the pretty printer: string escapes,
  number literals, then values by induction on the value, with the parser run in front of
  arbitrary further input.
\<close>

section \<open>Moving the cursor\<close>

lemma advance_0 [simp]: "advance 0 p = p"
  by (simp add: advance_def)

lemma advance_advance [simp]: "advance m (advance n p) = advance (n + m) p"
  by (simp add: advance_def add.commute add.left_commute)

lemma advance_depth_update [simp]: "advance n (p\<lparr>p_depth := k\<rparr>) = (advance n p)\<lparr>p_depth := k\<rparr>"
  by (simp add: advance_def)

lemma bump_Cons: "p_rest p = c # cs \<Longrightarrow> bump p = (Some c, advance 1 p)"
  by (simp add: bump_def peek_def)

lemma peek_Cons: "p_rest p = c # cs \<Longrightarrow> peek p = Some c"
  by (simp add: peek_def)

lemma takeWhile_stop:
  "(\<And>c. c \<in> set w \<Longrightarrow> P c) \<Longrightarrow> r = [] \<or> \<not> P (hd r) \<Longrightarrow> takeWhile P (w @ r) = w"
  by (cases r) (auto simp: takeWhile_append2)

lemma skip_ws_run:
  assumes "p_rest p = w @ r" "\<And>c. c \<in> set w \<Longrightarrow> is_json_ws c" "r = [] \<or> \<not> is_json_ws (hd r)"
  shows "skip_ws p = advance (length w) p"
proof -
  have "takeWhile is_json_ws (p_rest p) = w"
    unfolding assms(1) using assms(2,3) by (rule takeWhile_stop)
  then show ?thesis by (simp add: skip_ws_def)
qed

lemma skip_ws_none: "r = p_rest p \<Longrightarrow> r = [] \<or> \<not> is_json_ws (hd r) \<Longrightarrow> skip_ws p = p"
  using skip_ws_run [of p "[]" r] by simp

section \<open>Strings\<close>

lemma hex_digit_val_digit: "d < 16 \<Longrightarrow> hex_digit_val (hex_digit d) = Some d"
  by (auto simp: hex_digit_val_def hex_digit_def Let_def)

lemma hex_loop_Cons:
  "p_rest p = hex_digit d # cs \<Longrightarrow> d < 16 \<Longrightarrow> hex_loop (Suc k) n p = hex_loop k (n * 16 + d) (advance 1 p)"
  by (simp add: bump_Cons hex_digit_val_digit)

lemma hex4_value:
  fixes n :: nat
  assumes "n < 65536"
  shows "((n div 4096 mod 16 * 16 + n div 256 mod 16) * 16 + n div 16 mod 16) * 16 + n mod 16 = n"
proof -
  have split: "m div 16 * 16 + m mod 16 = m" for m :: nat by simp
  have "n div 4096 mod 16 = n div 256 div 16" using assms by (simp flip: div_mult2_eq)
  then have "n div 4096 mod 16 * 16 + n div 256 mod 16 = n div 256"
    using split [of "n div 256"] by simp
  moreover have "n div 256 * 16 + n div 16 mod 16 = n div 16"
    using split [of "n div 16"] by (simp flip: div_mult2_eq)
  ultimately show ?thesis using split [of n] by simp
qed

lemma parse_hex4_hex4:
  assumes "p_rest p = hex4 n @ r" "n < 65536"
  shows "parse_hex4 p = Inr (n, advance 4 p)"
proof -
  have 4: "(4 :: nat) = Suc (Suc (Suc (Suc 0)))" by simp
  show ?thesis
    using assms hex4_value [OF assms(2)]
    by (simp add: parse_hex4_def 4 hex4_def bump_Cons hex_digit_val_digit del: hex_loop.simps(2)
        add: hex_loop_Cons)
qed

lemma parse_escape_control:
  assumes "byte c \<le> 0x1F" "p_rest p = CHR ''u'' # hex4 (byte c) @ r"
  shows "parse_escape out p = Inr (out @ [c], advance 5 p)"
proof -
  have h: "parse_hex4 (advance 1 p) = Inr (byte c, advance 5 p)"
    using parse_hex4_hex4 [of "advance 1 p" "byte c" r] assms by simp
  have "utf8_encode (byte c) = [c]" using assms(1) by (simp add: utf8_encode_def)
  then show ?thesis
    using assms h
    by (simp add: parse_escape_def bump_Cons parse_unicode_escape_def push_scalar_def is_scalar_def)
qed

lemma write_char_plain: "\<not> byte c \<le> 0x1F \<Longrightarrow> c \<noteq> CHR 0x22 \<Longrightarrow> c \<noteq> CHR 0x5C \<Longrightarrow> write_char c = [c]"
  by (auto simp: write_char_def)

text \<open>One written ASCII character read back.\<close>

lemma string_loop_ascii:
  assumes "byte c < 0x80" "p_rest p = write_char c @ r"
  shows "parse_string_loop out p = parse_string_loop (out @ [c]) (advance (length (write_char c)) p)"
proof -
  note loop = parse_string_loop.simps [of out p]
  consider (special) "c \<in> {CHR 0x22, CHR 0x5C, CHR 0x0A, CHR 0x0D, CHR 0x09, CHR 0x08, CHR 0x0C}"
    | (control) "c \<notin> {CHR 0x22, CHR 0x5C, CHR 0x0A, CHR 0x0D, CHR 0x09, CHR 0x08, CHR 0x0C}" "byte c \<le> 0x1F"
    | (plain) "c \<notin> {CHR 0x22, CHR 0x5C}" "\<not> byte c \<le> 0x1F" by blast
  then show ?thesis
  proof cases
    case special
    then show ?thesis
      using assms(2) by (auto simp: loop write_char_def bump_Cons parse_escape_def)
  next
    case control
    then have w: "write_char c = CHR 0x5C # CHR ''u'' # hex4 (byte c)"
      by (auto simp: write_char_def)
    then have "parse_escape out (advance 1 p) = Inr (out @ [c], advance 6 p)"
      using assms(2) parse_escape_control [of c "advance 1 p" r out] control by simp
    moreover have "length (write_char c) = 6" using w by (simp add: hex4_def)
    ultimately show ?thesis
      using assms(2) w by (simp add: loop bump_Cons)
  next
    case plain
    then show ?thesis
      using assms by (simp add: loop write_char_plain bump_Cons)
  qed
qed

lemma tail_bytes_high: "utf8_char_len (c # cs) = Some n \<Longrightarrow> \<not> byte c < 0x80 \<Longrightarrow>
    x \<in> set (take n (c # cs)) \<Longrightarrow> 0x80 \<le> byte x"
  by (cases n)
     (auto simp: utf8_char_len_def utf8_tail_ok_def list_all_iff is_cont_def split: option.splits if_splits)

lemma write_high: "(\<And>x. x \<in> set s \<Longrightarrow> 0x80 \<le> byte x) \<Longrightarrow> concat (map write_char s) = s"
proof (induction s)
  case (Cons x s)
  then have "0x80 \<le> byte x" by simp
  then have "\<not> byte x \<le> 0x1F" "x \<noteq> CHR 0x22" "x \<noteq> CHR 0x5C" by auto
  with Cons show ?case by (simp add: write_char_plain)
qed simp

text \<open>One character of several bytes read back.\<close>

lemma string_loop_multi:
  assumes "utf8_char_len s = Some n" "s \<noteq> []" "\<not> byte (hd s) < 0x80"
    and "p_rest p = take n s @ r" "utf8_valid (p_rest p)"
  shows "parse_string_loop out p = parse_string_loop (out @ take n s) (advance n p)"
proof -
  obtain c cs where s: "s = c # cs" using assms(2) by (cases s) auto
  have n: "1 \<le> n" "n \<le> length s" using utf8_char_len_bounds [OF assms(1)] by auto
  obtain m where m: "n = Suc m" using n(1) by (cases n) auto
  have c: "\<not> byte c < 0x80" using assms(3) s by simp
  then have c': "c \<noteq> CHR 0x22" "c \<noteq> CHR 0x5C" "\<not> byte c \<le> 0x1F" by auto
  have rest: "p_rest p = c # take m cs @ r" using assms(4) s m by simp
  have "utf8_char_len (take n s) = Some n"
    using assms(1) n s m by (auto simp: utf8_char_len_def min_def split: option.splits if_splits)
  then have len: "utf8_char_len (p_rest p) = Some n"
    using utf8_char_len_append assms(4) by simp
  have take: "take n (p_rest p) = take n s" using assms(4) n by simp
  show ?thesis
    unfolding parse_string_loop.simps [of out p] bump_Cons [OF rest]
    using c c' len take assms(5) by simp
qed

lemma utf8_valid_write_char: "byte c < 0x80 \<Longrightarrow> utf8_valid (write_char c @ r) = utf8_valid r"
proof -
  assume c: "byte c < 0x80"
  have h: "byte (hex_digit d) < 0x80" if "d < 16" for d
    using that by (simp add: hex_digit_def)
  show ?thesis using c by (simp add: write_char_def hex4_def h)
qed

lemma utf8_valid_write_chars: "utf8_valid s \<Longrightarrow> utf8_valid (concat (map write_char s) @ r) = utf8_valid r"
proof (induction s rule: utf8_valid.induct)
  case (1 s)
  show ?case
  proof (cases s)
    case (Cons c cs)
    with "1.prems" obtain n where n: "utf8_char_len s = Some n" and v: "utf8_valid (drop n s)"
      by (subst (asm) utf8_valid.simps) (auto split: option.splits)
    have IH: "utf8_valid (concat (map write_char (drop n s)) @ r) = utf8_valid r"
      using "1.IH" [OF n v] .
    have split: "concat (map write_char s) = concat (map write_char (take n s)) @ concat (map write_char (drop n s))"
      by (metis append_take_drop_id concat_append map_append)
    show ?thesis
    proof (cases "byte c < 0x80")
      case True
      then have "n = 1" using n Cons by simp
      then show ?thesis using IH Cons True by (simp add: utf8_valid_write_char)
    next
      case False
      have "concat (map write_char (take n s)) = take n s"
        using tail_bytes_high [of c cs n] n False Cons by (intro write_high) auto
      moreover have "utf8_valid (take n s @ t) = utf8_valid t" for t
      proof -
        have "utf8_char_len (take n s) = Some n"
          using n utf8_char_len_bounds [OF n] Cons
          by (cases n) (auto simp: utf8_char_len_def min_def split: option.splits if_splits)
        then show ?thesis
          using utf8_valid_drop [OF utf8_char_len_append] utf8_char_len_bounds [OF n] by simp
      qed
      ultimately show ?thesis using split IH by simp
    qed
  qed simp
qed

lemma parse_string_loop_write:
  "utf8_valid s \<Longrightarrow> p_rest p = concat (map write_char s) @ CHR 0x22 # r \<Longrightarrow> utf8_valid r \<Longrightarrow>
   parse_string_loop out p = Inr (out @ s, advance (length (concat (map write_char s)) + 1) p)"
proof (induction s arbitrary: out p rule: utf8_valid.induct)
  case (1 s)
  show ?case
  proof (cases s)
    case Nil
    with "1.prems" show ?thesis by (simp add: parse_string_loop.simps [of out p] bump_Cons)
  next
    case (Cons c cs)
    with "1.prems" obtain n where n: "utf8_char_len s = Some n" and v: "utf8_valid (drop n s)"
      by (subst (asm) utf8_valid.simps) (auto split: option.splits)
    note IH = "1.IH" [OF n v _ "1.prems"(3)]
    show ?thesis
    proof (cases "byte c < 0x80")
      case True
      then have "n = 1" using n Cons by simp
      then have d: "drop n s = cs" using Cons by simp
      have r: "p_rest p = write_char c @ concat (map write_char cs) @ CHR 0x22 # r"
        using "1.prems"(2) Cons by simp
      show ?thesis
        using string_loop_ascii [OF True r, of out] IH [of "advance (length (write_char c)) p" "out @ [c]"]
          r d Cons by (simp add: add.assoc)
    next
      case False
      let ?rest = "concat (map write_char (drop n s)) @ CHR 0x22 # r"
      have w: "concat (map write_char (take n s)) = take n s"
        using tail_bytes_high [of c cs n] n False Cons by (intro write_high) auto
      have split: "concat (map write_char s) = take n s @ concat (map write_char (drop n s))"
        by (metis append_take_drop_id concat_append map_append w)
      have r: "p_rest p = take n s @ ?rest" using "1.prems"(2) split by simp
      have "utf8_valid (p_rest p)"
        using utf8_valid_write_chars [OF "1.prems"(1)] "1.prems"(2,3) by simp
      then have "parse_string_loop out p = parse_string_loop (out @ take n s) (advance n p)"
        using string_loop_multi [OF n _ _ r] False Cons by simp
      also have "\<dots> = Inr ((out @ take n s) @ drop n s,
          advance (length (concat (map write_char (drop n s))) + 1) (advance n p))"
        using IH [of "advance n p" "out @ take n s"] r utf8_char_len_bounds [OF n] by simp
      finally show ?thesis
        using split utf8_char_len_bounds [OF n] by (simp add: add.assoc min_absorb2)
    qed
  qed
qed

lemma parse_string_write:
  assumes "utf8_valid s" "p_rest p = write_string s @ r" "utf8_valid r"
  shows "parse_string p = Inr (s, advance (length (write_string s)) p)"
proof -
  have r: "p_rest p = CHR 0x22 # concat (map write_char s) @ CHR 0x22 # r"
    using assms(2) by (simp add: write_string_def)
  then show ?thesis
    using parse_string_loop_write [of s "advance 1 p" r "[]"] assms(1,3)
    by (simp add: parse_string_def bump_Cons write_string_def)
qed

section \<open>Numbers\<close>

text \<open>The number literals of the JSON grammar.\<close>

definition digit_string :: "str \<Rightarrow> bool" where
  "digit_string s \<longleftrightarrow> s \<noteq> [] \<and> list_all is_digit s"

definition int_literal :: "str \<Rightarrow> bool" where
  "int_literal s \<longleftrightarrow> s = ''0'' \<or> digit_string s \<and> hd s \<noteq> CHR ''0''"

definition frac_literal :: "str \<Rightarrow> bool" where
  "frac_literal s \<longleftrightarrow> s = [] \<or> hd s = CHR ''.'' \<and> digit_string (tl s)"

definition exp_literal :: "str \<Rightarrow> bool" where
  "exp_literal s \<longleftrightarrow> s = []
     \<or> (\<exists>c sg ds. s = c # sg @ ds \<and> c \<in> {CHR ''e'', CHR ''E''} \<and> sg \<in> {[], ''+'', ''-''} \<and> digit_string ds)"

definition json_number :: "str \<Rightarrow> bool" where
  "json_number raw \<longleftrightarrow>
     (\<exists>sg i f e. raw = sg @ i @ f @ e \<and> sg \<in> {[], ''-''} \<and> int_literal i \<and> frac_literal f \<and> exp_literal e)"

definition ends_number :: "str \<Rightarrow> bool" where
  "ends_number r \<longleftrightarrow> r = [] \<or> \<not> is_digit (hd r) \<and> hd r \<notin> {CHR ''.'', CHR ''e'', CHR ''E''}"

lemma digits_run_stop:
  assumes "p_rest p = ds @ r" "list_all is_digit ds" "r = [] \<or> \<not> is_digit (hd r)"
  shows "digits_run p = advance (length ds) p"
proof -
  have "takeWhile is_digit (p_rest p) = ds"
    unfolding assms(1) using assms(2,3) by (intro takeWhile_stop) (auto simp: list_all_iff)
  then show ?thesis by (simp add: digits_run_def)
qed

lemma not_digits: "\<not> is_digit (CHR ''.'')" "\<not> is_digit (CHR ''e'')" "\<not> is_digit (CHR ''E'')"
  "\<not> is_digit (CHR ''-'')" "\<not> is_digit (CHR ''+'')" "\<not> is_digit (CHR '','')"
  "is_digit (CHR ''0'')"
  by (simp_all add: is_digit_def)

lemma number_digits_run:
  assumes "p_rest p = ds @ r" "digit_string ds" "r = [] \<or> \<not> is_digit (hd r)"
  shows "number_digits w p = Inr (advance (length ds) p)"
  using digits_run_stop [OF assms(1) _ assms(3)] assms(2)
  by (auto simp: number_digits_def Let_def digit_string_def)

lemma number_int_literal:
  assumes "p_rest p = i @ r" "int_literal i" "r = [] \<or> \<not> is_digit (hd r)"
  shows "number_int p = Inr (advance (length i) p)"
proof (cases "i = ''0''")
  case True
  then show ?thesis using assms(1) by (simp add: number_int_def peek_def)
next
  case False
  then obtain c cs where i: "i = c # cs" "is_digit c" "c \<noteq> CHR ''0''" "list_all is_digit cs"
    using assms(2) by (cases i) (auto simp: int_literal_def digit_string_def)
  then have "digits_run (advance 1 p) = advance (length cs) (advance 1 p)"
    using assms(1,3) by (intro digits_run_stop) auto
  then show ?thesis using assms(1) i by (simp add: number_int_def peek_def)
qed

lemma number_frac_literal:
  assumes "p_rest p = f @ r" "frac_literal f" "f = [] \<longrightarrow> r = [] \<or> hd r \<noteq> CHR ''.''"
    and "r = [] \<or> \<not> is_digit (hd r)"
  shows "number_frac p = Inr (advance (length f) p)"
proof (cases f)
  case Nil
  then show ?thesis using assms by (cases r) (auto simp: number_frac_def peek_def)
next
  case (Cons c ds)
  then have c: "c = CHR ''.''" "digit_string ds" using assms(2) by (auto simp: frac_literal_def)
  then show ?thesis
    using number_digits_run [of "advance 1 p" ds r] assms(1,4) Cons
    by (simp add: number_frac_def peek_def)
qed

lemma number_exp_literal:
  assumes "p_rest p = e @ r" "exp_literal e" "ends_number r"
  shows "number_exp p = Inr (advance (length e) p)"
proof (cases "e = []")
  case True
  then show ?thesis using assms by (cases r) (auto simp: number_exp_def peek_def ends_number_def)
next
  case False
  then obtain c sg ds where e: "e = c # sg @ ds" "c = CHR ''e'' \<or> c = CHR ''E''"
      "sg \<in> {[], ''+'', ''-''}" "digit_string ds"
    using assms(2) by (auto simp: exp_literal_def)
  have nd: "r = [] \<or> \<not> is_digit (hd r)" using assms(3) by (auto simp: ends_number_def)
  obtain d ds' where ds: "ds = d # ds'" "is_digit d"
    using e(4) by (cases ds) (auto simp: digit_string_def)
  have d: "d \<noteq> CHR ''+''" "d \<noteq> CHR ''-''" using ds(2) not_digits by auto
  have run: "number_digits w (advance (1 + length sg) p) = Inr (advance (1 + length sg + length ds) p)" for w
    using number_digits_run [of "advance (1 + length sg) p" ds r w] assms(1) e(1,4) nd by simp
  have peek1: "peek p = Some c" using assms(1) e(1) by (simp add: peek_def)
  have sgn: "(if peek (advance 1 p) = Some (CHR ''+'') \<or> peek (advance 1 p) = Some (CHR ''-'')
         then advance 1 (advance 1 p) else advance 1 p) = advance (1 + length sg) p"
    using assms(1) e(1,3) ds d by (auto simp: peek_def)
  show ?thesis
    unfolding number_exp_def Let_def sgn run using peek1 e(1,2) by simp
qed

lemma exp_literal_hd: "exp_literal e \<Longrightarrow> e \<noteq> [] \<Longrightarrow> hd e = CHR ''e'' \<or> hd e = CHR ''E''"
  by (auto simp: exp_literal_def)

lemma parse_number_literal:
  assumes "p_rest p = raw @ r" "json_number raw" "ends_number r"
  shows "parse_number p = Inr (raw, advance (length raw) p)"
proof -
  obtain sg i f e where raw: "raw = sg @ i @ f @ e" and sg: "sg = [] \<or> sg = ''-''"
      and i: "int_literal i" and f: "frac_literal f" and e: "exp_literal e"
    using assms(2) by (auto simp: json_number_def)
  have er: "e @ r = [] \<or> \<not> is_digit (hd (e @ r)) \<and> hd (e @ r) \<noteq> CHR ''.''"
    using assms(3) exp_literal_hd [OF e] not_digits by (cases e) (auto simp: ends_number_def)
  have fer: "f @ e @ r = [] \<or> \<not> is_digit (hd (f @ e @ r))"
    using er f not_digits by (cases f) (auto simp: frac_literal_def)
  obtain c cs where c: "i = c # cs" "is_digit c"
    using i not_digits(7) by (cases i) (auto simp: int_literal_def digit_string_def)
  then have c': "c \<noteq> CHR ''-''" using not_digits(4) by auto
  have start: "(if peek p = Some (CHR ''-'') then advance 1 p else p) = advance (length sg) p"
    using assms(1) raw sg c c' by (auto simp: peek_def)
  have 1: "number_int (advance (length sg) p) = Inr (advance (length sg + length i) p)"
    using number_int_literal [of "advance (length sg) p" i "f @ e @ r"] assms(1) raw i fer by simp
  have 2: "number_frac (advance (length sg + length i) p) = Inr (advance (length sg + length i + length f) p)"
    using number_frac_literal [of "advance (length sg + length i) p" f "e @ r"] assms(1) raw f er by auto
  have 3: "number_exp (advance (length sg + length i + length f) p)
      = Inr (advance (length sg + length i + length f + length e) p)"
    using number_exp_literal [of "advance (length sg + length i + length f) p" e r] assms(1,3) raw e by simp
  show ?thesis
    unfolding parse_number_def start 1 2 3 rbind_simps using assms(1) raw by (simp add: add.assoc)
qed

section \<open>Values\<close>

text \<open>
  The values whose text is their own: numbers hold a JSON number literal, strings and keys
  are UTF-8 (as every Rust \<open>String\<close> is). \<open>json_depth\<close> counts the nesting of arrays and objects.
\<close>

fun wf_json :: "JsonValue \<Rightarrow> bool" where
  "wf_json JNull = True"
| "wf_json (JBool b) = True"
| "wf_json (JNumber raw) = json_number raw"
| "wf_json (JString s) = utf8_valid s"
| "wf_json (JArray vs) = list_all wf_json vs"
| "wf_json (JObject es) = list_all (\<lambda>(k, v). utf8_valid k \<and> wf_json v) es"

definition max_list :: "nat list \<Rightarrow> nat" where
  "max_list xs = foldr max xs 0"

lemma max_list_ge: "x \<in> set xs \<Longrightarrow> x \<le> max_list xs"
  by (induction xs) (auto simp: max_list_def)

fun json_depth :: "JsonValue \<Rightarrow> nat" where
  "json_depth (JArray vs) = Suc (max_list (map json_depth vs))"
| "json_depth (JObject es) = Suc (max_list (map (\<lambda>(k, v). json_depth v) es))"
| "json_depth v = 0"

definition delim :: "str \<Rightarrow> bool" where
  "delim r \<longleftrightarrow> r = [] \<or> hd r \<in> {CHR '','', CHR 0x5D, CHR 0x7D, CHR 0x0A}"

lemma delim_ends_number: "delim r \<Longrightarrow> ends_number r"
  by (auto simp: delim_def ends_number_def is_digit_def)

definition gap :: "str \<Rightarrow> bool" where
  "gap w \<longleftrightarrow> list_all is_json_ws w"

definition sep_ws :: "nat option \<Rightarrow> nat \<Rightarrow> str" where
  "sep_ws pretty d = write_sep True pretty d"

lemma gaps [simp]: "gap (sep_ws pretty d)" "gap (write_close emp pretty d)" "gap []" "gap '' ''"
  by (auto simp: gap_def sep_ws_def write_sep_def write_close_def is_json_ws_def list_all_iff
      split: option.splits)

lemma write_sep_comma: "write_sep False pretty d = CHR '','' # sep_ws pretty d"
  by (simp add: sep_ws_def write_sep_def)

lemma write_sep_first: "write_sep True pretty d = sep_ws pretty d"
  by (simp add: sep_ws_def)

lemma gap_ascii: "gap w \<Longrightarrow> utf8_valid (w @ r) = utf8_valid r"
  by (induction w) (auto simp: gap_def is_json_ws_def)

lemma skip_gap: "p_rest p = w @ r \<Longrightarrow> gap w \<Longrightarrow> r = [] \<or> \<not> is_json_ws (hd r) \<Longrightarrow> skip_ws p = advance (length w) p"
  by (rule skip_ws_run) (auto simp: gap_def list_all_iff)

text \<open>The first character of a printed value, and the validity of the whole text.\<close>

lemma json_number_hd: "json_number raw \<Longrightarrow> \<exists>c cs. raw = c # cs \<and> (c = CHR ''-'' \<or> is_digit c)"
  by (auto simp: json_number_def int_literal_def digit_string_def not_digits neq_Nil_conv)

lemma write_json_hd2:
  "wf_json v \<Longrightarrow> \<exists>c cs. write_json v pretty d = c # cs \<and> \<not> is_json_ws c \<and> c \<noteq> CHR 0x5D"
proof (cases v)
  case (JNumber raw)
  assume "wf_json v"
  with JNumber have "json_number raw" by simp
  then obtain c cs where "raw = c # cs" "c = CHR ''-'' \<or> is_digit c"
    using json_number_hd by blast
  with JNumber show ?thesis by (auto simp: is_json_ws_def is_digit_def)
qed (auto simp: is_json_ws_def write_string_def)

lemma write_json_hd: "wf_json v \<Longrightarrow> \<exists>c cs. write_json v pretty d = c # cs \<and> \<not> is_json_ws c"
  using write_json_hd2 by blast

lemma json_number_ascii: "json_number raw \<Longrightarrow> c \<in> set raw \<Longrightarrow> byte c < 0x80"
proof -
  have d: "byte c < 0x80" if "is_digit c" for c using that by (simp add: is_digit_def)
  have i: "int_literal i \<Longrightarrow> c \<in> set i \<Longrightarrow> byte c < 0x80" for i
    using d by (auto simp: int_literal_def digit_string_def list_all_iff)
  have f: "frac_literal f \<Longrightarrow> c \<in> set f \<Longrightarrow> byte c < 0x80" for f
    using d by (cases f) (auto simp: frac_literal_def digit_string_def list_all_iff)
  have e: "exp_literal e \<Longrightarrow> c \<in> set e \<Longrightarrow> byte c < 0x80" for e
    using d by (auto simp: exp_literal_def digit_string_def list_all_iff)
  assume "json_number raw" "c \<in> set raw"
  then show ?thesis using i f e by (auto simp: json_number_def)
qed

lemma write_string_valid: "utf8_valid s \<Longrightarrow> utf8_valid (write_string s @ r) = utf8_valid r"
  by (simp add: write_string_def utf8_valid_write_chars)

lemma write_json_valid:
  "wf_json v \<Longrightarrow> utf8_valid (write_json v pretty d @ r) = utf8_valid r"
  "list_all wf_json vs \<Longrightarrow> utf8_valid (write_seq first vs pretty d @ r) = utf8_valid r"
  "list_all (\<lambda>(k, v). utf8_valid k \<and> wf_json v) es \<Longrightarrow>
     utf8_valid (write_entries first es pretty d @ r) = utf8_valid r"
proof (induction v pretty d and first vs pretty d and first es pretty d
    arbitrary: r and r and r rule: write_json_write_seq_write_entries.induct)
  case (8 first v vs pretty d)
  then show ?case by (cases first) (simp_all add: write_sep_comma write_sep_first gap_ascii)
next
  case (10 first k v es pretty d)
  then show ?case
    by (cases first) (auto simp add: write_sep_comma write_sep_first gap_ascii write_string_valid)
next
  case (3 raw pretty d)
  then have "json_number raw" by simp
  then show ?case using ascii_valid [of raw r] json_number_ascii by simp
qed (auto simp: write_string_valid gap_ascii)

section \<open>Reading a printed value\<close>

definition reads :: "nat option \<Rightarrow> JsonValue \<Rightarrow> bool" where
  "reads pretty v \<longleftrightarrow>
     (\<forall>n p d r. p_rest p = write_json v pretty d @ r \<longrightarrow> delim r \<longrightarrow> utf8_valid r
        \<longrightarrow> p_depth p + json_depth v \<le> MAX_DEPTH \<longrightarrow> 2 * length (p_rest p) < n
        \<longrightarrow> parse_value n p = Some (Inr (v, advance (length (write_json v pretty d)) p)))"

lemma readsD:
  "reads pretty v \<Longrightarrow> p_rest p = write_json v pretty d @ r \<Longrightarrow> delim r \<Longrightarrow> utf8_valid r \<Longrightarrow>
   p_depth p + json_depth v \<le> MAX_DEPTH \<Longrightarrow> 2 * length (p_rest p) < n \<Longrightarrow>
   parse_value n p = Some (Inr (v, advance (length (write_json v pretty d)) p))"
  by (auto simp: reads_def)

lemma close_delim: "delim (write_close emp pretty d @ CHR 0x5D # r)" "delim (write_close emp pretty d @ CHR 0x7D # r)"
  by (auto simp: delim_def write_close_def split: option.splits)

lemma bump_gap:
  assumes "p_rest q = w @ c # r" "gap w" "\<not> is_json_ws c"
  shows "bump (skip_ws q) = (Some c, advance (length w + 1) q)"
proof -
  have "skip_ws q = advance (length w) q"
    using assms by (intro skip_gap [OF assms(1)]) auto
  moreover have "p_rest (advance (length w) q) = c # r"
    unfolding advance_rest assms(1) by simp
  ultimately show ?thesis by (simp add: bump_Cons)
qed

lemma not_ws: "\<not> is_json_ws (CHR '','')" "\<not> is_json_ws (CHR 0x5D)" "\<not> is_json_ws (CHR 0x7D)"
  "\<not> is_json_ws (CHR '':'')" "\<not> is_json_ws (CHR 0x22)"
  by (simp_all add: is_json_ws_def)

lemma value_reads:
  assumes "reads pretty v" "wf_json v" "p_depth p + json_depth v \<le> MAX_DEPTH"
    and "p_rest p = w @ write_json v pretty d @ r" "gap w" "delim r" "utf8_valid r"
    and "2 * length (p_rest p) < n"
  shows "parse_value n (skip_ws p) = Some (Inr (v, advance (length w + length (write_json v pretty d)) p))"
proof -
  obtain c cs where c: "write_json v pretty d = c # cs" "\<not> is_json_ws c"
    using write_json_hd assms(2) by blast
  have skip: "skip_ws p = advance (length w) p"
    using skip_gap [OF assms(4,5)] c by simp
  show ?thesis
    using readsD [OF assms(1), of "skip_ws p" d r n] assms skip by simp
qed

lemma array_loop_reads:
  assumes "\<And>x. x \<in> set (v # vs) \<Longrightarrow> reads pretty x \<and> wf_json x \<and> p_depth p + json_depth x \<le> MAX_DEPTH"
    and "p_rest p = w @ write_json v pretty (d + 1) @ write_seq False vs pretty d
           @ write_close False pretty d @ CHR 0x5D # r"
    and "gap w" "utf8_valid r" "2 * length (p_rest p) + 1 < n"
  shows "array_loop n acc p =
     Some (Inr (JArray (acc @ v # vs),
       leave_nested (advance (length (w @ write_json v pretty (d + 1) @ write_seq False vs pretty d
           @ write_close False pretty d) + 1) p)))"
  using assms
proof (induction vs arbitrary: v w p n acc)
  case (Cons v2 vs)
  let ?wv = "write_json v pretty (d + 1)"
  let ?tail = "write_json v2 pretty (d + 1) @ write_seq False vs pretty d @ write_close False pretty d @ CHR 0x5D # r"
  obtain m where n: "n = Suc m" using Cons.prems(5) by (cases n) auto
  have rest: "p_rest p = w @ ?wv @ CHR '','' # sep_ws pretty d @ ?tail"
    using Cons.prems(2) by (simp add: write_sep_comma)
  have valid: "utf8_valid ?tail"
    using Cons.prems(1,4) by (simp add: write_json_valid list_all_iff gap_ascii)
  let ?q = "advance (length w + length ?wv) p"
  have pv: "parse_value m (skip_ws p) = Some (Inr (v, ?q))"
    using value_reads [of pretty v p w "d + 1" "CHR '','' # sep_ws pretty d @ ?tail" m]
      Cons.prems(1) [of v] Cons.prems(3,5) rest valid n by (simp add: delim_def gap_ascii)
  have b: "bump (skip_ws ?q) = (Some (CHR '',''), advance 1 ?q)"
    using bump_gap [of ?q "[]"] rest not_ws by simp
  have "array_loop m (acc @ [v]) (advance 1 ?q) =
     Some (Inr (JArray ((acc @ [v]) @ v2 # vs),
       leave_nested (advance (length (sep_ws pretty d @ write_json v2 pretty (d + 1) @ write_seq False vs pretty d
           @ write_close False pretty d) + 1) (advance 1 ?q))))"
    using Cons.prems rest n by (intro Cons.IH) auto
  then show ?case
    using n pv b by (simp add: write_sep_comma add.assoc)
next
  case Nil
  let ?wv = "write_json v pretty (d + 1)"
  let ?cl = "write_close False pretty d"
  obtain m where n: "n = Suc m" using Nil.prems(5) by (cases n) auto
  have rest: "p_rest p = w @ ?wv @ ?cl @ CHR 0x5D # r" using Nil.prems(2) by simp
  let ?q = "advance (length w + length ?wv) p"
  have pv: "parse_value m (skip_ws p) = Some (Inr (v, ?q))"
    using value_reads [of pretty v p w "d + 1" "?cl @ CHR 0x5D # r" m]
      Nil.prems(1) [of v] Nil.prems(3,4,5) rest n by (simp add: close_delim gap_ascii)
  have b: "bump (skip_ws ?q) = (Some (CHR 0x5D), advance (length ?cl + 1) ?q)"
    using rest not_ws by (intro bump_gap [where r = r]) auto
  show ?case using n pv b by (simp add: add.assoc)
qed

definition colon_sp :: "nat option \<Rightarrow> str" where
  "colon_sp pretty = (if pretty \<noteq> None then '' '' else [])"

definition entry_text :: "nat option \<Rightarrow> nat \<Rightarrow> str \<Rightarrow> JsonValue \<Rightarrow> str" where
  "entry_text pretty d k v = write_string k @ '':'' @ colon_sp pretty @ write_json v pretty (d + 1)"

lemma write_entries_Cons:
  "write_entries first ((k, v) # es) pretty d =
     write_sep first pretty d @ entry_text pretty d k v @ write_entries False es pretty d"
  by (simp add: entry_text_def colon_sp_def)

lemma entry_valid: "utf8_valid k \<Longrightarrow> wf_json v \<Longrightarrow> utf8_valid (entry_text pretty d k v @ r) = utf8_valid r"
  by (simp add: entry_text_def write_string_valid write_json_valid gap_ascii colon_sp_def)

lemma object_key_reads:
  assumes "utf8_valid k" "wf_json v" "p_rest p = w @ entry_text pretty d k v @ r" "gap w" "utf8_valid r"
  shows "object_key (skip_ws p)
     = Inr (k, advance (length w + length (write_string k) + 1 + length (colon_sp pretty)) p)"
proof -
  let ?wv = "write_json v pretty (d + 1)"
  obtain c cs where c: "?wv = c # cs" "\<not> is_json_ws c" using write_json_hd assms(2) by blast
  have rest: "p_rest p = w @ write_string k @ CHR '':'' # colon_sp pretty @ ?wv @ r"
    using assms(3) by (simp add: entry_text_def)
  let ?s = "advance (length w) p" and ?q = "advance (length w + length (write_string k)) p"
  have skip: "skip_ws p = ?s"
    using skip_gap [OF rest assms(4)] not_ws by (simp add: write_string_def)
  have sp: "gap (colon_sp pretty)" by (simp add: colon_sp_def)
  have pk: "peek ?s = Some (CHR 0x22)" using rest by (simp add: peek_def write_string_def)
  have ps: "parse_string ?s = Inr (k, ?q)"
    using parse_string_write [OF assms(1), of ?s] rest assms(2,5) sp
    by (simp add: gap_ascii write_json_valid)
  have b: "bump (skip_ws ?q) = (Some (CHR '':''), advance 1 ?q)"
    using bump_gap [of ?q "[]"] rest not_ws by simp
  have "skip_ws (advance 1 ?q) = advance (length (colon_sp pretty)) (advance 1 ?q)"
    using rest c sp by (intro skip_gap [where r = "?wv @ r"]) auto
  then show ?thesis unfolding object_key_def skip using pk ps b by (simp add: add.assoc)
qed

lemma entry_reads:
  assumes "reads pretty v" "wf_json v" "utf8_valid k" "p_depth p + json_depth v \<le> MAX_DEPTH"
    and "p_rest p = w @ entry_text pretty d k v @ r" "gap w" "delim r" "utf8_valid r"
    and "2 * length (p_rest p) < n"
  shows "\<exists>p0. object_key (skip_ws p) = Inr (k, p0)
     \<and> parse_value n p0 = Some (Inr (v, advance (length w + length (entry_text pretty d k v)) p))"
proof -
  let ?h = "length w + length (write_string k) + 1 + length (colon_sp pretty)"
  have h: "p_rest (advance ?h p) = write_json v pretty (d + 1) @ r"
    using assms(5) by (simp add: entry_text_def)
  have "2 * length (p_rest (advance ?h p)) < n" using assms(9) by simp
  then have "parse_value n (advance ?h p)
      = Some (Inr (v, advance (length (write_json v pretty (d + 1))) (advance ?h p)))"
    using assms(4) by (intro readsD [OF assms(1) h assms(7,8)]) auto
  then show ?thesis
    using object_key_reads [OF assms(3,2,5,6,8)] by (simp add: entry_text_def add.assoc)
qed

lemma object_loop_reads:
  assumes "\<And>k x. (k, x) \<in> set ((k0, v0) # es) \<Longrightarrow>
      reads pretty x \<and> wf_json x \<and> utf8_valid k \<and> p_depth p + json_depth x \<le> MAX_DEPTH"
    and "p_rest p = w @ entry_text pretty d k0 v0 @ write_entries False es pretty d
           @ write_close False pretty d @ CHR 0x7D # r"
    and "gap w" "utf8_valid r" "2 * length (p_rest p) + 1 < n"
  shows "object_loop n acc p =
     Some (Inr (JObject (acc @ (k0, v0) # es),
       leave_nested (advance (length (w @ entry_text pretty d k0 v0 @ write_entries False es pretty d
           @ write_close False pretty d) + 1) p)))"
  using assms
proof (induction es arbitrary: k0 v0 w p n acc)
  case (Cons e2 es)
  obtain k2 v2 where e2: "e2 = (k2, v2)" by (cases e2)
  let ?e = "entry_text pretty d k0 v0"
  let ?tail = "entry_text pretty d k2 v2 @ write_entries False es pretty d @ write_close False pretty d @ CHR 0x7D # r"
  obtain m where n: "n = Suc m" using Cons.prems(5) by (cases n) auto
  have rest: "p_rest p = w @ ?e @ CHR '','' # sep_ws pretty d @ ?tail"
    using Cons.prems(2) unfolding e2 write_entries_Cons write_sep_comma by simp
  have "list_all (\<lambda>(k, v). utf8_valid k \<and> wf_json v) es" using Cons.prems(1) by (auto simp: list_all_iff)
  then have valid: "utf8_valid ?tail"
    using Cons.prems(1) [of k2 v2] Cons.prems(4) e2 by (simp add: entry_valid write_json_valid gap_ascii)
  let ?q = "advance (length w + length ?e) p"
  obtain p0 where key: "object_key (skip_ws p) = Inr (k0, p0)" and pv: "parse_value m p0 = Some (Inr (v0, ?q))"
    using entry_reads [of pretty v0 k0 p w d "CHR '','' # sep_ws pretty d @ ?tail" m]
      Cons.prems(1) [of k0 v0] Cons.prems(3,5) rest valid n by (auto simp: delim_def gap_ascii)
  have b: "bump (skip_ws ?q) = (Some (CHR '',''), advance 1 ?q)"
    using bump_gap [of ?q "[]"] rest not_ws by simp
  have "object_loop m (acc @ [(k0, v0)]) (advance 1 ?q) =
     Some (Inr (JObject ((acc @ [(k0, v0)]) @ (k2, v2) # es),
       leave_nested (advance (length (sep_ws pretty d @ entry_text pretty d k2 v2 @ write_entries False es pretty d
           @ write_close False pretty d) + 1) (advance 1 ?q))))"
    using Cons.prems rest n e2 by (intro Cons.IH) auto
  then show ?case
    unfolding e2 write_entries_Cons using n key pv b by (simp add: write_sep_comma add.assoc)
next
  case Nil
  let ?e = "entry_text pretty d k0 v0"
  let ?cl = "write_close False pretty d"
  obtain m where n: "n = Suc m" using Nil.prems(5) by (cases n) auto
  have rest: "p_rest p = w @ ?e @ ?cl @ CHR 0x7D # r" using Nil.prems(2) by simp
  let ?q = "advance (length w + length ?e) p"
  obtain p0 where key: "object_key (skip_ws p) = Inr (k0, p0)" and pv: "parse_value m p0 = Some (Inr (v0, ?q))"
    using entry_reads [of pretty v0 k0 p w d "?cl @ CHR 0x7D # r" m]
      Nil.prems(1) [of k0 v0] Nil.prems(3,4,5) rest n by (auto simp: close_delim gap_ascii)
  have b: "bump (skip_ws ?q) = (Some (CHR 0x7D), advance (length ?cl + 1) ?q)"
    using rest not_ws by (intro bump_gap [where r = r]) auto
  show ?case using n key pv b by (simp add: add.assoc)
qed

lemma array_reads:
  assumes "\<And>x. x \<in> set vs \<Longrightarrow> reads pretty x \<and> wf_json x"
  shows "reads pretty (JArray vs)"
  unfolding reads_def
proof (intro allI impI)
  fix n d r and p :: Parser
  assume rest: "p_rest p = write_json (JArray vs) pretty d @ r" and r: "utf8_valid r"
    and dep: "p_depth p + json_depth (JArray vs) \<le> MAX_DEPTH" and n: "2 * length (p_rest p) < n"
  obtain m where m: "n = Suc m" using n by (cases n) auto
  let ?p1 = "advance 1 (p\<lparr>p_depth := p_depth p + 1\<rparr>)"
  have enter: "enter_nested p = Inr (p\<lparr>p_depth := p_depth p + 1\<rparr>)"
    using dep by (simp add: enter_nested_def)
  have opn: "bump (p\<lparr>p_depth := p_depth p + 1\<rparr>) = (Some (CHR 0x5B), ?p1)"
    using rest by (simp add: bump_Cons)
  have pk: "parse_value n p = parse_array_with (\<lambda>vs q. array_loop m vs q) p"
    using rest m by (simp add: peek_def is_digit_def)
  show "parse_value n p = Some (Inr (JArray vs, advance (length (write_json (JArray vs) pretty d)) p))"
  proof (cases vs)
    case Nil
    have "skip_ws ?p1 = ?p1" using rest Nil by (intro skip_ws_none) (auto simp: write_close_def not_ws)
    then show ?thesis using pk enter opn rest Nil
      by (simp add: parse_array_with_def write_close_def peek_def bump_def leave_nested_def)
  next
    case (Cons v vs')
    have dx: "p_depth p + 1 + json_depth x \<le> MAX_DEPTH" if "x \<in> set vs" for x
      using dep max_list_ge [of "json_depth x" "map json_depth vs"] that by simp
    have p1: "p_rest ?p1 = sep_ws pretty d @ write_json v pretty (d + 1) @ write_seq False vs' pretty d
        @ write_close False pretty d @ CHR 0x5D # r"
      using rest Cons by (simp add: write_sep_first)
    obtain c cs where c: "write_json v pretty (d + 1) = c # cs" "\<not> is_json_ws c" "c \<noteq> CHR 0x5D"
      using write_json_hd2 assms Cons by (metis list.set_intros(1))
    let ?p2 = "advance (length (sep_ws pretty d)) ?p1"
    have skip: "skip_ws ?p1 = ?p2" using c by (intro skip_gap [OF p1]) auto
    have p2: "p_rest ?p2 = [] @ write_json v pretty (d + 1) @ write_seq False vs' pretty d
        @ write_close False pretty d @ CHR 0x5D # r"
      unfolding advance_rest [of "length (sep_ws pretty d)"] p1 by simp
    have len: "2 * length (p_rest ?p2) + 1 < m" using n m rest by simp
    have "array_loop m [] ?p2 = Some (Inr (JArray ([] @ v # vs'),
       leave_nested (advance (length ([] @ write_json v pretty (d + 1) @ write_seq False vs' pretty d
           @ write_close False pretty d) + 1) ?p2)))"
      using assms dx Cons r len by (intro array_loop_reads [OF _ p2]) auto
    moreover have "peek ?p2 \<noteq> Some (CHR 0x5D)" using p2 c unfolding peek_def by simp
    ultimately show ?thesis using pk enter opn skip Cons
      by (simp add: parse_array_with_def leave_nested_def write_sep_first add.assoc)
  qed
qed

lemma object_reads:
  assumes "\<And>k x. (k, x) \<in> set es \<Longrightarrow> reads pretty x \<and> wf_json x \<and> utf8_valid k"
  shows "reads pretty (JObject es)"
  unfolding reads_def
proof (intro allI impI)
  fix n d r and p :: Parser
  assume rest: "p_rest p = write_json (JObject es) pretty d @ r" and r: "utf8_valid r"
    and dep: "p_depth p + json_depth (JObject es) \<le> MAX_DEPTH" and n: "2 * length (p_rest p) < n"
  obtain m where m: "n = Suc m" using n by (cases n) auto
  let ?p1 = "advance 1 (p\<lparr>p_depth := p_depth p + 1\<rparr>)"
  have enter: "enter_nested p = Inr (p\<lparr>p_depth := p_depth p + 1\<rparr>)"
    using dep by (simp add: enter_nested_def)
  have opn: "bump (p\<lparr>p_depth := p_depth p + 1\<rparr>) = (Some (CHR 0x7B), ?p1)"
    using rest by (simp add: bump_Cons)
  have pk: "parse_value n p = parse_object_with (\<lambda>es q. object_loop m es q) p"
    using rest m by (simp add: peek_def is_digit_def)
  show "parse_value n p = Some (Inr (JObject es, advance (length (write_json (JObject es) pretty d)) p))"
  proof (cases es)
    case Nil
    have "skip_ws ?p1 = ?p1" using rest Nil by (intro skip_ws_none) (auto simp: write_close_def not_ws)
    then show ?thesis using pk enter opn rest Nil
      by (simp add: parse_object_with_def write_close_def peek_def bump_def leave_nested_def)
  next
    case (Cons e es')
    obtain k v where e: "e = (k, v)" by (cases e)
    have dx: "p_depth p + 1 + json_depth x \<le> MAX_DEPTH" if "(k, x) \<in> set es" for k x
      using dep max_list_ge [of "json_depth x" "map (\<lambda>(k, v). json_depth v) es"] that by force
    have p1: "p_rest ?p1 = sep_ws pretty d @ entry_text pretty d k v @ write_entries False es' pretty d
        @ write_close False pretty d @ CHR 0x7D # r"
      using rest unfolding Cons e write_json.simps write_entries_Cons by (simp add: write_sep_first)
    obtain cs where c: "entry_text pretty d k v = CHR 0x22 # cs"
      by (simp add: entry_text_def write_string_def)
    let ?p2 = "advance (length (sep_ws pretty d)) ?p1"
    have skip: "skip_ws ?p1 = ?p2" using c by (intro skip_gap [OF p1]) (auto simp: not_ws)
    have p2: "p_rest ?p2 = [] @ entry_text pretty d k v @ write_entries False es' pretty d
        @ write_close False pretty d @ CHR 0x7D # r"
      unfolding advance_rest [of "length (sep_ws pretty d)"] p1 by simp
    have len: "2 * length (p_rest ?p2) + 1 < m" using n m rest by simp
    have "object_loop m [] ?p2 = Some (Inr (JObject ([] @ (k, v) # es'),
       leave_nested (advance (length ([] @ entry_text pretty d k v @ write_entries False es' pretty d
           @ write_close False pretty d) + 1) ?p2)))"
      using assms dx Cons e r len by (intro object_loop_reads [OF _ p2]) auto
    moreover have "peek ?p2 \<noteq> Some (CHR 0x7D)" using p2 c unfolding peek_def by simp
    ultimately show ?thesis using pk enter opn skip
      unfolding Cons e write_json.simps write_entries_Cons
      by (simp add: parse_object_with_def leave_nested_def write_sep_first add.assoc)
  qed
qed

theorem wf_json_reads: "wf_json v \<Longrightarrow> reads pretty v"
proof (induction v)
  case (JNumber raw)
  then have num: "json_number raw" by simp
  then obtain c cs where c: "raw = c # cs" "c = CHR ''-'' \<or> is_digit c" using json_number_hd by blast
  show ?case unfolding reads_def
  proof (intro allI impI)
    fix n d r and p :: Parser
    assume rest: "p_rest p = write_json (JNumber raw) pretty d @ r" and r: "delim r"
      and n: "2 * length (p_rest p) < n"
    obtain m where m: "n = Suc m" using n by (cases n) auto
    have "parse_number p = Inr (raw, advance (length raw) p)"
      using parse_number_literal [OF _ num delim_ends_number [OF r]] rest by simp
    then show "parse_value n p = Some (Inr (JNumber raw, advance (length (write_json (JNumber raw) pretty d)) p))"
      using m rest c by (auto simp: peek_def is_digit_def)
  qed
next
  case (JString s)
  show ?case unfolding reads_def
  proof (intro allI impI)
    fix n d r and p :: Parser
    assume rest: "p_rest p = write_json (JString s) pretty d @ r" and r: "utf8_valid r"
      and n: "2 * length (p_rest p) < n"
    obtain m where m: "n = Suc m" using n by (cases n) auto
    have "parse_string p = Inr (s, advance (length (write_string s)) p)"
      using parse_string_write [of s p r] rest r JString by simp
    moreover have "peek p = Some (CHR 0x22)" using rest by (simp add: peek_def write_string_def)
    ultimately show "parse_value n p = Some (Inr (JString s, advance (length (write_json (JString s) pretty d)) p))"
      using m by simp
  qed
next
  case (JArray vs)
  then show ?case by (intro array_reads) (auto simp: list_all_iff)
next
  case (JObject es)
  then show ?case by (intro object_reads) (fastforce simp: list_all_iff)
next
  case JNull
  show ?case unfolding reads_def
  proof (intro allI impI)
    fix n d r and p :: Parser
    assume rest: "p_rest p = write_json JNull pretty d @ r" and n: "2 * length (p_rest p) < n"
    obtain m where "n = Suc m" using n by (cases n) auto
    then show "parse_value n p = Some (Inr (JNull, advance (length (write_json JNull pretty d)) p))"
      using rest by (simp add: peek_def literal_def)
  qed
next
  case (JBool b)
  show ?case unfolding reads_def
  proof (intro allI impI)
    fix n d r and p :: Parser
    assume rest: "p_rest p = write_json (JBool b) pretty d @ r" and n: "2 * length (p_rest p) < n"
    obtain m where "n = Suc m" using n by (cases n) auto
    then show "parse_value n p = Some (Inr (JBool b, advance (length (write_json (JBool b) pretty d)) p))"
      using rest by (cases b) (simp_all add: peek_def literal_def)
  qed
qed

lemma parse_printed:
  assumes "wf_json v" "json_depth v \<le> MAX_DEPTH" "length (write_json v pretty 0) \<le> DEFAULT_MAX_JSON_BYTES"
  shows "parse_value_str (write_json v pretty 0) = Some (Inr v)"
proof -
  let ?s = "write_json v pretty 0"
  let ?p = "\<lparr>p_rest = ?s, p_pos = 0, p_depth = 0\<rparr>"
  have "skip_ws ?p = ?p"
    using write_json_hd [OF assms(1), of pretty 0] by (intro skip_ws_none [OF refl]) auto
  moreover have "parse_value (2 * length ?s + 2) ?p = Some (Inr (v, advance (length ?s) ?p))"
    using assms by (intro readsD [OF wf_json_reads, where r = "[]"]) (auto simp: delim_def)
  moreover have "skip_ws (advance (length ?s) ?p) = advance (length ?s) ?p"
    by (intro skip_ws_none [OF refl]) simp
  ultimately show ?thesis
    using assms(3) by (simp add: parse_value_str_def validate_input_size_def eof_def)
qed

text \<open>
  Property C36: the round trip. A value whose numbers are JSON number literals and whose
  strings are UTF-8, nested at most 256 deep and printed within the 8 MiB limit, is read
  back unchanged from the text that \<open>to_string\<close> prints and from the text that
  \<open>to_string_pretty\<close> prints.
\<close>

theorem json_print_parse:
  assumes "wf_json v" "json_depth v \<le> MAX_DEPTH"
    and "length (to_compact_string v) \<le> DEFAULT_MAX_JSON_BYTES"
    and "length (to_pretty_string v) \<le> DEFAULT_MAX_JSON_BYTES"
  shows "parse_value_str (to_compact_string v) = Some (Inr v)
    \<and> parse_value_str (to_pretty_string v) = Some (Inr v)"
  using assms parse_printed [of v None] parse_printed [of v "Some 2"]
  by (simp add: to_compact_string_def to_pretty_string_def)

definition sample_json :: JsonValue where
  "sample_json = JObject [(''a'', JArray [JNumber ''-10'', JNull, JObject []]), (''b'', JString [CHR 0x22, CHR 0x0A])]"

theorem json_print_parse_witness:
  "parse_value_str (to_compact_string sample_json) = Some (Inr sample_json)
    \<and> parse_value_str (to_pretty_string sample_json) = Some (Inr sample_json)"
proof (rule json_print_parse)
  have "''-10'' = ''-'' @ ''10'' @ [] @ [] \<and> ''-'' \<in> {[], ''-''} \<and> int_literal ''10''
      \<and> frac_literal [] \<and> exp_literal []"
    by (simp add: int_literal_def digit_string_def frac_literal_def exp_literal_def is_digit_def)
  then have "json_number ''-10''" unfolding json_number_def by blast
  then show "wf_json sample_json" by (simp add: sample_json_def)
  show "json_depth sample_json \<le> MAX_DEPTH"
    by (simp add: sample_json_def max_list_def MAX_DEPTH_def)
  show "length (to_compact_string sample_json) \<le> DEFAULT_MAX_JSON_BYTES"
    by (simp add: sample_json_def to_compact_string_def DEFAULT_MAX_JSON_BYTES_def write_string_def
        write_char_def write_sep_def write_close_def)
  show "length (to_pretty_string sample_json) \<le> DEFAULT_MAX_JSON_BYTES"
    by (simp add: sample_json_def to_pretty_string_def DEFAULT_MAX_JSON_BYTES_def write_string_def
        write_char_def write_sep_def write_close_def)
qed

end
