(* ===== verification/Caps_Config.thy ===== *)
theory Caps_Config
  imports Caps_Dispatch Json_Total Json_Roundtrip
begin

text \<open>
  Capability configuration, \<open>crates/rusty-js-runtime/src/caps_config.rs\<close>: the grant a
  \<open>cruft-caps.json\<close> declares, its reader, and the capabilities it turns into, with
  \<open>record_require_caps_grant\<close> of \<open>module.rs\<close>, which installs a grant in the dispatcher.
  The reading of the file is the argument of \<open>load_file\<close>: its text, or \<open>None\<close> when it
  cannot be read. The properties join the three components: what a configuration text
  grants is what the checks of \<open>Caps_Dispatch\<close> let through.
\<close>

section \<open>Grants\<close>

record CapsGrant =
  cg_fs :: "str list"
  cg_net :: "str list"
  cg_env :: "str list"
  cg_exec :: "str list"
  stdio_stdout :: bool
  stdio_stderr :: bool

definition CapsGrant_default :: CapsGrant where
  "CapsGrant_default = \<lparr>cg_fs = [], cg_net = [], cg_env = [], cg_exec = [],
     stdio_stdout = False, stdio_stderr = False\<rparr>"

definition CapsGrant_is_empty :: "CapsGrant \<Rightarrow> bool" where
  "CapsGrant_is_empty g \<longleftrightarrow>
     cg_fs g = [] \<and> cg_net g = [] \<and> cg_env g = [] \<and> cg_exec g = []
     \<and> \<not> stdio_stdout g \<and> \<not> stdio_stderr g"

definition json_strings :: "JsonValue \<Rightarrow> str \<Rightarrow> str list" where
  "json_strings root key =
     unwrap_or [] (map_option (List.map_filter as_str) (Option.bind (JsonValue_get root key) as_array))"

definition json_stdio_flag :: "JsonValue \<Rightarrow> str \<Rightarrow> bool" where
  "json_stdio_flag root stream =
     unwrap_or False
       (Option.bind (Option.bind (JsonValue_get root ''stdio'') (\<lambda>v. JsonValue_get v stream)) as_bool)"

definition CapsGrant_from_json :: "JsonValue \<Rightarrow> CapsGrant" where
  "CapsGrant_from_json root =
     \<lparr>cg_fs = json_strings root ''fs'', cg_net = json_strings root ''net'',
      cg_env = json_strings root ''env'', cg_exec = json_strings root ''exec'',
      stdio_stdout = json_stdio_flag root ''stdout'', stdio_stderr = json_stdio_flag root ''stderr''\<rparr>"

definition CapsGrant_parse_str :: "str \<Rightarrow> (JsonError + CapsGrant) option" where
  "CapsGrant_parse_str src =
     map_option (\<lambda>r. rbind r (\<lambda>root. Inr (CapsGrant_from_json root))) (parse_value_str src)"

definition CapsGrant_load_file :: "str option \<Rightarrow> (JsonError + CapsGrant) option" where
  "CapsGrant_load_file contents =
     (case contents of
        Some body \<Rightarrow> CapsGrant_parse_str body
      | None \<Rightarrow> Some (Inr CapsGrant_default))"

section \<open>The capabilities a grant stands for\<close>

definition to_fs :: "CapsGrant \<Rightarrow> Fs" where
  "to_fs g =
     (if cg_fs g = [] then Fs_none
      else (let policy = PathPrefixes (cg_fs g) in
        \<lparr>fs_read = policy, fs_write = policy, fs_list = policy,
         fs_stat = policy, fs_mkdir = policy, fs_remove = policy\<rparr>))"

definition parse_host_port :: "str \<Rightarrow> str \<times> u16 option" where
  "parse_host_port entry =
     (case rsplit_once (CHR '':'') entry of
        Some (h, p) \<Rightarrow>
          (case parse_u16 p of
             Some w \<Rightarrow> if h \<noteq> [] then (h, Some w) else (entry, None)
           | None \<Rightarrow> (entry, None))
      | None \<Rightarrow> (entry, None))"

fun net_split :: "str list \<Rightarrow> NetEndpoint list \<Rightarrow> str list \<Rightarrow> NetEndpoint list \<times> str list" where
  "net_split [] exact hosts = (exact, hosts)"
| "net_split (entry # es) exact hosts =
     (case parse_host_port entry of
        (h, Some p) \<Rightarrow> net_split es (exact @ [NetEndpoint_new h p]) hosts
      | (h, None) \<Rightarrow> net_split es exact (hosts @ [h]))"

definition listen_policy_from_entries :: "str list \<Rightarrow> NetListenPolicy" where
  "listen_policy_from_entries entries =
     (let exact = List.map_filter
            (\<lambda>entry. case parse_host_port entry of
               (h, Some p) \<Rightarrow> Some (NetEndpoint_new h p) | (h, None) \<Rightarrow> None) entries in
      if exact = [] then ListenNone else ListenExact exact)"

definition to_net :: "CapsGrant \<Rightarrow> Net" where
  "to_net g =
     (if cg_net g = [] then Net_none
      else (let (exact, hosts) = net_split (cg_net g) [] [];
                connect = (if hosts = [] then ConnectExact exact
                           else ConnectHosts (hosts @ map host exact)) in
        \<lparr>listen = listen_policy_from_entries (cg_net g), connect = connect\<rparr>))"

definition to_env :: "CapsGrant \<Rightarrow> Env" where
  "to_env g =
     (if cg_env g = [] then Env_none
      else \<lparr>vars = EnvWhitelist (cg_env g), system_info = False\<rparr>)"

definition to_process :: "CapsGrant \<Rightarrow> Process" where
  "to_process g =
     (if cg_exec g = [] then Process_none
      else Process_none\<lparr>may_spawn := True\<rparr>)"

definition to_stdio :: "CapsGrant \<Rightarrow> Stdio" where
  "to_stdio g = \<lparr>stdout = stdio_stdout g, stderr = stdio_stderr g\<rparr>"

section \<open>Installing a grant\<close>

definition install_grant :: "CapDispatcher \<Rightarrow> str \<Rightarrow> CapsGrant \<Rightarrow> CapDispatcher" where
  "install_grant d u g =
     grant_module d u (to_fs g) (to_net g) (to_env g) (to_process g) (to_stdio g)"

definition record_require_caps_grant :: "CapDispatcher \<Rightarrow> str \<Rightarrow> CapsGrant \<Rightarrow> CapDispatcher" where
  "record_require_caps_grant d resolved g =
     (let d1 = install_grant d resolved g in
      if \<not> starts_with resolved ''file://'' then install_grant d1 (''file://'' @ resolved) g else d1)"

section \<open>Installed grants decide\<close>

lemma module_grant_install:
  "\<not> poisoned (per_module d) \<Longrightarrow>
   module_grant (install_grant d u g) v =
     (if v = u then Some \<lparr>g_fs = to_fs g, g_net = to_net g, g_env = to_env g,
                          g_process = to_process g, g_stdio = to_stdio g\<rparr>
      else module_grant d v)"
  by (simp add: install_grant_def module_grant_grant_module)

lemma install_grant_frame [simp]:
  "mode (install_grant d u g) = mode d" "net_grant (install_grant d u g) = net_grant d"
  "poisoned (per_module (install_grant d u g)) = poisoned (per_module d)"
  by (auto simp: install_grant_def grant_module_def lock_def)

lemma record_require_frame [simp]:
  "mode (record_require_caps_grant d u g) = mode d"
  "net_grant (record_require_caps_grant d u g) = net_grant d"
  by (simp_all add: record_require_caps_grant_def Let_def)

text \<open>The URLs a recorded grant reaches: the resolved name and its \<open>file://\<close> form.\<close>

definition grant_urls :: "str \<Rightarrow> str list" where
  "grant_urls resolved =
     (if starts_with resolved ''file://'' then [resolved] else [resolved, ''file://'' @ resolved])"

lemma module_grant_record:
  assumes "\<not> poisoned (per_module d)"
  shows "module_grant (record_require_caps_grant d resolved g) v =
     (if v \<in> set (grant_urls resolved)
      then Some \<lparr>g_fs = to_fs g, g_net = to_net g, g_env = to_env g,
                 g_process = to_process g, g_stdio = to_stdio g\<rparr>
      else module_grant d v)"
  using assms by (auto simp: record_require_caps_grant_def grant_urls_def Let_def module_grant_install)

definition FsOp_path :: "FsOp \<Rightarrow> path" where
  "FsOp_path op = (case op of FsRead p \<Rightarrow> p | FsWrite p \<Rightarrow> p | FsList p \<Rightarrow> p | FsStat p \<Rightarrow> p
     | FsMkdir p \<Rightarrow> p | FsRemove p \<Rightarrow> p)"

lemma FsOp_policy_path: "snd (snd (FsOp_policy op c)) = FsOp_path op"
  by (cases op) (auto simp: FsOp_path_def)

lemma no_fs_policy: "\<not> path_allowed_for_fs_op cwd (fst (FsOp_policy op Fs_none)) p"
  by (cases op) (auto simp: Fs_none_def path_allowed_for_fs_op_def split: option.splits)

lemma to_fs_policy: "path_allowed_for_fs_op cwd (fst (FsOp_policy op (to_fs g))) p
    = path_allowed_for_fs_op cwd (PathPrefixes (cg_fs g)) p"
  by (cases op)
     (auto simp: to_fs_def Fs_none_def path_allowed_for_fs_op_def Let_def split: option.splits)

text \<open>The caller \<open>check_fs\<close> derives from the stack of running modules.\<close>

definition fs_caller :: "str list \<Rightarrow> ModuleId" where
  "fs_caller stack =
     (let u = (if stack = [] then [] else last stack) in \<lparr>url = u, provenance = classify_provenance u\<rparr>)"

lemma check_fs_ok:
  "is_ok (fst (check_fs env stack d op)) \<longleftrightarrow>
     \<not> enforced True d (fs_caller stack) \<or> fs_authority env d Fs_none op (fs_caller stack)"
  using fs.ok_iff [of env d Fs_none op "fs_caller stack"]
  by (auto simp: check_fs_def fs_caller_def Let_def split: prod.splits sum.splits)

lemma check_fs_granted:
  assumes "\<not> poisoned (per_module d)" "enforced True d (fs_caller stack)"
    and "url (fs_caller stack) \<in> set (grant_urls resolved)"
  shows "is_ok (fst (check_fs env stack (record_require_caps_grant d resolved g) op))
    \<longleftrightarrow> path_allowed_for_fs_op (current_dir env) (PathPrefixes (cg_fs g)) (FsOp_path op)"
  using assms unfolding check_fs_ok
  by (simp add: enforced_def fs_authority_def no_fs_policy module_grant_record to_fs_policy FsOp_policy_path)

lemma prefixes_allowed_iff:
  assumes "\<forall>dir \<in> set dirs. is_absolute dir"
  shows "path_allowed_for_fs_op (Some cwd) (PathPrefixes dirs) p
    \<longleftrightarrow> (\<exists>dir \<in> set dirs. path_starts_with (effective_path cwd p) dir)"
  using assms allowed_prefixes_effective [of cwd dirs p]
  by (auto simp: path_allowed_for_fs_op_def effective_path_def list_ex_iff split: if_splits)

text \<open>
  Property C32: end to end confinement of file access. A module runs enforced (sealed, or a
  dependency under sealed-deps) with a recorded grant whose directories are absolute, as
  the root configuration makes them. A file operation on a path without \<open>..\<close> is let through
  exactly when the path starts with a listed directory, and then the location it names lies
  inside that directory.
\<close>

theorem config_fs_confinement:
  assumes "\<not> poisoned (per_module d)" "enforced True d (fs_caller stack)"
    and "url (fs_caller stack) \<in> set (grant_urls resolved)"
    and "current_dir env = Some cwd" "\<forall>dir \<in> set (cg_fs g). is_absolute dir"
    and "ParentDir \<notin> set (path_components (effective_path cwd (FsOp_path op)))"
  shows "(is_ok (fst (check_fs env stack (record_require_caps_grant d resolved g) op)) \<longleftrightarrow>
            (\<exists>dir \<in> set (cg_fs g). path_starts_with (effective_path cwd (FsOp_path op)) dir))
       \<and> (is_ok (fst (check_fs env stack (record_require_caps_grant d resolved g) op)) \<longrightarrow>
            (\<exists>dir \<in> set (cg_fs g). inside dir (effective_path cwd (FsOp_path op))))"
  using check_fs_granted [OF assms(1-3), of env g op] prefixes_allowed_iff [OF assms(5)]
    allowed_prefixes_inside [of cwd "cg_fs g" "FsOp_path op"] assms(4-6)
  by auto

definition example_url :: str where
  "example_url = ''file:///srv/app/node_modules/d/i.js''"

definition example_grant :: CapsGrant where
  "example_grant = CapsGrant_default\<lparr>cg_fs := [''/srv/data'']\<rparr>"

definition example_env :: HostEnv where
  "example_env = \<lparr>current_dir = Some ''/srv'', now_micros = None\<rparr>"

lemmas path_eval = path_components_def is_absolute_def starts_with_def seg_component_def
  path_starts_with_def effective_path_def path_join_def

lemma example_enforced:
  "enforced True (CapDispatcher_new Sealed) m" "\<not> poisoned (per_module (CapDispatcher_new Sealed))"
  by (simp_all add: enforced_def CapDispatcher_new_def mutex_new_def)

theorem config_fs_confinement_witness:
  "is_ok (fst (check_fs example_env [example_url]
      (record_require_caps_grant (CapDispatcher_new Sealed) example_url example_grant) (FsRead ''data/x'')))
   \<and> inside ''/srv/data'' ''/srv/data/x''
   \<and> \<not> is_ok (fst (check_fs example_env [example_url]
      (record_require_caps_grant (CapDispatcher_new Sealed) example_url example_grant) (FsRead ''/etc/x'')))"
proof -
  have u: "url (fs_caller [example_url]) \<in> set (grant_urls example_url)"
    by (simp add: fs_caller_def Let_def grant_urls_def)
  note conf = config_fs_confinement [OF example_enforced(2,1) u, of example_env "''/srv''" example_grant]
  have env: "current_dir example_env = Some ''/srv''" by (simp add: example_env_def)
  have dirs: "cg_fs example_grant = [''/srv/data'']" by (simp add: example_grant_def CapsGrant_default_def)
  have "is_absolute ''/srv/data''" by (simp add: path_eval)
  then show ?thesis
    using conf [of "FsRead ''data/x''"] conf [of "FsRead ''/etc/x''"] env dirs
    by (simp add: FsOp_path_def path_eval)
qed

text \<open>
  Property C38: the limit of that confinement. With any one granted directory, and whatever
  the location, the same module reads it: a path that starts with the directory and then
  climbs with \<open>..\<close> passes the check, and the operating system resolves it to the location.
\<close>

theorem config_fs_escape:
  assumes "\<not> poisoned (per_module d)" "enforced True d (fs_caller stack)"
    and "url (fs_caller stack) \<in> set (grant_urls resolved)"
    and "dir \<in> set (cg_fs g)" "dir \<noteq> []" "\<forall>s \<in> set target. normal_segment s"
  shows "\<exists>p. is_ok (fst (check_fs env stack (record_require_caps_grant d resolved g) (FsRead p)))
       \<and> lexical_resolve p = target"
proof -
  have t: "normal_segment s" if "s \<in> set target" for s using that assms(6) by blast
  have "PathPolicy_allows (PathPrefixes (cg_fs g)) (escape_path dir target)"
    using escape_path_leads(1) [OF assms(5) t] assms(4) by (auto simp: list_ex_iff)
  then have "is_ok (fst (check_fs env stack (record_require_caps_grant d resolved g)
      (FsRead (escape_path dir target))))"
    unfolding check_fs_granted [OF assms(1-3)] by (simp add: path_allowed_for_fs_op_def FsOp_path_def)
  then show ?thesis using escape_path_leads(2) [OF assms(5) t] by blast
qed

theorem config_fs_escape_witness:
  "\<exists>p. is_ok (fst (check_fs example_env [example_url]
      (record_require_caps_grant (CapDispatcher_new Sealed) example_url example_grant) (FsRead p)))
     \<and> lexical_resolve p = [''etc'', ''passwd'']"
  by (rule config_fs_escape [OF example_enforced(2,1), where dir = "''/srv/data''"])
     (simp_all add: fs_caller_def Let_def grant_urls_def example_grant_def CapsGrant_default_def
        normal_segment_def)

section \<open>Network grants\<close>

definition endpoint_of :: "str \<Rightarrow> (str \<times> u16) option" where
  "endpoint_of entry = (case parse_host_port entry of (h, Some p) \<Rightarrow> Some (h, p) | (h, None) \<Rightarrow> None)"

lemma net_split_eq:
  "net_split es exact hosts =
     (exact @ map (\<lambda>(h, p). NetEndpoint_new h p) (List.map_filter endpoint_of es),
      hosts @ filter (\<lambda>e. endpoint_of e = None) es)"
proof (induction es exact hosts rule: net_split.induct)
  case (2 entry es exact hosts)
  have "endpoint_of entry = None \<Longrightarrow> parse_host_port entry = (entry, None)"
    by (auto simp: endpoint_of_def parse_host_port_def split: option.splits prod.splits if_splits)
  with 2 show ?case
    by (cases "parse_host_port entry"; cases "snd (parse_host_port entry)")
       (auto simp: endpoint_of_def List.map_filter_simps)
qed (simp add: List.map_filter_simps)

lemma endpoint_filter: "x \<in> set (List.map_filter endpoint_of es) \<longleftrightarrow> Some x \<in> endpoint_of ` set es"
  by (induction es) (auto simp: List.map_filter_simps split: option.splits)

lemma endpoints_match:
  "list_ex (\<lambda>ep. NetEndpoint_matches ep h p)
     (map (\<lambda>(h, p). NetEndpoint_new h p) (List.map_filter endpoint_of es))
   \<longleftrightarrow> Some (h, p) \<in> endpoint_of ` set es"
  unfolding endpoint_filter [symmetric]
  by (force simp: list_ex_iff NetEndpoint_matches_def NetEndpoint_new_def)

lemma listen_endpoints:
  "List.map_filter (\<lambda>entry. case parse_host_port entry of
       (h, Some p) \<Rightarrow> Some (NetEndpoint_new h p) | (h, None) \<Rightarrow> None) es
   = map (\<lambda>(h, p). NetEndpoint_new h p) (List.map_filter endpoint_of es)"
  by (induction es) (auto simp: List.map_filter_simps endpoint_of_def split: option.splits prod.splits)

lemma listen_policy_eq:
  "NetListenPolicy_allows (listen_policy_from_entries es) h p \<longleftrightarrow> Some (h, p) \<in> endpoint_of ` set es"
proof -
  have "NetListenPolicy_allows (listen_policy_from_entries es) h p \<longleftrightarrow>
     list_ex (\<lambda>ep. NetEndpoint_matches ep h p)
       (map (\<lambda>(h, p). NetEndpoint_new h p) (List.map_filter endpoint_of es))"
    unfolding listen_policy_from_entries_def listen_endpoints by (simp add: Let_def)
  then show ?thesis unfolding endpoints_match .
qed

lemma to_net_listen:
  "NetOp_allows (NetListen h p) (to_net g) = (Some (h, p) \<in> endpoint_of ` set (cg_net g))"
  by (simp add: to_net_def Net_none_def net_split_eq listen_policy_eq)

lemma to_net_connect:
  "NetOp_allows (NetConnect h p) (to_net g) =
      (if \<exists>e \<in> set (cg_net g). endpoint_of e = None
       then (h \<in> set (cg_net g) \<and> endpoint_of h = None) \<or> (\<exists>q. Some (h, q) \<in> endpoint_of ` set (cg_net g))
       else Some (h, p) \<in> endpoint_of ` set (cg_net g))"
proof -
  let ?eps = "List.map_filter endpoint_of (cg_net g)"
  let ?exact = "map (\<lambda>(h, p). NetEndpoint_new h p) ?eps"
  let ?bare = "filter (\<lambda>e. endpoint_of e = None) (cg_net g)"
  have ex: "list_ex (\<lambda>ep. NetEndpoint_matches ep h p) ?exact \<longleftrightarrow> Some (h, p) \<in> endpoint_of ` set (cg_net g)"
    by (rule endpoints_match)
  have ho: "h \<in> host ` set ?exact \<longleftrightarrow> (\<exists>q. Some (h, q) \<in> endpoint_of ` set (cg_net g))"
    unfolding endpoint_filter [symmetric] by (force simp: NetEndpoint_new_def)
  have bare: "?bare = [] \<longleftrightarrow> \<not> (\<exists>e \<in> set (cg_net g). endpoint_of e = None)"
    by (auto simp: filter_empty_conv)
  show ?thesis
  proof (cases "cg_net g = []")
    case False
    then have "NetOp_allows (NetConnect h p) (to_net g) =
      NetConnectPolicy_allows (if ?bare = [] then ConnectExact ?exact else ConnectHosts (?bare @ map host ?exact)) h p"
      by (simp add: to_net_def net_split_eq)
    also have "\<dots> = (if ?bare = [] then list_ex (\<lambda>ep. NetEndpoint_matches ep h p) ?exact
        else h \<in> set ?bare \<or> h \<in> host ` set ?exact)"
      by (simp add: list_ex_iff image_comp)
    finally show ?thesis unfolding ex ho bare by auto
  qed (simp add: to_net_def Net_none_def)
qed

text \<open>
  Property C39: exactly what the network entries of a configuration grant. Listening needs an
  entry \<open>host:port\<close> for that host and port. Connecting needs the same as long as every entry
  has a port; once a single entry is a bare host, every entry admits every port of its host,
  so the port of a \<open>host:port\<close> entry no longer restricts anything.
\<close>

theorem net_grant_exact:
  "NetOp_allows (NetListen h p) (to_net g) = (Some (h, p) \<in> endpoint_of ` set (cg_net g))
   \<and> NetOp_allows (NetConnect h p) (to_net g) =
      (if \<exists>e \<in> set (cg_net g). endpoint_of e = None
       then (h \<in> set (cg_net g) \<and> endpoint_of h = None) \<or> (\<exists>q. Some (h, q) \<in> endpoint_of ` set (cg_net g))
       else Some (h, p) \<in> endpoint_of ` set (cg_net g))"
  using to_net_listen to_net_connect by simp

lemma endpoint_of_host_port: "h \<noteq> [] \<Longrightarrow> endpoint_of (host_port h p) = Some (h, p)"
proof -
  have "CHR '':'' \<notin> set (show_nat (unat p))"
    using show_nat_digits [of "CHR '':''" "unat p"] by (auto simp: is_digit_def)
  then show "h \<noteq> [] \<Longrightarrow> endpoint_of (host_port h p) = Some (h, p)"
    by (simp add: endpoint_of_def parse_host_port_def host_port_def rust_str)
qed

text \<open>
  The hint of a refused network operation is the right one. The entry it names,
  as the only network entry of a grant, admits that operation and, for connecting and for
  listening, no other host or port.
\<close>

theorem net_hint_exact:
  assumes "h \<noteq> []" "cg_net g = [host_port h p]"
  shows "NetOp_allows (NetConnect h' p') (to_net g) = (h' = h \<and> p' = p)
       \<and> NetOp_allows (NetListen h' p') (to_net g) = (h' = h \<and> p' = p)"
  using assms endpoint_of_host_port [OF assms(1), of p] by (auto simp: to_net_listen to_net_connect simp del: NetOp_allows.simps)

theorem net_hint_exact_witness:
  "NetOp_allows (NetConnect ''db'' 5432) (to_net (CapsGrant_default\<lparr>cg_net := [host_port ''db'' 5432]\<rparr>))
   \<and> \<not> NetOp_allows (NetListen ''db'' 80) (to_net (CapsGrant_default\<lparr>cg_net := [host_port ''db'' 5432]\<rparr>))"
  using net_hint_exact [of "''db''" "CapsGrant_default\<lparr>cg_net := [host_port ''db'' 5432]\<rparr>" 5432]
  by simp

section \<open>Process, empty grants, and the configuration text\<close>

text \<open>
  An \<open>exec\<close> list grants spawning and nothing else of the process capability, and
  it grants it for every program: the names in the list do not matter.
\<close>

theorem exec_grant_exact:
  "process_allows op (to_process g) \<longleftrightarrow> cg_exec g \<noteq> [] \<and> (\<exists>program. op = ProcSpawn program)"
  by (cases op) (auto simp: to_process_def Process_none_def)

text \<open>
  \<open>is_empty\<close> decides whether a grant carries any authority: it holds exactly when
  all five capabilities built from the grant are the empty ones.
\<close>

theorem empty_grant_no_authority:
  "CapsGrant_is_empty g \<longleftrightarrow>
     to_fs g = Fs_none \<and> to_net g = Net_none \<and> to_env g = Env_none \<and> to_process g = Process_none
     \<and> to_stdio g = Stdio_none"
  by (auto simp: CapsGrant_is_empty_def to_fs_def to_net_def to_env_def to_process_def to_stdio_def
      Fs_none_def Net_none_def Env_none_def Process_none_def Stdio_none_def net_split_eq Let_def)

text \<open>The configuration text of a grant.\<close>

definition grant_json :: "CapsGrant \<Rightarrow> JsonValue" where
  "grant_json g = JObject
     [(''fs'', JArray (map JString (cg_fs g))), (''net'', JArray (map JString (cg_net g))),
      (''env'', JArray (map JString (cg_env g))), (''exec'', JArray (map JString (cg_exec g))),
      (''stdio'', JObject [(''stdout'', JBool (stdio_stdout g)), (''stderr'', JBool (stdio_stderr g))])]"

lemma map_filter_strings: "List.map_filter as_str (map JString ss) = ss"
  by (induction ss) (simp_all add: as_str_def List.map_filter_simps)

lemma grant_from_json: "CapsGrant_from_json (grant_json g) = g"
  by (simp add: CapsGrant_from_json_def grant_json_def json_strings_def json_stdio_flag_def
      JsonValue_get_def Map_get_def as_array_def as_bool_def map_filter_strings)

lemma grant_json_shape:
  assumes "\<forall>s \<in> set (cg_fs g @ cg_net g @ cg_env g @ cg_exec g). utf8_valid s"
  shows "wf_json (grant_json g) \<and> json_depth (grant_json g) \<le> MAX_DEPTH"
proof -
  have depth: "max_list (map json_depth (map JString ss)) = 0" for ss
    by (induction ss) (simp_all add: max_list_def)
  have valid: "list_all wf_json (map JString ss)" if "\<forall>s \<in> set ss. utf8_valid s" for ss
    using that by (auto simp: list_all_iff)
  show ?thesis using assms valid depth by (simp add: grant_json_def MAX_DEPTH_def max_list_def)
qed

text \<open>
  Configuration texts are read faithfully. Every grant with UTF-8 entries has a
  configuration text, the compact print of its JSON, that reads back as that grant; a missing
  file reads as the empty grant; and reading always returns.
\<close>

theorem grant_text_roundtrip:
  assumes "\<forall>s \<in> set (cg_fs g @ cg_net g @ cg_env g @ cg_exec g). utf8_valid s"
    and "length (to_compact_string (grant_json g)) \<le> DEFAULT_MAX_JSON_BYTES"
  shows "CapsGrant_load_file (Some (to_compact_string (grant_json g))) = Some (Inr g)
    \<and> CapsGrant_load_file None = Some (Inr CapsGrant_default)
    \<and> (\<forall>body. CapsGrant_load_file (Some body) \<noteq> None)"
  using parse_printed [of "grant_json g" None] grant_json_shape [OF assms(1)] assms(2)
    parse_value_str_returns
  by (auto simp: CapsGrant_load_file_def CapsGrant_parse_str_def to_compact_string_def grant_from_json)

theorem grant_text_roundtrip_witness:
  "CapsGrant_load_file (Some (to_compact_string (grant_json example_grant))) = Some (Inr example_grant)"
proof -
  have "length (to_compact_string (grant_json example_grant)) \<le> DEFAULT_MAX_JSON_BYTES"
    by (simp add: example_grant_def CapsGrant_default_def grant_json_def to_compact_string_def
        DEFAULT_MAX_JSON_BYTES_def write_string_def write_char_def write_sep_def write_close_def)
  then show ?thesis
    using grant_text_roundtrip [of example_grant]
    by (simp add: example_grant_def CapsGrant_default_def)
qed

end
