(* ===== verification/IndexMap.thy ===== *)
theory IndexMap
  imports Rust_Prelude "HOL-Library.AList" "HOL-Library.Sublist"
begin

text \<open>
  The insertion-ordered hash map \<open>crates/rusty-js-indexmap/src/lib.rs\<close>, which holds the
  properties of every script object. Entries are a vector in insertion order; from sixteen
  entries on an index from key hashes to positions speeds up lookups, and it has to be kept
  exact through in-place updates, appends, order-preserving removals and bulk filters.

  The hash function \<open>kh\<close> (the key's \<open>Hash\<close> with \<open>DefaultHasher\<close>) is a parameter: nothing is
  assumed of it, so every theorem holds under arbitrary collisions. A panic (a position out
  of range, \<open>expect\<close> on \<open>None\<close>) is the outer \<open>None\<close>; the theorems show it does not happen on
  maps that the operations build. A \<open>&mut V\<close> is the position of the entry it points to.

  The locale \<open>ordered_map\<close> states the contract the rest of the runtime relies on (association
  lists in insertion order); it is interpreted on the model of the crate.
\<close>

section \<open>State\<close>

record ('k, 'v) IndexMap =
  entries :: "('k \<times> 'v) list"
  index :: "(u64 \<rightharpoonup> nat list) option"

definition INDEX_THRESHOLD :: nat where
  "INDEX_THRESHOLD = 16"

definition IndexMap_eq :: "('k, 'v) IndexMap \<Rightarrow> ('k, 'v) IndexMap \<Rightarrow> bool" where
  "IndexMap_eq a b \<longleftrightarrow> entries a = entries b"

definition IndexMap_new :: "('k, 'v) IndexMap" where
  "IndexMap_new = \<lparr>entries = [], index = None\<rparr>"

definition IndexMap_len :: "('k, 'v) IndexMap \<Rightarrow> nat" where
  "IndexMap_len m = length (entries m)"

definition IndexMap_is_empty :: "('k, 'v) IndexMap \<Rightarrow> bool" where
  "IndexMap_is_empty m \<longleftrightarrow> entries m = []"

definition get_index :: "('k, 'v) IndexMap \<Rightarrow> nat \<Rightarrow> ('k \<times> 'v) option" where
  "get_index m i = (if i < length (entries m) then Some (entries m ! i) else None)"

definition IndexMap_clear :: "('k, 'v) IndexMap \<Rightarrow> ('k, 'v) IndexMap" where
  "IndexMap_clear m = m\<lparr>entries := [], index := None\<rparr>"

text \<open>
  \<open>retain\<close> calls its closure on the entries in order; the closure may change the value and
  its own captured state \<open>'s\<close>.
\<close>

fun retain_mut :: "('s \<Rightarrow> 'k \<Rightarrow> 'v \<Rightarrow> bool \<times> 'v \<times> 's) \<Rightarrow> 's \<Rightarrow> ('k \<times> 'v) list \<Rightarrow> ('k \<times> 'v) list \<times> 's" where
  "retain_mut keep s [] = ([], s)"
| "retain_mut keep s ((k, v) # es) =
     (let (b, v', s') = keep s k v; (es', s'') = retain_mut keep s' es in
      ((if b then (k, v') # es' else es'), s''))"

definition IndexMap_retain ::
  "('s \<Rightarrow> 'k \<Rightarrow> 'v \<Rightarrow> bool \<times> 'v \<times> 's) \<Rightarrow> 's \<Rightarrow> ('k, 'v) IndexMap \<Rightarrow> ('k, 'v) IndexMap \<times> 's" where
  "IndexMap_retain keep s m =
     (let (es, s') = retain_mut keep s (entries m) in (m\<lparr>entries := es, index := None\<rparr>, s'))"

section \<open>Finding a key\<close>

fun position :: "('a \<Rightarrow> bool) \<Rightarrow> 'a list \<Rightarrow> nat option" where
  "position P [] = None"
| "position P (x # xs) = (if P x then Some 0 else map_option Suc (position P xs))"

definition scan_pos :: "('k, 'v) IndexMap \<Rightarrow> 'k \<Rightarrow> nat option" where
  "scan_pos m key = position (\<lambda>(k, _). k = key) (entries m)"

definition idx_push :: "(u64 \<rightharpoonup> nat list) \<Rightarrow> u64 \<Rightarrow> nat \<Rightarrow> (u64 \<rightharpoonup> nat list)" where
  "idx_push idx h i = idx(h \<mapsto> (case idx h of None \<Rightarrow> [] | Some ps \<Rightarrow> ps) @ [i])"

fun build_from :: "('k \<Rightarrow> u64) \<Rightarrow> nat \<Rightarrow> ('k \<times> 'v) list \<Rightarrow> (u64 \<rightharpoonup> nat list) \<Rightarrow> (u64 \<rightharpoonup> nat list)" where
  "build_from kh i [] idx = idx"
| "build_from kh i ((k, _) # es) idx = build_from kh (i + 1) es (idx_push idx (kh k) i)"

definition build_index :: "('k \<Rightarrow> u64) \<Rightarrow> ('k, 'v) IndexMap \<Rightarrow> ('k, 'v) IndexMap" where
  "build_index kh m = m\<lparr>index := Some (build_from kh 0 (entries m) Map.empty)\<rparr>"

definition ensure_index :: "('k \<Rightarrow> u64) \<Rightarrow> ('k, 'v) IndexMap \<Rightarrow> ('k, 'v) IndexMap" where
  "ensure_index kh m =
     (if index m = None \<and> INDEX_THRESHOLD \<le> length (entries m) then build_index kh m else m)"

fun find_cands :: "('k \<times> 'v) list \<Rightarrow> 'k \<Rightarrow> nat list \<Rightarrow> nat option option" where
  "find_cands es key [] = Some None"
| "find_cands es key (i # is) =
     (if i < length es then (if fst (es ! i) = key then Some (Some i) else find_cands es key is)
      else None)"

definition find_pos :: "('k \<Rightarrow> u64) \<Rightarrow> ('k, 'v) IndexMap \<Rightarrow> 'k \<Rightarrow> nat option option" where
  "find_pos kh m key =
     (case index m of
        Some idx \<Rightarrow>
          (case idx (kh key) of
             None \<Rightarrow> Some None
           | Some cands \<Rightarrow> find_cands (entries m) key cands)
      | None \<Rightarrow> Some (scan_pos m key))"

section \<open>Operations\<close>

definition set_value :: "('k, 'v) IndexMap \<Rightarrow> nat \<Rightarrow> 'v \<Rightarrow> ('k, 'v) IndexMap" where
  "set_value m i v = m\<lparr>entries := (entries m)[i := (fst (entries m ! i), v)]\<rparr>"

definition replace_value :: "('k, 'v) IndexMap \<Rightarrow> nat \<Rightarrow> 'v \<Rightarrow> ('v \<times> ('k, 'v) IndexMap) option" where
  "replace_value m i v =
     (if i < length (entries m) then Some (snd (entries m ! i), set_value m i v) else None)"

definition push_entry :: "('k \<Rightarrow> u64) \<Rightarrow> ('k, 'v) IndexMap \<Rightarrow> 'k \<Rightarrow> 'v \<Rightarrow> ('k, 'v) IndexMap" where
  "push_entry kh m key v =
     (let m1 = m\<lparr>entries := entries m @ [(key, v)]\<rparr>;
          i = length (entries m1) - 1 in
      (case index m1 of
         Some idx \<Rightarrow> m1\<lparr>index := Some (idx_push idx (kh key) i)\<rparr>
       | None \<Rightarrow> ensure_index kh m1))"

definition IndexMap_insert ::
  "('k \<Rightarrow> u64) \<Rightarrow> ('k, 'v) IndexMap \<Rightarrow> 'k \<Rightarrow> 'v \<Rightarrow> ('v option \<times> ('k, 'v) IndexMap) option" where
  "IndexMap_insert kh m key v =
     Option.bind (find_pos kh m key) (\<lambda>pos.
       case pos of
         Some i \<Rightarrow> map_option (\<lambda>(old, m'). (Some old, m')) (replace_value m i v)
       | None \<Rightarrow> Some (None, push_entry kh m key v))"

definition IndexMap_contains_key :: "('k \<Rightarrow> u64) \<Rightarrow> ('k, 'v) IndexMap \<Rightarrow> 'k \<Rightarrow> bool option" where
  "IndexMap_contains_key kh m key = map_option (\<lambda>pos. pos \<noteq> None) (find_pos kh m key)"

definition IndexMap_get :: "('k \<Rightarrow> u64) \<Rightarrow> ('k, 'v) IndexMap \<Rightarrow> 'k \<Rightarrow> 'v option option" where
  "IndexMap_get kh m key =
     Option.bind (find_pos kh m key) (\<lambda>pos.
       case pos of
         None \<Rightarrow> Some None
       | Some i \<Rightarrow> if i < length (entries m) then Some (Some (snd (entries m ! i))) else None)"

definition IndexMap_get_mut :: "('k \<Rightarrow> u64) \<Rightarrow> ('k, 'v) IndexMap \<Rightarrow> 'k \<Rightarrow> nat option option" where
  "IndexMap_get_mut kh m key =
     Option.bind (find_pos kh m key) (\<lambda>pos.
       case pos of
         None \<Rightarrow> Some None
       | Some i \<Rightarrow> if i < length (entries m) then Some (Some i) else None)"

definition IndexMap_index :: "('k \<Rightarrow> u64) \<Rightarrow> ('k, 'v) IndexMap \<Rightarrow> 'k \<Rightarrow> 'v option" where
  "IndexMap_index kh m key = Option.bind (IndexMap_get kh m key) (\<lambda>r. r)"

definition shift_bucket :: "nat \<Rightarrow> nat list \<Rightarrow> nat list" where
  "shift_bucket i ps = map (\<lambda>p. if i < p then p - 1 else p) (filter (\<lambda>p. p \<noteq> i) ps)"

definition shift_index :: "nat \<Rightarrow> (u64 \<rightharpoonup> nat list) \<Rightarrow> (u64 \<rightharpoonup> nat list)" where
  "shift_index i idx =
     (\<lambda>h. case idx h of
            None \<Rightarrow> None
          | Some ps \<Rightarrow> (let ps' = shift_bucket i ps in if ps' = [] then None else Some ps'))"

definition remove_nth :: "nat \<Rightarrow> 'a list \<Rightarrow> 'a list" where
  "remove_nth i xs = take i xs @ drop (Suc i) xs"

definition IndexMap_shift_remove ::
  "('k \<Rightarrow> u64) \<Rightarrow> ('k, 'v) IndexMap \<Rightarrow> 'k \<Rightarrow> ('v option \<times> ('k, 'v) IndexMap) option" where
  "IndexMap_shift_remove kh m key =
     Option.bind (find_pos kh m key) (\<lambda>pos.
       case pos of
         None \<Rightarrow> Some (None, m)
       | Some i \<Rightarrow>
           if i < length (entries m) then
             (let removed = snd (entries m ! i);
                  m1 = m\<lparr>entries := remove_nth i (entries m)\<rparr> in
              Some (Some removed,
                case index m1 of
                  None \<Rightarrow> m1
                | Some idx \<Rightarrow>
                    if length (entries m1) < INDEX_THRESHOLD then m1\<lparr>index := None\<rparr>
                    else m1\<lparr>index := Some (shift_index i idx)\<rparr>))
           else None)"

definition IndexMap_remove ::
  "('k \<Rightarrow> u64) \<Rightarrow> ('k, 'v) IndexMap \<Rightarrow> 'k \<Rightarrow> ('v option \<times> ('k, 'v) IndexMap) option" where
  "IndexMap_remove kh m key = IndexMap_shift_remove kh m key"

text \<open>
  The entry API: an entry borrows the map, so it carries no copy of it. \<open>or_insert\<close> returns
  the reference (a position) and the map; \<open>or_insert_with\<close> calls its closure only when the
  key is absent.
\<close>

datatype 'k Entry = Occupied nat | Vacant 'k

definition IndexMap_entry :: "('k \<Rightarrow> u64) \<Rightarrow> ('k, 'v) IndexMap \<Rightarrow> 'k \<Rightarrow> 'k Entry option" where
  "IndexMap_entry kh m key =
     map_option (\<lambda>pos. case pos of Some i \<Rightarrow> Occupied i | None \<Rightarrow> Vacant key) (find_pos kh m key)"

definition VacantEntry_insert ::
  "('k \<Rightarrow> u64) \<Rightarrow> ('k, 'v) IndexMap \<Rightarrow> 'k \<Rightarrow> 'v \<Rightarrow> nat \<times> ('k, 'v) IndexMap" where
  "VacantEntry_insert kh m key v = (length (entries m), push_entry kh m key v)"

definition OccupiedEntry_into_mut :: "('k, 'v) IndexMap \<Rightarrow> nat \<Rightarrow> nat option" where
  "OccupiedEntry_into_mut m i = (if i < length (entries m) then Some i else None)"

definition OccupiedEntry_insert :: "('k, 'v) IndexMap \<Rightarrow> nat \<Rightarrow> 'v \<Rightarrow> ('v \<times> ('k, 'v) IndexMap) option" where
  "OccupiedEntry_insert m i v = replace_value m i v"

definition Entry_or_insert_with ::
  "('k \<Rightarrow> u64) \<Rightarrow> ('k, 'v) IndexMap \<Rightarrow> 'k Entry \<Rightarrow> (unit \<Rightarrow> 'v) \<Rightarrow> (nat \<times> ('k, 'v) IndexMap) option" where
  "Entry_or_insert_with kh m e mk =
     (case e of
        Occupied i \<Rightarrow> map_option (\<lambda>r. (r, m)) (OccupiedEntry_into_mut m i)
      | Vacant key \<Rightarrow> Some (VacantEntry_insert kh m key (mk ())))"

definition Entry_or_insert ::
  "('k \<Rightarrow> u64) \<Rightarrow> ('k, 'v) IndexMap \<Rightarrow> 'k Entry \<Rightarrow> 'v \<Rightarrow> (nat \<times> ('k, 'v) IndexMap) option" where
  "Entry_or_insert kh m e v =
     (case e of
        Occupied i \<Rightarrow> map_option (\<lambda>r. (r, m)) (OccupiedEntry_into_mut m i)
      | Vacant key \<Rightarrow> Some (VacantEntry_insert kh m key v))"

text \<open>Iterators are the entries that are left; \<open>collect_all\<close> drains one.\<close>

fun Iter_next :: "('k \<times> 'v) list \<Rightarrow> ('k \<times> 'v) option \<times> ('k \<times> 'v) list" where
  "Iter_next [] = (None, [])"
| "Iter_next (e # es) = (Some e, es)"

definition IndexMap_iter :: "('k, 'v) IndexMap \<Rightarrow> ('k \<times> 'v) list" where
  "IndexMap_iter m = entries m"

definition Keys_next :: "('k \<times> 'v) list \<Rightarrow> 'k option \<times> ('k \<times> 'v) list" where
  "Keys_next it = (let (r, it') = Iter_next it in (map_option fst r, it'))"

definition Values_next :: "('k \<times> 'v) list \<Rightarrow> 'v option \<times> ('k \<times> 'v) list" where
  "Values_next it = (let (r, it') = Iter_next it in (map_option snd r, it'))"

fun from_iter_loop ::
  "('k \<Rightarrow> u64) \<Rightarrow> ('k, 'v) IndexMap \<Rightarrow> ('k \<times> 'v) list \<Rightarrow> ('k, 'v) IndexMap option" where
  "from_iter_loop kh m [] = Some m"
| "from_iter_loop kh m ((k, v) # xs) =
     Option.bind (IndexMap_insert kh m k v) (\<lambda>(_, m'). from_iter_loop kh m' xs)"

definition IndexMap_from_iter :: "('k \<Rightarrow> u64) \<Rightarrow> ('k \<times> 'v) list \<Rightarrow> ('k, 'v) IndexMap option" where
  "IndexMap_from_iter kh xs = from_iter_loop kh IndexMap_new xs"

section \<open>IndexSet\<close>

record 'k IndexSet =
  set_map :: "('k, unit) IndexMap"

definition IndexSet_new :: "'k IndexSet" where
  "IndexSet_new = \<lparr>set_map = IndexMap_new\<rparr>"

definition IndexSet_insert :: "('k \<Rightarrow> u64) \<Rightarrow> 'k IndexSet \<Rightarrow> 'k \<Rightarrow> (bool \<times> 'k IndexSet) option" where
  "IndexSet_insert kh s x =
     map_option (\<lambda>(old, m). (old = None, \<lparr>set_map = m\<rparr>)) (IndexMap_insert kh (set_map s) x ())"

definition IndexSet_contains :: "('k \<Rightarrow> u64) \<Rightarrow> 'k IndexSet \<Rightarrow> 'k \<Rightarrow> bool option" where
  "IndexSet_contains kh s x = IndexMap_contains_key kh (set_map s) x"

definition IndexSet_shift_remove :: "('k \<Rightarrow> u64) \<Rightarrow> 'k IndexSet \<Rightarrow> 'k \<Rightarrow> (bool \<times> 'k IndexSet) option" where
  "IndexSet_shift_remove kh s x =
     map_option (\<lambda>(old, m). (old \<noteq> None, \<lparr>set_map = m\<rparr>)) (IndexMap_shift_remove kh (set_map s) x)"

definition IndexSet_len :: "'k IndexSet \<Rightarrow> nat" where
  "IndexSet_len s = IndexMap_len (set_map s)"

section \<open>The index invariant\<close>

definition hash_positions :: "('k \<Rightarrow> u64) \<Rightarrow> ('k \<times> 'v) list \<Rightarrow> u64 \<Rightarrow> nat list" where
  "hash_positions kh es h = filter (\<lambda>i. kh (fst (es ! i)) = h) [0..<length es]"

definition exact_index :: "('k \<Rightarrow> u64) \<Rightarrow> ('k \<times> 'v) list \<Rightarrow> (u64 \<rightharpoonup> nat list)" where
  "exact_index kh es =
     (\<lambda>h. let ps = hash_positions kh es h in if ps = [] then None else Some ps)"

text \<open>
  Well-formed maps: no key twice; an index, if there is one, lists for every hash exactly the
  positions of the keys with that hash, in order, and there are at least sixteen entries.
\<close>

definition wf_map :: "('k \<Rightarrow> u64) \<Rightarrow> ('k, 'v) IndexMap \<Rightarrow> bool" where
  "wf_map kh m \<longleftrightarrow>
     distinct (map fst (entries m))
     \<and> (case index m of
          None \<Rightarrow> True
        | Some idx \<Rightarrow> idx = exact_index kh (entries m) \<and> INDEX_THRESHOLD \<le> length (entries m))"

lemma hash_positions_Nil [simp]: "hash_positions kh [] h = []"
  by (simp add: hash_positions_def)

lemma hash_positions_Cons:
  "hash_positions kh (e # es) h = (if kh (fst e) = h then [0] else []) @ map Suc (hash_positions kh es h)"
proof -
  have "[0..<length (e # es)] = 0 # map Suc [0..<length es]"
    using upt_conv_Cons [of 0 "length (e # es)"] map_Suc_upt [of 0 "length es"] by simp
  then show ?thesis
    unfolding hash_positions_def by (simp only: filter.simps filter_map o_def) simp
qed

lemma hash_positions_snoc:
  "hash_positions kh (es @ [(k, v)]) h = hash_positions kh es h @ (if kh k = h then [length es] else [])"
  by (induction es) (auto simp: hash_positions_Cons)

lemma hash_positions_cong:
  "map fst es = map fst es' \<Longrightarrow> hash_positions kh es h = hash_positions kh es' h"
proof (induction es arbitrary: es')
  case (Cons e es)
  then show ?case by (cases es') (auto simp: hash_positions_Cons)
qed simp

lemma shift_bucket_Suc: "shift_bucket (Suc i) (map Suc ps) = map Suc (shift_bucket i ps)"
  by (induction ps) (auto simp: shift_bucket_def)

lemma shift_bucket_0: "shift_bucket 0 (map Suc ps) = ps"
  by (induction ps) (auto simp: shift_bucket_def)

lemma shift_bucket_append: "shift_bucket i (ps @ qs) = shift_bucket i ps @ shift_bucket i qs"
  by (simp add: shift_bucket_def)

lemma hash_positions_remove:
  "i < length es \<Longrightarrow> hash_positions kh (remove_nth i es) h = shift_bucket i (hash_positions kh es h)"
proof (induction es arbitrary: i)
  case (Cons e es)
  show ?case
  proof (cases i)
    case 0
    then have "shift_bucket i [0] = []" "shift_bucket i [] = []" by (simp_all add: shift_bucket_def)
    then show ?thesis
      using 0 by (simp add: remove_nth_def hash_positions_Cons shift_bucket_append shift_bucket_0)
  next
    case (Suc j)
    then have "remove_nth i (e # es) = e # remove_nth j es" by (simp add: remove_nth_def)
    moreover have "shift_bucket (Suc j) [0] = [0]" "shift_bucket (Suc j) [] = []"
      by (simp_all add: shift_bucket_def)
    ultimately show ?thesis using Cons.IH [of j] Cons.prems Suc
      by (simp add: hash_positions_Cons shift_bucket_append shift_bucket_Suc)
  qed
qed simp

lemma exact_index_push: "idx_push (exact_index kh es) (kh k) (length es) = exact_index kh (es @ [(k, v)])"
  by (auto simp: idx_push_def exact_index_def Let_def hash_positions_snoc fun_eq_iff)

lemma exact_index_shift:
  "i < length es \<Longrightarrow> shift_index i (exact_index kh es) = exact_index kh (remove_nth i es)"
  by (auto simp: shift_index_def exact_index_def Let_def hash_positions_remove fun_eq_iff shift_bucket_def)

lemma build_from_exact:
  "build_from kh (length pre) es (exact_index kh pre) = exact_index kh (pre @ es)"
proof (induction es arbitrary: pre)
  case (Cons e es)
  obtain k v where e: "e = (k, v)" by (cases e)
  have "build_from kh (length pre) (e # es) (exact_index kh pre)
      = build_from kh (length (pre @ [(k, v)])) es (exact_index kh (pre @ [(k, v)]))"
    using exact_index_push [of kh pre k v] by (simp add: e)
  also have "\<dots> = exact_index kh ((pre @ [(k, v)]) @ es)" by (rule Cons.IH)
  finally show ?case by (simp add: e)
qed simp

lemma build_index_exact: "build_index kh m = m\<lparr>index := Some (exact_index kh (entries m))\<rparr>"
proof -
  have "exact_index kh (take 0 (entries m)) = Map.empty" by (simp add: exact_index_def fun_eq_iff)
  then show ?thesis using build_from_exact [of kh "take 0 (entries m)" "entries m"] by (simp add: build_index_def)
qed

section \<open>The index finds what a scan finds\<close>

lemma find_cands_find:
  "(\<And>i. i \<in> set is \<Longrightarrow> i < length es) \<Longrightarrow>
   find_cands es key is = Some (List.find (\<lambda>i. fst (es ! i) = key) is)"
  by (induction "is") auto

lemma find_filter: "(\<And>x. P x \<Longrightarrow> Q x) \<Longrightarrow> List.find P (filter Q xs) = List.find P xs"
  by (induction xs) auto

lemma find_map: "List.find P (map f xs) = map_option f (List.find (\<lambda>x. P (f x)) xs)"
  by (induction xs) auto

lemma position_find: "position P xs = List.find (\<lambda>i. P (xs ! i)) [0..<length xs]"
proof (induction xs)
  case (Cons x xs)
  have "[0..<length (x # xs)] = 0 # map Suc [0..<length xs]"
    using upt_conv_Cons [of 0 "length (x # xs)"] map_Suc_upt [of 0 "length xs"] by simp
  then show ?case using Cons by (simp add: find_map)
qed simp

lemma find_pos_scan:
  assumes "wf_map kh m"
  shows "find_pos kh m key = Some (scan_pos m key)"
proof (cases "index m")
  case (Some idx)
  let ?es = "entries m"
  let ?ps = "hash_positions kh ?es (kh key)"
  have idx: "idx = exact_index kh ?es" using assms Some by (simp add: wf_map_def)
  have bound: "i < length ?es" if "i \<in> set ?ps" for i
    using that by (simp add: hash_positions_def)
  have found: "find_cands ?es key ?ps = Some (scan_pos m key)"
  proof -
    have "List.find (\<lambda>i. fst (?es ! i) = key) ?ps = List.find (\<lambda>i. fst (?es ! i) = key) [0..<length ?es]"
      unfolding hash_positions_def by (rule find_filter) simp
    then show ?thesis
      using find_cands_find [OF bound, of ?ps key] by (simp add: scan_pos_def position_find case_prod_unfold)
  qed
  show ?thesis
  proof (cases "?ps = []")
    case True
    with found have "scan_pos m key = None" by simp
    then show ?thesis using True Some idx by (simp add: find_pos_def exact_index_def)
  qed (use found Some idx in \<open>simp add: find_pos_def exact_index_def\<close>)
qed (simp add: find_pos_def)

lemma position_SomeD: "position P xs = Some i \<Longrightarrow> i < length xs \<and> P (xs ! i)"
  by (induction xs arbitrary: i) (auto split: if_splits)

lemma position_map_of:
  "map_of es key = map_option (\<lambda>i. snd (es ! i)) (position (\<lambda>(k, _). k = key) es)"
  by (induction es) (auto simp: option.map_comp o_def)

lemma position_update:
  "position (\<lambda>(k, _). k = key) es = Some i \<Longrightarrow> es[i := (fst (es ! i), v)] = AList.update key v es"
  by (induction es arbitrary: i) (auto split: if_splits)

lemma position_update_None:
  "position (\<lambda>(k, _). k = key) es = None \<Longrightarrow> AList.update key v es = es @ [(key, v)]"
  by (induction es) (auto split: if_splits)

lemma position_None_iff: "position (\<lambda>(k, _). k = key) es = None \<longleftrightarrow> key \<notin> fst ` set es"
  by (induction es) auto

lemma position_delete:
  "distinct (map fst es) \<Longrightarrow> position (\<lambda>(k, _). k = key) es = Some i \<Longrightarrow> remove_nth i es = AList.delete key es"
proof (induction es arbitrary: i)
  case (Cons e es)
  show ?case
  proof (cases "fst e = key")
    case True
    then have "key \<notin> fst ` set es" using Cons.prems(1) by auto
    then show ?thesis using Cons.prems True by (cases e) (simp add: remove_nth_def)
  next
    case False
    then obtain j where "i = Suc j" "position (\<lambda>(k, _). k = key) es = Some j"
      using Cons.prems by (cases e) auto
    then show ?thesis using Cons False by (cases e) (simp add: remove_nth_def)
  qed
qed simp

section \<open>Every operation on well-formed maps\<close>

lemma set_value_wf:
  assumes "wf_map kh m" "i < length (entries m)"
  shows "wf_map kh (set_value m i v)"
proof -
  have keys: "map fst (entries (set_value m i v)) = map fst (entries m)"
    using assms(2) by (simp add: set_value_def map_update list_update_same_conv)
  then have "exact_index kh (entries (set_value m i v)) = exact_index kh (entries m)"
    unfolding exact_index_def by (simp add: hash_positions_cong [OF keys])
  moreover have "length (entries (set_value m i v)) = length (entries m)" by (simp add: set_value_def)
  moreover have "index (set_value m i v) = index m" by (simp add: set_value_def)
  ultimately show ?thesis using assms(1) keys by (simp add: wf_map_def split: option.splits)
qed

lemma push_entry_wf:
  assumes "wf_map kh m" "key \<notin> fst ` set (entries m)"
  shows "wf_map kh (push_entry kh m key v) \<and> entries (push_entry kh m key v) = entries m @ [(key, v)]"
  using assms exact_index_push [of kh "entries m" key v]
  by (auto simp: push_entry_def wf_map_def ensure_index_def build_index_exact Let_def split: option.splits)

lemma insert_refines:
  assumes "wf_map kh m"
  shows "\<exists>m'. IndexMap_insert kh m key v = Some (map_of (entries m) key, m')
     \<and> wf_map kh m' \<and> entries m' = AList.update key v (entries m)"
proof (cases "scan_pos m key")
  case None
  then have "key \<notin> fst ` set (entries m)" by (simp add: scan_pos_def position_None_iff)
  with None show ?thesis
    using push_entry_wf [OF assms, of key v] find_pos_scan [OF assms, of key]
    by (simp add: IndexMap_insert_def position_map_of scan_pos_def position_update_None)
next
  case (Some i)
  then have "i < length (entries m)" by (auto simp: scan_pos_def dest: position_SomeD)
  with Some show ?thesis
    using set_value_wf [OF assms, of i v] find_pos_scan [OF assms, of key]
    by (simp add: IndexMap_insert_def replace_value_def position_map_of scan_pos_def
        set_value_def position_update)
qed

lemma get_refines: "wf_map kh m \<Longrightarrow> IndexMap_get kh m key = Some (map_of (entries m) key)"
  using find_pos_scan [of kh m key] position_SomeD
  by (cases "scan_pos m key") (auto simp: IndexMap_get_def position_map_of scan_pos_def)

lemma contains_refines:
  "wf_map kh m \<Longrightarrow> IndexMap_contains_key kh m key = Some (key \<in> fst ` set (entries m))"
  using find_pos_scan [of kh m key]
  by (simp add: IndexMap_contains_key_def scan_pos_def position_None_iff del: not_None_eq)

lemma remove_refines:
  assumes "wf_map kh m"
  shows "\<exists>m'. IndexMap_shift_remove kh m key = Some (map_of (entries m) key, m')
     \<and> wf_map kh m' \<and> entries m' = AList.delete key (entries m)"
proof (cases "scan_pos m key")
  case None
  then have "key \<notin> fst ` set (entries m)" by (simp add: scan_pos_def position_None_iff)
  with None show ?thesis
    using assms find_pos_scan [OF assms, of key]
    by (simp add: IndexMap_shift_remove_def position_map_of scan_pos_def)
next
  case (Some i)
  have i: "i < length (entries m)" using Some by (auto simp: scan_pos_def dest: position_SomeD)
  have d: "distinct (map fst (entries m))" using assms by (simp add: wf_map_def)
  have del: "remove_nth i (entries m) = AList.delete key (entries m)"
    using position_delete [OF d] Some by (simp add: scan_pos_def)
  have sh: "shift_index i (exact_index kh (entries m)) = exact_index kh (AList.delete key (entries m))"
    using exact_index_shift [OF i, of kh] del by simp
  show ?thesis
    using assms Some i del sh find_pos_scan [OF assms, of key] distinct_delete [OF d, of key]
    by (auto simp: IndexMap_shift_remove_def position_map_of scan_pos_def wf_map_def Let_def
        split: option.splits)
qed

lemma retain_subseq: "subseq (map fst (fst (retain_mut keep s es))) (map fst es)"
  by (induction keep s es rule: retain_mut.induct) (auto split: prod.splits)

section \<open>The contract of an ordered map\<close>

text \<open>
  The reference is an association list in insertion order: \<open>AList.update\<close> changes a value in
  place or appends, \<open>AList.delete\<close> removes and keeps the order. An operation sequence is run
  on the map and on the reference side by side.
\<close>

datatype ('k, 'v) map_op =
  OpInsert 'k 'v | OpRemove 'k | OpGet 'k | OpClear | OpRetain "'k \<Rightarrow> 'v \<Rightarrow> bool \<times> 'v"

definition retain_spec :: "('k \<Rightarrow> 'v \<Rightarrow> bool \<times> 'v) \<Rightarrow> ('k \<times> 'v) list \<Rightarrow> ('k \<times> 'v) list" where
  "retain_spec f es = map (\<lambda>(k, v). (k, snd (f k v))) (filter (\<lambda>(k, v). fst (f k v)) es)"

fun spec_ops :: "('k \<times> 'v) list \<Rightarrow> ('k, 'v) map_op list \<Rightarrow> 'v option list \<times> ('k \<times> 'v) list" where
  "spec_ops es [] = ([], es)"
| "spec_ops es (OpInsert k v # ops) =
     (let (rs, es') = spec_ops (AList.update k v es) ops in (map_of es k # rs, es'))"
| "spec_ops es (OpRemove k # ops) =
     (let (rs, es') = spec_ops (AList.delete k es) ops in (map_of es k # rs, es'))"
| "spec_ops es (OpGet k # ops) = (let (rs, es') = spec_ops es ops in (map_of es k # rs, es'))"
| "spec_ops es (OpClear # ops) = spec_ops [] ops"
| "spec_ops es (OpRetain f # ops) = spec_ops (retain_spec f es) ops"

record ('m, 'k, 'v) map_ops =
  mo_insert :: "'m \<Rightarrow> 'k \<Rightarrow> 'v \<Rightarrow> ('v option \<times> 'm) option"
  mo_remove :: "'m \<Rightarrow> 'k \<Rightarrow> ('v option \<times> 'm) option"
  mo_get :: "'m \<Rightarrow> 'k \<Rightarrow> 'v option option"
  mo_clear :: "'m \<Rightarrow> 'm"
  mo_retain :: "('k \<Rightarrow> 'v \<Rightarrow> bool \<times> 'v) \<Rightarrow> 'm \<Rightarrow> 'm"

fun run_ops :: "('m, 'k, 'v) map_ops \<Rightarrow> 'm \<Rightarrow> ('k, 'v) map_op list \<Rightarrow> ('v option list \<times> 'm) option" where
  "run_ops F m [] = Some ([], m)"
| "run_ops F m (OpInsert k v # ops) =
     Option.bind (mo_insert F m k v) (\<lambda>(r, m'). map_option (\<lambda>(rs, m''). (r # rs, m'')) (run_ops F m' ops))"
| "run_ops F m (OpRemove k # ops) =
     Option.bind (mo_remove F m k) (\<lambda>(r, m'). map_option (\<lambda>(rs, m''). (r # rs, m'')) (run_ops F m' ops))"
| "run_ops F m (OpGet k # ops) =
     Option.bind (mo_get F m k) (\<lambda>r. map_option (\<lambda>(rs, m''). (r # rs, m'')) (run_ops F m ops))"
| "run_ops F m (OpClear # ops) = run_ops F (mo_clear F m) ops"
| "run_ops F m (OpRetain f # ops) = run_ops F (mo_retain F f m) ops"

locale ordered_map =
  fixes F :: "('m, 'k, 'v) map_ops"
    and empty :: 'm
    and items :: "'m \<Rightarrow> ('k \<times> 'v) list"
    and inv :: "'m \<Rightarrow> bool"
  assumes empty_items: "inv empty" "items empty = []"
    and items_distinct: "inv m \<Longrightarrow> distinct (map fst (items m))"
    and insert_items: "inv m \<Longrightarrow> \<exists>m'. mo_insert F m k v = Some (map_of (items m) k, m')
          \<and> inv m' \<and> items m' = AList.update k v (items m)"
    and remove_items: "inv m \<Longrightarrow> \<exists>m'. mo_remove F m k = Some (map_of (items m) k, m')
          \<and> inv m' \<and> items m' = AList.delete k (items m)"
    and get_items: "inv m \<Longrightarrow> mo_get F m k = Some (map_of (items m) k)"
    and clear_items: "inv m \<Longrightarrow> inv (mo_clear F m) \<and> items (mo_clear F m) = []"
    and retain_items: "inv m \<Longrightarrow> inv (mo_retain F f m) \<and> items (mo_retain F f m) = retain_spec f (items m)"
begin

lemma run_refines:
  "inv m \<Longrightarrow> \<exists>m'. run_ops F m ops = Some (fst (spec_ops (items m) ops), m')
     \<and> inv m' \<and> items m' = snd (spec_ops (items m) ops)"
proof (induction ops arbitrary: m)
  case (Cons op ops)
  show ?case
  proof (cases op)
    case (OpInsert k v)
    then show ?thesis using insert_items [OF Cons.prems, of k v] Cons.IH
      by (fastforce split: prod.splits)
  next
    case (OpRemove k)
    then show ?thesis using remove_items [OF Cons.prems, of k] Cons.IH
      by (fastforce split: prod.splits)
  next
    case (OpGet k)
    then show ?thesis using get_items [OF Cons.prems, of k] Cons.IH [OF Cons.prems]
      by (fastforce split: prod.splits)
  next
    case OpClear
    then show ?thesis using clear_items [OF Cons.prems] Cons.IH [of "mo_clear F m"] by simp
  next
    case (OpRetain f)
    then show ?thesis using retain_items [OF Cons.prems, of f] Cons.IH [of "mo_retain F f m"] by simp
  qed
qed simp

lemma run_from_empty:
  "\<exists>m'. run_ops F empty ops = Some (fst (spec_ops [] ops), m') \<and> inv m' \<and> items m' = snd (spec_ops [] ops)
     \<and> distinct (map fst (items m'))"
  using run_refines [OF empty_items(1), of ops] empty_items(2) items_distinct by fastforce

lemma get_after_insert:
  assumes "inv m" "mo_insert F m k v = Some (r, m')"
  shows "mo_get F m' k' = Some (if k' = k then Some v else map_of (items m) k')"
  using insert_items [OF assms(1), of k v] assms(2) get_items [of m' k'] by (auto simp: update_conv')

lemma get_after_remove:
  assumes "inv m" "mo_remove F m k = Some (r, m')"
  shows "mo_get F m' k' = Some (if k' = k then None else map_of (items m) k')"
  using remove_items [OF assms(1), of k] assms(2) get_items [of m' k'] by (auto simp: delete_conv')

end

definition indexmap_ops :: "('k \<Rightarrow> u64) \<Rightarrow> (('k, 'v) IndexMap, 'k, 'v) map_ops" where
  "indexmap_ops kh =
     \<lparr>mo_insert = IndexMap_insert kh, mo_remove = IndexMap_shift_remove kh, mo_get = IndexMap_get kh,
      mo_clear = IndexMap_clear, mo_retain = (\<lambda>f m. fst (IndexMap_retain (\<lambda>s k v. (fst (f k v), snd (f k v), s)) () m))\<rparr>"

lemma retain_pure: "fst (retain_mut (\<lambda>s k v. (fst (f k v), snd (f k v), s)) s es) = retain_spec f es"
  by (induction es) (auto simp: retain_spec_def Let_def split: prod.splits)

lemma subseq_distinctD: "subseq xs ys \<Longrightarrow> distinct ys \<Longrightarrow> distinct xs"
  by (induction rule: list_emb.induct) (auto dest: list_emb_set)

lemma retain_wf: "wf_map kh m \<Longrightarrow> wf_map kh (fst (IndexMap_retain keep s m))"
  using retain_subseq [of keep s "entries m"] subseq_distinctD
  by (auto simp: IndexMap_retain_def wf_map_def split: prod.splits)

interpretation im: ordered_map "indexmap_ops kh" IndexMap_new entries "wf_map kh" for kh :: "'k \<Rightarrow> u64"
proof (unfold_locales, goal_cases)
  case (4 m k v)
  then show ?case using insert_refines by (simp add: indexmap_ops_def)
next
  case (5 m k)
  then show ?case using remove_refines by (simp add: indexmap_ops_def)
next
  case (8 m f)
  then show ?case
    using retain_wf [OF 8, of "\<lambda>s k v. (fst (f k v), snd (f k v), s)" "()"] retain_pure [of f "()" "entries m"]
    by (auto simp: indexmap_ops_def IndexMap_retain_def split: prod.splits)
qed (auto simp: indexmap_ops_def IndexMap_new_def wf_map_def IndexMap_clear_def get_refines)

section \<open>Properties\<close>

text \<open>
  Property C17: the map refines its contract. Under every hash function, every sequence of
  inserts, order-preserving removals, lookups, clears and filters on a new map runs without
  a panic, returns what the association list in insertion order returns, and leaves the
  entries of that list, in that order, each key once.
\<close>

theorem indexmap_refines_alist:
  "\<exists>m. run_ops (indexmap_ops kh) IndexMap_new ops = Some (fst (spec_ops [] ops), m)
     \<and> wf_map kh m \<and> entries m = snd (spec_ops [] ops) \<and> distinct (map fst (entries m))"
  by (rule im.run_from_empty)

text \<open>
  The index is an optimisation only. On every well-formed map the indexed
  lookup returns, without a panic, the position that a linear scan returns, whatever the
  hash function and its collisions.
\<close>

theorem find_pos_eq_scan_pos:
  assumes "wf_map kh m"
  shows "find_pos kh m key = Some (scan_pos m key)"
  using assms by (rule find_pos_scan)

definition colliding_map :: "(nat, nat) IndexMap" where
  "colliding_map = \<lparr>entries = map (\<lambda>i. (i, 2 * i)) [0..<20], index = Some [7 \<mapsto> [0..<20]]\<rparr>"

lemma colliding_wf: "wf_map (\<lambda>_. 7) colliding_map"
  by (auto simp: wf_map_def colliding_map_def exact_index_def hash_positions_def INDEX_THRESHOLD_def
      Let_def fun_eq_iff o_def)

theorem find_pos_eq_scan_pos_witness: "find_pos (\<lambda>_. 7) colliding_map 17 = Some (Some 17)"
  using find_pos_eq_scan_pos [OF colliding_wf, of 17]
  by (simp add: scan_pos_def colliding_map_def upt_rec)

text \<open>
  Every operation keeps the index exact. A well-formed map stays well-formed
  under insertion, removal, clearing and \<open>retain\<close> with any closure, stateful ones included,
  and none of them panics.
\<close>

theorem indexmap_invariant:
  assumes "wf_map kh m"
  shows "(\<exists>r m'. IndexMap_insert kh m k v = Some (r, m') \<and> wf_map kh m')
       \<and> (\<exists>r m'. IndexMap_shift_remove kh m k = Some (r, m') \<and> wf_map kh m')
       \<and> wf_map kh (IndexMap_clear m) \<and> wf_map kh (fst (IndexMap_retain keep s m))
       \<and> IndexMap_get kh m k \<noteq> None \<and> IndexMap_contains_key kh m k \<noteq> None"
  using insert_refines [OF assms, of k v] remove_refines [OF assms, of k] retain_wf [OF assms, of keep s]
    get_refines [OF assms, of k] contains_refines [OF assms, of k]
  by (auto simp: IndexMap_clear_def wf_map_def)

theorem indexmap_invariant_witness:
  "\<exists>r m'. IndexMap_shift_remove (\<lambda>_. 7) colliding_map 3 = Some (r, m') \<and> wf_map (\<lambda>_. 7) m'"
  using indexmap_invariant [OF colliding_wf, of 3 0 "\<lambda>s k v. (True, v, s)" "()"] by blast

text \<open>
  \<open>entry(key).or_insert(default)\<close> leaves a present key alone and appends an absent
  one; the reference it returns is the entry of that key, and a write through it is an insert.
\<close>

theorem entry_or_insert:
  assumes "wf_map kh m"
  shows "\<exists>e i m'. IndexMap_entry kh m key = Some e \<and> Entry_or_insert kh m e v = Some (i, m')
     \<and> wf_map kh m'
     \<and> entries m' = (if key \<in> fst ` set (entries m) then entries m else entries m @ [(key, v)])
     \<and> i < length (entries m') \<and> fst (entries m' ! i) = key
     \<and> entries (set_value m' i w) = AList.update key w (entries m)"
proof (cases "scan_pos m key")
  case None
  then have new: "key \<notin> fst ` set (entries m)" by (simp add: scan_pos_def position_None_iff)
  then show ?thesis
    using None push_entry_wf [OF assms new, of v] find_pos_scan [OF assms, of key]
    by (simp add: IndexMap_entry_def Entry_or_insert_def VacantEntry_insert_def set_value_def
        position_update_None position_None_iff nth_append)
next
  case (Some i)
  then have i: "i < length (entries m) \<and> fst (entries m ! i) = key"
    by (auto simp: scan_pos_def dest: position_SomeD)
  then have "key \<in> fst ` set (entries m)" using nth_mem [of i "entries m"] by (auto simp: image_iff)
  then show ?thesis
    using Some i assms find_pos_scan [OF assms, of key] position_update [of key "entries m" i w]
    by (auto simp: IndexMap_entry_def Entry_or_insert_def OccupiedEntry_into_mut_def set_value_def scan_pos_def)
qed

theorem entry_or_insert_witness:
  "\<exists>e i m'. IndexMap_entry (\<lambda>_. 7) colliding_map 20 = Some e
     \<and> Entry_or_insert (\<lambda>_. 7) colliding_map e 5 = Some (i, m') \<and> entries m' = entries colliding_map @ [(20, 5)]"
proof -
  have new: "20 \<notin> fst ` set (entries colliding_map)" by (auto simp: colliding_map_def)
  from entry_or_insert [OF colliding_wf, of 20 5 0] obtain e i m' where
    "IndexMap_entry (\<lambda>_. 7) colliding_map 20 = Some e" "Entry_or_insert (\<lambda>_. 7) colliding_map e 5 = Some (i, m')"
    and es: "entries m' = (if 20 \<in> fst ` set (entries colliding_map) then entries colliding_map
        else entries colliding_map @ [(20, 5)])" by blast
  moreover have "entries m' = entries colliding_map @ [(20, 5)]" using es new by simp
  ultimately show ?thesis by blast
qed

lemma from_iter_entries:
  "wf_map kh m \<Longrightarrow> \<exists>m'. from_iter_loop kh m xs = Some m' \<and> wf_map kh m'
     \<and> entries m' = fold (\<lambda>(k, v). AList.update k v) xs (entries m)"
proof (induction xs arbitrary: m)
  case (Cons x xs)
  obtain k v where x: "x = (k, v)" by (cases x)
  from insert_refines [OF Cons.prems, of k v] show ?case using Cons.IH by (fastforce simp: x)
qed simp

lemma fold_update_keys:
  "map fst (fold (\<lambda>(k, v). AList.update k v) xs es)
   = map fst es @ filter (\<lambda>k. k \<notin> fst ` set es) (rev (remdups (rev (map fst xs))))"
proof (induction xs arbitrary: es rule: rev_induct)
  case (snoc x xs)
  obtain k v where x: "x = (k, v)" by (cases x)
  let ?es = "fold (\<lambda>(k, v). AList.update k v) xs es"
  have "k \<in> fst ` set ?es \<longleftrightarrow> k \<in> fst ` set es \<or> k \<in> fst ` set xs"
    using arg_cong [OF snoc.IH [of es], of set] by auto
  then show ?case using snoc.IH [of es] by (auto simp: x update_keys)
qed simp

lemma fold_update_values:
  "map_of (fold (\<lambda>(k, v). AList.update k v) xs es) = map_of es ++ map_of (rev xs)"
  by (induction xs arbitrary: es) (auto simp: update_conv' map_add_def fun_eq_iff split: option.splits)

text \<open>
  Building a map from a sequence of pairs never panics, keeps the first position
  of each key and the last value written to it.
\<close>

theorem from_iter_order:
  "\<exists>m. IndexMap_from_iter kh xs = Some m \<and> wf_map kh m
     \<and> map fst (entries m) = rev (remdups (rev (map fst xs)))
     \<and> map_of (entries m) = map_of (rev xs)"
proof -
  have "wf_map kh IndexMap_new" by (rule im.empty_items)
  from from_iter_entries [OF this, of xs] show ?thesis
    using fold_update_keys [of xs "[]"] fold_update_values [of xs "[]"]
    by (auto simp: IndexMap_from_iter_def IndexMap_new_def)
qed

definition set_elems :: "'k IndexSet \<Rightarrow> 'k list" where
  "set_elems s = map fst (entries (set_map s))"

lemma alist_unit_keys: "map fst (AList.update x () es) = (if x \<in> fst ` set es then map fst es else map fst es @ [x])"
  by (simp add: update_keys)

text \<open>
  The ordered set. \<open>insert\<close> reports whether the element is new and appends it
  then; \<open>shift_remove\<close> reports whether it was there and keeps the order of the others;
  \<open>contains\<close> decides membership. None of them panics.
\<close>

theorem indexset_behaviour:
  assumes "wf_map kh (set_map s)"
  shows "(\<exists>s'. IndexSet_insert kh s x = Some (x \<notin> set (set_elems s), s') \<and> wf_map kh (set_map s')
            \<and> set_elems s' = (if x \<in> set (set_elems s) then set_elems s else set_elems s @ [x]))
       \<and> (\<exists>s'. IndexSet_shift_remove kh s x = Some (x \<in> set (set_elems s), s') \<and> wf_map kh (set_map s')
            \<and> set_elems s' = removeAll x (set_elems s))
       \<and> IndexSet_contains kh s x = Some (x \<in> set (set_elems s))"
proof -
  have mem: "map_of (entries (set_map s)) x = (if x \<in> fst ` set (entries (set_map s)) then Some () else None)"
    using map_of_eq_None_iff [of "entries (set_map s)" x] by (cases "map_of (entries (set_map s)) x") auto
  show ?thesis
    using insert_refines [OF assms, of x "()"] remove_refines [OF assms, of x] contains_refines [OF assms, of x]
    unfolding mem
    by (fastforce simp: IndexSet_insert_def IndexSet_shift_remove_def IndexSet_contains_def set_elems_def
        alist_unit_keys delete_keys)
qed

theorem indexset_behaviour_witness:
  "\<exists>s'. IndexSet_insert (\<lambda>_. 0) (IndexSet_new :: nat IndexSet) 4 = Some (True, s') \<and> set_elems s' = [4]"
proof -
  have "wf_map (\<lambda>_. 0) (set_map (IndexSet_new :: nat IndexSet))"
    by (simp add: IndexSet_new_def im.empty_items)
  from indexset_behaviour [OF this, of 4] show ?thesis
    by (auto simp: set_elems_def IndexSet_new_def IndexMap_new_def)
qed

end
