(* ===== verification/Semver.thy ===== *)
theory Semver
  imports Rust_Str "HOL-Library.List_Lexorder" "HOL-Library.Char_ord"
begin

text \<open>
  Versions and version ranges of the package manager, \<open>crates/rusty-js-pm/src/semver.rs\<close>: the
  parser of versions, the precedence order, the range grammar (comparators, caret, tilde,
  hyphen ranges, wildcards, alternatives) desugared to comparator sets, satisfaction with the
  prerelease rule, the canonical texts and the choice of the best available version.

  Version components are \<open>u64\<close> and stay words; where the source uses \<open>checked_add\<close> the model
  has its error. \<open>Version\<close> is a datatype with the fields of the struct as selectors, so that the
  precedence order can be an instance of \<open>linorder\<close>, as it is an instance of \<open>Ord\<close> in the
  source. \<open>SemverPanic\<close> stands for the one \<open>unreachable!\<close>; \<open>Semver_Props\<close> shows it is never
  returned. Strings compare bytewise, as \<open>str::cmp\<close> does.
\<close>

section \<open>Orderings\<close>

datatype Ordering = Less | Equal | Greater

definition ord_cmp :: "'a :: linorder \<Rightarrow> 'a \<Rightarrow> Ordering" where
  "ord_cmp a b = (if a < b then Less else if a = b then Equal else Greater)"

definition then_with :: "Ordering \<Rightarrow> Ordering \<Rightarrow> Ordering" where
  "then_with o1 o2 = (if o1 = Equal then o2 else o1)"

fun reverse :: "Ordering \<Rightarrow> Ordering" where
  "reverse Less = Greater"
| "reverse Equal = Equal"
| "reverse Greater = Less"

section \<open>Versions\<close>

datatype SemverError = Parse str | SemverPanic

datatype Identifier = Numeric u64 | AlphaNumeric str

datatype Version = Version (major: u64) (minor: u64) (patch: u64) (pre: "Identifier list")

definition Version_new :: "u64 \<Rightarrow> u64 \<Rightarrow> u64 \<Rightarrow> Version" where
  "Version_new a b c = Version a b c []"

fun cmp_ident :: "Identifier \<Rightarrow> Identifier \<Rightarrow> Ordering" where
  "cmp_ident (Numeric m) (Numeric n) = ord_cmp m n"
| "cmp_ident (Numeric _) (AlphaNumeric _) = Less"
| "cmp_ident (AlphaNumeric _) (Numeric _) = Greater"
| "cmp_ident (AlphaNumeric m) (AlphaNumeric n) = ord_cmp m n"

fun cmp_zip :: "(Identifier \<times> Identifier) list \<Rightarrow> Ordering \<Rightarrow> Ordering" where
  "cmp_zip [] rest = rest"
| "cmp_zip ((x, y) # xys) rest = (if cmp_ident x y \<noteq> Equal then cmp_ident x y else cmp_zip xys rest)"

definition cmp_pre :: "Identifier list \<Rightarrow> Identifier list \<Rightarrow> Ordering" where
  "cmp_pre a b =
     (case (a = [], b = []) of
        (True, True) \<Rightarrow> Equal
      | (True, False) \<Rightarrow> Greater
      | (False, True) \<Rightarrow> Less
      | (False, False) \<Rightarrow> cmp_zip (zip a b) (ord_cmp (length a) (length b)))"

definition cmp_precedence :: "Version \<Rightarrow> Version \<Rightarrow> Ordering" where
  "cmp_precedence v w =
     then_with
       (then_with (ord_cmp (major v) (major w))
          (then_with (ord_cmp (minor v) (minor w)) (ord_cmp (patch v) (patch w))))
       (cmp_pre (pre v) (pre w))"

definition is_prerelease :: "Version \<Rightarrow> bool" where
  "is_prerelease v \<longleftrightarrow> pre v \<noteq> []"

definition parse_num :: "str option \<Rightarrow> SemverError + u64" where
  "parse_num seg =
     rbind (ok_or (Parse ''missing version segment'') seg) (\<lambda>s.
       ok_or (Parse (''non-numeric version segment: '' @ s)) (parse_u64 s))"

definition checked_inc :: "u64 \<Rightarrow> str \<Rightarrow> SemverError + u64" where
  "checked_inc n ctx = ok_or (Parse (''version component overflow in '' @ ctx)) (checked_add_u64 n 1)"

definition parse_ident :: "str \<Rightarrow> SemverError + Identifier" where
  "parse_ident i =
     (if i = [] then Inl (Parse ''empty prerelease identifier'')
      else if list_all is_digit i then
        (if 1 < length i \<and> hd i = CHR ''0'' then Inl (Parse (''leading-zero numeric prerelease: '' @ i))
         else rbind (ok_or (Parse (''numeric prerelease overflow: '' @ i)) (parse_u64 i)) (\<lambda>n. Inr (Numeric n)))
      else Inr (AlphaNumeric i))"

definition parse_pre :: "str \<Rightarrow> SemverError + Identifier list" where
  "parse_pre p = rcollect parse_ident (split_char (CHR ''.'') p)"

text \<open>Elements of an iterator by \<open>next\<close>.\<close>

definition seg :: "'a list \<Rightarrow> nat \<Rightarrow> 'a option" where
  "seg xs i = (if i < length xs then Some (xs ! i) else None)"

definition cut :: "char \<Rightarrow> str \<Rightarrow> str \<times> str option" where
  "cut d s = (case split_once d s of Some (a, b) \<Rightarrow> (a, Some b) | None \<Rightarrow> (s, None))"

definition Version_parse :: "str \<Rightarrow> SemverError + Version" where
  "Version_parse s0 =
     (let s1 = trim s0;
          s2 = trim (unwrap_or s1
                 (case strip_prefix ''v'' s1 of Some r \<Rightarrow> Some r | None \<Rightarrow> strip_prefix ''='' s1));
          (s, _) = cut (CHR ''+'') s2;
          (core, pre_str) = cut (CHR ''-'') s;
          segs = split_char (CHR ''.'') core in
      rbind (parse_num (seg segs 0)) (\<lambda>ma.
      rbind (parse_num (seg segs 1)) (\<lambda>mi.
      rbind (parse_num (seg segs 2)) (\<lambda>pa.
        if seg segs 3 \<noteq> None then Inl (Parse (''too many version segments: '' @ s))
        else rbind (case pre_str of
                      None \<Rightarrow> Inr []
                    | Some p \<Rightarrow> if p = [] then Inl (Parse ''empty prerelease'') else parse_pre p)
               (\<lambda>pr. Inr (Version ma mi pa pr))))))"

section \<open>Comparators\<close>

datatype Op = Lt | Lte | Gt | Gte | Eq

datatype Comparator = Comparator (op: Op) (version: Version)

definition Comparator_matches :: "Comparator \<Rightarrow> Version \<Rightarrow> bool" where
  "Comparator_matches c v =
     (let o1 = cmp_precedence v (version c) in
      case op c of
        Lt \<Rightarrow> o1 = Less
      | Lte \<Rightarrow> o1 \<noteq> Greater
      | Gt \<Rightarrow> o1 = Greater
      | Gte \<Rightarrow> o1 \<noteq> Less
      | Eq \<Rightarrow> o1 = Equal)"

record ComparatorSet =
  comparators :: "Comparator list"

record Range =
  sets :: "ComparatorSet list"

record Partial =
  p_major :: "u64 option"
  p_minor :: "u64 option"
  p_patch :: "u64 option"

definition parse_xr :: "str option \<Rightarrow> SemverError + u64 option" where
  "parse_xr sg =
     (case sg of
        None \<Rightarrow> Inr None
      | Some s0 \<Rightarrow>
          (let s = trim s0 in
           if s = [] \<or> s = ''x'' \<or> s = ''X'' \<or> s = ''*'' then Inr None
           else rbind (ok_or (Parse (''bad version segment: '' @ s)) (parse_u64 s)) (\<lambda>n. Inr (Some n))))"

definition parse_partial :: "str \<Rightarrow> SemverError + Partial \<times> Identifier list" where
  "parse_partial s0 =
     (let s1 = trim s0;
          s2 = unwrap_or s1 (strip_prefix ''v'' s1);
          (s, _) = cut (CHR ''+'') s2;
          (core, pre_str) = cut (CHR ''-'') s;
          parts = split_char (CHR ''.'') core in
      rbind (parse_xr (seg parts 0)) (\<lambda>ma.
      rbind (parse_xr (seg parts 1)) (\<lambda>mi.
      rbind (parse_xr (seg parts 2)) (\<lambda>pa.
      rbind (case pre_str of
               None \<Rightarrow> Inr []
             | Some p \<Rightarrow> if p = [] then Inr [] else parse_pre p)
        (\<lambda>pr. Inr (\<lparr>p_major = ma, p_minor = mi, p_patch = pa\<rparr>, pr))))))"

section \<open>Desugaring\<close>

definition band :: "u64 \<Rightarrow> u64 \<Rightarrow> u64 \<Rightarrow> u64 \<Rightarrow> u64 \<Rightarrow> u64 \<Rightarrow> Comparator list" where
  "band lmaj lmin lpat hmaj hmin hpat =
     [Comparator Gte (Version_new lmaj lmin lpat), Comparator Lt (Version_new hmaj hmin hpat)]"

definition checked_band ::
  "u64 \<Rightarrow> u64 \<Rightarrow> u64 \<Rightarrow> u64 \<Rightarrow> u64 \<Rightarrow> u64 \<Rightarrow> SemverError + Comparator list" where
  "checked_band lmaj lmin lpat hmaj hmin hpat = Inr (band lmaj lmin lpat hmaj hmin hpat)"

definition caret :: "str \<Rightarrow> SemverError + Comparator list" where
  "caret rest =
     rbind (parse_partial rest) (\<lambda>(p, pr).
       let lo = Version (unwrap_or 0 (p_major p)) (unwrap_or 0 (p_minor p)) (unwrap_or 0 (p_patch p)) pr;
           bounds = (\<lambda>hi. Inr [Comparator Gte lo, Comparator Lt hi]) in
       case p_major p of
         None \<Rightarrow> Inr []
       | Some ma \<Rightarrow>
           if ma = 0 then
             (case p_minor p of
                None \<Rightarrow> bounds (Version_new 1 0 0)
              | Some mi \<Rightarrow>
                  if mi = 0 then
                    (case p_patch p of
                       Some _ \<Rightarrow> rbind (checked_inc (patch lo) ''caret patch'') (\<lambda>q. bounds (Version_new 0 0 q))
                     | None \<Rightarrow> bounds (Version_new 0 1 0))
                  else rbind (checked_inc mi ''caret minor'') (\<lambda>q. bounds (Version_new 0 q 0)))
           else rbind (checked_inc ma ''caret major'') (\<lambda>q. bounds (Version_new q 0 0)))"

definition tilde :: "str \<Rightarrow> SemverError + Comparator list" where
  "tilde rest =
     rbind (parse_partial rest) (\<lambda>(p, pr).
       case p_major p of
         None \<Rightarrow> Inr []
       | Some ma \<Rightarrow>
           (case p_minor p of
              None \<Rightarrow> rbind (checked_inc ma ''tilde major'') (\<lambda>q. checked_band ma 0 0 q 0 0)
            | Some mi \<Rightarrow>
                (case p_patch p of
                   Some pa \<Rightarrow> rbind (checked_inc mi ''tilde full minor'') (\<lambda>q.
                     Inr [Comparator Gte (Version ma mi pa pr), Comparator Lt (Version_new ma q 0)])
                 | None \<Rightarrow> rbind (checked_inc mi ''tilde minor'') (\<lambda>q. checked_band ma mi 0 ma q 0))))"

definition bare_partial :: "str \<Rightarrow> SemverError + Comparator list" where
  "bare_partial tok =
     rbind (parse_partial tok) (\<lambda>(p, pr).
       case p_major p of
         None \<Rightarrow> Inr []
       | Some ma \<Rightarrow>
           (case p_minor p of
              None \<Rightarrow> rbind (checked_inc ma ''bare major'') (\<lambda>q. checked_band ma 0 0 q 0 0)
            | Some mi \<Rightarrow>
                (case p_patch p of
                   Some pa \<Rightarrow> Inr [Comparator Eq (Version ma mi pa pr)]
                 | None \<Rightarrow> rbind (checked_inc mi ''bare minor'') (\<lambda>q. checked_band ma mi 0 ma q 0))))"

definition operator_partial :: "Op \<Rightarrow> str \<Rightarrow> SemverError + Comparator list" where
  "operator_partial o1 rest =
     rbind (parse_partial rest) (\<lambda>(p, pr).
       let x_maj = p_major p = None; x_min = p_minor p = None; x_pat = p_patch p = None;
           any_x = (x_maj \<or> x_min \<or> x_pat) in
       if o1 = Eq \<and> any_x then
         (case (p_major p, p_minor p) of
            (None, _) \<Rightarrow> Inr []
          | (Some ma, None) \<Rightarrow> rbind (checked_inc ma ''= major'') (\<lambda>q. checked_band ma 0 0 q 0 0)
          | (Some ma, Some mi) \<Rightarrow> rbind (checked_inc mi ''= minor'') (\<lambda>q. checked_band ma mi 0 ma q 0))
       else if x_maj then
         (case o1 of
            Gt \<Rightarrow> Inr [Comparator Lt (Version_new 0 0 0)]
          | Lt \<Rightarrow> Inr [Comparator Lt (Version_new 0 0 0)]
          | _ \<Rightarrow> Inr [])
       else
         (let ma = unwrap_or 0 (p_major p); mi = unwrap_or 0 (p_minor p); pa = unwrap_or 0 (p_patch p) in
          if \<not> any_x then Inr [Comparator o1 (Version ma mi pa pr)]
          else
            (case o1 of
               Gt \<Rightarrow>
                 if x_min then rbind (checked_inc ma ''> major wildcard'') (\<lambda>q. Inr [Comparator Gte (Version_new q 0 0)])
                 else rbind (checked_inc mi ''> minor wildcard'') (\<lambda>q. Inr [Comparator Gte (Version_new ma q 0)])
             | Lte \<Rightarrow>
                 if x_min then rbind (checked_inc ma ''<= major wildcard'') (\<lambda>q. Inr [Comparator Lt (Version_new q 0 0)])
                 else rbind (checked_inc mi ''<= minor wildcard'') (\<lambda>q. Inr [Comparator Lt (Version_new ma q 0)])
             | Gte \<Rightarrow> Inr [Comparator Gte (Version_new ma mi 0)]
             | Lt \<Rightarrow> Inr [Comparator Lt (Version_new ma mi 0)]
             | Eq \<Rightarrow> Inl SemverPanic)))"

fun try_ops :: "(str \<times> Op) list \<Rightarrow> str \<Rightarrow> SemverError + Comparator list" where
  "try_ops [] tok = bare_partial tok"
| "try_ops ((px, o1) # ops) tok =
     (case strip_prefix px tok of Some rest \<Rightarrow> operator_partial o1 rest | None \<Rightarrow> try_ops ops tok)"

definition expand_comparator :: "str \<Rightarrow> SemverError + Comparator list" where
  "expand_comparator tok0 =
     (let tok = trim tok0 in
      if tok = [] \<or> tok = ''*'' \<or> tok = ''x'' \<or> tok = ''X'' then Inr []
      else
        (case strip_prefix ''^'' tok of
           Some rest \<Rightarrow> caret rest
         | None \<Rightarrow>
             (case strip_prefix ''~'' tok of
                Some rest \<Rightarrow> tilde rest
              | None \<Rightarrow>
                  try_ops [(''>='', Gte), (''<='', Lte), (''>'', Gt), (''<'', Lt), (''='', Eq)] tok)))"

definition hyphen_range :: "str \<Rightarrow> str \<Rightarrow> SemverError + ComparatorSet" where
  "hyphen_range lo hi =
     rbind (parse_partial lo) (\<lambda>(lp, lpre).
     rbind (parse_partial hi) (\<lambda>(hp, hpre).
       let low = Version (unwrap_or 0 (p_major lp)) (unwrap_or 0 (p_minor lp)) (unwrap_or 0 (p_patch lp)) lpre in
       case p_major hp of
         None \<Rightarrow> Inr \<lparr>comparators = [Comparator Gte low]\<rparr>
       | Some ma \<Rightarrow>
           rbind
             (case p_minor hp of
                None \<Rightarrow> rbind (checked_inc ma ''hyphen upper major'') (\<lambda>q. Inr (Comparator Lt (Version_new q 0 0)))
              | Some mi \<Rightarrow>
                  (case p_patch hp of
                     None \<Rightarrow> rbind (checked_inc mi ''hyphen upper minor'') (\<lambda>q. Inr (Comparator Lt (Version_new ma q 0)))
                   | Some pa \<Rightarrow> Inr (Comparator Lte (Version ma mi pa hpre))))
             (\<lambda>high. Inr \<lparr>comparators = [Comparator Gte low, high]\<rparr>)))"

section \<open>Ranges\<close>

definition is_op_char :: "char \<Rightarrow> bool" where
  "is_op_char c \<longleftrightarrow> c \<in> {CHR ''<'', CHR ''>'', CHR ''='', CHR ''~'', CHR 0x5E}"

lemma trim_with_length: "length (trim_with encs s) \<le> length s"
proof (induction encs s rule: trim_with.induct)
  case (1 encs s)
  show ?case
  proof (cases "strip_any encs s")
    case (Some r)
    then have "trim_with encs s = trim_with encs r" by (subst trim_with.simps) simp
    then show ?thesis using 1 [OF Some] strip_any_Some_length [OF Some] by simp
  qed (simp add: trim_with_stop)
qed

text \<open>\<open>glue_ops\<close> is the inner pair of loops of \<open>glue_operator_spaces\<close>, after an operator character.\<close>

function (sequential) glue_operator_spaces :: "str \<Rightarrow> str" and glue_ops :: "str \<Rightarrow> str" where
  "glue_operator_spaces [] = []"
| "glue_operator_spaces (c # cs) =
     (if is_op_char c then c # glue_ops cs else c # glue_operator_spaces cs)"
| "glue_ops [] = []"
| "glue_ops (c # cs) =
     (if is_op_char c then c # glue_ops cs else glue_operator_spaces (trim_start (c # cs)))"
  by pat_completeness auto
termination
proof (relation "measure (case_sum (\<lambda>s. 2 * length s) (\<lambda>s. 2 * length s + 1))", goal_cases)
  case (5 c cs)
  then show ?case using trim_with_length [of ws_encodings "c # cs"] by (simp add: trim_start_def)
qed auto

definition parse_comparator_set :: "str \<Rightarrow> SemverError + ComparatorSet" where
  "parse_comparator_set clause0 =
     (let clause = trim clause0 in
      if clause = [] \<or> clause = ''*'' then Inr \<lparr>comparators = []\<rparr>
      else
        (case find_str '' - '' clause of
           Some idx \<Rightarrow> hyphen_range (trim (take idx clause)) (trim (drop (idx + 3) clause))
         | None \<Rightarrow>
             rbind (rcollect expand_comparator (split_whitespace (glue_operator_spaces clause)))
               (\<lambda>css. Inr \<lparr>comparators = concat css\<rparr>)))"

definition Range_parse :: "str \<Rightarrow> SemverError + Range" where
  "Range_parse input =
     rbind (rcollect (\<lambda>clause. parse_comparator_set (trim clause)) (split_str ''||'' (trim input)))
       (\<lambda>ss. Inr \<lparr>sets = (if ss = [] then [\<lparr>comparators = []\<rparr>] else ss)\<rparr>)"

definition set_satisfies :: "ComparatorSet \<Rightarrow> Version \<Rightarrow> bool" where
  "set_satisfies cs v =
     (if \<not> list_all (\<lambda>c. Comparator_matches c v) (comparators cs) then False
      else if is_prerelease v then
        list_ex (\<lambda>c. pre (version c) \<noteq> [] \<and> major (version c) = major v
                   \<and> minor (version c) = minor v \<and> patch (version c) = patch v) (comparators cs)
      else True)"

definition Range_satisfies :: "Range \<Rightarrow> Version \<Rightarrow> bool" where
  "Range_satisfies r v = list_ex (\<lambda>cs. set_satisfies cs v) (sets r)"

section \<open>Canonical texts\<close>

fun Op_canonical_str :: "Op \<Rightarrow> str" where
  "Op_canonical_str Lt = ''<''"
| "Op_canonical_str Lte = ''<=''"
| "Op_canonical_str Gt = ''>''"
| "Op_canonical_str Gte = ''>=''"
| "Op_canonical_str Eq = ''=''"

fun ident_str :: "Identifier \<Rightarrow> str" where
  "ident_str (Numeric n) = show_nat (unat n)"
| "ident_str (AlphaNumeric a) = a"

definition version_canonical :: "Version \<Rightarrow> str" where
  "version_canonical v =
     show_nat (unat (major v)) @ ''.'' @ show_nat (unat (minor v)) @ ''.'' @ show_nat (unat (patch v))
     @ (if pre v \<noteq> [] then ''-'' @ join ''.'' (map ident_str (pre v)) else [])"

definition comparator_str :: "Comparator \<Rightarrow> str" where
  "comparator_str c = Op_canonical_str (op c) @ version_canonical (version c)"

definition ComparatorSet_canonical_string :: "ComparatorSet \<Rightarrow> str" where
  "ComparatorSet_canonical_string cs = join '' '' (remdups_adj (sort (map comparator_str (comparators cs))))"

definition Range_canonical_string :: "Range \<Rightarrow> str" where
  "Range_canonical_string r =
     join '' || '' (remdups_adj (sort (map ComparatorSet_canonical_string (sets r))))"

section \<open>Choosing a version\<close>

definition satisfies :: "str \<Rightarrow> str \<Rightarrow> SemverError + bool" where
  "satisfies rng ver =
     rbind (Range_parse rng) (\<lambda>r. rbind (Version_parse ver) (\<lambda>v. Inr (Range_satisfies r v)))"

text \<open>
  The loop that \<open>max_satisfying\<close> and \<open>max_satisfying_all\<close> share: unparsable entries are
  skipped, and an accepted entry replaces the best so far when it is strictly greater.
\<close>

fun best_loop :: "(Version \<Rightarrow> bool) \<Rightarrow> str list \<Rightarrow> (str \<times> Version) option \<Rightarrow> (str \<times> Version) option" where
  "best_loop accept [] best = best"
| "best_loop accept (s # rest) best =
     (case Version_parse s of
        Inl _ \<Rightarrow> best_loop accept rest best
      | Inr v \<Rightarrow>
          if accept v then
            best_loop accept rest
              (case best of
                 Some (bs, bv) \<Rightarrow> if cmp_precedence v bv \<noteq> Greater then best else Some (s, v)
               | None \<Rightarrow> Some (s, v))
          else best_loop accept rest best)"

definition max_satisfying :: "str \<Rightarrow> str list \<Rightarrow> str option" where
  "max_satisfying rng available =
     Option.bind (ok_opt (Range_parse rng)) (\<lambda>r.
       map_option fst (best_loop (Range_satisfies r) available None))"

definition max_satisfying_all :: "str list \<Rightarrow> str list \<Rightarrow> str option" where
  "max_satisfying_all ranges available =
     Option.bind (ok_opt (rcollect Range_parse ranges)) (\<lambda>parsed.
       map_option fst (best_loop (\<lambda>v. list_all (\<lambda>r. Range_satisfies r v) parsed) available None))"

fun most_loop ::
  "Range list \<Rightarrow> str list \<Rightarrow> (str \<times> nat \<times> Version) option \<Rightarrow> (str \<times> nat \<times> Version) option" where
  "most_loop parsed [] best = best"
| "most_loop parsed (s # rest) best =
     (case Version_parse s of
        Inl _ \<Rightarrow> most_loop parsed rest best
      | Inr v \<Rightarrow>
          (let count = length (filter (\<lambda>r. Range_satisfies r v) parsed) in
           if count = 0 then most_loop parsed rest best
           else
             (let better = (case best of
                    None \<Rightarrow> True
                  | Some (_, bc, bv) \<Rightarrow> bc < count \<or> count = bc \<and> cmp_precedence v bv = Greater) in
              most_loop parsed rest (if better then Some (s, count, v) else best))))"

definition version_satisfying_most :: "str list \<Rightarrow> str list \<Rightarrow> str option" where
  "version_satisfying_most ranges available =
     map_option fst (most_loop (List.map_filter (\<lambda>r. ok_opt (Range_parse r)) ranges) available None)"

definition is_exact_pin :: "str \<Rightarrow> bool" where
  "is_exact_pin spec =
     (let t = trim spec in
      if (t \<noteq> [] \<and> hd t \<in> {CHR 0x5E, CHR ''~'', CHR ''>'', CHR ''<'', CHR ''='', CHR ''v''})
         \<or> CHR ''*'' \<in> set t \<or> contains_str '' - '' t \<or> contains_str ''||'' t \<or> contains_ws t
      then False
      else (case parse_partial t of
              Inr (p, _) \<Rightarrow> p_major p \<noteq> None \<and> p_minor p \<noteq> None \<and> p_patch p \<noteq> None
            | Inl _ \<Rightarrow> False))"

end
