(* ===== verification/Semver_Order.thy ===== *)
theory Semver_Order
  imports Semver
begin

text \<open>
  The precedence order of versions. The locale \<open>total_cmp\<close> is the contract of Rust's \<open>Ord\<close>
  that sorting and searching for a maximum rely on: a three-way comparison that is equal only
  on equal values, antisymmetric and transitive. It is closed under pairs and injective views,
  which gives it for \<open>cmp_precedence\<close>; \<open>Version\<close> becomes a \<open>linorder\<close>.
\<close>

section \<open>Three-way comparisons\<close>

locale total_cmp =
  fixes cmp :: "'a \<Rightarrow> 'a \<Rightarrow> Ordering"
  assumes cmp_eq: "cmp a b = Equal \<longleftrightarrow> a = b"
    and cmp_sym: "cmp b a = reverse (cmp a b)"
    and cmp_trans: "cmp a b = Less \<Longrightarrow> cmp b c = Less \<Longrightarrow> cmp a c = Less"
begin

lemma cmp_refl [simp]: "cmp a a = Equal"
  by (simp add: cmp_eq)

lemma cmp_Greater: "cmp a b = Greater \<longleftrightarrow> cmp b a = Less"
  using cmp_sym [of b a] by (cases "cmp a b") auto

lemma cmp_asym: "cmp a b = Less \<Longrightarrow> cmp b a \<noteq> Less"
  using cmp_sym [of b a] by simp

lemma not_Greater: "cmp a b \<noteq> Greater \<longleftrightarrow> cmp a b = Less \<or> a = b"
  using cmp_eq [of a b] by (cases "cmp a b") auto

lemma le_trans: "cmp a b \<noteq> Greater \<Longrightarrow> cmp b c \<noteq> Greater \<Longrightarrow> cmp a c \<noteq> Greater"
  using cmp_trans [of a b c] by (auto simp: not_Greater)

lemma le_antisym: "cmp a b \<noteq> Greater \<Longrightarrow> cmp b a \<noteq> Greater \<Longrightarrow> a = b"
  using cmp_trans [of a b a] by (auto simp: not_Greater cmp_eq)

lemma le_total: "cmp a b \<noteq> Greater \<or> cmp b a \<noteq> Greater"
  using cmp_Greater [of a b] by auto

text \<open>The loop that keeps the best element so far ends with a maximum, the first one.\<close>

lemma keep_max:
  assumes "best = fold (\<lambda>x b. case b of None \<Rightarrow> Some x
                 | Some y \<Rightarrow> if cmp (f x) (f y) \<noteq> Greater then b else Some x) xs b0"
    and "b0 \<noteq> None \<or> xs \<noteq> []"
  shows "\<exists>m. best = Some m \<and> m \<in> set xs \<union> set_option b0
           \<and> (\<forall>y \<in> set xs \<union> set_option b0. cmp (f y) (f m) \<noteq> Greater)"
  using assms
proof (induction xs arbitrary: b0)
  case (Cons x xs)
  let ?b1 = "case b0 of None \<Rightarrow> Some x | Some y \<Rightarrow> if cmp (f x) (f y) \<noteq> Greater then b0 else Some x"
  have "?b1 \<noteq> None" by (cases b0) auto
  then obtain m where m: "best = Some m" "m \<in> set xs \<union> set_option ?b1"
    "\<forall>y \<in> set xs \<union> set_option ?b1. cmp (f y) (f m) \<noteq> Greater"
    using Cons.IH [of ?b1] Cons.prems(1) by auto
  obtain b where b: "?b1 = Some b" using \<open>?b1 \<noteq> None\<close> by blast
  have bs: "b \<in> {x} \<union> set_option b0" "\<forall>y \<in> {x} \<union> set_option b0. cmp (f y) (f b) \<noteq> Greater"
    using b by (auto split: option.splits if_splits simp: not_Greater cmp_Greater dest: cmp_asym)
  have "cmp (f y) (f m) \<noteq> Greater" if "y \<in> {x} \<union> set_option b0" for y
    using le_trans [of "f y" "f b" "f m"] bs(2) m(3) b that by auto
  then show ?case using m bs b by auto
qed (auto split: option.splits)

end

lemma total_cmp_inj:
  assumes "total_cmp f" "inj h"
  shows "total_cmp (\<lambda>a b. f (h a) (h b))"
proof
  fix a b c
  show "(f (h a) (h b) = Equal) = (a = b)"
    using total_cmp.cmp_eq [OF assms(1)] inj_eq [OF assms(2)] by metis
  show "f (h b) (h a) = reverse (f (h a) (h b))" by (rule total_cmp.cmp_sym [OF assms(1)])
  show "f (h a) (h b) = Less \<Longrightarrow> f (h b) (h c) = Less \<Longrightarrow> f (h a) (h c) = Less"
    by (rule total_cmp.cmp_trans [OF assms(1)])
qed

lemma total_cmp_pair:
  assumes "total_cmp f" "total_cmp g"
  shows "total_cmp (\<lambda>p q. then_with (f (fst p) (fst q)) (g (snd p) (snd q)))"
proof
  fix p q r :: "'a \<times> 'b"
  note f = total_cmp.cmp_eq [OF assms(1)] total_cmp.cmp_sym [OF assms(1)] total_cmp.cmp_trans [OF assms(1)]
  note g = total_cmp.cmp_eq [OF assms(2)] total_cmp.cmp_sym [OF assms(2)] total_cmp.cmp_trans [OF assms(2)]
  show "(then_with (f (fst p) (fst q)) (g (snd p) (snd q)) = Equal) = (p = q)"
    by (auto simp: then_with_def f(1) g(1) prod_eq_iff)
  show "then_with (f (fst q) (fst p)) (g (snd q) (snd p)) = reverse (then_with (f (fst p) (fst q)) (g (snd p) (snd q)))"
    using f(2) [of "fst q" "fst p"] g(2) [of "snd q" "snd p"] f(1)
    by (cases "f (fst p) (fst q)") (auto simp: then_with_def)
  assume "then_with (f (fst p) (fst q)) (g (snd p) (snd q)) = Less"
    and "then_with (f (fst q) (fst r)) (g (snd q) (snd r)) = Less"
  then show "then_with (f (fst p) (fst r)) (g (snd p) (snd r)) = Less"
    using f(3) [of "fst p" "fst q" "fst r"] g(3) [of "snd p" "snd q" "snd r"] f(1) total_cmp.cmp_asym [OF assms(1)]
    by (auto simp: then_with_def split: if_splits)
qed

interpretation ord: total_cmp ord_cmp
  by unfold_locales (auto simp: ord_cmp_def split: if_splits)

interpretation ident: total_cmp cmp_ident
proof
  show "(cmp_ident a b = Equal) = (a = b)" for a b
    by (cases a; cases b) (auto simp: ord.cmp_eq)
  show "cmp_ident b a = reverse (cmp_ident a b)" for a b
    by (cases a; cases b) (auto intro: ord.cmp_sym)
  show "cmp_ident a c = Less" if "cmp_ident a b = Less" "cmp_ident b c = Less" for a b c
    using that by (cases a; cases b; cases c) (auto intro: ord.cmp_trans)
qed

section \<open>Prerelease lists\<close>

definition cmp_list :: "Identifier list \<Rightarrow> Identifier list \<Rightarrow> Ordering" where
  "cmp_list a b = cmp_zip (zip a b) (ord_cmp (length a) (length b))"

lemma cmp_list_simps [simp]:
  "cmp_list [] [] = Equal" "cmp_list [] (y # ys) = Less" "cmp_list (x # xs) [] = Greater"
  "cmp_list (x # xs) (y # ys) = then_with (cmp_ident x y) (cmp_list xs ys)"
  by (auto simp: cmp_list_def ord_cmp_def then_with_def)

lemma cmp_list_eq: "cmp_list a b = Equal \<longleftrightarrow> a = b"
proof (induction a arbitrary: b)
  case (Cons x xs)
  then show ?case by (cases b) (auto simp: then_with_def ident.cmp_eq)
qed (case_tac b, auto)

interpretation prelist: total_cmp cmp_list
proof
  show "(cmp_list a b = Equal) = (a = b)" for a b by (rule cmp_list_eq)
  show "cmp_list b a = reverse (cmp_list a b)" for a b
  proof (induction a arbitrary: b)
    case (Cons x xs)
    then show ?case
    proof (cases b)
      case (Cons y ys)
      then show ?thesis using Cons.IH [of ys] ident.cmp_sym [of y x]
        by (cases "cmp_ident x y") (auto simp: then_with_def)
    qed simp
  qed (case_tac b, auto)
  show "cmp_list a c = Less" if "cmp_list a b = Less" "cmp_list b c = Less" for a b c
    using that
  proof (induction a arbitrary: b c)
    case Nil
    then show ?case by (cases b; cases c) auto
  next
    case (Cons x xs)
    then obtain y ys z zs where "b = y # ys" "c = z # zs" by (cases b; cases c) auto
    then show ?case using Cons ident.cmp_trans [of x y z] ident.cmp_eq
      by (auto simp: then_with_def split: if_splits)
  qed
qed

interpretation pre: total_cmp cmp_pre
proof
  have pre: "cmp_pre a b = (if a = [] then (if b = [] then Equal else Greater)
      else if b = [] then Less else cmp_list a b)" for a b
    by (simp add: cmp_pre_def cmp_list_def)
  show "(cmp_pre a b = Equal) = (a = b)" for a b
    by (auto simp: pre prelist.cmp_eq)
  show "cmp_pre b a = reverse (cmp_pre a b)" for a b
    by (auto simp: pre intro: prelist.cmp_sym)
  show "cmp_pre a c = Less" if "cmp_pre a b = Less" "cmp_pre b c = Less" for a b c
    using that by (auto simp: pre split: if_splits intro: prelist.cmp_trans)
qed

section \<open>Versions\<close>

definition version_key :: "Version \<Rightarrow> (u64 \<times> u64 \<times> u64) \<times> Identifier list" where
  "version_key v = ((major v, minor v, patch v), pre v)"

interpretation vers: total_cmp cmp_precedence
proof -
  note two = total_cmp_pair [OF ord.total_cmp_axioms ord.total_cmp_axioms]
  note three = total_cmp_pair [OF ord.total_cmp_axioms two]
  note all = total_cmp_pair [OF three pre.total_cmp_axioms]
  have "inj version_key" by (auto simp: inj_def version_key_def intro: Version.expand)
  from total_cmp_inj [OF all this] show "total_cmp cmp_precedence"
    by (simp add: version_key_def cmp_precedence_def [abs_def])
qed

text \<open>
  The trait methods \<open>PartialOrd::partial_cmp\<close> and \<open>Ord::cmp\<close> of \<open>Version\<close>; the
  comparison operators are the trait's default methods, which look at the result of
  \<open>partial_cmp\<close>.
\<close>
definition Version_partial_cmp :: "Version \<Rightarrow> Version \<Rightarrow> Ordering option" where
  "Version_partial_cmp v w = Some (cmp_precedence v w)"

definition Version_cmp :: "Version \<Rightarrow> Version \<Rightarrow> Ordering" where
  "Version_cmp v w = cmp_precedence v w"

lemma partial_cmp_le: "Version_partial_cmp v w \<in> {Some Less, Some Equal} \<longleftrightarrow> cmp_precedence v w \<noteq> Greater"
  by (cases "cmp_precedence v w") (simp_all add: Version_partial_cmp_def)

lemma partial_cmp_less: "Version_partial_cmp v w = Some Less \<longleftrightarrow> cmp_precedence v w = Less"
  by (simp add: Version_partial_cmp_def)

instantiation Version :: linorder
begin

definition less_eq_Version :: "Version \<Rightarrow> Version \<Rightarrow> bool" where
  "v \<le> w \<longleftrightarrow> Version_partial_cmp v w \<in> {Some Less, Some Equal}"

definition less_Version :: "Version \<Rightarrow> Version \<Rightarrow> bool" where
  "v < w \<longleftrightarrow> Version_partial_cmp v w = Some Less"

instance
proof
  fix a b c :: Version
  note le = less_eq_Version_def partial_cmp_le and less = less_Version_def partial_cmp_less
  show "(a < b) = (a \<le> b \<and> \<not> b \<le> a)"
    using vers.not_Greater [of a b] vers.cmp_Greater [of b a] unfolding le less by auto
  show "a \<le> a" unfolding le by simp
  show "a \<le> b \<Longrightarrow> b \<le> c \<Longrightarrow> a \<le> c" unfolding le using vers.le_trans by simp
  show "a \<le> b \<Longrightarrow> b \<le> a \<Longrightarrow> a = b" unfolding le using vers.le_antisym by simp
  show "a \<le> b \<or> b \<le> a" unfolding le using vers.le_total by simp
qed

end

lemma Version_le: "v \<le> w \<longleftrightarrow> cmp_precedence v w \<noteq> Greater" for v w :: Version
  unfolding less_eq_Version_def partial_cmp_le ..

lemma Version_less: "v < w \<longleftrightarrow> cmp_precedence v w = Less" for v w :: Version
  unfolding less_Version_def partial_cmp_less ..

lemma Version_cmp_order:
  "Version_cmp v w = Less \<longleftrightarrow> v < w" "Version_cmp v w = Equal \<longleftrightarrow> v = w" "Version_cmp v w = Greater \<longleftrightarrow> w < v"
  by (simp_all add: Version_cmp_def Version_less vers.cmp_eq vers.cmp_Greater)

lemma matches_order:
  "Comparator_matches (Comparator Lt w) v \<longleftrightarrow> v < w" "Comparator_matches (Comparator Lte w) v \<longleftrightarrow> v \<le> w"
  "Comparator_matches (Comparator Gt w) v \<longleftrightarrow> w < v" "Comparator_matches (Comparator Gte w) v \<longleftrightarrow> w \<le> v"
  "Comparator_matches (Comparator Eq w) v \<longleftrightarrow> v = w"
  using vers.cmp_Greater [of v w] vers.cmp_Greater [of w v]
  by (auto simp: Comparator_matches_def Version_le Version_less vers.cmp_eq)

lemma release_less:
  "pre v = [] \<Longrightarrow> v < Version_new a b c \<longleftrightarrow>
     major v < a \<or> major v = a \<and> (minor v < b \<or> minor v = b \<and> patch v < c)"
  by (auto simp: Version_less cmp_precedence_def Version_new_def then_with_def ord_cmp_def cmp_pre_def)

text \<open>
  Precedence is a total order on versions, consistent with equality, as the \<open>Ord\<close>
  and \<open>Eq\<close> instances together promise: equal precedence only of identical versions, the
  comparison of two versions one way determines it the other way, and it is transitive. A
  release is greater than all its prereleases.
\<close>

theorem version_precedence_total:
  "(cmp_precedence a b = Equal \<longleftrightarrow> a = b) \<and> cmp_precedence b a = reverse (cmp_precedence a b)
   \<and> (cmp_precedence a b \<noteq> Greater \<and> cmp_precedence b c \<noteq> Greater \<longrightarrow> cmp_precedence a c \<noteq> Greater)
   \<and> (p \<noteq> [] \<longrightarrow> cmp_precedence (Version x y z p) (Version_new x y z) = Less)"
  using vers.le_trans [of a b c] vers.cmp_eq [of a b] vers.cmp_sym [of b a]
  by (auto simp: cmp_precedence_def then_with_def ord_cmp_def cmp_pre_def Version_new_def)

theorem version_precedence_total_witness:
  "cmp_precedence (Version 1 0 0 [AlphaNumeric ''alpha'']) (Version 1 0 0 [AlphaNumeric ''beta'', Numeric 2]) \<noteq> Greater
   \<and> cmp_precedence (Version 1 0 0 [AlphaNumeric ''beta'', Numeric 2]) (Version_new 1 0 0) = Less
   \<and> cmp_precedence (Version 1 0 0 [AlphaNumeric ''alpha'']) (Version_new 1 0 0) \<noteq> Greater"
proof -
  let ?a = "Version 1 0 0 [AlphaNumeric ''alpha'']" and ?b = "Version 1 0 0 [AlphaNumeric ''beta'', Numeric 2]"
  have ab: "cmp_precedence ?a ?b \<noteq> Greater"
    by (simp add: cmp_precedence_def then_with_def ord_cmp_def cmp_pre_def less_char_def)
  show ?thesis
    using version_precedence_total [of ?a ?b "Version_new 1 0 0" "pre ?b" 1 0 0] ab by simp
qed

end
