(* ===== verification/Semver_Text.thy ===== *)
theory Semver_Text
  imports Semver_Order
begin

text \<open>
  The texts of versions and ranges: a canonical version text is read back by the version
  parser and by the partial-version parser, and the range parser turns an operator followed
  by such a text into one comparator set. The lemmas on strings without white space carry
  the properties in \<open>Semver_Props\<close>.
\<close>

section \<open>Well-formed versions\<close>

text \<open>The identifiers of the SemVer grammar: letters, digits and hyphens.\<close>

definition is_ident_char :: "char \<Rightarrow> bool" where
  "is_ident_char c \<longleftrightarrow>
     is_digit c \<or> c = CHR ''-''
     \<or> 65 \<le> (of_char c :: nat) \<and> (of_char c :: nat) \<le> 90
     \<or> 97 \<le> (of_char c :: nat) \<and> (of_char c :: nat) \<le> 122"

fun wf_ident :: "Identifier \<Rightarrow> bool" where
  "wf_ident (Numeric n) = True"
| "wf_ident (AlphaNumeric a) = (a \<noteq> [] \<and> \<not> list_all is_digit a \<and> list_all is_ident_char a)"

definition wf_version :: "Version \<Rightarrow> bool" where
  "wf_version v \<longleftrightarrow> list_all wf_ident (pre v)"

definition text_char :: "char \<Rightarrow> bool" where
  "text_char c \<longleftrightarrow> is_ident_char c \<or> c = CHR ''.''"

lemma text_char_facts:
  assumes "text_char c"
  shows "is_graph c" "c \<noteq> CHR ''+''" "c \<noteq> CHR '' ''" "c \<noteq> CHR 0x7C" "\<not> is_op_char c" "c \<noteq> CHR ''*''"
  using assms by (auto simp: text_char_def is_ident_char_def is_graph_def is_digit_def is_op_char_def)

lemma ident_char_dot: "is_ident_char c \<Longrightarrow> c \<noteq> CHR ''.''"
  by (auto simp: is_ident_char_def is_digit_def)

lemma ident_str_chars: "wf_ident i \<Longrightarrow> c \<in> set (ident_str i) \<Longrightarrow> is_ident_char c"
  by (cases i) (auto simp: list_all_iff is_ident_char_def dest: show_nat_digits)

lemma set_join: "set (join sep xs) \<subseteq> set sep \<union> \<Union> (set ` set xs)"
  by (induction sep xs rule: join.induct) auto

definition core_str :: "Version \<Rightarrow> str" where
  "core_str v = join ''.'' (map (\<lambda>n. show_nat (unat n)) [major v, minor v, patch v])"

lemma version_canonical_core:
  "version_canonical v = core_str v @ (if pre v \<noteq> [] then ''-'' @ join ''.'' (map ident_str (pre v)) else [])"
  by (simp add: version_canonical_def core_str_def)

lemma core_chars: "c \<in> set (core_str v) \<Longrightarrow> is_digit c \<or> c = CHR ''.''"
  by (auto simp: core_str_def dest: show_nat_digits)

lemma canonical_chars: "wf_version v \<Longrightarrow> c \<in> set (version_canonical v) \<Longrightarrow> text_char c"
  using core_chars [of c v] set_join [of "''.''" "map ident_str (pre v)"] ident_str_chars
  by (fastforce simp: version_canonical_core text_char_def is_ident_char_def wf_version_def list_all_iff
      split: if_splits)

lemma canonical_hd: "\<exists>c cs. version_canonical v = c # cs \<and> is_digit c"
proof (cases "show_nat (unat (major v))")
  case (Cons c cs)
  then have "is_digit c" using show_nat_digits [of c "unat (major v)"] by simp
  then show ?thesis using Cons by (simp add: version_canonical_def)
qed simp

section \<open>Strings without white space\<close>

definition graphic :: "str \<Rightarrow> bool" where
  "graphic s \<longleftrightarrow> list_all is_graph s"

lemma graphic_simps [simp]:
  "graphic []" "graphic (c # s) \<longleftrightarrow> is_graph c \<and> graphic s" "graphic (s @ t) \<longleftrightarrow> graphic s \<and> graphic t"
  by (auto simp: graphic_def)

lemma trim_graphic: "graphic s \<Longrightarrow> trim s = s"
  by (cases "s = []") (auto simp: graphic_def list_all_iff intro: trim_graph)

lemma canonical_graphic: "wf_version v \<Longrightarrow> graphic (version_canonical v)"
  using canonical_chars text_char_facts(1) by (auto simp: graphic_def list_all_iff)

lemma split_ws_graphic: "graphic s \<Longrightarrow> cur \<noteq> [] \<or> s \<noteq> [] \<Longrightarrow> split_ws_acc cur s = [rev cur @ s]"
proof (induction s arbitrary: cur)
  case Nil
  then show ?case by (subst split_ws_acc.simps) (simp add: strip_ws_def)
next
  case (Cons c s)
  then show ?case by (subst split_ws_acc.simps) (simp add: strip_ws_graph)
qed

lemma split_whitespace_graphic: "graphic s \<Longrightarrow> s \<noteq> [] \<Longrightarrow> split_whitespace s = [s]"
  using split_ws_graphic [of s "[]"] by (simp add: split_whitespace_def)

lemma trim_start_graph: "is_graph c \<Longrightarrow> trim_start (c # cs) = c # cs"
  using strip_ws_graph [of c cs] by (simp add: trim_start_def strip_ws_def trim_with_stop)

lemma glue_graphic: "graphic s \<Longrightarrow> glue_operator_spaces s = s \<and> glue_ops s = s"
proof (induction s)
  case (Cons c s)
  then have "trim_start (c # s) = c # s" by (simp add: trim_start_graph)
  then show ?case using Cons by simp
qed simp

lemma find_str_notin: "p \<notin> set s \<Longrightarrow> p \<in> set pat \<Longrightarrow> find_str pat s = None"
proof (induction s)
  case (Cons c s)
  have "\<not> prefix pat (c # s)" using Cons.prems set_mono_prefix [of pat "c # s"] by auto
  then show ?case using Cons by simp
qed auto

lemma split_str_notin: "p \<notin> set s \<Longrightarrow> p \<in> set pat \<Longrightarrow> split_str pat s = [s]"
  by (subst split_str.simps) (auto simp: find_str_notin)

lemma graphic_no_space: "graphic s \<Longrightarrow> CHR '' '' \<notin> set s"
  by (auto simp: graphic_def list_all_iff is_graph_def)

section \<open>Reading canonical texts\<close>

lemma show_nat_hd: "1 < length (show_nat n) \<Longrightarrow> hd (show_nat n) \<noteq> CHR ''0''"
proof (induction n rule: show_nat.induct)
  case (1 n)
  have n: "\<not> n < 10" using 1(2) by (subst (asm) show_nat.simps) (auto split: if_splits)
  have hd: "hd (show_nat n) = hd (show_nat (n div 10))"
    using n by (subst show_nat.simps) simp
  show ?case
  proof (cases "n div 10 < 10")
    case True
    then have "show_nat (n div 10) = [digit_char (n div 10)]" by (subst show_nat.simps) simp
    moreover have "0 < n div 10" using n by simp
    then have "(of_char (digit_char (n div 10)) :: nat) \<noteq> of_char (CHR ''0'')" using True by simp
    ultimately show ?thesis using hd by auto
  next
    case False
    then have "1 < length (show_nat (n div 10))"
      by (subst show_nat.simps) (cases "show_nat (n div 10 div 10)", auto)
    then show ?thesis using 1(1) [OF n] hd by simp
  qed
qed

lemma parse_ident_str: "wf_ident i \<Longrightarrow> parse_ident (ident_str i) = Inr i"
proof (cases i)
  case (Numeric n)
  have "list_all is_digit (show_nat (unat n))" using show_nat_digits by (auto simp: list_all_iff)
  then show ?thesis using Numeric show_nat_hd [of "unat n"] by (simp add: parse_ident_def rust_str)
qed (simp add: parse_ident_def)

lemma parse_pre_str:
  assumes "list_all wf_ident is" "is \<noteq> []"
  shows "parse_pre (join ''.'' (map ident_str is)) = Inr is"
proof -
  have dot: "CHR ''.'' \<notin> set (ident_str i)" if "i \<in> set is" for i
    using ident_str_chars [of i "CHR ''.''"] ident_char_dot [of "CHR ''.''"] assms(1) that
    by (auto simp: list_all_iff)
  have "split_char (CHR ''.'') (join ''.'' (map ident_str is)) = map ident_str is"
    using assms dot by (intro split_char_join) auto
  moreover have "rcollect parse_ident (map ident_str is) = Inr is"
    using assms(1) by (induction "is") (auto simp: parse_ident_str)
  ultimately show ?thesis by (simp add: parse_pre_def)
qed

lemma join_ident_not_Nil: "list_all wf_ident is \<Longrightarrow> is \<noteq> [] \<Longrightarrow> join ''.'' (map ident_str is) \<noteq> []"
proof (cases "is")
  case (Cons i js)
  assume "list_all wf_ident is"
  with Cons have "ident_str i \<noteq> []" by (cases i) auto
  with Cons show ?thesis by (cases js) auto
qed simp

lemma split_core: "split_char (CHR ''.'') (core_str v) = map (\<lambda>n. show_nat (unat n)) [major v, minor v, patch v]"
  unfolding core_str_def
  by (rule split_char_join) (auto simp: is_digit_def dest: show_nat_digits)

lemma cut_canonical:
  assumes "wf_version v"
  shows "cut (CHR ''+'') (version_canonical v) = (version_canonical v, None)"
    and "cut (CHR ''-'') (version_canonical v) =
      (core_str v, if pre v \<noteq> [] then Some (join ''.'' (map ident_str (pre v))) else None)"
proof -
  have "CHR ''+'' \<notin> set (version_canonical v)"
    using canonical_chars [OF assms] text_char_facts(2) by blast
  then show "cut (CHR ''+'') (version_canonical v) = (version_canonical v, None)"
    by (simp add: cut_def rust_str)
  have "CHR ''-'' \<notin> set (core_str v)" using core_chars by (fastforce simp: is_digit_def)
  then show "cut (CHR ''-'') (version_canonical v) =
      (core_str v, if pre v \<noteq> [] then Some (join ''.'' (map ident_str (pre v))) else None)"
    by (auto simp: cut_def version_canonical_core rust_str)
qed

lemma canonical_no_prefix:
  "strip_prefix ''v'' (version_canonical v) = None" "strip_prefix ''='' (version_canonical v) = None"
  using canonical_hd [of v] by (auto simp: is_digit_def)

lemma version_parse_canonical:
  assumes "wf_version v"
  shows "Version_parse (version_canonical v) = Inr v"
proof -
  have pre: "(case (if pre v \<noteq> [] then Some (join ''.'' (map ident_str (pre v))) else None) of
       None \<Rightarrow> Inr [] | Some p \<Rightarrow> if p = [] then Inl (Parse ''empty prerelease'') else parse_pre p) = Inr (pre v)"
    using assms parse_pre_str [of "pre v"] join_ident_not_Nil [of "pre v"] by (auto simp: wf_version_def)
  show ?thesis
    unfolding Version_parse_def trim_graphic [OF canonical_graphic [OF assms]] canonical_no_prefix Let_def
      option.case unwrap_or.simps trim_graphic [OF canonical_graphic [OF assms]] cut_canonical [OF assms]
      prod.case split_core pre
    by (simp add: seg_def parse_num_def rust_str)
qed

lemma parse_xr_show: "parse_xr (Some (show_nat (unat n))) = Inr (Some n)"
proof -
  have dig: "list_all is_digit (show_nat (unat n))" using show_nat_digits by (auto simp: list_all_iff)
  then have "graphic (show_nat (unat n))" by (auto simp: graphic_def list_all_iff is_digit_graph)
  moreover have "show_nat (unat n) \<noteq> ''x''" "show_nat (unat n) \<noteq> ''X''" "show_nat (unat n) \<noteq> ''*''"
    using dig by (auto simp: is_digit_def)
  ultimately show ?thesis by (simp add: parse_xr_def trim_graphic rust_str)
qed

lemma parse_partial_canonical:
  assumes "wf_version v"
  shows "parse_partial (version_canonical v) =
     Inr (\<lparr>p_major = Some (major v), p_minor = Some (minor v), p_patch = Some (patch v)\<rparr>, pre v)"
proof -
  have pre: "(case (if pre v \<noteq> [] then Some (join ''.'' (map ident_str (pre v))) else None) of
       None \<Rightarrow> Inr [] | Some p \<Rightarrow> if p = [] then Inr [] else parse_pre p) = Inr (pre v)"
    using assms parse_pre_str [of "pre v"] join_ident_not_Nil [of "pre v"] by (auto simp: wf_version_def)
  show ?thesis
    unfolding parse_partial_def trim_graphic [OF canonical_graphic [OF assms]] canonical_no_prefix Let_def
      unwrap_or.simps cut_canonical [OF assms] prod.case split_core pre
    by (simp add: seg_def parse_xr_show)
qed

section \<open>Ranges of one comparator\<close>

lemma graphic_set_parse:
  assumes "graphic s" "s \<noteq> []" "s \<noteq> ''*''"
  shows "parse_comparator_set s = rbind (expand_comparator s) (\<lambda>cs. Inr \<lparr>comparators = cs\<rparr>)"
  using assms find_str_notin [OF graphic_no_space [OF assms(1)], of "'' - ''"] glue_graphic [of s]
  by (cases "expand_comparator s")
     (simp_all add: parse_comparator_set_def trim_graphic split_whitespace_graphic)

lemma graphic_range_parse:
  assumes "graphic s" "s \<noteq> []" "s \<noteq> ''*''" "CHR 0x7C \<notin> set s"
  shows "Range_parse s = rbind (expand_comparator s) (\<lambda>cs. Inr \<lparr>sets = [\<lparr>comparators = cs\<rparr>]\<rparr>)"
  using assms split_str_notin [OF assms(4), of "''||''"]
  by (cases "expand_comparator s") (simp_all add: Range_parse_def trim_graphic graphic_set_parse)

lemma range_operator:
  assumes "wf_version v" "graphic w" "CHR 0x7C \<notin> set w"
  shows "Range_parse (w @ version_canonical v) =
     rbind (expand_comparator (w @ version_canonical v)) (\<lambda>cs. Inr \<lparr>sets = [\<lparr>comparators = cs\<rparr>]\<rparr>)"
proof (rule graphic_range_parse)
  obtain c cs where c: "version_canonical v = c # cs" "is_digit c" using canonical_hd by blast
  then show "w @ version_canonical v \<noteq> ''*''" by (cases w) (auto simp: is_digit_def)
  show "w @ version_canonical v \<noteq> []" using c by simp
  show "CHR 0x7C \<notin> set (w @ version_canonical v)"
    using assms(3) canonical_chars [OF assms(1)] text_char_facts(4) by auto
qed (use assms canonical_graphic in simp)

end
