(* ===== verification/Semver_Props.thy ===== *)
theory Semver_Props
  imports Semver_Text
begin

text \<open>
  The properties of the version component: reading back canonical texts, the meaning of
  caret, tilde and hyphen ranges on releases with the overflow cases, the prerelease rule,
  exact pins, the canonical texts of comparator sets and the choice of the best version.
\<close>

section \<open>Reading back\<close>

text \<open>
  A canonical version text is read back. The text \<open>version_canonical\<close> writes for a
  version whose prerelease identifiers follow the SemVer grammar parses to that version.
\<close>

theorem version_text_roundtrip:
  assumes "wf_version v"
  shows "Version_parse (version_canonical v) = Inr v"
  using assms by (rule version_parse_canonical)

theorem version_text_roundtrip_witness:
  "Version_parse (version_canonical (Version 1 20 3 [AlphaNumeric ''rc'', Numeric 4]))
     = Inr (Version 1 20 3 [AlphaNumeric ''rc'', Numeric 4])"
  by (rule version_text_roundtrip) (simp add: wf_version_def is_digit_def is_ident_char_def)

section \<open>Bounds\<close>

lemma unat_max_u64: "unat (n :: u64) + 1 < 2 ^ 64 \<longleftrightarrow> n \<noteq> - 1"
proof -
  have "unat n < 2 ^ 64" using unsigned_less [of n] by simp
  moreover have "unat (- 1 :: u64) = 2 ^ 64 - 1" by (simp add: unsigned_minus_1_eq_mask mask_eq_exp_minus_1)
  then have "n = - 1 \<longleftrightarrow> unat n = 2 ^ 64 - 1" by (metis unsigned_word_eqI)
  ultimately show ?thesis by auto
qed

lemma checked_inc_eq:
  "checked_inc n ctx = (if n = - 1 then Inl (Parse (''version component overflow in '' @ ctx)) else Inr (n + 1))"
  using unat_max_u64 [of n] by (auto simp: checked_inc_def checked_add_u64_def)

lemma less_succ: "n \<noteq> - 1 \<Longrightarrow> (w :: u64) < n + 1 \<longleftrightarrow> w \<le> n"
proof -
  assume "n \<noteq> - 1"
  then have "unat (n + 1) = unat n + 1" using unat_max_u64 [of n] by (simp add: unat_word_ariths)
  then show "w < n + 1 \<longleftrightarrow> w \<le> n" by (simp add: word_less_nat_alt word_le_nat_alt less_Suc_eq_le)
qed

lemma version_le_core:
  "v \<le> w \<Longrightarrow> major v < major w \<or> major v = major w \<and> (minor v < minor w \<or> minor v = minor w \<and> patch v \<le> patch w)"
  by (auto simp: Version_le cmp_precedence_def then_with_def ord_cmp_def split: if_splits)

text \<open>A release lies in \<open>[v, bound)\<close>, for the three bounds the desugaring uses.\<close>

lemma below_next_major:
  "pre w = [] \<Longrightarrow> major v \<noteq> - 1 \<Longrightarrow>
   v \<le> w \<and> w < Version_new (major v + 1) 0 0 \<longleftrightarrow> v \<le> w \<and> major w = major v"
  using version_le_core [of v w] less_succ [of "major v" "major w"]
  by (auto simp: release_less word_not_simps)

lemma below_next_minor:
  "pre w = [] \<Longrightarrow> minor v \<noteq> - 1 \<Longrightarrow>
   v \<le> w \<and> w < Version_new (major v) (minor v + 1) 0 \<longleftrightarrow> v \<le> w \<and> major w = major v \<and> minor w = minor v"
  using version_le_core [of v w] less_succ [of "minor v" "minor w"]
  by (auto simp: release_less word_not_simps)

lemma below_next_patch:
  "pre w = [] \<Longrightarrow> patch v \<noteq> - 1 \<Longrightarrow>
   v \<le> w \<and> w < Version_new (major v) (minor v) (patch v + 1)
   \<longleftrightarrow> v \<le> w \<and> major w = major v \<and> minor w = minor v \<and> patch w = patch v"
  using version_le_core [of v w] less_succ [of "patch v" "patch w"]
  by (auto simp: release_less)

lemma satisfies_release:
  "pre w = [] \<Longrightarrow> Range_satisfies \<lparr>sets = [\<lparr>comparators = cs\<rparr>]\<rparr> w \<longleftrightarrow> (\<forall>c \<in> set cs. Comparator_matches c w)"
  by (auto simp: Range_satisfies_def set_satisfies_def is_prerelease_def list_all_iff)

section \<open>Caret, tilde and hyphen ranges\<close>

text \<open>The component a caret range increments, and the releases it is compatible with.\<close>

definition caret_component :: "Version \<Rightarrow> u64" where
  "caret_component v = (if major v \<noteq> 0 then major v else if minor v \<noteq> 0 then minor v else patch v)"

definition caret_compatible :: "Version \<Rightarrow> Version \<Rightarrow> bool" where
  "caret_compatible v w \<longleftrightarrow>
     (if major v \<noteq> 0 then major w = major v
      else if minor v \<noteq> 0 then major w = 0 \<and> minor w = minor v
      else major w = 0 \<and> minor w = 0 \<and> patch w = patch v)"

lemma expand_caret: "expand_comparator (''^'' @ version_canonical v) = caret (version_canonical v)"
  if "wf_version v"
proof -
  obtain c cs where c: "version_canonical v = c # cs" using canonical_hd by blast
  have "trim (''^'' @ version_canonical v) = ''^'' @ version_canonical v"
    using canonical_graphic [OF that] by (intro trim_graphic) (simp add: is_graph_def)
  then show ?thesis using c by (simp add: expand_comparator_def)
qed

definition caret_upper :: "Version \<Rightarrow> Version" where
  "caret_upper v =
     (if major v \<noteq> 0 then Version_new (major v + 1) 0 0
      else if minor v \<noteq> 0 then Version_new 0 (minor v + 1) 0
      else Version_new 0 0 (patch v + 1))"

lemma caret_canonical:
  assumes "wf_version v"
  shows "caret_component v = - 1 \<Longrightarrow> \<exists>e. caret (version_canonical v) = Inl e"
    and "caret_component v \<noteq> - 1 \<Longrightarrow>
      caret (version_canonical v) = Inr [Comparator Gte v, Comparator Lt (caret_upper v)]"
proof -
  have c: "caret (version_canonical v) =
    (if major v = 0 then
       (if minor v = 0
        then rbind (checked_inc (patch v) ''caret patch'') (\<lambda>q. Inr [Comparator Gte v, Comparator Lt (Version_new 0 0 q)])
        else rbind (checked_inc (minor v) ''caret minor'') (\<lambda>q. Inr [Comparator Gte v, Comparator Lt (Version_new 0 q 0)]))
     else rbind (checked_inc (major v) ''caret major'') (\<lambda>q. Inr [Comparator Gte v, Comparator Lt (Version_new q 0 0)]))"
    unfolding caret_def parse_partial_canonical [OF assms] by (cases v) (simp add: Let_def)
  show "caret_component v = - 1 \<Longrightarrow> \<exists>e. caret (version_canonical v) = Inl e"
    unfolding c by (simp add: caret_component_def checked_inc_eq split: if_splits)
  show "caret_component v \<noteq> - 1 \<Longrightarrow>
      caret (version_canonical v) = Inr [Comparator Gte v, Comparator Lt (caret_upper v)]"
    unfolding c by (simp add: caret_component_def caret_upper_def checked_inc_eq split: if_splits)
qed

lemma caret_bound:
  assumes "caret_component v \<noteq> - 1" "pre w = []"
  shows "v \<le> w \<and> w < caret_upper v \<longleftrightarrow> v \<le> w \<and> caret_compatible v w"
proof -
  consider "major v \<noteq> 0" | "major v = 0" "minor v \<noteq> 0" | "major v = 0" "minor v = 0" by blast
  then show ?thesis
  proof cases
    case 1
    then show ?thesis using assms below_next_major [of w v]
      by (simp add: caret_upper_def caret_compatible_def caret_component_def)
  next
    case 2
    then show ?thesis using assms below_next_minor [of w v]
      by (simp add: caret_upper_def caret_compatible_def caret_component_def)
  next
    case 3
    then show ?thesis using assms below_next_patch [of w v]
      by (simp add: caret_upper_def caret_compatible_def caret_component_def)
  qed
qed

text \<open>
  Caret ranges. The range \<open>^v\<close> is refused exactly when the component it has to
  increment is the largest \<open>u64\<close>; otherwise a release satisfies it if and only if it is at least
  \<open>v\<close> and agrees with \<open>v\<close> up to and including the leftmost non-zero component.
\<close>

theorem caret_range_meaning:
  assumes "wf_version v"
  shows "(caret_component v = - 1 \<longrightarrow> (\<exists>e. Range_parse (''^'' @ version_canonical v) = Inl e))
       \<and> (caret_component v \<noteq> - 1 \<longrightarrow>
            (\<exists>r. Range_parse (''^'' @ version_canonical v) = Inr r
               \<and> (\<forall>w. pre w = [] \<longrightarrow> Range_satisfies r w = (v \<le> w \<and> caret_compatible v w))))"
proof -
  have parse: "Range_parse (''^'' @ version_canonical v)
      = rbind (caret (version_canonical v)) (\<lambda>cs. Inr \<lparr>sets = [\<lparr>comparators = cs\<rparr>]\<rparr>)"
    using range_operator [OF assms, of "''^''"] expand_caret [OF assms] by (simp add: is_graph_def)
  show ?thesis
    unfolding parse using caret_canonical [OF assms] caret_bound [of v]
    by (auto simp: satisfies_release matches_order)
qed

theorem caret_range_meaning_witness:
  "\<exists>r. Range_parse (''^'' @ version_canonical (Version_new 1 2 3)) = Inr r
     \<and> Range_satisfies r (Version_new 1 9 0) \<and> \<not> Range_satisfies r (Version_new 2 0 0)"
proof -
  have "wf_version (Version_new 1 2 3)" by (simp add: wf_version_def Version_new_def)
  from caret_range_meaning [OF this] obtain r where
    r: "Range_parse (''^'' @ version_canonical (Version_new 1 2 3)) = Inr r"
    "\<forall>w. pre w = [] \<longrightarrow> Range_satisfies r w = (Version_new 1 2 3 \<le> w \<and> caret_compatible (Version_new 1 2 3) w)"
    by (auto simp: caret_component_def Version_new_def)
  have "Version_new 1 2 3 \<le> Version_new 1 9 0"
    by (simp add: Version_le cmp_precedence_def then_with_def ord_cmp_def Version_new_def)
  with r show ?thesis by (auto simp: caret_compatible_def Version_new_def)
qed

lemma expand_tilde: "expand_comparator (''~'' @ version_canonical v) = tilde (version_canonical v)"
  if "wf_version v"
proof -
  obtain c cs where c: "version_canonical v = c # cs" using canonical_hd by blast
  have "trim (''~'' @ version_canonical v) = ''~'' @ version_canonical v"
    using canonical_graphic [OF that] by (intro trim_graphic) (simp add: is_graph_def)
  then show ?thesis using c by (simp add: expand_comparator_def)
qed

text \<open>
  Tilde ranges. The range \<open>~v\<close> is refused exactly when the minor component is the
  largest \<open>u64\<close>; otherwise a release satisfies it if and only if it is at least \<open>v\<close> and has
  the major and minor components of \<open>v\<close>.
\<close>

theorem tilde_range_meaning:
  assumes "wf_version v"
  shows "(minor v = - 1 \<longrightarrow> (\<exists>e. Range_parse (''~'' @ version_canonical v) = Inl e))
       \<and> (minor v \<noteq> - 1 \<longrightarrow>
            (\<exists>r. Range_parse (''~'' @ version_canonical v) = Inr r
               \<and> (\<forall>w. pre w = [] \<longrightarrow> Range_satisfies r w = (v \<le> w \<and> major w = major v \<and> minor w = minor v))))"
proof -
  have parse: "Range_parse (''~'' @ version_canonical v)
      = rbind (tilde (version_canonical v)) (\<lambda>cs. Inr \<lparr>sets = [\<lparr>comparators = cs\<rparr>]\<rparr>)"
    using range_operator [OF assms, of "''~''"] expand_tilde [OF assms] by (simp add: is_graph_def)
  have "tilde (version_canonical v) = rbind (checked_inc (minor v) ''tilde full minor'')
      (\<lambda>q. Inr [Comparator Gte v, Comparator Lt (Version_new (major v) q 0)])"
    unfolding tilde_def parse_partial_canonical [OF assms] by (cases v) simp
  then show ?thesis
    unfolding parse using below_next_minor [where v = v]
    by (simp add: satisfies_release matches_order checked_inc_eq)
qed

theorem tilde_range_meaning_witness:
  "\<exists>r. Range_parse (''~'' @ version_canonical (Version_new 1 2 3)) = Inr r
     \<and> \<not> Range_satisfies r (Version_new 1 3 0)"
proof -
  have "wf_version (Version_new 1 2 3)" by (simp add: wf_version_def Version_new_def)
  from tilde_range_meaning [OF this] show ?thesis by (auto simp: Version_new_def)
qed

text \<open>The whole parser never reaches the \<open>unreachable!\<close> of \<open>operator_partial\<close>.\<close>

definition no_panic :: "SemverError + 'a \<Rightarrow> bool" where
  "no_panic r \<longleftrightarrow> r \<noteq> Inl SemverPanic"

lemma no_panic_Inr [simp]: "no_panic (Inr x)" "no_panic (Inl (Parse m))"
  by (simp_all add: no_panic_def)

lemma no_panic_ok_or [simp]: "no_panic (ok_or (Parse m) x)"
  by (cases x) simp_all

lemma no_panic_inc [simp]: "no_panic (checked_inc n c)"
  by (simp add: checked_inc_eq)

lemma no_panic_rbind: "no_panic r \<Longrightarrow> (\<And>x. r = Inr x \<Longrightarrow> no_panic (f x)) \<Longrightarrow> no_panic (rbind r f)"
  by (cases r) (auto simp: no_panic_def)

lemma no_panic_parse_xr [simp]: "no_panic (parse_xr sg)"
  by (cases sg) (auto simp: parse_xr_def Let_def intro!: no_panic_rbind)

lemma no_panic_rcollect: "(\<And>x. no_panic (f x)) \<Longrightarrow> no_panic (rcollect f xs)"
  by (induction xs) (auto intro!: no_panic_rbind)

lemma no_panic_parse_pre [simp]: "no_panic (parse_pre p)"
  unfolding parse_pre_def
  by (rule no_panic_rcollect) (auto simp: parse_ident_def intro!: no_panic_rbind)

lemma no_panic_parse_partial [simp]: "no_panic (parse_partial s)"
  unfolding parse_partial_def Let_def
  by (auto simp: case_prod_unfold split: option.splits intro!: no_panic_rbind)

lemma no_panic_expand: "no_panic (expand_comparator t)"
proof -
  have "no_panic (operator_partial o1 s)" for o1 s
    unfolding operator_partial_def Let_def
    by (rule no_panic_rbind) (auto simp: checked_band_def split: Op.splits option.splits intro!: no_panic_rbind)
  moreover have "no_panic (bare_partial s)" "no_panic (caret s)" "no_panic (tilde s)" for s
    unfolding bare_partial_def caret_def tilde_def Let_def
    by (auto simp: checked_band_def split: option.splits intro!: no_panic_rbind)
  ultimately show ?thesis by (auto simp: expand_comparator_def Let_def split: option.splits)
qed

lemma no_panic_hyphen: "no_panic (hyphen_range a b)"
  unfolding hyphen_range_def Let_def
  by (auto split: option.splits intro!: no_panic_rbind)

text \<open>
  No range text panics the parser: the \<open>unreachable!\<close> branch is unreachable.
\<close>

theorem range_parse_no_panic: "Range_parse s \<noteq> Inl SemverPanic"
proof -
  have "no_panic (parse_comparator_set t)" for t
    by (auto simp: parse_comparator_set_def Let_def no_panic_hyphen no_panic_expand split: option.splits
        intro!: no_panic_rbind no_panic_rcollect)
  then have "no_panic (Range_parse s)"
    unfolding Range_parse_def by (auto intro!: no_panic_rbind no_panic_rcollect)
  then show ?thesis by (simp add: no_panic_def)
qed

end
