(* ===== verification/Semver_Choice.thy ===== *)
theory Semver_Choice
  imports Semver_Props
begin

text \<open>
  Version selection and the canonical texts of comparator sets: hyphen ranges, the prerelease
  rule, exact pins, canonical texts as a key for comparator sets, and the choice of the best
  available version for one range, for several ranges and for most ranges.
\<close>

section \<open>Hyphen ranges\<close>

lemma find_str_at: "d \<notin> set a \<Longrightarrow> find_str (d # p) (a @ (d # p) @ b) = Some (length a)"
  by (induction a) auto

text \<open>
  Hyphen ranges. A release satisfies \<open>lo - hi\<close>, for two full versions, if and only
  if it lies between them, both included.
\<close>

theorem hyphen_range_meaning:
  assumes "wf_version lo" "wf_version hi"
  shows "\<exists>r. Range_parse (version_canonical lo @ '' - '' @ version_canonical hi) = Inr r
     \<and> (\<forall>w. pre w = [] \<longrightarrow> Range_satisfies r w = (lo \<le> w \<and> w \<le> hi))"
proof -
  let ?s = "version_canonical lo @ '' - '' @ version_canonical hi"
  have g: "graphic (version_canonical lo)" "graphic (version_canonical hi)"
    using assms canonical_graphic by auto
  obtain c cs where lo: "version_canonical lo = c # cs" using canonical_hd by blast
  obtain e es where hi: "version_canonical hi = e # es" using canonical_hd by blast
  have "last (version_canonical hi) \<in> set (version_canonical hi)" using hi by (intro last_in_set) simp
  then have "is_graph (last ?s)" using g(2) hi by (auto simp: graphic_def list_all_iff)
  then have tr: "trim ?s = ?s" using g(1) lo hi by (intro trim_graph) simp
  have "CHR 0x7C \<notin> set ?s"
    using assms canonical_chars text_char_facts(4) by auto
  then have split: "split_str ''||'' ?s = [?s]" by (intro split_str_notin) auto
  have fnd: "find_str '' - '' ?s = Some (length (version_canonical lo))"
    using find_str_at [OF graphic_no_space [OF g(1)], of "''- ''" "version_canonical hi"] by simp
  have "hyphen_range (version_canonical lo) (version_canonical hi)
      = Inr \<lparr>comparators = [Comparator Gte lo, Comparator Lte hi]\<rparr>"
    by (simp add: hyphen_range_def parse_partial_canonical assms)
  moreover have "take (length (version_canonical lo)) ?s = version_canonical lo"
    "drop (length (version_canonical lo) + 3) ?s = version_canonical hi" by simp_all
  moreover have "?s \<noteq> []" "?s \<noteq> ''*''" using lo by auto
  ultimately have "parse_comparator_set ?s = Inr \<lparr>comparators = [Comparator Gte lo, Comparator Lte hi]\<rparr>"
    unfolding parse_comparator_set_def Let_def tr fnd using g by (simp only: trim_graphic option.case if_False simp_thms)
  then have "Range_parse ?s = Inr \<lparr>sets = [\<lparr>comparators = [Comparator Gte lo, Comparator Lte hi]\<rparr>]\<rparr>"
    unfolding Range_parse_def tr split by (simp add: tr [simplified])
  then show ?thesis by (auto simp: satisfies_release matches_order)
qed

theorem hyphen_range_meaning_witness:
  "\<exists>r. Range_parse (version_canonical (Version_new 1 2 3) @ '' - '' @ version_canonical (Version_new 2 0 0)) = Inr r
     \<and> Range_satisfies r (Version_new 2 0 0)"
proof -
  have "wf_version (Version_new a b c)" for a b c by (simp add: wf_version_def Version_new_def)
  from hyphen_range_meaning [OF this this] show ?thesis
    by (fastforce simp: Version_new_def Version_le cmp_precedence_def then_with_def ord_cmp_def cmp_pre_def)
qed

section \<open>Prereleases\<close>

definition same_core :: "Version \<Rightarrow> Version \<Rightarrow> bool" where
  "same_core v w \<longleftrightarrow> major v = major w \<and> minor v = minor w \<and> patch v = patch w"

lemma core_less:
  "major w < a \<or> major w = a \<and> (minor w < b \<or> minor w = b \<and> patch w < c) \<Longrightarrow> w < Version_new a b c"
  by (auto simp: Version_less cmp_precedence_def Version_new_def then_with_def ord_cmp_def)

lemma caret_upper_above:
  assumes "caret_component v \<noteq> - 1" "same_core v w"
  shows "w < caret_upper v"
  using assms less_succ [of "major v" "major v"] less_succ [of "minor v" "minor v"] less_succ [of "patch v" "patch v"]
  by (auto simp: caret_upper_def same_core_def caret_component_def intro!: core_less split: if_splits)

lemma caret_range_parse:
  assumes "wf_version v" "caret_component v \<noteq> - 1"
  shows "Range_parse (''^'' @ version_canonical v)
      = Inr \<lparr>sets = [\<lparr>comparators = [Comparator Gte v, Comparator Lt (caret_upper v)]\<rparr>]\<rparr>"
  using range_operator [OF assms(1), of "''^''"] expand_caret [OF assms(1)] caret_canonical(2) [OF assms]
  by (simp add: is_graph_def)

text \<open>
  The prerelease rule. A prerelease satisfies a range only through a comparator set
  all of whose comparators admit it and one of which names a prerelease of the same
  major.minor.patch. So \<open>^v\<close> admits a prerelease if and only if \<open>v\<close> is itself a prerelease of
  that very triple and not later.
\<close>

theorem prerelease_rule:
  assumes "wf_version v" "caret_component v \<noteq> - 1" "pre w \<noteq> []"
  shows "(\<forall>r. Range_satisfies r w \<longrightarrow>
            (\<exists>cs \<in> set (sets r). (\<forall>c \<in> set (comparators cs). Comparator_matches c w)
               \<and> (\<exists>c \<in> set (comparators cs). pre (version c) \<noteq> [] \<and> same_core (version c) w)))
       \<and> (\<exists>r. Range_parse (''^'' @ version_canonical v) = Inr r
            \<and> Range_satisfies r w = (pre v \<noteq> [] \<and> same_core v w \<and> v \<le> w))"
proof
  show "\<forall>r. Range_satisfies r w \<longrightarrow>
            (\<exists>cs \<in> set (sets r). (\<forall>c \<in> set (comparators cs). Comparator_matches c w)
               \<and> (\<exists>c \<in> set (comparators cs). pre (version c) \<noteq> [] \<and> same_core (version c) w))"
    using assms(3)
    by (auto simp: Range_satisfies_def set_satisfies_def is_prerelease_def same_core_def list_ex_iff
        list_all_iff split: if_splits)
  note parse = caret_range_parse [OF assms(1,2)]
  have "pre (caret_upper v) = []" by (simp add: caret_upper_def Version_new_def)
  then show "\<exists>r. Range_parse (''^'' @ version_canonical v) = Inr r
            \<and> Range_satisfies r w = (pre v \<noteq> [] \<and> same_core v w \<and> v \<le> w)"
    unfolding parse using assms(3) caret_upper_above [OF assms(2), of w]
    by (auto simp: Range_satisfies_def set_satisfies_def is_prerelease_def matches_order same_core_def)
qed

theorem prerelease_rule_witness:
  "\<exists>r. Range_parse (''^'' @ version_canonical (Version_new 1 2 3)) = Inr r
     \<and> \<not> Range_satisfies r (Version 1 5 0 [AlphaNumeric ''rc''])"
proof -
  have "wf_version (Version_new 1 2 3)" "caret_component (Version_new 1 2 3) \<noteq> - 1"
    by (simp_all add: wf_version_def Version_new_def caret_component_def)
  from prerelease_rule [OF this, of "Version 1 5 0 [AlphaNumeric ''rc'']"] show ?thesis
    by (auto simp: Version_new_def)
qed

section \<open>Choosing the best version\<close>

definition accepted :: "(Version \<Rightarrow> bool) \<Rightarrow> str list \<Rightarrow> (str \<times> Version) list" where
  "accepted accept xs = List.map_filter (\<lambda>s. case Version_parse s of
     Inl _ \<Rightarrow> None | Inr v \<Rightarrow> if accept v then Some (s, v) else None) xs"

lemma accepted_iff: "(s, v) \<in> set (accepted accept xs) \<longleftrightarrow> s \<in> set xs \<and> Version_parse s = Inr v \<and> accept v"
  by (induction xs) (auto simp: accepted_def List.map_filter_simps split: sum.splits if_splits)

lemma best_loop_fold:
  "best_loop accept xs b = fold (\<lambda>x b. case b of None \<Rightarrow> Some x
      | Some y \<Rightarrow> if cmp_precedence (snd x) (snd y) \<noteq> Greater then b else Some x) (accepted accept xs) b"
  by (induction accept xs b rule: best_loop.induct)
     (auto simp: accepted_def List.map_filter_simps split: sum.splits option.splits)

definition best_choice :: "(Version \<Rightarrow> bool) \<Rightarrow> str list \<Rightarrow> str option \<Rightarrow> bool" where
  "best_choice accept available res \<longleftrightarrow>
     (case res of
        None \<Rightarrow> \<forall>s \<in> set available. \<forall>v. Version_parse s = Inr v \<longrightarrow> \<not> accept v
      | Some s \<Rightarrow> s \<in> set available \<and> (\<exists>v. Version_parse s = Inr v \<and> accept v
          \<and> (\<forall>s' \<in> set available. \<forall>w. Version_parse s' = Inr w \<and> accept w \<longrightarrow> w \<le> v)))"

lemma best_loop_choice: "best_choice accept xs (map_option fst (best_loop accept xs None))"
proof (cases "accepted accept xs = []")
  case True
  then have "best_loop accept xs None = None" by (simp add: best_loop_fold)
  moreover have "\<not> accept v" if "s \<in> set xs" "Version_parse s = Inr v" for s v
    using accepted_iff [of s v accept xs] True that by simp
  ultimately show ?thesis by (simp add: best_choice_def)
next
  case False
  from vers.keep_max [OF best_loop_fold [of accept xs None]] False
  obtain m where m: "best_loop accept xs None = Some m" "m \<in> set (accepted accept xs)"
    "\<forall>y \<in> set (accepted accept xs). cmp_precedence (snd y) (snd m) \<noteq> Greater" by auto
  obtain s v where sv: "m = (s, v)" by (cases m)
  have "w \<le> v" if "s' \<in> set xs" "Version_parse s' = Inr w" "accept w" for s' w
    using m(3) accepted_iff [of s' w accept xs] that sv by (auto simp: Version_le)
  then show ?thesis
    using m(1,2) sv accepted_iff [of s v accept xs] by (auto simp: best_choice_def)
qed

text \<open>
  Property C37: \<open>max_satisfying\<close> and \<open>max_satisfying_all\<close> choose the best. An unparsable range gives
  no version; otherwise the answer is an available version that parses, satisfies the range (all
  the ranges) and is not below any other such version, and there is no answer only when no
  available version qualifies.
\<close>

theorem max_satisfying_best:
  "(case Range_parse rng of
      Inl e \<Rightarrow> max_satisfying rng available = None
    | Inr r \<Rightarrow> best_choice (Range_satisfies r) available (max_satisfying rng available))
   \<and> (case rcollect Range_parse rngs of
      Inl e \<Rightarrow> max_satisfying_all rngs available = None
    | Inr rs \<Rightarrow> best_choice (\<lambda>v. \<forall>r \<in> set rs. Range_satisfies r v) available (max_satisfying_all rngs available))"
  using best_loop_choice
  by (auto simp: max_satisfying_def max_satisfying_all_def list_all_iff split: sum.splits)

lemma wf_new: "wf_version (Version_new a b c)"
  by (simp add: wf_version_def Version_new_def)

theorem max_satisfying_best_witness:
  "\<exists>r. Range_parse (''^'' @ version_canonical (Version_new 1 2 3)) = Inr r
     \<and> best_choice (Range_satisfies r)
          (map version_canonical [Version_new 1 2 3, Version_new 1 9 0, Version_new 2 0 0])
          (Some (version_canonical (Version_new 1 9 0)))"
proof -
  let ?av = "map version_canonical [Version_new 1 2 3, Version_new 1 9 0, Version_new 2 0 0]"
  let ?r = "''^'' @ version_canonical (Version_new 1 2 3)"
  have comp: "caret_component (Version_new 1 2 3) \<noteq> - 1" by (simp add: caret_component_def Version_new_def)
  note parse = caret_range_parse [OF wf_new comp]
  let ?R = "\<lparr>sets = [\<lparr>comparators = [Comparator Gte (Version_new 1 2 3), Comparator Lt (caret_upper (Version_new 1 2 3))]\<rparr>]\<rparr>"
  have up: "caret_upper (Version_new 1 2 3) = Version_new 2 0 0" by (simp add: caret_upper_def Version_new_def)
  have sat: "Range_satisfies ?R (Version_new 1 2 3)" "Range_satisfies ?R (Version_new 1 9 0)"
    "\<not> Range_satisfies ?R (Version_new 2 0 0)"
    unfolding up
    by (simp_all add: satisfies_release Version_new_def matches_order Version_le Version_less
        cmp_precedence_def then_with_def ord_cmp_def cmp_pre_def)
  have gr: "cmp_precedence (Version_new 1 9 0) (Version_new 1 2 3) = Greater"
    by (simp add: Version_new_def cmp_precedence_def then_with_def ord_cmp_def)
  have "max_satisfying ?r ?av = Some (version_canonical (Version_new 1 9 0))"
    unfolding max_satisfying_def parse list.map
    by (simp only: version_parse_canonical [OF wf_new] best_loop.simps sum.case sat gr ok_opt.simps bind.simps
        option.case prod.case option.map if_True if_False simp_thms fst_conv)
  then show ?thesis using max_satisfying_best [of ?r ?av "[]"] parse by simp
qed

end
