(* ===== verification/Semver_Canon.thy ===== *)
theory Semver_Canon
  imports Semver_Choice
begin

text \<open>
  The remaining selection function, \<open>version_satisfying_most\<close>, exact pins, and the canonical
  text of a comparator set as a key for the set.
\<close>

section \<open>Satisfying most ranges\<close>

interpretation counted: total_cmp
  "\<lambda>p q. then_with (ord_cmp (fst p) (fst q)) (cmp_precedence (snd p) (snd q))"
  by (rule total_cmp_pair [OF ord.total_cmp_axioms vers.total_cmp_axioms])

definition range_count :: "Range list \<Rightarrow> Version \<Rightarrow> nat" where
  "range_count parsed v = length (filter (\<lambda>r. Range_satisfies r v) parsed)"

definition counted_items :: "Range list \<Rightarrow> str list \<Rightarrow> (str \<times> nat \<times> Version) list" where
  "counted_items parsed xs = map (\<lambda>(s, v). (s, range_count parsed v, v)) (accepted (\<lambda>v. range_count parsed v \<noteq> 0) xs)"

lemma most_loop_fold:
  "most_loop parsed xs b = fold (\<lambda>x b. case b of None \<Rightarrow> Some x
      | Some y \<Rightarrow> if then_with (ord_cmp (fst (snd x)) (fst (snd y))) (cmp_precedence (snd (snd x)) (snd (snd y))) \<noteq> Greater
                  then b else Some x) (counted_items parsed xs) b"
proof (induction xs arbitrary: b)
  case (Cons s rest best)
  have better: "(bc < c \<or> c = bc \<and> o1 = Greater) \<longleftrightarrow> then_with (ord_cmp c bc) o1 = Greater" for c bc :: nat and o1
    by (auto simp: then_with_def ord_cmp_def)
  show ?case
  proof (cases "Version_parse s")
    case (Inl e)
    then show ?thesis using Cons by (simp add: counted_items_def accepted_def List.map_filter_simps)
  next
    case (Inr v)
    then show ?thesis
    proof (cases "range_count parsed v = 0")
      case True
      then show ?thesis using Cons Inr
        by (simp add: counted_items_def accepted_def List.map_filter_simps range_count_def)
    next
      case False
      let ?b = "if (case best of None \<Rightarrow> True | Some (_, bc, bv) \<Rightarrow>
          bc < range_count parsed v \<or> range_count parsed v = bc \<and> cmp_precedence v bv = Greater)
          then Some (s, range_count parsed v, v) else best"
      have "most_loop parsed (s # rest) best = most_loop parsed rest ?b"
        unfolding range_count_def using Inr False [unfolded range_count_def] by (simp add: Let_def)
      moreover have "most_loop parsed rest ?b = fold (\<lambda>x b. case b of None \<Rightarrow> Some x
          | Some y \<Rightarrow> if then_with (ord_cmp (fst (snd x)) (fst (snd y))) (cmp_precedence (snd (snd x)) (snd (snd y))) \<noteq> Greater
                      then b else Some x) (counted_items parsed rest) ?b"
        by (rule Cons.IH)
      moreover have "counted_items parsed (s # rest) = (s, range_count parsed v, v) # counted_items parsed rest"
        using Inr False by (simp add: counted_items_def accepted_def List.map_filter_simps)
      ultimately show ?thesis
        by (cases best) (auto simp: better)
    qed
  qed
qed (simp add: counted_items_def accepted_def List.map_filter_simps)

definition most_choice :: "Range list \<Rightarrow> str list \<Rightarrow> str option \<Rightarrow> bool" where
  "most_choice parsed available res \<longleftrightarrow>
     (case res of
        None \<Rightarrow> \<forall>s \<in> set available. \<forall>v. Version_parse s = Inr v \<longrightarrow> range_count parsed v = 0
      | Some s \<Rightarrow> s \<in> set available \<and> (\<exists>v. Version_parse s = Inr v \<and> 0 < range_count parsed v
          \<and> (\<forall>s' \<in> set available. \<forall>w. Version_parse s' = Inr w \<longrightarrow>
                range_count parsed w < range_count parsed v
                \<or> range_count parsed w = range_count parsed v \<and> w \<le> v)))"

lemma counted_iff:
  "(s, c, v) \<in> set (counted_items parsed xs) \<longleftrightarrow>
     s \<in> set xs \<and> Version_parse s = Inr v \<and> c = range_count parsed v \<and> c \<noteq> 0"
  unfolding counted_items_def using accepted_iff [of s v "\<lambda>v. range_count parsed v \<noteq> 0" xs] by force

text \<open>
  \<open>version_satisfying_most\<close> maximises. Ranges that do not parse are left out; the
  answer is an available version that satisfies at least one range, as many of them as any other
  available version does, and is the greatest among those that satisfy as many; there is no
  answer only when no available version satisfies any range.
\<close>

theorem satisfying_most_best:
  "most_choice (List.map_filter (\<lambda>r. ok_opt (Range_parse r)) rngs) available (version_satisfying_most rngs available)"
proof -
  let ?p = "List.map_filter (\<lambda>r. ok_opt (Range_parse r)) rngs"
  let ?items = "counted_items ?p available"
  show ?thesis
  proof (cases "?items = []")
    case True
    then have "most_loop ?p available None = None" by (simp add: most_loop_fold)
    moreover have "range_count ?p v = 0" if "s \<in> set available" "Version_parse s = Inr v" for s v
      using counted_iff [of s "range_count ?p v" v ?p available] True that by simp
    ultimately show ?thesis by (simp add: most_choice_def version_satisfying_most_def)
  next
    case False
    from counted.keep_max [OF most_loop_fold [of ?p available None]] False
    obtain m where m: "most_loop ?p available None = Some m" "m \<in> set ?items"
      "\<forall>y \<in> set ?items. then_with (ord_cmp (fst (snd y)) (fst (snd m))) (cmp_precedence (snd (snd y)) (snd (snd m))) \<noteq> Greater"
      by auto
    obtain s c v where sv: "m = (s, c, v)" by (cases m)
    have c: "s \<in> set available" "Version_parse s = Inr v" "c = range_count ?p v" "c \<noteq> 0"
      using m(2) sv counted_iff by auto
    have "range_count ?p w < c \<or> range_count ?p w = c \<and> w \<le> v"
      if "s' \<in> set available" "Version_parse s' = Inr w" for s' w
    proof (cases "range_count ?p w = 0")
      case False
      then have "(s', range_count ?p w, w) \<in> set ?items" using that counted_iff by auto
      then have "then_with (ord_cmp (range_count ?p w) c) (cmp_precedence w v) \<noteq> Greater"
        using m(3) sv by fastforce
      then show ?thesis by (auto simp: then_with_def ord_cmp_def Version_le split: if_splits)
    qed (use c in simp)
    then show ?thesis using m(1) sv c by (auto simp: most_choice_def version_satisfying_most_def)
  qed
qed

section \<open>Exact pins\<close>

lemma contains_ws_append: "strip_ws b \<noteq> None \<Longrightarrow> contains_ws (a @ b)"
proof (induction a)
  case Nil
  then show ?case by (cases b) (auto simp: strip_ws_def)
qed simp

lemma strip_any_member: "strip_any encs s = Some r \<Longrightarrow> \<exists>e \<in> set encs. s = e @ r"
  by (induction encs) (auto simp: strip_prefix_Some split: option.splits if_splits)

lemma strip_prefix_append [simp]: "strip_prefix x (x @ r) = Some r"
  by (simp add: strip_prefix_Some)

lemma strip_any_total: "e \<in> set encs \<Longrightarrow> e \<noteq> [] \<Longrightarrow> strip_any encs (e @ r) \<noteq> None"
proof (induction encs)
  case (Cons x encs)
  then show ?case
    by (cases "strip_prefix x (e @ r)") (auto simp: strip_prefix_Some split: option.splits)
qed simp

lemma no_ws_trim: "\<not> contains_ws s \<Longrightarrow> trim s = s"
proof -
  assume no: "\<not> contains_ws s"
  have start: "strip_any ws_encodings s = None"
    using no contains_ws_append [of s "[]"] by (cases "strip_any ws_encodings s") (auto simp: strip_ws_def)
  have "strip_any (map rev ws_encodings) (rev s) = None"
  proof (rule ccontr)
    assume "strip_any (map rev ws_encodings) (rev s) \<noteq> None"
    then obtain e r where e: "e \<in> set ws_encodings" "rev s = rev e @ r"
      using strip_any_member by fastforce
    then have "s = rev r @ e" by (metis rev_append rev_rev_ident)
    moreover have "strip_ws e \<noteq> None"
      using strip_any_total [OF e(1), of "[]"] ws_encodings_graph(1) [OF e(1)] by (simp add: strip_ws_def)
    ultimately show False using no contains_ws_append by blast
  qed
  with start show "trim s = s" by (simp add: trim_def trim_start_def trim_end_def trim_with_stop)
qed

lemma no_ws_split: "\<not> contains_ws s \<Longrightarrow> cur \<noteq> [] \<or> s \<noteq> [] \<Longrightarrow> split_ws_acc cur s = [rev cur @ s]"
proof (induction s arbitrary: cur)
  case Nil
  then show ?case by (subst split_ws_acc.simps) (simp add: strip_ws_def)
next
  case (Cons c s)
  then show ?case by (subst split_ws_acc.simps) simp
qed

lemma no_ws_glue: "\<not> contains_ws s \<Longrightarrow> glue_operator_spaces s = s \<and> glue_ops s = s"
proof (induction s)
  case (Cons c s)
  then have "trim_start (c # s) = c # s" by (simp add: trim_start_def strip_ws_def trim_with_stop)
  then show ?case using Cons by simp
qed simp

text \<open>
  An exact pin pins exactly. A specification that \<open>is_exact_pin\<close> accepts is, as a
  range, the one comparator \<open>=v\<close>, and a version satisfies it if and only if it is \<open>v\<close>,
  prerelease identifiers included.
\<close>

theorem exact_pin_exact:
  assumes "is_exact_pin spec"
  shows "\<exists>v r. Range_parse spec = Inr r \<and> (\<forall>w. Range_satisfies r w = (w = v))"
proof -
  let ?t = "trim spec"
  have no: "\<not> contains_ws ?t" and hd: "?t \<noteq> [] \<Longrightarrow> hd ?t \<notin> {CHR 0x5E, CHR ''~'', CHR ''>'', CHR ''<'', CHR ''='', CHR ''v''}"
    and star: "CHR ''*'' \<notin> set ?t" and hy: "find_str '' - '' ?t = None" and alt: "find_str ''||'' ?t = None"
    using assms by (auto simp: is_exact_pin_def Let_def contains_str_def split: if_splits)
  obtain p pr a b c where p: "parse_partial ?t = Inr (p, pr)" "p_major p = Some a" "p_minor p = Some b" "p_patch p = Some c"
    using assms by (auto simp: is_exact_pin_def Let_def split: if_splits sum.splits)
  have tr: "trim ?t = ?t" by (rule no_ws_trim [OF no])
  have plain: "?t \<noteq> []" "?t \<noteq> ''x''" "?t \<noteq> ''X''" "?t \<noteq> ''*''"
    using p star no_ws_trim
    by (auto simp: parse_partial_def cut_def seg_def parse_xr_def trim_graphic is_graph_def)
  obtain h tl where h: "?t = h # tl" using plain by (cases ?t) auto
  then have "strip_prefix [x] ?t = None" "strip_prefix [x, y] ?t = None"
    if "x \<in> {CHR 0x5E, CHR ''~'', CHR ''>'', CHR ''<'', CHR ''=''}" for x y
    using that hd by auto
  then have "expand_comparator ?t = bare_partial ?t"
    using plain tr by (simp add: expand_comparator_def)
  then have e: "expand_comparator ?t = Inr [Comparator Eq (Version a b c pr)]"
    using p by (simp add: bare_partial_def)
  have "split_whitespace (glue_operator_spaces ?t) = [?t]"
    using no_ws_split [OF no, of "[]"] no_ws_glue [OF no] plain by (simp add: split_whitespace_def)
  then have "parse_comparator_set ?t = Inr \<lparr>comparators = [Comparator Eq (Version a b c pr)]\<rparr>"
    using tr plain hy e by (simp add: parse_comparator_set_def)
  moreover have "split_str ''||'' ?t = [?t]" using alt by (subst split_str.simps) simp
  ultimately have "Range_parse spec = Inr \<lparr>sets = [\<lparr>comparators = [Comparator Eq (Version a b c pr)]\<rparr>]\<rparr>"
    using tr by (simp add: Range_parse_def)
  moreover have "Range_satisfies \<lparr>sets = [\<lparr>comparators = [Comparator Eq v]\<rparr>]\<rparr> w \<longleftrightarrow> w = v" for v w
    by (auto simp: Range_satisfies_def set_satisfies_def matches_order is_prerelease_def)
  ultimately show ?thesis by blast
qed

theorem exact_pin_exact_witness:
  "\<exists>v r. Range_parse (version_canonical (Version_new 1 2 3)) = Inr r \<and> (\<forall>w. Range_satisfies r w = (w = v))"
proof (rule exact_pin_exact)
  let ?s = "version_canonical (Version_new 1 2 3)"
  have s: "?s = ''1.2.3''"
    by (simp add: version_canonical_def Version_new_def show_nat.simps digit_char_def char_of_eq_iff)
  have "trim ?s = ?s" "parse_partial ?s = Inr (\<lparr>p_major = Some 1, p_minor = Some 2, p_patch = Some 3\<rparr>, [])"
    using trim_graphic [OF canonical_graphic [OF wf_new]] parse_partial_canonical [OF wf_new [of 1 2 3]]
    by (simp_all add: Version_new_def)
  then show "is_exact_pin ?s"
    unfolding is_exact_pin_def Let_def
    by (simp add: s contains_str_def strip_ws_graph is_graph_def)
qed

section \<open>Canonical texts\<close>

lemma sorted_distinct_adj: "sorted xs \<Longrightarrow> distinct_adj xs \<Longrightarrow> distinct xs"
proof (induction xs)
  case (Cons x xs)
  have "x \<notin> set xs"
  proof (cases xs)
    case (Cons y ys)
    then have "x < y" using Cons.prems by (simp add: distinct_adj_Cons less_le)
    moreover have "\<forall>z \<in> set ys. y \<le> z" using Cons.prems Cons by simp
    ultimately show ?thesis using Cons by auto
  qed simp
  then show ?case using Cons by (cases "xs = []") (simp_all add: distinct_adj_Cons)
qed simp

lemma sorted_adj_distinct: "sorted xs \<Longrightarrow> distinct (remdups_adj xs)"
  by (intro sorted_distinct_adj) auto

lemma sort_dedup_set: "remdups_adj (sort xs) = sorted_list_of_set (set xs)"
  by (rule sorted_distinct_set_unique) (simp_all add: sorted_adj_distinct)

definition wf_set :: "ComparatorSet \<Rightarrow> bool" where
  "wf_set cs \<longleftrightarrow> (\<forall>c \<in> set (comparators cs). wf_version (version c))"

lemma op_takeWhile: "takeWhile is_op_char (comparator_str c) = Op_canonical_str (op c)"
  "dropWhile is_op_char (comparator_str c) = version_canonical (version c)"
proof -
  obtain d ds where d: "version_canonical (version c) = d # ds" "is_digit d" using canonical_hd by blast
  then have "\<not> is_op_char d" by (auto simp: is_op_char_def is_digit_def)
  then show "takeWhile is_op_char (comparator_str c) = Op_canonical_str (op c)"
    "dropWhile is_op_char (comparator_str c) = version_canonical (version c)"
    using d by (cases "op c"; simp add: comparator_str_def is_op_char_def)+
qed

lemma comparator_str_inj:
  assumes "comparator_str c = comparator_str d" "wf_version (version c)" "wf_version (version d)"
  shows "c = d"
proof -
  have "Op_canonical_str (op c) = Op_canonical_str (op d)" using op_takeWhile(1) assms(1) by metis
  then have "op c = op d" by (cases "op c"; cases "op d") auto
  moreover have "version_canonical (version c) = version_canonical (version d)"
    using op_takeWhile(2) assms(1) by metis
  then have "version c = version d" using assms(2,3) version_parse_canonical by (metis sum.inject(2))
  ultimately show ?thesis by (rule Comparator.expand [OF conjI])
qed

lemma comparator_str_plain: "wf_version (version c) \<Longrightarrow> comparator_str c \<noteq> [] \<and> CHR '' '' \<notin> set (comparator_str c)"
  using graphic_no_space [OF canonical_graphic, of "version c"]
  by (cases "op c") (auto simp: comparator_str_def)

lemma join_space_inj:
  assumes "join '' '' xs = join '' '' ys"
    and "\<And>x. x \<in> set (xs @ ys) \<Longrightarrow> x \<noteq> [] \<and> CHR '' '' \<notin> set x"
  shows "xs = ys"
proof -
  have nonempty: "join '' '' zs = [] \<longleftrightarrow> zs = []" if "set zs \<subseteq> set (xs @ ys)" for zs
    using assms(2) that by (cases zs rule: remdups_adj.cases) auto
  show ?thesis
  proof (cases "xs = [] \<or> ys = []")
    case True
    then show ?thesis using nonempty [of xs] nonempty [of ys] assms(1) by auto
  next
    case False
    have d: "CHR '' '' \<notin> set x" if "x \<in> set xs \<union> set ys" for x
      using assms(2) [of x] that by simp
    have "split_char (CHR '' '') (join '' '' xs) = xs" by (rule split_char_join) (use False d in blast)+
    moreover have "split_char (CHR '' '') (join '' '' ys) = ys" by (rule split_char_join) (use False d in blast)+
    ultimately show ?thesis using assms(1) by metis
  qed
qed

text \<open>
  The canonical text of a comparator set is a key for it. Two sets (with versions
  in the SemVer grammar) have the same canonical text if and only if they hold the same
  comparators, in whatever order and multiplicity, and then exactly the same versions satisfy
  both.
\<close>

theorem canonical_set_key:
  assumes "wf_set a" "wf_set b"
  shows "(ComparatorSet_canonical_string a = ComparatorSet_canonical_string b \<longleftrightarrow>
            set (comparators a) = set (comparators b))
       \<and> (ComparatorSet_canonical_string a = ComparatorSet_canonical_string b \<longrightarrow>
            (\<forall>v. set_satisfies a v = set_satisfies b v))"
proof -
  let ?A = "comparator_str ` set (comparators a)" and ?B = "comparator_str ` set (comparators b)"
  have texts: "ComparatorSet_canonical_string a = join '' '' (sorted_list_of_set ?A)"
    "ComparatorSet_canonical_string b = join '' '' (sorted_list_of_set ?B)"
    by (simp_all add: ComparatorSet_canonical_string_def sort_dedup_set)
  have plain: "x \<noteq> [] \<and> CHR '' '' \<notin> set x" if "x \<in> set (sorted_list_of_set ?A @ sorted_list_of_set ?B)" for x
    using that assms comparator_str_plain by (auto simp: wf_set_def)
  have key: "ComparatorSet_canonical_string a = ComparatorSet_canonical_string b \<longleftrightarrow>
      set (comparators a) = set (comparators b)"
  proof
    assume "ComparatorSet_canonical_string a = ComparatorSet_canonical_string b"
    then have "sorted_list_of_set ?A = sorted_list_of_set ?B"
      unfolding texts using plain by (rule join_space_inj)
    then have "set (sorted_list_of_set ?A) = set (sorted_list_of_set ?B)" by (rule arg_cong)
    then have "?A = ?B" by simp
    moreover have "inj_on comparator_str (set (comparators a) \<union> set (comparators b))"
      using comparator_str_inj assms unfolding wf_set_def by (intro inj_onI) blast
    ultimately show "set (comparators a) = set (comparators b)"
      using inj_on_image_eq_iff [of comparator_str _ "set (comparators a)" "set (comparators b)"] by blast
  qed (simp add: texts)
  moreover have "set_satisfies a v = set_satisfies b v" if "set (comparators a) = set (comparators b)" for v
    using that by (simp add: set_satisfies_def list_all_iff list_ex_iff)
  ultimately show ?thesis by blast
qed

theorem canonical_set_key_witness:
  "ComparatorSet_canonical_string \<lparr>comparators = [Comparator Gte (Version_new 1 2 3), Comparator Lt (Version_new 2 0 0)]\<rparr>
   = ComparatorSet_canonical_string \<lparr>comparators = [Comparator Lt (Version_new 2 0 0), Comparator Gte (Version_new 1 2 3)]\<rparr>"
proof -
  have wf: "wf_set \<lparr>comparators = [Comparator o1 (Version_new a b c), Comparator o2 (Version_new d e f)]\<rparr>"
    for o1 o2 a b c d e f
    by (simp add: wf_set_def wf_new)
  show ?thesis
    by (rule canonical_set_key [OF wf wf, THEN conjunct1, THEN iffD2])
       (simp only: ComparatorSet.select_convs list.set, rule insert_commute)
qed

end
