(* ===== verification/Http2_Codec.thy ===== *)
theory Http2_Codec
  imports Rust_Prelude "HOL-Library.Word"
begin

unbundle bit_operations_syntax

text \<open>
  The HTTP/2 frame codec \<open>crates/http2-codec/src/lib.rs\<close>: frame headers, framing of a byte
  stream, the payloads of settings, window-update, ping, reset and go-away frames, and the
  removal of padding and priority fields from data and header frames. Bytes and header fields
  are words; shifts, masks and truncating casts are the word operations, so a length that does
  not fit its 24 bits is truncated here as it is in the source.

  The locale \<open>framed\<close> is the contract between a frame codec and the code that reads a
  connection: an encoded message in front of anything decodes to itself and tells its length,
  and a proper prefix of it does not decode. It is interpreted on frames.
\<close>

section \<open>Frame types and headers\<close>

definition DEFAULT_MAX_FRAME_SIZE :: u32 where
  "DEFAULT_MAX_FRAME_SIZE = 16384"

datatype FrameType =
  Data | Headers | Priority | RstStream | Settings | PushPromise | Ping | GoAwayFrame
  | WindowUpdate | Continuation | Unknown u8

definition FrameType_from_u8 :: "u8 \<Rightarrow> FrameType" where
  "FrameType_from_u8 b =
     (if b = 0x00 then Data else if b = 0x01 then Headers else if b = 0x02 then Priority
      else if b = 0x03 then RstStream else if b = 0x04 then Settings else if b = 0x05 then PushPromise
      else if b = 0x06 then Ping else if b = 0x07 then GoAwayFrame else if b = 0x08 then WindowUpdate
      else if b = 0x09 then Continuation else Unknown b)"

fun FrameType_to_u8 :: "FrameType \<Rightarrow> u8" where
  "FrameType_to_u8 Data = 0x00"
| "FrameType_to_u8 Headers = 0x01"
| "FrameType_to_u8 Priority = 0x02"
| "FrameType_to_u8 RstStream = 0x03"
| "FrameType_to_u8 Settings = 0x04"
| "FrameType_to_u8 PushPromise = 0x05"
| "FrameType_to_u8 Ping = 0x06"
| "FrameType_to_u8 GoAwayFrame = 0x07"
| "FrameType_to_u8 WindowUpdate = 0x08"
| "FrameType_to_u8 Continuation = 0x09"
| "FrameType_to_u8 (Unknown b) = b"

definition FLAG_END_STREAM :: u8 where "FLAG_END_STREAM = 0x01"
definition FLAG_ACK :: u8 where "FLAG_ACK = 0x01"
definition FLAG_END_HEADERS :: u8 where "FLAG_END_HEADERS = 0x04"
definition FLAG_PADDED :: u8 where "FLAG_PADDED = 0x08"
definition FLAG_PRIORITY :: u8 where "FLAG_PRIORITY = 0x20"

record FrameHeader =
  fh_length :: u32
  frame_type :: FrameType
  flags :: u8
  stream_id :: u32

definition encode_frame_header :: "FrameHeader \<Rightarrow> bytes" where
  "encode_frame_header h =
     (let len = fh_length h AND 0x00FFFFFF;
          sid = stream_id h AND 0x7FFFFFFF in
      [ucast (drop_bit 16 len), ucast (drop_bit 8 len), ucast len,
       FrameType_to_u8 (frame_type h), flags h,
       ucast (drop_bit 24 sid), ucast (drop_bit 16 sid), ucast (drop_bit 8 sid), ucast sid])"

definition decode_frame_header :: "bytes \<Rightarrow> FrameHeader option" where
  "decode_frame_header b =
     (if length b < 9 then None
      else Some
        \<lparr>fh_length = push_bit 16 (ucast (b ! 0)) OR push_bit 8 (ucast (b ! 1)) OR ucast (b ! 2),
         frame_type = FrameType_from_u8 (b ! 3),
         flags = b ! 4,
         stream_id = (push_bit 24 (ucast (b ! 5)) OR push_bit 16 (ucast (b ! 6))
                      OR push_bit 8 (ucast (b ! 7)) OR ucast (b ! 8)) AND 0x7FFFFFFF\<rparr>)"

section \<open>Frames\<close>

record Frame =
  header :: FrameHeader
  payload :: bytes

definition encode_frame :: "FrameType \<Rightarrow> u8 \<Rightarrow> u32 \<Rightarrow> bytes \<Rightarrow> bytes" where
  "encode_frame t f s p =
     encode_frame_header \<lparr>fh_length = word_of_nat (length p), frame_type = t, flags = f, stream_id = s\<rparr> @ p"

definition take_frame :: "bytes \<Rightarrow> (Frame \<times> nat) option" where
  "take_frame buf =
     (case decode_frame_header buf of
        None \<Rightarrow> None
      | Some h \<Rightarrow>
          (let total = 9 + unat (fh_length h) in
           if length buf < total then None
           else Some (\<lparr>header = h, payload = take (total - 9) (drop 9 buf)\<rparr>, total)))"

section \<open>Payloads\<close>

definition to_be_bytes_u16 :: "u16 \<Rightarrow> bytes" where
  "to_be_bytes_u16 w = [ucast (drop_bit 8 w), ucast w]"

definition to_be_bytes_u32 :: "u32 \<Rightarrow> bytes" where
  "to_be_bytes_u32 w = [ucast (drop_bit 24 w), ucast (drop_bit 16 w), ucast (drop_bit 8 w), ucast w]"

definition from_be_bytes_u16 :: "u8 \<Rightarrow> u8 \<Rightarrow> u16" where
  "from_be_bytes_u16 a b = push_bit 8 (ucast a) OR ucast b"

definition from_be_bytes_u32 :: "u8 \<Rightarrow> u8 \<Rightarrow> u8 \<Rightarrow> u8 \<Rightarrow> u32" where
  "from_be_bytes_u32 a b c d =
     push_bit 24 (ucast a) OR push_bit 16 (ucast b) OR push_bit 8 (ucast c) OR ucast d"

record Setting =
  s_id :: u16
  s_value :: u32

fun encode_settings_payload :: "Setting list \<Rightarrow> bytes" where
  "encode_settings_payload [] = []"
| "encode_settings_payload (s # ss) =
     to_be_bytes_u16 (s_id s) @ to_be_bytes_u32 (s_value s) @ encode_settings_payload ss"

text \<open>\<open>chunks_exact(6)\<close>: whole groups of six, a shorter tail is dropped.\<close>

fun decode_settings_payload :: "bytes \<Rightarrow> Setting list" where
  "decode_settings_payload (a # b # c # d # e # f # rest) =
     \<lparr>s_id = from_be_bytes_u16 a b, s_value = from_be_bytes_u32 c d e f\<rparr> # decode_settings_payload rest"
| "decode_settings_payload _ = []"

definition decode_settings_payload_checked :: "bytes \<Rightarrow> Setting list option" where
  "decode_settings_payload_checked p =
     (if length p mod 6 \<noteq> 0 then None else Some (decode_settings_payload p))"

definition encode_settings_frame :: "Setting list \<Rightarrow> bytes" where
  "encode_settings_frame ss = encode_frame Settings 0 0 (encode_settings_payload ss)"

definition encode_settings_ack :: bytes where
  "encode_settings_ack = encode_frame Settings FLAG_ACK 0 []"

definition encode_window_update :: "u32 \<Rightarrow> u32 \<Rightarrow> bytes" where
  "encode_window_update s increment =
     encode_frame WindowUpdate 0 s (to_be_bytes_u32 (increment AND 0x7FFFFFFF))"

definition window_update_increment :: "bytes \<Rightarrow> u32 option" where
  "window_update_increment p =
     (if length p \<noteq> 4 then None
      else Some (from_be_bytes_u32 (p ! 0) (p ! 1) (p ! 2) (p ! 3) AND 0x7FFFFFFF))"

definition encode_ping :: "bytes \<Rightarrow> bytes" where
  "encode_ping opaque = encode_frame Ping 0 0 opaque"

definition encode_ping_ack :: "bytes \<Rightarrow> bytes" where
  "encode_ping_ack opaque = encode_frame Ping FLAG_ACK 0 opaque"

definition encode_rst_stream :: "u32 \<Rightarrow> u32 \<Rightarrow> bytes" where
  "encode_rst_stream s error_code = encode_frame RstStream 0 s (to_be_bytes_u32 error_code)"

record GoAway =
  last_stream_id :: u32
  error_code :: u32
  debug_data :: bytes

definition encode_goaway :: "u32 \<Rightarrow> u32 \<Rightarrow> bytes \<Rightarrow> bytes" where
  "encode_goaway last_id err dbg =
     encode_frame GoAwayFrame 0 0
       (to_be_bytes_u32 (last_id AND 0x7FFFFFFF) @ to_be_bytes_u32 err @ dbg)"

definition decode_goaway :: "bytes \<Rightarrow> GoAway option" where
  "decode_goaway p =
     (if length p < 8 then None
      else Some
        \<lparr>last_stream_id = from_be_bytes_u32 (p ! 0) (p ! 1) (p ! 2) (p ! 3) AND 0x7FFFFFFF,
         error_code = from_be_bytes_u32 (p ! 4) (p ! 5) (p ! 6) (p ! 7),
         debug_data = drop 8 p\<rparr>)"

definition encode_data :: "u32 \<Rightarrow> bool \<Rightarrow> bytes \<Rightarrow> bytes" where
  "encode_data s end_stream d = encode_frame Data (if end_stream then FLAG_END_STREAM else 0) s d"

definition strip_padding :: "bool \<Rightarrow> bytes \<Rightarrow> bytes option" where
  "strip_padding padded p =
     (if \<not> padded then Some p
      else (case p of
              [] \<Rightarrow> None
            | b # body \<Rightarrow>
                (let pad_len = unat b in
                 if length body < pad_len then None else Some (take (length body - pad_len) body))))"

definition data_payload :: "Frame \<Rightarrow> bytes option" where
  "data_payload f = strip_padding (flags (header f) AND FLAG_PADDED \<noteq> 0) (payload f)"

definition encode_headers :: "u32 \<Rightarrow> bytes \<Rightarrow> bool \<Rightarrow> bool \<Rightarrow> bytes" where
  "encode_headers s block end_stream end_headers =
     (let f0 = 0;
          f1 = (if end_stream then f0 OR FLAG_END_STREAM else f0);
          f2 = (if end_headers then f1 OR FLAG_END_HEADERS else f1) in
      encode_frame Headers f2 s block)"

definition header_block_fragment :: "Frame \<Rightarrow> bytes option" where
  "header_block_fragment f =
     (let padded = (flags (header f) AND FLAG_PADDED \<noteq> 0);
          has_priority = (flags (header f) AND FLAG_PRIORITY \<noteq> 0) in
      case (if padded then (case payload f of [] \<Rightarrow> None | b # p \<Rightarrow> Some (unat b, p))
            else Some (0, payload f)) of
        None \<Rightarrow> None
      | Some (pad_len, p) \<Rightarrow>
          if has_priority \<and> length p < 5 then None
          else
            (let p' = (if has_priority then drop 5 p else p) in
             if length p' < pad_len then None else Some (take (length p' - pad_len) p')))"

section \<open>Words and bytes\<close>

lemma be_u16 [simp]: "from_be_bytes_u16 (ucast (drop_bit 8 w)) (ucast w) = w"
  unfolding from_be_bytes_u16_def
  by (rule bit_word_eqI) (auto simp: bit_simps)

lemma octets_u32:
  "push_bit 24 (ucast (ucast (drop_bit 24 w) :: u8)) OR push_bit 16 (ucast (ucast (drop_bit 16 w) :: u8))
   OR push_bit 8 (ucast (ucast (drop_bit 8 w) :: u8)) OR ucast (ucast w :: u8) = (w :: u32)"
  (is "?l = _")
proof (rule bit_word_eqI)
  fix n
  assume "n < LENGTH(32)"
  then consider "n < 8" | "8 \<le> n" "n < 16" | "16 \<le> n" "n < 24" | "24 \<le> n" "n < 32" by fastforce
  then show "bit ?l n = bit w n" by cases (auto simp: bit_simps)
qed

lemma be_u32 [simp]:
  "from_be_bytes_u32 (ucast (drop_bit 24 w)) (ucast (drop_bit 16 w)) (ucast (drop_bit 8 w)) (ucast w) = w"
  by (simp add: from_be_bytes_u32_def octets_u32)

lemma mask_u24: "(0x00FFFFFF :: u32) = mask 24"
  by (simp add: mask_eq_exp_minus_1)

lemma mask_u31: "(0x7FFFFFFF :: u32) = mask 31"
  by (simp add: mask_eq_exp_minus_1)

lemma octets_u24:
  "push_bit 16 (ucast (ucast (drop_bit 16 w) :: u8)) OR push_bit 8 (ucast (ucast (drop_bit 8 w) :: u8))
   OR ucast (ucast w :: u8) = take_bit 24 (w :: u32)"
  (is "?l = _")
proof (rule bit_word_eqI)
  fix n
  assume "n < LENGTH(32)"
  then consider "n < 8" | "8 \<le> n" "n < 16" | "16 \<le> n" "n < 24" | "24 \<le> n" "n < 32" by fastforce
  then show "bit ?l n = bit (take_bit 24 w) n" by cases (auto simp: bit_simps)
qed

lemma and_masks [simp]: "w AND 0x00FFFFFF = take_bit 24 (w :: u32)" "w AND 0x7FFFFFFF = take_bit 31 (w :: u32)"
  by (simp_all only: mask_u24 mask_u31 take_bit_eq_mask)

lemma length_field: "unat (take_bit 24 (word_of_nat n :: u32)) = n mod 2 ^ 24"
proof -
  have "unat (take_bit 24 (word_of_nat n :: u32)) = take_bit 24 (unat (word_of_nat n :: u32))"
    by (rule unsigned_take_bit_eq)
  also have "\<dots> = take_bit 24 (take_bit 32 n)" by (simp add: unsigned_of_nat)
  also have "\<dots> = n mod 2 ^ 24" by (simp add: take_bit_take_bit) (simp add: take_bit_eq_mod)
  finally show ?thesis .
qed

lemma header_length [simp]: "length (encode_frame_header h) = 9"
  by (simp add: encode_frame_header_def Let_def)

fun wf_type :: "FrameType \<Rightarrow> bool" where
  "wf_type (Unknown b) = (9 < b)"
| "wf_type _ = True"

lemma from_to_u8: "wf_type t \<Longrightarrow> FrameType_from_u8 (FrameType_to_u8 t) = t"
  by (cases t) (auto simp: FrameType_from_u8_def)

lemma to_from_u8: "FrameType_to_u8 (FrameType_from_u8 b) = b"
  by (simp add: FrameType_from_u8_def)

lemma wf_from_u8: "wf_type (FrameType_from_u8 b)"
proof (cases "FrameType_from_u8 b")
  case (Unknown c)
  then have "b \<notin> {0, 1, 2, 3, 4, 5, 6, 7, 8, 9}" "c = b"
    by (auto simp: FrameType_from_u8_def split: if_splits)
  moreover have "b \<in> {0, 1, 2, 3, 4, 5, 6, 7, 8, 9}" if "b \<le> 9"
  proof -
    have k: "word_of_nat k \<in> {0 :: u8, 1, 2, 3, 4, 5, 6, 7, 8, 9}" if "k \<le> 9" for k
    proof -
      have "k = 0 \<or> k = 1 \<or> k = 2 \<or> k = 3 \<or> k = 4 \<or> k = 5 \<or> k = 6 \<or> k = 7 \<or> k = 8 \<or> k = 9"
        using that by arith
      then show ?thesis by auto
    qed
    have "unat b \<le> 9" using \<open>b \<le> 9\<close> by (simp add: word_le_nat_alt)
    from k [OF this] show ?thesis by simp
  qed
  ultimately show ?thesis using Unknown by (auto simp: not_le [symmetric])
qed simp_all

lemma decode_header_encoded:
  "decode_frame_header (encode_frame_header h @ rest) =
     Some (h\<lparr>fh_length := take_bit 24 (fh_length h), stream_id := take_bit 31 (stream_id h),
             frame_type := FrameType_from_u8 (FrameType_to_u8 (frame_type h))\<rparr>)"
proof -
  have "take_bit 31 (take_bit 31 w) = take_bit 31 w" "take_bit 24 (take_bit 24 w) = take_bit 24 w" for w :: u32
    by (simp_all add: take_bit_take_bit)
  moreover note octets_u32 [of "take_bit 31 (stream_id h)"] octets_u24 [of "take_bit 24 (fh_length h)"]
  ultimately show ?thesis
    by (simp add: decode_frame_header_def encode_frame_header_def Let_def del: push_bit_of_1 take_bit_or)
qed

section \<open>Framing\<close>

lemma take_frame_encoded:
  "take_frame (encode_frame t f s p @ rest) =
     (let n = length p mod 2 ^ 24 in
      Some (\<lparr>header = \<lparr>fh_length = word_of_nat n, frame_type = FrameType_from_u8 (FrameType_to_u8 t),
                       flags = f, stream_id = take_bit 31 s\<rparr>,
             payload = take n p\<rparr>, 9 + n))"
proof -
  let ?n = "length p mod 2 ^ 24"
  have len: "take_bit 24 (word_of_nat (length p) :: u32) = word_of_nat ?n"
    unfolding length_field [symmetric] by simp
  have un: "unat (word_of_nat ?n :: u32) = ?n"
    using length_field [of "length p"] len by simp
  have le: "?n \<le> length p" by simp
  show ?thesis
    unfolding take_frame_def encode_frame_def append_assoc decode_header_encoded
    using len un le by (simp add: Let_def)
qed

definition Frame_of :: "FrameType \<Rightarrow> u8 \<Rightarrow> u32 \<Rightarrow> bytes \<Rightarrow> Frame" where
  "Frame_of t f s p =
     \<lparr>header = \<lparr>fh_length = word_of_nat (length p), frame_type = t, flags = f, stream_id = s\<rparr>, payload = p\<rparr>"

definition wf_message :: "FrameType \<times> u8 \<times> u32 \<times> bytes \<Rightarrow> bool" where
  "wf_message m \<longleftrightarrow> (case m of (t, f, s, p) \<Rightarrow> wf_type t \<and> s < 2 ^ 31 \<and> length p < 2 ^ 24)"

lemma stream_id_fits: "(s :: u32) < 2 ^ 31 \<Longrightarrow> take_bit 31 s = s"
proof -
  assume "s < 2 ^ 31"
  then have "unat s < 2 ^ 31" by (simp add: word_less_nat_alt)
  then have "unat (take_bit 31 s) = unat s"
    unfolding unsigned_take_bit_eq by (rule take_bit_nat_eq_self)
  then show "take_bit 31 s = s" by (rule unsigned_word_eqI)
qed

lemma take_frame_message:
  assumes "wf_message (t, f, s, p)"
  shows "take_frame (encode_frame t f s p @ rest) = Some (Frame_of t f s p, 9 + length p)"
  using assms by (simp add: take_frame_encoded Let_def wf_message_def Frame_of_def from_to_u8 stream_id_fits)

lemma take_frame_short:
  assumes "wf_message (t, f, s, p)" "k < length (encode_frame t f s p)"
  shows "take_frame (take k (encode_frame t f s p)) = None"
proof (cases "k < 9")
  case True
  then have "length (take k (encode_frame t f s p)) < 9" by simp
  then show ?thesis unfolding take_frame_def decode_frame_header_def by (simp only: if_True option.case)
next
  case False
  let ?h = "\<lparr>fh_length = word_of_nat (length p), frame_type = t, flags = f, stream_id = s\<rparr>"
  have "take k (encode_frame t f s p) = encode_frame_header ?h @ take (k - 9) p"
    using False by (simp add: encode_frame_def)
  moreover have "unat (take_bit 24 (word_of_nat (length p) :: u32)) = length p"
    using assms(1) length_field [of "length p"] by (simp add: wf_message_def)
  ultimately show ?thesis
    using assms(2) False by (simp add: take_frame_def decode_header_encoded encode_frame_def)
qed

text \<open>Reading a connection: frames are taken off the front while there is a complete one.\<close>

fun take_all :: "('b list \<Rightarrow> ('f \<times> nat) option) \<Rightarrow> nat \<Rightarrow> 'b list \<Rightarrow> 'f list \<times> 'b list" where
  "take_all dec 0 buf = ([], buf)"
| "take_all dec (Suc n) buf =
     (case dec buf of
        None \<Rightarrow> ([], buf)
      | Some (x, k) \<Rightarrow> (let (xs, rest) = take_all dec n (drop k buf) in (x # xs, rest)))"

locale framed =
  fixes enc :: "'m \<Rightarrow> 'b list"
    and dec :: "'b list \<Rightarrow> ('f \<times> nat) option"
    and view :: "'m \<Rightarrow> 'f"
    and valid :: "'m \<Rightarrow> bool"
  assumes dec_enc: "valid m \<Longrightarrow> dec (enc m @ rest) = Some (view m, length (enc m))"
    and dec_partial: "valid m \<Longrightarrow> k < length (enc m) \<Longrightarrow> dec (take k (enc m)) = None"
begin

lemma stream:
  assumes "\<forall>m \<in> set ms. valid m" "length ms \<le> n" "valid m" "k < length (enc m)"
  shows "take_all dec n (concat (map enc ms) @ take k (enc m)) = (map view ms, take k (enc m))"
  using assms(1,2)
proof (induction ms arbitrary: n)
  case Nil
  then show ?case using dec_partial [OF assms(3,4)] by (cases n) auto
next
  case (Cons x ms)
  then show ?case by (cases n) (auto simp: dec_enc)
qed

text \<open>Encodings are prefix free: no two different views share an encoding's beginning.\<close>

lemma prefix_free: "valid a \<Longrightarrow> valid b \<Longrightarrow> enc a @ r = enc b @ r' \<Longrightarrow> view a = view b \<and> r = r'"
  using dec_enc [of a r] dec_enc [of b r'] by (metis append_eq_append_conv option.inject prod.inject)

end

interpretation frames: framed
  "\<lambda>(t, f, s, p). encode_frame t f s p" take_frame "\<lambda>(t, f, s, p). Frame_of t f s p" wf_message
proof
  show "take_frame ((case m of (t, f, s, p) \<Rightarrow> encode_frame t f s p) @ rest) =
      Some (case m of (t, f, s, p) \<Rightarrow> Frame_of t f s p, length (case m of (t, f, s, p) \<Rightarrow> encode_frame t f s p))"
    if "wf_message m" for m rest
    using that by (cases m) (simp add: take_frame_message, simp add: encode_frame_def)
  show "take_frame (take k (case m of (t, f, s, p) \<Rightarrow> encode_frame t f s p)) = None"
    if "wf_message m" "k < length (case m of (t, f, s, p) \<Rightarrow> encode_frame t f s p)" for m k
    using that by (cases m) (simp add: take_frame_short)
qed

section \<open>Properties\<close>

text \<open>
  Framing of a stream. Frames with a known type, a 31-bit stream and a payload
  below 2^24 bytes, written one after the other and followed by any incomplete part of
  another, are read back as those frames, and the incomplete part is left untouched.
\<close>

theorem frame_stream_roundtrip:
  assumes "\<forall>m \<in> set ms. wf_message m" "wf_message (t, f, s, p)" "k < length (encode_frame t f s p)"
  shows "take_all take_frame (length ms)
       (concat (map (\<lambda>(t, f, s, p). encode_frame t f s p) ms) @ take k (encode_frame t f s p))
     = (map (\<lambda>(t, f, s, p). Frame_of t f s p) ms, take k (encode_frame t f s p))"
  using frames.stream [OF assms(1) order.refl, of "(t, f, s, p)" k] assms(2,3) by simp

theorem frame_stream_roundtrip_witness:
  "take_all take_frame 1 (encode_frame Data 1 5 [1, 2, 3] @ take 4 (encode_frame Ping 0 0 [7]))
     = ([Frame_of Data 1 5 [1, 2, 3]], take 4 (encode_frame Ping 0 0 [7]))"
  using frame_stream_roundtrip [of "[(Data, 1, 5, [1, 2, 3])]" Ping 0 0 "[7]" 4]
  by (simp add: wf_message_def encode_frame_def)

text \<open>
  What one encoded frame decodes to, for every argument. The length field holds
  the payload length modulo 2^24 and the stream field 31 bits, so a payload of 2^24 bytes or
  more is silently cut: the reader sees a shorter frame and takes the rest of the payload for
  the next frame.
\<close>

theorem take_frame_encode_exact:
  "take_frame (encode_frame t f s p @ rest) =
     (let n = length p mod 2 ^ 24 in
      Some (\<lparr>header = \<lparr>fh_length = word_of_nat n, frame_type = FrameType_from_u8 (FrameType_to_u8 t),
                       flags = f, stream_id = take_bit 31 s\<rparr>,
             payload = take n p\<rparr>, 9 + n))"
  by (rule take_frame_encoded)

lemma octet_high: "8 \<le> n \<Longrightarrow> \<not> bit (b :: u8) n"
  using bit_imp_le_length [of b n] by auto

lemma be_bytes_u32: "to_be_bytes_u32 (from_be_bytes_u32 a b c d) = [a, b, c, d]"
  unfolding to_be_bytes_u32_def from_be_bytes_u32_def
  by (auto intro!: bit_word_eqI simp: bit_simps octet_high)

lemma be_bytes_u16: "to_be_bytes_u16 (from_be_bytes_u16 a b) = [a, b]"
  unfolding to_be_bytes_u16_def from_be_bytes_u16_def
  by (auto intro!: bit_word_eqI simp: bit_simps octet_high)

section \<open>Settings, control frames, padding\<close>

lemma settings_decode_encode: "decode_settings_payload (encode_settings_payload ss) = ss"
  by (induction ss) (simp_all add: to_be_bytes_u16_def to_be_bytes_u32_def)

lemma settings_encode_decode:
  "length p mod 6 = 0 \<Longrightarrow> encode_settings_payload (decode_settings_payload p) = p"
proof (induction p rule: decode_settings_payload.induct)
  case (1 a b c d e f rest)
  have "Suc (Suc (Suc (Suc (Suc (Suc n))))) mod 6 = n mod 6" for n :: nat by presburger
  then show ?case using 1 by (simp add: be_bytes_u16 be_bytes_u32)
qed auto

lemma settings_length: "length (encode_settings_payload ss) = 6 * length ss"
  by (induction ss) (simp_all add: to_be_bytes_u16_def to_be_bytes_u32_def)

text \<open>
  Settings payloads. The checked decoder accepts exactly the payloads that are the
  encoding of a list of settings, and returns that list.
\<close>

theorem settings_checked_iff:
  "decode_settings_payload_checked p = Some ss \<longleftrightarrow> p = encode_settings_payload ss"
  using settings_encode_decode [of p]
  by (auto simp: decode_settings_payload_checked_def settings_decode_encode settings_length split: if_splits)

text \<open>
  Control frames reach the peer. The go-away, window-update and reset frames, read
  from the wire, carry the type and stream they were built for, and their payload decodes to
  the values given, streams and increments reduced to their 31 bits.
\<close>

theorem control_frames_roundtrip:
  assumes "length dbg + 8 < 2 ^ 24"
  shows "(\<exists>f n. take_frame (encode_goaway sid err dbg @ rest) = Some (f, n)
            \<and> frame_type (header f) = GoAwayFrame
            \<and> decode_goaway (payload f) = Some \<lparr>last_stream_id = take_bit 31 sid, error_code = err, debug_data = dbg\<rparr>)
       \<and> (\<exists>f n. take_frame (encode_window_update sid inc @ rest) = Some (f, n)
            \<and> frame_type (header f) = WindowUpdate \<and> stream_id (header f) = take_bit 31 sid
            \<and> window_update_increment (payload f) = Some (take_bit 31 inc))
       \<and> (\<exists>f n. take_frame (encode_rst_stream sid err @ rest) = Some (f, n)
            \<and> frame_type (header f) = RstStream \<and> stream_id (header f) = take_bit 31 sid
            \<and> payload f = to_be_bytes_u32 err)"
proof -
  have "take_bit 31 (take_bit 31 w) = take_bit 31 w" for w :: u32 by (simp add: take_bit_take_bit)
  moreover have "length (to_be_bytes_u32 w) = 4" for w by (simp add: to_be_bytes_u32_def)
  ultimately show ?thesis
    using assms unfolding encode_goaway_def encode_window_update_def encode_rst_stream_def take_frame_encoded
    by (simp add: Let_def decode_goaway_def FrameType_from_u8_def window_update_increment_def to_be_bytes_u32_def)
qed

theorem control_frames_roundtrip_witness:
  "\<exists>f n. take_frame (encode_goaway 7 2 [1, 2]) = Some (f, n)
     \<and> decode_goaway (payload f) = Some \<lparr>last_stream_id = 7, error_code = 2, debug_data = [1, 2]\<rparr>"
  using control_frames_roundtrip [of "[1, 2]" 7 2 "[]" 0] by (auto simp: take_bit_eq_mod)

lemma padding_split:
  "(\<exists>z. body = d @ z \<and> length z = n) \<longleftrightarrow> n \<le> length body \<and> d = take (length body - n) body"
  by (auto intro!: exI [of _ "drop (length body - n) body"])

lemma strip_padding_iff:
  "strip_padding True p = Some d \<longleftrightarrow> (\<exists>b z. p = b # d @ z \<and> length z = unat b)"
  by (cases p) (auto simp: strip_padding_def Let_def padding_split not_less)

lemma priority_iff:
  "(if c \<and> length p < 5 then None
    else (let p' = (if c then drop 5 p else p) in
          if length p' < n then None else Some (take (length p' - n) p'))) = Some d
   \<longleftrightarrow> (\<exists>w z. p = w @ d @ z \<and> length w = (if c then 5 else 0) \<and> length z = n)"
  (is "?l \<longleftrightarrow> ?r")
proof
  assume ?l
  let ?p = "if c then drop 5 p else p" and ?w = "if c then take 5 p else []"
  have "n \<le> length ?p \<and> d = take (length ?p - n) ?p" and w: "length ?w = (if c then 5 else 0)"
    using \<open>?l\<close> by (auto simp: Let_def split: if_splits)
  then obtain z where z: "?p = d @ z" "length z = n" using padding_split [of ?p d n] by auto
  moreover have "p = ?w @ ?p" by simp
  ultimately have "p = ?w @ d @ z" by metis
  then show ?r using w z(2) by blast
next
  assume ?r
  then show ?l by (auto simp: Let_def)
qed

text \<open>
  Padding and priority. A data frame without the padded flag yields its payload;
  with it, the payload is accepted exactly when it is a length byte, the data and that many
  padding bytes, and then the data comes back. A header frame is the same with five priority
  bytes in front of the header block when its priority flag is set.
\<close>

theorem padding_exact:
  "(data_payload f = Some d \<longleftrightarrow>
      (if flags (header f) AND FLAG_PADDED = 0 then payload f = d
       else \<exists>b z. payload f = b # d @ z \<and> length z = unat b))
   \<and> (header_block_fragment f = Some d \<longleftrightarrow>
      (\<exists>w z b. payload f = (if flags (header f) AND FLAG_PADDED = 0 then [] else [b]) @ w @ d @ z
         \<and> length w = (if flags (header f) AND FLAG_PRIORITY \<noteq> 0 then 5 else 0)
         \<and> length z = (if flags (header f) AND FLAG_PADDED = 0 then 0 else unat b)))"
proof
  show "data_payload f = Some d \<longleftrightarrow>
      (if flags (header f) AND FLAG_PADDED = 0 then payload f = d
       else \<exists>b z. payload f = b # d @ z \<and> length z = unat b)"
    by (auto simp: data_payload_def strip_padding_iff) (auto simp: strip_padding_def)
  show "header_block_fragment f = Some d \<longleftrightarrow>
      (\<exists>w z b. payload f = (if flags (header f) AND FLAG_PADDED = 0 then [] else [b]) @ w @ d @ z
         \<and> length w = (if flags (header f) AND FLAG_PRIORITY \<noteq> 0 then 5 else 0)
         \<and> length z = (if flags (header f) AND FLAG_PADDED = 0 then 0 else unat b))"
  proof (cases "flags (header f) AND FLAG_PADDED = 0")
    case True
    then show ?thesis
      using priority_iff [of "flags (header f) AND FLAG_PRIORITY \<noteq> 0" "payload f" 0 d]
      by (simp only: header_block_fragment_def Let_def not_True_eq_False if_False if_True option.case prod.case) simp
  next
    case False
    show ?thesis
    proof (cases "payload f")
      case (Cons b p)
      then show ?thesis
        using False priority_iff [of "flags (header f) AND FLAG_PRIORITY \<noteq> 0" p "unat b" d]
        by (simp only: header_block_fragment_def Let_def not_False_eq_True if_False if_True option.case prod.case list.case) auto
    qed (use False in \<open>simp add: header_block_fragment_def\<close>)
  qed
qed

end
