(* ===== verification/Hpack.thy ===== *)
theory Hpack
  imports Utf8
begin

unbundle bit_operations_syntax

text \<open>
  HTTP/2 header compression, \<open>crates/http2-hpack/src/lib.rs\<close>: prefix integers, string literals,
  the Huffman code, the static and the dynamic table, and the header block decoder and encoder.

  Integers are \<open>u64\<close> and wrap, as in the release builds the repository makes (no profile turns
  overflow checks on); \<open>usize\<close> is \<open>u64\<close>. Lengths and sizes of data that exists in memory are
  naturals. The outer \<open>option\<close> of \<open>decode_string\<close> and its callers is \<open>None\<close> for a panic.
\<close>

section \<open>Integers\<close>

function int_tail :: "u64 \<Rightarrow> bytes" where
  "int_tail v = (if 128 \<le> v then (ucast (v mod 128) OR 0x80) # int_tail (v div 128) else [ucast v])"
  by pat_completeness auto
termination
proof (relation "measure unat")
  fix v :: u64
  assume "128 \<le> v"
  then have "128 \<le> unat v" by (simp add: word_le_nat_alt)
  then show "(v div 128, v) \<in> measure unat" by (simp add: unat_div)
qed simp

declare int_tail.simps [simp del]

definition encode_integer :: "u64 \<Rightarrow> nat \<Rightarrow> u8 \<Rightarrow> bytes" where
  "encode_integer v n prefix_bits =
     (let max_prefix = push_bit n 1 - 1 in
      if v < max_prefix then [prefix_bits OR ucast v]
      else (prefix_bits OR ucast max_prefix) # int_tail (v - max_prefix))"

text \<open>\<open>i\<close> counts the bytes read so far; the list is what \<open>buf\<close> has from there on.\<close>

fun decode_tail :: "bytes \<Rightarrow> u64 \<Rightarrow> nat \<Rightarrow> nat \<Rightarrow> (u64 \<times> nat) option" where
  "decode_tail [] v m i = None"
| "decode_tail (b # bs) v m i =
     (let v' = v + push_bit m (ucast b AND 0x7f) in
      if b AND 0x80 = 0 then Some (v', i + 1)
      else if 63 < m + 7 then None
      else decode_tail bs v' (m + 7) (i + 1))"

definition decode_integer :: "bytes \<Rightarrow> nat \<Rightarrow> (u64 \<times> nat) option" where
  "decode_integer buf n =
     (let max_prefix = push_bit n 1 - 1 in
      case buf of
        [] \<Rightarrow> None
      | b # bs \<Rightarrow>
          (let first = ucast b AND max_prefix in
           if first < max_prefix then Some (first, 1) else decode_tail bs max_prefix 0 1))"

section \<open>Huffman code\<close>

definition TABLE :: "(u32 \<times> nat) list" where
  "TABLE =
     [(0x1ff8, 13), (0x7fffd8, 23), (0xfffffe2, 28), (0xfffffe3, 28), (0xfffffe4, 28), (0xfffffe5, 28),
      (0xfffffe6, 28), (0xfffffe7, 28), (0xfffffe8, 28), (0xffffea, 24), (0x3ffffffc, 30), (0xfffffe9, 28),
      (0xfffffea, 28), (0x3ffffffd, 30), (0xfffffeb, 28), (0xfffffec, 28), (0xfffffed, 28), (0xfffffee, 28),
      (0xfffffef, 28), (0xffffff0, 28), (0xffffff1, 28), (0xffffff2, 28), (0x3ffffffe, 30), (0xffffff3, 28),
      (0xffffff4, 28), (0xffffff5, 28), (0xffffff6, 28), (0xffffff7, 28), (0xffffff8, 28), (0xffffff9, 28),
      (0xffffffa, 28), (0xffffffb, 28), (0x14, 6), (0x3f8, 10), (0x3f9, 10), (0xffa, 12),
      (0x1ff9, 13), (0x15, 6), (0xf8, 8), (0x7fa, 11), (0x3fa, 10), (0x3fb, 10),
      (0xf9, 8), (0x7fb, 11), (0xfa, 8), (0x16, 6), (0x17, 6), (0x18, 6),
      (0x0, 5), (0x1, 5), (0x2, 5), (0x19, 6), (0x1a, 6), (0x1b, 6),
      (0x1c, 6), (0x1d, 6), (0x1e, 6), (0x1f, 6), (0x5c, 7), (0xfb, 8),
      (0x7ffc, 15), (0x20, 6), (0xffb, 12), (0x3fc, 10), (0x1ffa, 13), (0x21, 6),
      (0x5d, 7), (0x5e, 7), (0x5f, 7), (0x60, 7), (0x61, 7), (0x62, 7),
      (0x63, 7), (0x64, 7), (0x65, 7), (0x66, 7), (0x67, 7), (0x68, 7),
      (0x69, 7), (0x6a, 7), (0x6b, 7), (0x6c, 7), (0x6d, 7), (0x6e, 7),
      (0x6f, 7), (0x70, 7), (0x71, 7), (0x72, 7), (0xfc, 8), (0x73, 7),
      (0xfd, 8), (0x1ffb, 13), (0x7fff0, 19), (0x1ffc, 13), (0x3ffc, 14), (0x22, 6),
      (0x7ffd, 15), (0x3, 5), (0x23, 6), (0x4, 5), (0x24, 6), (0x5, 5),
      (0x25, 6), (0x26, 6), (0x27, 6), (0x6, 5), (0x74, 7), (0x75, 7),
      (0x28, 6), (0x29, 6), (0x2a, 6), (0x7, 5), (0x2b, 6), (0x76, 7),
      (0x2c, 6), (0x8, 5), (0x9, 5), (0x2d, 6), (0x77, 7), (0x78, 7),
      (0x79, 7), (0x7a, 7), (0x7b, 7), (0x7ffe, 15), (0x7fc, 11), (0x3ffd, 14),
      (0x1ffd, 13), (0xffffffc, 28), (0xfffe6, 20), (0x3fffd2, 22), (0xfffe7, 20), (0xfffe8, 20),
      (0x3fffd3, 22), (0x3fffd4, 22), (0x3fffd5, 22), (0x7fffd9, 23), (0x3fffd6, 22), (0x7fffda, 23),
      (0x7fffdb, 23), (0x7fffdc, 23), (0x7fffdd, 23), (0x7fffde, 23), (0xffffeb, 24), (0x7fffdf, 23),
      (0xffffec, 24), (0xffffed, 24), (0x3fffd7, 22), (0x7fffe0, 23), (0xffffee, 24), (0x7fffe1, 23),
      (0x7fffe2, 23), (0x7fffe3, 23), (0x7fffe4, 23), (0x1fffdc, 21), (0x3fffd8, 22), (0x7fffe5, 23),
      (0x3fffd9, 22), (0x7fffe6, 23), (0x7fffe7, 23), (0xffffef, 24), (0x3fffda, 22), (0x1fffdd, 21),
      (0xfffe9, 20), (0x3fffdb, 22), (0x3fffdc, 22), (0x7fffe8, 23), (0x7fffe9, 23), (0x1fffde, 21),
      (0x7fffea, 23), (0x3fffdd, 22), (0x3fffde, 22), (0xfffff0, 24), (0x1fffdf, 21), (0x3fffdf, 22),
      (0x7fffeb, 23), (0x7fffec, 23), (0x1fffe0, 21), (0x1fffe1, 21), (0x3fffe0, 22), (0x1fffe2, 21),
      (0x7fffed, 23), (0x3fffe1, 22), (0x7fffee, 23), (0x7fffef, 23), (0xfffea, 20), (0x3fffe2, 22),
      (0x3fffe3, 22), (0x3fffe4, 22), (0x7ffff0, 23), (0x3fffe5, 22), (0x3fffe6, 22), (0x7ffff1, 23),
      (0x3ffffe0, 26), (0x3ffffe1, 26), (0xfffeb, 20), (0x7fff1, 19), (0x3fffe7, 22), (0x7ffff2, 23),
      (0x3fffe8, 22), (0x1ffffec, 25), (0x3ffffe2, 26), (0x3ffffe3, 26), (0x3ffffe4, 26), (0x7ffffde, 27),
      (0x7ffffdf, 27), (0x3ffffe5, 26), (0xfffff1, 24), (0x1ffffed, 25), (0x7fff2, 19), (0x1fffe3, 21),
      (0x3ffffe6, 26), (0x7ffffe0, 27), (0x7ffffe1, 27), (0x3ffffe7, 26), (0x7ffffe2, 27), (0xfffff2, 24),
      (0x1fffe4, 21), (0x1fffe5, 21), (0x3ffffe8, 26), (0x3ffffe9, 26), (0xffffffd, 28), (0x7ffffe3, 27),
      (0x7ffffe4, 27), (0x7ffffe5, 27), (0xfffec, 20), (0xfffff3, 24), (0xfffed, 20), (0x1fffe6, 21),
      (0x3fffe9, 22), (0x1fffe7, 21), (0x1fffe8, 21), (0x7ffff3, 23), (0x3fffea, 22), (0x3fffeb, 22),
      (0x1ffffee, 25), (0x1ffffef, 25), (0xfffff4, 24), (0xfffff5, 24), (0x3ffffea, 26), (0x7ffff4, 23),
      (0x3ffffeb, 26), (0x7ffffe6, 27), (0x3ffffec, 26), (0x3ffffed, 26), (0x7ffffe7, 27), (0x7ffffe8, 27),
      (0x7ffffe9, 27), (0x7ffffea, 27), (0x7ffffeb, 27), (0xffffffe, 28), (0x7ffffec, 27), (0x7ffffed, 27),
      (0x7ffffee, 27), (0x7ffffef, 27), (0x7fffff0, 27), (0x3ffffee, 26)]"

function huff_drain :: "u64 \<Rightarrow> nat \<Rightarrow> bytes \<Rightarrow> nat \<times> bytes" where
  "huff_drain bits nbits out =
     (if 8 \<le> nbits then huff_drain bits (nbits - 8) (out @ [ucast (drop_bit (nbits - 8) bits)])
      else (nbits, out))"
  by pat_completeness auto
termination
  by (relation "measure (\<lambda>(bits, nbits, out). nbits)") auto

declare huff_drain.simps [simp del]

fun huff_encode_loop :: "bytes \<Rightarrow> u64 \<Rightarrow> nat \<Rightarrow> bytes \<Rightarrow> u64 \<times> nat \<times> bytes" where
  "huff_encode_loop [] bits nbits out = (bits, nbits, out)"
| "huff_encode_loop (b # bs) bits nbits out =
     (let (code, len) = TABLE ! unat b;
          bits' = push_bit len bits OR ucast code;
          (nbits', out') = huff_drain bits' (nbits + len) out in
      huff_encode_loop bs bits' nbits' out')"

definition huffman_encode :: "bytes \<Rightarrow> bytes" where
  "huffman_encode input =
     (let (bits, nbits, out) = huff_encode_loop input 0 0 [] in
      if 0 < nbits then
        (let pad = 8 - nbits in out @ [ucast (push_bit pad bits OR (push_bit pad 1 - 1))])
      else out)"

text \<open>The map the decoder builds from the table.\<close>

fun huff_fill :: "(u32 \<times> nat) list \<Rightarrow> nat \<Rightarrow> (u32 \<times> nat \<rightharpoonup> u8) \<Rightarrow> (u32 \<times> nat \<rightharpoonup> u8)" where
  "huff_fill [] s m = m"
| "huff_fill (c # cs) s m = huff_fill cs (s + 1) (m(c \<mapsto> word_of_nat s))"

definition huff_map :: "u32 \<times> nat \<rightharpoonup> u8" where
  "huff_map = huff_fill TABLE 0 Map.empty"

fun huff_bits :: "u8 \<Rightarrow> nat list \<Rightarrow> u32 \<Rightarrow> nat \<Rightarrow> bytes \<Rightarrow> (u32 \<times> nat \<times> bytes) option" where
  "huff_bits b [] code len out = Some (code, len, out)"
| "huff_bits b (k # ks) code len out =
     (let code' = push_bit 1 code OR ucast (drop_bit k b AND 1); len' = len + 1 in
      case huff_map (code', len') of
        Some s \<Rightarrow> huff_bits b ks 0 0 (out @ [s])
      | None \<Rightarrow> if 30 < len' then None else huff_bits b ks code' len' out)"

fun huff_bytes :: "bytes \<Rightarrow> u32 \<Rightarrow> nat \<Rightarrow> bytes \<Rightarrow> (u32 \<times> nat \<times> bytes) option" where
  "huff_bytes [] code len out = Some (code, len, out)"
| "huff_bytes (b # bs) code len out =
     Option.bind (huff_bits b [7, 6, 5, 4, 3, 2, 1, 0] code len out)
       (\<lambda>(code', len', out'). huff_bytes bs code' len' out')"

definition huffman_decode :: "bytes \<Rightarrow> bytes option" where
  "huffman_decode input =
     Option.bind (huff_bytes input 0 0 []) (\<lambda>(code, len, out).
       if 8 \<le> len then None
       else if 0 < len \<and> code AND (push_bit len 1 - 1) \<noteq> push_bit len 1 - 1 then None
       else Some out)"

section \<open>Strings\<close>

definition encode_string :: "bytes \<Rightarrow> bytes" where
  "encode_string s = encode_integer (word_of_nat (length s)) 7 0x00 @ s"

text \<open>\<open>n + len\<close> wraps; the slice \<open>buf[n..end]\<close> panics when \<open>end\<close> is below \<open>n\<close>.\<close>

definition decode_string :: "bytes \<Rightarrow> (bytes \<times> nat) option option" where
  "decode_string buf =
     (case buf of
        [] \<Rightarrow> Some None
      | b # _ \<Rightarrow>
          (case decode_integer buf 7 of
             None \<Rightarrow> Some None
           | Some (len, n) \<Rightarrow>
               (let end' = unat (word_of_nat n + len) in
                if length buf < end' then Some None
                else if end' < n then None
                else
                  (let s = take (end' - n) (drop n buf) in
                   if b AND 0x80 \<noteq> 0 then Some (map_option (\<lambda>t. (t, end')) (huffman_decode s))
                   else Some (Some (s, end'))))))"

section \<open>Tables\<close>

type_synonym header = "str \<times> str"

definition STATIC_TABLE :: "header list" where
  "STATIC_TABLE =
     [('':authority'', ''''),
      ('':method'', ''GET''),
      ('':method'', ''POST''),
      ('':path'', ''/''),
      ('':path'', ''/index.html''),
      ('':scheme'', ''http''),
      ('':scheme'', ''https''),
      ('':status'', ''200''),
      ('':status'', ''204''),
      ('':status'', ''206''),
      ('':status'', ''304''),
      ('':status'', ''400''),
      ('':status'', ''404''),
      ('':status'', ''500''),
      (''accept-charset'', ''''),
      (''accept-encoding'', ''gzip, deflate''),
      (''accept-language'', ''''),
      (''accept-ranges'', ''''),
      (''accept'', ''''),
      (''access-control-allow-origin'', ''''),
      (''age'', ''''),
      (''allow'', ''''),
      (''authorization'', ''''),
      (''cache-control'', ''''),
      (''content-disposition'', ''''),
      (''content-encoding'', ''''),
      (''content-language'', ''''),
      (''content-length'', ''''),
      (''content-location'', ''''),
      (''content-range'', ''''),
      (''content-type'', ''''),
      (''cookie'', ''''),
      (''date'', ''''),
      (''etag'', ''''),
      (''expect'', ''''),
      (''expires'', ''''),
      (''from'', ''''),
      (''host'', ''''),
      (''if-match'', ''''),
      (''if-modified-since'', ''''),
      (''if-none-match'', ''''),
      (''if-range'', ''''),
      (''if-unmodified-since'', ''''),
      (''last-modified'', ''''),
      (''link'', ''''),
      (''location'', ''''),
      (''max-forwards'', ''''),
      (''proxy-authenticate'', ''''),
      (''proxy-authorization'', ''''),
      (''range'', ''''),
      (''referer'', ''''),
      (''refresh'', ''''),
      (''retry-after'', ''''),
      (''server'', ''''),
      (''set-cookie'', ''''),
      (''strict-transport-security'', ''''),
      (''transfer-encoding'', ''''),
      (''user-agent'', ''''),
      (''vary'', ''''),
      (''via'', ''''),
      (''www-authenticate'', '''')]"

record DynamicTable =
  dt_entries :: "header list"
  dt_size :: nat
  dt_max_size :: nat

record DecodeLimits =
  max_header_list_size :: nat
  max_dynamic_table_size :: nat

definition DecodeLimits_default :: DecodeLimits where
  "DecodeLimits_default = \<lparr>max_header_list_size = 65536, max_dynamic_table_size = 4096\<rparr>"

datatype DecodeError = Malformed | HeaderListTooLarge | DynamicTableSizeUpdateTooLarge

definition DynamicTable_new :: "nat \<Rightarrow> DynamicTable" where
  "DynamicTable_new n = \<lparr>dt_entries = [], dt_size = 0, dt_max_size = n\<rparr>"

definition entry_size :: "header \<Rightarrow> nat" where
  "entry_size e = length (fst e) + length (snd e) + 32"

text \<open>The entry at the back of the deque is the last of the list.\<close>

function evict :: "DynamicTable \<Rightarrow> DynamicTable" where
  "evict t =
     (if dt_max_size t < dt_size t then
        (if dt_entries t = [] then t
         else evict (t\<lparr>dt_entries := butlast (dt_entries t),
                       dt_size := dt_size t - entry_size (last (dt_entries t))\<rparr>))
      else t)"
  by pat_completeness auto
termination
  by (relation "measure (\<lambda>t. length (dt_entries t))") auto

declare evict.simps [simp del]

definition DynamicTable_insert :: "DynamicTable \<Rightarrow> header \<Rightarrow> DynamicTable" where
  "DynamicTable_insert t e =
     evict (t\<lparr>dt_entries := e # dt_entries t, dt_size := dt_size t + entry_size e\<rparr>)"

definition set_max_size :: "DynamicTable \<Rightarrow> nat \<Rightarrow> DynamicTable" where
  "set_max_size t n = evict (t\<lparr>dt_max_size := n\<rparr>)"

definition DynamicTable_get :: "DynamicTable \<Rightarrow> nat \<Rightarrow> header option" where
  "DynamicTable_get t i =
     (if i = 0 then None
      else if i \<le> length STATIC_TABLE then Some (STATIC_TABLE ! (i - 1))
      else
        (let d = i - length STATIC_TABLE - 1 in
         if d < length (dt_entries t) then Some (dt_entries t ! d) else None))"

definition checked_header_list_size :: "nat \<Rightarrow> header \<Rightarrow> DecodeLimits \<Rightarrow> DecodeError + nat" where
  "checked_header_list_size current e limits =
     (let next = current + length (fst e) + length (snd e) + 32 in
      if 2 ^ 64 \<le> next then Inl HeaderListTooLarge
      else if max_header_list_size limits < next then Inl HeaderListTooLarge
      else Inr next)"

section \<open>Header blocks\<close>

text \<open>\<open>String::from_utf8(..).ok()?\<close>\<close>

definition from_utf8 :: "bytes \<Rightarrow> str option" where
  "from_utf8 bs = (let s = map (\<lambda>b. char_of (unat b)) bs in if utf8_valid s then Some s else None)"

definition as_bytes :: "str \<Rightarrow> bytes" where
  "as_bytes s = map (\<lambda>c. word_of_nat (byte c)) s"

text \<open>A string literal at offset \<open>used\<close>, as UTF-8 text, with the offset behind it.\<close>

definition read_string :: "bytes \<Rightarrow> nat \<Rightarrow> (str \<times> nat) option option" where
  "read_string p used =
     map_option (\<lambda>r. Option.bind r (\<lambda>(b, n). map_option (\<lambda>s. (s, used + n)) (from_utf8 b)))
       (decode_string (drop used p))"

definition decode_literal :: "bytes \<Rightarrow> nat \<Rightarrow> DynamicTable \<Rightarrow> (header \<times> nat) option option" where
  "decode_literal p prefix_bits table =
     (case decode_integer p prefix_bits of
        None \<Rightarrow> Some None
      | Some (name_idx, n) \<Rightarrow>
          (case (if name_idx = 0 then read_string p n
                 else Some (map_option (\<lambda>e. (fst e, n)) (DynamicTable_get table (unat name_idx)))) of
             None \<Rightarrow> None
           | Some None \<Rightarrow> Some None
           | Some (Some (name, used)) \<Rightarrow>
               map_option (map_option (\<lambda>(v, used'). ((name, v), used'))) (read_string p used)))"

text \<open>Every field is at least one byte and lies inside the block, so the loop below ends.\<close>

lemma decode_tail_used: "decode_tail bs v m i = Some (w, j) \<Longrightarrow> i < j \<and> j \<le> i + length bs"
  by (induction bs v m i rule: decode_tail.induct) (auto simp: Let_def split: if_splits)

lemma decode_integer_used: "decode_integer buf n = Some (w, j) \<Longrightarrow> 1 \<le> j \<and> j \<le> length buf"
  by (auto simp: decode_integer_def Let_def split: list.splits if_splits dest!: decode_tail_used)

lemma decode_string_used: "decode_string buf = Some (Some (s, j)) \<Longrightarrow> 1 \<le> j \<and> j \<le> length buf"
  by (auto simp: decode_string_def Let_def split: list.splits option.splits prod.splits if_splits
      dest!: decode_integer_used)

lemma read_string_used: "read_string p k = Some (Some (s, j)) \<Longrightarrow> k < j \<and> (k \<le> length p \<longrightarrow> j \<le> length p)"
  by (auto simp: read_string_def Option.bind_eq_Some_conv dest!: decode_string_used)

lemma decode_literal_used: "decode_literal p n t = Some (Some (e, j)) \<Longrightarrow> 1 \<le> j \<and> j \<le> length p"
  by (auto simp: decode_literal_def split: option.splits prod.splits if_splits
      dest!: decode_integer_used read_string_used)

function decode_block ::
  "DecodeLimits \<Rightarrow> bytes \<Rightarrow> DynamicTable \<Rightarrow> nat \<Rightarrow> header list
   \<Rightarrow> ((DecodeError + header list) \<times> DynamicTable) option" where
  "decode_block limits p table decoded_size out =
     (case p of
        [] \<Rightarrow> Some (Inr out, table)
      | b0 # _ \<Rightarrow>
          if b0 AND 0x80 \<noteq> 0 then
            (case decode_integer p 7 of
               None \<Rightarrow> Some (Inl Malformed, table)
             | Some (idx, n) \<Rightarrow>
                 (case DynamicTable_get table (unat idx) of
                    None \<Rightarrow> Some (Inl Malformed, table)
                  | Some e \<Rightarrow>
                      (case checked_header_list_size decoded_size e limits of
                         Inl err \<Rightarrow> Some (Inl err, table)
                       | Inr size' \<Rightarrow> decode_block limits (drop n p) table size' (out @ [e]))))
          else if b0 AND 0x40 \<noteq> 0 then
            (case decode_literal p 6 table of
               None \<Rightarrow> None
             | Some None \<Rightarrow> Some (Inl Malformed, table)
             | Some (Some (e, used)) \<Rightarrow>
                 (case checked_header_list_size decoded_size e limits of
                    Inl err \<Rightarrow> Some (Inl err, table)
                  | Inr size' \<Rightarrow> decode_block limits (drop used p) (DynamicTable_insert table e) size' (out @ [e])))
          else if b0 AND 0x20 \<noteq> 0 then
            (case decode_integer p 5 of
               None \<Rightarrow> Some (Inl Malformed, table)
             | Some (new_max, n) \<Rightarrow>
                 if max_dynamic_table_size limits < unat new_max
                 then Some (Inl DynamicTableSizeUpdateTooLarge, table)
                 else decode_block limits (drop n p) (set_max_size table (unat new_max)) decoded_size out)
          else
            (case decode_literal p 4 table of
               None \<Rightarrow> None
             | Some None \<Rightarrow> Some (Inl Malformed, table)
             | Some (Some (e, used)) \<Rightarrow>
                 (case checked_header_list_size decoded_size e limits of
                    Inl err \<Rightarrow> Some (Inl err, table)
                  | Inr size' \<Rightarrow> decode_block limits (drop used p) table size' (out @ [e]))))"
  by pat_completeness auto
termination
  by (relation "measure (\<lambda>(limits, p, table, decoded_size, out). length p)")
    (auto dest: decode_integer_used decode_literal_used)

declare decode_block.simps [simp del]

definition decode_header_block_limited ::
  "bytes \<Rightarrow> DynamicTable \<Rightarrow> DecodeLimits \<Rightarrow> ((DecodeError + header list) \<times> DynamicTable) option" where
  "decode_header_block_limited block table limits = decode_block limits block table 0 []"

definition decode_header_block :: "bytes \<Rightarrow> DynamicTable \<Rightarrow> (header list option \<times> DynamicTable) option" where
  "decode_header_block block table =
     map_option (\<lambda>(r, t). (ok_opt r, t)) (decode_header_block_limited block table DecodeLimits_default)"

fun position_where :: "('a \<Rightarrow> bool) \<Rightarrow> 'a list \<Rightarrow> nat option" where
  "position_where P [] = None"
| "position_where P (x # xs) = (if P x then Some 0 else map_option Suc (position_where P xs))"

definition encode_header :: "header \<Rightarrow> bytes" where
  "encode_header e =
     (case position_where (\<lambda>s. s = e) STATIC_TABLE of
        Some i \<Rightarrow> encode_integer (word_of_nat (i + 1)) 7 0x80
      | None \<Rightarrow>
          (case position_where (\<lambda>(n, _). n = fst e) STATIC_TABLE of
             Some i \<Rightarrow> encode_integer (word_of_nat (i + 1)) 4 0x00
           | None \<Rightarrow> encode_integer 0 4 0x00 @ encode_string (as_bytes (fst e)))
          @ encode_string (as_bytes (snd e)))"

fun encode_header_block :: "header list \<Rightarrow> bytes" where
  "encode_header_block [] = []"
| "encode_header_block (e # es) = encode_header e @ encode_header_block es"

end
