(* ===== verification/Http2_Conn.thy ===== *)
theory Http2_Conn
  imports Http2_Codec Hpack Rust_Str "HOL-Library.AList" "HOL-Library.Multiset"
begin

unbundle bit_operations_syntax

text \<open>
  The server side of an HTTP/2 connection, \<open>crates/http2-conn/src/lib.rs\<close>: the connection
  record, the frame handlers, the read loop \<open>feed\<close>, and the sending of responses under flow
  control.

  A \<open>HashMap\<close> is an association list with distinct keys. The order in which \<open>flush_all\<close> visits
  the keys is not specified by the standard library: it is the parameter \<open>ord\<close> of the
  operations below, a function that permutes the keys. The windows are \<open>i64\<close> in the source and
  \<open>int\<close> here; \<open>Http2_Conn_Inv\<close> shows that they stay far away from the bounds of \<open>i64\<close>. Counters
  (\<open>usize\<close>) are naturals. An operation ends with \<open>Done\<close>, with \<open>Fail\<close> for an \<open>Err\<close> that
  \<open>?\<close> hands to the caller, or with \<open>Panic\<close>; the state that \<open>Fail\<close> carries is the one the
  connection is left in, since the callers in \<open>crates/cruft\<close> go on using it.
\<close>

section \<open>Constants\<close>

definition CONNECTION_PREFACE :: bytes where
  "CONNECTION_PREFACE = as_bytes (''PRI * HTTP/2.0'' @ [char_of (13 :: nat), char_of (10 :: nat), char_of (13 :: nat), char_of (10 :: nat)]
     @ ''SM'' @ [char_of (13 :: nat), char_of (10 :: nat), char_of (13 :: nat), char_of (10 :: nat)])"

definition SETTINGS_HEADER_TABLE_SIZE :: u16 where "SETTINGS_HEADER_TABLE_SIZE = 0x01"
definition SETTINGS_ENABLE_PUSH :: u16 where "SETTINGS_ENABLE_PUSH = 0x02"
definition SETTINGS_MAX_CONCURRENT_STREAMS :: u16 where "SETTINGS_MAX_CONCURRENT_STREAMS = 0x03"
definition SETTINGS_INITIAL_WINDOW_SIZE :: u16 where "SETTINGS_INITIAL_WINDOW_SIZE = 0x04"
definition SETTINGS_MAX_FRAME_SIZE :: u16 where "SETTINGS_MAX_FRAME_SIZE = 0x05"
definition SETTINGS_MAX_HEADER_LIST_SIZE :: u16 where "SETTINGS_MAX_HEADER_LIST_SIZE = 0x06"

definition ERR_PROTOCOL_ERROR :: u32 where "ERR_PROTOCOL_ERROR = 0x1"
definition ERR_FLOW_CONTROL_ERROR :: u32 where "ERR_FLOW_CONTROL_ERROR = 0x3"
definition ERR_STREAM_CLOSED :: u32 where "ERR_STREAM_CLOSED = 0x5"
definition ERR_FRAME_SIZE_ERROR :: u32 where "ERR_FRAME_SIZE_ERROR = 0x6"
definition ERR_ENHANCE_YOUR_CALM :: u32 where "ERR_ENHANCE_YOUR_CALM = 0xb"

definition SERVER_MAX_CONCURRENT_STREAMS :: nat where "SERVER_MAX_CONCURRENT_STREAMS = 100"
definition SERVER_INITIAL_WINDOW_SIZE :: u32 where "SERVER_INITIAL_WINDOW_SIZE = push_bit 20 1"
definition SERVER_HEADER_TABLE_SIZE :: nat where "SERVER_HEADER_TABLE_SIZE = 4096"
definition SERVER_MAX_HEADER_LIST_SIZE :: nat where "SERVER_MAX_HEADER_LIST_SIZE = 65536"
definition SERVER_MAX_HEADER_BLOCK_BYTES :: nat where "SERVER_MAX_HEADER_BLOCK_BYTES = 65536"
definition SERVER_MAX_CONTINUATIONS_PER_BLOCK :: nat where "SERVER_MAX_CONTINUATIONS_PER_BLOCK = 32"
definition SERVER_MAX_RST_STREAMS :: nat where "SERVER_MAX_RST_STREAMS = 100"
definition SERVER_MAX_STREAM_LIFETIME :: nat where "SERVER_MAX_STREAM_LIFETIME = 1000"

section \<open>State\<close>

record Http2Request =
  rq_stream_id :: u32
  rq_headers :: "header list"
  rq_body :: bytes

definition Http2Request_header :: "Http2Request \<Rightarrow> str \<Rightarrow> str option" where
  "Http2Request_header r name = map_option snd (List.find (\<lambda>(n, _). n = name) (rq_headers r))"

definition Http2Request_method :: "Http2Request \<Rightarrow> str option" where
  "Http2Request_method r = Http2Request_header r '':method''"

definition Http2Request_path :: "Http2Request \<Rightarrow> str option" where
  "Http2Request_path r = Http2Request_header r '':path''"

record Stream =
  st_header_block :: bytes
  st_continuation_count :: nat
  st_headers :: "header list"
  st_headers_done :: bool
  st_body :: bytes
  st_recv_window :: int
  st_end_stream :: bool
  st_emitted :: bool

definition Stream_default :: Stream where
  "Stream_default = \<lparr>st_header_block = [], st_continuation_count = 0, st_headers = [], st_headers_done = False,
     st_body = [], st_recv_window = 0, st_end_stream = False, st_emitted = False\<rparr>"

record Http2Feed =
  fd_outbound :: bytes
  fd_requests :: "Http2Request list"

definition Http2Feed_default :: Http2Feed where
  "Http2Feed_default = \<lparr>fd_outbound = [], fd_requests = []\<rparr>"

record SendState =
  ss_pending :: bytes
  ss_window :: int

record Http2Connection =
  rbuf :: bytes
  preface_seen :: bool
  settings_sent :: bool
  goaway_sent :: bool
  streams :: "(u32 \<times> Stream) list"
  last_sid :: u32
  active_header_stream :: "u32 option"
  rst_stream_count :: nat
  stream_lifetime_count :: nat
  inbound_max_frame_size :: u32
  inbound_header_list_size :: nat
  inbound_header_table_size :: nat
  inbound_hpack :: DynamicTable
  conn_recv_window :: int
  conn_send_window :: int
  peer_initial_window :: int
  peer_max_frame_size :: u32
  send :: "(u32 \<times> SendState) list"

definition Http2Connection_new :: Http2Connection where
  "Http2Connection_new =
     \<lparr>rbuf = [], preface_seen = False, settings_sent = False, goaway_sent = False, streams = [],
      last_sid = 0, active_header_stream = None, rst_stream_count = 0, stream_lifetime_count = 0,
      inbound_max_frame_size = DEFAULT_MAX_FRAME_SIZE,
      inbound_header_list_size = SERVER_MAX_HEADER_LIST_SIZE,
      inbound_header_table_size = SERVER_HEADER_TABLE_SIZE,
      inbound_hpack = DynamicTable_new SERVER_HEADER_TABLE_SIZE,
      conn_recv_window = uint SERVER_INITIAL_WINDOW_SIZE,
      conn_send_window = 65535, peer_initial_window = 65535,
      peer_max_frame_size = DEFAULT_MAX_FRAME_SIZE, send = []\<rparr>"

definition server_settings :: bytes where
  "server_settings = encode_settings_frame
     [\<lparr>s_id = SETTINGS_MAX_CONCURRENT_STREAMS, s_value = word_of_nat SERVER_MAX_CONCURRENT_STREAMS\<rparr>,
      \<lparr>s_id = SETTINGS_INITIAL_WINDOW_SIZE, s_value = SERVER_INITIAL_WINDOW_SIZE\<rparr>,
      \<lparr>s_id = SETTINGS_HEADER_TABLE_SIZE, s_value = word_of_nat SERVER_HEADER_TABLE_SIZE\<rparr>,
      \<lparr>s_id = SETTINGS_MAX_HEADER_LIST_SIZE, s_value = word_of_nat SERVER_MAX_HEADER_LIST_SIZE\<rparr>]"

type_synonym conn_state = "Http2Connection \<times> Http2Feed"

datatype outcome = Done conn_state | Fail str conn_state | Panic

fun and_then :: "outcome \<Rightarrow> (conn_state \<Rightarrow> outcome) \<Rightarrow> outcome" where
  "and_then (Done s) k = k s"
| "and_then (Fail e s) k = Fail e s"
| "and_then Panic k = Panic"

definition emit_bytes :: "bytes \<Rightarrow> Http2Feed \<Rightarrow> Http2Feed" where
  "emit_bytes bs f = f\<lparr>fd_outbound := fd_outbound f @ bs\<rparr>"

section \<open>Errors of the connection\<close>

definition goaway_code :: "u32 \<Rightarrow> conn_state \<Rightarrow> conn_state" where
  "goaway_code code = (\<lambda>(c, f).
     if goaway_sent c then (c, f)
     else (c\<lparr>goaway_sent := True\<rparr>, emit_bytes (encode_goaway (last_sid c) code []) f))"

definition goaway :: "conn_state \<Rightarrow> conn_state" where
  "goaway s = goaway_code ERR_PROTOCOL_ERROR s"

section \<open>Sending\<close>

definition pending_of :: "u32 \<Rightarrow> Http2Connection \<Rightarrow> nat" where
  "pending_of sid c = (case map_of (send c) sid of None \<Rightarrow> 0 | Some ss \<Rightarrow> length (ss_pending ss))"

definition flush_allowed :: "Http2Connection \<Rightarrow> SendState \<Rightarrow> int" where
  "flush_allowed c ss = min (min (min (conn_send_window c) (ss_window ss)) (uint (peer_max_frame_size c)))
                          (int (length (ss_pending ss)))"

text \<open>The body of the loop: one frame, and what the two windows and the pending bytes are after it.\<close>

definition flush_rest :: "Http2Connection \<Rightarrow> SendState \<Rightarrow> bytes" where
  "flush_rest c ss = drop (nat (flush_allowed c ss)) (ss_pending ss)"

definition flush_frame :: "u32 \<Rightarrow> Http2Connection \<Rightarrow> SendState \<Rightarrow> bytes" where
  "flush_frame sid c ss = encode_data sid (flush_rest c ss = []) (take (nat (flush_allowed c ss)) (ss_pending ss))"

definition flush_sent :: "u32 \<Rightarrow> Http2Connection \<Rightarrow> SendState \<Rightarrow> Http2Connection" where
  "flush_sent sid c ss =
     c\<lparr>conn_send_window := conn_send_window c - flush_allowed c ss,
       send := AList.update sid \<lparr>ss_pending = flush_rest c ss, ss_window = ss_window ss - flush_allowed c ss\<rparr> (send c)\<rparr>"

function flush_stream :: "u32 \<Rightarrow> Http2Connection \<times> bytes \<Rightarrow> Http2Connection \<times> bytes" where
  "flush_stream sid (c, out) =
     (case map_of (send c) sid of
        None \<Rightarrow> (c, out)
      | Some ss \<Rightarrow>
          if ss_pending ss = [] then (c\<lparr>send := AList.delete sid (send c)\<rparr>, out)
          else if flush_allowed c ss \<le> 0 then (c, out)
          else if flush_rest c ss = [] then
            ((flush_sent sid c ss)\<lparr>send := AList.delete sid (send (flush_sent sid c ss))\<rparr>, out @ flush_frame sid c ss)
          else flush_stream sid (flush_sent sid c ss, out @ flush_frame sid c ss))"
  by pat_completeness auto
termination
proof (relation "measure (\<lambda>(sid, c, out). pending_of sid c)", goal_cases)
  case (2 sid c out ss)
  then have "length (flush_rest c ss) < length (ss_pending ss)" by (simp add: flush_rest_def)
  then show ?case using 2(1) by (simp add: pending_of_def flush_sent_def update_conv')
qed simp

declare flush_stream.simps [simp del]

definition flush_all :: "(u32 list \<Rightarrow> u32 list) \<Rightarrow> Http2Connection \<times> bytes \<Rightarrow> Http2Connection \<times> bytes" where
  "flush_all ord s = fold flush_stream (ord (map fst (send (fst s)))) s"

definition flush_feed :: "(u32 list \<Rightarrow> u32 list) \<Rightarrow> conn_state \<Rightarrow> conn_state" where
  "flush_feed ord = (\<lambda>(c, f). let (c', out) = flush_all ord (c, fd_outbound f) in (c', f\<lparr>fd_outbound := out\<rparr>))"

definition respond :: "u32 \<Rightarrow> u16 \<Rightarrow> header list \<Rightarrow> bytes \<Rightarrow> Http2Connection \<Rightarrow> Http2Connection \<times> bytes" where
  "respond sid status headers body c =
     (let header_list = ('':status'', show_nat (unat status)) # headers;
          block = encode_header_block header_list;
          no_body = (body = []);
          out = encode_headers sid block no_body True;
          c1 = c\<lparr>streams := AList.delete sid (streams c)\<rparr> in
      if no_body then (c1, out)
      else flush_stream sid
        (c1\<lparr>send := AList.update sid \<lparr>ss_pending = body, ss_window = peer_initial_window c1\<rparr> (send c1)\<rparr>, out))"

section \<open>Requests\<close>

definition try_emit :: "u32 \<Rightarrow> conn_state \<Rightarrow> conn_state" where
  "try_emit sid = (\<lambda>(c, f).
     case map_of (streams c) sid of
       None \<Rightarrow> (c, f)
     | Some st \<Rightarrow>
         if \<not> (st_headers_done st \<and> st_end_stream st \<and> \<not> st_emitted st) then (c, f)
         else (c\<lparr>streams := AList.delete sid (streams c)\<rparr>,
               f\<lparr>fd_requests := fd_requests f @
                   [\<lparr>rq_stream_id = sid, rq_headers = st_headers st, rq_body = st_body st\<rparr>]\<rparr>))"

fun decode_error_text :: "DecodeError \<Rightarrow> str" where
  "decode_error_text HeaderListTooLarge = ''http2: HPACK header list too large''"
| "decode_error_text DynamicTableSizeUpdateTooLarge = ''http2: HPACK dynamic table size update too large''"
| "decode_error_text Malformed = ''http2: HPACK decode failed''"

definition finish_headers :: "u32 \<Rightarrow> conn_state \<Rightarrow> outcome" where
  "finish_headers sid = (\<lambda>(c, f).
     case map_of (streams c) sid of
       None \<Rightarrow> Fail ''http2: no stream'' (c, f)
     | Some st \<Rightarrow>
         (let block = st_header_block st;
              st1 = st\<lparr>st_header_block := []\<rparr> in
          case decode_header_block_limited block (inbound_hpack c)
                 \<lparr>max_header_list_size = inbound_header_list_size c,
                  max_dynamic_table_size = inbound_header_table_size c\<rparr> of
            None \<Rightarrow> Panic
          | Some (Inl e, t) \<Rightarrow>
              Fail (decode_error_text e) (c\<lparr>inbound_hpack := t, streams := AList.update sid st1 (streams c)\<rparr>, f)
          | Some (Inr hs, t) \<Rightarrow>
              Done (c\<lparr>inbound_hpack := t,
                      streams := AList.update sid (st1\<lparr>st_headers := hs, st_headers_done := True, st_continuation_count := 0\<rparr>)
                                   (streams c)\<rparr>, f)))"

section \<open>Frame handlers\<close>

text \<open>The loop over the settings; the first component tells whether it returned early.\<close>

fun apply_settings :: "Setting list \<Rightarrow> conn_state \<Rightarrow> bool \<times> conn_state" where
  "apply_settings [] s = (False, s)"
| "apply_settings (x # xs) (c, f) =
     (if s_id x = SETTINGS_ENABLE_PUSH \<and> 1 < s_value x then (True, goaway (c, f))
      else if s_id x = SETTINGS_MAX_FRAME_SIZE then
        (if \<not> (16384 \<le> s_value x \<and> s_value x \<le> 16777215) then (True, goaway (c, f))
         else apply_settings xs (c\<lparr>peer_max_frame_size := s_value x\<rparr>, f))
      else if s_id x = SETTINGS_INITIAL_WINDOW_SIZE then
        (if 0x7FFFFFFF < s_value x then (True, goaway_code ERR_FLOW_CONTROL_ERROR (c, f))
         else
           (let delta = uint (s_value x) - peer_initial_window c in
            apply_settings xs
              (c\<lparr>peer_initial_window := uint (s_value x),
                 send := map (\<lambda>(k, ss). (k, ss\<lparr>ss_window := ss_window ss + delta\<rparr>)) (send c)\<rparr>, f)))
      else apply_settings xs (c, f))"

definition handle_settings :: "(u32 list \<Rightarrow> u32 list) \<Rightarrow> Frame \<Rightarrow> conn_state \<Rightarrow> outcome" where
  "handle_settings ord fr = (\<lambda>(c, f).
     if stream_id (header fr) \<noteq> 0 then Done (goaway (c, f))
     else if flags (header fr) AND FLAG_ACK \<noteq> 0 \<and> payload fr \<noteq> [] then
       Done (goaway_code ERR_FRAME_SIZE_ERROR (c, f))
     else if flags (header fr) AND FLAG_ACK = 0 then
       (case decode_settings_payload_checked (payload fr) of
          None \<Rightarrow> Done (goaway_code ERR_FRAME_SIZE_ERROR (c, f))
        | Some ss \<Rightarrow>
            (case apply_settings ss (c, f) of
               (True, s) \<Rightarrow> Done s
             | (False, (c1, f1)) \<Rightarrow> Done (flush_feed ord (c1, emit_bytes encode_settings_ack f1))))
     else Done (c, f))"

definition handle_ping :: "Frame \<Rightarrow> conn_state \<Rightarrow> outcome" where
  "handle_ping fr = (\<lambda>(c, f).
     if stream_id (header fr) \<noteq> 0 \<or> length (payload fr) \<noteq> 8 then Done (goaway_code ERR_FRAME_SIZE_ERROR (c, f))
     else if flags (header fr) AND FLAG_ACK = 0 \<and> length (payload fr) = 8 then
       Done (c, emit_bytes (encode_ping_ack (payload fr)) f)
     else Done (c, f))"

definition handle_window_update :: "(u32 list \<Rightarrow> u32 list) \<Rightarrow> Frame \<Rightarrow> conn_state \<Rightarrow> outcome" where
  "handle_window_update ord fr = (\<lambda>(c, f).
     let sid = stream_id (header fr) in
     case window_update_increment (payload fr) of
       None \<Rightarrow> Done (goaway_code ERR_FRAME_SIZE_ERROR (c, f))
     | Some inc \<Rightarrow>
         if inc = 0 then Done (goaway (c, f))
         else if sid = 0 then
           (if 0x7FFFFFFF < conn_send_window c + uint inc then Done (goaway_code ERR_FLOW_CONTROL_ERROR (c, f))
            else Done (flush_feed ord (c\<lparr>conn_send_window := conn_send_window c + uint inc\<rparr>, f)))
         else
           (case map_of (send c) sid of
              None \<Rightarrow> Done (flush_feed ord (c, f))
            | Some ss \<Rightarrow>
                if 0x7FFFFFFF < ss_window ss + uint inc then Done (goaway_code ERR_FLOW_CONTROL_ERROR (c, f))
                else Done (flush_feed ord
                  (c\<lparr>send := AList.update sid (ss\<lparr>ss_window := ss_window ss + uint inc\<rparr>) (send c)\<rparr>, f))))"

definition handle_rst_stream :: "Frame \<Rightarrow> conn_state \<Rightarrow> outcome" where
  "handle_rst_stream fr = (\<lambda>(c, f).
     let sid = stream_id (header fr) in
     if sid = 0 \<or> length (payload fr) \<noteq> 4 then Done (goaway_code ERR_FRAME_SIZE_ERROR (c, f))
     else
       (let c1 = c\<lparr>rst_stream_count := rst_stream_count c + 1\<rparr> in
        if SERVER_MAX_RST_STREAMS < rst_stream_count c1 then Done (goaway_code ERR_ENHANCE_YOUR_CALM (c1, f))
        else
          Done (c1\<lparr>streams := AList.delete sid (streams c1),
                   active_header_stream :=
                     (if active_header_stream c1 = Some sid then None else active_header_stream c1)\<rparr>, f)))"

definition handle_headers :: "Frame \<Rightarrow> conn_state \<Rightarrow> outcome" where
  "handle_headers fr = (\<lambda>(c, f).
     let sid = stream_id (header fr) in
     if sid = 0 then Done (goaway (c, f))
     else if sid mod 2 = 0 \<or> sid \<le> last_sid c then Done (goaway (c, f))
     else if active_header_stream c \<noteq> None then Done (goaway (c, f))
     else if SERVER_MAX_CONCURRENT_STREAMS \<le> length (streams c) then Done (goaway_code ERR_ENHANCE_YOUR_CALM (c, f))
     else
       (let c1 = c\<lparr>stream_lifetime_count := stream_lifetime_count c + 1\<rparr> in
        if SERVER_MAX_STREAM_LIFETIME < stream_lifetime_count c1 then Done (goaway_code ERR_ENHANCE_YOUR_CALM (c1, f))
        else
          (case header_block_fragment fr of
             None \<Rightarrow> Fail ''http2: bad HEADERS padding'' (c1, f)
           | Some fragment \<Rightarrow>
               if SERVER_MAX_HEADER_BLOCK_BYTES < length fragment then Done (goaway_code ERR_ENHANCE_YOUR_CALM (c1, f))
               else
                 (let end_stream = (flags (header fr) AND FLAG_END_STREAM \<noteq> 0);
                      end_headers = (flags (header fr) AND FLAG_END_HEADERS \<noteq> 0);
                      st = (case map_of (streams c1) sid of
                              Some st \<Rightarrow> st
                            | None \<Rightarrow> Stream_default\<lparr>st_recv_window := uint SERVER_INITIAL_WINDOW_SIZE\<rparr>);
                      st1 = st\<lparr>st_header_block := st_header_block st @ fragment,
                               st_end_stream := (if end_stream then True else st_end_stream st)\<rparr>;
                      c2 = c1\<lparr>last_sid := sid, streams := AList.update sid st1 (streams c1)\<rparr> in
                  if end_headers then
                    and_then (finish_headers sid (c2, f))
                      (\<lambda>(c3, f3). Done (try_emit sid (c3\<lparr>active_header_stream := None\<rparr>, f3)))
                  else Done (try_emit sid (c2\<lparr>active_header_stream := Some sid\<rparr>, f))))))"

definition handle_continuation :: "Frame \<Rightarrow> conn_state \<Rightarrow> outcome" where
  "handle_continuation fr = (\<lambda>(c, f).
     let sid = stream_id (header fr) in
     if active_header_stream c \<noteq> Some sid then Done (goaway (c, f))
     else
       (case map_of (streams c) sid of
          None \<Rightarrow> Fail ''http2: CONTINUATION without stream'' (c, f)
        | Some st \<Rightarrow>
            (let st1 = st\<lparr>st_continuation_count := st_continuation_count st + 1\<rparr>;
                 c1 = c\<lparr>streams := AList.update sid st1 (streams c)\<rparr> in
             if SERVER_MAX_CONTINUATIONS_PER_BLOCK < st_continuation_count st1 then
               Done (goaway_code ERR_ENHANCE_YOUR_CALM (c1, f))
             else if SERVER_MAX_HEADER_BLOCK_BYTES < length (st_header_block st1) + length (payload fr) then
               Done (goaway_code ERR_ENHANCE_YOUR_CALM (c1, f))
             else
               (let c2 = c\<lparr>streams := AList.update sid (st1\<lparr>st_header_block := st_header_block st1 @ payload fr\<rparr>) (streams c)\<rparr> in
                if flags (header fr) AND FLAG_END_HEADERS \<noteq> 0 then
                  and_then (finish_headers sid (c2, f))
                    (\<lambda>(c3, f3). Done (try_emit sid (c3\<lparr>active_header_stream := None\<rparr>, f3)))
                else Done (c2, f)))))"

definition handle_data :: "Frame \<Rightarrow> conn_state \<Rightarrow> outcome" where
  "handle_data fr = (\<lambda>(c, f).
     let sid = stream_id (header fr); len = uint (fh_length (header fr)) in
     if sid = 0 then Done (goaway (c, f))
     else
       (case map_of (streams c) sid of
          None \<Rightarrow> Done (goaway_code ERR_STREAM_CLOSED (c, f))
        | Some st \<Rightarrow>
            (case data_payload fr of
               None \<Rightarrow> Fail ''http2: bad DATA padding'' (c, f)
             | Some body \<Rightarrow>
                 if conn_recv_window c - len < 0 then Done (goaway_code ERR_FLOW_CONTROL_ERROR (c, f))
                 else
                   (let c1 = c\<lparr>conn_recv_window := conn_recv_window c - len\<rparr> in
                    if st_recv_window st - len < 0 then Done (goaway_code ERR_FLOW_CONTROL_ERROR (c1, f))
                    else
                      (let st1 = st\<lparr>st_recv_window := st_recv_window st - len, st_body := st_body st @ body,
                                    st_end_stream := (if flags (header fr) AND FLAG_END_STREAM \<noteq> 0 then True
                                                      else st_end_stream st)\<rparr> in
                       Done (try_emit sid (c1\<lparr>streams := AList.update sid st1 (streams c1)\<rparr>, f)))))))"

definition handle_frame :: "(u32 list \<Rightarrow> u32 list) \<Rightarrow> Frame \<Rightarrow> conn_state \<Rightarrow> outcome" where
  "handle_frame ord fr s =
     (case frame_type (header fr) of
        Settings \<Rightarrow> handle_settings ord fr s
      | Ping \<Rightarrow> handle_ping fr s
      | WindowUpdate \<Rightarrow> handle_window_update ord fr s
      | RstStream \<Rightarrow> handle_rst_stream fr s
      | GoAwayFrame \<Rightarrow> Done s
      | Headers \<Rightarrow> handle_headers fr s
      | Continuation \<Rightarrow> handle_continuation fr s
      | Data \<Rightarrow> handle_data fr s
      | Priority \<Rightarrow> Done s
      | PushPromise \<Rightarrow> Done s
      | Unknown _ \<Rightarrow> Done s)"

section \<open>The handlers only append to the feed and leave the read buffer alone\<close>

definition onto :: "Http2Feed \<Rightarrow> Http2Feed \<Rightarrow> Http2Feed" where
  "onto g f = \<lparr>fd_outbound = fd_outbound g @ fd_outbound f, fd_requests = fd_requests g @ fd_requests f\<rparr>"

fun shift :: "bytes \<Rightarrow> Http2Feed \<Rightarrow> conn_state \<Rightarrow> conn_state" where
  "shift x g (c, f) = (c\<lparr>rbuf := x\<rparr>, onto g f)"

fun map_outcome :: "(conn_state \<Rightarrow> conn_state) \<Rightarrow> outcome \<Rightarrow> outcome" where
  "map_outcome g (Done s) = Done (g s)"
| "map_outcome g (Fail e s) = Fail e (g s)"
| "map_outcome g Panic = Panic"

text \<open>The collection \<open>shifts\<close> moves an update of the read buffer and an earlier feed outwards.\<close>

named_theorems shifts

lemma shift_record [shifts]:
  "c\<lparr>rbuf := x, goaway_sent := b\<rparr> = c\<lparr>goaway_sent := b, rbuf := x\<rparr>"
  "c\<lparr>rbuf := x, streams := ts\<rparr> = c\<lparr>streams := ts, rbuf := x\<rparr>"
  "c\<lparr>rbuf := x, last_sid := i\<rparr> = c\<lparr>last_sid := i, rbuf := x\<rparr>"
  "c\<lparr>rbuf := x, active_header_stream := a\<rparr> = c\<lparr>active_header_stream := a, rbuf := x\<rparr>"
  "c\<lparr>rbuf := x, rst_stream_count := n\<rparr> = c\<lparr>rst_stream_count := n, rbuf := x\<rparr>"
  "c\<lparr>rbuf := x, stream_lifetime_count := n\<rparr> = c\<lparr>stream_lifetime_count := n, rbuf := x\<rparr>"
  "c\<lparr>rbuf := x, inbound_hpack := t\<rparr> = c\<lparr>inbound_hpack := t, rbuf := x\<rparr>"
  "c\<lparr>rbuf := x, conn_recv_window := w\<rparr> = c\<lparr>conn_recv_window := w, rbuf := x\<rparr>"
  "c\<lparr>rbuf := x, conn_send_window := w\<rparr> = c\<lparr>conn_send_window := w, rbuf := x\<rparr>"
  "c\<lparr>rbuf := x, peer_initial_window := w\<rparr> = c\<lparr>peer_initial_window := w, rbuf := x\<rparr>"
  "c\<lparr>rbuf := x, peer_max_frame_size := m\<rparr> = c\<lparr>peer_max_frame_size := m, rbuf := x\<rparr>"
  "c\<lparr>rbuf := x, send := ss\<rparr> = c\<lparr>send := ss, rbuf := x\<rparr>"
  by simp_all

lemma shift_emit_bytes [shifts]: "emit_bytes bs (onto g f) = onto g (emit_bytes bs f)"
  by (simp add: emit_bytes_def onto_def)

lemma shift_goaway_code [shifts]: "goaway_code k (c\<lparr>rbuf := x\<rparr>, onto g f) = shift x g (goaway_code k (c, f))"
  by (simp add: goaway_code_def shifts)

lemma shift_goaway [shifts]: "goaway (c\<lparr>rbuf := x\<rparr>, onto g f) = shift x g (goaway (c, f))"
  by (simp add: goaway_def shifts)

lemma shift_flush_stream:
  "flush_stream sid (c\<lparr>rbuf := x\<rparr>, o' @ out) = (\<lambda>(c', out'). (c'\<lparr>rbuf := x\<rparr>, o' @ out')) (flush_stream sid (c, out))"
proof (induction sid "(c, out)" arbitrary: c out rule: flush_stream.induct)
  case (1 sid c out)
  have [simp]: "flush_allowed (c\<lparr>rbuf := x\<rparr>) ss = flush_allowed c ss" "flush_rest (c\<lparr>rbuf := x\<rparr>) ss = flush_rest c ss"
    "flush_frame sid (c\<lparr>rbuf := x\<rparr>) ss = flush_frame sid c ss"
    "flush_sent sid (c\<lparr>rbuf := x\<rparr>) ss = (flush_sent sid c ss)\<lparr>rbuf := x\<rparr>" for ss
    by (simp_all add: flush_allowed_def flush_rest_def flush_frame_def flush_sent_def)
  show ?case using 1
    by (simp add: flush_stream.simps [of sid c] flush_stream.simps [of sid "c\<lparr>rbuf := x\<rparr>"] split: option.split)
qed

lemma shift_fold_flush:
  "fold flush_stream ks (c\<lparr>rbuf := x\<rparr>, o' @ out) = (\<lambda>(c', out'). (c'\<lparr>rbuf := x\<rparr>, o' @ out')) (fold flush_stream ks (c, out))"
proof (induction ks arbitrary: c out)
  case (Cons k ks)
  then show ?case by (cases "flush_stream k (c, out)") (simp add: shift_flush_stream)
qed simp

lemma shift_flush_feed [shifts]: "flush_feed ord (c\<lparr>rbuf := x\<rparr>, onto g f) = shift x g (flush_feed ord (c, f))"
  by (simp add: flush_feed_def flush_all_def onto_def shift_fold_flush split: prod.split)

lemma shift_try_emit [shifts]: "try_emit sid (c\<lparr>rbuf := x\<rparr>, onto g f) = shift x g (try_emit sid (c, f))"
  by (auto simp: try_emit_def onto_def split: option.split)

lemma shift_finish_headers [shifts]:
  "finish_headers sid (c\<lparr>rbuf := x\<rparr>, onto g f) = map_outcome (shift x g) (finish_headers sid (c, f))"
  by (auto simp: finish_headers_def Let_def shifts split: option.split sum.split)

lemma shift_and_then:
  assumes "\<And>c f. k (c\<lparr>rbuf := x\<rparr>, onto g f) = map_outcome (shift x g) (k (c, f))"
  shows "and_then (map_outcome (shift x g) r) k = map_outcome (shift x g) (and_then r k)"
proof (cases r)
  case (Done s)
  then show ?thesis using assms by (cases s) simp
qed simp_all

lemma shift_emit_after_headers [shifts]:
  "and_then (map_outcome (shift x g) r) (\<lambda>(c, f). Done (try_emit sid (c\<lparr>active_header_stream := a\<rparr>, f)))
   = map_outcome (shift x g) (and_then r (\<lambda>(c, f). Done (try_emit sid (c\<lparr>active_header_stream := a\<rparr>, f))))"
  by (rule shift_and_then) (simp add: shifts)

lemma shift_apply_settings [shifts]:
  "apply_settings xs (c\<lparr>rbuf := x\<rparr>, onto g f) = (\<lambda>(b, s). (b, shift x g s)) (apply_settings xs (c, f))"
  by (induction xs arbitrary: c) (auto simp: shifts Let_def)

lemma shift_handle_settings [shifts]:
  "handle_settings ord fr (c\<lparr>rbuf := x\<rparr>, onto g f) = map_outcome (shift x g) (handle_settings ord fr (c, f))"
  by (auto simp: handle_settings_def shifts split: option.split prod.split bool.split)

lemma shift_handle_ping [shifts]:
  "handle_ping fr (c\<lparr>rbuf := x\<rparr>, onto g f) = map_outcome (shift x g) (handle_ping fr (c, f))"
  by (simp add: handle_ping_def shifts)

lemma shift_handle_window_update [shifts]:
  "handle_window_update ord fr (c\<lparr>rbuf := x\<rparr>, onto g f) = map_outcome (shift x g) (handle_window_update ord fr (c, f))"
  by (simp add: handle_window_update_def Let_def shifts split: option.split)

lemma shift_handle_rst_stream [shifts]:
  "handle_rst_stream fr (c\<lparr>rbuf := x\<rparr>, onto g f) = map_outcome (shift x g) (handle_rst_stream fr (c, f))"
  by (simp add: handle_rst_stream_def Let_def shifts)

lemma shift_handle_headers [shifts]:
  "handle_headers fr (c\<lparr>rbuf := x\<rparr>, onto g f) = map_outcome (shift x g) (handle_headers fr (c, f))"
  by (simp add: handle_headers_def Let_def shifts split: option.split)

lemma shift_handle_continuation [shifts]:
  "handle_continuation fr (c\<lparr>rbuf := x\<rparr>, onto g f) = map_outcome (shift x g) (handle_continuation fr (c, f))"
  by (simp add: handle_continuation_def Let_def shifts split: option.split)

lemma shift_handle_data [shifts]:
  "handle_data fr (c\<lparr>rbuf := x\<rparr>, onto g f) = map_outcome (shift x g) (handle_data fr (c, f))"
  by (simp add: handle_data_def Let_def shifts split: option.split)

lemma shift_handle_frame:
  "handle_frame ord fr (c\<lparr>rbuf := x\<rparr>, onto g f) = map_outcome (shift x g) (handle_frame ord fr (c, f))"
  by (simp add: handle_frame_def shifts split: FrameType.split)

lemma onto_default [simp]: "onto Http2Feed_default f = f"
  by (simp add: onto_def Http2Feed_default_def)

lemma handle_frame_rbuf: "handle_frame ord fr (c, f) = Done (c', f') \<Longrightarrow> rbuf c' = rbuf c"
  using shift_handle_frame [where ord = ord and fr = fr and c = c and x = "rbuf c" and g = Http2Feed_default and f = f]
  by (auto dest: arg_cong [of _ _ rbuf])

section \<open>The read loop\<close>

lemma take_frame_used: "take_frame buf = Some (fr, n) \<Longrightarrow> 9 \<le> n \<and> n \<le> length buf"
  by (auto simp: take_frame_def Let_def split: option.splits if_splits)

function feed_loop :: "(u32 list \<Rightarrow> u32 list) \<Rightarrow> conn_state \<Rightarrow> outcome" where
  "feed_loop ord (c, f) =
     (case take_frame (rbuf c) of
        None \<Rightarrow> Done (c, f)
      | Some (fr, used) \<Rightarrow>
          (let c1 = c\<lparr>rbuf := drop used (rbuf c)\<rparr> in
           if inbound_max_frame_size c1 < fh_length (header fr) then
             Done (goaway_code ERR_FRAME_SIZE_ERROR (c1, f))
           else
             (case handle_frame ord fr (c1, f) of
                Done s \<Rightarrow> feed_loop ord s
              | Fail e s \<Rightarrow> Fail e s
              | Panic \<Rightarrow> Panic)))"
  by pat_completeness auto
termination
proof (relation "measure (\<lambda>(ord, c, f). length (rbuf c))", goal_cases)
  case (2 ord c f p fr used c1 s)
  then have "rbuf (fst s) = drop used (rbuf c)" by (cases s) (simp add: handle_frame_rbuf)
  moreover have "0 < used" "used \<le> length (rbuf c)" using 2 take_frame_used [of "rbuf c" fr used] by auto
  ultimately show ?case by (cases s) simp
qed simp

declare feed_loop.simps [simp del]

definition feed_partial :: "conn_state \<Rightarrow> conn_state" where
  "feed_partial = (\<lambda>(c, f).
     case decode_frame_header (rbuf c) of
       None \<Rightarrow> (c, f)
     | Some h \<Rightarrow>
         if inbound_max_frame_size c < fh_length h then
           (let (c1, f1) = goaway_code ERR_FRAME_SIZE_ERROR (c, f) in (c1\<lparr>rbuf := []\<rparr>, f1))
         else (c, f))"

text \<open>An \<open>Err\<close> hands no feed to the caller: what the call had gathered is lost with it.\<close>

fun feed_result :: "outcome \<Rightarrow> ((str + Http2Feed) \<times> Http2Connection) option" where
  "feed_result (Done (c, f)) = Some (Inr f, c)"
| "feed_result (Fail e (c, f)) = Some (Inl e, c)"
| "feed_result Panic = None"

definition feed_frames :: "(u32 list \<Rightarrow> u32 list) \<Rightarrow> conn_state \<Rightarrow> outcome" where
  "feed_frames ord s = and_then (feed_loop ord s) (\<lambda>s. Done (feed_partial s))"

definition feed :: "(u32 list \<Rightarrow> u32 list) \<Rightarrow> bytes \<Rightarrow> Http2Connection \<Rightarrow> ((str + Http2Feed) \<times> Http2Connection) option" where
  "feed ord inbound c =
     (let c0 = c\<lparr>rbuf := rbuf c @ inbound\<rparr>; f0 = Http2Feed_default in
      feed_result
        (if \<not> preface_seen c0 then
           (if length (rbuf c0) < length CONNECTION_PREFACE then Done (c0, f0)
            else if take (length CONNECTION_PREFACE) (rbuf c0) \<noteq> CONNECTION_PREFACE then
              Fail ''http2: invalid connection preface'' (c0, f0)
            else feed_frames ord
              (c0\<lparr>rbuf := drop (length CONNECTION_PREFACE) (rbuf c0), preface_seen := True, settings_sent := True\<rparr>,
               emit_bytes server_settings f0))
         else feed_frames ord (c0, f0)))"

end
