(* ===== verification/Http2_Conn_Send.thy ===== *)
theory Http2_Conn_Send
  imports Http2_Conn
begin

unbundle bit_operations_syntax

text \<open>
  The sending side of \<open>Http2_Conn\<close>: what \<open>flush_stream\<close>, \<open>flush_all\<close> and \<open>respond\<close> put on the
  wire. A flush is compared with its closed form: the first bytes that the two windows let
  through, cut into frames of the peer's maximum size, END_STREAM on the last one when nothing is
  left.
\<close>

section \<open>One stream\<close>

fun chunks :: "nat \<Rightarrow> 'a list \<Rightarrow> 'a list list" where
  "chunks n xs = (if n = 0 \<or> xs = [] then [] else take n xs # chunks n (drop n xs))"

declare chunks.simps [simp del]

lemma chunks_Nil [simp]: "chunks n [] = []"
  by (simp add: chunks.simps)

lemma chunks_more: "0 < n \<Longrightarrow> xs \<noteq> [] \<Longrightarrow> chunks n xs = take n xs # chunks n (drop n xs)"
  by (subst chunks.simps) simp

lemma chunks_one: "xs \<noteq> [] \<Longrightarrow> length xs \<le> n \<Longrightarrow> chunks n xs = [xs]"
  by (subst chunks.simps) (cases n, auto)

lemma concat_chunks: "0 < n \<Longrightarrow> concat (chunks n xs) = xs"
  by (induction n xs rule: chunks.induct) (subst chunks.simps, simp)

lemma chunks_size: "\<forall>c \<in> set (chunks n xs). c \<noteq> [] \<and> length c \<le> n"
  by (induction n xs rule: chunks.induct) (subst chunks.simps, auto)

text \<open>DATA frames as the stream, the END_STREAM flag and the payload; \<open>wire\<close> is their encoding.\<close>

type_synonym data_frame = "u32 \<times> bool \<times> bytes"

definition wire :: "data_frame list \<Rightarrow> bytes" where
  "wire ms = concat (map (\<lambda>(sid, e, d). encode_data sid e d) ms)"

lemma wire_simps [simp]: "wire [] = []" "wire ((sid, e, d) # ms) = encode_data sid e d @ wire ms" "wire (ms @ ms') = wire ms @ wire ms'"
  by (simp_all add: wire_def)

fun data_frames :: "u32 \<Rightarrow> bool \<Rightarrow> bytes list \<Rightarrow> data_frame list" where
  "data_frames sid fin [] = []"
| "data_frames sid fin (c # cs) = (sid, fin \<and> cs = [], c) # data_frames sid fin cs"

definition sendable :: "Http2Connection \<Rightarrow> SendState \<Rightarrow> nat" where
  "sendable c ss = nat (min (min (conn_send_window c) (ss_window ss)) (int (length (ss_pending ss))))"

definition flushed :: "u32 \<Rightarrow> SendState \<Rightarrow> Http2Connection \<Rightarrow> Http2Connection" where
  "flushed sid ss c = (let n = sendable c ss in
     c\<lparr>conn_send_window := conn_send_window c - int n,
       send := (if n = length (ss_pending ss) then AList.delete sid (send c)
                else AList.update sid \<lparr>ss_pending = drop n (ss_pending ss), ss_window = ss_window ss - int n\<rparr> (send c))\<rparr>)"

lemma flush_allowed_sendable:
  assumes "0 < peer_max_frame_size c"
  shows "nat (flush_allowed c ss) = min (sendable c ss) (unat (peer_max_frame_size c))"
    and "flush_allowed c ss \<le> 0 \<longleftrightarrow> sendable c ss = 0"
proof -
  have "uint (peer_max_frame_size c) = int (unat (peer_max_frame_size c))" by (rule uint_nat)
  moreover have "0 < unat (peer_max_frame_size c)" using assms by (simp add: word_less_nat_alt)
  ultimately show "nat (flush_allowed c ss) = min (sendable c ss) (unat (peer_max_frame_size c))"
      "flush_allowed c ss \<le> 0 \<longleftrightarrow> sendable c ss = 0"
    unfolding flush_allowed_def sendable_def by linarith+
qed

lemma sendable_le: "sendable c ss \<le> length (ss_pending ss)"
  unfolding sendable_def by linarith

lemma sendable_sent:
  assumes "conn_send_window c' = conn_send_window c - int a" "ss_window ss' = ss_window ss - int a"
    and "ss_pending ss' = drop a (ss_pending ss)"
  shows "sendable c' ss' = sendable c ss - a"
proof -
  have "min (min (x - int a) (y - int a)) (int (l - a)) = min (min x y) (int l) - int a \<or>
      (l < a \<and> min (min x y) (int l) - int a \<le> 0 \<and> min (min (x - int a) (y - int a)) (int (l - a)) \<le> 0)" for x y l
    by linarith
  from this [of "conn_send_window c" "ss_window ss" "length (ss_pending ss)"]
  show ?thesis unfolding sendable_def assms length_drop by linarith
qed

lemma flush_cases:
  assumes "map_of (send c) sid = Some ss" "ss_pending ss \<noteq> []"
  shows "flush_stream sid (c, out) =
    (if flush_allowed c ss \<le> 0 then (c, out)
     else if flush_rest c ss = [] then
       (c\<lparr>conn_send_window := conn_send_window c - flush_allowed c ss, send := AList.delete sid (send c)\<rparr>,
        out @ flush_frame sid c ss)
     else flush_stream sid (flush_sent sid c ss, out @ flush_frame sid c ss))"
  using assms unfolding flush_stream.simps [of sid c out]
  by (simp only: option.case if_False) (simp add: flush_sent_def delete_update_same)

lemma flushed_none:
  assumes "map_of (send c) sid = Some ss" "ss_pending ss \<noteq> []" "sendable c ss = 0"
  shows "flushed sid ss c = c"
proof -
  have "AList.update sid \<lparr>ss_pending = drop 0 (ss_pending ss), ss_window = ss_window ss - int 0\<rparr> (send c) = send c"
    using assms(1) by (simp add: update_triv)
  then show ?thesis unfolding flushed_def assms(3) Let_def using assms(2) by simp
qed

lemma flush_stream_closed:
  assumes "map_of (send c) sid = Some ss" "ss_pending ss \<noteq> []" "0 < peer_max_frame_size c"
  shows "flush_stream sid (c, out) = (flushed sid ss c,
    out @ wire (data_frames sid (sendable c ss = length (ss_pending ss))
                  (chunks (unat (peer_max_frame_size c)) (take (sendable c ss) (ss_pending ss)))))"
  using assms
proof (induction sid "(c, out)" arbitrary: c out ss rule: flush_stream.induct)
  case (1 sid c out)
  let ?n = "sendable c ss" and ?m = "unat (peer_max_frame_size c)" and ?p = "ss_pending ss"
  have m: "0 < ?m" using "1.prems" by (simp add: word_less_nat_alt)
  show ?case
  proof (cases "flush_allowed c ss \<le> 0")
    case True
    then have n: "?n = 0" using flush_allowed_sendable(2) "1.prems"(3) by blast
    then show ?thesis unfolding flush_cases [OF "1.prems"(1,2)] flushed_none [OF "1.prems"(1,2) n]
      using True by simp
  next
    case False
    then have n: "0 < ?n" "?n \<le> length ?p"
      using flush_allowed_sendable(2) [OF "1.prems"(3)] sendable_le by blast+
    have a: "flush_allowed c ss = int (min ?n ?m)"
      using False flush_allowed_sendable(1) [OF "1.prems"(3), of ss] by linarith
    have first: "chunks ?m (take ?n ?p) = take (min ?n ?m) ?p # chunks ?m (take (?n - ?m) (drop ?m ?p))"
      using m n "1.prems"(2) by (subst chunks_more) (auto simp: min.commute drop_take)
    show ?thesis
    proof (cases "flush_rest c ss = []")
      case True
      then have "min ?n ?m = length ?p" using a n by (simp add: flush_rest_def)
      then have "?n = length ?p" "length ?p \<le> ?m" using n by linarith+
      then show ?thesis unfolding flush_cases [OF "1.prems"(1,2)] flushed_def flush_frame_def
        using True False a first by simp
    next
      case more: False
      let ?a = "min ?n ?m"
      let ?c = "flush_sent sid c ss" and ?s = "\<lparr>ss_pending = drop ?a ?p, ss_window = ss_window ss - int ?a\<rparr>"
      have c: "map_of (send ?c) sid = Some ?s" "peer_max_frame_size ?c = peer_max_frame_size c"
        using a by (simp_all add: flush_sent_def flush_rest_def update_conv')
      have rest: "drop ?a ?p \<noteq> []" using more a by (simp add: flush_rest_def)
      have w: "conn_send_window ?c = conn_send_window c - int ?a" using a by (simp add: flush_sent_def)
      have s: "sendable ?c ?s = ?n - ?a" using w by (rule sendable_sent) simp_all
      have "flushed sid ?s ?c = flushed sid ss c"
        using a n rest s by (auto simp: flushed_def Let_def flush_sent_def delete_update_same)
      moreover have "chunks ?m (take (?n - ?a) (drop ?a ?p)) = chunks ?m (take (?n - ?m) (drop ?m ?p))"
        by (cases "?n \<le> ?m") simp_all
      moreover have last: "(?n = length ?p \<and> chunks ?m (take (?n - ?m) (drop ?m ?p)) = []) = False"
        using rest m by (cases "?n = length ?p") (subst chunks_more, auto)
      moreover have "?n - ?a = length (drop ?a ?p) \<longleftrightarrow> ?n = length ?p" using n by auto
      moreover have "flush_frame sid c ss = encode_data sid False (take ?a ?p)"
        using more a by (simp add: flush_frame_def)
      ultimately show ?thesis
        using "1.hyps" [OF "1.prems"(1,2) False more c(1)] rest "1.prems"(3)
        unfolding flush_cases [OF "1.prems"(1,2)] first data_frames.simps last
        by (simp add: c(2) s False more)
    qed
  qed
qed

text \<open>
  Flow control of one stream. A flush sends the first \<open>n\<close> pending bytes and no
  other, where \<open>n\<close> is the least of the connection window, the stream window and what is pending
  (nothing when a window is not positive). The bytes are cut, in order, into DATA frames of the
  peer's maximum size and a shorter last one, END_STREAM is set on the last frame exactly when
  nothing is left, both windows are charged \<open>n\<close>, and a stream with nothing left is forgotten.
\<close>

theorem flush_stream_exact:
  assumes "map_of (send c) sid = Some ss" "ss_pending ss \<noteq> []" "0 < peer_max_frame_size c"
  defines "n \<equiv> nat (min (min (conn_send_window c) (ss_window ss)) (int (length (ss_pending ss))))"
  shows "flush_stream sid (c, out) =
    (c\<lparr>conn_send_window := conn_send_window c - int n,
       send := (if n = length (ss_pending ss) then AList.delete sid (send c)
                else AList.update sid \<lparr>ss_pending = drop n (ss_pending ss), ss_window = ss_window ss - int n\<rparr> (send c))\<rparr>,
     out @ wire (data_frames sid (n = length (ss_pending ss)) (chunks (unat (peer_max_frame_size c)) (take n (ss_pending ss)))))"
  using flush_stream_closed [OF assms(1,2,3)] unfolding flushed_def sendable_def n_def Let_def .

theorem flush_stream_exact_witness:
  "let c = Http2Connection_new\<lparr>conn_send_window := 5, peer_max_frame_size := 3,
             send := [(7, \<lparr>ss_pending = [1, 2, 3, 4, 5, 6], ss_window = 9\<rparr>)]\<rparr> in
     flush_stream 7 (c, []) = (c\<lparr>conn_send_window := 0, send := [(7, \<lparr>ss_pending = [6], ss_window = 4\<rparr>)]\<rparr>,
       encode_data 7 False [1, 2, 3] @ encode_data 7 False [4, 5])"
proof -
  let ?s = "\<lparr>ss_pending = [1, 2, 3, 4, 5, 6], ss_window = 9\<rparr> :: SendState"
  let ?c = "Http2Connection_new\<lparr>conn_send_window := 5, peer_max_frame_size := 3, send := [(7, ?s)]\<rparr>"
  have "map_of (send ?c) 7 = Some ?s" "ss_pending ?s \<noteq> []" "0 < peer_max_frame_size ?c" by simp_all
  note * = flush_stream_exact [OF this, of "[]"]
  have "chunks 3 [1, 2, 3, 4, 5 :: u8] = [[1, 2, 3], [4, 5]]" by (simp add: chunks.simps)
  then show ?thesis unfolding Let_def * by (simp add: wire_def)
qed

section \<open>All streams\<close>

definition payload_on :: "u32 \<Rightarrow> data_frame list \<Rightarrow> bytes" where
  "payload_on k ms = concat (map (\<lambda>(sid, e, d). if sid = k then d else []) ms)"

definition payload_total :: "data_frame list \<Rightarrow> nat" where
  "payload_total ms = sum_list (map (\<lambda>(sid, e, d). length d) ms)"

definition unsent :: "Http2Connection \<Rightarrow> u32 \<Rightarrow> bytes" where
  "unsent c k = (case map_of (send c) k of None \<Rightarrow> [] | Some ss \<Rightarrow> ss_pending ss)"

lemma payload_simps [simp]:
  "payload_on k [] = []" "payload_on k (ms @ ms') = payload_on k ms @ payload_on k ms'"
  "payload_total [] = 0" "payload_total (ms @ ms') = payload_total ms + payload_total ms'"
  by (simp_all add: payload_on_def payload_total_def)

lemma data_frames_payload:
  "payload_on k (data_frames sid fin cs) = (if k = sid then concat cs else [])"
  "payload_total (data_frames sid fin cs) = length (concat cs)"
  by (induction cs) (auto simp: payload_on_def payload_total_def length_concat)

lemma data_frames_set:
  "(k, e, d) \<in> set (data_frames sid fin cs) \<Longrightarrow> k = sid \<and> d \<in> set cs"
  by (induction cs) auto

lemma data_frames_end:
  "(\<exists>d. (k, True, d) \<in> set (data_frames sid fin cs)) \<longleftrightarrow> k = sid \<and> fin \<and> cs \<noteq> []"
  by (induction cs) auto

definition send_ok :: "Http2Connection \<Rightarrow> bool" where
  "send_ok c \<longleftrightarrow> distinct (map fst (send c)) \<and> (\<forall>(k, ss) \<in> set (send c). ss_pending ss \<noteq> [])
     \<and> 0 < peer_max_frame_size c"

text \<open>
  \<open>flush_law c ms c'\<close>: sending the frames \<open>ms\<close> takes \<open>c\<close> to \<open>c'\<close> by the rules of RFC 7540, section
  6.9: on each stream a prefix of what is pending, in order, within the stream window and the
  connection window, no frame empty or above the peer's maximum, END_STREAM exactly on the
  streams that have nothing left.
\<close>

definition flush_law :: "Http2Connection \<Rightarrow> data_frame list \<Rightarrow> Http2Connection \<Rightarrow> bool" where
  "flush_law c ms c' \<longleftrightarrow>
     (\<exists>w xs. c' = c\<lparr>conn_send_window := w, send := xs\<rparr>)
   \<and> conn_send_window c' = conn_send_window c - int (payload_total ms)
   \<and> int (payload_total ms) \<le> max 0 (conn_send_window c)
   \<and> (\<forall>k. payload_on k ms @ unsent c' k = unsent c k)
   \<and> (\<forall>k. map_of (send c) k = None \<longrightarrow> map_of (send c') k = None)
   \<and> (\<forall>k ss. map_of (send c) k = Some ss \<longrightarrow> int (length (payload_on k ms)) \<le> max 0 (ss_window ss)
        \<and> (\<forall>ss'. map_of (send c') k = Some ss' \<longrightarrow> ss_window ss' = ss_window ss - int (length (payload_on k ms))))
   \<and> (\<forall>(k, e, d) \<in> set ms. d \<noteq> [] \<and> length d \<le> unat (peer_max_frame_size c))
   \<and> (\<forall>k. (\<exists>d. (k, True, d) \<in> set ms) \<longleftrightarrow> map_of (send c) k \<noteq> None \<and> map_of (send c') k = None)"

lemma send_ok_iff: "send_ok c \<longleftrightarrow> distinct (map fst (send c))
    \<and> (\<forall>k ss. map_of (send c) k = Some ss \<longrightarrow> ss_pending ss \<noteq> []) \<and> 0 < peer_max_frame_size c"
  by (cases "distinct (map fst (send c))") (auto simp: send_ok_def Ball_def map_of_eq_Some_iff)

lemma flush_lawD:
  assumes "flush_law c ms c'"
  shows "\<exists>w xs. c' = c\<lparr>conn_send_window := w, send := xs\<rparr>"
    and "conn_send_window c' = conn_send_window c - int (payload_total ms)"
    and "int (payload_total ms) \<le> max 0 (conn_send_window c)"
    and "payload_on k ms @ unsent c' k = unsent c k"
    and "map_of (send c) k = None \<Longrightarrow> map_of (send c') k = None"
    and "map_of (send c) k = Some ss \<Longrightarrow> int (length (payload_on k ms)) \<le> max 0 (ss_window ss)"
    and "map_of (send c) k = Some ss \<Longrightarrow> map_of (send c') k = Some ss' \<Longrightarrow>
           ss_window ss' = ss_window ss - int (length (payload_on k ms))"
    and "\<forall>(k, e, d) \<in> set ms. d \<noteq> [] \<and> length d \<le> unat (peer_max_frame_size c)"
    and "(\<exists>d. (k, True, d) \<in> set ms) \<longleftrightarrow> map_of (send c) k \<noteq> None \<and> map_of (send c') k = None"
  using assms unfolding flush_law_def by simp_all

lemma flush_law_refl: "flush_law c [] c"
proof -
  have "c = c\<lparr>conn_send_window := conn_send_window c, send := send c\<rparr>" by simp
  then have "\<exists>w xs. c = c\<lparr>conn_send_window := w, send := xs\<rparr>" by (intro exI)
  then show ?thesis unfolding flush_law_def by (intro conjI allI) auto
qed

lemma flushed_send:
  "map_of (send (flushed k ss c)) j =
     (if j = k then (if sendable c ss = length (ss_pending ss) then None
                     else Some \<lparr>ss_pending = drop (sendable c ss) (ss_pending ss), ss_window = ss_window ss - int (sendable c ss)\<rparr>)
      else map_of (send c) j)"
  by (simp add: flushed_def Let_def delete_conv' update_conv')

lemma flushed_ok: "send_ok c \<Longrightarrow> send_ok (flushed k ss c)"
  using sendable_le [of c ss] unfolding send_ok_iff flushed_send
  by (simp add: flushed_def Let_def distinct_update distinct_delete)

lemma sendable_bounds:
  "int (sendable c ss) \<le> max 0 (conn_send_window c)" "int (sendable c ss) \<le> max 0 (ss_window ss)"
  "sendable c ss \<noteq> length (ss_pending ss) \<Longrightarrow>
     conn_send_window c - int (sendable c ss) \<le> 0 \<or> ss_window ss - int (sendable c ss) \<le> 0"
  unfolding sendable_def by linarith+

lemma flush_law_closed:
  assumes "map_of (send c) k = Some ss" "send_ok c"
  defines "n \<equiv> sendable c ss" and "m \<equiv> unat (peer_max_frame_size c)"
  shows "flush_law c (data_frames k (n = length (ss_pending ss)) (chunks m (take n (ss_pending ss)))) (flushed k ss c)"
proof -
  have m: "0 < m" using assms(2) by (simp add: m_def send_ok_iff word_less_nat_alt)
  have p: "ss_pending ss \<noteq> []" using assms(1,2) by (simp add: send_ok_iff)
  let ?cs = "chunks m (take n (ss_pending ss))"
  let ?ms = "data_frames k (n = length (ss_pending ss)) ?cs"
  have total: "payload_total ?ms = n" and on: "payload_on j ?ms = (if j = k then take n (ss_pending ss) else [])" for j
    using m sendable_le [of c ss] by (simp_all add: data_frames_payload concat_chunks n_def)
  have set: "\<forall>(j, e, d) \<in> set ?ms. d \<noteq> [] \<and> length d \<le> m"
    using chunks_size [of m "take n (ss_pending ss)"] by (auto dest: data_frames_set)
  have ends: "(\<exists>d. (j, True, d) \<in> set ?ms) \<longleftrightarrow> j = k \<and> n = length (ss_pending ss)" for j
    using p m by (auto simp: data_frames_end chunks_more)
  have left: "unsent (flushed k ss c) j = (if j = k then drop n (ss_pending ss) else unsent c j)" for j
    by (simp add: unsent_def flushed_send n_def)
  have rec: "conn_send_window (flushed k ss c) = conn_send_window c - int n"
      "\<exists>w xs. flushed k ss c = c\<lparr>conn_send_window := w, send := xs\<rparr>"
    unfolding flushed_def Let_def n_def by (simp, blast)
  show ?thesis
    unfolding flush_law_def total on left ends
    using rec set sendable_bounds(1,2) [of c ss] assms(1) sendable_le [of c ss]
    by (auto simp: flushed_send n_def m_def unsent_def)
qed

lemma flush_stream_law:
  assumes "send_ok c"
  obtains ms c' where "flush_stream k (c, out) = (c', out @ wire ms)" "flush_law c ms c'" "send_ok c'"
    and "\<And>ss. map_of (send c') k = Some ss \<Longrightarrow> conn_send_window c' \<le> 0 \<or> ss_window ss \<le> 0"
    and "\<And>j. j \<noteq> k \<Longrightarrow> map_of (send c') j = map_of (send c) j"
proof (cases "map_of (send c) k")
  case None
  then show ?thesis using that [of c "[]"] assms flush_law_refl by (simp add: flush_stream.simps)
next
  case (Some ss)
  have "ss_pending ss \<noteq> []" "0 < peer_max_frame_size c" using assms Some by (simp_all add: send_ok_iff)
  then show ?thesis
  proof (rule that [OF flush_stream_closed [OF Some] flush_law_closed [OF Some assms] flushed_ok [OF assms]])
    show "conn_send_window (flushed k ss c) \<le> 0 \<or> ss_window ss' \<le> 0" if "map_of (send (flushed k ss c)) k = Some ss'" for ss'
      using that sendable_bounds(3) [of c ss]
      by (auto simp: flushed_send split: if_splits) (auto simp: flushed_def Let_def)
  qed (simp add: flushed_send)
qed

lemma flush_law_trans:
  assumes ab: "flush_law a ms b" and bc: "flush_law b ms' c"
  shows "flush_law a (ms @ ms') c"
proof -
  from flush_lawD(1) [OF ab] obtain w xs where b: "b = a\<lparr>conn_send_window := w, send := xs\<rparr>" by (elim exE)
  from flush_lawD(1) [OF bc] obtain w' xs' where "c = b\<lparr>conn_send_window := w', send := xs'\<rparr>" by (elim exE)
  then have c: "\<exists>w xs. c = a\<lparr>conn_send_window := w, send := xs\<rparr>" unfolding b by auto
  have on: "payload_on k (ms @ ms') @ unsent c k = unsent a k" for k
    using flush_lawD(4) [OF ab, of k] flush_lawD(4) [OF bc, of k] by simp
  have gone: "map_of (send a) k = None \<Longrightarrow> map_of (send c) k = None" for k
    using flush_lawD(5) [OF ab] flush_lawD(5) [OF bc] by simp
  have ends: "(\<exists>d. (k, True, d) \<in> set (ms @ ms')) \<longleftrightarrow> map_of (send a) k \<noteq> None \<and> map_of (send c) k = None" for k
  proof -
    have "(\<exists>d. (k, True, d) \<in> set (ms @ ms')) \<longleftrightarrow> (\<exists>d. (k, True, d) \<in> set ms) \<or> (\<exists>d. (k, True, d) \<in> set ms')" by auto
    then show ?thesis
      using flush_lawD(9) [OF ab, of k] flush_lawD(9) [OF bc, of k] flush_lawD(5) [OF ab, of k] flush_lawD(5) [OF bc, of k]
      by argo
  qed
  have window: "int (length (payload_on k (ms @ ms'))) \<le> max 0 (ss_window ss)
      \<and> (\<forall>ss'. map_of (send c) k = Some ss' \<longrightarrow> ss_window ss' = ss_window ss - int (length (payload_on k (ms @ ms'))))"
    if "map_of (send a) k = Some ss" for k ss
  proof (cases "map_of (send b) k")
    case None
    then have "payload_on k ms' = []" "map_of (send c) k = None"
      using flush_lawD(4,5) [OF bc, of k] by (simp_all add: unsent_def)
    then show ?thesis using flush_lawD(6) [OF ab that] by simp
  next
    case (Some ss1)
    have "ss_window ss' = ss_window ss1 - int (length (payload_on k ms'))" if "map_of (send c) k = Some ss'" for ss'
      using flush_lawD(7) [OF bc Some that] .
    then show ?thesis using flush_lawD(6,7) [OF ab that] flush_lawD(6) [OF bc Some] Some
      by (auto simp: max_def split: if_splits)
  qed
  have size: "conn_send_window c = conn_send_window a - int (payload_total (ms @ ms'))"
      "int (payload_total (ms @ ms')) \<le> max 0 (conn_send_window a)"
    using flush_lawD(2,3) [OF ab] flush_lawD(2,3) [OF bc] by (simp_all add: max_def split: if_splits)
  have frames: "\<forall>(k, e, d) \<in> set (ms @ ms'). d \<noteq> [] \<and> length d \<le> unat (peer_max_frame_size a)"
    using flush_lawD(8) [OF ab] flush_lawD(8) [OF bc] b by auto
  show ?thesis unfolding flush_law_def
    by (intro conjI allI impI c size on gone ends frames window [THEN conjunct1] window [THEN conjunct2, rule_format])
qed

lemma fold_flush_law:
  assumes "send_ok c"
  shows "\<exists>ms c'. fold flush_stream ks (c, out) = (c', out @ wire ms) \<and> flush_law c ms c' \<and> send_ok c'
    \<and> (\<forall>k \<in> set ks. \<forall>ss. map_of (send c') k = Some ss \<longrightarrow> conn_send_window c' \<le> 0 \<or> ss_window ss \<le> 0)
    \<and> (\<forall>j. j \<notin> set ks \<longrightarrow> map_of (send c') j = map_of (send c) j)"
  using assms
proof (induction ks arbitrary: c out)
  case Nil
  then show ?case using flush_law_refl by (intro exI [of _ "[]"]) simp
next
  case (Cons k ks)
  obtain ms c1 where k: "flush_stream k (c, out) = (c1, out @ wire ms)" "flush_law c ms c1" "send_ok c1"
      "\<And>ss. map_of (send c1) k = Some ss \<Longrightarrow> conn_send_window c1 \<le> 0 \<or> ss_window ss \<le> 0"
      "\<And>j. j \<noteq> k \<Longrightarrow> map_of (send c1) j = map_of (send c) j"
    by (rule flush_stream_law [OF Cons.prems, of k out], rule that)
  from Cons.IH [OF k(3), of "out @ wire ms"] obtain ms' c2 where
    ks: "fold flush_stream ks (c1, out @ wire ms) = (c2, (out @ wire ms) @ wire ms')" "flush_law c1 ms' c2" "send_ok c2"
      "\<forall>k \<in> set ks. \<forall>ss. map_of (send c2) k = Some ss \<longrightarrow> conn_send_window c2 \<le> 0 \<or> ss_window ss \<le> 0"
      "\<forall>j. j \<notin> set ks \<longrightarrow> map_of (send c2) j = map_of (send c1) j" by blast
  have "conn_send_window c2 \<le> conn_send_window c1" using flush_lawD(2) [OF ks(2)] by simp
  then have "conn_send_window c2 \<le> 0 \<or> ss_window ss \<le> 0" if "map_of (send c2) k = Some ss" for ss
  proof (cases "k \<in> set ks")
    case True
    then show ?thesis using that ks(4) by blast
  next
    case False
    then have "map_of (send c1) k = Some ss" using that ks(5) by simp
    from k(4) [OF this] show ?thesis using \<open>conn_send_window c2 \<le> conn_send_window c1\<close> by linarith
  qed
  then have "\<forall>j \<in> set (k # ks). \<forall>ss. map_of (send c2) j = Some ss \<longrightarrow> conn_send_window c2 \<le> 0 \<or> ss_window ss \<le> 0"
    using ks(4) by simp
  moreover have "fold flush_stream (k # ks) (c, out) = (c2, out @ wire (ms @ ms'))" using k(1) ks(1) by simp
  moreover have "\<forall>j. j \<notin> set (k # ks) \<longrightarrow> map_of (send c2) j = map_of (send c) j" using k(5) ks(5) by simp
  ultimately show ?case using ks(3) flush_law_trans [OF k(2) ks(2)] by blast
qed

lemma flush_all_law:
  assumes "send_ok c" "set (ord (map fst (send c))) = fst ` set (send c)"
  shows "\<exists>ms c'. flush_all ord (c, out) = (c', out @ wire ms) \<and> flush_law c ms c' \<and> send_ok c'
    \<and> (\<forall>k ss. map_of (send c') k = Some ss \<longrightarrow> conn_send_window c' \<le> 0 \<or> ss_window ss \<le> 0)"
proof -
  let ?ks = "ord (map fst (send c))"
  obtain ms c' where f: "fold flush_stream ?ks (c, out) = (c', out @ wire ms)" "flush_law c ms c'" "send_ok c'"
    "\<forall>k \<in> set ?ks. \<forall>ss. map_of (send c') k = Some ss \<longrightarrow> conn_send_window c' \<le> 0 \<or> ss_window ss \<le> 0"
    using fold_flush_law [OF assms(1), of ?ks out] by blast
  have "k \<in> set ?ks" if "map_of (send c') k = Some ss" for k ss
    using that flush_lawD(5) [OF f(2), of k] assms(2) by (cases "map_of (send c) k") (force dest: map_of_SomeD)+
  then show ?thesis using f by (intro exI [of _ ms] exI [of _ c']) (auto simp: flush_all_def)
qed

text \<open>
  Property C5: flow control of a connection, for every order in which the hash map of pending
  responses is visited. A flush sends on each stream a prefix of what is pending there, in
  order, within that stream's window and altogether within the connection's, in frames that
  are not empty and not above the peer's maximum, with END_STREAM exactly on the streams that
  have nothing left; and it does not stop early: every stream with bytes left has an exhausted
  window, or the connection has.
\<close>

theorem flush_all_flow_control:
  assumes "send_ok c" "set (ord (map fst (send c))) = fst ` set (send c)"
  shows "\<exists>ms c'. flush_all ord (c, out) = (c', out @ wire ms) \<and> flush_law c ms c' \<and> send_ok c'
    \<and> (\<forall>k ss. map_of (send c') k = Some ss \<longrightarrow> conn_send_window c' \<le> 0 \<or> ss_window ss \<le> 0)"
  using assms by (rule flush_all_law)

theorem flush_all_flow_control_witness:
  "let c = Http2Connection_new\<lparr>conn_send_window := 3,
             send := [(1, \<lparr>ss_pending = [1, 2], ss_window = 9\<rparr>), (3, \<lparr>ss_pending = [3, 4], ss_window = 9\<rparr>)]\<rparr> in
     send_ok c \<and> (\<exists>ms c'. flush_all rev (c, []) = (c', wire ms) \<and> flush_law c ms c'
       \<and> (\<forall>k ss. map_of (send c') k = Some ss \<longrightarrow> conn_send_window c' \<le> 0 \<or> ss_window ss \<le> 0))"
proof -
  let ?c = "Http2Connection_new\<lparr>conn_send_window := 3,
      send := [(1, \<lparr>ss_pending = [1, 2], ss_window = 9\<rparr>), (3, \<lparr>ss_pending = [3, 4], ss_window = 9\<rparr>)]\<rparr>"
  have ok: "send_ok ?c" by (simp add: send_ok_def Http2Connection_new_def DEFAULT_MAX_FRAME_SIZE_def)
  have "set (rev (map fst (send ?c))) = fst ` set (send ?c)" by auto
  from flush_all_flow_control [where c = ?c and ord = rev and out = "[]", OF ok this] show ?thesis using ok unfolding Let_def append_Nil by blast
qed

section \<open>Completion\<close>

lemma payload_by_stream:
  assumes "distinct ks" "\<forall>(k, e, d) \<in> set ms. k \<in> set ks"
  shows "payload_total ms = sum_list (map (\<lambda>k. length (payload_on k ms)) ks)"
  using assms(2)
proof (induction ms)
  case (Cons m ms)
  obtain k e d where m: "m = (k, e, d)" by (cases m)
  have "payload_on j (m # ms) = (if j = k then d else []) @ payload_on j ms" for j by (simp add: payload_on_def m)
  then have "sum_list (map (\<lambda>j. length (payload_on j (m # ms))) ks)
      = sum_list (map (\<lambda>j. if j = k then length d else 0) ks) + sum_list (map (\<lambda>j. length (payload_on j ms)) ks)"
    by (simp add: sum_list_addf [symmetric]) (rule arg_cong [of _ _ sum_list], simp)
  moreover have "sum_list (map (\<lambda>j. if j = k then length d else 0) ks) = length d"
    using assms(1) Cons.prems m by (simp add: sum_list_distinct_conv_sum_set)
  ultimately show ?case using Cons m by (simp add: payload_total_def)
qed (simp add: payload_total_def)

lemma flush_law_streams:
  assumes "flush_law c ms c'" "(k, e, d) \<in> set ms"
  shows "k \<in> fst ` set (send c)"
proof -
  have "d \<noteq> []" using bspec [OF flush_lawD(8) [OF assms(1)] assms(2)] by simp
  then have "payload_on k ms \<noteq> []" using assms(2) by (auto simp: payload_on_def intro!: bexI [of _ "(k, e, d)"])
  then have "unsent c k \<noteq> []" using flush_lawD(4) [OF assms(1), of k] by auto
  then show ?thesis by (force simp: unsent_def dest: map_of_SomeD split: option.splits)
qed

lemma flush_law_totals:
  assumes "flush_law c ms c'" "send_ok c"
  shows "sum_list (map (\<lambda>(k, ss). length (ss_pending ss)) (send c))
    = payload_total ms + sum_list (map (\<lambda>k. length (unsent c' k)) (map fst (send c)))"
proof -
  let ?ks = "map fst (send c)"
  have d: "distinct ?ks" using assms(2) by (simp add: send_ok_def)
  have "sum_list (map (\<lambda>(k, ss). length (ss_pending ss)) (send c)) = sum_list (map (\<lambda>k. length (unsent c k)) ?ks)"
    using d by (auto simp: comp_def unsent_def map_of_eq_Some_iff intro!: arg_cong [of _ _ sum_list])
  also have "\<dots> = sum_list (map (\<lambda>k. length (payload_on k ms) + length (unsent c' k)) ?ks)"
    using flush_lawD(4) [OF assms(1)] by (metis length_append)
  also have "\<dots> = sum_list (map (\<lambda>k. length (payload_on k ms)) ?ks) + sum_list (map (\<lambda>k. length (unsent c' k)) ?ks)"
    by (rule sum_list_addf)
  also have "sum_list (map (\<lambda>k. length (payload_on k ms)) ?ks) = payload_total ms"
    using payload_by_stream [OF d, of ms] flush_law_streams [OF assms(1)] by force
  finally show ?thesis .
qed

text \<open>
  Responses complete. As soon as the windows cover what is pending (each stream's
  window its own bytes, the connection window all of them together), one flush sends everything
  and ends every stream, in whatever order the streams are visited.
\<close>

theorem flush_all_completes:
  assumes ok: "send_ok c" "set (ord (map fst (send c))) = fst ` set (send c)"
    and window: "\<forall>(k, ss) \<in> set (send c). int (length (ss_pending ss)) \<le> ss_window ss"
    and conn: "int (sum_list (map (\<lambda>(k, ss). length (ss_pending ss)) (send c))) \<le> conn_send_window c"
  shows "\<exists>ms c'. flush_all ord (c, out) = (c', out @ wire ms) \<and> send c' = []
    \<and> (\<forall>(k, ss) \<in> set (send c). payload_on k ms = ss_pending ss \<and> (\<exists>d. (k, True, d) \<in> set ms))"
proof -
  obtain ms c' where f: "flush_all ord (c, out) = (c', out @ wire ms)" "flush_law c ms c'" "send_ok c'"
    and stop: "\<And>k ss. map_of (send c') k = Some ss \<Longrightarrow> conn_send_window c' \<le> 0 \<or> ss_window ss \<le> 0"
    using flush_all_law [where c = c and ord = ord and out = out, OF ok] by blast
  have gone: "map_of (send c') k = None" for k
  proof (rule ccontr)
    assume "map_of (send c') k \<noteq> None"
    then obtain ss' where ss': "map_of (send c') k = Some ss'" by blast
    then obtain ss where ss: "map_of (send c) k = Some ss" using flush_lawD(5) [OF f(2), of k] by fastforce
    have p: "ss_pending ss' \<noteq> []" using f(3) ss' by (simp add: send_ok_iff)
    have "length (ss_pending ss) = length (payload_on k ms) + length (ss_pending ss')"
      using arg_cong [OF flush_lawD(4) [OF f(2), of k], of length] ss ss' by (simp add: unsent_def)
    moreover have "int (length (ss_pending ss)) \<le> ss_window ss" using window map_of_SomeD [OF ss] by auto
    ultimately have w: "0 < ss_window ss'" using flush_lawD(7) [OF f(2) ss ss'] p [folded length_greater_0_conv] by linarith
    have "k \<in> set (map fst (send c))" using map_of_SomeD [OF ss] by force
    then have "length (unsent c' k) \<le> sum_list (map (\<lambda>k. length (unsent c' k)) (map fst (send c)))"
    proof -
      assume "k \<in> set (map fst (send c))"
      then have "length (unsent c' k) \<in> set (map (\<lambda>k. length (unsent c' k)) (map fst (send c)))" unfolding set_map by blast
      then show ?thesis by (rule member_le_sum_list) simp
    qed
    moreover have "0 < length (unsent c' k)" using p ss' by (simp add: unsent_def)
    ultimately have "0 < conn_send_window c'"
      using conn flush_law_totals [OF f(2) ok(1)] flush_lawD(2) [OF f(2)] by linarith
    then show False using stop [OF ss'] w by simp
  qed
  have "send c' = []" using gone [of "fst (hd (send c'))"] by (cases "send c'") auto
  moreover have "payload_on k ms = ss_pending ss \<and> (\<exists>d. (k, True, d) \<in> set ms)" if "(k, ss) \<in> set (send c)" for k ss
  proof -
    have "map_of (send c) k = Some ss" using that ok(1) by (simp add: send_ok_def)
    then show ?thesis using flush_lawD(4) [OF f(2), of k] flush_lawD(9) [OF f(2), of k] gone [of k] by (simp add: unsent_def)
  qed
  ultimately show ?thesis using f(1) by blast
qed

theorem flush_all_completes_witness:
  "let c = Http2Connection_new\<lparr>send := [(1, \<lparr>ss_pending = [1, 2], ss_window = 2\<rparr>), (3, \<lparr>ss_pending = [3], ss_window = 9\<rparr>)]\<rparr> in
     \<exists>ms c'. flush_all rev (c, []) = (c', wire ms) \<and> send c' = [] \<and> payload_on 1 ms = [1, 2] \<and> payload_on 3 ms = [3]"
proof -
  let ?c = "Http2Connection_new\<lparr>send := [(1, \<lparr>ss_pending = [1, 2], ss_window = 2\<rparr>), (3, \<lparr>ss_pending = [3], ss_window = 9\<rparr>)]\<rparr>"
  have "send_ok ?c" by (simp add: send_ok_def Http2Connection_new_def DEFAULT_MAX_FRAME_SIZE_def)
  moreover have "set (rev (map fst (send ?c))) = fst ` set (send ?c)" by auto
  moreover have "\<forall>(k, ss) \<in> set (send ?c). int (length (ss_pending ss)) \<le> ss_window ss" by simp
  moreover have "int (sum_list (map (\<lambda>(k, ss). length (ss_pending ss)) (send ?c))) \<le> conn_send_window ?c"
    by (simp add: Http2Connection_new_def)
  ultimately have "\<exists>ms c'. flush_all rev (?c, []) = (c', [] @ wire ms) \<and> send c' = []
    \<and> (\<forall>(k, ss) \<in> set (send ?c). payload_on k ms = ss_pending ss \<and> (\<exists>d. (k, True, d) \<in> set ms))"
    by (rule flush_all_completes [where c = ?c and ord = rev])
  then show ?thesis by (fastforce simp: Let_def)
qed

end
