(* ===== verification/Hpack_Int.thy ===== *)
theory Hpack_Int
  imports Hpack
begin

unbundle bit_operations_syntax

text \<open>
  The prefix integers of HPACK: what the encoder writes, the decoder reads back, for every
  64-bit value and every prefix width, in front of any further bytes.
\<close>

lemma bit_0x80: "bit (0x80 :: u8) n \<longleftrightarrow> n = 7" "bit (0x80 :: int) n \<longleftrightarrow> n = 7"
proof -
  have "bit (push_bit 7 1 :: u8) n \<longleftrightarrow> n = 7" "bit (push_bit 7 1 :: int) n \<longleftrightarrow> n = 7"
    by (auto simp: bit_push_bit_iff bit_1_iff simp del: push_bit_of_1)
  then show "bit (0x80 :: u8) n \<longleftrightarrow> n = 7" "bit (0x80 :: int) n \<longleftrightarrow> n = 7" by simp_all
qed

lemma byte_fields:
  assumes "x < (128 :: u64)"
  shows "(ucast x :: u8) AND 0x80 = 0" "(ucast (ucast x :: u8) :: u64) AND 0x7f = x"
    "((ucast x :: u8) OR 0x80) AND 0x80 \<noteq> 0" "(ucast ((ucast x :: u8) OR 0x80) :: u64) AND 0x7f = x"
proof -
  have x: "take_bit 7 x = x" using assms by (intro take_bit_self) (simp add: word_less_nat_alt)
  then have low: "bit x n \<Longrightarrow> n < 7" for n by (metis bit_take_bit_iff)
  then have b: "bit x n \<Longrightarrow> n < 7 \<and> n < 8" for n using low [of n] by linarith
  have m: "(0x7f :: u64) = mask 7" by (simp add: mask_eq_exp_minus_1)
  have u: "bit (ucast x :: u8) n \<longleftrightarrow> bit x n" for n using b [of n] by (auto simp: bit_ucast_iff)
  show "(ucast x :: u8) AND 0x80 = 0"
    by (rule bit_word_eqI) (metis b u bit_0x80 bit_and_iff bit_0_eq bot_apply bot_bool_def less_irrefl)
  show "(ucast (ucast x :: u8) :: u64) AND 0x7f = x" unfolding m
    by (rule bit_word_eqI) (use b in \<open>auto simp: bit_simps bit_0x80\<close>)
  show "(ucast ((ucast x :: u8) OR 0x80) :: u64) AND 0x7f = x" unfolding m
    by (rule bit_word_eqI) (use b in \<open>auto simp: bit_simps bit_0x80\<close>)
  have "bit (((ucast x :: u8) OR 0x80) AND 0x80) 7" by (simp add: bit_simps bit_0x80)
  then show "((ucast x :: u8) OR 0x80) AND 0x80 \<noteq> 0" by (metis bit_0_eq bot_apply bot_bool_def)
qed

lemma int_tail_roundtrip:
  "unat w < 2 ^ (64 - m) \<Longrightarrow> m < 64 \<Longrightarrow>
   decode_tail (int_tail w @ rest) v m i = Some (v + push_bit m w, i + length (int_tail w))"
proof (induction w arbitrary: v m i rule: int_tail.induct)
  case (1 w)
  show ?case
  proof (cases "128 \<le> w")
    case False
    then show ?thesis using byte_fields [of w] by (simp add: int_tail.simps)
  next
    case True
    then have "128 \<le> unat w" by (simp add: word_le_nat_alt)
    then have "(2::nat) ^ 7 < 2 ^ (64 - m)" using 1 by simp
    then have m: "m + 7 < 64" using power_less_imp_less_exp [of "2::nat" 7 "64 - m"] by simp
    have "unat (w div 128) < 2 ^ (64 - (m + 7))"
    proof -
      have "(2::nat) ^ (64 - m) = 2 ^ (64 - (m + 7)) * 128" 
      proof -
        have "64 - m = (64 - (m + 7)) + 7" using m by simp
        then show ?thesis by (simp only: power_add) simp
      qed
      then show ?thesis using 1 by (simp add: unat_div less_mult_imp_div_less)
    qed
    then have IH: "decode_tail (int_tail (w div 128) @ rest) v' (m + 7) i'
      = Some (v' + push_bit (m + 7) (w div 128), i' + length (int_tail (w div 128)))" for v' i'
      using 1 True m by blast
    have lt: "w mod 128 < 128" by (simp add: word_mod_less_divisor)
    have "push_bit m w = push_bit m (w mod 128) + push_bit (m + 7) (w div 128)"
    proof -
      have "w = w div 128 * 128 + w mod 128" by (rule div_mult_mod_eq [symmetric])
      then have "push_bit m w = 2 ^ m * (w div 128 * 128 + w mod 128)" by (simp add: push_bit_eq_mult)
      then show ?thesis by (simp only: push_bit_eq_mult power_add) (simp add: algebra_simps)
    qed
    then show ?thesis using True m IH byte_fields [OF lt] by (simp add: int_tail.simps [of w] add.assoc)
  qed
qed

lemma prefix_field:
  assumes "n \<le> 8" "take_bit n pb = 0" "take_bit n v = v"
  shows "(ucast (pb OR ucast v :: u8) :: u64) AND mask n = v"
proof (rule bit_word_eqI)
  fix k assume "k < LENGTH(64)"
  have b: "bit v k \<Longrightarrow> k < n" using assms(3) by (metis bit_take_bit_iff)
  have pb: "k < n \<Longrightarrow> \<not> bit pb k"
    using assms(2) by (metis bit_take_bit_iff bit_0_eq bot_apply bot_bool_def)
  show "bit ((ucast (pb OR ucast v :: u8) :: u64) AND mask n) k = bit v k"
  proof (cases "k < n")
    case True
    then show ?thesis using pb assms(1) \<open>k < LENGTH(64)\<close> by (simp add: bit_simps)
  next
    case False
    then have "\<not> bit v k" using b by blast
    then show ?thesis using False by (simp add: bit_simps)
  qed
qed

lemma below_mask: "v \<le> (mask n :: u64) \<Longrightarrow> take_bit n v = v"
proof (rule take_bit_self)
  assume "v \<le> mask n"
  also have "(mask n :: u64) = take_bit n (- 1)" by (rule mask_eq_take_bit_minus_one)
  finally have "unat v \<le> take_bit n (unat (- 1 :: u64))" unfolding word_le_nat_alt unsigned_take_bit_eq .
  then show "unat v < 2 ^ n" by (rule le_less_trans [OF _ take_bit_nat_less_exp])
qed

lemma decode_encode_integer:
  assumes "1 \<le> n" "n \<le> 8" "take_bit n pb = 0"
  shows "decode_integer (encode_integer v n pb @ rest) n = Some (v, length (encode_integer v n pb))"
proof (cases "v < mask n")
  case True
  then have "take_bit n v = v" by (intro below_mask) simp
  then have "(ucast (pb OR ucast v :: u8) :: u64) AND mask n = v" using prefix_field assms by blast
  then show ?thesis using True by (simp add: encode_integer_def decode_integer_def mask_eq Let_def)
next
  case False
  have "(ucast (pb OR ucast (mask n :: u64) :: u8) :: u64) AND mask n = mask n"
    using prefix_field assms below_mask by blast
  moreover have "unat (v - mask n) < 2 ^ (64 - 0)" using unsigned_less [of "v - mask n"] by simp
  then have "decode_tail (int_tail (v - mask n) @ rest) (mask n) 0 1 = Some (v, 1 + length (int_tail (v - mask n)))"
    using int_tail_roundtrip [of "v - mask n" 0 rest "mask n" 1] by simp
  ultimately show ?thesis using False by (simp add: encode_integer_def decode_integer_def mask_eq Let_def)
qed

text \<open>
  Prefix integers. Every \<open>u64\<close> written with any prefix width up to 8 bits, under flag
  bits outside the prefix, is read back, and the decoder consumes exactly the bytes written.
\<close>

theorem hpack_integer_roundtrip:
  assumes "1 \<le> n" "n \<le> 8" "take_bit n pb = 0"
  shows "decode_integer (encode_integer v n pb @ rest) n = Some (v, length (encode_integer v n pb))"
  by (rule decode_encode_integer [OF assms])

theorem hpack_integer_roundtrip_witness:
  "decode_integer (encode_integer (- 1) 7 0x80 @ [0]) 7 = Some (- 1, length (encode_integer (- 1) 7 0x80))"
  by (rule hpack_integer_roundtrip) code_simp+

end
