(* ===== verification/Hpack_Huffman.thy ===== *)
theory Hpack_Huffman
  imports Hpack
begin

unbundle bit_operations_syntax

text \<open>
  The Huffman code of HPACK. The table is checked by evaluation: listed by code value, the codes
  own disjoint intervals of 30-bit words, which makes it prefix free, and none is all ones, which
  keeps the padding apart. Both loops are then read as functions on lists of bits, most
  significant first, and the decoder inverts the encoder on every byte string.
\<close>

section \<open>The table\<close>

definition huff_order :: "nat list" where
  "huff_order =
     [48, 49, 50, 97, 99, 101, 105, 111, 115, 116, 32, 37, 45, 46, 47, 51, 52, 53, 54, 55,
      56, 57, 61, 65, 95, 98, 100, 102, 103, 104, 108, 109, 110, 112, 114, 117, 58, 66, 67, 68,
      69, 70, 71, 72, 73, 74, 75, 76, 77, 78, 79, 80, 81, 82, 83, 84, 85, 86, 87, 89,
      106, 107, 113, 118, 119, 120, 121, 122, 38, 42, 44, 59, 88, 90, 33, 34, 40, 41, 63, 39,
      43, 124, 35, 62, 0, 36, 64, 91, 93, 126, 94, 125, 60, 96, 123, 92, 195, 208, 128, 130,
      131, 162, 184, 194, 224, 226, 153, 161, 167, 172, 176, 177, 179, 209, 216, 217, 227, 229, 230, 129,
      132, 133, 134, 136, 146, 154, 156, 160, 163, 164, 169, 170, 173, 178, 181, 185, 186, 187, 189, 190,
      196, 198, 228, 232, 233, 1, 135, 137, 138, 139, 140, 141, 143, 147, 149, 150, 151, 152, 155, 157,
      158, 165, 166, 168, 174, 175, 180, 182, 183, 188, 191, 197, 231, 239, 9, 142, 144, 145, 148, 159,
      171, 206, 215, 225, 236, 237, 199, 207, 234, 235, 192, 193, 200, 201, 202, 205, 210, 213, 218, 219,
      238, 240, 242, 243, 255, 203, 204, 211, 212, 214, 221, 222, 223, 241, 244, 245, 246, 247, 248, 250,
      251, 252, 253, 254, 2, 3, 4, 5, 6, 7, 8, 11, 12, 14, 15, 16, 17, 18, 19, 20,
      21, 23, 24, 25, 26, 27, 28, 29, 30, 31, 127, 220, 249, 10, 13, 22]"

definition seg_lo :: "u32 \<times> nat \<Rightarrow> nat" where
  "seg_lo e = unat (fst e) * 2 ^ (30 - snd e)"

definition seg_hi :: "u32 \<times> nat \<Rightarrow> nat" where
  "seg_hi e = (unat (fst e) + 1) * 2 ^ (30 - snd e)"

definition entry_ok :: "u32 \<times> nat \<Rightarrow> bool" where
  "entry_ok e \<longleftrightarrow> 1 \<le> snd e \<and> snd e \<le> 30 \<and> unat (fst e) + 1 < 2 ^ snd e"

lemma table_length: "length TABLE = 256"
  by (simp add: TABLE_def)

lemma table_entries: "list_all entry_ok TABLE"
  unfolding TABLE_def by (simp add: entry_ok_def)

lemma huff_order_perm: "list_all (\<lambda>i. i < 256) huff_order" "length huff_order = 256"
  by (simp_all add: huff_order_def)

lemma huff_order_codes: "successively (\<lambda>a b. seg_hi a \<le> seg_lo b) (map (\<lambda>i. TABLE ! i) huff_order)"
  unfolding TABLE_def huff_order_def by (simp add: seg_lo_def seg_hi_def)

definition code_of :: "u8 \<Rightarrow> u32 \<times> nat" where
  "code_of b = TABLE ! unat b"

lemma u8_less: "unat (b :: u8) < 256"
  using unsigned_less [of b, where 'a = nat] by simp

lemma code_of_ok: "entry_ok (code_of b)"
  using table_entries u8_less [of b] by (simp add: code_of_def list_all_length table_length)

lemma entry_seg: "entry_ok e \<Longrightarrow> seg_lo e < seg_hi e"
  by (simp add: seg_lo_def seg_hi_def)

lemma order_sorted: "sorted_wrt (\<lambda>a b. seg_hi a \<le> seg_lo b) (map (\<lambda>i. TABLE ! i) huff_order)"
proof -
  have all: "entry_ok e" if e: "e \<in> set (map (\<lambda>i. TABLE ! i) huff_order)" for e
  proof -
    obtain i where "e = TABLE ! i" "i \<in> set huff_order" using e unfolding set_map by blast
    moreover have "i < 256" using calculation(2) huff_order_perm(1) by (simp add: list_all_iff)
    ultimately have "e = TABLE ! i" "i < 256" by auto
    then show ?thesis using table_entries by (simp add: list_all_length table_length)
  qed
  have "sorted_wrt (\<lambda>a b. seg_hi a \<le> seg_lo b) xs"
    if "successively (\<lambda>a b. seg_hi a \<le> seg_lo b) xs" "\<forall>e\<in>set xs. entry_ok e" for xs
    using that
  proof (induction xs rule: induct_list012)
    case (3 x y zs)
    then have "sorted_wrt (\<lambda>a b. seg_hi a \<le> seg_lo b) (y # zs)" "seg_hi x \<le> seg_lo y" by auto
    moreover have "seg_lo y < seg_hi y" using 3 entry_seg by auto
    ultimately show ?case by fastforce
  qed auto
  then show ?thesis using huff_order_codes all by blast
qed

lemma order_nth:
  assumes "p < q" "q < length huff_order"
  shows "seg_hi (TABLE ! (huff_order ! p)) \<le> seg_lo (TABLE ! (huff_order ! q))"
  using sorted_wrt_nth_less [OF order_sorted, of p q] assms by simp

lemma order_covers: "i < 256 \<Longrightarrow> i \<in> set huff_order"
proof -
  have "distinct huff_order"
  proof (rule ccontr)
    assume "\<not> distinct huff_order"
    then obtain p q where pq: "p < q" "q < length huff_order" "huff_order ! p = huff_order ! q"
      by (metis distinct_conv_nth linorder_neqE_nat)
    have "seg_hi (TABLE ! (huff_order ! p)) \<le> seg_lo (TABLE ! (huff_order ! q))" using order_nth pq(1,2) .
    moreover have "entry_ok (TABLE ! (huff_order ! q))"
      using table_entries huff_order_perm pq(2) by (simp add: list_all_length table_length)
    ultimately show False using pq(3) entry_seg by fastforce
  qed
  then have "card (set huff_order) = 256" using huff_order_perm(2) by (simp add: distinct_card)
  moreover have "set huff_order \<subseteq> {..<256}" using huff_order_perm(1) by (auto simp: list_all_iff)
  ultimately have "set huff_order = {..<256}" by (intro card_subset_eq) auto
  then show "i < 256 \<Longrightarrow> ?thesis" by simp
qed

text \<open>Distinct bytes have disjoint intervals, so no code is a prefix of another.\<close>

lemma codes_disjoint:
  assumes "a \<noteq> b"
  shows "seg_hi (code_of a) \<le> seg_lo (code_of b) \<or> seg_hi (code_of b) \<le> seg_lo (code_of a)"
proof -
  obtain p where p: "huff_order ! p = unat a" "p < length huff_order"
    using order_covers [OF u8_less, of a] by (metis in_set_conv_nth)
  obtain q where q: "huff_order ! q = unat b" "q < length huff_order"
    using order_covers [OF u8_less, of b] by (metis in_set_conv_nth)
  have "p \<noteq> q" using p q assms by (metis word_unat_eq_iff)
  then consider "p < q" | "q < p" by linarith
  then show ?thesis unfolding code_of_def
    by cases (use order_nth [of p q] order_nth [of q p] p q in auto)
qed

lemma code_prefix_free:
  assumes "drop_bit (snd (code_of a) - k) (fst (code_of a)) = fst (code_of b)" "snd (code_of b) = k" "k \<le> snd (code_of a)"
  shows "a = b"
proof (rule ccontr)
  assume "a \<noteq> b"
  obtain c l where a: "code_of a = (c, l)" by fastforce
  have l: "k \<le> l" "l \<le> 30" using assms code_of_ok [of a] a by (auto simp: entry_ok_def)
  let ?d = "unat c div 2 ^ (l - k)"
  have d: "unat (fst (code_of b)) = ?d" unfolding assms(1) [symmetric] a
    by (simp only: fst_conv snd_conv unat_drop_bit_eq) (simp add: drop_bit_eq_div)
  have pow: "(2::nat) ^ (30 - k) = 2 ^ (l - k) * 2 ^ (30 - l)" using l by (simp flip: power_add)
  have "?d * 2 ^ (l - k) \<le> unat c" by simp
  then have lo: "seg_lo (code_of b) \<le> seg_lo (code_of a)"
    using mult_right_mono [of "?d * 2 ^ (l - k)" "unat c" "2 ^ (30 - l)"]
    by (simp add: seg_lo_def d assms(2) a pow mult.assoc)
  have "unat c + 1 \<le> (?d + 1) * 2 ^ (l - k)"
  proof -
    have "unat c mod 2 ^ (l - k) < 2 ^ (l - k)" by simp
    then show ?thesis using div_mult_mod_eq [of "unat c" "2 ^ (l - k)"] by (simp only: add_mult_distrib)
  qed
  then have hi: "seg_hi (code_of a) \<le> seg_hi (code_of b)"
    using mult_right_mono [of "unat c + 1" "(?d + 1) * 2 ^ (l - k)" "2 ^ (30 - l)"]
    by (simp only: seg_hi_def d assms(2) a pow mult.assoc fst_conv snd_conv)
  show False using codes_disjoint [OF \<open>a \<noteq> b\<close>] lo hi entry_seg [OF code_of_ok] by (meson le_trans not_le)
qed

lemma huff_fill_Some:
  "huff_fill cs s m x = Some b \<Longrightarrow> m x = Some b \<or> (\<exists>i<length cs. cs ! i = x \<and> b = word_of_nat (s + i))"
proof (induction cs arbitrary: s m)
  case (Cons c cs)
  have "huff_fill cs (s + 1) (m(c \<mapsto> word_of_nat s)) x = Some b" using Cons.prems by simp
  from Cons.IH [OF this] consider "(m(c \<mapsto> word_of_nat s)) x = Some b"
    | i where "i < length cs" "cs ! i = x" "b = word_of_nat (s + 1 + i)" by blast
  then show ?case
  proof cases
    case 1
    then show ?thesis by (cases "x = c") (auto intro: exI [of _ 0])
  next
    case 2
    then show ?thesis by (auto intro!: disjI2 exI [of _ "Suc i"])
  qed
qed simp

lemma huff_fill_dom: "x \<in> set cs \<or> m x \<noteq> None \<Longrightarrow> huff_fill cs s m x \<noteq> None"
  by (induction cs arbitrary: s m) auto

lemma huff_map_code: "huff_map x = Some b \<Longrightarrow> code_of b = x"
proof -
  assume "huff_map x = Some b"
  then obtain i where "i < 256" "TABLE ! i = x" "b = word_of_nat i"
    using huff_fill_Some [of TABLE 0 Map.empty x b] by (auto simp: huff_map_def table_length)
  then show "code_of b = x" by (simp add: code_of_def unat_of_nat)
qed

lemma huff_map_Some: "huff_map x = Some b \<longleftrightarrow> code_of b = x"
proof
  assume x: "code_of b = x"
  then have "x \<in> set TABLE" using u8_less [of b] by (auto simp: code_of_def table_length)
  then obtain b' where b': "huff_map x = Some b'" using huff_fill_dom [of x TABLE Map.empty 0] by (auto simp: huff_map_def)
  then show "huff_map x = Some b"
    using code_prefix_free [of b "snd x" b'] huff_map_code [OF b'] x by simp
qed (rule huff_map_code)

section \<open>Bits\<close>

definition low_bits :: "nat \<Rightarrow> 'a::len word \<Rightarrow> bool list" where
  "low_bits n w = map (bit w) (rev [0..<n])"

lemma length_low_bits [simp]: "length (low_bits n w) = n"
  by (simp add: low_bits_def)

lemma low_bits_0 [simp]: "low_bits 0 w = []"
  by (simp add: low_bits_def)

lemma low_bits_Suc: "low_bits (Suc n) w = bit w n # low_bits n w"
  by (simp add: low_bits_def)

lemma low_bits_append: "low_bits (n + k) w = map (\<lambda>i. bit w (i + k)) (rev [0..<n]) @ low_bits k w"
  by (induction n) (simp_all add: low_bits_Suc)

lemma low_bits_cong: "(\<And>i. i < n \<Longrightarrow> bit v i = bit w i) \<Longrightarrow> low_bits n v = low_bits n w"
  by (auto simp: low_bits_def)

definition code_bits :: "u8 \<Rightarrow> bool list" where
  "code_bits b = low_bits (snd (code_of b)) (fst (code_of b))"

lemma code_high_bits: "bit (fst (code_of b)) i \<Longrightarrow> i < snd (code_of b)"
proof -
  have "unat (fst (code_of b)) < 2 ^ snd (code_of b)" using code_of_ok [of b] by (simp add: entry_ok_def)
  then have "take_bit (snd (code_of b)) (fst (code_of b)) = fst (code_of b)"
    by (metis take_bit_nat_eq_self unsigned_take_bit_eq word_unat_eq_iff)
  then show "bit (fst (code_of b)) i \<Longrightarrow> ?thesis" by (metis bit_take_bit_iff)
qed

text \<open>Shifting a code into the accumulator appends its bits; draining takes whole bytes off the front.\<close>

lemma low_bits_shift_in:
  assumes "n + snd (code_of b) \<le> 64"
  shows "low_bits (n + snd (code_of b)) (push_bit (snd (code_of b)) w OR ucast (fst (code_of b)) :: u64)
    = low_bits n w @ code_bits b"
proof -
  let ?k = "snd (code_of b)" and ?c = "fst (code_of b)"
  have "bit (push_bit ?k w OR ucast ?c :: u64) (i + ?k) = bit w i" if "i < n" for i
    using that assms code_high_bits [of b "i + ?k"] by (auto simp: bit_or_iff bit_push_bit_iff bit_ucast_iff)
  then have "map (\<lambda>i. bit (push_bit ?k w OR ucast ?c :: u64) (i + ?k)) (rev [0..<n]) = low_bits n w"
    by (auto simp: low_bits_def)
  moreover have "?k \<le> 30" using code_of_ok [of b] by (simp add: entry_ok_def)
  then have "low_bits ?k (push_bit ?k w OR ucast ?c :: u64) = code_bits b"
    by (auto simp: code_bits_def low_bits_def bit_or_iff bit_push_bit_iff bit_ucast_iff)
  ultimately show ?thesis by (simp add: low_bits_append)
qed

lemma low_bits_top_byte:
  assumes "8 \<le> n" "n \<le> 64"
  shows "low_bits n w = low_bits 8 (ucast (drop_bit (n - 8) w) :: u8) @ low_bits (n - 8) (w :: u64)"
proof -
  have "low_bits (8 + (n - 8)) w = map (\<lambda>i. bit w (i + (n - 8))) (rev [0..<8]) @ low_bits (n - 8) w"
    by (rule low_bits_append)
  moreover have "map (\<lambda>i. bit w (i + (n - 8))) (rev [0..<8]) = low_bits 8 (ucast (drop_bit (n - 8) w) :: u8)"
    by (auto simp: low_bits_def bit_ucast_iff bit_drop_bit_eq add.commute)
  ultimately show ?thesis using assms(1) by simp
qed

abbreviation bits_of :: "bytes \<Rightarrow> bool list" where
  "bits_of bs \<equiv> concat (map (low_bits 8) bs)"

lemma huff_drain_bits:
  "n \<le> 64 \<Longrightarrow> huff_drain w n out = (n', out') \<Longrightarrow>
   n' < 8 \<and> bits_of out' @ low_bits n' w = bits_of out @ low_bits n w"
proof (induction w n out rule: huff_drain.induct)
  case (1 w n out)
  show ?case
  proof (cases "8 \<le> n")
    case True
    then have "huff_drain w (n - 8) (out @ [ucast (drop_bit (n - 8) w)]) = (n', out')"
      using "1.prems" by (simp add: huff_drain.simps [of w n])
    then show ?thesis using "1.IH" True "1.prems" low_bits_top_byte [of n w] by simp
  next
    case False
    then show ?thesis using "1.prems" by (simp add: huff_drain.simps)
  qed
qed

lemma huff_encode_loop_bits:
  "n < 8 \<Longrightarrow> huff_encode_loop bs w n out = (w', n', out') \<Longrightarrow>
   n' < 8 \<and> bits_of out' @ low_bits n' w' = bits_of out @ low_bits n w @ concat (map code_bits bs)"
proof (induction bs arbitrary: w n out)
  case (Cons b bs)
  obtain c l where cl: "code_of b = (c, l)" by fastforce
  have l: "l \<le> 30" using code_of_ok [of b] cl by (simp add: entry_ok_def)
  let ?w = "push_bit l w OR ucast c :: u64"
  obtain n1 out1 where d: "huff_drain ?w (n + l) out = (n1, out1)" by fastforce
  then have rest: "huff_encode_loop bs ?w n1 out1 = (w', n', out')"
    using Cons.prems cl by (simp add: code_of_def Let_def)
  have "n1 < 8 \<and> bits_of out1 @ low_bits n1 ?w = bits_of out @ low_bits (n + l) ?w"
    using huff_drain_bits [OF _ d] l Cons.prems(1) by simp
  moreover have "low_bits (n + l) ?w = low_bits n w @ code_bits b"
    using low_bits_shift_in [of n b w] l Cons.prems(1) cl by simp
  ultimately show ?case using Cons.IH [OF _ rest] by simp
qed simp

lemma huffman_encode_bits: "\<exists>p<8. bits_of (huffman_encode bs) = concat (map code_bits bs) @ replicate p True"
proof -
  obtain w n out where e: "huff_encode_loop bs 0 0 [] = (w, n, out)" by (metis prod_cases3)
  have v: "n < 8" "bits_of out @ low_bits n w = concat (map code_bits bs)"
    using huff_encode_loop_bits [OF _ e] by auto
  show ?thesis
  proof (cases "0 < n")
    case False
    then show ?thesis using e v by (intro exI [of _ 0]) (simp add: huffman_encode_def)
  next
    case True
    let ?p = "8 - n"
    let ?b = "ucast (push_bit ?p w OR mask ?p) :: u8"
    have "low_bits (n + ?p) ?b = map (\<lambda>i. bit ?b (i + ?p)) (rev [0..<n]) @ low_bits ?p ?b" by (rule low_bits_append)
    moreover have "map (\<lambda>i. bit ?b (i + ?p)) (rev [0..<n]) = low_bits n w"
      using v(1) by (auto simp: low_bits_def bit_ucast_iff bit_or_iff bit_push_bit_iff bit_mask_iff)
    moreover have "low_bits ?p ?b = replicate ?p True"
      by (rule nth_equalityI) (auto simp: low_bits_def rev_nth bit_ucast_iff bit_or_iff bit_push_bit_iff bit_mask_iff)
    ultimately have "low_bits 8 ?b = low_bits n w @ replicate ?p True" using v(1) by simp
    then have "bits_of (huffman_encode bs) = bits_of out @ low_bits n w @ replicate ?p True"
      using e True by (simp add: huffman_encode_def mask_eq Let_def)
    then show ?thesis using v True by (intro exI [of _ ?p]) simp
  qed
qed

section \<open>The decoder\<close>

fun dec :: "bool list \<Rightarrow> u32 \<Rightarrow> nat \<Rightarrow> bytes \<Rightarrow> (u32 \<times> nat \<times> bytes) option" where
  "dec [] code len out = Some (code, len, out)"
| "dec (x # xs) code len out =
     (let code' = push_bit 1 code OR of_bool x; len' = len + 1 in
      case huff_map (code', len') of
        Some s \<Rightarrow> dec xs 0 0 (out @ [s])
      | None \<Rightarrow> if 30 < len' then None else dec xs code' len' out)"

lemma bit_digit: "(ucast (drop_bit k (b :: u8) AND 1) :: u32) = of_bool (bit b k)"
  by (simp add: and_one_eq bit_iff_odd_drop_bit mod_2_eq_odd)

lemma bit_shift_in: "bit (push_bit 1 c OR of_bool x :: u32) i \<longleftrightarrow> (if i = 0 then x else i < 32 \<and> bit c (i - 1))"
  unfolding bit_or_iff bit_push_bit_iff bit_of_bool_iff by auto

lemma huff_bits_dec: "huff_bits b ks code len out = dec (map (bit b) ks) code len out"
  by (induction ks arbitrary: code len out) (auto simp: bit_digit Let_def split: option.splits)

lemma dec_append:
  "dec (xs @ ys) code len out = Option.bind (dec xs code len out) (\<lambda>(c, l, o'). dec ys c l o')"
  by (induction xs arbitrary: code len out) (auto simp: Let_def split: option.splits)

lemma huff_bytes_dec: "huff_bytes bs code len out = dec (bits_of bs) code len out"
proof (induction bs arbitrary: code len out)
  case (Cons b bs)
  have "[7, 6, 5, 4, 3, 2, 1, 0] = rev [0..<8]" by (simp add: upt_rec)
  then have "huff_bits b [7, 6, 5, 4, 3, 2, 1, 0] code len out = dec (low_bits 8 b) code len out"
    by (simp only: huff_bits_dec low_bits_def)
  moreover have "bits_of (b # bs) = low_bits 8 b @ bits_of bs" by simp
  moreover have "huff_bytes bs = dec (bits_of bs)" using Cons by (simp add: fun_eq_iff)
  ultimately show ?case by (simp only: huff_bytes.simps dec_append)
qed simp

text \<open>Reading the bits of a code emits its byte, whatever follows.\<close>

lemma dec_code_from:
  assumes "k < snd (code_of b)"
  shows "dec (low_bits (snd (code_of b) - k) (fst (code_of b)) @ rest) (drop_bit (snd (code_of b) - k) (fst (code_of b))) k out
    = dec rest 0 0 (out @ [b])"
  using assms
proof (induction "snd (code_of b) - k" arbitrary: k)
  case (Suc n)
  let ?c = "fst (code_of b)" and ?l = "snd (code_of b)"
  have n: "?l - k = Suc n" "?l - (k + 1) = n" using Suc by simp_all
  have step: "push_bit 1 (drop_bit (Suc n) ?c) OR of_bool (bit ?c n) = drop_bit n ?c"
  proof (rule bit_word_eqI)
    fix i assume "i < LENGTH(32)"
    then show "bit (push_bit 1 (drop_bit (Suc n) ?c) OR of_bool (bit ?c n)) i = bit (drop_bit n ?c) i"
      unfolding bit_shift_in by (cases i) (auto simp: bit_drop_bit_eq)
  qed
  show ?case
  proof (cases "k + 1 = ?l")
    case True
    then have "n = 0" using n by simp
    then have "huff_map (drop_bit n ?c, k + 1) = Some b" using True by (simp add: huff_map_Some)
    then show ?thesis using step n \<open>n = 0\<close> by (simp add: low_bits_Suc Let_def)
  next
    case False
    then have k: "k + 1 < ?l" using Suc.prems by simp
    have "huff_map (drop_bit n ?c, k + 1) = None"
    proof (cases "huff_map (drop_bit n ?c, k + 1)")
      case (Some b')
      then have b': "code_of b' = (drop_bit n ?c, k + 1)" by (simp add: huff_map_Some)
      then have "b = b'" using k n by (intro code_prefix_free [of _ "k + 1"]) auto
      then have "snd (code_of b) = k + 1" using b' by (metis snd_conv)
      then show ?thesis using k by simp
    qed
    moreover have "?l \<le> 30" using code_of_ok [of b] by (simp add: entry_ok_def)
    moreover have "dec (low_bits n ?c @ rest) (drop_bit n ?c) (k + 1) out = dec rest 0 0 (out @ [b])"
      using Suc.hyps(1) [of "k + 1"] k n by simp
    ultimately show ?thesis using step n k by (simp add: low_bits_Suc Let_def)
  qed
qed simp

lemma dec_code: "dec (code_bits b @ rest) 0 0 out = dec rest 0 0 (out @ [b])"
proof -
  have "drop_bit (snd (code_of b)) (fst (code_of b)) = 0"
    by (rule bit_word_eqI) (auto simp: bit_drop_bit_eq dest: code_high_bits)
  moreover have "0 < snd (code_of b)" using code_of_ok [of b] by (simp add: entry_ok_def)
  ultimately show ?thesis using dec_code_from [of 0 b rest out] by (simp add: code_bits_def)
qed

lemma dec_codes: "dec (concat (map code_bits bs) @ rest) 0 0 out = dec rest 0 0 (out @ bs)"
  by (induction bs arbitrary: out) (simp_all add: dec_code)

text \<open>The padding is no code.\<close>

lemma ones_no_code: "k < 32 \<Longrightarrow> huff_map (mask k, k) = None"
proof (cases "huff_map (mask k, k)")
  case (Some b)
  assume "k < 32"
  have "unat (mask k :: u32) = take_bit k (mask LENGTH(32))"
    unfolding mask_eq_take_bit_minus_one [of k] unsigned_take_bit_eq unsigned_minus_1_eq_mask ..
  also have "\<dots> = mask (min k LENGTH(32))" by (rule take_bit_of_mask)
  also have "min k LENGTH(32) = k" using \<open>k < 32\<close> by simp
  finally have "unat (mask k :: u32) = 2 ^ k - 1" by (simp only: mask_nat_def)
  moreover have "code_of b = (mask k, k)" using Some by (simp add: huff_map_Some)
  ultimately show ?thesis using code_of_ok [of b] by (simp add: entry_ok_def)
qed

lemma dec_ones: "k + p < 8 \<Longrightarrow> dec (replicate p True) (mask k) k out = Some (mask (k + p), k + p, out)"
proof (induction p arbitrary: k)
  case (Suc p)
  have "(push_bit 1 (mask k) OR of_bool True :: u32) = mask (k + 1)"
  proof (rule bit_word_eqI)
    fix i assume "i < LENGTH(32)"
    then show "bit (push_bit 1 (mask k) OR of_bool True :: u32) i = bit (mask (k + 1) :: u32) i"
      unfolding bit_shift_in by (cases i) (auto simp: bit_mask_iff)
  qed
  moreover have "huff_map (mask (k + 1), k + 1) = None" using Suc.prems by (intro ones_no_code) simp
  ultimately show ?case using Suc by simp
qed simp

text \<open>
  The Huffman code. Decoding the encoding of any byte string gives the string back:
  the table is prefix free, and the padding of ones is never taken for a symbol.
\<close>

theorem huffman_roundtrip: "huffman_decode (huffman_encode bs) = Some bs"
proof -
  obtain p where p: "p < 8" "bits_of (huffman_encode bs) = concat (map code_bits bs) @ replicate p True"
    using huffman_encode_bits by blast
  have "dec (replicate p True) (mask 0) 0 bs = Some (mask (0 + p), 0 + p, bs)" using p by (intro dec_ones) simp
  then have "huff_bytes (huffman_encode bs) 0 0 [] = Some (mask p, p, bs)"
    using p by (simp add: huff_bytes_dec dec_codes)
  then show ?thesis using p by (simp add: huffman_decode_def mask_eq)
qed

end
