(* ===== verification/Hpack_Block.thy ===== *)
theory Hpack_Block
  imports Hpack_Int Hpack_Huffman
begin

unbundle bit_operations_syntax

text \<open>
  Strings, tables and header blocks of HPACK: the round trip of header lists, the memory bounds
  that the decoder keeps whatever it is fed, and the inputs on which it panics.
\<close>

section \<open>Strings\<close>

lemma length_int_tail: "unat w < 2 ^ (7 * k) \<Longrightarrow> 0 < k \<Longrightarrow> length (int_tail w) \<le> k"
proof (induction k arbitrary: w)
  case (Suc k)
  show ?case
  proof (cases "128 \<le> w")
    case True
    then have "128 \<le> unat w" by (simp add: word_le_nat_alt)
    then have "0 < k" using Suc.prems by (cases k) auto
    moreover have "unat (w div 128) < 2 ^ (7 * k)"
      using Suc.prems by (simp add: unat_div power_add less_mult_imp_div_less)
    ultimately show ?thesis using Suc.IH True by (simp add: int_tail.simps [of w])
  qed (simp add: int_tail.simps)
qed simp

lemma length_encode_integer: "length (encode_integer v n pb) \<le> 11"
proof -
  have "length (int_tail w) \<le> 10" for w
    using unsigned_less [of w, where 'a = nat] by (intro length_int_tail) simp_all
  then show ?thesis by (simp add: encode_integer_def Let_def)
qed

lemma encode_integer_Cons: "\<exists>x bs. encode_integer v n pb = (pb OR ucast x) # bs \<and> x \<le> (mask n :: u64)"
  by (auto simp: encode_integer_def mask_eq Let_def intro: less_imp_le)

text \<open>Flag bits above the prefix survive: they tell the representations apart.\<close>

lemma prefix_high_bits:
  assumes "x \<le> (mask n :: u64)" "n \<le> k" "k < 8"
  shows "bit (pb OR ucast x :: u8) k = bit pb k"
proof -
  have "take_bit n x = x" using assms(1) by (rule below_mask)
  then have "\<not> bit x k" using assms(2) by (metis bit_take_bit_iff not_le)
  then show ?thesis by (simp add: bit_or_iff bit_ucast_iff)
qed

lemma flag_test: "k < 8 \<Longrightarrow> (b :: u8) AND push_bit k 1 \<noteq> 0 \<longleftrightarrow> bit b k"
proof -
  assume k: "k < 8"
  have "bit (b AND push_bit k 1) i \<longleftrightarrow> bit b i \<and> i = k" for i
    using k unfolding bit_and_iff bit_push_bit_iff by (auto simp: bit_1_iff)
  then show ?thesis by (metis bit_0_eq bit_word_eqI bot_apply bot_bool_def)
qed

lemma flags: "(b :: u8) AND 0x80 \<noteq> 0 \<longleftrightarrow> bit b 7" "b AND 0x40 \<noteq> 0 \<longleftrightarrow> bit b 6" "b AND 0x20 \<noteq> 0 \<longleftrightarrow> bit b 5"
  using flag_test [of 7 b] flag_test [of 6 b] flag_test [of 5 b] by simp_all

lemma decode_encode_string:
  assumes "length s < 2 ^ 63"
  shows "decode_string (encode_string s @ rest) = Some (Some (s, length (encode_string s)))"
proof -
  let ?i = "encode_integer (word_of_nat (length s)) 7 0x00"
  obtain x bs where x: "?i = (0 OR ucast x) # bs" "x \<le> (mask 7 :: u64)" using encode_integer_Cons by metis
  have "\<not> bit (0 OR ucast x :: u8) 7" using prefix_high_bits [OF x(2), of 7 0] by simp
  then have f: "(0 OR ucast x :: u8) AND 0x80 = 0" using flags(1) by blast
  have d: "decode_integer (?i @ s @ rest) 7 = Some (word_of_nat (length s), length ?i)"
    by (rule decode_encode_integer) simp_all
  have "unat (word_of_nat (length ?i) + word_of_nat (length s) :: u64) = length ?i + length s"
    using length_encode_integer [of "word_of_nat (length s)" 7 0] assms
    by (simp add: unat_of_nat flip: of_nat_add)
  then show ?thesis using d f x by (simp add: encode_string_def decode_string_def Let_def)
qed

lemma from_as_bytes: "utf8_valid s \<Longrightarrow> from_utf8 (as_bytes s) = Some s"
proof -
  have "char_of (unat (word_of_nat (byte c) :: u8)) = c" for c
  proof -
    have "byte c < 256" using of_char_mod_256 [of c, where 'a = nat] by (metis mod_less_divisor zero_less_numeral)
    then show ?thesis by (simp add: unat_of_nat)
  qed
  then have "map (\<lambda>b. char_of (unat b)) (as_bytes s) = s" by (simp add: as_bytes_def comp_def)
  then show "utf8_valid s \<Longrightarrow> ?thesis" by (simp add: from_utf8_def)
qed

definition wf_text :: "str \<Rightarrow> bool" where
  "wf_text s \<longleftrightarrow> utf8_valid s \<and> length s < 2 ^ 63"

lemma read_encoded_string:
  assumes "wf_text s" "drop k p = encode_string (as_bytes s) @ rest"
  shows "read_string p k = Some (Some (s, k + length (encode_string (as_bytes s))))"
proof -
  have "decode_string (encode_string (as_bytes s) @ rest) = Some (Some (as_bytes s, length (encode_string (as_bytes s))))"
    using assms(1) by (intro decode_encode_string) (simp add: wf_text_def as_bytes_def)
  then show ?thesis using assms from_as_bytes by (simp add: read_string_def wf_text_def)
qed

section \<open>Header lists\<close>

lemma position_where_Some: "position_where P xs = Some i \<Longrightarrow> i < length xs \<and> P (xs ! i)"
  by (induction xs arbitrary: i) (auto split: if_splits)

lemma static_length: "length STATIC_TABLE = 61"
  by (simp add: STATIC_TABLE_def)

lemma static_get: "i < 61 \<Longrightarrow> DynamicTable_get t (Suc i) = Some (STATIC_TABLE ! i)"
  by (simp add: DynamicTable_get_def static_length)

lemma small_index: "i < 61 \<Longrightarrow> unat (word_of_nat (i + 1) :: u64) = i + 1 \<and> (word_of_nat (i + 1) :: u64) \<noteq> 0"
proof -
  assume "i < 61"
  then have "unat (word_of_nat (i + 1) :: u64) = i + 1" unfolding unat_of_nat by simp
  then show ?thesis by (metis add_is_0 one_neq_zero unat_0)
qed

text \<open>One step of the decoder loop for the two representations the encoder uses.\<close>

lemma block_step_indexed:
  assumes "p \<noteq> []" "hd p AND 0x80 \<noteq> 0" "decode_integer p 7 = Some (idx, n)"
    and "DynamicTable_get t (unat idx) = Some e" "checked_header_list_size sz e limits = Inr sz'"
  shows "decode_block limits p t sz out = decode_block limits (drop n p) t sz' (out @ [e])"
  using assms by (subst decode_block.simps) (auto split: list.split)

lemma block_step_literal:
  assumes "p \<noteq> []" "hd p AND 0x80 = 0" "hd p AND 0x40 = 0" "hd p AND 0x20 = 0"
    and "decode_literal p 4 t = Some (Some (e, n))" "checked_header_list_size sz e limits = Inr sz'"
  shows "decode_block limits p t sz out = decode_block limits (drop n p) t sz' (out @ [e])"
  using assms by (subst decode_block.simps) (auto split: list.split)

lemma block_indexed:
  assumes i: "i < 61" "STATIC_TABLE ! i = e"
    and size: "checked_header_list_size sz e limits = Inr sz'"
  shows "decode_block limits (encode_integer (word_of_nat (i + 1)) 7 0x80 @ rest) t sz out
    = decode_block limits rest t sz' (out @ [e])"
proof -
  let ?p = "encode_integer (word_of_nat (i + 1)) 7 0x80"
  obtain x bs where x: "?p = (0x80 OR ucast x) # bs" "x \<le> (mask 7 :: u64)" using encode_integer_Cons by metis
  have "bit (0x80 OR ucast x :: u8) 7" using prefix_high_bits [OF x(2), of 7 "0x80"] by (simp add: bit_0x80)
  then have f: "(0x80 OR ucast x :: u8) AND 0x80 \<noteq> 0" using flags(1) by blast
  have d: "decode_integer (?p @ rest) 7 = Some (word_of_nat (i + 1), length ?p)"
  proof (rule decode_encode_integer)
    show "take_bit 7 (0x80 :: u8) = 0" by code_simp
  qed simp_all
  have n: "unat (word_of_nat (i + 1) :: u64) = Suc i" using small_index [OF i(1)] by simp
  have "?p @ rest \<noteq> []" "hd (?p @ rest) = 0x80 OR ucast x" using x(1) by simp_all
  then show ?thesis
    using block_step_indexed [OF _ _ d, of t e sz limits sz' out] f n static_get [OF i(1)] i(2) size by simp
qed

lemma literal_name:
  assumes "wf_text (fst e)" "position_where (\<lambda>(n, _). n = fst e) STATIC_TABLE = r"
  defines "q \<equiv> (case r of Some i \<Rightarrow> encode_integer (word_of_nat (i + 1)) 4 0x00
                 | None \<Rightarrow> encode_integer 0 4 0x00 @ encode_string (as_bytes (fst e)))"
  assumes v: "wf_text (snd e)"
  shows "decode_literal (q @ encode_string (as_bytes (snd e)) @ rest) 4 t
    = Some (Some (e, length (q @ encode_string (as_bytes (snd e)))))"
proof (cases r)
  case (Some i)
  then have i: "i < 61" "fst (STATIC_TABLE ! i) = fst e"
    using position_where_Some assms(2) static_length by fastforce+
  have d: "decode_integer (q @ encode_string (as_bytes (snd e)) @ rest) 4 = Some (word_of_nat (i + 1), length q)"
    using Some by (simp add: q_def decode_encode_integer)
  show ?thesis using read_encoded_string [OF v, of "length q" "q @ encode_string (as_bytes (snd e)) @ rest" rest]
      small_index [OF i(1)] static_get [OF i(1)] i(2)
    by (simp add: decode_literal_def d)
next
  case None
  let ?n = "encode_integer 0 4 0x00"
  have q: "q = ?n @ encode_string (as_bytes (fst e))" using None by (simp add: q_def)
  have d: "decode_integer (q @ encode_string (as_bytes (snd e)) @ rest) 4 = Some (0, length ?n)"
    unfolding q append_assoc by (rule decode_encode_integer) simp_all
  have "read_string (q @ encode_string (as_bytes (snd e)) @ rest) (length ?n) = Some (Some (fst e, length q))"
    using read_encoded_string [OF assms(1), of "length ?n"] q by simp
  moreover have "read_string (q @ encode_string (as_bytes (snd e)) @ rest) (length q)
      = Some (Some (snd e, length q + length (encode_string (as_bytes (snd e)))))"
    using read_encoded_string [OF v, of "length q"] by simp
  ultimately show ?thesis by (simp add: decode_literal_def d)
qed

lemma block_header:
  assumes "wf_text (fst e)" "wf_text (snd e)" "checked_header_list_size sz e limits = Inr sz'"
  shows "decode_block limits (encode_header e @ rest) t sz out = decode_block limits rest t sz' (out @ [e])"
proof (cases "position_where (\<lambda>s. s = e) STATIC_TABLE")
  case (Some i)
  then show ?thesis using block_indexed [of i e] position_where_Some [OF Some] assms(3)
    by (simp add: encode_header_def static_length)
next
  case None
  define q where "q = (case position_where (\<lambda>(n, _). n = fst e) STATIC_TABLE of
      Some i \<Rightarrow> encode_integer (word_of_nat (i + 1)) 4 0x00
    | None \<Rightarrow> encode_integer 0 4 0x00 @ encode_string (as_bytes (fst e)))"
  let ?v = "encode_string (as_bytes (snd e))"
  have e: "encode_header e = q @ ?v" using None by (simp add: encode_header_def q_def)
  have lit: "decode_literal (q @ ?v @ rest) 4 t = Some (Some (e, length (q @ ?v)))"
    using literal_name [OF assms(1) refl assms(2)] by (simp add: q_def)
  obtain x bs where x: "q = (0 OR ucast x) # bs" "x \<le> (mask 4 :: u64)"
  proof -
    obtain v r where "q = encode_integer v 4 0x00 @ r"
    proof (cases "position_where (\<lambda>(n, _). n = fst e) STATIC_TABLE")
      case (Some i)
      then show ?thesis using that [of "word_of_nat (i + 1)" "[]"] by (simp add: q_def)
    next
      case None
      then show ?thesis using that [of 0] by (simp add: q_def)
    qed
    moreover obtain x bs where "encode_integer v 4 0x00 = (0 OR ucast x) # bs" "x \<le> (mask 4 :: u64)"
      using encode_integer_Cons by metis
    ultimately show ?thesis using that by simp
  qed
  have "\<not> bit (0 OR ucast x :: u8) 7" "\<not> bit (0 OR ucast x :: u8) 6" "\<not> bit (0 OR ucast x :: u8) 5"
    using prefix_high_bits [OF x(2), of _ 0] by simp_all
  then have f: "(0 OR ucast x :: u8) AND 0x80 = 0" "(0 OR ucast x :: u8) AND 0x40 = 0" "(0 OR ucast x :: u8) AND 0x20 = 0"
    using flags by blast+
  have "q @ ?v @ rest \<noteq> []" "hd (q @ ?v @ rest) = 0 OR ucast x" using x(1) by simp_all
  then have "decode_block limits (q @ ?v @ rest) t sz out
    = decode_block limits (drop (length (q @ ?v)) (q @ ?v @ rest)) t sz' (out @ [e])"
    using block_step_literal [OF _ _ _ _ lit assms(3)] f by metis
  then show ?thesis by (simp add: e)
qed

definition list_size :: "header list \<Rightarrow> nat" where
  "list_size hs = sum_list (map entry_size hs)"

lemma list_size_simps [simp]: "list_size [] = 0" "list_size (e # hs) = entry_size e + list_size hs"
    "list_size (hs @ hs') = list_size hs + list_size hs'"
  by (simp_all add: list_size_def)

lemma checked_size_eq: "checked_header_list_size sz e limits
    = (if sz + entry_size e < 2 ^ 64 \<and> sz + entry_size e \<le> max_header_list_size limits
       then Inr (sz + entry_size e) else Inl HeaderListTooLarge)"
  by (auto simp: checked_header_list_size_def entry_size_def Let_def)

lemma block_headers:
  assumes "\<forall>e \<in> set hs. wf_text (fst e) \<and> wf_text (snd e)"
    and "sz + list_size hs \<le> max_header_list_size limits" "max_header_list_size limits < 2 ^ 64"
  shows "decode_block limits (encode_header_block hs @ rest) t sz out
    = decode_block limits rest t (sz + list_size hs) (out @ hs)"
  using assms
proof (induction hs arbitrary: sz out)
  case (Cons e hs)
  have "checked_header_list_size sz e limits = Inr (sz + entry_size e)"
    using Cons.prems by (simp add: checked_size_eq)
  then show ?case using Cons by (simp add: block_header add.assoc)
qed simp

text \<open>
  Property C19: a list of headers written by the encoder is read back by the decoder, field by
  field and in order, and leaves the dynamic table alone, whatever the table holds, as long as
  the list is within the limit the decoder was given.
\<close>

theorem header_block_roundtrip:
  assumes "\<forall>e \<in> set hs. wf_text (fst e) \<and> wf_text (snd e)"
    and "list_size hs \<le> max_header_list_size limits" "max_header_list_size limits < 2 ^ 64"
  shows "decode_header_block_limited (encode_header_block hs) t limits = Some (Inr hs, t)"
  using block_headers [of hs 0 limits "[]" t "[]"] assms
  by (simp add: decode_header_block_limited_def decode_block.simps [of limits "[]"])

theorem header_block_roundtrip_witness:
  "decode_header_block_limited (encode_header_block [('':status'', ''200''), (''x-id'', ''7'')])
     (DynamicTable_new 4096) DecodeLimits_default
   = Some (Inr [('':status'', ''200''), (''x-id'', ''7'')], DynamicTable_new 4096)"
proof (rule header_block_roundtrip)
  show "\<forall>e \<in> set [('':status'', ''200''), (''x-id'', ''7'')]. wf_text (fst e) \<and> wf_text (snd e)"
    by (simp add: wf_text_def)
qed (simp_all add: entry_size_def DecodeLimits_default_def)

section \<open>The dynamic table\<close>

definition dt_ok :: "DynamicTable \<Rightarrow> bool" where
  "dt_ok t \<longleftrightarrow> dt_size t = list_size (dt_entries t) \<and> dt_size t \<le> dt_max_size t"

text \<open>What RFC 7541, section 4.4, asks for: keep the longest run of newest entries that fits.\<close>

fun fit :: "nat \<Rightarrow> header list \<Rightarrow> header list" where
  "fit m [] = []"
| "fit m (e # es) = (if entry_size e \<le> m then e # fit (m - entry_size e) es else [])"

lemma fit_all: "list_size es \<le> m \<Longrightarrow> fit m es = es"
  by (induction es arbitrary: m) auto

lemma fit_butlast: "m < list_size es \<Longrightarrow> es \<noteq> [] \<Longrightarrow> fit m es = fit m (butlast es)"
  by (induction es arbitrary: m) auto

lemma fit_size: "list_size (fit m es) \<le> m"
proof (induction es arbitrary: m)
  case (Cons e es)
  show ?case using Cons.IH [of "m - entry_size e"] by auto
qed simp

lemma list_size_butlast: "es \<noteq> [] \<Longrightarrow> list_size (butlast es) = list_size es - entry_size (last es)"
  using list_size_simps(3) [of "butlast es" "[last es]"] by simp

lemma evict_fit:
  "dt_size t = list_size (dt_entries t) \<Longrightarrow>
   evict t = t\<lparr>dt_entries := fit (dt_max_size t) (dt_entries t), dt_size := list_size (fit (dt_max_size t) (dt_entries t))\<rparr>"
proof (induction t rule: evict.induct)
  case (1 t)
  show ?case
  proof (cases "dt_max_size t < dt_size t")
    case True
    then have ne: "dt_entries t \<noteq> []" using "1.prems" by auto
    then show ?thesis using 1 True by (simp add: evict.simps [of t] list_size_butlast fit_butlast)
  next
    case False
    then show ?thesis using "1.prems" by (simp add: evict.simps [of t] fit_all)
  qed
qed

lemma insert_fit: "dt_ok t \<Longrightarrow> DynamicTable_insert t e = (let es = fit (dt_max_size t) (e # dt_entries t) in
    t\<lparr>dt_entries := es, dt_size := list_size es\<rparr>)"
  unfolding DynamicTable_insert_def by (subst evict_fit) (simp_all add: dt_ok_def Let_def)

lemma set_max_fit: "dt_ok t \<Longrightarrow> set_max_size t n = (let es = fit n (dt_entries t) in
    t\<lparr>dt_entries := es, dt_size := list_size es, dt_max_size := n\<rparr>)"
  unfolding set_max_size_def by (subst evict_fit) (simp_all add: dt_ok_def Let_def)

lemma dt_ok_insert: "dt_ok t \<Longrightarrow> dt_ok (DynamicTable_insert t e)"
  using fit_size by (simp add: insert_fit dt_ok_def Let_def del: fit.simps)

lemma dt_ok_set_max: "dt_ok t \<Longrightarrow> dt_ok (set_max_size t n)"
  using fit_size by (simp add: set_max_fit dt_ok_def Let_def)

lemma dt_max_insert: "dt_ok t \<Longrightarrow> dt_max_size (DynamicTable_insert t e) = dt_max_size t"
  by (simp add: insert_fit Let_def)

lemma dt_max_set_max: "dt_ok t \<Longrightarrow> dt_max_size (set_max_size t n) = n"
  by (simp add: set_max_fit Let_def)

text \<open>
  Property C21: the dynamic table is the one of RFC 7541. Adding an entry keeps the longest run
  of newest entries, the added one first, whose sizes fit the table's maximum (none at all if
  the new entry alone does not fit), changing the maximum keeps the longest run of newest
  entries that fits the new one, and both keep the size counter equal to the sum of the entry
  sizes and within the maximum. Index 61 + k reads the k-th newest entry.
\<close>

theorem dynamic_table_exact:
  assumes "dt_ok t"
  shows "DynamicTable_insert t e =
       (let es = fit (dt_max_size t) (e # dt_entries t) in t\<lparr>dt_entries := es, dt_size := list_size es\<rparr>)
    \<and> set_max_size t n =
       (let es = fit n (dt_entries t) in t\<lparr>dt_entries := es, dt_size := list_size es, dt_max_size := n\<rparr>)
    \<and> dt_ok (DynamicTable_insert t e) \<and> dt_ok (set_max_size t n)
    \<and> (\<forall>k. DynamicTable_get t (62 + k) = (if k < length (dt_entries t) then Some (dt_entries t ! k) else None))"
  using assms insert_fit set_max_fit dt_ok_insert dt_ok_set_max
  by (auto simp: DynamicTable_get_def static_length Let_def)

theorem dynamic_table_exact_witness:
  "let t = \<lparr>dt_entries = [(''a'', ''1''), (''b'', ''2'')], dt_size = 68, dt_max_size = 70\<rparr> in
     DynamicTable_insert t (''c'', ''3'')
       = \<lparr>dt_entries = [(''c'', ''3''), (''a'', ''1'')], dt_size = 68, dt_max_size = 70\<rparr>
     \<and> DynamicTable_get t 63 = Some (''b'', ''2'')"
proof -
  let ?t = "\<lparr>dt_entries = [(''a'', ''1''), (''b'', ''2'')], dt_size = 68, dt_max_size = 70\<rparr>"
  have "dt_ok ?t" by (simp add: dt_ok_def entry_size_def)
  note * = dynamic_table_exact [OF this, of "(''c'', ''3'')" 0]
  from * have "\<forall>k. DynamicTable_get ?t (62 + k) = (if k < length (dt_entries ?t) then Some (dt_entries ?t ! k) else None)"
    by blast
  from this [rule_format, of 1] show ?thesis using * by (simp add: Let_def entry_size_def)
qed

section \<open>Bounds of the decoder\<close>

definition decoding_ok :: "DecodeLimits \<Rightarrow> DynamicTable \<Rightarrow> nat \<Rightarrow> header list \<Rightarrow> bool" where
  "decoding_ok limits t sz out \<longleftrightarrow> dt_ok t \<and> dt_max_size t \<le> max_dynamic_table_size limits
     \<and> list_size out = sz \<and> sz \<le> max_header_list_size limits"

lemma decoding_ok_steps:
  assumes "decoding_ok limits t sz out"
  shows "checked_header_list_size sz e limits = Inr sz' \<Longrightarrow> decoding_ok limits t sz' (out @ [e])"
    and "checked_header_list_size sz e limits = Inr sz' \<Longrightarrow> decoding_ok limits (DynamicTable_insert t e) sz' (out @ [e])"
    and "n \<le> max_dynamic_table_size limits \<Longrightarrow> decoding_ok limits (set_max_size t n) sz out"
  using assms
  by (auto simp: decoding_ok_def checked_size_eq dt_ok_insert dt_ok_set_max dt_max_insert dt_max_set_max split: if_splits)

text \<open>A round of the loop ends with the table it has or goes on with a shorter rest of the block.\<close>

definition goes_on :: "DecodeLimits \<Rightarrow> bytes \<Rightarrow> (DecodeError + header list) \<times> DynamicTable \<Rightarrow> bool" where
  "goes_on limits p res \<longleftrightarrow> (\<exists>n t sz out. 1 \<le> n \<and> n \<le> length p \<and> decoding_ok limits t sz out
     \<and> decode_block limits (drop n p) t sz out = Some res)"

lemma goes_on_if: "1 \<le> n \<and> n \<le> length p \<Longrightarrow> decoding_ok limits t sz out
    \<Longrightarrow> decode_block limits (drop n p) t sz out = Some res \<Longrightarrow> goes_on limits p res"
  by (auto simp: goes_on_def)

lemma block_round:
  assumes "decode_block limits p t sz out = Some (r, t')" "decoding_ok limits t sz out"
    and "\<not> (t' = t \<and> (r = Inr out \<or> (\<exists>e. r = Inl e)))"
  shows "goes_on limits p (r, t')"
  using assms(1, 3)
  apply (subst (asm) decode_block.simps)
  apply (simp split: list.split_asm if_split_asm option.split_asm sum.split_asm prod.split_asm)
  by (metis goes_on_if decode_integer_used decode_literal_used decoding_ok_steps [OF assms(2)] linorder_not_less)+

lemma block_bounded:
  assumes "decode_block limits p t sz out = Some (r, t')" "decoding_ok limits t sz out"
  shows "dt_ok t' \<and> dt_max_size t' \<le> max_dynamic_table_size limits
    \<and> (\<forall>hs. r = Inr hs \<longrightarrow> list_size hs \<le> max_header_list_size limits)"
  using assms
proof (induction p arbitrary: t sz out rule: length_induct)
  case (1 p)
  show ?case
  proof (cases "t' = t \<and> (r = Inr out \<or> (\<exists>e. r = Inl e))")
    case True
    then show ?thesis using "1.prems"(2) by (auto simp: decoding_ok_def)
  next
    case False
    from block_round [OF "1.prems" this] obtain n t2 sz2 out2 where
      "1 \<le> n" "n \<le> length p" "decoding_ok limits t2 sz2 out2"
      "decode_block limits (drop n p) t2 sz2 out2 = Some (r, t')"
      by (auto simp: goes_on_def)
    then show ?thesis using "1.IH" [rule_format, of "drop n p" t2 sz2 out2] by simp
  qed
qed

text \<open>
  Property C22: whatever block it is fed, the decoder keeps the dynamic table well formed and
  its maximum within the limit, on success and on every error, so the table never holds more
  than \<open>max_dynamic_table_size\<close> bytes by the measure of RFC 7541; a block it accepts has no
  more than \<open>max_header_list_size\<close> bytes of headers, counting 32 for each field.
\<close>

theorem hpack_memory_bounded:
  assumes "dt_ok t" "dt_max_size t \<le> max_dynamic_table_size limits"
    and "decode_header_block_limited block t limits = Some (r, t')"
  shows "dt_ok t' \<and> dt_max_size t' \<le> max_dynamic_table_size limits
    \<and> list_size (dt_entries t') \<le> max_dynamic_table_size limits
    \<and> (\<forall>hs. r = Inr hs \<longrightarrow> list_size hs \<le> max_header_list_size limits)"
  using block_bounded [of limits block t 0 "[]" r t'] assms
  by (auto simp: decode_header_block_limited_def dt_ok_def decoding_ok_def)

theorem hpack_memory_bounded_witness:
  "let limits = \<lparr>max_header_list_size = 100, max_dynamic_table_size = 40\<rparr>;
       r = decode_header_block_limited [0x40, 1, 97, 1, 98, 0x3f, 0x20] (DynamicTable_new 40) limits in
     r = Some (Inl DynamicTableSizeUpdateTooLarge, \<lparr>dt_entries = [(''a'', ''b'')], dt_size = 34, dt_max_size = 40\<rparr>)
     \<and> dt_ok (snd (the r)) \<and> dt_max_size (snd (the r)) \<le> 40"
proof -
  let ?l = "\<lparr>max_header_list_size = 100, max_dynamic_table_size = 40\<rparr>"
  let ?t = "\<lparr>dt_entries = [(''a'', ''b'')], dt_size = 34, dt_max_size = 40\<rparr>"
  have ok: "dt_ok (DynamicTable_new 40)" "dt_max_size (DynamicTable_new 40) \<le> max_dynamic_table_size ?l"
    by (simp_all add: dt_ok_def DynamicTable_new_def)
  have e: "decode_literal [0x40, 1, 97, 1, 98, 0x3f, 0x20] 6 (DynamicTable_new 40) = Some (Some ((''a'', ''b''), 5))"
    "decode_integer [0x3f, 0x20] 5 = Some (63, 2)" by code_simp+
  have "DynamicTable_insert (DynamicTable_new 40) (''a'', ''b'') = ?t"
    using insert_fit [OF ok(1)] by (simp add: DynamicTable_new_def entry_size_def)
  then have r: "decode_header_block_limited [0x40, 1, 97, 1, 98, 0x3f, 0x20] (DynamicTable_new 40) ?l
      = Some (Inl DynamicTableSizeUpdateTooLarge, ?t)"
    by (simp add: decode_header_block_limited_def decode_block.simps e checked_size_eq entry_size_def)
  from ok hpack_memory_bounded [OF _ _ r] show ?thesis by (simp add: r)
qed

lemma decode_tail_short: "decode_tail bs v m i = Some (w, j) \<Longrightarrow> m \<le> 63 \<Longrightarrow> 7 * (j - i) \<le> 70 - m"
proof (induction bs v m i rule: decode_tail.induct)
  case (2 b bs v m i)
  show ?case
  proof (cases "b AND 0x80 = 0")
    case True
    then show ?thesis using "2.prems" by (auto simp: Let_def)
  next
    case False
    then have r: "decode_tail bs (v + push_bit m (ucast b AND 0x7f)) (m + 7) (i + 1) = Some (w, j)" "m + 7 \<le> 63"
      using "2.prems" by (auto simp: Let_def split: if_splits)
    from r(1) have "i + 1 < j" by (simp add: decode_tail_used)
    then show ?thesis using "2.IH" [OF refl False] r by (simp add: Let_def)
  qed
qed simp

lemma decode_integer_short: "decode_integer buf n = Some (v, k) \<Longrightarrow> k \<le> 11"
  using decode_tail_short [of _ _ 0 1]
  by (fastforce simp: decode_integer_def Let_def split: list.splits if_splits)

lemma decode_string_panics: "decode_string buf = None \<longleftrightarrow>
  (\<exists>len n. decode_integer buf 7 = Some (len, n) \<and> 2 ^ 64 \<le> n + unat len \<and> n + unat len - 2 ^ 64 \<le> length buf)"
proof (cases "decode_integer buf 7")
  case None
  then show ?thesis by (auto simp: decode_string_def split: list.split)
next
  case (Some p)
  obtain len n where p: "p = (len, n)" by (cases p)
  have n: "1 \<le> n" "n \<le> 11" "n \<le> length buf" using Some p decode_integer_used decode_integer_short by blast+
  then obtain b bs where buf: "buf = b # bs" by (cases buf) auto
  let ?e = "unat (word_of_nat n + len)"
  have "?e = (n + unat len) mod 2 ^ 64"
    using n by (simp add: unat_word_ariths unat_of_nat)
  moreover have "unat len < 2 ^ 64" using unsigned_less [of len, where 'a = nat] by simp
  ultimately have "?e = (if 2 ^ 64 \<le> n + unat len then n + unat len - 2 ^ 64 else n + unat len)"
    using n by (auto simp: mod_if)
  moreover have "decode_string buf = None \<longleftrightarrow> ?e \<le> length buf \<and> ?e < n"
    using Some p buf by (auto simp: decode_string_def Let_def)
  ultimately show ?thesis using Some p n \<open>unat len < 2 ^ 64\<close> by auto
qed

lemma block_panics: "decode_header_block_limited
    [0x00, 0x7f, 0x80, 0xff, 0xff, 0xff, 0xff, 0xff, 0xff, 0xff, 0xff, 0x01] t limits = None"
proof -
  have "decode_literal [0x00, 0x7f, 0x80, 0xff, 0xff, 0xff, 0xff, 0xff, 0xff, 0xff, 0xff, 0x01] 4 t = None"
  proof -
    have "decode_integer [0x00, 0x7f, 0x80, 0xff, 0xff, 0xff, 0xff, 0xff, 0xff, 0xff, 0xff, 0x01] 4 = Some (0, 1)"
      "read_string [0x00, 0x7f, 0x80, 0xff, 0xff, 0xff, 0xff, 0xff, 0xff, 0xff, 0xff, 0x01] 1 = None"
      by code_simp+
    then show ?thesis by (simp add: decode_literal_def)
  qed
  then show ?thesis by (simp add: decode_header_block_limited_def decode_block.simps)
qed

text \<open>
  The decoder panics on one kind of string literal only, one whose length, added
  to the bytes of its length field, does not fit 64 bits: the sum wraps around and the slice
  \<open>buf[n..end]\<close> gets an end below its start. Twelve bytes of a header block reach it, with any
  table and any limits, before any limit is looked at.
\<close>

theorem hpack_panic_exact:
  "(decode_string buf = None \<longleftrightarrow>
      (\<exists>len n. decode_integer buf 7 = Some (len, n) \<and> 2 ^ 64 \<le> n + unat len
         \<and> n + unat len - 2 ^ 64 \<le> length buf))
   \<and> decode_header_block_limited
       [0x00, 0x7f, 0x80, 0xff, 0xff, 0xff, 0xff, 0xff, 0xff, 0xff, 0xff, 0x01] t limits = None"
  using decode_string_panics block_panics by blast

end
