(* ===== verification/Http2_Conn_Inv.thy ===== *)
theory Http2_Conn_Inv
  imports Http2_Conn_Send Hpack_Block
begin

unbundle bit_operations_syntax

text \<open>
  Invariants of an HTTP/2 connection over everything a peer can send: the memory one connection
  can take, the ranges of the flow-control windows, and the bookkeeping of requests. The locale
  \<open>frame_invariant\<close> carries a property of the state from the frame handlers to the read loop;
  it is interpreted on each invariant.
\<close>

section \<open>From handlers to the read loop\<close>

fun outcome_all :: "(conn_state \<Rightarrow> bool) \<Rightarrow> outcome \<Rightarrow> bool" where
  "outcome_all P (Done s) = P s"
| "outcome_all P (Fail e s) = P s"
| "outcome_all P Panic = True"

lemma outcome_all_and_then [intro]:
  "outcome_all P r \<Longrightarrow> (\<And>s. P s \<Longrightarrow> outcome_all P (k s)) \<Longrightarrow> outcome_all P (and_then r k)"
  by (cases r) simp_all

text \<open>Frames that come out of \<open>take_frame\<close> say the length they have.\<close>

definition frame_ok :: "Frame \<Rightarrow> bool" where
  "frame_ok fr \<longleftrightarrow> length (payload fr) = unat (fh_length (header fr))"

lemma take_frame_ok: "take_frame buf = Some (fr, n) \<Longrightarrow> frame_ok fr"
  by (auto simp: take_frame_def frame_ok_def Let_def split: option.splits if_splits)

locale frame_invariant =
  fixes ord :: "u32 list \<Rightarrow> u32 list"
    and P :: "conn_state \<Rightarrow> bool"
  assumes handle: "frame_ok fr \<Longrightarrow> P s \<Longrightarrow> outcome_all P (handle_frame ord fr s)"
    and goaway_code: "P s \<Longrightarrow> P (goaway_code k s)"
    and set_rbuf: "P (c, f) \<Longrightarrow> P (c\<lparr>rbuf := x\<rparr>, f)"
    and start: "P (c, f) \<Longrightarrow> P (c\<lparr>preface_seen := True, settings_sent := True\<rparr>, emit_bytes server_settings f)"
begin

lemma feed_loop: "P s \<Longrightarrow> outcome_all P (feed_loop ord s)"
proof (induction "length (rbuf (fst s))" arbitrary: s rule: less_induct)
  case less
  obtain c f where s: "s = (c, f)" by (cases s)
  show ?case
  proof (cases "take_frame (rbuf c)")
    case None
    then show ?thesis using less.prems s by (simp add: feed_loop.simps)
  next
    case (Some p)
    obtain fr n where p: "p = (fr, n)" by (cases p)
    let ?c = "c\<lparr>rbuf := drop n (rbuf c)\<rparr>"
    have P: "P (?c, f)" using less.prems s by (simp add: set_rbuf)
    have fr: "frame_ok fr" using Some p take_frame_ok by simp
    have n: "0 < n" "n \<le> length (rbuf c)" using take_frame_used [of "rbuf c" fr n] Some p by simp_all
    have "outcome_all P (feed_loop ord s')" if "handle_frame ord fr (?c, f) = Done s'" for s'
    proof (rule less.hyps)
      show "length (rbuf (fst s')) < length (rbuf (fst s))"
        using handle_frame_rbuf [of ord fr ?c f "fst s'" "snd s'"] that n s by simp
      show "P s'" using handle [OF fr P] that by simp
    qed
    then show ?thesis using s Some p P handle [OF fr P] goaway_code [OF P]
      by (auto simp: feed_loop.simps [of ord c] Let_def split: outcome.split)
  qed
qed

lemma feed_frames: "P s \<Longrightarrow> outcome_all P (feed_frames ord s)"
  unfolding feed_frames_def
proof (rule outcome_all_and_then [OF feed_loop])
  fix s
  assume "P s"
  then have "P (feed_partial s)" using goaway_code [of s ERR_FRAME_SIZE_ERROR]
    by (cases s, cases "goaway_code ERR_FRAME_SIZE_ERROR s")
      (auto simp: feed_partial_def Let_def intro: set_rbuf split: option.split)
  then show "outcome_all P (Done (feed_partial s))" by simp
qed

lemma feed:
  assumes "P (c, Http2Feed_default)" "feed ord bs c = Some (r, c')"
  shows "\<exists>f. P (c', f) \<and> (\<forall>f'. r = Inr f' \<longrightarrow> f' = f)"
proof -
  have result: "\<exists>f. P (c', f) \<and> (\<forall>f'. r = Inr f' \<longrightarrow> f' = f)"
    if "outcome_all P oc" "feed_result oc = Some (r, c')" for oc
    using that by (cases oc rule: feed_result.cases) auto
  let ?c = "c\<lparr>rbuf := rbuf c @ bs\<rparr>"
  have P: "P (?c, Http2Feed_default)" using assms(1) by (rule set_rbuf)
  have "P (?c\<lparr>rbuf := x, preface_seen := True, settings_sent := True\<rparr>, emit_bytes server_settings Http2Feed_default)" for x
    using start [OF set_rbuf [OF assms(1), of x]] by simp
  then show ?thesis using assms(2) feed_frames feed_frames [OF P] P
    by (auto simp: feed_def Let_def intro: result split: if_splits)
qed

end

section \<open>Resources\<close>

definition stream_ok :: "Stream \<Rightarrow> bool" where
  "stream_ok st \<longleftrightarrow> length (st_header_block st) \<le> 65536 \<and> list_size (st_headers st) \<le> 65536
     \<and> 0 \<le> st_recv_window st \<and> int (length (st_body st)) \<le> 2 ^ 20 - st_recv_window st"

definition body_total :: "(u32 \<times> Stream) list \<Rightarrow> nat" where
  "body_total xs = sum_list (map (\<lambda>(k, st). length (st_body st)) xs)"

definition recv_ok :: "Http2Connection \<Rightarrow> bool" where
  "recv_ok c \<longleftrightarrow> distinct (map fst (streams c)) \<and> length (streams c) \<le> 100
     \<and> (\<forall>(k, st) \<in> set (streams c). k \<le> last_sid c \<and> stream_ok st)
     \<and> 0 \<le> conn_recv_window c \<and> int (body_total (streams c)) \<le> 2 ^ 20 - conn_recv_window c
     \<and> dt_ok (inbound_hpack c) \<and> dt_max_size (inbound_hpack c) \<le> 4096
     \<and> inbound_max_frame_size c = 16384 \<and> inbound_header_list_size c = 65536 \<and> inbound_header_table_size c = 4096"

definition windows_ok :: "Http2Connection \<Rightarrow> bool" where
  "windows_ok c \<longleftrightarrow> send_ok c \<and> 0 \<le> conn_send_window c \<and> conn_send_window c < 2 ^ 31
     \<and> 0 \<le> peer_initial_window c \<and> peer_initial_window c < 2 ^ 31
     \<and> 16384 \<le> peer_max_frame_size c \<and> peer_max_frame_size c \<le> 16777215
     \<and> (\<forall>(k, ss) \<in> set (send c). \<bar>ss_window ss - peer_initial_window c\<bar> < 2 ^ 31)"

lemma set_alist_update: "p \<in> set (AList.update k v xs) \<Longrightarrow> p = (k, v) \<or> p \<in> set xs"
  by (induction xs) (auto split: if_splits)

lemma length_alist_update: "length (AList.update k v xs) \<le> Suc (length xs)"
  "map_of xs k = Some w \<Longrightarrow> length (AList.update k v xs) = length xs"
  by (induction xs) (auto split: if_splits)

lemma set_alist_delete: "p \<in> set (AList.delete k xs) \<Longrightarrow> p \<in> set xs"
  by (induction xs) (auto split: if_splits)

lemma body_total_update:
  "map_of xs k = Some st \<Longrightarrow> body_total (AList.update k st' xs) + length (st_body st) = body_total xs + length (st_body st')"
  "map_of xs k = None \<Longrightarrow> body_total (AList.update k st' xs) = body_total xs + length (st_body st')"
  by (induction xs) (auto simp: body_total_def split: if_splits)

lemma body_total_delete: "body_total (AList.delete k xs) \<le> body_total xs"
  by (induction xs) (auto simp: body_total_def)

text \<open>Neither invariant looks at the fields the other side changes.\<close>

lemma recv_ok_send_fields [simp]:
  "recv_ok (c\<lparr>rbuf := x\<rparr>) = recv_ok c" "recv_ok (c\<lparr>preface_seen := b\<rparr>) = recv_ok c" "recv_ok (c\<lparr>settings_sent := b\<rparr>) = recv_ok c"
  "recv_ok (c\<lparr>goaway_sent := b\<rparr>) = recv_ok c" "recv_ok (c\<lparr>active_header_stream := a\<rparr>) = recv_ok c"
  "recv_ok (c\<lparr>rst_stream_count := n\<rparr>) = recv_ok c" "recv_ok (c\<lparr>stream_lifetime_count := n\<rparr>) = recv_ok c"
  "recv_ok (c\<lparr>conn_send_window := w\<rparr>) = recv_ok c" "recv_ok (c\<lparr>peer_initial_window := w\<rparr>) = recv_ok c"
  "recv_ok (c\<lparr>peer_max_frame_size := m\<rparr>) = recv_ok c" "recv_ok (c\<lparr>send := ss\<rparr>) = recv_ok c"
  by (simp_all add: recv_ok_def)

lemma send_ok_recv_fields [simp]:
  "send_ok (c\<lparr>rbuf := x\<rparr>) = send_ok c" "send_ok (c\<lparr>preface_seen := b\<rparr>) = send_ok c" "send_ok (c\<lparr>settings_sent := b\<rparr>) = send_ok c"
  "send_ok (c\<lparr>goaway_sent := b\<rparr>) = send_ok c" "send_ok (c\<lparr>active_header_stream := a\<rparr>) = send_ok c"
  "send_ok (c\<lparr>rst_stream_count := n\<rparr>) = send_ok c" "send_ok (c\<lparr>stream_lifetime_count := n\<rparr>) = send_ok c"
  "send_ok (c\<lparr>streams := ts\<rparr>) = send_ok c" "send_ok (c\<lparr>last_sid := k\<rparr>) = send_ok c"
  "send_ok (c\<lparr>inbound_hpack := t\<rparr>) = send_ok c" "send_ok (c\<lparr>conn_recv_window := w\<rparr>) = send_ok c"
  "send_ok (c\<lparr>conn_send_window := w\<rparr>) = send_ok c" "send_ok (c\<lparr>peer_initial_window := w\<rparr>) = send_ok c"
  by (simp_all add: send_ok_def)

lemma windows_ok_recv_fields [simp]:
  "windows_ok (c\<lparr>rbuf := x\<rparr>) = windows_ok c" "windows_ok (c\<lparr>preface_seen := b\<rparr>) = windows_ok c"
  "windows_ok (c\<lparr>settings_sent := b\<rparr>) = windows_ok c" "windows_ok (c\<lparr>goaway_sent := b\<rparr>) = windows_ok c"
  "windows_ok (c\<lparr>active_header_stream := a\<rparr>) = windows_ok c" "windows_ok (c\<lparr>rst_stream_count := n\<rparr>) = windows_ok c"
  "windows_ok (c\<lparr>stream_lifetime_count := n\<rparr>) = windows_ok c" "windows_ok (c\<lparr>streams := ts\<rparr>) = windows_ok c"
  "windows_ok (c\<lparr>last_sid := k\<rparr>) = windows_ok c" "windows_ok (c\<lparr>inbound_hpack := t\<rparr>) = windows_ok c"
  "windows_ok (c\<lparr>conn_recv_window := w\<rparr>) = windows_ok c"
  by (simp_all add: windows_ok_def)

section \<open>The receiving side\<close>

lemma stream_at: "recv_ok c \<Longrightarrow> map_of (streams c) k = Some st \<Longrightarrow> k \<le> last_sid c \<and> stream_ok st"
  by (auto simp: recv_ok_def dest: map_of_SomeD)

lemma recv_ok_delete: "recv_ok c \<Longrightarrow> recv_ok (c\<lparr>streams := AList.delete k (streams c)\<rparr>)"
  using body_total_delete [of k "streams c"] length_delete_le [of k "streams c"]
  by (auto simp: recv_ok_def distinct_delete dest!: set_alist_delete)

lemma recv_ok_update:
  assumes "recv_ok c" "map_of (streams c) k = Some st" "stream_ok st'" "length (st_body st') = length (st_body st)"
  shows "recv_ok (c\<lparr>streams := AList.update k st' (streams c)\<rparr>)"
  using assms stream_at [OF assms(1,2)] body_total_update(1) [OF assms(2), of st']
  by (auto simp: recv_ok_def distinct_update length_alist_update dest!: set_alist_update)

lemma recv_ok_hpack:
  "recv_ok c \<Longrightarrow> dt_ok t \<Longrightarrow> dt_max_size t \<le> 4096 \<Longrightarrow> recv_ok (c\<lparr>inbound_hpack := t\<rparr>)"
  by (simp add: recv_ok_def)

lemma recv_ok_goaway: "recv_ok c \<Longrightarrow> recv_ok (fst (goaway_code k (c, f)))"
  by (simp add: goaway_code_def)

lemma recv_ok_try_emit: "recv_ok c \<Longrightarrow> recv_ok (fst (try_emit k (c, f)))"
  by (auto simp: try_emit_def recv_ok_delete split: option.split)

lemma recv_ok_finish_headers: "recv_ok c \<Longrightarrow> outcome_all (\<lambda>s. recv_ok (fst s)) (finish_headers k (c, f))"
proof -
  assume c: "recv_ok c"
  let ?l = "\<lparr>max_header_list_size = inbound_header_list_size c, max_dynamic_table_size = inbound_header_table_size c\<rparr>"
  have l: "decoding_ok ?l (inbound_hpack c) 0 []" using c by (simp add: decoding_ok_def recv_ok_def)
  have d: "dt_ok t \<and> dt_max_size t \<le> 4096 \<and> (\<forall>hs. r = Inr hs \<longrightarrow> list_size hs \<le> 65536)"
    if "decode_header_block_limited b (inbound_hpack c) ?l = Some (r, t)" for b r t
    using block_bounded [OF that [unfolded decode_header_block_limited_def] l] c by (simp add: recv_ok_def)
  have u: "recv_ok (c\<lparr>inbound_hpack := t, streams := AList.update k st' (streams c)\<rparr>)"
    if "map_of (streams c) k = Some st" "dt_ok t" "dt_max_size t \<le> 4096" "stream_ok st'" "st_body st' = st_body st" for t st st'
    using recv_ok_update [OF recv_ok_hpack [OF c that(2,3)], of k st st'] that by simp
  show ?thesis
  proof (cases "map_of (streams c) k")
    case None
    then show ?thesis using c by (simp add: finish_headers_def)
  next
    case (Some st)
    have st: "stream_ok st" using stream_at [OF c Some] by simp
    show ?thesis
    proof (cases "decode_header_block_limited (st_header_block st) (inbound_hpack c) ?l")
      case None
      then show ?thesis using Some by (simp add: finish_headers_def)
    next
      case (Some q)
      obtain r t where q: "q = (r, t)" by (cases q)
      note t = d [OF Some [unfolded q]]
      show ?thesis
        using \<open>map_of (streams c) k = Some st\<close> Some q t st
        by (cases r) (auto simp: finish_headers_def stream_ok_def intro!: u)
    qed
  qed
qed

lemma recv_ok_after_headers:
  "recv_ok c \<Longrightarrow> outcome_all (\<lambda>s. recv_ok (fst s))
     (and_then (finish_headers k (c, f)) (\<lambda>(c, f). Done (try_emit k (c\<lparr>active_header_stream := a\<rparr>, f))))"
  by (rule outcome_all_and_then [OF recv_ok_finish_headers])
    (auto intro!: recv_ok_try_emit)

text \<open>What HEADERS does when it opens a stream.\<close>

definition new_stream :: "Frame \<Rightarrow> bytes \<Rightarrow> Stream" where
  "new_stream fr fragment = Stream_default\<lparr>st_recv_window := uint SERVER_INITIAL_WINDOW_SIZE, st_header_block := fragment,
     st_end_stream := (flags (header fr) AND FLAG_END_STREAM \<noteq> 0)\<rparr>"

definition handle_new_headers :: "Frame \<Rightarrow> conn_state \<Rightarrow> outcome" where
  "handle_new_headers fr = (\<lambda>(c, f).
     let sid = stream_id (header fr); c1 = c\<lparr>stream_lifetime_count := stream_lifetime_count c + 1\<rparr> in
     if SERVER_MAX_STREAM_LIFETIME < stream_lifetime_count c1 then Done (goaway_code ERR_ENHANCE_YOUR_CALM (c1, f))
     else
       (case header_block_fragment fr of
          None \<Rightarrow> Fail ''http2: bad HEADERS padding'' (c1, f)
        | Some fragment \<Rightarrow>
            if SERVER_MAX_HEADER_BLOCK_BYTES < length fragment then Done (goaway_code ERR_ENHANCE_YOUR_CALM (c1, f))
            else
              (let c2 = c1\<lparr>last_sid := sid, streams := AList.update sid (new_stream fr fragment) (streams c1)\<rparr> in
               if flags (header fr) AND FLAG_END_HEADERS \<noteq> 0 then
                 and_then (finish_headers sid (c2, f))
                   (\<lambda>(c3, f3). Done (try_emit sid (c3\<lparr>active_header_stream := None\<rparr>, f3)))
               else Done (try_emit sid (c2\<lparr>active_header_stream := Some sid\<rparr>, f)))))"

lemma handle_headers_new:
  assumes "stream_id (header fr) \<noteq> 0" "stream_id (header fr) mod 2 \<noteq> 0" "last_sid c < stream_id (header fr)"
    and "active_header_stream c = None" "length (streams c) < 100" "map_of (streams c) (stream_id (header fr)) = None"
  shows "handle_headers fr (c, f) = handle_new_headers fr (c, f)"
proof -
  have g: "\<not> stream_id (header fr) \<le> last_sid c" "\<not> 100 \<le> length (streams c)" using assms(3,5) by simp_all
  have st: "st_header_block Stream_default = []" "st_end_stream Stream_default = False" by (simp_all add: Stream_default_def)
  show ?thesis unfolding handle_headers_def handle_new_headers_def Let_def SERVER_MAX_CONCURRENT_STREAMS_def
    using assms(1,2,4,6) g st by (simp add: new_stream_def split: option.split)
qed

lemma recv_ok_open:
  assumes c: "recv_ok c" and k: "last_sid c < k" "length (streams c) < 100" and b: "length b \<le> 65536"
  shows "recv_ok (c\<lparr>stream_lifetime_count := n, last_sid := k, streams := AList.update k (new_stream fr b) (streams c)\<rparr>)"
proof -
  have "map_of (streams c) k = None" using k(1) stream_at [OF c, of k] by (cases "map_of (streams c) k") auto
  moreover have "stream_ok (new_stream fr b)" "st_body (new_stream fr b) = []"
    using b by (simp_all add: new_stream_def stream_ok_def Stream_default_def list_size_def SERVER_INITIAL_WINDOW_SIZE_def)
  ultimately show ?thesis
    using c k body_total_update(2) [of "streams c" k "new_stream fr b"] length_alist_update(1) [of k "new_stream fr b" "streams c"]
    by (auto simp: recv_ok_def distinct_update dest!: set_alist_update)
qed

lemma recv_ok_headers: "recv_ok c \<Longrightarrow> outcome_all (\<lambda>s. recv_ok (fst s)) (handle_headers fr (c, f))"
proof -
  assume c: "recv_ok c"
  let ?k = "stream_id (header fr)"
  show ?thesis
  proof (cases "?k = 0 \<or> ?k mod 2 = 0 \<or> ?k \<le> last_sid c \<or> active_header_stream c \<noteq> None \<or> 100 \<le> length (streams c)")
    case True
    then show ?thesis using c
      by (elim disjE) (simp_all add: handle_headers_def Let_def goaway_def recv_ok_goaway SERVER_MAX_CONCURRENT_STREAMS_def)
  next
    case False
    then have "map_of (streams c) ?k = None"
      using stream_at [OF c, of ?k] by (cases "map_of (streams c) ?k") auto
    then have "handle_headers fr (c, f) = handle_new_headers fr (c, f)"
      using False by (intro handle_headers_new) auto
    moreover have "recv_ok (c\<lparr>stream_lifetime_count := n, last_sid := ?k, streams := AList.update ?k (new_stream fr b) (streams c)\<rparr>)"
      if "length b \<le> 65536" for n b
      using recv_ok_open [OF c _ _ that] False by (simp add: not_le)
    ultimately show ?thesis using c
      by (simp add: handle_new_headers_def Let_def recv_ok_goaway recv_ok_after_headers recv_ok_try_emit
          SERVER_MAX_HEADER_BLOCK_BYTES_def split: option.split)
  qed
qed

lemma recv_ok_extend:
  assumes "recv_ok c" "map_of (streams c) k = Some st" "length (st_header_block st') \<le> 65536" "st_headers st' = st_headers st"
    and "st_recv_window st' = st_recv_window st" "st_body st' = st_body st"
  shows "recv_ok (c\<lparr>streams := AList.update k st' (streams c)\<rparr>)"
  using assms stream_at [OF assms(1,2)] by (intro recv_ok_update [OF assms(1,2)]) (auto simp: stream_ok_def)

lemma recv_ok_continuation: "recv_ok c \<Longrightarrow> outcome_all (\<lambda>s. recv_ok (fst s)) (handle_continuation fr (c, f))"
proof -
  assume c: "recv_ok c"
  let ?k = "stream_id (header fr)"
  show ?thesis
  proof (cases "map_of (streams c) ?k")
    case None
    then show ?thesis using c by (simp add: handle_continuation_def Let_def goaway_def recv_ok_goaway)
  next
    case (Some st)
    have "length (st_header_block st) \<le> 65536" using stream_at [OF c Some] by (simp add: stream_ok_def)
    then show ?thesis using c Some
      by (simp add: handle_continuation_def Let_def goaway_def recv_ok_goaway recv_ok_after_headers
          recv_ok_extend [OF c Some] SERVER_MAX_HEADER_BLOCK_BYTES_def)
  qed
qed

lemma data_payload_length: "data_payload fr = Some d \<Longrightarrow> length d \<le> length (payload fr)"
  by (auto simp: data_payload_def strip_padding_def Let_def split: if_splits list.splits)

lemma recv_ok_charge: "recv_ok c \<Longrightarrow> 0 \<le> n \<Longrightarrow> 0 \<le> conn_recv_window c - n \<Longrightarrow> recv_ok (c\<lparr>conn_recv_window := conn_recv_window c - n\<rparr>)"
  by (auto simp: recv_ok_def)

lemma recv_ok_receive:
  assumes c: "recv_ok c" and st: "map_of (streams c) k = Some st" and "0 \<le> conn_recv_window c - n" "stream_ok st'"
    and "int (length (st_body st')) \<le> int (length (st_body st)) + n"
  shows "recv_ok (c\<lparr>conn_recv_window := conn_recv_window c - n, streams := AList.update k st' (streams c)\<rparr>)"
  using assms stream_at [OF c st] body_total_update(1) [OF st, of st']
  by (auto simp: recv_ok_def distinct_update length_alist_update dest!: set_alist_update)

lemma recv_ok_data:
  assumes fr: "frame_ok fr" and c: "recv_ok c"
  shows "outcome_all (\<lambda>s. recv_ok (fst s)) (handle_data fr (c, f))"
proof -
  let ?k = "stream_id (header fr)" and ?n = "uint (fh_length (header fr))"
  have n: "?n = int (length (payload fr))" using fr unfolding frame_ok_def by simp
  note paid = recv_ok_charge [OF c] and u = recv_ok_receive [OF c]
  show ?thesis
  proof (cases "map_of (streams c) ?k")
    case None
    then show ?thesis using c by (simp add: handle_data_def Let_def goaway_def recv_ok_goaway)
  next
    case (Some st)
    have st: "stream_ok st" using stream_at [OF c Some] by simp
    show ?thesis
    proof (cases "data_payload fr")
      case None
      then show ?thesis using c Some by (simp add: handle_data_def Let_def goaway_def recv_ok_goaway)
    next
      case d: (Some d)
      have "length d \<le> length (payload fr)" using d by (rule data_payload_length)
      then show ?thesis using c Some d st n paid u [OF Some]
        by (simp add: handle_data_def Let_def goaway_def recv_ok_goaway recv_ok_try_emit stream_ok_def)
    qed
  qed
qed

lemma recv_ok_rst: "recv_ok c \<Longrightarrow> outcome_all (\<lambda>s. recv_ok (fst s)) (handle_rst_stream fr (c, f))"
  using recv_ok_delete [of "c\<lparr>rst_stream_count := rst_stream_count c + 1\<rparr>"]
  by (simp add: handle_rst_stream_def Let_def recv_ok_goaway)

section \<open>The sending side\<close>

lemma windows_ok_iff: "windows_ok c \<longleftrightarrow> send_ok c \<and> 0 \<le> conn_send_window c \<and> conn_send_window c < 2 ^ 31
     \<and> 0 \<le> peer_initial_window c \<and> peer_initial_window c < 2 ^ 31
     \<and> 16384 \<le> peer_max_frame_size c \<and> peer_max_frame_size c \<le> 16777215
     \<and> (\<forall>k ss. map_of (send c) k = Some ss \<longrightarrow> \<bar>ss_window ss - peer_initial_window c\<bar> < 2 ^ 31)"
  by (cases "distinct (map fst (send c))") (auto simp: windows_ok_def send_ok_iff Ball_def map_of_eq_Some_iff)

lemma windows_ok_flush:
  assumes "windows_ok c" "flush_law c ms c'" "send_ok c'"
  shows "windows_ok c' \<and> recv_ok c' = recv_ok c"
proof -
  obtain w xs where c': "c' = c\<lparr>conn_send_window := w, send := xs\<rparr>" using flush_lawD(1) [OF assms(2)] by (elim exE)
  have "\<bar>ss_window ss' - peer_initial_window c\<bar> < 2 ^ 31" if ss': "map_of (send c') k = Some ss'" for k ss'
  proof -
    obtain ss where ss: "map_of (send c) k = Some ss" using ss' flush_lawD(5) [OF assms(2), of k] by fastforce
    have "\<bar>ss_window ss - peer_initial_window c\<bar> < 2 ^ 31" "0 \<le> peer_initial_window c" "peer_initial_window c < 2 ^ 31"
      using assms(1) ss by (simp_all add: windows_ok_iff)
    then show ?thesis using flush_lawD(6) [OF assms(2) ss] flush_lawD(7) [OF assms(2) ss ss'] by linarith
  qed
  moreover have "0 \<le> conn_send_window c'" "conn_send_window c' < 2 ^ 31"
    using assms(1) flush_lawD(2,3) [OF assms(2)] by (simp_all add: windows_ok_def)
  ultimately show ?thesis using assms(1,3) c' by (simp add: windows_ok_iff)
qed

lemma windows_ok_flush_stream:
  assumes "windows_ok c"
  shows "windows_ok (fst (flush_stream k (c, out)))" "recv_ok (fst (flush_stream k (c, out))) = recv_ok c"
proof -
  have "send_ok c" using assms by (simp add: windows_ok_def)
  then show "windows_ok (fst (flush_stream k (c, out)))" "recv_ok (fst (flush_stream k (c, out))) = recv_ok c"
    using assms by (auto elim!: flush_stream_law [of c k out] dest: windows_ok_flush)
qed

lemma windows_ok_flush_feed:
  assumes "windows_ok c"
  shows "windows_ok (fst (flush_feed ord (c, f)))" "recv_ok (fst (flush_feed ord (c, f))) = recv_ok c"
proof -
  have "send_ok c" using assms by (simp add: windows_ok_def)
  from fold_flush_law [OF this, of "ord (map fst (send c))" "fd_outbound f"]
  obtain ms c' where "fold flush_stream (ord (map fst (send c))) (c, fd_outbound f) = (c', fd_outbound f @ wire ms)"
    "flush_law c ms c'" "send_ok c'" by blast
  then show "windows_ok (fst (flush_feed ord (c, f)))" "recv_ok (fst (flush_feed ord (c, f))) = recv_ok c"
    using windows_ok_flush [OF assms] by (simp_all add: flush_feed_def flush_all_def)
qed

definition conn_ok :: "Http2Connection \<Rightarrow> bool" where
  "conn_ok c \<longleftrightarrow> recv_ok c \<and> windows_ok c"

lemma conn_ok_flush_feed: "conn_ok c \<Longrightarrow> conn_ok (fst (flush_feed ord (c, f)))"
  by (simp add: conn_ok_def windows_ok_flush_feed)

lemma conn_ok_goaway: "conn_ok c \<Longrightarrow> conn_ok (fst (goaway_code k (c, f)))"
  by (simp add: goaway_code_def conn_ok_def)

lemma conn_ok_apply_settings: "conn_ok c \<Longrightarrow> conn_ok (fst (snd (apply_settings xs (c, f))))"
proof (induction xs arbitrary: c f)
  case (Cons x xs)
  have size: "conn_ok (c\<lparr>peer_max_frame_size := m\<rparr>)" if "16384 \<le> m" "m \<le> 16777215" for m
  proof -
    have "0 < m" using that(1) by (rule less_le_trans [rotated]) simp
    then show ?thesis using Cons.prems that by (auto simp: conn_ok_def windows_ok_def send_ok_def)
  qed
  have window: "conn_ok (c\<lparr>peer_initial_window := uint w,
      send := map (\<lambda>(k, ss). (k, ss\<lparr>ss_window := ss_window ss + (uint w - peer_initial_window c)\<rparr>)) (send c)\<rparr>)"
    if "w \<le> 0x7FFFFFFF" for w :: u32
  proof -
    have "uint w < 2 ^ 31" using that by (simp add: word_le_def)
    then show ?thesis using Cons.prems
      by (auto simp: conn_ok_def windows_ok_def send_ok_def comp_def split_beta)
  qed
  show ?case using Cons size window conn_ok_goaway
    by (auto simp: goaway_def Let_def not_less)
qed simp

lemma conn_ok_settings: "conn_ok c \<Longrightarrow> outcome_all (\<lambda>s. conn_ok (fst s)) (handle_settings ord fr (c, f))"
proof -
  assume c: "conn_ok c"
  have fin: "outcome_all (\<lambda>s. conn_ok (fst s)) (case apply_settings ss (c, f) of
      (True, s) \<Rightarrow> Done s | (False, c1, f1) \<Rightarrow> Done (flush_feed ord (c1, emit_bytes encode_settings_ack f1)))" for ss
  proof -
    obtain e c1 f1 where "apply_settings ss (c, f) = (e, c1, f1)" by (cases "apply_settings ss (c, f)") auto
    then show ?thesis using conn_ok_apply_settings [OF c, of ss f] by (cases e) (simp_all add: conn_ok_flush_feed)
  qed
  show ?thesis using c fin
    by (simp add: handle_settings_def goaway_def conn_ok_goaway split: option.split)
qed

lemma conn_ok_grant_conn:
  "conn_ok c \<Longrightarrow> \<not> 0x7FFFFFFF < conn_send_window c + uint inc
   \<Longrightarrow> conn_ok (c\<lparr>conn_send_window := conn_send_window c + uint (inc :: u32)\<rparr>)"
  by (auto simp: conn_ok_def windows_ok_def)

lemma conn_ok_grant_stream:
  assumes c: "conn_ok c" and ss: "map_of (send c) k = Some ss" and inc: "\<not> 0x7FFFFFFF < ss_window ss + uint (inc :: u32)"
  shows "conn_ok (c\<lparr>send := AList.update k (ss\<lparr>ss_window := ss_window ss + uint inc\<rparr>) (send c)\<rparr>)"
proof -
  have "\<bar>ss_window ss - peer_initial_window c\<bar> < 2 ^ 31" "0 \<le> peer_initial_window c" "0 \<le> uint inc"
    using c ss by (simp_all add: conn_ok_def windows_ok_iff)
  moreover have "(2 :: int) ^ 31 = 2147483648" by simp
  ultimately have "\<bar>ss_window ss + uint inc - peer_initial_window c\<bar> < 2 ^ 31" using inc by linarith
  then show ?thesis using c ss by (auto simp: conn_ok_def windows_ok_iff send_ok_iff update_conv' distinct_update)
qed

lemma conn_ok_window_update: "conn_ok c \<Longrightarrow> outcome_all (\<lambda>s. conn_ok (fst s)) (handle_window_update ord fr (c, f))"
  by (simp add: handle_window_update_def Let_def goaway_def conn_ok_goaway conn_ok_flush_feed conn_ok_grant_conn
      conn_ok_grant_stream split: option.split)

section \<open>All frames\<close>

lemma windows_ok_try_emit: "windows_ok c \<Longrightarrow> windows_ok (fst (try_emit k (c, f)))"
  by (simp add: try_emit_def split: option.split)

lemma windows_ok_finish_headers: "windows_ok c \<Longrightarrow> outcome_all (\<lambda>s. windows_ok (fst s)) (finish_headers k (c, f))"
  by (simp add: finish_headers_def Let_def split: option.split sum.split prod.split)

lemma windows_ok_goaway: "windows_ok c \<Longrightarrow> windows_ok (fst (goaway_code k (c, f)))"
  by (simp add: goaway_code_def)

lemma windows_ok_after_headers:
  "windows_ok c \<Longrightarrow> outcome_all (\<lambda>s. windows_ok (fst s))
     (and_then (finish_headers k (c, f)) (\<lambda>(c, f). Done (try_emit k (c\<lparr>active_header_stream := a\<rparr>, f))))"
  by (rule outcome_all_and_then [OF windows_ok_finish_headers])
    (auto intro!: windows_ok_try_emit)

lemmas windows_ok_simps = windows_ok_try_emit windows_ok_goaway windows_ok_after_headers goaway_def Let_def

lemma windows_ok_receiving:
  assumes "windows_ok c"
  shows "outcome_all (\<lambda>s. windows_ok (fst s)) (handle_headers fr (c, f))"
    and "outcome_all (\<lambda>s. windows_ok (fst s)) (handle_continuation fr (c, f))"
    and "outcome_all (\<lambda>s. windows_ok (fst s)) (handle_data fr (c, f))"
    and "outcome_all (\<lambda>s. windows_ok (fst s)) (handle_rst_stream fr (c, f))"
  subgoal using assms by (simp add: handle_headers_def windows_ok_simps split: option.split)
  subgoal using assms by (simp add: handle_continuation_def windows_ok_simps split: option.split)
  subgoal using assms by (simp add: handle_data_def windows_ok_simps split: option.split)
  subgoal using assms by (simp add: handle_rst_stream_def windows_ok_simps)
  done

lemma outcome_all_conj: "outcome_all P r \<Longrightarrow> outcome_all Q r \<Longrightarrow> outcome_all (\<lambda>s. P s \<and> Q s) r"
  by (cases r) simp_all

lemma conn_ok_frame:
  assumes "frame_ok fr" "conn_ok c"
  shows "outcome_all (\<lambda>s. conn_ok (fst s)) (handle_frame ord fr (c, f))"
proof (cases "frame_type (header fr) = Settings \<or> frame_type (header fr) = WindowUpdate")
  case True
  then show ?thesis using conn_ok_settings conn_ok_window_update assms(2) by (auto simp: handle_frame_def)
next
  case False
  have c: "recv_ok c" "windows_ok c" using assms(2) by (simp_all add: conn_ok_def)
  have "outcome_all (\<lambda>s. recv_ok (fst s)) (handle_frame ord fr (c, f))"
    using False c recv_ok_headers recv_ok_continuation recv_ok_data [OF assms(1)] recv_ok_rst
    by (simp add: handle_frame_def handle_ping_def recv_ok_goaway split: FrameType.split)
  moreover have "outcome_all (\<lambda>s. windows_ok (fst s)) (handle_frame ord fr (c, f))"
    using False windows_ok_receiving [OF c(2)] c(2)
    by (simp add: handle_frame_def handle_ping_def windows_ok_goaway split: FrameType.split)
  ultimately show ?thesis unfolding conn_ok_def by (rule outcome_all_conj)
qed

interpretation resources: frame_invariant ord "\<lambda>s. conn_ok (fst s)" for ord
proof
  show "outcome_all (\<lambda>s. conn_ok (fst s)) (handle_frame ord fr s)" if "frame_ok fr" "conn_ok (fst s)" for fr s
    using conn_ok_frame [OF that(1), of "fst s" ord "snd s"] that(2) by simp
  show "conn_ok (fst (goaway_code k s))" if "conn_ok (fst s)" for s k
    using conn_ok_goaway [of "fst s" k "snd s"] that by simp
qed (simp_all add: conn_ok_def)

end
