(* ===== verification/Http2_Conn_Ledger.thy ===== *)
theory Http2_Conn_Ledger
  imports Http2_Conn_Inv
begin

unbundle bit_operations_syntax

text \<open>
  What the application gets from an HTTP/2 connection over its whole life: every call of \<open>feed\<close>
  and \<open>respond\<close>, in any order and with any arguments. The ledger counts the requests handed
  out so far beside the state: no stream is handed out twice, and all the request bodies
  together fit the receive window the connection started with.
\<close>

section \<open>Runs of a connection\<close>

inductive served :: "(u32 list \<Rightarrow> u32 list) \<Rightarrow> Http2Connection \<Rightarrow> Http2Request list \<Rightarrow> bool"
  for ord where
  served_new: "served ord Http2Connection_new []"
| served_feed: "served ord c rs \<Longrightarrow> feed ord bs c = Some (Inr f, c') \<Longrightarrow> served ord c' (rs @ fd_requests f)"
| served_err: "served ord c rs \<Longrightarrow> feed ord bs c = Some (Inl e, c') \<Longrightarrow> served ord c' rs"
| served_respond: "served ord c rs \<Longrightarrow> respond sid status hs body c = (c', out) \<Longrightarrow> served ord c' rs"

lemma conn_ok_new: "conn_ok Http2Connection_new"
  by (simp add: conn_ok_def recv_ok_def windows_ok_def send_ok_def Http2Connection_new_def dt_ok_def DynamicTable_new_def
      body_total_def SERVER_HEADER_TABLE_SIZE_def SERVER_MAX_HEADER_LIST_SIZE_def SERVER_INITIAL_WINDOW_SIZE_def
      DEFAULT_MAX_FRAME_SIZE_def)

text \<open>Starting a response only adds what is pending on its stream.\<close>

definition respond_start :: "u32 \<Rightarrow> bytes \<Rightarrow> Http2Connection \<Rightarrow> Http2Connection" where
  "respond_start sid body c = c\<lparr>streams := AList.delete sid (streams c),
     send := AList.update sid \<lparr>ss_pending = body, ss_window = peer_initial_window c\<rparr> (send c)\<rparr>"

lemma respond_cases:
  "fst (respond sid status hs body c) =
     (if body = [] then c\<lparr>streams := AList.delete sid (streams c)\<rparr>
      else fst (flush_stream sid (respond_start sid body c,
             encode_headers sid (encode_header_block (('':status'', show_nat (unat status)) # hs)) False True)))"
  by (simp add: respond_def respond_start_def Let_def)

lemma windows_ok_respond_start: "windows_ok c \<Longrightarrow> body \<noteq> [] \<Longrightarrow> windows_ok (respond_start sid body c)"
  by (auto simp: respond_start_def windows_ok_iff send_ok_iff update_conv' distinct_update)

lemma conn_ok_respond: "conn_ok c \<Longrightarrow> conn_ok (fst (respond sid status hs body c))"
  using windows_ok_respond_start [of c body sid] recv_ok_delete [of c sid]
  by (simp add: respond_cases conn_ok_def windows_ok_flush_stream) (simp add: respond_start_def)

section \<open>The ledger\<close>

definition open_ids :: "(u32 \<times> Stream) list \<Rightarrow> u32 set" where
  "open_ids xs = fst ` set xs"

lemma open_ids_update: "map_of xs k = Some st \<Longrightarrow> open_ids (AList.update k st' xs) = open_ids xs"
    "open_ids (AList.update k st' xs) = insert k (open_ids xs)"
  by (force simp: open_ids_def dom_update dest: map_of_SomeD)+

lemma open_ids_delete: "open_ids (AList.delete k xs) = open_ids xs - {k}"
  unfolding open_ids_def list.set_map [symmetric] delete_keys by simp

lemma open_ids_member: "map_of xs k = Some st \<Longrightarrow> k \<in> open_ids xs"
  by (force simp: open_ids_def dest: map_of_SomeD)

definition ledger :: "Http2Request list \<Rightarrow> conn_state \<Rightarrow> bool" where
  "ledger rs s \<longleftrightarrow> (let c = fst s; all = rs @ fd_requests (snd s) in
     distinct (map rq_stream_id all)
   \<and> (\<forall>r \<in> set all. rq_stream_id r \<le> last_sid c \<and> rq_stream_id r \<notin> open_ids (streams c) \<and> rq_stream_id r mod 2 \<noteq> 0
        \<and> list_size (rq_headers r) \<le> 65536)
   \<and> (\<forall>k \<in> open_ids (streams c). k mod 2 \<noteq> 0)
   \<and> int (sum_list (map (\<lambda>r. length (rq_body r)) all)) + int (body_total (streams c)) \<le> 2 ^ 20 - conn_recv_window c)"

lemma ledger_fields [simp]:
  "ledger rs (c\<lparr>rbuf := x\<rparr>, f) = ledger rs (c, f)" "ledger rs (c\<lparr>preface_seen := b\<rparr>, f) = ledger rs (c, f)"
  "ledger rs (c\<lparr>settings_sent := b\<rparr>, f) = ledger rs (c, f)" "ledger rs (c\<lparr>goaway_sent := b\<rparr>, f) = ledger rs (c, f)"
  "ledger rs (c\<lparr>active_header_stream := a\<rparr>, f) = ledger rs (c, f)" "ledger rs (c\<lparr>rst_stream_count := n\<rparr>, f) = ledger rs (c, f)"
  "ledger rs (c\<lparr>stream_lifetime_count := n\<rparr>, f) = ledger rs (c, f)" "ledger rs (c\<lparr>inbound_hpack := t\<rparr>, f) = ledger rs (c, f)"
  "ledger rs (c\<lparr>conn_send_window := w\<rparr>, f) = ledger rs (c, f)" "ledger rs (c\<lparr>peer_initial_window := w\<rparr>, f) = ledger rs (c, f)"
  "ledger rs (c\<lparr>peer_max_frame_size := m\<rparr>, f) = ledger rs (c, f)" "ledger rs (c\<lparr>send := ss\<rparr>, f) = ledger rs (c, f)"
  "ledger rs (c, emit_bytes bs f) = ledger rs (c, f)" "ledger rs (c, f\<lparr>fd_outbound := bs\<rparr>) = ledger rs (c, f)"
  by (simp_all add: ledger_def emit_bytes_def)

lemma ledger_goaway: "ledger rs (c, f) \<Longrightarrow> ledger rs (goaway_code k (c, f))"
  by (simp add: goaway_code_def)

lemma ledger_delete: "ledger rs (c, f) \<Longrightarrow> ledger rs (c\<lparr>streams := AList.delete k (streams c)\<rparr>, f)"
  using body_total_delete [of k "streams c"]
  by (auto simp: ledger_def Let_def open_ids_delete)

lemma ledger_update:
  assumes "ledger rs (c, f)" "map_of (streams c) k = Some st"
    and "int (length (st_body st')) - int (length (st_body st)) \<le> conn_recv_window c - w"
  shows "ledger rs (c\<lparr>conn_recv_window := w, streams := AList.update k st' (streams c)\<rparr>, f)"
  using assms(1,3) body_total_update(1) [OF assms(2), of st'] open_ids_update(1) [OF assms(2), of st']
  by (auto simp: ledger_def Let_def)

lemma ledger_open:
  assumes "ledger rs (c, f)" "map_of (streams c) k = None" "last_sid c < k" "k mod 2 \<noteq> 0" "st_body st = []"
  shows "ledger rs (c\<lparr>last_sid := k, streams := AList.update k st (streams c)\<rparr>, f)"
proof -
  have "x \<le> k \<and> x \<noteq> k" if "x \<le> last_sid c" for x
    using that assms(3) by auto
  then show ?thesis using assms(1,4,5) body_total_update(2) [OF assms(2), of st]
    by (auto simp: ledger_def Let_def open_ids_update(2))
qed

lemma body_total_deleted: "map_of xs k = Some st \<Longrightarrow> length (st_body st) + body_total (AList.delete k xs) \<le> body_total xs"
proof (induction xs)
  case (Cons x xs)
  then show ?case using body_total_delete [of k xs] by (cases x) (auto simp: body_total_def split: if_splits)
qed simp

lemma ledger_try_emit:
  assumes "ledger rs (c, f)" "recv_ok c"
  shows "ledger rs (try_emit k (c, f))"
proof (cases "map_of (streams c) k")
  case (Some st)
  have "k \<in> open_ids (streams c)" using Some by (rule open_ids_member)
  moreover have "k \<le> last_sid c" "list_size (st_headers st) \<le> 65536"
    using stream_at [OF assms(2) Some] by (simp_all add: stream_ok_def)
  ultimately show ?thesis using assms(1) Some body_total_deleted [OF Some]
    by (auto simp: try_emit_def ledger_def Let_def open_ids_delete)
qed (use assms in \<open>simp add: try_emit_def\<close>)

lemma ledger_touch:
  assumes "ledger rs (c, f)" "map_of (streams c) k = Some st" "st_body st' = st_body st"
  shows "ledger rs (c\<lparr>streams := AList.update k st' (streams c)\<rparr>, f)"
  using ledger_update [OF assms(1,2), of st' "conn_recv_window c"] assms(3) by simp

lemma ledger_finish_headers: "ledger rs (c, f) \<Longrightarrow> outcome_all (ledger rs) (finish_headers k (c, f))"
proof -
  assume l: "ledger rs (c, f)"
  have "ledger rs (c\<lparr>inbound_hpack := t, streams := AList.update k st' (streams c)\<rparr>, f)"
    if "map_of (streams c) k = Some st" "st_body st' = st_body st" for t st st'
    using ledger_touch [of rs "c\<lparr>inbound_hpack := t\<rparr>" f k st st'] l that by simp
  then show ?thesis using l
    by (cases "map_of (streams c) k") (auto simp: finish_headers_def Let_def split: option.split sum.split)
qed

lemma ledger_after_headers:
  assumes "ledger rs (c, f)" "recv_ok c"
  shows "outcome_all (ledger rs)
     (and_then (finish_headers k (c, f)) (\<lambda>(c, f). Done (try_emit k (c\<lparr>active_header_stream := a\<rparr>, f))))"
proof -
  have "outcome_all (\<lambda>s. recv_ok (fst s) \<and> ledger rs s) (finish_headers k (c, f))"
    using recv_ok_finish_headers [OF assms(2)] ledger_finish_headers [OF assms(1)] by (rule outcome_all_conj)
  then show ?thesis
    by (cases "finish_headers k (c, f)") (auto intro!: ledger_try_emit)
qed

lemma ledger_headers:
  assumes "ledger rs (c, f)" "recv_ok c"
  shows "outcome_all (ledger rs) (handle_headers fr (c, f))"
proof -
  let ?k = "stream_id (header fr)"
  show ?thesis
  proof (cases "?k = 0 \<or> ?k mod 2 = 0 \<or> ?k \<le> last_sid c \<or> active_header_stream c \<noteq> None \<or> 100 \<le> length (streams c)")
    case True
    then show ?thesis using assms
      by (elim disjE) (simp_all add: handle_headers_def Let_def goaway_def ledger_goaway SERVER_MAX_CONCURRENT_STREAMS_def)
  next
    case False
    then have n: "map_of (streams c) ?k = None"
      using stream_at [OF assms(2), of ?k] by (cases "map_of (streams c) ?k") auto
    then have "handle_headers fr (c, f) = handle_new_headers fr (c, f)"
      using False by (intro handle_headers_new) auto
    moreover have "ledger rs (c\<lparr>stream_lifetime_count := m, last_sid := ?k, streams := AList.update ?k (new_stream fr b) (streams c)\<rparr>, f)" for m b
      using ledger_open [of rs "c\<lparr>stream_lifetime_count := m\<rparr>" f ?k "new_stream fr b"] assms(1) n False
      by (simp add: new_stream_def Stream_default_def not_le)
    moreover have "recv_ok (c\<lparr>stream_lifetime_count := m, last_sid := ?k, streams := AList.update ?k (new_stream fr b) (streams c)\<rparr>)"
      if "length b \<le> 65536" for m b
      using recv_ok_open [OF assms(2) _ _ that] False by (simp add: not_le)
    ultimately show ?thesis using assms(1)
      by (simp add: handle_new_headers_def Let_def ledger_goaway ledger_after_headers ledger_try_emit
          SERVER_MAX_HEADER_BLOCK_BYTES_def split: option.split)
  qed
qed

lemma ledger_continuation:
  assumes "ledger rs (c, f)" "recv_ok c"
  shows "outcome_all (ledger rs) (handle_continuation fr (c, f))"
proof (cases "map_of (streams c) (stream_id (header fr))")
  case None
  then show ?thesis using assms(1) by (simp add: handle_continuation_def Let_def goaway_def ledger_goaway)
next
  case (Some st)
  have "length (st_header_block st) \<le> 65536" using stream_at [OF assms(2) Some] by (simp add: stream_ok_def)
  then show ?thesis using assms Some
    by (simp add: handle_continuation_def Let_def goaway_def ledger_goaway ledger_after_headers
        ledger_touch [OF assms(1) Some] recv_ok_extend [OF assms(2) Some] SERVER_MAX_HEADER_BLOCK_BYTES_def)
qed

lemma ledger_charge: "ledger rs (c, f) \<Longrightarrow> 0 \<le> n \<Longrightarrow> ledger rs (c\<lparr>conn_recv_window := conn_recv_window c - n\<rparr>, f)"
  by (simp add: ledger_def Let_def)

lemma ledger_data:
  assumes fr: "frame_ok fr" and l: "ledger rs (c, f)" and c: "recv_ok c"
  shows "outcome_all (ledger rs) (handle_data fr (c, f))"
proof -
  let ?k = "stream_id (header fr)"
  have n: "uint (fh_length (header fr)) = int (length (payload fr))" using fr unfolding frame_ok_def by simp
  show ?thesis
  proof (cases "map_of (streams c) ?k")
    case None
    then show ?thesis using l by (simp add: handle_data_def Let_def goaway_def ledger_goaway)
  next
    case (Some st)
    have st: "stream_ok st" using stream_at [OF c Some] by simp
    show ?thesis
    proof (cases "data_payload fr")
      case None
      then show ?thesis using l Some by (simp add: handle_data_def Let_def goaway_def ledger_goaway)
    next
      case d: (Some d)
      have "length d \<le> length (payload fr)" using d by (rule data_payload_length)
      then show ?thesis using c Some d st n l ledger_charge [OF l] ledger_update [OF l Some] recv_ok_receive [OF c Some]
        by (simp add: handle_data_def Let_def goaway_def ledger_goaway ledger_try_emit stream_ok_def)
    qed
  qed
qed

lemma ledger_flush_feed: "windows_ok c \<Longrightarrow> ledger rs (c, f) \<Longrightarrow> ledger rs (flush_feed ord (c, f))"
proof -
  assume "windows_ok c" and l: "ledger rs (c, f)"
  then have "send_ok c" by (simp add: windows_ok_def)
  from fold_flush_law [OF this, of "ord (map fst (send c))" "fd_outbound f"]
  obtain ms c' where s: "fold flush_stream (ord (map fst (send c))) (c, fd_outbound f) = (c', fd_outbound f @ wire ms)"
    "flush_law c ms c'" by blast
  obtain w xs where "c' = c\<lparr>conn_send_window := w, send := xs\<rparr>" using flush_lawD(1) [OF s(2)] by (elim exE)
  then show ?thesis using l s(1) by (simp add: flush_feed_def flush_all_def)
qed

lemma ledger_apply_settings: "ledger rs (c, f) \<Longrightarrow> ledger rs (snd (apply_settings xs (c, f)))"
  by (induction xs arbitrary: c) (auto simp: goaway_def Let_def ledger_goaway)

lemma ledger_settings:
  assumes c: "conn_ok c" and l: "ledger rs (c, f)"
  shows "outcome_all (ledger rs) (handle_settings ord fr (c, f))"
proof -
  have fin: "outcome_all (ledger rs) (case apply_settings ss (c, f) of
      (True, s) \<Rightarrow> Done s | (False, c1, f1) \<Rightarrow> Done (flush_feed ord (c1, emit_bytes encode_settings_ack f1)))" for ss
  proof -
    obtain e c1 f1 where "apply_settings ss (c, f) = (e, c1, f1)" by (cases "apply_settings ss (c, f)") auto
    then show ?thesis using conn_ok_apply_settings [OF c, of ss f] ledger_apply_settings [OF l, of ss]
      by (cases e) (simp_all add: ledger_flush_feed conn_ok_def)
  qed
  show ?thesis using l fin
    by (simp add: handle_settings_def goaway_def ledger_goaway split: option.split)
qed

lemma ledger_window_update:
  assumes "conn_ok c" "ledger rs (c, f)"
  shows "outcome_all (ledger rs) (handle_window_update ord fr (c, f))"
proof -
  have "ledger rs (flush_feed ord (c', f))" if "conn_ok c'" "ledger rs (c', f)" for c'
    using that by (simp add: ledger_flush_feed conn_ok_def)
  then show ?thesis using assms
    by (simp add: handle_window_update_def Let_def goaway_def ledger_goaway conn_ok_grant_conn conn_ok_grant_stream
        split: option.split)
qed

lemma ledger_frame:
  assumes fr: "frame_ok fr" and c: "conn_ok c" and l: "ledger rs (c, f)"
  shows "outcome_all (ledger rs) (handle_frame ord fr (c, f))"
proof -
  have r: "recv_ok c" using c by (simp add: conn_ok_def)
  have "outcome_all (ledger rs) (handle_rst_stream fr (c, f))"
    using ledger_delete [of rs "c\<lparr>rst_stream_count := rst_stream_count c + 1\<rparr>" f] l
    by (simp add: handle_rst_stream_def Let_def ledger_goaway)
  moreover have "outcome_all (ledger rs) (handle_ping fr (c, f))"
    using l by (simp add: handle_ping_def ledger_goaway)
  ultimately show ?thesis
    using ledger_settings [OF c l] ledger_window_update [OF c l] ledger_headers [OF l r] ledger_continuation [OF l r]
      ledger_data [OF fr l r] l
    by (simp add: handle_frame_def split: FrameType.split)
qed

interpretation accounts: frame_invariant ord "\<lambda>s. conn_ok (fst s) \<and> ledger rs s" for ord rs
proof
  show "outcome_all (\<lambda>s. conn_ok (fst s) \<and> ledger rs s) (handle_frame ord fr s)"
    if "frame_ok fr" "conn_ok (fst s) \<and> ledger rs s" for fr s
    using conn_ok_frame [OF that(1), of "fst s" ord "snd s"] ledger_frame [OF that(1), of "fst s" rs "snd s" ord] that(2)
    by (auto intro: outcome_all_conj)
  show "conn_ok (fst (goaway_code k s)) \<and> ledger rs (goaway_code k s)" if "conn_ok (fst s) \<and> ledger rs s" for s k
    using that conn_ok_goaway [of "fst s" k "snd s"] ledger_goaway [of rs "fst s" "snd s" k] by simp
qed (simp_all add: conn_ok_def)

lemma ledger_respond:
  assumes "conn_ok c" "ledger rs (c, f)"
  shows "ledger rs (fst (respond sid status hs body c), f)"
proof (cases "body = []")
  case True
  then show ?thesis using assms(2) by (simp add: respond_cases ledger_delete)
next
  case False
  let ?c = "respond_start sid body c"
  have "windows_ok ?c" using assms(1) False windows_ok_respond_start by (simp add: conn_ok_def)
  then have ok: "send_ok ?c" by (simp add: windows_ok_def)
  have l: "ledger rs (?c, f)" using ledger_delete [OF assms(2)] by (simp add: respond_start_def)
  show ?thesis
  proof (rule flush_stream_law [OF ok, of sid
        "encode_headers sid (encode_header_block (('':status'', show_nat (unat status)) # hs)) False True"])
    fix ms c'
    assume s: "flush_stream sid (?c, encode_headers sid (encode_header_block (('':status'', show_nat (unat status)) # hs)) False True)
        = (c', encode_headers sid (encode_header_block (('':status'', show_nat (unat status)) # hs)) False True @ wire ms)"
      and "flush_law ?c ms c'"
    then obtain w xs where "c' = ?c\<lparr>conn_send_window := w, send := xs\<rparr>" using flush_lawD(1) by blast
    then show ?thesis using False s l by (simp add: respond_cases)
  qed
qed

lemma ledger_new: "ledger [] (Http2Connection_new, Http2Feed_default)"
  by (simp add: ledger_def Http2Connection_new_def Http2Feed_default_def open_ids_def body_total_def SERVER_INITIAL_WINDOW_SIZE_def)

lemma ledger_feed_end: "ledger rs (c, f) \<Longrightarrow> ledger (rs @ fd_requests f) (c, Http2Feed_default)"
    "ledger rs (c, f) \<Longrightarrow> ledger rs (c, Http2Feed_default)"
  by (auto simp: ledger_def Http2Feed_default_def Let_def)

lemma served_ledger: "served ord c rs \<Longrightarrow> conn_ok c \<and> ledger rs (c, Http2Feed_default)"
proof (induction rule: served.induct)
  case (served_feed c rs bs f c')
  then show ?case using accounts.feed [of c rs ord bs "Inr f" c'] by (auto intro: ledger_feed_end)
next
  case (served_err c rs bs e c')
  then show ?case using accounts.feed [of c rs ord bs "Inl e" c'] by (auto intro: ledger_feed_end)
next
  case (served_respond c rs sid status hs body c' out)
  then show ?case using conn_ok_respond [of c sid status hs body] ledger_respond [of c rs Http2Feed_default sid status hs body] by simp
qed (simp add: conn_ok_new ledger_new)

end
