(* ===== verification/Http2_Conn_Feed.thy ===== *)
theory Http2_Conn_Feed
  imports Http2_Conn_Ledger
begin

unbundle bit_operations_syntax

text \<open>
  The read loop of an HTTP/2 connection as a whole: a request that a client encodes is the
  request the application gets, and it makes no difference how the transport cuts the bytes
  into calls of \<open>feed\<close>.
\<close>

section \<open>Reading an encoded frame\<close>

lemma feed_loop_frame:
  assumes "rbuf c = encode_frame t fl sid p @ rest" "wf_message (t, fl, sid, p)" "length p \<le> 16384"
    and "inbound_max_frame_size c = 16384"
  shows "feed_loop ord (c, f) = and_then (handle_frame ord (Frame_of t fl sid p) (c\<lparr>rbuf := rest\<rparr>, f)) (feed_loop ord)"
proof -
  have "length (encode_frame t fl sid p) = 9 + length p" by (simp add: encode_frame_def)
  then have d: "drop (9 + length p) (rbuf c) = rest" using assms(1) by simp
  have "unat (word_of_nat (length p) :: u32) = length p" using assms(3) by (simp add: unat_of_nat)
  then have "\<not> 16384 < fh_length (header (Frame_of t fl sid p))"
    using assms(3) by (simp add: Frame_of_def word_less_nat_alt)
  then show ?thesis
    unfolding feed_loop.simps [of ord c f] assms(1) take_frame_message [OF assms(2)]
    using d [unfolded assms(1)] assms(4)
    by (cases "handle_frame ord (Frame_of t fl sid p) (c\<lparr>rbuf := rest\<rparr>, f)") (simp_all add: Let_def)
qed

lemma feed_loop_empty: "rbuf c = [] \<Longrightarrow> feed_loop ord (c, f) = Done (c, f)"
  by (simp add: feed_loop.simps take_frame_def decode_frame_header_def)

section \<open>Requests\<close>

text \<open>A client's request: HEADERS with the whole header block, then the body in DATA frames.\<close>

definition request_bytes :: "u32 \<Rightarrow> header list \<Rightarrow> bytes list \<Rightarrow> bytes" where
  "request_bytes sid hs ds = encode_headers sid (encode_header_block hs) (ds = []) True @ wire (data_frames sid True ds)"

definition receiving :: "header list \<Rightarrow> bytes \<Rightarrow> int \<Rightarrow> Stream" where
  "receiving hs body w = Stream_default\<lparr>st_recv_window := w, st_headers := hs, st_headers_done := True, st_body := body\<rparr>"

lemma not_padded: "(0 :: u8) AND FLAG_PADDED = 0" "FLAG_END_STREAM AND FLAG_PADDED = 0"
  by (simp_all add: FLAG_PADDED_def FLAG_END_STREAM_def)

lemma handle_data_chunk:
  assumes sid: "sid \<noteq> 0" and st: "map_of (streams c) sid = Some (receiving hs body w)"
    and d: "length d \<le> 16384" "int (length d) \<le> conn_recv_window c" "int (length d) \<le> w"
  shows "handle_frame ord (Frame_of Data (if e then FLAG_END_STREAM else 0) sid d) (c, f) =
    (let n = int (length d); c1 = c\<lparr>conn_recv_window := conn_recv_window c - n\<rparr> in
     if e then Done (c1\<lparr>streams := AList.delete sid (streams c)\<rparr>,
            f\<lparr>fd_requests := fd_requests f @ [\<lparr>rq_stream_id = sid, rq_headers = hs, rq_body = body @ d\<rparr>]\<rparr>)
     else Done (c1\<lparr>streams := AList.update sid (receiving hs (body @ d) (w - n)) (streams c)\<rparr>, f))"
proof -
  have n: "uint (word_of_nat (length d) :: u32) = int (length d)"
    using d(1) by (simp add: uint_nat unat_of_nat)
  have p: "data_payload (Frame_of Data (if e then FLAG_END_STREAM else 0) sid d) = Some d"
    using not_padded by (simp add: data_payload_def strip_padding_def Frame_of_def)
  have e: "flags (header (Frame_of Data (if e then FLAG_END_STREAM else 0) sid d)) AND FLAG_END_STREAM \<noteq> 0 \<longleftrightarrow> e"
    by (simp add: Frame_of_def FLAG_END_STREAM_def)
  have r: "(receiving hs body w)\<lparr>st_recv_window := w - n, st_body := b, st_end_stream := False\<rparr> = receiving hs b (w - n)" for b n
    by (simp add: receiving_def Stream_default_def)
  have s: "st_recv_window (receiving hs body w) = w" "st_body (receiving hs body w) = body" "\<not> st_end_stream (receiving hs body w)"
    "st_headers_done (receiving hs body w)" "\<not> st_emitted (receiving hs body w)" "st_headers (receiving hs body w) = hs"
    by (simp_all add: receiving_def Stream_default_def)
  have f: "frame_type (header (Frame_of t fl sid d)) = t" "stream_id (header (Frame_of t fl sid d)) = sid"
    "fh_length (header (Frame_of t fl sid d)) = word_of_nat (length d)" for t fl
    by (simp_all add: Frame_of_def)
  show ?thesis
    unfolding handle_frame_def f FrameType.case handle_data_def Let_def prod.case st p n e option.case s
    using sid d s r by (simp add: try_emit_def update_conv' delete_update_same)
qed

lemma wf_data: "sid < 2 ^ 31 \<Longrightarrow> length d \<le> 16384 \<Longrightarrow> wf_message (Data, fl, sid, d)"
  by (simp add: wf_message_def)

lemma encode_data_frame: "encode_data sid e d = encode_frame Data (if e then FLAG_END_STREAM else 0) sid d"
  by (simp add: encode_data_def)

lemma feed_loop_body:
  assumes "sid \<noteq> 0" "sid < 2 ^ 31" "ds \<noteq> []" "\<forall>d \<in> set ds. length d \<le> 16384"
    and "map_of (streams c) sid = Some (receiving hs body w)" "inbound_max_frame_size c = 16384"
    and "int (length (concat ds)) \<le> conn_recv_window c" "int (length (concat ds)) \<le> w"
    and "rbuf c = wire (data_frames sid True ds)"
  shows "feed_loop ord (c, f) =
    Done (c\<lparr>rbuf := [], conn_recv_window := conn_recv_window c - int (length (concat ds)), streams := AList.delete sid (streams c)\<rparr>,
          f\<lparr>fd_requests := fd_requests f @ [\<lparr>rq_stream_id = sid, rq_headers = hs, rq_body = body @ concat ds\<rparr>]\<rparr>)"
  using assms(3-)
proof (induction ds arbitrary: c body w)
  case (Cons d ds)
  let ?c = "c\<lparr>rbuf := wire (data_frames sid True ds)\<rparr>"
  have read: "feed_loop ord (c, f) = and_then (handle_frame ord (Frame_of Data (if ds = [] then FLAG_END_STREAM else 0) sid d) (?c, f)) (feed_loop ord)"
    by (rule feed_loop_frame) (use Cons.prems assms(2) wf_data in \<open>simp_all add: encode_data_frame\<close>)
  have chunk: "handle_frame ord (Frame_of Data (if ds = [] then FLAG_END_STREAM else 0) sid d) (?c, f) =
    (let n = int (length d); c1 = ?c\<lparr>conn_recv_window := conn_recv_window ?c - n\<rparr> in
     if ds = [] then Done (c1\<lparr>streams := AList.delete sid (streams ?c)\<rparr>,
            f\<lparr>fd_requests := fd_requests f @ [\<lparr>rq_stream_id = sid, rq_headers = hs, rq_body = body @ d\<rparr>]\<rparr>)
     else Done (c1\<lparr>streams := AList.update sid (receiving hs (body @ d) (w - n)) (streams ?c)\<rparr>, f))"
    by (rule handle_data_chunk) (use Cons.prems assms(1) in simp_all)
  note step = read [unfolded chunk]
  show ?case
  proof (cases "ds = []")
    case True
    then show ?thesis using step by (simp add: feed_loop_empty)
  next
    case False
    let ?c1 = "?c\<lparr>conn_recv_window := conn_recv_window c - int (length d),
      streams := AList.update sid (receiving hs (body @ d) (w - int (length d))) (streams c)\<rparr>"
    have "feed_loop ord (?c1, f) = Done (?c1\<lparr>rbuf := [], conn_recv_window := conn_recv_window ?c1 - int (length (concat ds)),
        streams := AList.delete sid (streams ?c1)\<rparr>,
        f\<lparr>fd_requests := fd_requests f @ [\<lparr>rq_stream_id = sid, rq_headers = hs, rq_body = (body @ d) @ concat ds\<rparr>]\<rparr>)"
      by (rule Cons.IH) (use False Cons.prems in \<open>auto simp: update_conv'\<close>)
    then show ?thesis using step False by (simp add: delete_update_same algebra_simps Let_def)
  qed
qed simp

lemma headers_flags:
  fixes e :: bool
  defines "fl \<equiv> (if e then FLAG_END_STREAM else 0) OR FLAG_END_HEADERS"
  shows "encode_headers sid block e True = encode_frame Headers fl sid block"
    and "fl AND FLAG_END_STREAM \<noteq> 0 \<longleftrightarrow> e" "fl AND FLAG_END_HEADERS \<noteq> 0" "fl AND FLAG_PADDED = 0" "fl AND FLAG_PRIORITY = 0"
  by (simp_all add: encode_headers_def fl_def FLAG_END_STREAM_def FLAG_END_HEADERS_def FLAG_PADDED_def FLAG_PRIORITY_def)

definition client_ready :: "u32 \<Rightarrow> header list \<Rightarrow> Http2Connection \<Rightarrow> bool" where
  "client_ready sid hs c \<longleftrightarrow> sid mod 2 \<noteq> 0 \<and> last_sid c < sid \<and> sid < 2 ^ 31
     \<and> active_header_stream c = None \<and> length (streams c) < 100 \<and> stream_lifetime_count c < 1000
     \<and> (\<forall>e \<in> set hs. wf_text (fst e) \<and> wf_text (snd e)) \<and> list_size hs \<le> 65536
     \<and> length (encode_header_block hs) \<le> 16384"

lemma handle_headers_block:
  assumes "client_ready sid hs c" "recv_ok c"
  shows "handle_frame ord (Frame_of Headers ((if e then FLAG_END_STREAM else 0) OR FLAG_END_HEADERS) sid (encode_header_block hs)) (c, f) =
    (let c1 = c\<lparr>stream_lifetime_count := stream_lifetime_count c + 1, last_sid := sid, active_header_stream := None\<rparr> in
     if e then Done (c1, f\<lparr>fd_requests := fd_requests f @ [\<lparr>rq_stream_id = sid, rq_headers = hs, rq_body = []\<rparr>]\<rparr>)
     else Done (c1\<lparr>streams := AList.update sid (receiving hs [] (2 ^ 20)) (streams c)\<rparr>, f))"
proof -
  let ?fl = "(if e then FLAG_END_STREAM else 0) OR FLAG_END_HEADERS"
  let ?fr = "Frame_of Headers ?fl sid (encode_header_block hs)"
  have k: "map_of (streams c) sid = None"
    using stream_at [OF assms(2), of sid] assms(1) by (cases "map_of (streams c) sid") (auto simp: client_ready_def)
  then have del: "AList.delete sid (streams c) = streams c" by (simp add: map_of_eq_None_iff)
  have fr: "frame_type (header ?fr) = Headers" "stream_id (header ?fr) = sid" "flags (header ?fr) = ?fl" "payload ?fr = encode_header_block hs"
    by (simp_all add: Frame_of_def)
  have "header_block_fragment ?fr = Some (encode_header_block hs)"
    unfolding header_block_fragment_def fr using headers_flags(4,5) [of e] by simp
  moreover have "decode_header_block_limited (encode_header_block hs) (inbound_hpack c)
      \<lparr>max_header_list_size = inbound_header_list_size c, max_dynamic_table_size = inbound_header_table_size c\<rparr> = Some (Inr hs, inbound_hpack c)"
    using block_headers [of hs 0 "\<lparr>max_header_list_size = inbound_header_list_size c, max_dynamic_table_size = inbound_header_table_size c\<rparr>" "[]" "inbound_hpack c" "[]"] assms
    by (simp add: client_ready_def recv_ok_def decode_header_block_limited_def decode_block.simps [of _ "[]"])
  moreover have "handle_headers ?fr (c, f) = handle_new_headers ?fr (c, f)"
    by (rule handle_headers_new) (use assms(1) k fr in \<open>auto simp: client_ready_def\<close>)
  moreover have "(new_stream ?fr b)\<lparr>st_header_block := [], st_headers := hs, st_headers_done := True, st_continuation_count := 0\<rparr>
      = (receiving hs [] (2 ^ 20))\<lparr>st_end_stream := e\<rparr>" for b
    using headers_flags(2) [of e] by (simp add: new_stream_def receiving_def fr Stream_default_def SERVER_INITIAL_WINDOW_SIZE_def)
  moreover have "st_header_block (new_stream ?fr b) = b" for b by (simp add: new_stream_def)
  moreover have "st_headers_done (receiving hs [] w)" "\<not> st_emitted (receiving hs [] w)" "st_headers (receiving hs [] w) = hs"
      "st_body (receiving hs [] w) = []" "(receiving hs [] w)\<lparr>st_end_stream := False\<rparr> = receiving hs [] w" for w
    by (simp_all add: receiving_def Stream_default_def)
  moreover have "\<not> SERVER_MAX_STREAM_LIFETIME < Suc (stream_lifetime_count c)"
      "\<not> SERVER_MAX_HEADER_BLOCK_BYTES < length (encode_header_block hs)"
    using assms(1) by (simp_all add: client_ready_def SERVER_MAX_STREAM_LIFETIME_def SERVER_MAX_HEADER_BLOCK_BYTES_def)
  ultimately show ?thesis using headers_flags(3) [of e] del
    unfolding handle_frame_def fr FrameType.case
    by (simp add: handle_new_headers_def fr finish_headers_def try_emit_def update_conv' delete_update_same)
qed

definition request_done :: "u32 \<Rightarrow> bytes list \<Rightarrow> Http2Connection \<Rightarrow> Http2Connection" where
  "request_done sid ds c = c\<lparr>rbuf := [], stream_lifetime_count := stream_lifetime_count c + 1, last_sid := sid,
     conn_recv_window := conn_recv_window c - int (length (concat ds))\<rparr>"

lemma frames_request:
  assumes c: "recv_ok c" "client_ready sid hs c" "rbuf c = request_bytes sid hs ds"
    and ds: "\<forall>d \<in> set ds. length d \<le> 16384" "int (length (concat ds)) \<le> conn_recv_window c"
  shows "feed_frames ord (c, f) = Done (request_done sid ds c,
    f\<lparr>fd_requests := fd_requests f @ [\<lparr>rq_stream_id = sid, rq_headers = hs, rq_body = concat ds\<rparr>]\<rparr>)"
proof -
  let ?fl = "(if ds = [] then FLAG_END_STREAM else 0) OR FLAG_END_HEADERS"
  let ?c = "c\<lparr>rbuf := wire (data_frames sid True ds)\<rparr>"
  have ready: "client_ready sid hs ?c" "recv_ok ?c" using c(1,2) by (simp_all add: client_ready_def)
  have a: "active_header_stream c = None" "sid \<noteq> 0" "sid < 2 ^ 31" "last_sid c < sid"
    using c(2) by (auto simp: client_ready_def)
  then have "c\<lparr>active_header_stream := None\<rparr> = c" by (metis Http2Connection.surjective Http2Connection.update_convs(7))
  then have act: "?c\<lparr>stream_lifetime_count := n, last_sid := sid, active_header_stream := None\<rparr> = ?c\<lparr>stream_lifetime_count := n, last_sid := sid\<rparr>" for n
    using a(1) by simp
  have "map_of (streams c) sid = None"
    using stream_at [OF c(1), of sid] a(4) by (cases "map_of (streams c) sid") auto
  then have del: "AList.delete sid (streams c) = streams c" by (simp add: map_of_eq_None_iff)
  have "feed_loop ord (c, f) = and_then (handle_frame ord (Frame_of Headers ?fl sid (encode_header_block hs)) (?c, f)) (feed_loop ord)"
    by (rule feed_loop_frame) (use c a headers_flags(1) [where e = "ds = []"] in \<open>auto simp: request_bytes_def wf_message_def client_ready_def recv_ok_def\<close>)
  note read = this [unfolded handle_headers_block [OF ready] Let_def act]
  have "feed_loop ord (c, f) = Done (request_done sid ds c,
    f\<lparr>fd_requests := fd_requests f @ [\<lparr>rq_stream_id = sid, rq_headers = hs, rq_body = concat ds\<rparr>]\<rparr>)"
  proof (cases "ds = []")
    case True
    then show ?thesis using read by (simp add: feed_loop_empty request_done_def)
  next
    case False
    let ?c1 = "?c\<lparr>stream_lifetime_count := stream_lifetime_count c + 1, last_sid := sid,
      streams := AList.update sid (receiving hs [] (2 ^ 20)) (streams c)\<rparr>"
    have "feed_loop ord (?c1, f) = Done (?c1\<lparr>rbuf := [], conn_recv_window := conn_recv_window ?c1 - int (length (concat ds)),
        streams := AList.delete sid (streams ?c1)\<rparr>,
        f\<lparr>fd_requests := fd_requests f @ [\<lparr>rq_stream_id = sid, rq_headers = hs, rq_body = [] @ concat ds\<rparr>]\<rparr>)"
      by (rule feed_loop_body [where w = "2 ^ 20"]) (use False ds a c(1) in \<open>auto simp: update_conv' recv_ok_def\<close>)
    then show ?thesis using read False del by (simp add: delete_update_same request_done_def)
  qed
  then show ?thesis
    by (simp add: feed_frames_def feed_partial_def request_done_def decode_frame_header_def)
qed

lemma feed_request:
  assumes "conn_ok c" "preface_seen c" "rbuf c = []" "client_ready sid hs c"
    and "\<forall>d \<in> set ds. length d \<le> 16384" "int (length (concat ds)) \<le> conn_recv_window c"
  shows "feed ord (request_bytes sid hs ds) c =
    Some (Inr \<lparr>fd_outbound = [], fd_requests = [\<lparr>rq_stream_id = sid, rq_headers = hs, rq_body = concat ds\<rparr>]\<rparr>,
          c\<lparr>stream_lifetime_count := stream_lifetime_count c + 1, last_sid := sid,
            conn_recv_window := conn_recv_window c - int (length (concat ds))\<rparr>)"
proof -
  have "feed_frames ord (c\<lparr>rbuf := request_bytes sid hs ds\<rparr>, Http2Feed_default) =
    Done (request_done sid ds (c\<lparr>rbuf := request_bytes sid hs ds\<rparr>), Http2Feed_default\<lparr>fd_requests := fd_requests Http2Feed_default
      @ [\<lparr>rq_stream_id = sid, rq_headers = hs, rq_body = concat ds\<rparr>]\<rparr>)"
    by (rule frames_request) (use assms in \<open>simp_all add: conn_ok_def client_ready_def\<close>)
  moreover have "c\<lparr>rbuf := []\<rparr> = c" using assms(3) by (metis Http2Connection.surjective Http2Connection.update_convs(1))
  ultimately show ?thesis using assms(2,3)
    by (simp add: feed_def Let_def request_done_def Http2Feed_default_def)
qed

text \<open>
  Property C6: a request arrives as it was sent. On a connection that is between header blocks
  and below its limits, the HEADERS frame a client encodes for a header list on a new odd
  stream, followed by the body in DATA frames with END_STREAM on the last, makes one call of
  \<open>feed\<close> return exactly that request, with those headers in order and the concatenated body;
  nothing is sent back, and the connection has only counted the stream and charged the body to
  its receive window.
\<close>

theorem request_delivered:
  assumes "conn_ok c" "preface_seen c" "rbuf c = []" "client_ready sid hs c"
    and "\<forall>d \<in> set ds. length d \<le> 16384" "int (length (concat ds)) \<le> conn_recv_window c"
  shows "feed ord (request_bytes sid hs ds) c =
    Some (Inr \<lparr>fd_outbound = [], fd_requests = [\<lparr>rq_stream_id = sid, rq_headers = hs, rq_body = concat ds\<rparr>]\<rparr>,
          c\<lparr>stream_lifetime_count := stream_lifetime_count c + 1, last_sid := sid,
            conn_recv_window := conn_recv_window c - int (length (concat ds))\<rparr>)"
  using assms by (rule feed_request)

lemma client_ready_example:
  "client_ready 1 [('':method'', ''GET''), ('':path'', ''/'')] (Http2Connection_new\<lparr>preface_seen := True\<rparr>)"
proof -
  have "encode_header_block [('':method'', ''GET''), ('':path'', ''/'')] = [0x82, 0x84]" by code_simp
  then show ?thesis
    by (simp add: client_ready_def Http2Connection_new_def wf_text_def entry_size_def)
qed

theorem request_delivered_witness:
  "let c = Http2Connection_new\<lparr>preface_seen := True\<rparr>; hs = [('':method'', ''GET''), ('':path'', ''/'')] in
     feed rev (request_bytes 1 hs [[7, 8], [9]]) c =
       Some (Inr \<lparr>fd_outbound = [], fd_requests = [\<lparr>rq_stream_id = 1, rq_headers = hs, rq_body = [7, 8, 9]\<rparr>]\<rparr>,
             c\<lparr>stream_lifetime_count := 1, last_sid := 1, conn_recv_window := 1048573\<rparr>)"
proof -
  let ?c = "Http2Connection_new\<lparr>preface_seen := True\<rparr>"
  have "conn_ok ?c" using conn_ok_new by (simp add: conn_ok_def)
  moreover have "preface_seen ?c" "rbuf ?c = []" "conn_recv_window ?c = 1048576" "stream_lifetime_count ?c = 0"
    by (simp_all add: Http2Connection_new_def SERVER_INITIAL_WINDOW_SIZE_def)
  ultimately show ?thesis
    using request_delivered [of ?c 1 "[('':method'', ''GET''), ('':path'', ''/'')]" "[[7, 8], [9]]" rev] client_ready_example
    by simp
qed

section \<open>Segmentation\<close>

text \<open>The flags of the connection are never taken back: seen the preface, and sent GOAWAY.\<close>

definition flags_up :: "bool \<Rightarrow> Http2Connection \<Rightarrow> bool" where
  "flags_up g c \<longleftrightarrow> preface_seen c \<and> (g \<longrightarrow> goaway_sent c)"

lemma flags_up_fields [simp]:
  "flags_up g (c\<lparr>rbuf := x\<rparr>) = flags_up g c" "flags_up g (c\<lparr>streams := ts\<rparr>) = flags_up g c"
  "flags_up g (c\<lparr>last_sid := k\<rparr>) = flags_up g c" "flags_up g (c\<lparr>active_header_stream := a\<rparr>) = flags_up g c"
  "flags_up g (c\<lparr>rst_stream_count := n\<rparr>) = flags_up g c" "flags_up g (c\<lparr>stream_lifetime_count := n\<rparr>) = flags_up g c"
  "flags_up g (c\<lparr>inbound_hpack := t\<rparr>) = flags_up g c" "flags_up g (c\<lparr>conn_recv_window := w\<rparr>) = flags_up g c"
  "flags_up g (c\<lparr>conn_send_window := w\<rparr>) = flags_up g c" "flags_up g (c\<lparr>peer_initial_window := w\<rparr>) = flags_up g c"
  "flags_up g (c\<lparr>peer_max_frame_size := m\<rparr>) = flags_up g c" "flags_up g (c\<lparr>send := ss\<rparr>) = flags_up g c"
  "flags_up g (c\<lparr>settings_sent := b\<rparr>) = flags_up g c" "flags_up g (c\<lparr>goaway_sent := True\<rparr>) = preface_seen c"
  by (simp_all add: flags_up_def)

lemma flags_up_flush_stream: "flags_up g (fst (flush_stream sid (c, out))) = flags_up g c"
proof (induction sid "(c, out)" arbitrary: c out rule: flush_stream.induct)
  case (1 sid c out)
  then show ?case by (simp add: flush_stream.simps [of sid c] flush_sent_def split: option.split)
qed

lemma flags_up_flush_feed: "flags_up g (fst (flush_feed ord (c, f))) = flags_up g c"
proof -
  have "flags_up g (fst (fold flush_stream ks s)) = flags_up g (fst s)" for ks s
  proof (induction ks arbitrary: s)
    case (Cons k ks)
    then show ?case using flags_up_flush_stream [of g k "fst s" "snd s"] by simp
  qed simp
  then show ?thesis by (simp add: flush_feed_def flush_all_def split_beta)
qed

lemma flags_up_goaway: "flags_up g c \<Longrightarrow> flags_up g (fst (goaway_code k (c, f)))"
  by (auto simp: goaway_code_def flags_up_def)

lemma flags_up_emit: "flags_up g (fst (try_emit k (c, f))) = flags_up g c"
  by (simp add: try_emit_def split: option.split)

lemma flags_up_after_headers: "flags_up g c \<Longrightarrow> outcome_all (\<lambda>s. flags_up g (fst s))
    (and_then (finish_headers k (c, f)) (\<lambda>(c, f). Done (try_emit k (c\<lparr>active_header_stream := a\<rparr>, f))))"
  by (rule outcome_all_and_then [of "\<lambda>s. flags_up g (fst s)"])
    (auto simp: flags_up_emit finish_headers_def Let_def split: option.split sum.split prod.split)

lemma flags_up_settings: "flags_up g c \<Longrightarrow> flags_up g (fst (snd (apply_settings xs (c, f))))"
  by (induction xs arbitrary: c) (auto simp: flags_up_goaway goaway_def Let_def)

lemmas flags_up_simps = flags_up_goaway goaway_def flags_up_emit flags_up_after_headers flags_up_flush_feed Let_def

lemma flags_up_handlers:
  assumes "flags_up g c"
  shows "outcome_all (\<lambda>s. flags_up g (fst s)) (handle_headers fr (c, f))"
    and "outcome_all (\<lambda>s. flags_up g (fst s)) (handle_continuation fr (c, f))"
    and "outcome_all (\<lambda>s. flags_up g (fst s)) (handle_data fr (c, f))"
    and "outcome_all (\<lambda>s. flags_up g (fst s)) (handle_rst_stream fr (c, f))"
    and "outcome_all (\<lambda>s. flags_up g (fst s)) (handle_ping fr (c, f))"
    and "outcome_all (\<lambda>s. flags_up g (fst s)) (handle_window_update ord fr (c, f))"
  subgoal using assms by (simp add: handle_headers_def flags_up_simps split: option.split)
  subgoal using assms by (simp add: handle_continuation_def flags_up_simps split: option.split)
  subgoal using assms by (simp add: handle_data_def flags_up_simps split: option.split)
  subgoal using assms by (simp add: handle_rst_stream_def flags_up_simps)
  subgoal using assms by (simp add: handle_ping_def flags_up_simps)
  subgoal using assms by (simp add: handle_window_update_def flags_up_simps split: option.split)
  done

lemma flags_up_frame:
  assumes "flags_up g c"
  shows "outcome_all (\<lambda>s. flags_up g (fst s)) (handle_frame ord fr (c, f))"
proof -
  have "outcome_all (\<lambda>s. flags_up g (fst s)) (case apply_settings ss (c, f) of
      (True, s) \<Rightarrow> Done s | (False, c1, f1) \<Rightarrow> Done (flush_feed ord (c1, emit_bytes encode_settings_ack f1)))" for ss
    using flags_up_settings [OF assms, of ss f]
    by (cases "apply_settings ss (c, f)") (auto simp: flags_up_flush_feed split: bool.split)
  then have "outcome_all (\<lambda>s. flags_up g (fst s)) (handle_settings ord fr (c, f))"
    using assms by (simp add: handle_settings_def flags_up_goaway goaway_def split: option.split)
  then show ?thesis using assms flags_up_handlers [OF assms] by (simp add: handle_frame_def split: FrameType.split)
qed

interpretation flags_kept: frame_invariant ord "\<lambda>s. flags_up g (fst s)" for ord g
proof
  show "outcome_all (\<lambda>s. flags_up g (fst s)) (handle_frame ord fr s)" if "flags_up g (fst s)" for fr s
    using flags_up_frame [OF that, of ord fr "snd s"] by simp
  show "flags_up g (fst (goaway_code k s))" if "flags_up g (fst s)" for s k
    using flags_up_goaway [OF that, of k "snd s"] by simp
qed (auto simp: flags_up_def)

lemma decode_header_append: "decode_frame_header buf = Some h \<Longrightarrow> decode_frame_header (buf @ b) = Some h"
proof (cases "length buf < 9")
  case False
  then have "i < 9 \<Longrightarrow> (buf @ b) ! i = buf ! i" for i by (simp add: nth_append)
  then show "decode_frame_header buf = Some h \<Longrightarrow> ?thesis" using False by (simp add: decode_frame_header_def)
qed (simp add: decode_frame_header_def)

lemma take_frame_append: "take_frame buf = Some r \<Longrightarrow> take_frame (buf @ b) = Some r"
  by (auto simp: take_frame_def Let_def decode_header_append split: option.splits if_splits)

lemma take_frame_header: "take_frame buf = Some (fr, n) \<Longrightarrow> decode_frame_header buf = Some (header fr)"
  by (auto simp: take_frame_def Let_def split: option.splits if_splits)

text \<open>The loop over more bytes is the loop over the first ones, then over what it left and the others.\<close>

lemma feed_loop_split:
  assumes "feed_loop ord (c\<lparr>rbuf := rbuf c @ b\<rparr>, f) = Done (c', f')" "preface_seen c" "\<not> goaway_sent c'"
  shows "\<exists>c1 f1. feed_loop ord (c, f) = Done (c1, f1) \<and> preface_seen c1 \<and> take_frame (rbuf c1) = None
    \<and> feed_loop ord (c1\<lparr>rbuf := rbuf c1 @ b\<rparr>, f1) = Done (c', f')"
  using assms(1,2)
proof (induction "length (rbuf c)" arbitrary: c f rule: less_induct)
  case less
  show ?case
  proof (cases "take_frame (rbuf c)")
    case None
    then show ?thesis using less.prems by (simp add: feed_loop.simps [of ord c])
  next
    case (Some p)
    obtain fr n where p: "p = (fr, n)" by (cases p)
    let ?r = "drop n (rbuf c)"
    have n: "0 < n" "n \<le> length (rbuf c)" using take_frame_used [of "rbuf c" fr n] Some p by simp_all
    note step = less.prems(1) [unfolded feed_loop.simps [of ord "c\<lparr>rbuf := rbuf c @ b\<rparr>" f]]
    have t: "take_frame (rbuf c @ b) = Some (fr, n)" using Some p take_frame_append by blast
    have small: "\<not> inbound_max_frame_size c < fh_length (header fr)"
    proof
      assume "inbound_max_frame_size c < fh_length (header fr)"
      then have "goaway_code ERR_FRAME_SIZE_ERROR (c\<lparr>rbuf := ?r @ b\<rparr>, f) = (c', f')" using step t n by (simp add: Let_def)
      then show False using assms(3) by (auto simp: goaway_code_def split: if_splits)
    qed
    have h: "handle_frame ord fr (c\<lparr>rbuf := ?r @ b\<rparr>, f) = map_outcome (shift (?r @ b) Http2Feed_default) (handle_frame ord fr (c\<lparr>rbuf := ?r\<rparr>, f))"
      using shift_handle_frame [where ord = ord and fr = fr and c = "c\<lparr>rbuf := ?r\<rparr>" and x = "?r @ b" and g = Http2Feed_default and f = f] by simp
    have "\<exists>s. handle_frame ord fr (c\<lparr>rbuf := ?r\<rparr>, f) = Done s"
      using step t small n h by (cases "handle_frame ord fr (c\<lparr>rbuf := ?r\<rparr>, f)") (simp_all add: Let_def)
    then obtain c2 f2 where d: "handle_frame ord fr (c\<lparr>rbuf := ?r\<rparr>, f) = Done (c2, f2)" by force
    have r: "rbuf c2 = ?r" using handle_frame_rbuf [OF d] by simp
    have "preface_seen c2" using flags_up_frame [of False "c\<lparr>rbuf := ?r\<rparr>" ord fr f] d less.prems(2) by (simp add: flags_up_def)
    moreover have "feed_loop ord (c2\<lparr>rbuf := rbuf c2 @ b\<rparr>, f2) = Done (c', f')"
      using step t small n h d r by (simp add: Let_def)
    moreover have "length (rbuf c2) < length (rbuf c)" using r n by simp
    moreover have "feed_loop ord (c, f) = feed_loop ord (c2, f2)"
      using Some p small d by (simp add: feed_loop.simps [of ord c] Let_def)
    ultimately show ?thesis using less.hyps [of c2 f2] by simp
  qed
qed

lemma handle_frame_onto:
  "handle_frame ord fr (c, onto g f) = map_outcome (\<lambda>(c, f). (c, onto g f)) (handle_frame ord fr (c, f))"
proof -
  have h: "handle_frame ord fr (c, onto k f) = map_outcome (shift (rbuf c) k) (handle_frame ord fr (c, f))" for k
    using shift_handle_frame [where ord = ord and fr = fr and c = c and x = "rbuf c" and g = k and f = f] by simp
  show ?thesis
  proof (cases "handle_frame ord fr (c, f)")
    case (Done s)
    obtain c2 f2 where s: "s = (c2, f2)" by (cases s)
    then have "rbuf c = rbuf c2" using Done handle_frame_rbuf by metis
    then show ?thesis using Done h [of g] s by simp
  next
    case (Fail e s)
    obtain c2 f2 where s: "s = (c2, f2)" by (cases s)
    then have "c2\<lparr>rbuf := rbuf c\<rparr> = c2" using Fail h [of Http2Feed_default] by simp
    from arg_cong [OF this, of rbuf] have "rbuf c = rbuf c2" by simp
    then show ?thesis using Fail h [of g] s by simp
  qed (simp add: h)
qed

lemma feed_loop_onto: "feed_loop ord (c, onto g f) = map_outcome (\<lambda>(c, f). (c, onto g f)) (feed_loop ord (c, f))"
proof (induction "length (rbuf c)" arbitrary: c f rule: less_induct)
  case less
  show ?case
  proof (cases "take_frame (rbuf c)")
    case None
    then show ?thesis by (simp add: feed_loop.simps [of ord c])
  next
    case (Some p)
    obtain fr n where p: "p = (fr, n)" by (cases p)
    let ?c = "c\<lparr>rbuf := drop n (rbuf c)\<rparr>"
    have n: "0 < n" "n \<le> length (rbuf c)" using take_frame_used [of "rbuf c" fr n] Some p by simp_all
    have a: "goaway_code k (?c, onto g f) = (\<lambda>(c, f). (c, onto g f)) (goaway_code k (?c, f))" for k
      by (simp add: goaway_code_def shifts)
    have "feed_loop ord (c2, onto g f2) = map_outcome (\<lambda>(c, f). (c, onto g f)) (feed_loop ord (c2, f2))"
      if "handle_frame ord fr (?c, f) = Done (c2, f2)" for c2 f2
      using less.hyps [of c2 f2] handle_frame_rbuf [OF that] n by simp
    then show ?thesis using Some p a handle_frame_onto [of ord fr ?c g f]
      by (cases "handle_frame ord fr (?c, f)") (auto simp: feed_loop.simps [of ord c] Let_def)
  qed
qed

lemma feed_partial_onto: "feed_partial (c, onto g f) = (\<lambda>(c, f). (c, onto g f)) (feed_partial (c, f))"
  by (auto simp: feed_partial_def goaway_code_def shifts Let_def split: option.split)

lemma feed_frames_split:
  assumes "feed_frames ord (c\<lparr>rbuf := rbuf c @ b\<rparr>, f) = Done (c', f')" "preface_seen c" "\<not> goaway_sent c'"
  shows "\<exists>c1 f1 f2. feed_frames ord (c, f) = Done (c1, f1) \<and> preface_seen c1
    \<and> feed_frames ord (c1\<lparr>rbuf := rbuf c1 @ b\<rparr>, Http2Feed_default) = Done (c', f2) \<and> f' = onto f1 f2"
proof -
  have partial: "feed_partial (c0, f0) = (c0, f0) \<and> \<not> goaway_sent c0
      \<and> (\<forall>h. decode_frame_header (rbuf c0) = Some h \<longrightarrow> \<not> inbound_max_frame_size c0 < fh_length h)"
    if "feed_partial (c0, f0) = (c', g)" for c0 f0 g
    using that assms(3) by (auto simp: feed_partial_def goaway_code_def Let_def split: option.splits if_splits)
  obtain c0 f0 where w: "feed_loop ord (c\<lparr>rbuf := rbuf c @ b\<rparr>, f) = Done (c0, f0)" "feed_partial (c0, f0) = (c', f')"
    using assms(1) by (cases "feed_loop ord (c\<lparr>rbuf := rbuf c @ b\<rparr>, f)") (auto simp: feed_frames_def)
  then have [simp]: "c0 = c'" "f0 = f'" using partial by auto
  obtain c1 f1 where c1: "feed_loop ord (c, f) = Done (c1, f1)" "preface_seen c1" "take_frame (rbuf c1) = None"
      "feed_loop ord (c1\<lparr>rbuf := rbuf c1 @ b\<rparr>, f1) = Done (c', f')"
    using feed_loop_split [OF w(1) assms(2)] assms(3) by auto
  have small: "\<not> inbound_max_frame_size c1 < fh_length h" if h: "decode_frame_header (rbuf c1) = Some h" for h
  proof
    assume large: "inbound_max_frame_size c1 < fh_length h"
    have h': "decode_frame_header (rbuf c1 @ b) = Some h" using h by (rule decode_header_append)
    note step = c1(4) [unfolded feed_loop.simps [of ord "c1\<lparr>rbuf := rbuf c1 @ b\<rparr>" f1]]
    show False
    proof (cases "take_frame (rbuf c1 @ b)")
      case None
      then have "c' = c1\<lparr>rbuf := rbuf c1 @ b\<rparr>" using step by simp
      then show False using partial [OF w(2)] h' large by simp
    next
      case (Some p)
      then have "header (fst p) = h" using h' take_frame_header [of "rbuf c1 @ b" "fst p" "snd p"] by simp
      then have "goaway_code ERR_FRAME_SIZE_ERROR (c1\<lparr>rbuf := drop (snd p) (rbuf c1 @ b)\<rparr>, f1) = (c', f')"
        using step Some large by (simp add: Let_def split: prod.splits)
      then show False using assms(3) by (auto simp: goaway_code_def split: if_splits)
    qed
  qed
  have "feed_partial (c1, f1) = (c1, f1)" using small by (simp add: feed_partial_def split: option.split)
  then have "feed_frames ord (c, f) = Done (c1, f1)" using c1(1) by (simp add: feed_frames_def)
  moreover obtain f2 where f2: "feed_loop ord (c1\<lparr>rbuf := rbuf c1 @ b\<rparr>, Http2Feed_default) = Done (c', f2)" "f' = onto f1 f2"
  proof -
    have "onto f1 Http2Feed_default = f1" by (simp add: onto_def Http2Feed_default_def)
    then show ?thesis using that c1(4) feed_loop_onto [of ord "c1\<lparr>rbuf := rbuf c1 @ b\<rparr>" f1 Http2Feed_default]
      by (cases "feed_loop ord (c1\<lparr>rbuf := rbuf c1 @ b\<rparr>, Http2Feed_default)") auto
  qed
  moreover have "feed_partial (c', f2) = (c', f2)"
    using partial [OF w(2)] by (simp add: feed_partial_def split: option.split)
  ultimately show ?thesis using c1(2) by (auto simp: feed_frames_def)
qed

text \<open>
  Property C7: the transport may cut the byte stream anywhere. When a call of \<open>feed\<close> on some bytes
  succeeds without a GOAWAY, then feeding the first part and the rest in two calls succeeds too,
  ends in the same connection state, and returns in both calls together the same requests and the
  same outbound bytes in the same order.
\<close>

theorem feed_segmentation:
  assumes "feed ord (a @ b) c = Some (Inr f, c')" "\<not> goaway_sent c'"
  shows "\<exists>c1 f1 f2. feed ord a c = Some (Inr f1, c1) \<and> feed ord b c1 = Some (Inr f2, c')
    \<and> fd_outbound f = fd_outbound f1 @ fd_outbound f2 \<and> fd_requests f = fd_requests f1 @ fd_requests f2"
proof -
  have two: "\<exists>c1 f1 f2. feed_result (feed_frames ord (z\<lparr>rbuf := x\<rparr>, g)) = Some (Inr f1, c1) \<and> feed ord b c1 = Some (Inr f2, c')
      \<and> fd_outbound f = fd_outbound f1 @ fd_outbound f2 \<and> fd_requests f = fd_requests f1 @ fd_requests f2"
    if whole: "feed_result (feed_frames ord (z\<lparr>rbuf := x @ b\<rparr>, g)) = Some (Inr f, c')" and seen: "preface_seen z" for z x g
  proof -
    have "feed_frames ord (z\<lparr>rbuf := x, rbuf := rbuf (z\<lparr>rbuf := x\<rparr>) @ b\<rparr>, g) = Done (c', f)"
      using whole by (cases "feed_frames ord (z\<lparr>rbuf := x @ b\<rparr>, g)" rule: feed_result.cases) auto
    from feed_frames_split [OF this _ assms(2)] seen obtain c1 f1 f2 where
      "feed_frames ord (z\<lparr>rbuf := x\<rparr>, g) = Done (c1, f1)" "preface_seen c1"
      "feed_frames ord (c1\<lparr>rbuf := rbuf c1 @ b\<rparr>, Http2Feed_default) = Done (c', f2)" "f = onto f1 f2" by auto
    then show ?thesis by (auto simp: feed_def onto_def)
  qed
  show ?thesis
  proof (cases "preface_seen c")
    case True
    then show ?thesis using two [where z = c and x = "rbuf c @ a" and g = Http2Feed_default] assms(1) by (simp add: feed_def)
  next
    case new: False
    show ?thesis
    proof (cases "length (rbuf c @ a) < length CONNECTION_PREFACE")
      case True
      then have "feed ord a c = Some (Inr Http2Feed_default, c\<lparr>rbuf := rbuf c @ a\<rparr>)" using new by (simp add: feed_def)
      moreover have "feed ord b (c\<lparr>rbuf := rbuf c @ a\<rparr>) = feed ord (a @ b) c" by (simp add: feed_def)
      ultimately show ?thesis using assms(1) by (auto simp: Http2Feed_default_def)
    next
      case False
      let ?n = "length CONNECTION_PREFACE"
      let ?s = "c\<lparr>preface_seen := True, settings_sent := True\<rparr>"
      let ?g = "emit_bytes server_settings Http2Feed_default"
      have part: "feed ord (a @ y) c = feed_result (if take ?n (rbuf c @ a) \<noteq> CONNECTION_PREFACE
            then Fail ''http2: invalid connection preface'' (c\<lparr>rbuf := rbuf c @ a @ y\<rparr>, Http2Feed_default)
            else feed_frames ord (c\<lparr>rbuf := drop ?n (rbuf c @ a) @ y, preface_seen := True, settings_sent := True\<rparr>, ?g))" for y
      proof -
        have "take ?n (rbuf c @ a @ y) = take ?n (rbuf c @ a)" "drop ?n (rbuf c @ a @ y) = drop ?n (rbuf c @ a) @ y"
          using False by (simp_all flip: append_assoc)
        then show ?thesis using new False unfolding feed_def Let_def by (simp del: take_append drop_append)
      qed
      have rec: "c\<lparr>rbuf := x, preface_seen := True, settings_sent := True\<rparr> = ?s\<lparr>rbuf := x\<rparr>" for x by simp
      note part = part [unfolded rec]
      have ok: "take ?n (rbuf c @ a) = CONNECTION_PREFACE" using assms(1) part [of b] by (auto split: if_splits)
      have "feed_result (feed_frames ord (?s\<lparr>rbuf := drop ?n (rbuf c @ a) @ b\<rparr>, ?g)) = Some (Inr f, c')"
        using assms(1) part [of b] ok by simp
      from two [OF this] show ?thesis using part [of "[]"] ok by simp
    qed
  qed
qed

theorem feed_segmentation_witness:
  "\<exists>c1 f1 f2. feed rev (take 5 (request_bytes 1 [('':method'', ''GET''), ('':path'', ''/'')] [[7]])) (Http2Connection_new\<lparr>preface_seen := True\<rparr>)
      = Some (Inr f1, c1)
    \<and> feed rev (drop 5 (request_bytes 1 [('':method'', ''GET''), ('':path'', ''/'')] [[7]])) c1
      = Some (Inr f2, Http2Connection_new\<lparr>preface_seen := True, stream_lifetime_count := 1, last_sid := 1, conn_recv_window := 1048575\<rparr>)
    \<and> fd_requests f1 @ fd_requests f2
      = [\<lparr>rq_stream_id = 1, rq_headers = [('':method'', ''GET''), ('':path'', ''/'')], rq_body = [7]\<rparr>]"
proof -
  let ?c = "Http2Connection_new\<lparr>preface_seen := True\<rparr>" and ?r = "request_bytes 1 [('':method'', ''GET''), ('':path'', ''/'')] [[7]]"
  let ?c' = "Http2Connection_new\<lparr>preface_seen := True, stream_lifetime_count := 1, last_sid := 1, conn_recv_window := 1048575\<rparr>"
  have "conn_ok ?c" using conn_ok_new by (simp add: conn_ok_def)
  moreover have "preface_seen ?c" "rbuf ?c = []" "conn_recv_window ?c = 1048576" "stream_lifetime_count ?c = 0"
    by (simp_all add: Http2Connection_new_def SERVER_INITIAL_WINDOW_SIZE_def)
  ultimately have "feed rev (take 5 ?r @ drop 5 ?r) ?c = Some (Inr \<lparr>fd_outbound = [], fd_requests =
      [\<lparr>rq_stream_id = 1, rq_headers = [('':method'', ''GET''), ('':path'', ''/'')], rq_body = [7]\<rparr>]\<rparr>, ?c')"
    using feed_request [of ?c 1 "[('':method'', ''GET''), ('':path'', ''/'')]" "[[7]]" rev] client_ready_example by simp
  moreover have "\<not> goaway_sent ?c'" by (simp add: Http2Connection_new_def)
  ultimately show ?thesis using feed_segmentation [of rev "take 5 ?r" "drop 5 ?r" ?c _ ?c'] by fastforce
qed

end
