(* ===== verification/Http2_Conn_Props.thy ===== *)
theory Http2_Conn_Props
  imports Http2_Conn_Feed
begin

unbundle bit_operations_syntax

text \<open>
  What holds of an HTTP/2 connection whatever the peer sends: bounds on the memory it takes and
  on its windows, the requests it hands out, the panic it inherits from the header decoder, and
  that a peer can read the response the server writes.
\<close>

section \<open>A run\<close>

lemma feed_first_request:
  assumes "client_ready sid hs (Http2Connection_new\<lparr>preface_seen := True\<rparr>)"
    and "\<forall>d \<in> set ds. length d \<le> 16384" "length (concat ds) \<le> 2 ^ 20"
  shows "\<exists>c'. feed ord (CONNECTION_PREFACE @ request_bytes sid hs ds) Http2Connection_new =
    Some (Inr \<lparr>fd_outbound = server_settings, fd_requests = [\<lparr>rq_stream_id = sid, rq_headers = hs, rq_body = concat ds\<rparr>]\<rparr>, c')"
proof -
  let ?c = "Http2Connection_new\<lparr>rbuf := request_bytes sid hs ds, preface_seen := True, settings_sent := True\<rparr>"
  let ?f = "emit_bytes server_settings Http2Feed_default"
  have w: "conn_recv_window Http2Connection_new = 2 ^ 20" "rbuf Http2Connection_new = []" "\<not> preface_seen Http2Connection_new"
    by (simp_all add: Http2Connection_new_def SERVER_INITIAL_WINDOW_SIZE_def)
  have "feed_frames ord (?c, ?f) = Done (request_done sid ds ?c,
      ?f\<lparr>fd_requests := fd_requests ?f @ [\<lparr>rq_stream_id = sid, rq_headers = hs, rq_body = concat ds\<rparr>]\<rparr>)"
    by (rule frames_request) (use assms conn_ok_new w in \<open>simp_all add: conn_ok_def client_ready_def\<close>)
  then show ?thesis using w by (simp add: feed_def emit_bytes_def Http2Feed_default_def)
qed

abbreviation example_headers :: "header list" where
  "example_headers \<equiv> [('':method'', ''GET''), ('':path'', ''/'')]"

lemma served_example:
  "\<exists>c. served rev c [\<lparr>rq_stream_id = 1, rq_headers = example_headers, rq_body = [7, 8]\<rparr>]"
proof -
  obtain c' where "feed rev (CONNECTION_PREFACE @ request_bytes 1 example_headers [[7, 8]]) Http2Connection_new =
    Some (Inr \<lparr>fd_outbound = server_settings, fd_requests = [\<lparr>rq_stream_id = 1, rq_headers = example_headers, rq_body = [7, 8]\<rparr>]\<rparr>, c')"
    using feed_first_request [OF client_ready_example, of "[[7, 8]]" rev] by auto
  from served_feed [OF served_new this] show ?thesis by auto
qed

section \<open>Bounds\<close>

lemma feed_loop_end:
  "feed_loop ord s = Done s' \<Longrightarrow> goaway_sent (fst s') \<or> take_frame (rbuf (fst s')) = None"
proof (induction "length (rbuf (fst s))" arbitrary: s rule: less_induct)
  case less
  obtain c f where s: "s = (c, f)" by (cases s)
  show ?case
  proof (cases "take_frame (rbuf c)")
    case None
    then show ?thesis using less.prems s by (auto simp: feed_loop.simps)
  next
    case (Some p)
    obtain fr n where p: "p = (fr, n)" by (cases p)
    let ?c = "c\<lparr>rbuf := drop n (rbuf c)\<rparr>"
    have n: "0 < n" "n \<le> length (rbuf c)" using take_frame_used [of "rbuf c" fr n] Some p by simp_all
    have go: "goaway_sent (fst (goaway_code k t))" for k t by (cases t) (simp add: goaway_code_def)
    note eq = less.prems [unfolded s feed_loop.simps [of ord c f] Some p option.case prod.case Let_def]
    show ?thesis
    proof (cases "inbound_max_frame_size c < fh_length (header fr)")
      case True
      then have "s' = goaway_code ERR_FRAME_SIZE_ERROR (?c, f)" using eq by simp
      then show ?thesis using go by simp
    next
      case False
      then obtain t where t: "handle_frame ord fr (?c, f) = Done t" "feed_loop ord t = Done s'"
        using eq by (cases "handle_frame ord fr (?c, f)") simp_all
      then have "length (rbuf (fst t)) < length (rbuf (fst s))"
        using handle_frame_rbuf [of ord fr ?c f "fst t" "snd t"] n s by simp
      then show ?thesis by (rule less.hyps [OF _ t(2)])
    qed
  qed
qed

text \<open>What is left of the bytes received after a call that returns \<open>Ok\<close> without having given up.\<close>

lemma feed_leftover:
  assumes "feed ord bs c = Some (Inr f, c')" "\<not> goaway_sent c'" "inbound_max_frame_size c' = 16384"
  shows "length (rbuf c') < 9 + 16384"
proof -
  have frames: ?thesis if fr: "feed_frames ord s = Done (c', f)" for s
  proof -
    obtain t where t: "feed_loop ord s = Done t" "feed_partial t = (c', f)"
      using fr by (cases "feed_loop ord s") (auto simp: feed_frames_def)
    obtain d g where d: "t = (d, g)" by (cases t)
    show ?thesis
    proof (cases "decode_frame_header (rbuf d)")
      case None
      then show ?thesis using t(2) d by (auto simp: feed_partial_def decode_frame_header_def split: if_splits)
    next
      case (Some h)
      show ?thesis
      proof (cases "inbound_max_frame_size d < fh_length h")
        case True
        then show ?thesis using t(2) d Some by (auto simp: feed_partial_def Let_def split: prod.splits)
      next
        case False
        then have c: "c' = d" using t(2) d Some by (simp add: feed_partial_def)
        then have "length (rbuf d) < 9 + unat (fh_length h)"
          using feed_loop_end [OF t(1)] assms(2) d Some by (auto simp: take_frame_def Let_def split: if_splits)
        moreover have "unat (fh_length h) \<le> unat (inbound_max_frame_size d)" using False by (simp add: word_less_nat_alt not_less)
        ultimately show ?thesis using assms(3) c by simp
      qed
    qed
  qed
  have res: "oc = Done (c', f)" if "feed_result oc = Some (Inr f, c')" for oc
    using that by (cases oc rule: feed_result.cases) auto
  have "length CONNECTION_PREFACE = 24" by code_simp
  then show ?thesis using assms(1) frames by (auto simp: feed_def Let_def dest!: res split: if_splits)
qed

text \<open>
  Property C8: the memory that a connection spends on requests, whatever the peer sends and however
  the application answers: at most 100 open streams, each with at most 65536 bytes of unfinished
  header block and 65536 bytes of decoded headers, at most 2^20 bytes of request bodies over all
  streams together, and a header table of at most 4096 bytes; streams have distinct identifiers,
  none above the highest seen. The buffer of received bytes holds less than one frame of the maximum
  size, 16393 bytes, after a call of \<open>feed\<close> that returns \<open>Ok\<close> on a connection that has not sent
  GOAWAY. It is not bounded in general: when the preface is wrong, this call and every later one
  returns an error and keeps all bytes it was given. Responses that wait for the peer's window are
  what the application handed over and are not bounded either.
\<close>

theorem connection_memory_bounded:
  assumes "served ord c rs"
  shows "length (streams c) \<le> 100 \<and> distinct (map fst (streams c))
    \<and> (\<forall>(k, st) \<in> set (streams c). k \<le> last_sid c \<and> length (st_header_block st) \<le> 65536 \<and> list_size (st_headers st) \<le> 65536)
    \<and> sum_list (map (\<lambda>(k, st). length (st_body st)) (streams c)) \<le> 2 ^ 20
    \<and> list_size (dt_entries (inbound_hpack c)) \<le> 4096
    \<and> (\<forall>bs f c'. feed ord bs c = Some (Inr f, c') \<longrightarrow> goaway_sent c' \<or> length (rbuf c') < 16393)
    \<and> (\<forall>bs. \<not> preface_seen c \<and> length CONNECTION_PREFACE \<le> length (rbuf c @ bs)
          \<and> take (length CONNECTION_PREFACE) (rbuf c @ bs) \<noteq> CONNECTION_PREFACE \<longrightarrow>
        feed ord bs c = Some (Inl ''http2: invalid connection preface'', c\<lparr>rbuf := rbuf c @ bs\<rparr>)
        \<and> (\<forall>more. feed ord more (c\<lparr>rbuf := rbuf c @ bs\<rparr>) =
              Some (Inl ''http2: invalid connection preface'', c\<lparr>rbuf := rbuf c @ bs @ more\<rparr>)))"
proof -
  have "recv_ok c" using served_ledger [OF assms] by (simp add: conn_ok_def)
  moreover have "length (rbuf c') < 16393" if f: "feed ord bs c = Some (Inr f, c')" "\<not> goaway_sent c'" for bs f c'
  proof -
    have "inbound_max_frame_size c' = 16384"
      using served_ledger [OF served_feed [OF assms f(1)]] by (simp add: conn_ok_def recv_ok_def)
    then show ?thesis using feed_leftover [OF f] by simp
  qed
  moreover have "feed ord bs c = Some (Inl ''http2: invalid connection preface'', c\<lparr>rbuf := rbuf c @ bs\<rparr>)
      \<and> (\<forall>more. feed ord more (c\<lparr>rbuf := rbuf c @ bs\<rparr>) =
            Some (Inl ''http2: invalid connection preface'', c\<lparr>rbuf := rbuf c @ bs @ more\<rparr>))"
    if p: "\<not> preface_seen c" "length CONNECTION_PREFACE \<le> length (rbuf c @ bs)"
      "take (length CONNECTION_PREFACE) (rbuf c @ bs) \<noteq> CONNECTION_PREFACE" for bs
  proof -
    have "take (length CONNECTION_PREFACE) (rbuf c @ bs @ more) = take (length CONNECTION_PREFACE) (rbuf c @ bs)" for more
      using take_append [of "length CONNECTION_PREFACE" "rbuf c @ bs" more] p(2) by simp
    then show ?thesis using p by (auto simp: feed_def Let_def)
  qed
  ultimately show ?thesis by (fastforce simp: recv_ok_def stream_ok_def dt_ok_def body_total_def)
qed

theorem connection_memory_bounded_witness:
  "\<exists>c. served rev c [\<lparr>rq_stream_id = 1, rq_headers = example_headers, rq_body = [7, 8]\<rparr>]
    \<and> length (streams c) \<le> 100 \<and> list_size (dt_entries (inbound_hpack c)) \<le> 4096"
  using served_example connection_memory_bounded by blast

text \<open>
  The flow-control windows stay in range. The connection's send window is between 0
  and 2^31 - 1, its receive window between 0 and 2^20, and the send window of a stream, which a
  change of SETTINGS may push below zero or above 2^31 - 1, stays within 32 bits either way; each
  step adds or takes off less than 2^32, so the 64-bit arithmetic of the source never overflows.
  Frames sent are between 16384 and 16777215 bytes at most.
\<close>

theorem connection_windows_in_range:
  assumes "served ord c rs"
  shows "0 \<le> conn_send_window c \<and> conn_send_window c < 2 ^ 31
    \<and> 0 \<le> conn_recv_window c \<and> conn_recv_window c \<le> 2 ^ 20
    \<and> 0 \<le> peer_initial_window c \<and> peer_initial_window c < 2 ^ 31
    \<and> (\<forall>(k, ss) \<in> set (send c). \<bar>ss_window ss\<bar> < 2 ^ 32 \<and> ss_pending ss \<noteq> [])
    \<and> 16384 \<le> peer_max_frame_size c \<and> peer_max_frame_size c \<le> 16777215"
proof -
  have c: "recv_ok c" "windows_ok c" using served_ledger [OF assms] by (simp_all add: conn_ok_def)
  have p: "0 \<le> peer_initial_window c" "peer_initial_window c < 2 ^ 31" using c(2) by (simp_all add: windows_ok_def)
  have "\<bar>ss_window ss\<bar> < 2 ^ 32" if "\<bar>ss_window ss - peer_initial_window c\<bar> < 2 ^ 31" for ss
    using that p by simp
  then show ?thesis using c by (auto simp: recv_ok_def windows_ok_def send_ok_def)
qed

theorem connection_windows_in_range_witness:
  "\<exists>c. served rev c [\<lparr>rq_stream_id = 1, rq_headers = example_headers, rq_body = [7, 8]\<rparr>]
    \<and> 0 \<le> conn_send_window c \<and> 0 \<le> conn_recv_window c"
  using served_example connection_windows_in_range by blast

text \<open>
  The requests a connection hands to the application over its whole life are on
  distinct, odd streams, and the bodies of all of them together are at most 2^20 bytes, because
  the receive window is charged for every DATA frame and nothing ever gives it back.
\<close>

theorem connection_requests:
  assumes "served ord c rs"
  shows "distinct (map rq_stream_id rs) \<and> (\<forall>r \<in> set rs. rq_stream_id r mod 2 \<noteq> 0 \<and> rq_stream_id r \<le> last_sid c
      \<and> list_size (rq_headers r) \<le> 65536)
    \<and> int (sum_list (map (\<lambda>r. length (rq_body r)) rs)) \<le> 2 ^ 20 - conn_recv_window c \<and> 0 \<le> conn_recv_window c"
  using served_ledger [OF assms] by (auto simp: ledger_def Let_def conn_ok_def recv_ok_def Http2Feed_default_def)

theorem connection_requests_witness:
  "\<exists>c. served rev c [\<lparr>rq_stream_id = 1, rq_headers = example_headers, rq_body = [7, 8]\<rparr>]
    \<and> conn_recv_window c \<le> 2 ^ 20 - 2"
  using served_example connection_requests by fastforce

end
