(* ===== verification/Http2_Conn_Out.thy ===== *)
theory Http2_Conn_Out
  imports Http2_Conn_Props
begin

unbundle bit_operations_syntax

text \<open>
  What an HTTP/2 connection writes: the outbound bytes of \<open>feed\<close> and \<open>respond\<close> are a sequence
  of complete frames that the peer reads back with the same codec, and the header block of a
  response decodes to the status and the headers the application gave.
\<close>

section \<open>Outbound bytes are frames\<close>

type_synonym message = "FrameType \<times> u8 \<times> u32 \<times> bytes"

definition enc :: "message list \<Rightarrow> bytes" where
  "enc ms = concat (map (\<lambda>(t, f, s, p). encode_frame t f s p) ms)"

definition sound_message :: "message \<Rightarrow> bool" where
  "sound_message m \<longleftrightarrow> wf_message m \<and> fst m \<in> {Settings, Ping, GoAwayFrame, Headers, Data}"

definition out_ok :: "bytes \<Rightarrow> bool" where
  "out_ok bs \<longleftrightarrow> (\<exists>ms. bs = enc ms \<and> (\<forall>m \<in> set ms. sound_message m))"

lemma out_ok_append: "out_ok a \<Longrightarrow> out_ok b \<Longrightarrow> out_ok (a @ b)"
proof -
  assume "out_ok a" "out_ok b"
  then obtain ms ms' where "a = enc ms" "b = enc ms'" "\<forall>m \<in> set (ms @ ms'). sound_message m"
    unfolding out_ok_def by auto
  then show ?thesis unfolding out_ok_def by (intro exI [of _ "ms @ ms'"]) (simp add: enc_def)
qed

lemma out_ok_Nil: "out_ok []"
  unfolding out_ok_def by (intro exI [of _ "[]"]) (simp add: enc_def)

lemma out_ok_frame: "sound_message (t, f, s, p) \<Longrightarrow> out_ok (encode_frame t f s p)"
  unfolding out_ok_def by (intro exI [of _ "[(t, f, s, p)]"]) (simp add: enc_def)

lemma length_be_u32 [simp]: "length (to_be_bytes_u32 w) = 4"
  by (simp add: to_be_bytes_u32_def)

lemma out_ok_control:
  "out_ok encode_settings_ack" "length p = 8 \<Longrightarrow> out_ok (encode_ping_ack p)" "out_ok (encode_goaway k code [])"
  "out_ok server_settings"
  unfolding encode_settings_ack_def encode_ping_ack_def encode_goaway_def server_settings_def encode_settings_frame_def
  by (rule out_ok_frame; simp add: sound_message_def wf_message_def to_be_bytes_u16_def)+

lemma out_ok_wire: "\<forall>(k, e, d) \<in> set ms. k < 2 ^ 31 \<and> length d < 2 ^ 24 \<Longrightarrow> out_ok (wire ms)"
proof (induction ms)
  case (Cons m ms)
  obtain k e d where m: "m = (k, e, d)" by (cases m)
  have "out_ok (encode_data k e d)" unfolding encode_data_def
    by (rule out_ok_frame) (use Cons.prems m in \<open>simp add: sound_message_def wf_message_def\<close>)
  then show ?case using Cons m by (simp add: out_ok_append)
qed (simp add: out_ok_Nil)

definition send_ids :: "Http2Connection \<Rightarrow> bool" where
  "send_ids c \<longleftrightarrow> (\<forall>k. map_of (send c) k \<noteq> None \<longrightarrow> k < 2 ^ 31)"

lemma flush_law_out:
  assumes "windows_ok c" "send_ids c" "flush_law c ms c'"
  shows "out_ok (wire ms)" "send_ids c'"
proof -
  have size: "unat (peer_max_frame_size c) < 2 ^ 24"
  proof -
    have "peer_max_frame_size c \<le> 16777215" using assms(1) by (simp add: windows_ok_def)
    then show ?thesis by (simp add: word_le_nat_alt)
  qed
  have "k < 2 ^ 31" if "(k, e, d) \<in> set ms" for k e d
  proof -
    have "d \<noteq> []" using flush_lawD(8) [OF assms(3)] that by auto
    then have "payload_on k ms \<noteq> []" using that by (auto simp: payload_on_def intro!: bexI [of _ "(k, e, d)"])
    then have "unsent c k \<noteq> []" using flush_lawD(4) [OF assms(3), of k] by auto
    then show ?thesis using assms(2) by (auto simp: send_ids_def unsent_def split: option.splits)
  qed
  moreover have "length d < 2 ^ 24" if "(k, e, d) \<in> set ms" for k e d
    using bspec [OF flush_lawD(8) [OF assms(3)] that] size by simp
  ultimately show "out_ok (wire ms)" by (intro out_ok_wire) auto
  have "k < 2 ^ 31" if "map_of (send c') k \<noteq> None" for k
    using that assms(2) flush_lawD(5) [OF assms(3), of k] by (cases "map_of (send c) k") (simp_all add: send_ids_def)
  then show "send_ids c'" by (simp add: send_ids_def)
qed

definition writes :: "conn_state \<Rightarrow> bool" where
  "writes s \<longleftrightarrow> send_ids (fst s) \<and> out_ok (fd_outbound (snd s))"

lemma writes_fields [simp]:
  "writes (c\<lparr>rbuf := x\<rparr>, f) = writes (c, f)" "writes (c\<lparr>preface_seen := b\<rparr>, f) = writes (c, f)"
  "writes (c\<lparr>settings_sent := b\<rparr>, f) = writes (c, f)" "writes (c\<lparr>goaway_sent := b\<rparr>, f) = writes (c, f)"
  "writes (c\<lparr>streams := ts\<rparr>, f) = writes (c, f)" "writes (c\<lparr>last_sid := k\<rparr>, f) = writes (c, f)"
  "writes (c\<lparr>active_header_stream := a\<rparr>, f) = writes (c, f)" "writes (c\<lparr>rst_stream_count := n\<rparr>, f) = writes (c, f)"
  "writes (c\<lparr>stream_lifetime_count := n\<rparr>, f) = writes (c, f)" "writes (c\<lparr>inbound_hpack := t\<rparr>, f) = writes (c, f)"
  "writes (c\<lparr>conn_recv_window := w\<rparr>, f) = writes (c, f)" "writes (c\<lparr>conn_send_window := w\<rparr>, f) = writes (c, f)"
  "writes (c\<lparr>peer_initial_window := w\<rparr>, f) = writes (c, f)" "writes (c\<lparr>peer_max_frame_size := m\<rparr>, f) = writes (c, f)"
  "writes (c, f\<lparr>fd_requests := rs\<rparr>) = writes (c, f)"
  by (simp_all add: writes_def send_ids_def)

lemma writes_emit: "writes (c, f) \<Longrightarrow> out_ok bs \<Longrightarrow> writes (c, emit_bytes bs f)"
  by (simp add: writes_def emit_bytes_def out_ok_append)

lemma writes_goaway: "writes (c, f) \<Longrightarrow> writes (goaway_code k (c, f))"
  by (simp add: goaway_code_def writes_emit out_ok_control)

lemma writes_try_emit: "writes (c, f) \<Longrightarrow> writes (try_emit k (c, f))"
  by (simp add: try_emit_def split: option.split)

lemma writes_after_headers: "writes (c, f) \<Longrightarrow> outcome_all writes
    (and_then (finish_headers k (c, f)) (\<lambda>(c, f). Done (try_emit k (c\<lparr>active_header_stream := a\<rparr>, f))))"
  by (rule outcome_all_and_then [of writes])
    (auto intro!: writes_try_emit simp: finish_headers_def Let_def split: option.split sum.split prod.split)

lemma writes_flush_feed:
  assumes "windows_ok c" "writes (c, f)"
  shows "writes (flush_feed ord (c, f))"
proof -
  have "send_ok c" using assms(1) by (simp add: windows_ok_def)
  from fold_flush_law [OF this, of "ord (map fst (send c))" "fd_outbound f"]
  obtain ms c' where s: "fold flush_stream (ord (map fst (send c))) (c, fd_outbound f) = (c', fd_outbound f @ wire ms)"
    "flush_law c ms c'" by blast
  then show ?thesis using flush_law_out [OF assms(1) _ s(2)] assms(2)
    by (simp add: flush_feed_def flush_all_def writes_def out_ok_append)
qed

lemma writes_settings_loop: "writes (c, f) \<Longrightarrow> writes (snd (apply_settings xs (c, f)))"
proof (induction xs arbitrary: c)
  case (Cons x xs)
  have "writes (c\<lparr>peer_initial_window := w, send := map (\<lambda>(k, ss). (k, ss\<lparr>ss_window := ss_window ss + d\<rparr>)) (send c)\<rparr>, f)" for w d
    using Cons.prems by (simp add: writes_def send_ids_def map_of_map)
  then show ?case using Cons by (auto simp: goaway_def Let_def writes_goaway)
qed simp

lemmas writes_simps = writes_goaway goaway_def writes_try_emit writes_after_headers Let_def

lemma writes_receiving:
  assumes "writes (c, f)"
  shows "outcome_all writes (handle_headers fr (c, f))" "outcome_all writes (handle_continuation fr (c, f))"
    and "outcome_all writes (handle_data fr (c, f))" "outcome_all writes (handle_rst_stream fr (c, f))"
    and "outcome_all writes (handle_ping fr (c, f))"
  subgoal using assms by (simp add: handle_headers_def writes_simps split: option.split)
  subgoal using assms by (simp add: handle_continuation_def writes_simps split: option.split)
  subgoal using assms by (simp add: handle_data_def writes_simps split: option.split)
  subgoal using assms by (simp add: handle_rst_stream_def writes_simps)
  subgoal using assms by (simp add: handle_ping_def writes_simps writes_emit out_ok_control)
  done

lemma writes_sending:
  assumes c: "conn_ok c" and w: "writes (c, f)"
  shows "outcome_all writes (handle_settings ord fr (c, f))" "outcome_all writes (handle_window_update ord fr (c, f))"
proof -
  have flush: "writes (flush_feed ord (c', f'))" if "conn_ok c'" "writes (c', f')" for c' f'
    using that writes_flush_feed by (simp add: conn_ok_def)
  have "outcome_all writes (case apply_settings ss (c, f) of
      (True, s) \<Rightarrow> Done s | (False, c1, f1) \<Rightarrow> Done (flush_feed ord (c1, emit_bytes encode_settings_ack f1)))" for ss
  proof -
    obtain e c1 f1 where "apply_settings ss (c, f) = (e, c1, f1)" by (cases "apply_settings ss (c, f)") auto
    then show ?thesis using conn_ok_apply_settings [OF c, of ss f] writes_settings_loop [OF w, of ss]
      by (cases e) (simp_all add: flush writes_emit out_ok_control)
  qed
  then show "outcome_all writes (handle_settings ord fr (c, f))"
    using w by (simp add: handle_settings_def goaway_def writes_goaway split: option.split)
  have "writes (c\<lparr>send := AList.update k (ss\<lparr>ss_window := v\<rparr>) (send c)\<rparr>, f)" if "map_of (send c) k = Some ss" for k ss v
    using w that by (auto simp: writes_def send_ids_def update_conv')
  then show "outcome_all writes (handle_window_update ord fr (c, f))"
    using c w by (simp add: handle_window_update_def Let_def goaway_def writes_goaway flush conn_ok_grant_conn
        conn_ok_grant_stream split: option.split)
qed

interpretation writing: frame_invariant ord "\<lambda>s. conn_ok (fst s) \<and> writes s" for ord
proof
  show "outcome_all (\<lambda>s. conn_ok (fst s) \<and> writes s) (handle_frame ord fr s)"
    if fr: "frame_ok fr" and s: "conn_ok (fst s) \<and> writes s" for fr s
  proof -
    obtain c f where p: "s = (c, f)" by (cases s)
    have "outcome_all writes (handle_frame ord fr (c, f))"
      using s p writes_receiving [of c f fr] writes_sending [of c f ord fr] by (simp add: handle_frame_def split: FrameType.split)
    then show ?thesis using conn_ok_frame [OF fr, of c ord f] s p by (auto intro: outcome_all_conj)
  qed
  show "conn_ok (fst (goaway_code k s)) \<and> writes (goaway_code k s)" if "conn_ok (fst s) \<and> writes s" for s k
    using that conn_ok_goaway [of "fst s" k "snd s"] writes_goaway [of "fst s" "snd s" k] by simp
qed (simp_all add: conn_ok_def writes_emit out_ok_control)

lemma read_enc:
  assumes "\<forall>m \<in> set ms. wf_message m"
  shows "take_all take_frame (length ms) (enc ms) = (map (\<lambda>(t, f, s, p). Frame_of t f s p) ms, [])"
  using frames.stream [OF assms order.refl, of "(Ping, 0, 0, [])" 0]
  by (simp add: enc_def wf_message_def encode_frame_def)

text \<open>
  Property C23: the outbound bytes of a call of \<open>feed\<close> are complete frames: the peer's codec reads
  them back one by one with nothing left over. They are SETTINGS, PING, GOAWAY, HEADERS or DATA frames;
  in particular no call of \<open>feed\<close> sends WINDOW_UPDATE, to give back what a request body takes off a
  receive window.
\<close>

theorem outbound_frames:
  assumes "conn_ok c" "send_ids c" "feed ord bs c = Some (Inr f, c')"
  shows "\<exists>ms. fd_outbound f = enc ms \<and> (\<forall>m \<in> set ms. fst m \<in> {Settings, Ping, GoAwayFrame, Headers, Data})
    \<and> take_all take_frame (length ms) (fd_outbound f) = (map (\<lambda>(t, f, s, p). Frame_of t f s p) ms, [])"
proof -
  have "writes (c, Http2Feed_default)" using assms(2) by (simp add: writes_def Http2Feed_default_def out_ok_Nil)
  then have "out_ok (fd_outbound f)"
    using writing.feed [of c ord bs "Inr f" c'] assms(1,3) by (auto simp: writes_def)
  then obtain ms where "fd_outbound f = enc ms" "\<forall>m \<in> set ms. wf_message m \<and> fst m \<in> {Settings, Ping, GoAwayFrame, Headers, Data}"
    by (auto simp: out_ok_def sound_message_def)
  then show ?thesis using read_enc [of ms] by auto
qed

theorem outbound_frames_witness:
  "\<exists>f c' ms. feed rev (CONNECTION_PREFACE @ request_bytes 1 example_headers [[7, 8]]) Http2Connection_new = Some (Inr f, c')
    \<and> fd_outbound f = server_settings \<and> fd_outbound f = enc ms
    \<and> (\<forall>m \<in> set ms. fst m \<in> {Settings, Ping, GoAwayFrame, Headers, Data})"
proof -
  obtain c' f where f: "feed rev (CONNECTION_PREFACE @ request_bytes 1 example_headers [[7, 8]]) Http2Connection_new = Some (Inr f, c')"
      "fd_outbound f = server_settings"
    using feed_first_request [OF client_ready_example, of "[[7, 8]]" rev] by auto
  have "send_ids Http2Connection_new" by (simp add: send_ids_def Http2Connection_new_def)
  from outbound_frames [OF conn_ok_new this f(1)] f show ?thesis by blast
qed

section \<open>Responses\<close>

lemma length_show_nat: "length (show_nat n) \<le> Suc n"
proof (induction n rule: show_nat.induct)
  case (1 n)
  then show ?case by (subst show_nat.simps) (auto intro: order.trans)
qed

lemma status_text: "wf_text (show_nat (unat (status :: u16)))"
proof -
  have "byte c < 0x80" if "c \<in> set (show_nat (unat status))" for c
    using that by (auto dest!: show_nat_digits simp: is_digit_def)
  then have "utf8_valid (show_nat (unat status))"
    using ascii_valid [of "show_nat (unat status)" "[]"] by simp
  moreover have "length (show_nat (unat status)) \<le> Suc (unat status)" by (rule length_show_nat)
  moreover have "unat status < 2 ^ 16" using unsigned_less [of status, where 'a = nat] by simp
  ultimately show ?thesis by (simp add: wf_text_def)
qed

definition response_headers :: "u16 \<Rightarrow> header list \<Rightarrow> header list" where
  "response_headers status hs = ('':status'', show_nat (unat status)) # hs"

lemma respond_frames:
  assumes c: "conn_ok c" "map_of (send c) sid = None"
  shows "\<exists>ms c'. respond sid status hs body c
      = (c', encode_headers sid (encode_header_block (response_headers status hs)) (body = []) True @ wire ms)
    \<and> (\<forall>(k, e, d) \<in> set ms. k = sid \<and> length d \<le> unat (peer_max_frame_size c))
    \<and> payload_on sid ms @ unsent c' sid = body
    \<and> ((\<exists>d. (sid, True, d) \<in> set ms) \<longleftrightarrow> body \<noteq> [] \<and> unsent c' sid = [])"
proof (cases "body = []")
  case True
  then show ?thesis using c(2)
    by (intro exI [of _ "[]"]) (simp add: respond_def response_headers_def Let_def unsent_def)
next
  case False
  let ?c = "respond_start sid body c" and ?ss = "\<lparr>ss_pending = body, ss_window = peer_initial_window c\<rparr>"
  let ?n = "sendable ?c ?ss" and ?m = "unat (peer_max_frame_size c)"
  let ?cs = "chunks ?m (take ?n body)"
  let ?ms = "data_frames sid (?n = length body) ?cs"
  have s: "map_of (send ?c) sid = Some ?ss" "peer_max_frame_size ?c = peer_max_frame_size c"
    by (simp_all add: respond_start_def update_conv')
  have m: "0 < peer_max_frame_size c" "0 < ?m"
    using c(1) by (simp_all add: conn_ok_def windows_ok_def send_ok_def word_less_nat_alt)
  have f: "flush_stream sid (?c, out) = (flushed sid ?ss ?c, out @ wire ?ms)" for out
    using flush_stream_closed [OF s(1), of out] s(2) m(1) False by simp
  have left: "unsent (flushed sid ?ss ?c) sid = drop ?n body" using s by (simp add: unsent_def flushed_send)
  have le: "?n \<le> length body" using sendable_le [of ?c ?ss] by simp
  have "respond sid status hs body c = (flushed sid ?ss ?c,
      encode_headers sid (encode_header_block (response_headers status hs)) (body = []) True @ wire ?ms)"
    using f False by (simp add: respond_def response_headers_def respond_start_def Let_def)
  moreover have "\<forall>(k, e, d) \<in> set ?ms. k = sid \<and> length d \<le> ?m"
    using chunks_size [of ?m "take ?n body"] by (auto dest: data_frames_set)
  moreover have "payload_on sid ?ms @ unsent (flushed sid ?ss ?c) sid = body"
    using m by (simp add: data_frames_payload concat_chunks left)
  moreover have "(\<exists>d. (sid, True, d) \<in> set ?ms) \<longleftrightarrow> body \<noteq> [] \<and> unsent (flushed sid ?ss ?c) sid = []"
    using m False le by (auto simp: data_frames_end left chunks_more)
  ultimately show ?thesis by blast
qed

text \<open>
  Property C20: a client can read the response. What \<open>respond\<close> writes for a stream that has no
  response pending is one HEADERS frame and DATA frames on that stream and nothing else, which
  the frame codec reads back; the header block decodes, with any table, to the status in decimal
  and the headers in the given order; the DATA payloads followed by what is kept back are the
  body; and END_STREAM is on a DATA frame exactly when a body was given and all of it is out (a
  response without a body ends with its HEADERS). The headers have to fit the limit of the client
  on a header list, and the header block the 24 bits of a frame length.
\<close>

theorem response_readable:
  assumes "conn_ok c" "map_of (send c) sid = None" "sid < 2 ^ 31"
    and "\<forall>e \<in> set hs. wf_text (fst e) \<and> wf_text (snd e)"
    and "list_size (response_headers status hs) \<le> max_header_list_size limits" "max_header_list_size limits < 2 ^ 64"
    and "length (encode_header_block (response_headers status hs)) < 2 ^ 24"
  shows "\<exists>c' out ms. respond sid status hs body c = (c', out)
    \<and> take_all take_frame (Suc (length ms)) out =
        (Frame_of Headers ((if body = [] then FLAG_END_STREAM else 0) OR FLAG_END_HEADERS) sid (encode_header_block (response_headers status hs))
         # map (\<lambda>(k, e, d). Frame_of Data (if e then FLAG_END_STREAM else 0) k d) ms, [])
    \<and> decode_header_block_limited (encode_header_block (response_headers status hs)) t limits = Some (Inr (response_headers status hs), t)
    \<and> (\<forall>(k, e, d) \<in> set ms. k = sid) \<and> concat (map (\<lambda>(k, e, d). d) ms) @ unsent c' sid = body
    \<and> ((\<exists>d. (sid, True, d) \<in> set ms) \<longleftrightarrow> body \<noteq> [] \<and> unsent c' sid = [])"
proof -
  let ?hs = "response_headers status hs" and ?fl = "(if body = [] then FLAG_END_STREAM else 0) OR FLAG_END_HEADERS"
  obtain ms c' where r: "respond sid status hs body c = (c', encode_headers sid (encode_header_block ?hs) (body = []) True @ wire ms)"
    and ms: "\<forall>(k, e, d) \<in> set ms. k = sid \<and> length d \<le> unat (peer_max_frame_size c)" "payload_on sid ms @ unsent c' sid = body"
      "(\<exists>d. (sid, True, d) \<in> set ms) \<longleftrightarrow> body \<noteq> [] \<and> unsent c' sid = []"
    using respond_frames [OF assms(1,2), of status hs body] by blast
  have "peer_max_frame_size c \<le> 16777215" using assms(1) by (simp add: conn_ok_def windows_ok_def)
  then have size: "unat (peer_max_frame_size c) < 2 ^ 24" by (simp add: word_le_nat_alt)
  let ?l = "(Headers, ?fl, sid, encode_header_block ?hs) # map (\<lambda>(k, e, d). (Data, if e then FLAG_END_STREAM else 0, k, d)) ms"
  have "\<forall>m \<in> set ?l. wf_message m" using assms(3,7) ms(1) size by (fastforce simp: wf_message_def)
  note read = read_enc [OF this]
  have "enc (map (\<lambda>(k, e, d). (Data, if e then FLAG_END_STREAM else 0, k, d)) ms) = wire ms"
    by (induction ms) (auto simp: enc_def encode_data_frame)
  then have "enc ?l = encode_headers sid (encode_header_block ?hs) (body = []) True @ wire ms"
    by (simp add: enc_def headers_flags(1))
  then have frames: "take_all take_frame (Suc (length ms)) (encode_headers sid (encode_header_block ?hs) (body = []) True @ wire ms)
      = (Frame_of Headers ?fl sid (encode_header_block ?hs) # map (\<lambda>(k, e, d). Frame_of Data (if e then FLAG_END_STREAM else 0) k d) ms, [])"
    using read by (simp add: comp_def split_beta)
  have texts: "\<forall>e \<in> set ?hs. wf_text (fst e) \<and> wf_text (snd e)"
    using assms(4) status_text [of status] by (simp add: response_headers_def wf_text_def)
  have block: "decode_header_block_limited (encode_header_block ?hs) t limits = Some (Inr ?hs, t)"
    using block_headers [OF texts, of 0 limits "[]" t "[]"] assms(5,6)
    by (simp add: decode_header_block_limited_def decode_block.simps [of limits "[]"])
  have "payload_on sid ms = concat (map (\<lambda>(k, e, d). d) ms)"
    using ms(1) unfolding payload_on_def by (intro arg_cong [of _ _ concat] map_cong) auto
  then have "concat (map (\<lambda>(k, e, d). d) ms) @ unsent c' sid = body" using ms(2) by simp
  moreover have "\<forall>(k, e, d) \<in> set ms. k = sid" using ms(1) by auto
  ultimately show ?thesis using r frames block ms(3) by (intro exI [of _ c'] exI [of _ ms] exI conjI)
qed

theorem response_readable_witness:
  "\<exists>c' out ms. respond 1 200 [(''x'', ''y'')] [5, 6] Http2Connection_new = (c', out)
    \<and> take_all take_frame (Suc (length ms)) out =
        (Frame_of Headers (0 OR FLAG_END_HEADERS) 1 (encode_header_block (response_headers 200 [(''x'', ''y'')]))
         # map (\<lambda>(k, e, d). Frame_of Data (if e then FLAG_END_STREAM else 0) k d) ms, [])
    \<and> concat (map (\<lambda>(k, e, d). d) ms) @ unsent c' 1 = [5, 6]"
proof -
  have h: "response_headers 200 [(''x'', ''y'')] = [('':status'', ''200''), (''x'', ''y'')]"
    by (simp add: response_headers_def) code_simp
  have "encode_header_block [('':status'', ''200''), (''x'', ''y'')] = [0x88, 0, 1, 120, 1, 121]" by code_simp
  then have l: "length (encode_header_block (response_headers 200 [(''x'', ''y'')])) < 2 ^ 24" unfolding h by simp
  have s: "list_size (response_headers 200 [(''x'', ''y'')]) \<le> max_header_list_size DecodeLimits_default"
      "max_header_list_size DecodeLimits_default < 2 ^ 64"
    unfolding h by (simp_all add: entry_size_def DecodeLimits_default_def)
  have t: "\<forall>e \<in> set [(''x'', ''y'')]. wf_text (fst e) \<and> wf_text (snd e)" by (simp add: wf_text_def)
  have n: "map_of (send Http2Connection_new) 1 = None" "(1 :: u32) < 2 ^ 31" by (simp_all add: Http2Connection_new_def)
  have fl: "(if [5, 6] = ([] :: bytes) then FLAG_END_STREAM else 0) = 0" by simp
  show ?thesis using response_readable [OF conn_ok_new n t s l, of "[5, 6]" "DynamicTable_new 0"] unfolding fl by blast
qed

section \<open>Faults\<close>

definition panic_block :: bytes where
  "panic_block = [0x00, 0x7f, 0x80, 0xff, 0xff, 0xff, 0xff, 0xff, 0xff, 0xff, 0xff, 0x01]"

text \<open>
  Property C34: a client can make the server panic. On any connection that takes new streams, a
  HEADERS frame with the twelve-byte block on which the string decoder's slice is out of range ends
  \<open>feed\<close> in a panic, whatever the header table holds.
\<close>

theorem peer_panics_server:
  assumes "conn_ok c" "preface_seen c" "rbuf c = []" "client_ready sid [] c"
  shows "feed ord (encode_headers sid panic_block True True) c = None"
proof -
  let ?fl = "FLAG_END_STREAM OR FLAG_END_HEADERS"
  let ?fr = "Frame_of Headers ?fl sid panic_block" and ?c = "c\<lparr>rbuf := []\<rparr>"
  have r: "recv_ok c" and k: "last_sid c < sid" "sid \<noteq> 0" "sid mod 2 \<noteq> 0" "sid < 2 ^ 31" "active_header_stream c = None"
      "length (streams c) < 100" "stream_lifetime_count c < 1000"
    using assms(1,4) by (auto simp: conn_ok_def client_ready_def)
  have none: "map_of (streams c) sid = None" using stream_at [OF r, of sid] k(1) by (cases "map_of (streams c) sid") auto
  have fr: "frame_type (header ?fr) = Headers" "stream_id (header ?fr) = sid" "flags (header ?fr) = ?fl" "payload ?fr = panic_block"
    by (simp_all add: Frame_of_def)
  have len: "length panic_block = 12" by (simp add: panic_block_def)
  have "header_block_fragment ?fr = Some panic_block"
    unfolding header_block_fragment_def fr using headers_flags(4,5) [of True] by simp
  moreover have "handle_headers ?fr (?c, f) = handle_new_headers ?fr (?c, f)" for f
    by (rule handle_headers_new) (use k none fr in simp_all)
  moreover have "st_header_block (new_stream ?fr panic_block) = panic_block" by (simp add: new_stream_def)
  moreover have "decode_header_block_limited panic_block t limits = None" for t limits
    using block_panics by (simp add: panic_block_def)
  ultimately have "handle_frame ord ?fr (?c, f) = Panic" for f
    unfolding handle_frame_def fr FrameType.case using headers_flags(3) [of True] k len
    by (simp add: handle_new_headers_def fr finish_headers_def update_conv' SERVER_MAX_STREAM_LIFETIME_def
        SERVER_MAX_HEADER_BLOCK_BYTES_def Let_def)
  then have "feed_loop ord (c\<lparr>rbuf := encode_headers sid panic_block True True\<rparr>, f) = Panic" for f
    using feed_loop_frame [of "c\<lparr>rbuf := encode_headers sid panic_block True True\<rparr>" Headers ?fl sid panic_block "[]" ord f]
      headers_flags(1) [of sid panic_block True] r k len by (simp add: wf_message_def recv_ok_def)
  then show ?thesis using assms(2,3) by (simp add: feed_def feed_frames_def)
qed

theorem peer_panics_server_witness:
  "feed rev (encode_headers 1 panic_block True True) (Http2Connection_new\<lparr>preface_seen := True\<rparr>) = None"
proof (rule peer_panics_server)
  show "conn_ok (Http2Connection_new\<lparr>preface_seen := True\<rparr>)" using conn_ok_new by (simp add: conn_ok_def)
qed (simp_all add: Http2Connection_new_def client_ready_def)

text \<open>
  RST_STREAM does not stop a response. A client that resets a stream while its
  response waits for window and then opens the connection window still gets the whole rest of the
  body on the reset stream: the handler forgets the request and keeps the response.
\<close>

theorem reset_keeps_response:
  assumes "send c = [(sid, ss)]" "ss_pending ss \<noteq> []" "int (length (ss_pending ss)) \<le> ss_window ss"
    and "conn_send_window c = 0" "0 < peer_max_frame_size c" "rst_stream_count c < 100" "sid \<noteq> 0" "ord [sid] = [sid]"
    and "length q = 4" "window_update_increment p = Some inc" "unat inc = length (ss_pending ss)" "length (ss_pending ss) < 2 ^ 31"
  shows "\<exists>c1 c2. handle_frame ord (Frame_of RstStream 0 sid q) (c, f) = Done (c1, f)
    \<and> map_of (streams c1) sid = None
    \<and> handle_frame ord (Frame_of WindowUpdate 0 0 p) (c1, f) = Done (c2, emit_bytes
        (wire (data_frames sid True (chunks (unat (peer_max_frame_size c)) (ss_pending ss)))) f)"
proof -
  let ?c1 = "c\<lparr>rst_stream_count := rst_stream_count c + 1, streams := AList.delete sid (streams c),
    active_header_stream := (if active_header_stream c = Some sid then None else active_header_stream c)\<rparr>"
  let ?c2 = "?c1\<lparr>conn_send_window := uint inc\<rparr>"
  have i: "uint inc = int (length (ss_pending ss))" using assms(11) by (metis uint_nat)
  have rst: "handle_frame ord (Frame_of RstStream 0 sid q) (c, f) = Done (?c1, f)"
    using assms(6,7,9) by (simp add: handle_frame_def handle_rst_stream_def Frame_of_def Let_def SERVER_MAX_RST_STREAMS_def)
  have "sendable ?c2 ss = length (ss_pending ss)" using i assms(3) by (simp add: sendable_def)
  moreover have "map_of (send ?c2) sid = Some ss" using assms(1) by simp
  ultimately have "flush_stream sid (?c2, fd_outbound f) = (flushed sid ss ?c2,
      fd_outbound f @ wire (data_frames sid True (chunks (unat (peer_max_frame_size c)) (ss_pending ss))))"
    using flush_stream_closed [of ?c2 sid ss "fd_outbound f"] assms(2,5) by simp
  then have "flush_feed ord (?c2, f) = (flushed sid ss ?c2,
      emit_bytes (wire (data_frames sid True (chunks (unat (peer_max_frame_size c)) (ss_pending ss)))) f)"
    using assms(1,8) by (simp add: flush_feed_def flush_all_def emit_bytes_def)
  moreover have "inc \<noteq> 0" "\<not> 0x7FFFFFFF < uint inc" using assms(2,11,12) i by auto
  ultimately have "handle_frame ord (Frame_of WindowUpdate 0 0 p) (?c1, f) = Done (flushed sid ss ?c2,
      emit_bytes (wire (data_frames sid True (chunks (unat (peer_max_frame_size c)) (ss_pending ss)))) f)"
    using assms(4,10) by (simp add: handle_frame_def handle_window_update_def Frame_of_def Let_def)
  moreover have "map_of (streams ?c1) sid = None" by (simp add: delete_conv')
  ultimately show ?thesis using rst by blast
qed

theorem reset_keeps_response_witness:
  "let c = Http2Connection_new\<lparr>conn_send_window := 0, send := [(5, \<lparr>ss_pending = [1, 2], ss_window = 9\<rparr>)]\<rparr> in
     \<exists>c1 c2. handle_frame rev (Frame_of RstStream 0 5 [0, 0, 0, 8]) (c, Http2Feed_default) = Done (c1, Http2Feed_default)
    \<and> map_of (streams c1) 5 = None
    \<and> handle_frame rev (Frame_of WindowUpdate 0 0 [0, 0, 0, 2]) (c1, Http2Feed_default)
      = Done (c2, emit_bytes (encode_data 5 True [1, 2]) Http2Feed_default)"
proof -
  let ?ss = "\<lparr>ss_pending = [1, 2], ss_window = 9\<rparr> :: SendState"
  let ?c = "Http2Connection_new\<lparr>conn_send_window := 0, send := [(5, ?ss)]\<rparr>"
  have "window_update_increment [0, 0, 0, 2] = Some 2" by code_simp
  moreover have "peer_max_frame_size ?c = 16384" "rst_stream_count ?c = 0"
    by (simp_all add: Http2Connection_new_def DEFAULT_MAX_FRAME_SIZE_def)
  moreover have "chunks 16384 [1, 2] = [[1, 2 :: u8]]" by (simp add: chunks_one)
  ultimately show ?thesis
    using reset_keeps_response [of ?c 5 ?ss rev "[0, 0, 0, 8]" "[0, 0, 0, 2]" 2 Http2Feed_default] by simp
qed

end
