(* ===== verification/SmallVec.thy ===== *)
theory SmallVec
  imports Rust_Prelude
begin

text \<open>
  The small-vector crate \<open>crates/rusty-js-smallvec/src/lib.rs\<close>: up to \<open>N\<close> elements in an inline
  buffer of optional slots, more in a heap vector. The capacity \<open>N\<close> is the const generic of the
  type, here an argument. Where the source indexes or unwraps, the model returns \<open>None\<close> for the
  panic. The locale \<open>vec_spec\<close> is the contract its users rely on, a list that grows at the end;
  the interpretation shows that the panics are unreachable.
\<close>

section \<open>Operations\<close>

datatype 'a SmallVec = Inline "'a option list" nat | Heap "'a list"

definition SmallVec_new :: "nat \<Rightarrow> 'a SmallVec" where
  "SmallVec_new N = Inline (replicate N None) 0"

fun SmallVec_len :: "'a SmallVec \<Rightarrow> nat" where
  "SmallVec_len (Inline buf len) = len"
| "SmallVec_len (Heap v) = length v"

definition SmallVec_is_empty :: "'a SmallVec \<Rightarrow> bool" where
  "SmallVec_is_empty v \<longleftrightarrow> SmallVec_len v = 0"

text \<open>Taking every slot out of its place and unwrapping it.\<close>

fun unwrap_all :: "'a option list \<Rightarrow> 'a list option" where
  "unwrap_all [] = Some []"
| "unwrap_all (None # xs) = None"
| "unwrap_all (Some x # xs) = map_option (\<lambda>ys. x # ys) (unwrap_all xs)"

fun SmallVec_push :: "nat \<Rightarrow> 'a SmallVec \<Rightarrow> 'a \<Rightarrow> 'a SmallVec option" where
  "SmallVec_push N (Inline buf len) x =
     (if len < N then
        (if len < length buf then Some (Inline (buf[len := Some x]) (len + 1)) else None)
      else map_option (\<lambda>v. Heap (v @ [x])) (unwrap_all (take len buf)))"
| "SmallVec_push N (Heap v) x = Some (Heap (v @ [x]))"

datatype 'a SmallIter = IterInline "'a option list" | IterHeap "'a list"

fun SmallVec_iter :: "'a SmallVec \<Rightarrow> 'a SmallIter option" where
  "SmallVec_iter (Inline buf len) = (if len \<le> length buf then Some (IterInline (take len buf)) else None)"
| "SmallVec_iter (Heap v) = Some (IterHeap v)"

text \<open>\<open>next\<close>: the outer \<open>None\<close> is the panic of \<open>expect\<close>.\<close>

fun SmallIter_next :: "'a SmallIter \<Rightarrow> ('a option \<times> 'a SmallIter) option" where
  "SmallIter_next (IterInline []) = Some (None, IterInline [])"
| "SmallIter_next (IterInline (None # xs)) = None"
| "SmallIter_next (IterInline (Some x # xs)) = Some (Some x, IterInline xs)"
| "SmallIter_next (IterHeap []) = Some (None, IterHeap [])"
| "SmallIter_next (IterHeap (x # xs)) = Some (Some x, IterHeap xs)"

fun iter_size :: "'a SmallIter \<Rightarrow> nat" where
  "iter_size (IterInline xs) = length xs"
| "iter_size (IterHeap xs) = length xs"

lemma SmallIter_next_size: "SmallIter_next it = Some (Some x, it') \<Longrightarrow> iter_size it' < iter_size it"
  by (cases it rule: SmallIter_next.cases) auto

text \<open>A \<open>for\<close> loop over the iterator.\<close>

function iter_collect :: "'a SmallIter \<Rightarrow> 'a list option" where
  "iter_collect it =
     (case SmallIter_next it of
        None \<Rightarrow> None
      | Some (None, it') \<Rightarrow> Some []
      | Some (Some x, it') \<Rightarrow> map_option (\<lambda>xs. x # xs) (iter_collect it'))"
  by pat_completeness auto
termination
  by (relation "measure iter_size") (auto dest: SmallIter_next_size)

declare iter_collect.simps [simp del]

definition SmallVec_to_list :: "'a SmallVec \<Rightarrow> 'a list option" where
  "SmallVec_to_list v = Option.bind (SmallVec_iter v) iter_collect"

datatype 'a IntoIter = IntoInline "'a option list" nat nat | IntoHeap "'a list"

fun SmallVec_into_iter :: "'a SmallVec \<Rightarrow> 'a IntoIter" where
  "SmallVec_into_iter (Inline buf len) = IntoInline buf 0 len"
| "SmallVec_into_iter (Heap v) = IntoHeap v"

fun IntoIter_next :: "'a IntoIter \<Rightarrow> ('a option \<times> 'a IntoIter) option" where
  "IntoIter_next (IntoInline buf idx len) =
     (if idx < len then
        (if idx < length buf then
           (case buf ! idx of
              None \<Rightarrow> None
            | Some x \<Rightarrow> Some (Some x, IntoInline (buf[idx := None]) (idx + 1) len))
         else None)
      else Some (None, IntoInline buf idx len))"
| "IntoIter_next (IntoHeap []) = Some (None, IntoHeap [])"
| "IntoIter_next (IntoHeap (x # xs)) = Some (Some x, IntoHeap xs)"

fun into_size :: "'a IntoIter \<Rightarrow> nat" where
  "into_size (IntoInline buf idx len) = len - idx"
| "into_size (IntoHeap xs) = length xs"

lemma IntoIter_next_size: "IntoIter_next it = Some (Some x, it') \<Longrightarrow> into_size it' < into_size it"
  by (cases it rule: IntoIter_next.cases) (auto split: if_splits option.splits)

function into_collect :: "'a IntoIter \<Rightarrow> 'a list option" where
  "into_collect it =
     (case IntoIter_next it of
        None \<Rightarrow> None
      | Some (None, it') \<Rightarrow> Some []
      | Some (Some x, it') \<Rightarrow> map_option (\<lambda>xs. x # xs) (into_collect it'))"
  by pat_completeness auto
termination
  by (relation "measure into_size") (auto dest: IntoIter_next_size)

declare into_collect.simps [simp del]

section \<open>The list a small vector holds\<close>

fun sv_list :: "'a SmallVec \<Rightarrow> 'a list" where
  "sv_list (Inline buf len) = map the (take len buf)"
| "sv_list (Heap v) = v"

text \<open>
  Inline buffers have \<open>N\<close> slots, the first \<open>len\<close> of them full; heap vectors hold more than \<open>N\<close>
  elements.
\<close>

fun sv_wf :: "nat \<Rightarrow> 'a SmallVec \<Rightarrow> bool" where
  "sv_wf N (Inline buf len) \<longleftrightarrow> length buf = N \<and> len \<le> N \<and> None \<notin> set (take len buf)"
| "sv_wf N (Heap v) \<longleftrightarrow> N < length v"

lemma unwrap_all_Some: "None \<notin> set xs \<Longrightarrow> unwrap_all xs = Some (map the xs)"
  by (induction xs rule: unwrap_all.induct) auto

lemma sv_new: "sv_wf N (SmallVec_new N)" "sv_list (SmallVec_new N) = []"
  by (simp_all add: SmallVec_new_def)

lemma sv_len: "sv_wf N v \<Longrightarrow> SmallVec_len v = length (sv_list v)"
  by (cases v) auto

lemma sv_push:
  assumes "sv_wf N v"
  shows "\<exists>v'. SmallVec_push N v x = Some v' \<and> sv_wf N v' \<and> sv_list v' = sv_list v @ [x]"
proof (cases v)
  case (Inline buf len)
  show ?thesis
  proof (cases "len < N")
    case True
    then have "take (Suc len) (buf[len := Some x]) = take len buf @ [Some x]"
      using assms Inline by (simp add: take_Suc_conv_app_nth)
    then show ?thesis using assms Inline True by auto
  next
    case False
    then show ?thesis using assms Inline unwrap_all_Some [of "take len buf"] by auto
  qed
qed (use assms in auto)

lemma collect_inline: "None \<notin> set xs \<Longrightarrow> iter_collect (IterInline xs) = Some (map the xs)"
proof (induction xs)
  case Nil
  then show ?case by (simp add: iter_collect.simps)
next
  case (Cons y xs)
  then obtain x where "y = Some x" by (cases y) auto
  then show ?case using Cons by (subst iter_collect.simps) simp
qed

lemma collect_heap: "iter_collect (IterHeap xs) = Some xs"
proof (induction xs)
  case (Cons x xs)
  then show ?case by (subst iter_collect.simps) simp
qed (simp add: iter_collect.simps)

lemma sv_iter: "sv_wf N v \<Longrightarrow> SmallVec_to_list v = Some (sv_list v)"
  by (cases v) (auto simp: SmallVec_to_list_def collect_inline collect_heap)

lemma into_inline:
  "idx \<le> len \<Longrightarrow> len \<le> length buf \<Longrightarrow> None \<notin> set (drop idx (take len buf)) \<Longrightarrow>
   into_collect (IntoInline buf idx len) = Some (map the (drop idx (take len buf)))"
proof (induction "len - idx" arbitrary: idx buf)
  case 0
  then show ?case by (subst into_collect.simps) simp
next
  case (Suc n)
  then have lt: "idx < len" "idx < length buf" by auto
  then have split: "drop idx (take len buf) = buf ! idx # drop (Suc idx) (take len buf)"
    using Cons_nth_drop_Suc [of idx "take len buf"] by simp
  then obtain x where x: "buf ! idx = Some x" using Suc.prems(3) by (cases "buf ! idx") auto
  have rest: "drop (Suc idx) (take len (buf[idx := None])) = drop (Suc idx) (take len buf)"
    by (simp add: take_update_swap drop_update_cancel)
  have "into_collect (IntoInline (buf[idx := None]) (Suc idx) len)
      = Some (map the (drop (Suc idx) (take len (buf[idx := None]))))"
    using Suc.prems Suc.hyps(2) lt split rest by (intro Suc.hyps(1)) auto
  then show ?case using lt x split rest by (subst into_collect.simps) simp
qed

lemma sv_into_iter: "sv_wf N v \<Longrightarrow> into_collect (SmallVec_into_iter v) = Some (sv_list v)"
proof (cases v)
  case (Heap xs)
  have "into_collect (IntoHeap xs) = Some xs"
  proof (induction xs)
    case (Cons x xs)
    then show ?case by (subst into_collect.simps) simp
  qed (simp add: into_collect.simps)
  with Heap show ?thesis by simp
qed (use into_inline [of 0] in auto)

section \<open>The contract\<close>

locale vec_spec =
  fixes new :: 'v
    and push :: "'v \<Rightarrow> 'a \<Rightarrow> 'v option"
    and items :: "'v \<Rightarrow> 'a list option"
    and inv :: "'v \<Rightarrow> bool"
    and view :: "'v \<Rightarrow> 'a list"
  assumes new_inv: "inv new" "view new = []"
    and push_view: "inv v \<Longrightarrow> \<exists>v'. push v x = Some v' \<and> inv v' \<and> view v' = view v @ [x]"
    and items_view: "inv v \<Longrightarrow> items v = Some (view v)"
begin

lemma push_all:
  "inv v \<Longrightarrow> \<exists>v'. fold (\<lambda>x r. Option.bind r (\<lambda>v. push v x)) xs (Some v) = Some v' \<and> inv v' \<and> view v' = view v @ xs"
proof (induction xs arbitrary: v)
  case (Cons x xs)
  then obtain v1 where v1: "push v x = Some v1" "inv v1" "view v1 = view v @ [x]" using push_view by blast
  then show ?case using Cons.IH [OF v1(2)] by simp
qed simp

lemma collect_roundtrip:
  "\<exists>v. fold (\<lambda>x r. Option.bind r (\<lambda>v. push v x)) xs (Some new) = Some v \<and> items v = Some xs"
  using push_all [OF new_inv(1), of xs] new_inv(2) items_view by fastforce

end

interpretation sv: vec_spec "SmallVec_new N" "SmallVec_push N" SmallVec_to_list "sv_wf N" sv_list for N :: nat
  by unfold_locales (auto simp: sv_new sv_push sv_iter)

definition sv_from_list :: "nat \<Rightarrow> 'a list \<Rightarrow> 'a SmallVec option" where
  "sv_from_list N xs = fold (\<lambda>x r. Option.bind r (\<lambda>v. SmallVec_push N v x)) xs (Some (SmallVec_new N))"

text \<open>
  A small vector is a list. For every inline capacity, pushing the elements of a
  list one by one never panics, spills to the heap exactly when there are more than the inline
  capacity, and both the borrowing and the consuming iterator return the list in order.
\<close>

theorem smallvec_is_list:
  "\<exists>v. sv_from_list N xs = Some v \<and> SmallVec_to_list v = Some xs
     \<and> into_collect (SmallVec_into_iter v) = Some xs \<and> SmallVec_len v = length xs
     \<and> ((\<exists>h. v = Heap h) \<longleftrightarrow> N < length xs)"
proof -
  obtain v where v: "sv_from_list N xs = Some v" "sv_wf N v" "sv_list v = xs"
    using sv.push_all [OF sv_new(1), of N xs] by (auto simp: sv_from_list_def sv_new)
  moreover have "(\<exists>h. v = Heap h) \<longleftrightarrow> N < length xs" using v(2,3) by (cases v) auto
  ultimately show ?thesis using sv_iter [OF v(2)] sv_into_iter [OF v(2)] sv_len [OF v(2)] by blast
qed

end
