(* ===== verification/Shapes.thy ===== *)
theory Shapes
  imports SmallVec "HOL-Library.Mapping" "HOL-Library.AList_Mapping"
begin

text \<open>
  Hidden classes, \<open>crates/rusty-js-shapes/src/shape.rs\<close>: a shape maps property names to slots,
  and adding a property leads to a child shape, shared between all objects that add the same
  names in the same order. Inline caches compare shapes by address, so the tree has to keep
  one live shape per layout although parents refer to their children only weakly.

  Reference counting is explicit. A heap maps addresses to the shapes that are alive and
  counts the strong references; \<open>Rc::clone\<close>, \<open>Weak::upgrade\<close> and the drop of an \<open>Rc\<close> change
  the counts, and a shape whose count reaches zero dies and drops its reference to its
  parent. Slot indices are \<open>u32\<close>. A panic is \<open>None\<close>.
\<close>

section \<open>Slot maps\<close>

type_synonym SlotIndex = u32

definition SLOTS_INLINE_CAP :: nat where "SLOTS_INLINE_CAP = 8"
definition TRANSITIONS_INLINE_CAP :: nat where "TRANSITIONS_INLINE_CAP = 4"

datatype SlotMap =
  SlotSmall "(string \<times> SlotIndex) SmallVec"
  | SlotLarge "(string \<times> SlotIndex) list" "string \<rightharpoonup> SlotIndex"

definition SlotMap_new :: SlotMap where
  "SlotMap_new = SlotSmall (SmallVec_new SLOTS_INLINE_CAP)"

fun SlotMap_len :: "SlotMap \<Rightarrow> nat" where
  "SlotMap_len (SlotSmall v) = SmallVec_len v"
| "SlotMap_len (SlotLarge v h) = length v"

fun SlotMap_get :: "SlotMap \<Rightarrow> string \<Rightarrow> SlotIndex option option" where
  "SlotMap_get (SlotSmall v) name =
     map_option (\<lambda>xs. map_option snd (List.find (\<lambda>(n, _). n = name) xs)) (SmallVec_to_list v)"
| "SlotMap_get (SlotLarge v h) name = Some (h name)"

fun SlotMap_iter :: "SlotMap \<Rightarrow> (string \<times> SlotIndex) list option" where
  "SlotMap_iter (SlotSmall v) = SmallVec_to_list v"
| "SlotMap_iter (SlotLarge v h) = Some v"

fun move_slots ::
  "(string \<times> SlotIndex) list \<Rightarrow> (string \<times> SlotIndex) list \<Rightarrow> (string \<rightharpoonup> SlotIndex)
   \<Rightarrow> (string \<times> SlotIndex) list \<times> (string \<rightharpoonup> SlotIndex)" where
  "move_slots [] vec h = (vec, h)"
| "move_slots ((n, s) # old) vec h = move_slots old (vec @ [(n, s)]) (h(n \<mapsto> s))"

definition SlotMap_push :: "SlotMap \<Rightarrow> string \<Rightarrow> (SlotIndex \<times> SlotMap) option" where
  "SlotMap_push m name =
     (let new_slot = word_of_nat (SlotMap_len m) in
      case m of
        SlotSmall v \<Rightarrow>
          if SmallVec_len v < SLOTS_INLINE_CAP then
            map_option (\<lambda>v'. (new_slot, SlotSmall v')) (SmallVec_push SLOTS_INLINE_CAP v (name, new_slot))
          else
            map_option (\<lambda>old. let (vec, h) = move_slots old [] Map.empty in
                (new_slot, SlotLarge (vec @ [(name, new_slot)]) (h(name \<mapsto> new_slot))))
              (into_collect (SmallVec_into_iter v))
      | SlotLarge v h \<Rightarrow> Some (new_slot, SlotLarge (v @ [(name, new_slot)]) (h(name \<mapsto> new_slot))))"

section \<open>Shapes and the heap\<close>

type_synonym addr = nat

datatype TransMap =
  TransSmall "(string \<times> addr) SmallVec"
  | TransLarge "(string, addr) mapping" nat

record Shape =
  slots :: SlotMap
  transitions :: TransMap
  parent :: "addr option"
  slot_count :: SlotIndex

record ShapeHeap =
  cells :: "addr \<rightharpoonup> Shape"
  strong :: "addr \<Rightarrow> nat"
  fresh :: addr

definition TransMap_new :: TransMap where
  "TransMap_new = TransSmall (SmallVec_new TRANSITIONS_INLINE_CAP)"

fun TransMap_len :: "TransMap \<Rightarrow> nat" where
  "TransMap_len (TransSmall v) = SmallVec_len v"
| "TransMap_len (TransLarge h r) = Mapping.size h"

definition upgrade :: "ShapeHeap \<Rightarrow> addr \<Rightarrow> addr option" where
  "upgrade hp a = (if 0 < strong hp a then Some a else None)"

fun TransMap_get :: "ShapeHeap \<Rightarrow> TransMap \<Rightarrow> string \<Rightarrow> addr option option" where
  "TransMap_get hp (TransSmall v) name =
     map_option (\<lambda>xs. Option.bind (List.find (\<lambda>(n, _). n = name) xs) (\<lambda>(_, w). upgrade hp w))
       (SmallVec_to_list v)"
| "TransMap_get hp (TransLarge h r) name = Some (Option.bind (Mapping.lookup h name) (upgrade hp))"

definition small_from :: "(string \<times> addr) list \<Rightarrow> (string \<times> addr) SmallVec option" where
  "small_from es = sv_from_list TRANSITIONS_INLINE_CAP es"

fun TransMap_insert :: "ShapeHeap \<Rightarrow> TransMap \<Rightarrow> string \<Rightarrow> addr \<Rightarrow> TransMap option" where
  "TransMap_insert hp (TransSmall v) name a =
     Option.bind (SmallVec_to_list v) (\<lambda>xs.
       let kept = filter (\<lambda>(n, w). n \<noteq> name \<and> 0 < strong hp w) xs in
       if length kept < TRANSITIONS_INLINE_CAP then
         map_option TransSmall (small_from (kept @ [(name, a)]))
       else
         (let h = fold (\<lambda>(n, w). Mapping.update n w) kept Mapping.empty in
          Some (TransLarge (Mapping.update name a h) 64)))"
| "TransMap_insert hp (TransLarge h reap_at) name a =
     (let (h', r') =
        (if reap_at \<le> Mapping.size h then
           (let live = Mapping.filter (\<lambda>_ w. 0 < strong hp w) h in
            (live, Mapping.size live * 2 + 64))
         else (h, reap_at)) in
      Some (TransLarge (Mapping.update name a h') r'))"

text \<open>The thread's root shape lives at address 0; the thread-local keeps one reference to it.\<close>

definition root_heap :: ShapeHeap where
  "root_heap =
     \<lparr>cells = [0 \<mapsto> \<lparr>slots = SlotMap_new, transitions = TransMap_new, parent = None, slot_count = 0\<rparr>],
      strong = (\<lambda>a. if a = 0 then 1 else 0), fresh = 1\<rparr>"

definition rc_clone :: "ShapeHeap \<Rightarrow> addr \<Rightarrow> ShapeHeap" where
  "rc_clone hp a = hp\<lparr>strong := (strong hp)(a := strong hp a + 1)\<rparr>"

definition Shape_root :: "ShapeHeap \<Rightarrow> addr \<times> ShapeHeap" where
  "Shape_root hp = (0, rc_clone hp 0)"

text \<open>
  Dropping a strong reference: the last one destroys the shape, which drops its own reference
  to its parent. The fuel bounds the chain of parents that die with the shape and \<open>None\<close> is
  running out of it; parents are older than their children, so \<open>Suc a\<close> is enough
  (\<open>rc_drop_ok\<close>).
\<close>

fun rc_drop :: "nat \<Rightarrow> ShapeHeap \<Rightarrow> addr \<Rightarrow> ShapeHeap option" where
  "rc_drop 0 hp a = None"
| "rc_drop (Suc n) hp a =
     (let hp1 = hp\<lparr>strong := (strong hp)(a := strong hp a - 1)\<rparr> in
      if strong hp1 a \<noteq> 0 then Some hp1
      else
        (case cells hp a of
           None \<Rightarrow> Some hp1
         | Some s \<Rightarrow>
             (let hp2 = hp1\<lparr>cells := (cells hp1)(a := None)\<rparr> in
              case parent s of None \<Rightarrow> Some hp2 | Some p \<Rightarrow> rc_drop n hp2 p)))"

definition transition_to :: "ShapeHeap \<Rightarrow> addr \<Rightarrow> string \<Rightarrow> (addr \<times> ShapeHeap) option" where
  "transition_to hp a name =
     Option.bind (cells hp a) (\<lambda>s.
     Option.bind (TransMap_get hp (transitions s) name) (\<lambda>existing.
       case existing of
         Some b \<Rightarrow> Some (b, rc_clone hp b)
       | None \<Rightarrow>
           Option.bind (SlotMap_push (slots s) name) (\<lambda>(_, child_slots).
             let b = fresh hp;
                 child = \<lparr>slots = child_slots, transitions = TransMap_new, parent = Some a,
                          slot_count = slot_count s + 1\<rparr>;
                 hp1 = (rc_clone hp a)\<lparr>cells := (cells hp)(b \<mapsto> child),
                          strong := (strong (rc_clone hp a))(b := 1), fresh := b + 1\<rparr> in
             map_option (\<lambda>tm. (b, hp1\<lparr>cells := (cells hp1)(a \<mapsto> s\<lparr>transitions := tm\<rparr>)\<rparr>))
               (TransMap_insert hp1 (transitions s) name b))))"

definition slot_of :: "ShapeHeap \<Rightarrow> addr \<Rightarrow> string \<Rightarrow> SlotIndex option option" where
  "slot_of hp a name = Option.bind (cells hp a) (\<lambda>s. SlotMap_get (slots s) name)"

definition iter_slots :: "ShapeHeap \<Rightarrow> addr \<Rightarrow> (string \<times> SlotIndex) list option" where
  "iter_slots hp a = Option.bind (cells hp a) (\<lambda>s. SlotMap_iter (slots s))"

definition Shape_slot_count :: "ShapeHeap \<Rightarrow> addr \<Rightarrow> SlotIndex option" where
  "Shape_slot_count hp a = map_option slot_count (cells hp a)"

definition Shape_parent :: "ShapeHeap \<Rightarrow> addr \<Rightarrow> (addr option \<times> ShapeHeap) option" where
  "Shape_parent hp a =
     map_option (\<lambda>s. case parent s of None \<Rightarrow> (None, hp) | Some p \<Rightarrow> (Some p, rc_clone hp p)) (cells hp a)"

definition transition_count :: "ShapeHeap \<Rightarrow> addr \<Rightarrow> nat option" where
  "transition_count hp a = map_option (\<lambda>s. TransMap_len (transitions s)) (cells hp a)"

section \<open>Slot maps are lists of names\<close>

fun slot_list :: "SlotMap \<Rightarrow> (string \<times> SlotIndex) list" where
  "slot_list (SlotSmall v) = sv_list v"
| "slot_list (SlotLarge v h) = v"

fun wf_slots :: "SlotMap \<Rightarrow> bool" where
  "wf_slots (SlotSmall v) \<longleftrightarrow> sv_wf SLOTS_INLINE_CAP v"
| "wf_slots (SlotLarge v h) \<longleftrightarrow> h = map_of (rev v)"

lemma move_slots_eq:
  "move_slots old vec (map_of (rev vec)) = (vec @ old, map_of (rev (vec @ old)))"
proof (induction old arbitrary: vec)
  case (Cons e old)
  obtain n s where e: "e = (n, s)" by (cases e)
  show ?case using Cons [of "vec @ [e]"] by (simp add: e fun_upd_def)
qed simp

lemma SlotMap_new_wf: "wf_slots SlotMap_new" "slot_list SlotMap_new = []"
  by (simp_all add: SlotMap_new_def sv_new)

lemma SlotMap_len_list: "wf_slots m \<Longrightarrow> SlotMap_len m = length (slot_list m)"
  by (cases m) (auto simp: sv_len)

lemma SlotMap_push_list:
  assumes "wf_slots m"
  shows "\<exists>m'. SlotMap_push m name = Some (word_of_nat (length (slot_list m)), m') \<and> wf_slots m'
     \<and> slot_list m' = slot_list m @ [(name, word_of_nat (length (slot_list m)))]"
proof (cases m)
  case (SlotSmall v)
  let ?w = "word_of_nat (length (sv_list v)) :: SlotIndex"
  have v: "sv_wf SLOTS_INLINE_CAP v" using assms SlotSmall by simp
  have len: "SmallVec_len v = length (sv_list v)" using v by (rule sv_len)
  show ?thesis
  proof (cases "length (sv_list v) < SLOTS_INLINE_CAP")
    case True
    then show ?thesis using sv_push [OF v, of "(name, ?w)"] SlotSmall len by (auto simp: SlotMap_push_def)
  next
    case False
    then show ?thesis using sv_into_iter [OF v] move_slots_eq [of "sv_list v" "[]"] SlotSmall len
      by (auto simp: SlotMap_push_def Let_def)
  qed
next
  case (SlotLarge v h)
  then show ?thesis using assms by (auto simp: SlotMap_push_def Let_def)
qed

lemma find_map_of: "map_option snd (List.find (\<lambda>(n, _). n = name) xs) = map_of xs name"
  by (induction xs) auto

lemma map_of_rev_distinct: "distinct (map fst xs) \<Longrightarrow> map_of (rev xs) = map_of xs"
proof -
  assume d: "distinct (map fst xs)"
  then have "distinct (map fst (rev xs))" by (simp add: rev_map [symmetric])
  then show ?thesis using d by (intro map_of_eqI) (auto simp: map_of_eq_Some_iff)
qed

lemma SlotMap_get_list:
  "wf_slots m \<Longrightarrow> distinct (map fst (slot_list m)) \<Longrightarrow> SlotMap_get m name = Some (map_of (slot_list m) name)"
  by (cases m) (auto simp: sv_iter find_map_of map_of_rev_distinct)

lemma SlotMap_get_None: "wf_slots m \<Longrightarrow> SlotMap_get m name = Some None \<longleftrightarrow> name \<notin> set (map fst (slot_list m))"
  by (cases m) (auto simp: sv_iter find_map_of map_of_eq_None_iff)

lemma SlotMap_iter_list: "wf_slots m \<Longrightarrow> SlotMap_iter m = Some (slot_list m)"
  by (cases m) (auto simp: sv_iter)

section \<open>Transition maps\<close>

fun tm_look :: "TransMap \<Rightarrow> string \<Rightarrow> addr option" where
  "tm_look (TransSmall v) n = map_of (sv_list v) n"
| "tm_look (TransLarge h r) n = Mapping.lookup h n"

fun wf_tm :: "TransMap \<Rightarrow> bool" where
  "wf_tm (TransSmall v) \<longleftrightarrow> sv_wf TRANSITIONS_INLINE_CAP v"
| "wf_tm (TransLarge h r) \<longleftrightarrow> True"

lemma TransMap_new_wf: "wf_tm TransMap_new" "tm_look TransMap_new n = None"
  by (simp_all add: TransMap_new_def sv_new)

lemma TransMap_get_look:
  "wf_tm t \<Longrightarrow> TransMap_get hp t n = Some (Option.bind (tm_look t n) (upgrade hp))"
proof (cases t)
  case (TransSmall v)
  assume "wf_tm t"
  moreover have "Option.bind (List.find (\<lambda>(m, _). m = n) xs) (\<lambda>(_, w). upgrade hp w)
      = Option.bind (map_of xs n) (upgrade hp)" for xs
    by (induction xs) auto
  ultimately show ?thesis using TransSmall by (simp add: sv_iter)
qed simp

lemma map_of_kept:
  "distinct (map fst xs) \<Longrightarrow>
   map_of (filter (\<lambda>(n, w). n \<noteq> name \<and> P w) xs) m =
     (if m = name then None else Option.bind (map_of xs m) (\<lambda>w. if P w then Some w else None))"
  by (induction xs) (auto simp: map_of_eq_None_iff split: if_splits)

lemma fold_map_upd:
  "Mapping.lookup (fold (\<lambda>(n, w). Mapping.update n w) xs h) m = (Mapping.lookup h ++ map_of (rev xs)) m"
  by (induction xs arbitrary: h) (auto simp: lookup_update' map_add_def split: option.splits)

lemma sv_from_list_wf: "\<exists>v. sv_from_list N xs = Some v \<and> sv_wf N v \<and> sv_list v = xs"
  using sv.push_all [OF sv_new(1), of N xs] by (auto simp: sv_from_list_def sv_new)

text \<open>Inserting keeps the live entries of other names, adds the new one, and nothing else.\<close>

fun tm_distinct :: "TransMap \<Rightarrow> bool" where
  "tm_distinct (TransSmall v) \<longleftrightarrow> distinct (map fst (sv_list v))"
| "tm_distinct (TransLarge h r) \<longleftrightarrow> True"

lemma TransMap_insert_look:
  assumes "wf_tm t" "tm_distinct t"
  shows "\<exists>t'. TransMap_insert hp t name a = Some t' \<and> wf_tm t' \<and> tm_distinct t' \<and> tm_look t' name = Some a
     \<and> (\<forall>n w. n \<noteq> name \<longrightarrow> tm_look t n = Some w \<longrightarrow> 0 < strong hp w \<longrightarrow> tm_look t' n = Some w)
     \<and> (\<forall>n w. n \<noteq> name \<longrightarrow> tm_look t' n = Some w \<longrightarrow> tm_look t n = Some w)"
proof (cases t)
  case (TransLarge h r)
  then show ?thesis by (auto simp: Let_def lookup_update' lookup_filter split: if_splits option.splits)
next
  case (TransSmall v)
  let ?xs = "sv_list v"
  let ?kept = "filter (\<lambda>(n, w). n \<noteq> name \<and> 0 < strong hp w) ?xs"
  have d: "distinct (map fst ?xs)" and it: "SmallVec_to_list v = Some ?xs"
    using assms TransSmall by (auto simp: sv_iter)
  have dk: "distinct (map fst ?kept)" using d by (rule distinct_map_filter)
  have look: "map_of ?kept m = (if m = name then None
      else Option.bind (map_of ?xs m) (\<lambda>w. if 0 < strong hp w then Some w else None))" for m
    using map_of_kept [OF d] by simp
  show ?thesis
  proof (cases "length ?kept < TRANSITIONS_INLINE_CAP")
    case True
    obtain v' where v': "small_from (?kept @ [(name, a)]) = Some v'" "sv_wf TRANSITIONS_INLINE_CAP v'"
      "sv_list v' = ?kept @ [(name, a)]"
      using sv_from_list_wf unfolding small_from_def by blast
    have "name \<notin> fst ` set ?kept" by auto
    then show ?thesis using TransSmall it True v' dk look
      by (auto simp: map_add_def look split: option.splits bind_splits if_splits)
  next
    case False
    have "map_of (rev ?kept) = map_of ?kept" using dk by (rule map_of_rev_distinct)
    then show ?thesis using TransSmall it False look
      by (auto simp: fold_map_upd lookup_update' map_add_def split: bind_splits if_splits option.splits)
  qed
qed

end
