(* ===== verification/Shape_Tree.thy ===== *)
theory Shape_Tree
  imports Shapes
begin

text \<open>
  The shape tree under every sequence of operations: reference counts are exact, a live shape
  is found through its parent, and two live shapes with the same names are the same shape.
  The clients of the tree are abstracted by the number of handles they hold on each address;
  a step is one call of the public interface (\<open>Shape::root\<close>, \<open>transition_to\<close>, \<open>parent\<close>,
  \<open>Rc::clone\<close>) or the drop of a handle.
\<close>

section \<open>Invariant\<close>

definition names :: "Shape \<Rightarrow> string list" where
  "names s = map fst (slot_list (slots s))"

definition extends :: "Shape \<Rightarrow> string \<Rightarrow> Shape \<Rightarrow> bool" where
  "extends sp n s \<longleftrightarrow>
     slot_list (slots s) = slot_list (slots sp) @ [(n, word_of_nat (length (slot_list (slots sp))))]"

definition shape_wf :: "Shape \<Rightarrow> bool" where
  "shape_wf s \<longleftrightarrow> wf_slots (slots s) \<and> wf_tm (transitions s) \<and> tm_distinct (transitions s)
     \<and> slot_count s = word_of_nat (length (names s))"

definition parent_ok :: "ShapeHeap \<Rightarrow> addr \<Rightarrow> Shape \<Rightarrow> bool" where
  "parent_ok hp a s \<longleftrightarrow>
     (case parent s of
        None \<Rightarrow> a = 0 \<and> slot_list (slots s) = []
      | Some p \<Rightarrow> p < a \<and> (\<exists>sp n. cells hp p = Some sp \<and> extends sp n s \<and> tm_look (transitions sp) n = Some a))"

definition trans_ok :: "ShapeHeap \<Rightarrow> addr \<Rightarrow> Shape \<Rightarrow> bool" where
  "trans_ok hp a s \<longleftrightarrow> (\<forall>n c. tm_look (transitions s) n = Some c \<longrightarrow> c < fresh hp
     \<and> (\<forall>sc. cells hp c = Some sc \<longrightarrow> parent sc = Some a \<and> extends s n sc))"

definition layout_ok :: "ShapeHeap \<Rightarrow> bool" where
  "layout_ok hp \<longleftrightarrow> (\<forall>a s. cells hp a = Some s \<longrightarrow>
     a < fresh hp \<and> shape_wf s \<and> parent_ok hp a s \<and> trans_ok hp a s)"

definition children :: "ShapeHeap \<Rightarrow> addr \<Rightarrow> addr set" where
  "children hp a = {c. \<exists>s. cells hp c = Some s \<and> parent s = Some a}"

definition counts_ok :: "ShapeHeap \<Rightarrow> (addr \<Rightarrow> nat) \<Rightarrow> bool" where
  "counts_ok hp held \<longleftrightarrow> (\<forall>a. strong hp a = held a + card (children hp a) + (if a = 0 then 1 else 0)
     \<and> (cells hp a \<noteq> None \<longleftrightarrow> 0 < strong hp a))"

definition tree_ok :: "ShapeHeap \<Rightarrow> (addr \<Rightarrow> nat) \<Rightarrow> bool" where
  "tree_ok hp held \<longleftrightarrow> layout_ok hp \<and> counts_ok hp held"

section \<open>Facts of the invariant\<close>

lemma layout_okD:
  assumes "layout_ok hp" "cells hp a = Some s"
  shows "a < fresh hp" "shape_wf s" "parent_ok hp a s" "trans_ok hp a s"
  using assms by (auto simp: layout_ok_def)

lemma finite_children [simp]: "layout_ok hp \<Longrightarrow> finite (children hp a)"
proof (rule finite_subset [of _ "{..<fresh hp}"])
  show "layout_ok hp \<Longrightarrow> children hp a \<subseteq> {..<fresh hp}" by (auto simp: children_def dest: layout_okD)
qed simp

lemma counts_okD:
  assumes "counts_ok hp held"
  shows "strong hp a = held a + card (children hp a) + (if a = 0 then 1 else 0)"
    "(\<exists>s. cells hp a = Some s) \<longleftrightarrow> 0 < strong hp a"
  using assms unfolding counts_ok_def by blast+

lemma held_alive: "counts_ok hp held \<Longrightarrow> 0 < held a \<Longrightarrow> \<exists>s. cells hp a = Some s"
  by (simp add: counts_okD)

lemma root_alive: "counts_ok hp held \<Longrightarrow> \<exists>s. cells hp 0 = Some s"
  by (simp add: counts_okD)

lemma names_extends: "extends sp n s \<Longrightarrow> names s = names sp @ [n]"
  by (simp add: extends_def names_def)

lemma up_cases:
  assumes "layout_ok hp" "cells hp a = Some s"
  obtains (root) "parent s = None" "a = 0" "names s = []"
  | (child) p sp n where "parent s = Some p" "p < a" "cells hp p = Some sp" "extends sp n s"
      "tm_look (transitions sp) n = Some a"
proof (cases "parent s")
  case None
  then show ?thesis using layout_okD(3) [OF assms] root by (simp add: parent_ok_def names_def)
next
  case (Some p)
  then show ?thesis using layout_okD(3) [OF assms] child by (auto simp: parent_ok_def)
qed

lemma same_names_same_shape:
  assumes L: "layout_ok hp"
  shows "cells hp a = Some sa \<Longrightarrow> cells hp b = Some sb \<Longrightarrow> names sa = names sb \<Longrightarrow> a = b"
proof (induction "length (names sa)" arbitrary: a b sa sb)
  case 0
  have "c = 0" if "cells hp c = Some s" "names s = []" for c s
    using that(2) by (cases rule: up_cases [OF L that(1)]) (auto dest: names_extends)
  then have "a = 0" "b = 0" using 0 by auto
  then show ?case by simp
next
  case (Suc k)
  have up: "\<exists>p sp n. cells hp p = Some sp \<and> names s = names sp @ [n] \<and> tm_look (transitions sp) n = Some c"
    if "cells hp c = Some s" "length (names s) = Suc k" for c s
    using that(2) by (cases rule: up_cases [OF L that(1)]) (auto dest: names_extends)
  obtain p sp n where p: "cells hp p = Some sp" "names sa = names sp @ [n]" "tm_look (transitions sp) n = Some a"
    using up [OF Suc.prems(1)] Suc.hyps(2) by auto
  obtain q sq m where q: "cells hp q = Some sq" "names sb = names sq @ [m]" "tm_look (transitions sq) m = Some b"
    using up [OF Suc.prems(2)] Suc.hyps(2) Suc.prems(3) by auto
  have "names sp = names sq" "n = m" using p q Suc.prems(3) by auto
  moreover have "k = length (names sp)" using p(2) Suc.hyps(2) by simp
  then have "p = q" using Suc.hyps(1) [OF _ p(1) q(1)] \<open>names sp = names sq\<close> by blast
  ultimately show ?case using p(1,3) q(1,3) by simp
qed

text \<open>Slots are numbered in the order of the names.\<close>

lemma slot_list_numbered:
  assumes L: "layout_ok hp"
  shows "cells hp a = Some s \<Longrightarrow> slot_list (slots s) = zip (names s) (map word_of_nat [0..<length (names s)])"
proof (induction "length (names s)" arbitrary: a s)
  case 0
  then show ?case by (simp add: names_def)
next
  case (Suc k)
  obtain p sp n where p: "cells hp p = Some sp" "extends sp n s"
    using Suc.hyps(2) by (cases rule: up_cases [OF L Suc.prems]) auto
  have "k = length (names sp)" using Suc.hyps(2) names_extends [OF p(2)] by simp
  then have "slot_list (slots sp) = zip (names sp) (map word_of_nat [0..<length (names sp)])"
    using Suc.hyps(1) p(1) by blast
  moreover have "slot_list (slots s) = slot_list (slots sp) @ [(n, word_of_nat (length (names sp)))]"
    using p(2) by (simp add: extends_def names_def)
  ultimately show ?case unfolding names_extends [OF p(2)] by simp
qed

section \<open>Operations keep the invariant\<close>

lemma rc_clone_simps [simp]:
  "cells (rc_clone hp a) = cells hp" "fresh (rc_clone hp a) = fresh hp"
  "children (rc_clone hp a) b = children hp b"
  "strong (rc_clone hp a) = (strong hp)(a := strong hp a + 1)"
  by (auto simp: rc_clone_def children_def)

lemma layout_ok_strong [simp]: "layout_ok (hp\<lparr>strong := f\<rparr>) = layout_ok hp"
  by (simp add: layout_ok_def parent_ok_def trans_ok_def cong: option.case_cong)

lemma children_strong [simp]: "children (hp\<lparr>strong := f\<rparr>) a = children hp a"
  by (simp add: children_def)

lemma tree_ok_clone:
  assumes "tree_ok hp held" "0 < strong hp a"
  shows "tree_ok (rc_clone hp a) (held(a := held a + 1))"
proof -
  have "layout_ok (rc_clone hp a)" using assms by (simp add: tree_ok_def rc_clone_def)
  then show ?thesis using assms by (auto simp: tree_ok_def counts_ok_def)
qed

lemma tree_ok_root: "tree_ok root_heap (\<lambda>_. 0)"
proof -
  have "children root_heap a = {}" for a by (auto simp: children_def root_heap_def split: if_splits)
  moreover have "layout_ok root_heap"
    by (simp add: layout_ok_def root_heap_def shape_wf_def parent_ok_def trans_ok_def names_def
        SlotMap_new_wf TransMap_new_wf) (simp add: TransMap_new_def sv_new)
  ultimately show ?thesis by (simp add: tree_ok_def counts_ok_def root_heap_def)
qed

text \<open>Creating the child.\<close>

definition with_child :: "ShapeHeap \<Rightarrow> addr \<Rightarrow> Shape \<Rightarrow> TransMap \<Rightarrow> Shape \<Rightarrow> ShapeHeap" where
  "with_child hp a s tm child =
     hp\<lparr>cells := (cells hp)(fresh hp \<mapsto> child, a \<mapsto> s\<lparr>transitions := tm\<rparr>),
        strong := (strong hp)(a := strong hp a + 1, fresh hp := 1), fresh := fresh hp + 1\<rparr>"

lemma fresh_dead:
  assumes "tree_ok hp held"
  shows "cells hp (fresh hp) = None" "strong hp (fresh hp) = 0" "held (fresh hp) = 0"
    "children hp (fresh hp) = {}" "fresh hp \<noteq> 0"
proof -
  have L: "layout_ok hp" and C: "counts_ok hp held" using assms by (auto simp: tree_ok_def)
  show dead: "cells hp (fresh hp) = None" using layout_okD(1) [OF L] by (cases "cells hp (fresh hp)") auto
  then show "strong hp (fresh hp) = 0" using counts_okD(2) [OF C] by (metis gr0I option.distinct(1))
  then show "held (fresh hp) = 0" "fresh hp \<noteq> 0"
    using counts_okD(1) [OF C, of "fresh hp"] by (auto split: if_splits)
  show "children hp (fresh hp) = {}"
  proof (rule ccontr)
    assume "children hp (fresh hp) \<noteq> {}"
    then obtain c s where "cells hp c = Some s" "parent s = Some (fresh hp)" by (auto simp: children_def)
    then show False using dead by (cases rule: up_cases [OF L]) auto
  qed
qed

lemma layout_ok_with_child:
  assumes T: "tree_ok hp held" and a: "cells hp a = Some s"
    and miss: "\<And>c. tm_look (transitions s) n = Some c \<Longrightarrow> cells hp c = None"
    and tm: "wf_tm tm" "tm_distinct tm" "tm_look tm n = Some (fresh hp)"
      "\<And>m w. m \<noteq> n \<Longrightarrow> tm_look (transitions s) m = Some w \<Longrightarrow> cells hp w \<noteq> None \<Longrightarrow> tm_look tm m = Some w"
      "\<And>m w. m \<noteq> n \<Longrightarrow> tm_look tm m = Some w \<Longrightarrow> tm_look (transitions s) m = Some w"
    and ch: "shape_wf ch" "extends s n ch" "parent ch = Some a" "transitions ch = TransMap_new"
  shows "layout_ok (with_child hp a s tm ch)" (is "layout_ok ?hp")
proof -
  have L: "layout_ok hp" using T by (simp add: tree_ok_def)
  have b: "cells hp (fresh hp) = None" using fresh_dead [OF T] by simp
  have ab: "a < fresh hp" using layout_okD(1) [OF L a] .
  let ?s = "s\<lparr>transitions := tm\<rparr>"
  have new: "cells ?hp (fresh hp) = Some ch" "cells ?hp a = Some ?s" "fresh ?hp = Suc (fresh hp)"
    using ab by (auto simp: with_child_def)
  have old: "cells ?hp c = cells hp c" if "c \<noteq> a" "c \<noteq> fresh hp" for c using that by (simp add: with_child_def)
  have ext: "extends ?s = extends s" "\<And>p m. extends p m ?s = extends p m s"
    by (auto simp: fun_eq_iff extends_def names_def)
  have look: "cells ?hp c = Some t \<Longrightarrow> c < fresh hp \<Longrightarrow>
      \<exists>t'. cells hp c = Some t' \<and> parent t = parent t' \<and> slots t = slots t'" for c t
    using old new a by (cases "c = a") auto
  have ok: "trans_ok ?hp c t" if t: "cells hp c = Some t" "c \<noteq> a" for c t
    using layout_okD(4) [OF L t(1)] look new(3)
    by (fastforce simp: trans_ok_def extends_def less_Suc_eq)
  have oks: "trans_ok ?hp a ?s"
  proof -
    have "d < fresh ?hp \<and> (\<forall>sc. cells ?hp d = Some sc \<longrightarrow> parent sc = Some a \<and> extends ?s m sc)"
      if d: "tm_look tm m = Some d" for m d
    proof (cases "m = n")
      case True
      then show ?thesis using d tm(3) new ch ext by auto
    next
      case False
      then have "tm_look (transitions s) m = Some d" using d tm(5) by blast
      then show ?thesis using layout_okD(4) [OF L a] look new(3) ext
        by (fastforce simp: trans_ok_def extends_def less_Suc_eq)
    qed
    then show ?thesis by (simp add: trans_ok_def)
  qed
  have par: "parent_ok ?hp c t" if t: "cells hp c = Some t" for c t
    using L t
  proof (cases rule: up_cases)
    case root
    then show ?thesis by (simp add: parent_ok_def names_def)
  next
    case (child p sp m)
    have "\<exists>sp'. cells ?hp p = Some sp' \<and> extends sp' m t \<and> tm_look (transitions sp') m = Some c"
    proof (cases "p = a")
      case True
      then have "sp = s" using child a by simp
      moreover have "m \<noteq> n" using child miss t \<open>sp = s\<close> by auto
      ultimately show ?thesis using True child tm(4) t new ext by auto
    next
      case False
      then show ?thesis using child old b by (metis option.distinct(1))
    qed
    then show ?thesis using child by (auto simp: parent_ok_def)
  qed
  have par': "parent_ok ?hp a ?s" using par [OF a] by (simp add: parent_ok_def ext cong: option.case_cong)
  have wf: "shape_wf ?s" using layout_okD(2) [OF L a] tm by (simp add: shape_wf_def names_def)
  have chok: "parent_ok ?hp (fresh hp) ch" "trans_ok ?hp (fresh hp) ch"
    using ch new ab tm(3) ext by (auto simp: parent_ok_def trans_ok_def TransMap_new_wf)
  show ?thesis unfolding layout_ok_def
  proof (intro allI impI)
    fix c t assume t: "cells ?hp c = Some t"
    consider "c = a" | "c = fresh hp" | "c \<noteq> a" "c \<noteq> fresh hp" by blast
    then show "c < fresh ?hp \<and> shape_wf t \<and> parent_ok ?hp c t \<and> trans_ok ?hp c t"
    proof cases
      case 1
      then show ?thesis using t new wf par' oks ab by auto
    next
      case 2
      then show ?thesis using t new ch chok by auto
    next
      case 3
      then show ?thesis using t old new(3) layout_okD [OF L, of c t] par ok by auto
    qed
  qed
qed

lemma counts_ok_with_child:
  assumes T: "tree_ok hp held" and a: "cells hp a = Some s" and ch: "parent ch = Some a"
  shows "counts_ok (with_child hp a s tm ch) (held(fresh hp := held (fresh hp) + 1))"
proof -
  have L: "layout_ok hp" and C: "counts_ok hp held" using T by (auto simp: tree_ok_def)
  note f = fresh_dead [OF T]
  have ab: "a \<noteq> fresh hp" using f a by auto
  have kids: "children (with_child hp a s tm ch) x = children hp x \<union> (if x = a then {fresh hp} else {})" for x
    using a ch f(1) ab by (auto simp: children_def with_child_def split: if_splits)
  have "fresh hp \<notin> children hp x" for x using f(1) by (simp add: children_def)
  then have card: "card (children (with_child hp a s tm ch) x) = card (children hp x) + (if x = a then 1 else 0)" for x
    using L by (simp add: kids)
  show ?thesis unfolding counts_ok_def card
    using counts_okD [OF C] f ab a by (auto simp: with_child_def)
qed

lemma with_child_eq:
  "((rc_clone hp a)\<lparr>cells := (cells hp)(fresh hp \<mapsto> ch),
      strong := (strong (rc_clone hp a))(fresh hp := 1), fresh := fresh hp + 1\<rparr>)
    \<lparr>cells := (cells ((rc_clone hp a)\<lparr>cells := (cells hp)(fresh hp \<mapsto> ch),
      strong := (strong (rc_clone hp a))(fresh hp := 1), fresh := fresh hp + 1\<rparr>))
        (a \<mapsto> s\<lparr>transitions := tm\<rparr>)\<rparr>
   = with_child hp a s tm ch"
  by (simp add: with_child_def rc_clone_def)

definition keeps_layouts :: "ShapeHeap \<Rightarrow> ShapeHeap \<Rightarrow> bool" where
  "keeps_layouts hp hp' \<longleftrightarrow> (\<forall>c t. cells hp c = Some t \<longrightarrow>
     (\<exists>t'. cells hp' c = Some t' \<and> slots t' = slots t \<and> parent t' = parent t))"

lemma keeps_layoutsD:
  assumes "keeps_layouts hp hp'" "cells hp c = Some t"
  obtains t' where "cells hp' c = Some t'" "slots t' = slots t" "names t' = names t"
proof -
  obtain t' where "cells hp' c = Some t'" "slots t' = slots t"
    using assms unfolding keeps_layouts_def by blast
  then show thesis using that by (simp add: names_def)
qed

lemma child_shape:
  assumes "shape_wf s" "SlotMap_push (slots s) n = Some (k, m)"
    and "ch = \<lparr>slots = m, transitions = TransMap_new, parent = Some a, slot_count = slot_count s + 1\<rparr>"
  shows "shape_wf ch \<and> extends s n ch"
proof -
  have m: "wf_slots m" "slot_list m = slot_list (slots s) @ [(n, word_of_nat (length (slot_list (slots s))))]"
    using SlotMap_push_list [of "slots s" n] assms by (auto simp: shape_wf_def)
  have "tm_distinct TransMap_new" by (simp add: TransMap_new_def sv_new)
  then show ?thesis using assms m TransMap_new_wf
    by (auto simp: shape_wf_def extends_def names_def)
qed

lemma transition_to_ok:
  assumes T: "tree_ok hp held" and a: "cells hp a = Some s"
  shows "\<exists>b hp' sb. transition_to hp a n = Some (b, hp') \<and> tree_ok hp' (held(b := held b + 1))
     \<and> cells hp' b = Some sb \<and> names sb = names s @ [n] \<and> keeps_layouts hp hp'"
proof -
  have L: "layout_ok hp" and C: "counts_ok hp held" using T by (auto simp: tree_ok_def)
  have wf: "shape_wf s" using layout_okD(2) [OF L a] .
  then have wtm: "wf_tm (transitions s)" "tm_distinct (transitions s)" by (auto simp: shape_wf_def)
  have get: "TransMap_get hp (transitions s) n = Some (Option.bind (tm_look (transitions s) n) (upgrade hp))"
    using wtm by (simp add: TransMap_get_look)
  show ?thesis
  proof (cases "Option.bind (tm_look (transitions s) n) (upgrade hp)")
    case (Some b)
    then have b: "tm_look (transitions s) n = Some b" "0 < strong hp b"
      by (auto simp: upgrade_def split: bind_splits if_splits)
    then obtain sb where sb: "cells hp b = Some sb" using counts_okD(2) [OF C] by blast
    then have "extends s n sb" using layout_okD(4) [OF L a] b by (simp add: trans_ok_def)
    then show ?thesis using tree_ok_clone [OF T b(2)] a get Some sb names_extends
      by (auto simp: transition_to_def keeps_layouts_def)
  next
    case None
    have miss: "cells hp c = None" if "tm_look (transitions s) n = Some c" for c
      using None that counts_okD(2) [OF C, of c] by (auto simp: upgrade_def split: if_splits)
    obtain k m where push: "SlotMap_push (slots s) n = Some (k, m)"
      using SlotMap_push_list [of "slots s" n] wf by (auto simp: shape_wf_def)
    let ?ch = "\<lparr>slots = m, transitions = TransMap_new, parent = Some a, slot_count = slot_count s + 1\<rparr>"
    let ?hp1 = "(rc_clone hp a)\<lparr>cells := (cells hp)(fresh hp \<mapsto> ?ch),
      strong := (strong (rc_clone hp a))(fresh hp := 1), fresh := fresh hp + 1\<rparr>"
    obtain tm where tm: "TransMap_insert ?hp1 (transitions s) n (fresh hp) = Some tm" "wf_tm tm" "tm_distinct tm"
      "tm_look tm n = Some (fresh hp)"
      "\<And>m w. m \<noteq> n \<Longrightarrow> tm_look (transitions s) m = Some w \<Longrightarrow> 0 < strong ?hp1 w \<Longrightarrow> tm_look tm m = Some w"
      "\<And>m w. m \<noteq> n \<Longrightarrow> tm_look tm m = Some w \<Longrightarrow> tm_look (transitions s) m = Some w"
      using TransMap_insert_look [OF wtm, of ?hp1 n "fresh hp"] by blast
    have live: "cells hp w \<noteq> None \<Longrightarrow> 0 < strong ?hp1 w" for w
      using counts_okD(2) [OF C, of w] by auto
    have ch: "shape_wf ?ch" "extends s n ?ch" using child_shape [OF wf push refl] by auto
    have "layout_ok (with_child hp a s tm ?ch)"
    proof (rule layout_ok_with_child [OF T a _ tm(2-4) _ _ ch])
      show "cells hp c = None" if "tm_look (transitions s) n = Some c" for c using miss that .
      show "tm_look tm m = Some w" if "m \<noteq> n" "tm_look (transitions s) m = Some w" "cells hp w \<noteq> None" for m w
        using tm(5) live that by blast
      show "tm_look (transitions s) m = Some w" if "m \<noteq> n" "tm_look tm m = Some w" for m w
        using tm(6) that by blast
    qed simp_all
    then have ok: "tree_ok (with_child hp a s tm ?ch) (held(fresh hp := held (fresh hp) + 1))"
      using counts_ok_with_child [OF T a, of ?ch] by (simp add: tree_ok_def)
    have res: "transition_to hp a n = Some (fresh hp, with_child hp a s tm ?ch)"
      using a get None push tm(1) unfolding transition_to_def Let_def with_child_eq by simp
    have fa: "fresh hp \<noteq> a" "cells hp (fresh hp) = None" using fresh_dead [OF T] a by auto
    have "keeps_layouts hp (with_child hp a s tm ?ch)"
      using a fa by (auto simp: keeps_layouts_def with_child_def)
    moreover have "cells (with_child hp a s tm ?ch) (fresh hp) = Some ?ch" using fa by (simp add: with_child_def)
    ultimately show ?thesis using res ok names_extends [OF ch(2)] by blast
  qed
qed

text \<open>Dropping a handle, and with it the shapes nothing refers to any more.\<close>

lemma tree_ok_die:
  assumes T: "tree_ok hp held" and a: "cells hp a = Some s" "held a = 1" "strong hp a = 1" "parent s = Some p"
  defines "hp2 \<equiv> hp\<lparr>strong := (strong hp)(a := 0), cells := (cells hp)(a := None)\<rparr>"
  shows "tree_ok hp2 (held(a := 0, p := held p + 1))"
proof -
  have L: "layout_ok hp" and C: "counts_ok hp held" using T by (auto simp: tree_ok_def)
  have "p < a" using a(4) by (cases rule: up_cases [OF L a(1)]) auto
  have "card (children hp a) = 0" using counts_okD(1) [OF C, of a] a by simp
  then have none: "children hp a = {}" using L by simp
  have par: "parent_ok hp2 c t" if "cells hp c = Some t" "c \<noteq> a" for c t
  proof (cases "parent t")
    case None
    then show ?thesis using layout_okD(3) [OF L that(1)] by (simp add: parent_ok_def)
  next
    case (Some q)
    then have "q \<noteq> a" using none that by (auto simp: children_def)
    then show ?thesis using Some layout_okD(3) [OF L that(1)] by (simp add: parent_ok_def hp2_def)
  qed
  have "layout_ok hp2"
    using layout_okD [OF L] par by (auto simp: layout_ok_def hp2_def trans_ok_def split: if_splits)
  moreover have kids: "children hp2 x = children hp x - {a}" for x by (auto simp: children_def hp2_def)
  have "a \<in> children hp x \<longleftrightarrow> x = p" for x using a by (auto simp: children_def)
  then have "card (children hp2 x) = card (children hp x) - (if x = p then 1 else 0)"
    "x = p \<Longrightarrow> 0 < card (children hp x)" for x
    using L unfolding kids by (auto simp: card_gt_0_iff)
  then have "counts_ok hp2 (held(a := 0, p := held p + 1))"
    using counts_okD [OF C] \<open>p < a\<close> none unfolding counts_ok_def by (auto simp: hp2_def)
  ultimately show ?thesis by (simp add: tree_ok_def)
qed

lemma rc_drop_ok:
  "tree_ok hp held \<Longrightarrow> 0 < held a \<Longrightarrow> a < k \<Longrightarrow>
   \<exists>hp'. rc_drop k hp a = Some hp' \<and> tree_ok hp' (held(a := held a - 1)) \<and> cells hp' \<subseteq>\<^sub>m cells hp"
proof (induction k arbitrary: hp held a)
  case (Suc k)
  have L: "layout_ok hp" and C: "counts_ok hp held" using Suc.prems by (auto simp: tree_ok_def)
  have st: "strong hp a = held a + card (children hp a) + (if a = 0 then 1 else 0)" using counts_okD(1) [OF C] .
  obtain s where a: "cells hp a = Some s" using held_alive [OF C] Suc.prems by blast
  show ?case
  proof (cases "strong hp a - 1 = 0")
    case False
    let ?hp1 = "hp\<lparr>strong := (strong hp)(a := strong hp a - 1)\<rparr>"
    have "tree_ok ?hp1 (held(a := held a - 1))"
      using False Suc.prems counts_okD [OF C] L by (auto simp: tree_ok_def counts_ok_def)
    moreover have "rc_drop (Suc k) hp a = Some ?hp1" using False by simp
    moreover have "cells ?hp1 \<subseteq>\<^sub>m cells hp" by simp
    ultimately show ?thesis by blast
  next
    case True
    then have one: "held a = 1" "strong hp a = 1" "a \<noteq> 0" using st Suc.prems by (auto split: if_splits)
    then obtain p where p: "parent s = Some p" "p < a" by (cases rule: up_cases [OF L a]) auto
    let ?hp2 = "hp\<lparr>strong := (strong hp)(a := 0), cells := (cells hp)(a := None)\<rparr>"
    let ?held = "held(a := 0, p := held p + 1)"
    obtain hp' where hp': "rc_drop k ?hp2 p = Some hp'" "tree_ok hp' (?held(p := ?held p - 1))"
      "cells hp' \<subseteq>\<^sub>m cells ?hp2"
    proof -
      have "0 < ?held p" "p < k" using p Suc.prems by auto
      then show ?thesis using Suc.IH [OF tree_ok_die [OF Suc.prems(1) a one(1,2) p(1)]] that by blast
    qed
    have "?held(p := ?held p - 1) = held(a := held a - 1)" using p one by auto
    moreover have "cells hp' \<subseteq>\<^sub>m cells hp" by (rule map_le_trans [OF hp'(3)]) simp
    moreover have "rc_drop (Suc k) hp a = Some hp'" using hp'(1) a one p by simp
    ultimately show ?thesis using hp'(2) by metis
  qed
qed simp

section \<open>Sequences of operations\<close>

text \<open>
  The state is the heap together with the number of handles the clients hold on each shape.
  \<open>transition_to\<close> does not look whether the shape has the name already; the object layer of the
  runtime asks \<open>slot_of\<close> first, a client of the crate need not.
\<close>

inductive shape_step :: "ShapeHeap \<Rightarrow> (addr \<Rightarrow> nat) \<Rightarrow> ShapeHeap \<Rightarrow> (addr \<Rightarrow> nat) \<Rightarrow> bool" where
  step_root: "Shape_root hp = (a, hp') \<Longrightarrow> shape_step hp held hp' (held(a := held a + 1))"
| step_clone: "0 < held a \<Longrightarrow> shape_step hp held (rc_clone hp a) (held(a := held a + 1))"
| step_transition: "0 < held a \<Longrightarrow> transition_to hp a n = Some (b, hp')
    \<Longrightarrow> shape_step hp held hp' (held(b := held b + 1))"
| step_parent: "0 < held a \<Longrightarrow> Shape_parent hp a = Some (Some p, hp') \<Longrightarrow> shape_step hp held hp' (held(p := held p + 1))"
| step_drop: "0 < held a \<Longrightarrow> rc_drop (Suc a) hp a = Some hp' \<Longrightarrow> shape_step hp held hp' (held(a := held a - 1))"

inductive shape_reachable :: "ShapeHeap \<Rightarrow> (addr \<Rightarrow> nat) \<Rightarrow> bool" where
  reach_init: "shape_reachable root_heap (\<lambda>_. 0)"
| reach_step: "shape_reachable hp held \<Longrightarrow> shape_step hp held hp' held' \<Longrightarrow> shape_reachable hp' held'"

inductive_cases shape_stepE: "shape_step hp held hp' held'"

lemma slot_of_names:
  "layout_ok hp \<Longrightarrow> cells hp a = Some s \<Longrightarrow> distinct (names s) \<Longrightarrow> slot_of hp a n = Some (map_of (slot_list (slots s)) n)"
  using layout_okD(2) [of hp a s] by (simp add: slot_of_def shape_wf_def names_def SlotMap_get_list)

lemma slot_of_None:
  "layout_ok hp \<Longrightarrow> cells hp a = Some s \<Longrightarrow> slot_of hp a n = Some None \<longleftrightarrow> n \<notin> set (names s)"
  using layout_okD(2) [of hp a s] SlotMap_get_None [of "slots s" n] by (simp add: slot_of_def shape_wf_def names_def)

lemma iter_slots_list: "layout_ok hp \<Longrightarrow> iter_slots hp a = map_option (\<lambda>s. slot_list (slots s)) (cells hp a)"
  using layout_okD(2) [of hp a] by (cases "cells hp a") (simp_all add: iter_slots_def shape_wf_def SlotMap_iter_list)

lemma step_tree_ok:
  assumes "shape_step hp held hp' held'" and T: "tree_ok hp held"
  shows "tree_ok hp' held'"
proof -
  have L: "layout_ok hp" and C: "counts_ok hp held" using T by (auto simp: tree_ok_def)
  show ?thesis using assms(1)
  proof cases
    case (step_root a)
    have "0 < strong hp 0" using counts_okD(1) [OF C, of 0] by simp
    then show ?thesis using step_root tree_ok_clone [OF T] by (auto simp: Shape_root_def)
  next
    case (step_clone a)
    then show ?thesis using tree_ok_clone [OF T] counts_okD(1) [OF C, of a] by simp
  next
    case (step_transition a n b)
    obtain s where s: "cells hp a = Some s" using held_alive [OF C] step_transition by blast
    then show ?thesis using transition_to_ok [OF T s, of n] step_transition by force
  next
    case (step_parent a p)
    then obtain s where s: "cells hp a = Some s" "parent s = Some p" "hp' = rc_clone hp p"
      by (auto simp: Shape_parent_def split: option.splits)
    have "0 < strong hp p" using s(2) counts_okD(2) [OF C, of p] by (cases rule: up_cases [OF L s(1)]) auto
    then show ?thesis using s step_parent tree_ok_clone [OF T] by simp
  next
    case (step_drop a)
    then show ?thesis using rc_drop_ok [OF T, of a "Suc a"] by force
  qed
qed

lemma reachable_tree_ok: "shape_reachable hp held \<Longrightarrow> tree_ok hp held"
  by (induction rule: shape_reachable.induct) (auto intro: tree_ok_root step_tree_ok)

lemma transition_again:
  assumes T: "tree_ok hp held" and a: "cells hp a = Some s"
    and res: "transition_to hp a n = Some (b, hp')"
  shows "\<exists>hp''. transition_to hp' a n = Some (b, hp'')"
proof -
  obtain sb where T': "tree_ok hp' (held(b := held b + 1))" and b: "cells hp' b = Some sb"
    and nb: "names sb = names s @ [n]" and keep: "keeps_layouts hp hp'"
    using transition_to_ok [OF T a, of n] res by force
  obtain s' where s': "cells hp' a = Some s'" "names s' = names s"
    using keeps_layoutsD [OF keep a] by blast
  obtain c hp'' sc where T'': "tree_ok hp'' ((held(b := held b + 1))(c := (held(b := held b + 1)) c + 1))"
    and c: "transition_to hp' a n = Some (c, hp'')" "cells hp'' c = Some sc" "names sc = names s @ [n]"
    and keep': "keeps_layouts hp' hp''"
    using transition_to_ok [OF T' s'(1)] s'(2) by metis
  obtain sb' where "cells hp'' b = Some sb'" "names sb' = names sb"
    using keeps_layoutsD [OF keep' b] by blast
  then have "b = c" using same_names_same_shape [of hp'' b sb' c sc] T'' c nb by (simp add: tree_ok_def)
  then show ?thesis using c by blast
qed

lemma no_handles_only_root:
  assumes T: "tree_ok hp held" and "\<And>a. held a = 0"
  shows "dom (cells hp) = {0}"
proof -
  have L: "layout_ok hp" and C: "counts_ok hp held" using T by (auto simp: tree_ok_def)
  have fin: "finite (dom (cells hp))"
  proof (rule finite_subset)
    show "dom (cells hp) \<subseteq> {..<fresh hp}" using layout_okD(1) [OF L] by auto
  qed simp
  let ?m = "Max (dom (cells hp))"
  have "?m \<in> dom (cells hp)" using root_alive [OF C] fin by (intro Max_in) auto
  moreover have "children hp ?m = {}"
  proof (rule ccontr)
    assume "children hp ?m \<noteq> {}"
    then obtain c s where c: "cells hp c = Some s" "parent s = Some ?m" by (auto simp: children_def)
    then have "?m < c" by (cases rule: up_cases [OF L c(1)]) auto
    then show False using Max_ge [OF fin, of c] c by auto
  qed
  ultimately have "?m = 0" using counts_okD [OF C, of ?m] assms(2) by (auto split: if_splits)
  then have "dom (cells hp) \<subseteq> {0}" using Max_ge [OF fin] by fastforce
  then show ?thesis using root_alive [OF C] by auto
qed

section \<open>Properties\<close>

text \<open>
  Property C3: after every sequence of operations two live shapes are at the same address
  exactly when they have the same property names in the same order. This is what the inline
  caches rely on when they compare shape addresses; it survives children dying and being
  created again, and the promotion of both maps.
\<close>

theorem shape_identity:
  assumes "shape_reachable hp held" "iter_slots hp a = Some xs" "iter_slots hp b = Some ys"
  shows "a = b \<longleftrightarrow> map fst xs = map fst ys"
proof -
  have L: "layout_ok hp" using reachable_tree_ok [OF assms(1)] by (simp add: tree_ok_def)
  obtain sa sb where s: "cells hp a = Some sa" "cells hp b = Some sb" "map fst xs = names sa" "map fst ys = names sb"
    using assms(2,3) by (auto simp: iter_slots_list [OF L] names_def)
  then show ?thesis using same_names_same_shape [OF L s(1,2)] by auto
qed

text \<open>
  Adding a name to a shape one holds a handle on never panics and gives the shape
  whose slots are the old ones followed by the new name at the next index; every other shape
  keeps its slots, and asking for the same transition again gives the same shape. The new shape
  finds the new name at the new slot if the old one did not have it, and, if the names were
  distinct, all others where they were.
\<close>

theorem transition_to_exact:
  assumes "shape_reachable hp held" "0 < held a"
  shows "\<exists>xs b hp' hp''. iter_slots hp a = Some xs \<and> transition_to hp a n = Some (b, hp')
     \<and> iter_slots hp' b = Some (xs @ [(n, word_of_nat (length xs))])
     \<and> Shape_slot_count hp' b = Some (word_of_nat (length xs + 1))
     \<and> (slot_of hp a n = Some None \<and> distinct (map fst xs) \<longrightarrow>
          slot_of hp' b n = Some (Some (word_of_nat (length xs))) \<and> (\<forall>m. m \<noteq> n \<longrightarrow> slot_of hp' b m = slot_of hp a m))
     \<and> (\<forall>c ys. iter_slots hp c = Some ys \<longrightarrow> iter_slots hp' c = Some ys)
     \<and> transition_to hp' a n = Some (b, hp'')"
proof -
  have T: "tree_ok hp held" using reachable_tree_ok [OF assms(1)] .
  then have L: "layout_ok hp" and C: "counts_ok hp held" by (auto simp: tree_ok_def)
  obtain s where s: "cells hp a = Some s" using held_alive [OF C assms(2)] by blast
  obtain b hp' sb where b: "transition_to hp a n = Some (b, hp')" "tree_ok hp' (held(b := held b + 1))"
    "cells hp' b = Some sb" "names sb = names s @ [n]" "keeps_layouts hp hp'"
    using transition_to_ok [OF T s] by blast
  have L': "layout_ok hp'" using b(2) by (simp add: tree_ok_def)
  have wf: "shape_wf sb" using layout_okD(2) [OF L' b(3)] .
  let ?xs = "slot_list (slots s)"
  have len: "length ?xs = length (names s)" by (simp add: names_def)
  have sl: "slot_list (slots sb) = ?xs @ [(n, word_of_nat (length ?xs))]"
    using slot_list_numbered [OF L s] slot_list_numbered [OF L' b(3)] b(4) len by simp
  have "iter_slots hp' c = Some ys" if "iter_slots hp c = Some ys" for c ys
    using that by (auto simp: iter_slots_list [OF L] iter_slots_list [OF L'] elim: keeps_layoutsD [OF b(5)])
  moreover have "slot_of hp' b n = Some (Some (word_of_nat (length ?xs))) \<and> (\<forall>m. m \<noteq> n \<longrightarrow> slot_of hp' b m = slot_of hp a m)"
    if "slot_of hp a n = Some None" "distinct (map fst ?xs)"
  proof -
    have n: "n \<notin> set (names s)" and d: "distinct (names s)" using that slot_of_None [OF L s] by (simp_all add: names_def)
    then have d': "distinct (names sb)" by (simp add: b(4))
    have "map_of ?xs n = None" using n by (simp add: names_def map_of_eq_None_iff)
    then show ?thesis by (simp add: slot_of_names [OF L s d] slot_of_names [OF L' b(3) d'] sl map_add_def split: option.splits)
  qed
  moreover have "Shape_slot_count hp' b = Some (word_of_nat (length ?xs + 1))"
    using wf b(3,4) len by (simp add: Shape_slot_count_def shape_wf_def)
  moreover have "iter_slots hp a = Some ?xs" "iter_slots hp' b = Some (?xs @ [(n, word_of_nat (length ?xs))])"
    using s b(3) sl by (simp_all add: iter_slots_list [OF L] iter_slots_list [OF L'])
  ultimately show ?thesis using b(1) transition_again [OF T s b(1)] by blast
qed

text \<open>
  Property C35: reference counting is safe and complete after every sequence of operations. A
  shape on which a handle is held is alive, its slots are numbered from 0 without gaps, and
  dropping the handle terminates; once no handle is held, only the thread's root shape is left.
  The names of a shape need not be distinct: \<open>transition_to\<close> on a shape with distinct names gives
  one with distinct names exactly when \<open>slot_of\<close> does not find the name, which the operation itself
  does not check.
\<close>

theorem shape_memory_safe:
  assumes "shape_reachable hp held"
  shows "(\<forall>a. 0 < held a \<longrightarrow> (\<exists>xs hp'. iter_slots hp a = Some xs
       \<and> map snd xs = map word_of_nat [0..<length xs] \<and> rc_drop (Suc a) hp a = Some hp'
       \<and> (distinct (map fst xs) \<longrightarrow> (\<forall>n. \<exists>b hp'' ys. transition_to hp a n = Some (b, hp'') \<and> iter_slots hp'' b = Some ys
            \<and> (distinct (map fst ys) \<longleftrightarrow> slot_of hp a n = Some None)))))
     \<and> ((\<forall>a. held a = 0) \<longrightarrow> dom (cells hp) = {0})"
proof (intro conjI allI impI)
  have T: "tree_ok hp held" using reachable_tree_ok [OF assms] .
  then have L: "layout_ok hp" and C: "counts_ok hp held" by (auto simp: tree_ok_def)
  fix a assume h: "0 < held a"
  obtain s where s: "cells hp a = Some s" using held_alive [OF C h] by blast
  obtain hp' where "rc_drop (Suc a) hp a = Some hp'" using rc_drop_ok [OF T h, of "Suc a"] by auto
  moreover have "map snd (slot_list (slots s)) = map word_of_nat [0..<length (slot_list (slots s))]"
    by (subst (1 2) slot_list_numbered [OF L s]) simp
  moreover have "\<exists>b hp'' ys. transition_to hp a n = Some (b, hp'') \<and> iter_slots hp'' b = Some ys
      \<and> (distinct (map fst ys) \<longleftrightarrow> slot_of hp a n = Some None)" if "distinct (map fst (slot_list (slots s)))" for n
  proof -
    obtain b hp'' sb where b: "transition_to hp a n = Some (b, hp'')" "tree_ok hp'' (held(b := held b + 1))"
      "cells hp'' b = Some sb" "names sb = names s @ [n]"
      using transition_to_ok [OF T s] by blast
    then have "iter_slots hp'' b = Some (slot_list (slots sb))" by (simp add: tree_ok_def iter_slots_list)
    moreover have "distinct (map fst (slot_list (slots sb))) \<longleftrightarrow> slot_of hp a n = Some None"
      using b(4) that slot_of_None [OF L s] by (simp add: names_def)
    ultimately show ?thesis using b(1) by blast
  qed
  ultimately show "\<exists>xs hp'. iter_slots hp a = Some xs
       \<and> map snd xs = map word_of_nat [0..<length xs] \<and> rc_drop (Suc a) hp a = Some hp'
       \<and> (distinct (map fst xs) \<longrightarrow> (\<forall>n. \<exists>b hp'' ys. transition_to hp a n = Some (b, hp'') \<and> iter_slots hp'' b = Some ys
            \<and> (distinct (map fst ys) \<longleftrightarrow> slot_of hp a n = Some None)))"
    using s by (auto simp: iter_slots_list [OF L])
next
  show "\<forall>a. held a = 0 \<Longrightarrow> dom (cells hp) = {0}"
    using no_handles_only_root [OF reachable_tree_ok [OF assms]] by blast
qed

section \<open>Witnesses\<close>

text \<open>A handle on the root, then the object \<open>{x}\<close>.\<close>

definition heap_x :: ShapeHeap where
  "heap_x = snd (the (transition_to (rc_clone root_heap 0) 0 ''x''))"

lemma reach_root_handle: "shape_reachable (rc_clone root_heap 0) ((\<lambda>_. 0)(0 := 1))"
proof -
  have "shape_step root_heap (\<lambda>_. 0) (rc_clone root_heap 0) ((\<lambda>_. 0)(0 := (\<lambda>_. 0) 0 + 1))"
    by (rule step_root) (simp add: Shape_root_def)
  then show ?thesis using reach_step [OF reach_init] by simp
qed

lemma heap_x_result: "transition_to (rc_clone root_heap 0) 0 ''x'' = Some (1, heap_x)"
proof -
  have "map_option fst (transition_to (rc_clone root_heap 0) 0 ''x'') = Some 1" by code_simp
  then show ?thesis by (auto simp: heap_x_def)
qed

lemma heap_x_slots: "iter_slots heap_x 0 = Some []" "iter_slots heap_x 1 = Some [(''x'', 0)]"
  by code_simp+

lemma reach_x: "shape_reachable heap_x ((\<lambda>_. 0)(0 := 1, 1 := 1))"
  using reach_step [OF reach_root_handle step_transition [OF _ heap_x_result]] by simp

lemma shape_identity_witness: "(1::nat) = 0 \<longleftrightarrow> map fst [(''x'', 0::u32)] = map fst ([] :: (string \<times> u32) list)"
  by (rule shape_identity [OF reach_x heap_x_slots(2,1)])

lemma transition_to_exact_witness: "\<exists>b hp'. transition_to (rc_clone root_heap 0) 0 ''x'' = Some (b, hp')"
proof -
  have "0 < ((\<lambda>_. 0)(0 := 1) :: addr \<Rightarrow> nat) 0" by simp
  from transition_to_exact [OF reach_root_handle this] show ?thesis by blast
qed

text \<open>Adding \<open>x\<close> to \<open>{x}\<close> gives a shape with the name twice.\<close>

lemma shape_memory_safe_witness:
  "\<exists>hp' b hp'' ys. rc_drop (Suc 1) heap_x 1 = Some hp' \<and> transition_to heap_x 1 ''x'' = Some (b, hp'')
     \<and> iter_slots hp'' b = Some ys \<and> \<not> distinct (map fst ys)"
proof -
  have "0 < ((\<lambda>_. 0)(0 := 1, 1 := 1) :: addr \<Rightarrow> nat) 1" by simp
  then obtain hp' where "rc_drop (Suc 1) heap_x 1 = Some hp'"
    and "\<forall>n. \<exists>b hp'' ys. transition_to heap_x 1 n = Some (b, hp'') \<and> iter_slots hp'' b = Some ys
      \<and> (distinct (map fst ys) \<longleftrightarrow> slot_of heap_x 1 n = Some None)"
    using shape_memory_safe [OF reach_x, THEN conjunct1, rule_format] heap_x_slots(2) by force
  moreover have "slot_of heap_x 1 ''x'' \<noteq> Some None" by code_simp
  ultimately show ?thesis by metis
qed

end
