(* ===== verification/Basen.thy ===== *)
theory Basen
  imports Utf8
begin

unbundle bit_operations_syntax

text \<open>
  The base-N codec \<open>crates/rusty-js-basen/src/lib.rs\<close> behind hexadecimal, base32, base64 and
  base64url text, used for package integrity strings, data URLs and percent triplets.

  The accumulator is a \<open>u32\<close> that keeps all the bits shifted into it, so the high ones fall
  off; \<open>symbol_bits\<close> and the bit counter are \<open>u8\<close> in the source and naturals here (the counter
  stays below 16). Text is a byte string; \<open>push\<close> of a byte as a character is its UTF-8
  encoding. \<open>None\<close> is a panic (an index out of range), \<open>Inl\<close> an error.
\<close>

section \<open>ASCII\<close>

definition is_ascii_upper :: "char \<Rightarrow> bool" where
  "is_ascii_upper c \<longleftrightarrow> 65 \<le> byte c \<and> byte c \<le> 90"

definition is_ascii_lower :: "char \<Rightarrow> bool" where
  "is_ascii_lower c \<longleftrightarrow> 97 \<le> byte c \<and> byte c \<le> 122"

definition is_ascii_alphabetic :: "char \<Rightarrow> bool" where
  "is_ascii_alphabetic c \<longleftrightarrow> is_ascii_upper c \<or> is_ascii_lower c"

definition to_ascii_lowercase :: "char \<Rightarrow> char" where
  "to_ascii_lowercase c = (if is_ascii_upper c then char_of (byte c + 32) else c)"

definition to_ascii_uppercase :: "char \<Rightarrow> char" where
  "to_ascii_uppercase c = (if is_ascii_lower c then char_of (byte c - 32) else c)"

section \<open>Encodings\<close>

datatype BaseNError =
  InvalidAlphabet | InvalidLength | InvalidByte char | NonZeroTrailingBits | DataAfterPadding

datatype Padding = PadRequired | PadOptional | PadNone

record Encoding =
  alphabet :: str
  symbol_bits :: nat
  padding :: Padding
  case_insensitive_decode :: bool

definition new_unchecked :: "str \<Rightarrow> nat \<Rightarrow> Padding \<Rightarrow> bool \<Rightarrow> Encoding" where
  "new_unchecked a n p ci = \<lparr>alphabet = a, symbol_bits = n, padding = p, case_insensitive_decode = ci\<rparr>"

definition BASE16_LOWER :: Encoding where
  "BASE16_LOWER = new_unchecked ''0123456789abcdef'' 4 PadNone True"

definition BASE32 :: Encoding where
  "BASE32 = new_unchecked ''ABCDEFGHIJKLMNOPQRSTUVWXYZ234567'' 5 PadOptional True"

definition BASE64 :: Encoding where
  "BASE64 =
     new_unchecked ''ABCDEFGHIJKLMNOPQRSTUVWXYZabcdefghijklmnopqrstuvwxyz0123456789+/'' 6 PadOptional False"

definition BASE64URL :: Encoding where
  "BASE64URL =
     new_unchecked ''ABCDEFGHIJKLMNOPQRSTUVWXYZabcdefghijklmnopqrstuvwxyz0123456789-_'' 6 PadOptional False"

definition validate :: "Encoding \<Rightarrow> BaseNError + unit" where
  "validate e =
     (if symbol_bits e = 0 \<or> 8 \<le> symbol_bits e then Inl InvalidAlphabet
      else if length (alphabet e) \<noteq> 2 ^ symbol_bits e then Inl InvalidAlphabet
      else Inr ())"

function gcd_loop :: "nat \<Rightarrow> nat \<Rightarrow> nat" where
  "gcd_loop a b = (if b \<noteq> 0 then gcd_loop b (a mod b) else a)"
  by pat_completeness auto
termination
  by (relation "measure snd") auto

declare gcd_loop.simps [simp del]

definition output_quantum :: "nat \<Rightarrow> nat" where
  "output_quantum n = 8 div gcd_loop 8 n"

definition invalid_symbol_remainder :: "nat \<Rightarrow> nat \<Rightarrow> bool" where
  "invalid_symbol_remainder n symbols \<longleftrightarrow>
     (if n = 4 then symbols mod 2 = 1
      else if n = 5 then symbols mod 8 = 1 \<or> symbols mod 8 = 3 \<or> symbols mod 8 = 6
      else if n = 6 then symbols mod 4 = 1
      else False)"

section \<open>Encoding bytes\<close>

text \<open>\<open>out.push(self.alphabet[idx] as char)\<close>: a panic when the index is out of range.\<close>

definition push_symbol :: "Encoding \<Rightarrow> str \<Rightarrow> u32 \<Rightarrow> str option" where
  "push_symbol e out idx =
     (if unat idx < length (alphabet e) then Some (out @ utf8_encode (byte (alphabet e ! unat idx))) else None)"

text \<open>The inner loop; \<open>validate\<close> has made sure that \<open>symbol_bits\<close> is positive.\<close>

function encode_drain :: "Encoding \<Rightarrow> u32 \<Rightarrow> nat \<Rightarrow> str \<Rightarrow> (nat \<times> str) option" where
  "encode_drain e acc bits out =
     (if 0 < symbol_bits e \<and> symbol_bits e \<le> bits then
        (let bits' = bits - symbol_bits e in
         Option.bind (push_symbol e out (drop_bit bits' acc AND (push_bit (symbol_bits e) 1 - 1)))
           (encode_drain e acc bits'))
      else Some (bits, out))"
  by pat_completeness auto
termination
  by (relation "measure (\<lambda>(e, acc, bits, out). bits)") auto

declare encode_drain.simps [simp del]

fun encode_loop :: "Encoding \<Rightarrow> bytes \<Rightarrow> u32 \<Rightarrow> nat \<Rightarrow> str \<Rightarrow> (u32 \<times> nat \<times> str) option" where
  "encode_loop e [] acc bits out = Some (acc, bits, out)"
| "encode_loop e (b # bs) acc bits out =
     (let acc' = push_bit 8 acc OR ucast b in
      Option.bind (encode_drain e acc' (bits + 8) out) (\<lambda>(bits', out'). encode_loop e bs acc' bits' out'))"

function pad_loop :: "nat \<Rightarrow> str \<Rightarrow> str option" where
  "pad_loop quantum out =
     (if quantum = 0 then None
      else if length out mod quantum \<noteq> 0 then pad_loop quantum (out @ ''='')
      else Some out)"
  by pat_completeness auto
termination
  by (relation "measure (\<lambda>(q, out). (q - length out mod q) mod q)") (auto simp: mod_Suc intro!: diff_less_mono2)

declare pad_loop.simps [simp del]

definition encode :: "Encoding \<Rightarrow> bytes \<Rightarrow> (BaseNError + str) option" where
  "encode e input =
     (case validate e of
        Inl err \<Rightarrow> Some (Inl err)
      | Inr _ \<Rightarrow>
          Option.bind (encode_loop e input 0 0 []) (\<lambda>(acc, bits, out).
          Option.bind
            (if 0 < bits then
               push_symbol e out (push_bit (symbol_bits e - bits) acc AND (push_bit (symbol_bits e) 1 - 1))
             else Some out) (\<lambda>out1.
          map_option Inr
            (if padding e \<in> {PadRequired, PadOptional} then pad_loop (output_quantum (symbol_bits e)) out1
             else Some out1))))"

section \<open>Decoding text\<close>

fun fill_lut :: "bool \<Rightarrow> nat \<Rightarrow> str \<Rightarrow> u8 list \<Rightarrow> u8 list" where
  "fill_lut ci idx [] lut = lut"
| "fill_lut ci idx (b # bs) lut =
     (let lut1 = lut[byte b := word_of_nat idx];
          lut2 = (if ci \<and> is_ascii_alphabetic b then
                    (lut1[byte (to_ascii_lowercase b) := word_of_nat idx])
                      [byte (to_ascii_uppercase b) := word_of_nat idx]
                  else lut1) in
      fill_lut ci (idx + 1) bs lut2)"

function decode_drain :: "u32 \<Rightarrow> nat \<Rightarrow> bytes \<Rightarrow> nat \<times> bytes" where
  "decode_drain acc bits out =
     (if 8 \<le> bits then decode_drain acc (bits - 8) (out @ [ucast (drop_bit (bits - 8) acc AND 0xff)])
      else (bits, out))"
  by pat_completeness auto
termination
  by (relation "measure (\<lambda>(acc, bits, out). bits)") auto

declare decode_drain.simps [simp del]

fun decode_loop ::
  "Encoding \<Rightarrow> u8 list \<Rightarrow> str \<Rightarrow> u32 \<Rightarrow> nat \<Rightarrow> nat \<Rightarrow> bool \<Rightarrow> bytes
   \<Rightarrow> BaseNError + u32 \<times> nat \<times> nat \<times> bytes" where
  "decode_loop e lut [] acc bits symbols saw_padding out = Inr (acc, bits, symbols, out)"
| "decode_loop e lut (b # bs) acc bits symbols saw_padding out =
     (if b = CHR ''='' then
        (if padding e = PadNone then Inl (InvalidByte b)
         else decode_loop e lut bs acc bits symbols True out)
      else if saw_padding then Inl DataAfterPadding
      else
        (let v = lut ! byte b in
         if v = 255 then Inl (InvalidByte b)
         else
           (let acc' = push_bit (symbol_bits e) acc OR ucast v;
                (bits', out') = decode_drain acc' (bits + symbol_bits e) out in
            decode_loop e lut bs acc' bits' (symbols + 1) saw_padding out')))"

definition decode :: "Encoding \<Rightarrow> str \<Rightarrow> BaseNError + bytes" where
  "decode e input =
     rbind (validate e) (\<lambda>_.
     rbind (decode_loop e (fill_lut (case_insensitive_decode e) 0 (alphabet e) (replicate 256 255))
              input 0 0 0 False []) (\<lambda>(acc, bits, symbols, out).
       if invalid_symbol_remainder (symbol_bits e) symbols then Inl InvalidLength
       else if 0 < bits \<and> acc AND (push_bit bits 1 - 1) \<noteq> 0 then Inl NonZeroTrailingBits
       else Inr out))"

section \<open>The public functions\<close>

fun unwrap_or_default :: "(BaseNError + str) option \<Rightarrow> str option" where
  "unwrap_or_default None = None"
| "unwrap_or_default (Some (Inl e)) = Some []"
| "unwrap_or_default (Some (Inr s)) = Some s"

definition encode_base16_lower :: "bytes \<Rightarrow> str option" where
  "encode_base16_lower input = unwrap_or_default (encode BASE16_LOWER input)"

definition decode_base16 :: "str \<Rightarrow> BaseNError + bytes" where
  "decode_base16 input = decode BASE16_LOWER input"

definition encode_base32 :: "bytes \<Rightarrow> str option" where
  "encode_base32 input = unwrap_or_default (encode BASE32 input)"

definition decode_base32 :: "str \<Rightarrow> BaseNError + bytes" where
  "decode_base32 input = decode BASE32 input"

definition encode_base64 :: "bytes \<Rightarrow> str option" where
  "encode_base64 input = unwrap_or_default (encode BASE64 input)"

definition decode_base64 :: "str \<Rightarrow> BaseNError + bytes" where
  "decode_base64 input = decode BASE64 input"

definition encode_base64url :: "bytes \<Rightarrow> bool \<Rightarrow> str option" where
  "encode_base64url input pad =
     unwrap_or_default (encode (new_unchecked (alphabet BASE64URL) (symbol_bits BASE64URL)
       (if pad then PadRequired else PadNone) False) input)"

definition decode_base64url :: "str \<Rightarrow> BaseNError + bytes" where
  "decode_base64url input = decode BASE64URL input"

end
