(* ===== verification/Basen_Props.thy ===== *)
theory Basen_Props
  imports Basen
begin

unbundle bit_operations_syntax

text \<open>
  What the base-N codec computes. Both directions regroup a stream of bits: the encoder from
  8-bit to \<open>symbol_bits\<close>-bit digits and the decoder back. \<open>pump\<close> is that regrouping on digits,
  stated once; its lemma says that it preserves the number the digits write. The round trip
  and the exact set of texts that decode then follow by arithmetic.
\<close>

section \<open>Regrouping digits\<close>

definition radix_val :: "nat \<Rightarrow> nat list \<Rightarrow> nat" where
  "radix_val k xs = foldl (\<lambda>v x. v * 2 ^ k + x) 0 xs"

definition digits :: "nat \<Rightarrow> nat list \<Rightarrow> bool" where
  "digits k xs \<longleftrightarrow> (\<forall>x\<in>set xs. x < 2 ^ k)"

lemma digits_simps [simp]: "digits k []" "digits k (x # xs) \<longleftrightarrow> x < 2 ^ k \<and> digits k xs"
  "digits k (xs @ ys) \<longleftrightarrow> digits k xs \<and> digits k ys"
  by (auto simp: digits_def)

lemma foldl_val: "foldl (\<lambda>v x. v * 2 ^ k + x) a xs = a * 2 ^ (k * length xs) + foldl (\<lambda>v x. v * 2 ^ k + x) (0::nat) xs"
proof (induction xs arbitrary: a)
  case (Cons x xs)
  show ?case using Cons [of "a * 2 ^ k + x"] Cons [of x] by (simp add: algebra_simps power_add)
qed simp

lemma radix_val_simps [simp]: "radix_val k [] = 0"
  "radix_val k (x # xs) = x * 2 ^ (k * length xs) + radix_val k xs"
  "radix_val k (xs @ ys) = radix_val k xs * 2 ^ (k * length ys) + radix_val k ys"
  using foldl_val [of k x xs] foldl_val [of k "foldl (\<lambda>v x. v * 2 ^ k + x) 0 xs" ys] by (simp_all add: radix_val_def)

lemma radix_val_less: "digits k xs \<Longrightarrow> radix_val k xs < 2 ^ (k * length xs)"
proof (induction xs)
  case (Cons x xs)
  then have "x * 2 ^ (k * length xs) + radix_val k xs < (x + 1) * 2 ^ (k * length xs)" by simp
  also have "\<dots> \<le> 2 ^ k * 2 ^ (k * length xs)" using Cons.prems by (intro mult_right_mono) auto
  finally show ?case by (simp add: power_add)
qed simp

lemma radix_val_inj:
  "digits k xs \<Longrightarrow> digits k ys \<Longrightarrow> length xs = length ys \<Longrightarrow> radix_val k xs = radix_val k ys \<Longrightarrow> xs = ys"
proof (induction xs arbitrary: ys)
  case (Cons x xs)
  obtain y zs where y: "ys = y # zs" "length zs = length xs"
    using Cons.prems(3) by (metis Suc_length_conv length_Cons)
  let ?P = "2 ^ (k * length xs) :: nat"
  have eq: "x * ?P + radix_val k xs = y * ?P + radix_val k zs" using Cons.prems y by simp
  have lt: "radix_val k xs < ?P" "radix_val k zs < ?P"
    using Cons.prems y radix_val_less [of k xs] radix_val_less [of k zs] by auto
  have "x = (x * ?P + radix_val k xs) div ?P" "y = (y * ?P + radix_val k zs) div ?P" using lt by auto
  then have xy: "x = y" using eq by simp
  then have "radix_val k xs = radix_val k zs" using eq by simp
  then have "xs = zs" using Cons.IH [of zs] Cons.prems y by simp
  then show ?case using xy y by simp
qed simp

text \<open>The accumulator: what a shift brings in and what a mask takes out.\<close>

lemma push_or_add:
  assumes "x < 2 ^ k"
  shows "push_bit k n OR x = n * 2 ^ k + (x :: nat)"
proof -
  have "push_bit k n AND x = 0"
  proof (rule bit_eqI)
    fix i
    have "\<not> bit x i" if "k \<le> i"
    proof -
      have "x < 2 ^ i" using assms that by (meson le_trans not_le power_increasing one_le_numeral)
      then show ?thesis by (simp add: bit_iff_odd)
    qed
    then show "bit (push_bit k n AND x) i = bit 0 i" by (auto simp: bit_and_iff bit_push_bit_iff)
  qed
  then show ?thesis by (simp add: push_bit_eq_mult flip: disjunctive_add_eq_or)
qed

lemma acc_shift_in:
  assumes "bits + k \<le> 32" "x < 2 ^ k"
  shows "unat (push_bit k acc OR word_of_nat x :: u32) mod 2 ^ (bits + k) = unat acc mod 2 ^ bits * 2 ^ k + x"
proof -
  have "x < 2 ^ (bits + k)" using assms(2) by (meson le_add2 less_le_trans one_le_numeral power_increasing)
  moreover have "(2::nat) ^ (bits + k) \<le> 2 ^ 32" using assms(1) by (intro power_increasing) auto
  ultimately have x: "take_bit (bits + k) x = x" "unat (word_of_nat x :: u32) = x"
    by (simp_all add: take_bit_nat_eq_self unat_of_nat)
  have "unat (push_bit k acc OR word_of_nat x :: u32) mod 2 ^ (bits + k)
      = take_bit (bits + k) (take_bit 32 (push_bit k (unat acc)) OR x)"
    by (simp add: take_bit_eq_mod unsigned_or_eq unsigned_push_bit_eq x flip: take_bit_eq_mod)
  also have "\<dots> = push_bit k (take_bit bits (unat acc)) OR x"
  proof -
    have "min (bits + k) 32 = bits + k" using assms(1) by simp
    then have "take_bit (bits + k) (take_bit 32 (push_bit k (unat acc))) = push_bit k (take_bit bits (unat acc))"
      by (simp only: take_bit_take_bit take_bit_push_bit add_diff_cancel_right')
    then show ?thesis by (simp only: take_bit_or x)
  qed
  finally show ?thesis using push_or_add [OF assms(2)] by (simp add: take_bit_eq_mod)
qed

lemma acc_take_out:
  assumes "bits + k \<le> 32"
  shows "unat (drop_bit bits acc AND mask k :: u32) = unat acc mod 2 ^ (bits + k) div 2 ^ bits"
proof -
  have "unat (drop_bit bits acc AND mask k) = take_bit k (drop_bit bits (unat acc))"
    by (simp add: unsigned_take_bit_eq unat_drop_bit_eq flip: take_bit_eq_mask)
  also have "\<dots> = drop_bit bits (take_bit (bits + k) (unat acc))" by (simp add: take_bit_drop_bit add.commute)
  finally show ?thesis by (simp add: take_bit_eq_mod drop_bit_eq_div)
qed

function pump :: "nat \<Rightarrow> u32 \<Rightarrow> nat \<Rightarrow> nat list" where
  "pump k acc bits =
     (if 0 < k \<and> k \<le> bits then unat (drop_bit (bits - k) acc AND mask k) # pump k acc (bits - k) else [])"
  by pat_completeness auto
termination
  by (relation "measure (\<lambda>(k, acc, bits). bits)") auto

declare pump.simps [simp del]

lemma pump_val:
  assumes "0 < k" "bits \<le> 32"
  shows "digits k (pump k acc bits) \<and> k * length (pump k acc bits) + bits mod k = bits
     \<and> unat acc mod 2 ^ bits
        = radix_val k (pump k acc bits) * 2 ^ (bits mod k) + unat acc mod 2 ^ (bits mod k)"
  using assms
proof (induction k acc bits rule: pump.induct)
  case (1 k acc bits)
  show ?case
  proof (cases "k \<le> bits")
    case False
    then show ?thesis by (simp add: pump.simps)
  next
    case True
    let ?b = "bits - k"
    let ?d = "unat (drop_bit ?b acc AND mask k)"
    have IH: "digits k (pump k acc ?b)" "k * length (pump k acc ?b) + ?b mod k = ?b"
      "unat acc mod 2 ^ ?b = radix_val k (pump k acc ?b) * 2 ^ (?b mod k) + unat acc mod 2 ^ (?b mod k)"
      using 1 True by auto
    have m: "?b mod k = bits mod k" using True by (simp add: le_mod_geq)
    have d: "?d = unat acc mod 2 ^ bits div 2 ^ ?b" using acc_take_out [of ?b k acc] True 1 by simp
    have "?d < 2 ^ k"
    proof -
      have "unat acc mod 2 ^ bits < 2 ^ k * 2 ^ ?b" using True by (simp flip: power_add)
      then show ?thesis unfolding d by (simp add: less_mult_imp_div_less)
    qed
    moreover have "unat acc mod 2 ^ bits = ?d * 2 ^ ?b + unat acc mod 2 ^ ?b"
    proof -
      have "unat acc mod 2 ^ bits mod 2 ^ ?b = unat acc mod 2 ^ ?b"
        by (simp add: mod_mod_cancel le_imp_power_dvd)
      then show ?thesis unfolding d by (metis div_mult_mod_eq)
    qed
    moreover have "(2::nat) ^ ?b = 2 ^ (k * length (pump k acc ?b)) * 2 ^ (bits mod k)"
      using IH(2) m by (metis power_add)
    moreover have "pump k acc bits = ?d # pump k acc ?b" using 1 True by (simp add: pump.simps [of k acc bits])
    ultimately show ?thesis using IH m True by (simp add: algebra_simps)
  qed
qed

fun pump_all :: "nat \<Rightarrow> nat \<Rightarrow> nat list \<Rightarrow> u32 \<Rightarrow> nat \<Rightarrow> nat list \<times> u32 \<times> nat" where
  "pump_all a b [] acc bits = ([], acc, bits)"
| "pump_all a b (x # xs) acc bits =
     (let acc' = push_bit a acc OR word_of_nat x;
          (ys, acc'', bits') = pump_all a b xs acc' ((bits + a) mod b) in
      (pump b acc' (bits + a) @ ys, acc'', bits'))"

lemma pump_all_val:
  assumes "0 < b" "b \<le> 8" "a \<le> 8" "bits < b" "digits a xs" "pump_all a b xs acc bits = (ys, acc', bits')"
  shows "digits b ys \<and> bits' < b \<and> b * length ys + bits' = a * length xs + bits
     \<and> unat acc mod 2 ^ bits * 2 ^ (a * length xs) + radix_val a xs
       = radix_val b ys * 2 ^ bits' + unat acc' mod 2 ^ bits'"
  using assms(4-6)
proof (induction xs arbitrary: acc bits ys)
  case (Cons x xs)
  let ?acc = "push_bit a acc OR word_of_nat x"
  let ?b = "(bits + a) mod b"
  obtain zs where rec: "pump_all a b xs ?acc ?b = (zs, acc', bits')" and ys: "ys = pump b ?acc (bits + a) @ zs"
    using Cons.prems(3) by (auto simp: Let_def split: prod.splits)
  have IH: "digits b zs" "bits' < b" "b * length zs + bits' = a * length xs + ?b"
    "unat ?acc mod 2 ^ ?b * 2 ^ (a * length xs) + radix_val a xs = radix_val b zs * 2 ^ bits' + unat acc' mod 2 ^ bits'"
    using Cons.IH [OF _ _ rec] Cons.prems assms(1) by auto
  have len: "bits + a \<le> 32" using Cons.prems assms by simp
  let ?p = "pump b ?acc (bits + a)"
  have p: "digits b ?p" "b * length ?p + ?b = bits + a"
    "unat ?acc mod 2 ^ (bits + a) = radix_val b ?p * 2 ^ ?b + unat ?acc mod 2 ^ ?b"
    using pump_val [OF assms(1) len] by auto
  have "unat acc mod 2 ^ bits * 2 ^ a + x = unat ?acc mod 2 ^ (bits + a)"
    using acc_shift_in [OF len, of x acc] Cons.prems by simp
  then have "unat acc mod 2 ^ bits * 2 ^ a + x = radix_val b ?p * 2 ^ ?b + unat ?acc mod 2 ^ ?b"
    using p(3) by metis
  moreover have "unat acc mod 2 ^ bits * 2 ^ (a * length (x # xs)) + radix_val a (x # xs)
      = (unat acc mod 2 ^ bits * 2 ^ a + x) * 2 ^ (a * length xs) + radix_val a xs"
    by (simp add: power_add algebra_simps)
  ultimately have "unat acc mod 2 ^ bits * 2 ^ (a * length (x # xs)) + radix_val a (x # xs)
      = (radix_val b ?p * 2 ^ ?b + unat ?acc mod 2 ^ ?b) * 2 ^ (a * length xs) + radix_val a xs"
    by metis
  also have "\<dots> = radix_val b ?p * 2 ^ (?b + a * length xs) + (radix_val b zs * 2 ^ bits' + unat acc' mod 2 ^ bits')"
    unfolding IH(4) [symmetric] by (simp add: algebra_simps power_add)
  also have "?b + a * length xs = b * length zs + bits'" using IH(3) by simp
  finally show ?case using IH p ys by (simp add: algebra_simps power_add)
qed simp

section \<open>The encoder regroups\<close>

definition enc_valid :: "Encoding \<Rightarrow> bool" where
  "enc_valid e \<longleftrightarrow> validate e = Inr () \<and> (\<forall>c\<in>set (alphabet e). byte c < 0x80)"

lemma enc_validD:
  assumes "enc_valid e"
  shows "0 < symbol_bits e" "symbol_bits e < 8" "length (alphabet e) = 2 ^ symbol_bits e"
  using assms by (auto simp: enc_valid_def validate_def split: if_splits)

lemma enc_valid_cong:
  "enc_valid e \<Longrightarrow> symbol_bits e' = symbol_bits e \<Longrightarrow> alphabet e' = alphabet e \<Longrightarrow> enc_valid e'"
  unfolding enc_valid_def validate_def by metis

definition sym :: "Encoding \<Rightarrow> nat \<Rightarrow> char" where
  "sym e i = alphabet e ! i"

lemma push_symbol_eq:
  assumes "enc_valid e" "unat idx < 2 ^ symbol_bits e"
  shows "push_symbol e out idx = Some (out @ [sym e (unat idx)])"
proof -
  have "alphabet e ! unat idx \<in> set (alphabet e)" using assms enc_validD by simp
  then have "utf8_encode (byte (alphabet e ! unat idx)) = [alphabet e ! unat idx]"
    using assms(1) by (auto simp: enc_valid_def utf8_encode_def)
  then show ?thesis using assms enc_validD by (simp add: push_symbol_def sym_def)
qed

lemma unat_mask: "unat (w AND mask k :: u32) = unat w mod 2 ^ k"
  unfolding take_bit_eq_mask [symmetric] unsigned_take_bit_eq by (rule take_bit_eq_mod)

lemma mask_digit: "unat (w AND mask k :: u32) < 2 ^ k"
  by (simp add: unat_mask)

lemma encode_drain_pump:
  assumes "enc_valid e"
  shows "encode_drain e acc bits out
    = Some (bits mod symbol_bits e, out @ map (sym e) (pump (symbol_bits e) acc bits))"
proof (induction bits arbitrary: out rule: less_induct)
  case (less bits)
  let ?k = "symbol_bits e"
  note v = enc_validD [OF assms]
  show ?case
  proof (cases "?k \<le> bits")
    case False
    then show ?thesis by (simp add: encode_drain.simps pump.simps)
  next
    case True
    let ?w = "drop_bit (bits - ?k) acc AND mask ?k"
    have "push_symbol e out ?w = Some (out @ [sym e (unat ?w)])" by (rule push_symbol_eq [OF assms mask_digit])
    then show ?thesis using True v less [of "bits - ?k"] unfolding encode_drain.simps [of e acc bits]
      by (simp add: pump.simps [of ?k acc bits] mask_eq le_mod_geq Let_def)
  qed
qed

lemma encode_loop_pump:
  assumes "enc_valid e"
  shows "pump_all 8 (symbol_bits e) (map unat bs) acc bits = (ys, acc', bits') \<Longrightarrow>
    encode_loop e bs acc bits out = Some (acc', bits', out @ map (sym e) ys)"
proof (induction bs arbitrary: acc bits out ys)
  case (Cons b bs)
  have "(word_of_nat (unat b) :: u32) = ucast b" by simp
  then show ?case using Cons by (auto simp: encode_drain_pump [OF assms] Let_def split: prod.splits)
qed simp

text \<open>The digits of the encoder's output, without padding.\<close>

definition enc_digits :: "nat \<Rightarrow> bytes \<Rightarrow> nat list" where
  "enc_digits k bs =
     (let (ys, acc, bits) = pump_all 8 k (map unat bs) 0 0 in
      ys @ (if 0 < bits then [unat (push_bit (k - bits) acc AND mask k)] else []))"

lemma encode_digits:
  assumes "enc_valid e"
  shows "encode e bs = map_option Inr
    (if padding e = PadNone then Some (map (sym e) (enc_digits (symbol_bits e) bs))
     else pad_loop (output_quantum (symbol_bits e)) (map (sym e) (enc_digits (symbol_bits e) bs)))"
proof -
  obtain ys acc bits where p: "pump_all 8 (symbol_bits e) (map unat bs) 0 0 = (ys, acc, bits)" by (metis prod_cases3)
  have "validate e = Inr ()" using assms by (simp add: enc_valid_def)
  moreover have "padding e \<in> {PadRequired, PadOptional} \<longleftrightarrow> padding e \<noteq> PadNone" by (cases "padding e") auto
  ultimately show ?thesis using encode_loop_pump [OF assms p, of "[]"] p
    by (auto simp: encode_def enc_digits_def mask_eq push_symbol_eq [OF assms mask_digit])
qed

lemma bytes_digits: "digits 8 (map unat (bs :: bytes))"
proof -
  have "unat b < 2 ^ 8" for b :: u8 using unsigned_less [of b] by simp
  then show ?thesis by (auto simp: digits_def)
qed

lemma enc_radix_val:
  assumes k: "0 < k" "k < 8"
  shows "digits k (enc_digits k bs) \<and> (\<exists>p<k. k * length (enc_digits k bs) = 8 * length bs + p
     \<and> radix_val k (enc_digits k bs) = radix_val 8 (map unat bs) * 2 ^ p)"
proof -
  obtain ys acc bits where p: "pump_all 8 k (map unat bs) 0 0 = (ys, acc, bits)" by (metis prod_cases3)
  have v: "digits k ys" "bits < k" "k * length ys + bits = 8 * length bs"
    "radix_val 8 (map unat bs) = radix_val k ys * 2 ^ bits + unat acc mod 2 ^ bits"
    using pump_all_val [OF k(1) _ _ _ bytes_digits p] k by auto
  show ?thesis
  proof (cases "0 < bits")
    case False
    then show ?thesis using p v k by (intro conjI exI [of _ 0]) (auto simp: enc_digits_def)
  next
    case True
    let ?d = "unat (push_bit (k - bits) acc AND mask k)"
    have "?d = unat acc mod 2 ^ bits * 2 ^ (k - bits)"
    proof -
      have "?d = unat (push_bit (k - bits) acc OR word_of_nat 0 :: u32) mod 2 ^ (bits + (k - bits))"
        using v(2) by (simp add: unat_mask)
      also have "\<dots> = unat acc mod 2 ^ bits * 2 ^ (k - bits) + 0"
        using v(2) k by (intro acc_shift_in) auto
      finally show ?thesis by simp
    qed
    moreover have "enc_digits k bs = ys @ [?d]" using p True by (simp add: enc_digits_def)
    moreover have "(2::nat) ^ k = 2 ^ bits * 2 ^ (k - bits)" using v(2) by (simp flip: power_add)
    ultimately show ?thesis using v True mask_digit
      by (intro conjI exI [of _ "k - bits"]) (auto simp: algebra_simps)
  qed
qed

lemma enc_digits_unique:
  assumes k: "0 < k" "k < 8" and ds: "digits k ds" "k * length ds = 8 * length bs + p" "p < k"
    "radix_val k ds = radix_val 8 (map unat bs) * 2 ^ p"
  shows "ds = enc_digits k bs"
proof -
  obtain q where q: "q < k" "k * length (enc_digits k bs) = 8 * length bs + q"
    "radix_val k (enc_digits k bs) = radix_val 8 (map unat bs) * 2 ^ q" "digits k (enc_digits k bs)"
    using enc_radix_val [OF k, of bs] by blast
  have "length ds = (8 * length bs + k - 1) div k \<and> p = k * length ds - 8 * length bs" if "k * length ds = 8 * length bs + p" "p < k" for ds :: "nat list" and p
  proof -
    have "8 * length bs + k - 1 = (k - 1 - p) + k * length ds" using that k by simp
    then have "(8 * length bs + k - 1) div k = length ds" using k that(2)
      by (simp only: div_mult_self2) simp
    then show ?thesis using that by simp
  qed
  then have "length ds = length (enc_digits k bs)" "p = q" using ds q by metis+
  then show ?thesis using radix_val_inj ds q by metis
qed

section \<open>The decoder regroups back\<close>

definition fold_case :: "bool \<Rightarrow> char \<Rightarrow> char" where
  "fold_case ci c = (if ci then to_ascii_lowercase c else c)"

text \<open>An alphabet that can be decoded: its symbols stay apart under case folding.\<close>

definition enc_ok :: "Encoding \<Rightarrow> bool" where
  "enc_ok e \<longleftrightarrow> enc_valid e \<and> distinct (map (fold_case (case_insensitive_decode e)) (alphabet e))
     \<and> CHR ''='' \<notin> set (alphabet e)"

lemma of_char_less: "byte c < 256"
  using of_char_mod_256 [of c, where 'a = nat] by (metis mod_less_divisor zero_less_numeral)

lemma byte_lowercase: "byte (to_ascii_lowercase c) = (if is_ascii_upper c then byte c + 32 else byte c)"
  by (auto simp: to_ascii_lowercase_def is_ascii_upper_def)

lemma byte_uppercase: "byte (to_ascii_uppercase c) = (if is_ascii_lower c then byte c - 32 else byte c)"
  using of_char_less [of c] by (auto simp: to_ascii_uppercase_def is_ascii_lower_def)

lemma byte_eq: "byte a = byte b \<longleftrightarrow> a = b"
  by simp

lemma case_variants:
  "is_ascii_alphabetic b \<Longrightarrow>
   to_ascii_lowercase c = to_ascii_lowercase b \<longleftrightarrow> c = b \<or> c = to_ascii_lowercase b \<or> c = to_ascii_uppercase b"
  unfolding byte_eq [symmetric] byte_lowercase byte_uppercase
  by (auto simp: is_ascii_alphabetic_def is_ascii_upper_def is_ascii_lower_def)

lemma case_fixed: "\<not> is_ascii_alphabetic b \<Longrightarrow> to_ascii_lowercase c = to_ascii_lowercase b \<longleftrightarrow> c = b"
  unfolding byte_eq [symmetric] byte_lowercase
  by (auto simp: is_ascii_alphabetic_def is_ascii_upper_def is_ascii_lower_def)

lemma lut_step:
  assumes "length lut = 256"
  shows "(if ci \<and> is_ascii_alphabetic b
      then (lut[byte b := v, byte (to_ascii_lowercase b) := v])[byte (to_ascii_uppercase b) := v]
      else lut[byte b := v]) ! byte c = (if fold_case ci c = fold_case ci b then v else lut ! byte c)"
  using assms of_char_less [of c]
  by (auto simp: nth_list_update fold_case_def case_variants case_fixed)

lemma fill_lut_length [simp]: "length (fill_lut ci idx al lut) = length lut"
  by (induction al arbitrary: idx lut) (auto simp: Let_def)

lemma fill_lut_miss:
  "length lut = 256 \<Longrightarrow> fold_case ci c \<notin> fold_case ci ` set al \<Longrightarrow> fill_lut ci idx al lut ! byte c = lut ! byte c"
proof (induction al arbitrary: idx lut)
  case (Cons b al)
  then show ?case using lut_step [OF Cons.prems(1), of ci b "word_of_nat idx" c] by (auto simp: Let_def)
qed simp

lemma fill_lut_hit:
  "length lut = 256 \<Longrightarrow> distinct (map (fold_case ci) al) \<Longrightarrow> i < length al \<Longrightarrow> fold_case ci c = fold_case ci (al ! i)
   \<Longrightarrow> fill_lut ci idx al lut ! byte c = word_of_nat (idx + i)"
proof (induction al arbitrary: idx lut i)
  case (Cons b al)
  let ?v = "word_of_nat idx :: u8"
  let ?lut = "if ci \<and> is_ascii_alphabetic b
      then (lut[byte b := ?v, byte (to_ascii_lowercase b) := ?v])[byte (to_ascii_uppercase b) := ?v]
      else lut[byte b := ?v]"
  have len: "length ?lut = 256" using Cons.prems(1) by simp
  have unfold: "fill_lut ci idx (b # al) lut = fill_lut ci (idx + 1) al ?lut" by (simp only: fill_lut.simps Let_def)
  show ?case
  proof (cases i)
    case 0
    then have "fold_case ci c \<notin> fold_case ci ` set al" using Cons.prems by auto
    then have "fill_lut ci idx (b # al) lut ! byte c = ?lut ! byte c" unfolding unfold by (rule fill_lut_miss [OF len])
    also have "\<dots> = ?v" using lut_step [OF Cons.prems(1), of ci b ?v c] 0 Cons.prems(4) by simp
    finally show ?thesis using 0 by simp
  next
    case (Suc j)
    then show ?thesis unfolding unfold using Cons.IH [OF len, of j "idx + 1"] Cons.prems by simp
  qed
qed simp

definition lut_of :: "Encoding \<Rightarrow> u8 list" where
  "lut_of e = fill_lut (case_insensitive_decode e) 0 (alphabet e) (replicate 256 255)"

definition is_symbol :: "Encoding \<Rightarrow> char \<Rightarrow> nat \<Rightarrow> bool" where
  "is_symbol e c i \<longleftrightarrow> i < 2 ^ symbol_bits e
     \<and> fold_case (case_insensitive_decode e) c = fold_case (case_insensitive_decode e) (sym e i)"

lemma lut_symbol:
  assumes "enc_ok e"
  shows "is_symbol e c i \<Longrightarrow> lut_of e ! byte c = word_of_nat i \<and> lut_of e ! byte c \<noteq> 255 \<and> c \<noteq> CHR ''=''"
    and "lut_of e ! byte c \<noteq> 255 \<Longrightarrow> \<exists>i. is_symbol e c i"
proof -
  let ?ci = "case_insensitive_decode e"
  have ok: "enc_valid e" "distinct (map (fold_case ?ci) (alphabet e))" "CHR ''='' \<notin> set (alphabet e)"
    using assms by (auto simp: enc_ok_def)
  note v = enc_validD [OF ok(1)]
  {
    assume s: "is_symbol e c i"
    then have i: "i < length (alphabet e)" using v by (simp add: is_symbol_def)
    have "(2::nat) ^ symbol_bits e \<le> 2 ^ 7" using v by (intro power_increasing) auto
    then have "i < 2 ^ 7" using s unfolding is_symbol_def by linarith
    then have "(word_of_nat i :: u8) \<noteq> 255" by (auto simp: word_unat_eq_iff unat_of_nat)
    moreover have "lut_of e ! byte c = word_of_nat i"
      using fill_lut_hit [OF _ ok(2) i, of "replicate 256 255" c 0] s by (simp add: lut_of_def is_symbol_def sym_def)
    moreover have "c \<noteq> CHR ''=''"
    proof
      assume "c = CHR ''=''"
      then have "alphabet e ! i = CHR ''=''" using s case_fixed [of "CHR ''=''" "alphabet e ! i"]
        by (auto simp: is_symbol_def fold_case_def sym_def is_ascii_alphabetic_def is_ascii_upper_def is_ascii_lower_def
            split: if_splits)
      then show False using ok(3) i nth_mem by metis
    qed
    ultimately show "lut_of e ! byte c = word_of_nat i \<and> lut_of e ! byte c \<noteq> 255 \<and> c \<noteq> CHR ''=''" by simp
  }
  assume "lut_of e ! byte c \<noteq> 255"
  then have "fold_case ?ci c \<in> fold_case ?ci ` set (alphabet e)"
    using fill_lut_miss [of "replicate 256 255" ?ci c "alphabet e" 0] of_char_less [of c] by (auto simp: lut_of_def)
  then show "\<exists>i. is_symbol e c i" using v by (auto simp: is_symbol_def sym_def in_set_conv_nth)
qed

lemma decode_drain_pump: "decode_drain acc bits out = (bits mod 8, out @ map word_of_nat (pump 8 acc bits))"
proof (induction bits arbitrary: out rule: less_induct)
  case (less bits)
  show ?case
  proof (cases "8 \<le> bits")
    case False
    then show ?thesis by (simp add: decode_drain.simps pump.simps)
  next
    case True
    have "(mask 8 :: u32) = 0xff" by (simp add: mask_eq_exp_minus_1)
    then show ?thesis using True less [of "bits - 8"] unfolding decode_drain.simps [of acc bits]
      by (simp add: pump.simps [of 8 acc bits] le_mod_geq)
  qed
qed

lemma decode_loop_pads:
  "decode_loop e lut s acc bits n True out = Inr r \<longleftrightarrow>
     (\<exists>p. s = replicate p (CHR ''='') \<and> (padding e = PadNone \<longrightarrow> p = 0)) \<and> r = (acc, bits, n, out)"
proof (induction s)
  case (Cons c s)
  have "(\<exists>p. c # s = replicate p x \<and> Q p) \<longleftrightarrow> c = x \<and> (\<exists>p. s = replicate p x \<and> Q (Suc p))" for x and Q :: "nat \<Rightarrow> bool"
    by (auto simp: Cons_replicate_eq gr0_conv_Suc intro: exI [of _ "Suc _"])
  then show ?case using Cons by auto
qed auto

text \<open>The texts the loop accepts: symbols, then padding.\<close>

lemma decode_loop_symbols:
  assumes ok: "enc_ok e"
  shows "list_all2 (is_symbol e) s ds \<Longrightarrow> pump_all (symbol_bits e) 8 ds acc bits = (ys, acc', bits') \<Longrightarrow>
    decode_loop e (lut_of e) (s @ t) acc bits n False out
      = decode_loop e (lut_of e) t acc' bits' (n + length s) False (out @ map word_of_nat ys)"
proof (induction s ds arbitrary: acc bits n out ys rule: list_all2_induct)
  case (Cons c s d ds)
  have "d < 2 ^ 8"
  proof -
    have "(2::nat) ^ symbol_bits e \<le> 2 ^ 8"
      using ok enc_validD [of e] by (intro power_increasing) (auto simp: enc_ok_def)
    then show ?thesis using Cons.hyps(1) unfolding is_symbol_def by linarith
  qed
  then have "(ucast (word_of_nat d :: u8) :: u32) = word_of_nat d"
    by (simp add: word_unat_eq_iff unat_of_nat unsigned_ucast_eq take_bit_nat_eq_self)
  then show ?case using lut_symbol(1) [OF ok Cons.hyps(1)] Cons
    by (auto simp: decode_drain_pump Let_def split: prod.splits)
qed simp

lemma decode_loop_accepts:
  assumes ok: "enc_ok e"
  shows "decode_loop e (lut_of e) s acc bits n False out = Inr r \<Longrightarrow>
    \<exists>t p ds. s = t @ replicate p (CHR ''='') \<and> (padding e = PadNone \<longrightarrow> p = 0) \<and> list_all2 (is_symbol e) t ds"
proof (induction s arbitrary: acc bits n out)
  case (Cons c s)
  show ?case
  proof (cases "c = CHR ''=''")
    case True
    then obtain p where "s = replicate p (CHR ''='')" "padding e \<noteq> PadNone"
      using Cons.prems by (auto simp: decode_loop_pads split: if_splits)
    then show ?thesis using True by (intro exI [of _ "[]"] exI [of _ "Suc p"]) auto
  next
    case False
    then have hit: "lut_of e ! byte c \<noteq> 255" using Cons.prems by (auto simp: Let_def)
    obtain acc' bits' out' where "decode_loop e (lut_of e) s acc' bits' (n + 1) False out' = Inr r"
      using Cons.prems False hit by (auto simp: Let_def split: prod.splits)
    from Cons.IH [OF this] obtain t p ds where t: "s = t @ replicate p (CHR ''='')" "padding e = PadNone \<longrightarrow> p = 0"
      "list_all2 (is_symbol e) t ds" by blast
    moreover obtain d where "is_symbol e c d" using lut_symbol(2) [OF ok hit] by blast
    ultimately show ?thesis by (intro exI [of _ "c # t"] exI [of _ p] exI [of _ "d # ds"]) auto
  qed
qed (auto intro: exI [of _ 0])

text \<open>The remainder check refuses exactly the symbol counts that leave a whole symbol unused.\<close>

lemma remainder_iff:
  assumes "k \<in> {4, 5, 6}"
  shows "invalid_symbol_remainder k n \<longleftrightarrow> k \<le> k * n mod 8"
proof -
  define m where "m = n mod 8"
  have n: "k * n mod 8 = k * m mod 8" "n mod 2 = m mod 2" "n mod 4 = m mod 4" "n mod 8 = m"
    by (simp_all add: m_def mod_mult_right_eq mod_mod_cancel)
  have "m \<in> {0, 1, 2, 3, 4, 5, 6, 7}" using mod_less_divisor [of 8 n] by (auto simp: m_def)
  then show ?thesis using assms unfolding invalid_symbol_remainder_def n by auto
qed

section \<open>What decodes to what\<close>

lemma decode_symbols:
  assumes ok: "enc_ok e" and s: "s = t @ replicate p (CHR ''='')" "padding e = PadNone \<longrightarrow> p = 0"
    and t: "list_all2 (is_symbol e) t ds" and ds: "pump_all (symbol_bits e) 8 ds 0 0 = (ys, acc, bits)"
  shows "decode e s = (if invalid_symbol_remainder (symbol_bits e) (length ds) then Inl InvalidLength
     else if unat acc mod 2 ^ bits \<noteq> 0 then Inl NonZeroTrailingBits else Inr (map word_of_nat ys))"
proof -
  have pads: "decode_loop e (lut_of e) (replicate p (CHR ''='')) acc bits n False out = Inr (acc, bits, n, out)" for n out
    using s(2) decode_loop_pads [of e "lut_of e" "replicate (p - 1) (CHR ''='')" acc bits n out]
    by (cases p) auto
  have "decode_loop e (lut_of e) s 0 0 0 False [] = Inr (acc, bits, length ds, map word_of_nat ys)"
    using decode_loop_symbols [OF ok t ds, of "replicate p (CHR ''='')" 0 "[]"] pads s(1) list_all2_lengthD [OF t] by simp
  moreover have "validate e = Inr ()" using ok by (simp add: enc_ok_def enc_valid_def)
  moreover have "acc AND mask bits \<noteq> 0 \<longleftrightarrow> unat acc mod 2 ^ bits \<noteq> 0"
    using unat_mask [of acc bits] by (metis unat_0_iff unat_eq_zero)
  ultimately show ?thesis by (cases "bits = 0") (auto simp: decode_def lut_of_def [symmetric] mask_eq)
qed

lemma word_of_unat_bytes: "digits 8 ys \<Longrightarrow> map unat (map word_of_nat ys :: bytes) = ys"
  by (induction ys) (auto simp: unat_of_nat)

lemma symbols_case:
  assumes "enc_ok e"
  shows "list_all2 (is_symbol e) t ds \<longleftrightarrow> digits (symbol_bits e) ds \<and>
    map (fold_case (case_insensitive_decode e)) t = map (fold_case (case_insensitive_decode e)) (map (sym e) ds)"
proof
  show "list_all2 (is_symbol e) t ds \<Longrightarrow> digits (symbol_bits e) ds \<and>
    map (fold_case (case_insensitive_decode e)) t = map (fold_case (case_insensitive_decode e)) (map (sym e) ds)"
    by (induction rule: list_all2_induct) (auto simp: is_symbol_def)
  assume a: "digits (symbol_bits e) ds \<and>
    map (fold_case (case_insensitive_decode e)) t = map (fold_case (case_insensitive_decode e)) (map (sym e) ds)"
  then have "length t = length ds" by (metis length_map)
  then show "list_all2 (is_symbol e) t ds" using a
    by (induction t ds rule: list_induct2) (auto simp: is_symbol_def)
qed

lemma decode_enc_digits:
  assumes ok: "enc_ok e" and k: "symbol_bits e \<in> {4, 5, 6}"
    and t: "list_all2 (is_symbol e) t (enc_digits (symbol_bits e) bs)"
    and s: "s = t @ replicate p (CHR ''='')" "padding e = PadNone \<longrightarrow> p = 0"
  shows "decode e s = Inr bs"
proof -
  let ?k = "symbol_bits e" and ?ds = "enc_digits (symbol_bits e) bs"
  have k': "0 < ?k" "?k < 8" using k by auto
  obtain q where q: "q < ?k" "?k * length ?ds = 8 * length bs + q"
    "radix_val ?k ?ds = radix_val 8 (map unat bs) * 2 ^ q" "digits ?k ?ds"
    using enc_radix_val [OF k', of bs] by blast
  obtain ys acc bits where p: "pump_all ?k 8 ?ds 0 0 = (ys, acc, bits)" by (metis prod_cases3)
  have v: "digits 8 ys" "bits < 8" "8 * length ys + bits = ?k * length ?ds"
    "radix_val ?k ?ds = radix_val 8 ys * 2 ^ bits + unat acc mod 2 ^ bits"
    using pump_all_val [OF _ _ _ _ q(4) p] k' by auto
  have sum: "8 * length ys + bits = 8 * length bs + q" using v(3) q(2) by simp
  then have l: "length ys = length bs" using v(2) q(1) k' by linarith
  then have len: "length ys = length bs" "bits = q" using sum by simp_all
  have eq: "radix_val 8 ys * 2 ^ q + unat acc mod 2 ^ q = radix_val 8 (map unat bs) * 2 ^ q + 0"
    using v(4) q(3) len by simp
  have "radix_val 8 ys = (radix_val 8 ys * 2 ^ q + unat acc mod 2 ^ q) div 2 ^ q" by simp
  also have "\<dots> = radix_val 8 (map unat bs)" unfolding eq by simp
  finally have vals: "radix_val 8 ys = radix_val 8 (map unat bs)" .
  have ys: "ys = map unat bs" "unat acc mod 2 ^ q = 0"
    using vals radix_val_inj [OF v(1) bytes_digits] len(1) eq by auto
  moreover have "\<not> invalid_symbol_remainder ?k (length ?ds)"
    using remainder_iff [OF k] q v(2) len by simp
  ultimately show ?thesis using decode_symbols [OF ok s t p] len by (simp add: comp_def)
qed

text \<open>A text decodes to \<open>bs\<close> exactly when it is the digits of \<open>bs\<close>, in any case the codec folds, then padding.\<close>

lemma decode_iff:
  assumes ok: "enc_ok e" and k: "symbol_bits e \<in> {4, 5, 6}"
  shows "decode e s = Inr bs \<longleftrightarrow>
    (\<exists>t p. s = t @ replicate p (CHR ''='') \<and> (padding e = PadNone \<longrightarrow> p = 0)
      \<and> map (fold_case (case_insensitive_decode e)) t
        = map (fold_case (case_insensitive_decode e)) (map (sym e) (enc_digits (symbol_bits e) bs)))"
  (is "?L \<longleftrightarrow> ?R")
proof
  let ?k = "symbol_bits e"
  have k': "0 < ?k" "?k < 8" using k by auto
  {
    assume ?R
    then show ?L using decode_enc_digits [OF ok k] symbols_case [OF ok] enc_radix_val [OF k', of bs] by blast
  }
  assume L: ?L
  then obtain r where "decode_loop e (lut_of e) s 0 0 0 False [] = Inr r"
    by (auto simp: decode_def lut_of_def [symmetric] rbind_Inr_iff)
  then obtain t p ds where t: "s = t @ replicate p (CHR ''='')" "padding e = PadNone \<longrightarrow> p = 0"
    "list_all2 (is_symbol e) t ds" using decode_loop_accepts [OF ok] by blast
  have ds: "digits ?k ds" using symbols_case [OF ok] t(3) by blast
  obtain ys acc bits where pa: "pump_all ?k 8 ds 0 0 = (ys, acc, bits)" by (metis prod_cases3)
  have v: "digits 8 ys" "bits < 8" "8 * length ys + bits = ?k * length ds"
    "radix_val ?k ds = radix_val 8 ys * 2 ^ bits + unat acc mod 2 ^ bits"
    using pump_all_val [OF _ _ _ _ ds pa] k' by auto
  have res: "\<not> invalid_symbol_remainder ?k (length ds)" "unat acc mod 2 ^ bits = 0" "bs = map word_of_nat ys"
    using L decode_symbols [OF ok t pa] by (auto split: if_splits)
  have bs: "map unat bs = ys" using res(3) word_of_unat_bytes [OF v(1)] by simp
  have len: "length ys = length bs" using bs by auto
  have "bits = ?k * length ds mod 8" using v(2,3) by (metis mod_less mod_mult_self4 mult.commute add.commute)
  then have small: "bits < ?k" using res(1) remainder_iff [OF k] by simp
  have "?k * length ds = 8 * length bs + bits" using v(3) len by simp
  moreover note small
  moreover have "radix_val ?k ds = radix_val 8 (map unat bs) * 2 ^ bits" using v(4) res(2) bs by simp
  ultimately have "ds = enc_digits ?k bs" by (rule enc_digits_unique [OF k' ds])
  then show ?R using t symbols_case [OF ok] by blast
qed

lemma pad_loop_eq: "0 < q \<Longrightarrow> \<exists>p. pad_loop q out = Some (out @ replicate p (CHR ''='')) \<and> (length out + p) mod q = 0"
proof (induction q out rule: pad_loop.induct)
  case (1 q out)
  show ?case
  proof (cases "length out mod q = 0")
    case True
    then show ?thesis using 1 by (intro exI [of _ 0]) (simp add: pad_loop.simps)
  next
    case False
    then obtain p where "pad_loop q (out @ ''='') = Some ((out @ ''='') @ replicate p (CHR ''=''))"
      "(length (out @ ''='') + p) mod q = 0" using "1.IH" "1.prems" by (metis neq0_conv)
    then show ?thesis using "1.prems" False by (intro exI [of _ "Suc p"]) (simp add: pad_loop.simps [of q out])
  qed
qed

lemma gcd_loop_gcd: "gcd_loop a b = gcd a b"
proof (induction a b rule: gcd_loop.induct)
  case (1 a b)
  show ?case
  proof (cases "b = 0")
    case False
    then have "gcd_loop a b = gcd_loop b (a mod b)" by (subst gcd_loop.simps) simp
    also have "\<dots> = gcd b (a mod b)" using 1 False by blast
    also have "\<dots> = gcd a b" by (rule gcd_red_nat [symmetric])
    finally show ?thesis .
  qed (simp add: gcd_loop.simps)
qed

lemma quantum_pos: "0 < output_quantum k"
  by (auto simp: output_quantum_def gcd_loop_gcd div_greater_zero_iff gcd_le1_nat)

text \<open>Encoding succeeds, and the result decodes under any padding rule that admits it.\<close>

lemma encode_decode:
  assumes ok: "enc_ok e" and k: "symbol_bits e \<in> {4, 5, 6}"
    and e': "symbol_bits e' = symbol_bits e" "alphabet e' = alphabet e"
      "padding e = PadNone \<longrightarrow> padding e' = PadNone"
  shows "\<exists>s. encode e' bs = Some (Inr s) \<and> decode e s = Inr bs"
proof -
  have "enc_valid e'" using ok enc_valid_cong e'(1,2) unfolding enc_ok_def by blast
  note enc = encode_digits [OF this, of bs]
  have sy: "sym e' = sym e" using e' by (simp add: sym_def fun_eq_iff)
  let ?ds = "map (sym e) (enc_digits (symbol_bits e) bs)"
  obtain p where p: "encode e' bs = Some (Inr (?ds @ replicate p (CHR ''='')))" "padding e' = PadNone \<longrightarrow> p = 0"
    using enc pad_loop_eq [OF quantum_pos, of "symbol_bits e" ?ds] e' sy
    by (cases "padding e' = PadNone") auto
  then have "padding e = PadNone \<longrightarrow> p = 0" using e'(3) by blast
  then have "decode e (?ds @ replicate p (CHR ''='')) = Inr bs" unfolding decode_iff [OF ok k] by blast
  then show ?thesis using p by blast
qed

section \<open>Properties\<close>

lemma folded_encodings_ok: "enc_ok BASE16_LOWER" "enc_ok BASE32"
  by code_simp+

lemma case_sensitive_encodings_ok: "enc_ok BASE64" "enc_ok BASE64URL"
  by (simp_all add: enc_ok_def enc_valid_def validate_def fold_case_def BASE64_def BASE64URL_def new_unchecked_def)

lemmas encodings_ok = folded_encodings_ok case_sensitive_encodings_ok

lemma encodings_bits [simp]: "symbol_bits BASE16_LOWER = 4" "symbol_bits BASE32 = 5" "symbol_bits BASE64 = 6"
  "symbol_bits BASE64URL = 6"
  by (simp_all add: BASE16_LOWER_def BASE32_def BASE64_def BASE64URL_def new_unchecked_def)

text \<open>
  Every byte string survives being written in hexadecimal, base32, base64 and
  base64url, padded or not: encoding never fails, and decoding its result gives the bytes back.
\<close>

theorem basen_roundtrip:
  "(\<exists>s. encode_base16_lower bs = Some s \<and> decode_base16 s = Inr bs)
   \<and> (\<exists>s. encode_base32 bs = Some s \<and> decode_base32 s = Inr bs)
   \<and> (\<exists>s. encode_base64 bs = Some s \<and> decode_base64 s = Inr bs)
   \<and> (\<exists>s. encode_base64url bs pad = Some s \<and> decode_base64url s = Inr bs)"
proof -
  let ?u = "new_unchecked (alphabet BASE64URL) (symbol_bits BASE64URL) (if pad then PadRequired else PadNone) False"
  have "\<exists>s. encode ?u bs = Some (Inr s) \<and> decode BASE64URL s = Inr bs"
    by (rule encode_decode [OF encodings_ok(4)]) (simp_all add: new_unchecked_def BASE64URL_def)
  then show ?thesis
    using encode_decode [OF encodings_ok(1) _ refl refl impI, of bs] encode_decode [OF encodings_ok(2) _ refl refl impI, of bs]
      encode_decode [OF encodings_ok(3) _ refl refl impI, of bs]
    unfolding encode_base16_lower_def decode_base16_def encode_base32_def decode_base32_def encode_base64_def
      decode_base64_def encode_base64url_def decode_base64url_def
    by (auto intro: exI)
qed

text \<open>
  Property C18: what the decoders accept, exactly. A text decodes to given bytes if and only if
  it is the unpadded encoding of those bytes, up to the case of letters where the encoding
  folds case, followed by any number of padding characters where the encoding has padding. In
  particular stray trailing bits, impossible lengths, foreign characters and data after padding
  are refused, and the amount of padding is not checked.
\<close>

theorem basen_decode_exact:
  assumes "e \<in> {BASE16_LOWER, BASE32, BASE64, BASE64URL}"
  shows "decode e s = Inr bs \<longleftrightarrow>
    (\<exists>t u p. s = t @ replicate p (CHR ''='') \<and> (padding e = PadNone \<longrightarrow> p = 0)
      \<and> encode (e\<lparr>padding := PadNone\<rparr>) bs = Some (Inr u)
      \<and> map (fold_case (case_insensitive_decode e)) t = map (fold_case (case_insensitive_decode e)) u)"
proof -
  have ok: "enc_ok e" and k: "symbol_bits e \<in> {4, 5, 6}" using assms encodings_ok by auto
  let ?e = "e\<lparr>padding := PadNone\<rparr>"
  have "enc_valid ?e" using ok enc_valid_cong [of e ?e] by (simp add: enc_ok_def)
  moreover have "sym ?e = sym e" by (simp add: sym_def fun_eq_iff)
  ultimately have "encode ?e bs = Some (Inr (map (sym e) (enc_digits (symbol_bits e) bs)))"
    by (simp add: encode_digits)
  then show ?thesis unfolding decode_iff [OF ok k] by auto
qed

lemma basen_decode_exact_witness:
  "decode BASE64 ''Zg==='' = Inr [102] \<longleftrightarrow>
    (\<exists>t u p. ''Zg==='' = t @ replicate p (CHR ''='') \<and> (padding BASE64 = PadNone \<longrightarrow> p = 0)
      \<and> encode (BASE64\<lparr>padding := PadNone\<rparr>) [102] = Some (Inr u)
      \<and> map (fold_case (case_insensitive_decode BASE64)) t = map (fold_case (case_insensitive_decode BASE64)) u)"
  by (rule basen_decode_exact) simp

end
