(* ===== verification/Percent.thy ===== *)
theory Percent
  imports Basen_Props
begin

unbundle bit_operations_syntax

text \<open>
  Percent encoding, \<open>crates/rusty-js-percent-encoding/src/lib.rs\<close>: the encode sets as tables of
  256 flags built by the source's loops, the encoder, and the strict and the lenient decoder.
  The hexadecimal digits come from the base-N codec of \<open>Basen\<close>, as in the source. \<open>None\<close> is a
  panic; the loops over an index are recursions on that index.
\<close>

section \<open>Encode sets\<close>

datatype PercentError = TruncatedTriplet | InvalidHex

record EncodeSet =
  set_table :: "bool list"

definition from_table :: "bool list \<Rightarrow> EncodeSet" where
  "from_table t = \<lparr>set_table = t\<rparr>"

definition EncodeSet_contains :: "EncodeSet \<Rightarrow> u8 \<Rightarrow> bool" where
  "EncodeSet_contains s b = set_table s ! unat b"

definition EncodeSet_with :: "EncodeSet \<Rightarrow> u8 \<Rightarrow> EncodeSet" where
  "EncodeSet_with s b = s\<lparr>set_table := (set_table s)[unat b := True]\<rparr>"

text \<open>\<open>while b <= hi { t[b] = v; b += 1; }\<close>\<close>

function set_range :: "bool list \<Rightarrow> nat \<Rightarrow> nat \<Rightarrow> bool \<Rightarrow> bool list" where
  "set_range t b hi v = (if b \<le> hi then set_range (t[b := v]) (b + 1) hi v else t)"
  by pat_completeness auto
termination
  by (relation "measure (\<lambda>(t, b, hi, v). hi + 1 - b)") auto

declare set_range.simps [simp del]

fun add_bytes :: "bool list \<Rightarrow> str \<Rightarrow> bool list" where
  "add_bytes t [] = t"
| "add_bytes t (c # cs) = add_bytes (t[byte c := True]) cs"

definition unreserved_table :: "bool list" where
  "unreserved_table =
     (let t = set_range (replicate 256 True) 65 90 False;
          t = set_range t 97 122 False;
          t = set_range t 48 57 False in
      t[byte CHR ''-'' := False, byte CHR ''.'' := False, byte CHR ''_'' := False, byte CHR ''~'' := False])"

definition reserved_table :: "bool list" where
  "reserved_table = add_bytes (replicate 256 False) ('':/?#[]@!$&'' @ [CHR 0x27] @ ''()*+,;='')"

definition controls_table :: "bool list" where
  "controls_table = (set_range (replicate 256 False) 0 0x1f True)[0x7f := True]"

definition merge_tables :: "bool list \<Rightarrow> bool list \<Rightarrow> bool list" where
  "merge_tables a b = map2 (\<or>) a b"

definition fragment_table :: "bool list" where
  "fragment_table = add_bytes controls_table ([CHR '' '', CHR 0x22] @ ''<>`'')"

definition path_table :: "bool list" where
  "path_table = add_bytes fragment_table ''?#{}^''"

definition userinfo_table :: "bool list" where
  "userinfo_table = add_bytes path_table (''/:;=@['' @ [CHR 0x5C] @ '']^|'')"

definition special_query_table :: "bool list" where
  "special_query_table = add_bytes fragment_table [CHR 0x27]"

definition component_table :: "bool list" where
  "component_table = merge_tables unreserved_table (add_bytes (replicate 256 False) ''$%&+,/:;=?@'')"

definition UNRESERVED :: EncodeSet where "UNRESERVED = from_table unreserved_table"
definition RESERVED :: EncodeSet where "RESERVED = from_table reserved_table"
definition CONTROLS :: EncodeSet where "CONTROLS = from_table controls_table"
definition FRAGMENT :: EncodeSet where "FRAGMENT = from_table fragment_table"
definition PATH :: EncodeSet where "PATH = from_table path_table"
definition USERINFO :: EncodeSet where "USERINFO = from_table userinfo_table"
definition SPECIAL_QUERY :: EncodeSet where "SPECIAL_QUERY = from_table special_query_table"
definition COMPONENT :: EncodeSet where "COMPONENT = from_table component_table"

section \<open>Encoding\<close>

fun percent_encode :: "bytes \<Rightarrow> EncodeSet \<Rightarrow> str option" where
  "percent_encode [] es = Some []"
| "percent_encode (b # bs) es =
     Option.bind
       (if 0x80 \<le> b \<or> EncodeSet_contains es b then
          map_option (\<lambda>h. CHR ''%'' # map to_ascii_uppercase h) (encode_base16_lower [b])
        else Some (utf8_encode (unat b)))
       (\<lambda>t. map_option (\<lambda>r. t @ r) (percent_encode bs es))"

section \<open>Decoding\<close>

definition as_u8 :: "char \<Rightarrow> u8" where
  "as_u8 c = word_of_nat (byte c)"

text \<open>\<open>Err\<close> is \<open>Inl\<close>; an index or slice out of range would be \<open>None\<close>.\<close>

function decode_from :: "str \<Rightarrow> nat \<Rightarrow> bytes \<Rightarrow> (PercentError + bytes) option" where
  "decode_from s i out =
     (if i < length s then
        if s ! i \<noteq> CHR ''%'' then decode_from s (i + 1) (out @ [as_u8 (s ! i)])
        else if length s \<le> i + 2 then Some (Inl TruncatedTriplet)
        else
          (let hex = take 2 (drop (i + 1) s) in
           if \<not> utf8_valid hex then Some (Inl InvalidHex)
           else
             (case decode_base16 hex of
                Inl _ \<Rightarrow> Some (Inl InvalidHex)
              | Inr [] \<Rightarrow> None
              | Inr (d # _) \<Rightarrow> decode_from s (i + 3) (out @ [d])))
      else Some (Inr out))"
  by pat_completeness auto
termination
  by (relation "measure (\<lambda>(s, i, out). length s - i)") auto

declare decode_from.simps [simp del]

definition percent_decode :: "str \<Rightarrow> (PercentError + bytes) option" where
  "percent_decode input = decode_from input 0 []"

definition is_ascii_hex :: "char \<Rightarrow> bool" where
  "is_ascii_hex c \<longleftrightarrow> (48 \<le> byte c \<and> byte c \<le> 57) \<or> (97 \<le> byte c \<and> byte c \<le> 102) \<or> (65 \<le> byte c \<and> byte c \<le> 70)"

definition hex_value :: "char \<Rightarrow> u8" where
  "hex_value c =
     (if 48 \<le> byte c \<and> byte c \<le> 57 then as_u8 c - 48
      else if 97 \<le> byte c \<and> byte c \<le> 102 then as_u8 c - 97 + 10
      else if 65 \<le> byte c \<and> byte c \<le> 70 then as_u8 c - 65 + 10
      else 0)"

function lenient_from :: "str \<Rightarrow> nat \<Rightarrow> bytes \<Rightarrow> bytes" where
  "lenient_from s i out =
     (if i < length s then
        if s ! i \<noteq> CHR ''%'' then lenient_from s (i + 1) (out @ [as_u8 (s ! i)])
        else if length s \<le> i + 2 then lenient_from s (i + 1) (out @ [as_u8 (s ! i)])
        else if is_ascii_hex (s ! (i + 1)) \<and> is_ascii_hex (s ! (i + 2)) then
          lenient_from s (i + 3) (out @ [push_bit 4 (hex_value (s ! (i + 1))) OR hex_value (s ! (i + 2))])
        else lenient_from s (i + 1) (out @ [as_u8 (s ! i)])
      else out)"
  by pat_completeness auto
termination
  by (relation "measure (\<lambda>(s, i, out). length s - i)") auto

declare lenient_from.simps [simp del]

definition decode_lenient :: "str \<Rightarrow> bytes" where
  "decode_lenient input = lenient_from input 0 []"

section \<open>Hexadecimal pairs\<close>

definition hexv :: "char \<Rightarrow> nat" where
  "hexv c = (if byte c \<le> 57 then byte c - 48 else if 97 \<le> byte c then byte c - 87 else byte c - 55)"

lemma hex_value_hexv: "is_ascii_hex c \<Longrightarrow> hex_value c = word_of_nat (hexv c) \<and> hexv c < 16"
  by (auto simp: is_ascii_hex_def hex_value_def hexv_def as_u8_def of_nat_diff)

lemma nth_hex: "i < 16 \<Longrightarrow> byte (''0123456789abcdef'' ! i) = (if i < 10 then 48 + i else 87 + i)"
proof -
  have "\<forall>i\<in>set [0..<16]. byte (''0123456789abcdef'' ! i) = (if i < 10 then 48 + i else 87 + i)" by code_simp
  then show "i < 16 \<Longrightarrow> ?thesis" by simp
qed

lemma hex_symbol: "is_symbol BASE16_LOWER c i \<longleftrightarrow> is_ascii_hex c \<and> i = hexv c"
proof -
  define h where "h = ''0123456789abcdef'' ! i"
  have "is_symbol BASE16_LOWER c i \<longleftrightarrow> i < 16
      \<and> byte (to_ascii_lowercase c) = byte (to_ascii_lowercase h)"
    by (simp only: is_symbol_def h_def byte_eq) (simp add: sym_def fold_case_def BASE16_LOWER_def new_unchecked_def)
  also have "\<dots> \<longleftrightarrow> i < 16 \<and> byte (to_ascii_lowercase c) = (if i < 10 then 48 + i else 87 + i)"
  proof (cases "i < 16")
    case True
    then have "byte (to_ascii_lowercase h) = (if i < 10 then 48 + i else 87 + i)"
      using nth_hex [OF True] unfolding h_def [symmetric] byte_lowercase by (auto simp: is_ascii_upper_def)
    then show ?thesis by (simp only:)
  qed simp
  also have "\<dots> \<longleftrightarrow> is_ascii_hex c \<and> i = hexv c"
    by (auto simp: byte_lowercase is_ascii_upper_def is_ascii_hex_def hexv_def split: if_splits)
  finally show ?thesis .
qed

lemma hex_digits: "enc_digits 4 [w] = [unat w div 16, unat w mod 16]"
proof -
  have "unat w < 256" using unsigned_less [of w] by simp
  then show ?thesis
    by (intro enc_digits_unique [where p = 0, symmetric]) (auto simp: less_mult_imp_div_less)
qed

lemma base16_pair_ok:
  assumes "is_ascii_hex a" "is_ascii_hex b"
  shows "decode_base16 [a, b] = Inr [push_bit 4 (hex_value a) OR hex_value b]"
proof -
  have ab: "hexv a < 16" "hexv b < 16" "hex_value a = word_of_nat (hexv a)" "hex_value b = word_of_nat (hexv b)"
    using assms hex_value_hexv by auto
  let ?w = "push_bit 4 (hex_value a) OR hex_value b"
  have "unat ?w = push_bit 4 (hexv a) OR hexv b"
  proof -
    have "unat (word_of_nat n :: u8) = n" "take_bit 8 (push_bit 4 n) = push_bit 4 n" if "n < 16" for n
      using that by (simp_all add: unat_of_nat take_bit_nat_eq_self push_bit_eq_mult)
    then show ?thesis using ab(1,2) unfolding ab(3,4) unsigned_or_eq unsigned_push_bit_eq by simp
  qed
  then have "unat ?w = hexv a * 16 + hexv b" using push_or_add [of "hexv b" 4 "hexv a"] ab by simp
  then have "enc_digits 4 [?w] = [hexv a, hexv b]" using ab by (simp add: hex_digits)
  then have "list_all2 (is_symbol BASE16_LOWER) [a, b] (enc_digits (symbol_bits BASE16_LOWER) [?w])"
    using assms by (simp add: hex_symbol)
  then show ?thesis unfolding decode_base16_def
    using decode_enc_digits [OF encodings_ok(1), of "[a, b]" "[?w]" "[a, b]" 0] by simp
qed

lemma base16_pair_bad:
  assumes "\<not> (is_ascii_hex a \<and> is_ascii_hex b)"
  shows "\<exists>e. decode_base16 [a, b] = Inl e"
proof (cases "decode_base16 [a, b]")
  case (Inr r)
  then obtain q where "decode_loop BASE16_LOWER (lut_of BASE16_LOWER) [a, b] 0 0 0 False [] = Inr q"
    by (auto simp: decode_base16_def decode_def lut_of_def [symmetric] rbind_Inr_iff)
  then obtain t p ds where t: "[a, b] = t @ replicate p (CHR ''='')" "padding BASE16_LOWER = PadNone \<longrightarrow> p = 0"
    "list_all2 (is_symbol BASE16_LOWER) t ds" using decode_loop_accepts [OF encodings_ok(1)] by blast
  have "padding BASE16_LOWER = PadNone" by (simp add: BASE16_LOWER_def new_unchecked_def)
  then have "t = [a, b]" using t by simp
  then show ?thesis using t(3) assms by (auto simp: hex_symbol list_all2_Cons1)
qed auto

section \<open>Decoding\<close>

fun triplets_ok :: "str \<Rightarrow> bool" where
  "triplets_ok [] \<longleftrightarrow> True"
| "triplets_ok (c # cs) \<longleftrightarrow>
     (if c = CHR ''%'' then
        (case cs of a # b # r \<Rightarrow> is_ascii_hex a \<and> is_ascii_hex b \<and> triplets_ok r | _ \<Rightarrow> False)
      else triplets_ok cs)"

lemma drop3: "i + 2 < length s \<Longrightarrow> drop i s = s ! i # s ! (i + 1) # s ! (i + 2) # drop (i + 3) s"
  by (simp add: Cons_nth_drop_Suc [symmetric] eval_nat_numeral)

lemma drop_short: "i < length s \<Longrightarrow> length s \<le> i + 2 \<Longrightarrow> drop i s = [s ! i] \<or> (\<exists>c. drop i s = [s ! i, c])"
proof -
  assume i: "i < length s" "length s \<le> i + 2"
  obtain r where r: "drop i s = s ! i # r" using i(1) by (metis Cons_nth_drop_Suc)
  then have "length r \<le> 1" using i by (metis Suc_le_mono length_Cons length_drop le_diff_conv2 diff_le_mono add_diff_cancel_left' numeral_2_eq_2 One_nat_def)
  then show ?thesis using r by (cases r) auto
qed

lemma hex_pair_valid: "is_ascii_hex a \<Longrightarrow> is_ascii_hex b \<Longrightarrow> utf8_valid [a, b]"
  by (auto simp: is_ascii_hex_def)

lemma decode_from_eq:
  "(triplets_ok (drop i s) \<longrightarrow> decode_from s i out = Some (Inr (lenient_from s i out)))
   \<and> (\<not> triplets_ok (drop i s) \<longrightarrow> (\<exists>e. decode_from s i out = Some (Inl e)))"
proof (induction "length s - i" arbitrary: i out rule: less_induct)
  case less
  show ?case
  proof (cases "i < length s")
    case False
    then show ?thesis by (simp add: decode_from.simps lenient_from.simps)
  next
    case i: True
    have d: "drop i s = s ! i # drop (i + 1) s" using i by (simp add: Cons_nth_drop_Suc)
    consider "s ! i \<noteq> CHR ''%''" | "s ! i = CHR ''%''" "length s \<le> i + 2" | "s ! i = CHR ''%''" "i + 2 < length s"
      by linarith
    then show ?thesis
    proof cases
      case 1
      then show ?thesis using less [of "i + 1" "out @ [as_u8 (s ! i)]"] i d
        by (simp add: decode_from.simps [of s i] lenient_from.simps [of s i])
    next
      case 2
      then have "\<not> triplets_ok (drop i s)" using drop_short [OF i] by auto
      then show ?thesis using 2 i by (simp add: decode_from.simps [of s i])
    next
      case 3
      let ?a = "s ! (i + 1)" and ?b = "s ! (i + 2)"
      have d3: "drop i s = s ! i # ?a # ?b # drop (i + 3) s" using 3 by (intro drop3)
      then have hex: "take 2 (drop (i + 1) s) = [?a, ?b]" using d by simp
      show ?thesis
      proof (cases "is_ascii_hex ?a \<and> is_ascii_hex ?b")
        case True
        let ?out = "out @ [push_bit 4 (hex_value ?a) OR hex_value ?b]"
        have "decode_from s i out = decode_from s (i + 3) ?out"
          unfolding decode_from.simps [of s i] hex Let_def
          using 3 i True hex_pair_valid [of ?a ?b] base16_pair_ok [of ?a ?b] by simp
        moreover have "lenient_from s i out = lenient_from s (i + 3) ?out"
          unfolding lenient_from.simps [of s i] using 3 i True by simp
        moreover have "triplets_ok (drop i s) = triplets_ok (drop (i + 3) s)" unfolding d3 using 3 True by simp
        ultimately show ?thesis using less [of "i + 3" ?out] i by simp
      next
        case False
        then have "\<exists>e. decode_from s i out = Some (Inl e)"
          unfolding decode_from.simps [of s i] hex Let_def using 3 i base16_pair_bad [OF False] by auto
        moreover have "\<not> triplets_ok (drop i s)" unfolding d3 using 3 False by auto
        ultimately show ?thesis by simp
      qed
    qed
  qed
qed

section \<open>Encoding\<close>

lemma encode_byte: "encode_base16_lower [b] = Some [sym BASE16_LOWER (unat b div 16), sym BASE16_LOWER (unat b mod 16)]"
proof -
  have "enc_valid BASE16_LOWER" using encodings_ok(1) by (simp add: enc_ok_def)
  moreover have "padding BASE16_LOWER = PadNone" by (simp add: BASE16_LOWER_def new_unchecked_def)
  ultimately show ?thesis by (simp add: encode_base16_lower_def encode_digits hex_digits)
qed

lemma upper_hex:
  assumes "i < 16"
  shows "is_ascii_hex (to_ascii_uppercase (sym BASE16_LOWER i)) \<and> hexv (to_ascii_uppercase (sym BASE16_LOWER i)) = i"
proof -
  have "to_ascii_lowercase (to_ascii_uppercase c) = to_ascii_lowercase c" for c
    unfolding byte_eq [symmetric] byte_lowercase
    by (auto simp: byte_uppercase is_ascii_upper_def is_ascii_lower_def)
  moreover have "case_insensitive_decode BASE16_LOWER" by (simp add: BASE16_LOWER_def new_unchecked_def)
  ultimately have "is_symbol BASE16_LOWER (to_ascii_uppercase (sym BASE16_LOWER i)) i"
    using assms by (simp add: is_symbol_def fold_case_def)
  then show ?thesis unfolding hex_symbol by auto
qed

text \<open>The text of one byte: itself, or a triplet.\<close>

lemma encode_one:
  assumes "EncodeSet_contains es 0x25"
  shows "\<exists>t. percent_encode [b] es = Some t \<and> (\<forall>c\<in>set t. byte c < 0x80) \<and>
    ((\<exists>c. t = [c] \<and> c \<noteq> CHR ''%'' \<and> as_u8 c = b)
     \<or> (\<exists>x y. t = [CHR ''%'', x, y] \<and> is_ascii_hex x \<and> is_ascii_hex y \<and> push_bit 4 (hex_value x) OR hex_value y = b))"
proof (cases "0x80 \<le> b \<or> EncodeSet_contains es b")
  case False
  then have b: "unat b < 0x80" "b \<noteq> 0x25" using assms by (auto simp: word_le_nat_alt)
  have "byte (char_of (unat b)) = unat b" using b by simp
  moreover have "char_of (unat b) \<noteq> CHR ''%''"
  proof
    assume "char_of (unat b) = CHR ''%''"
    then have "unat b = 0x25" using calculation by simp
    then show False using b(2) by (simp add: word_unat_eq_iff)
  qed
  ultimately show ?thesis using False b by (simp add: utf8_encode_def as_u8_def)
next
  case True
  let ?x = "to_ascii_uppercase (sym BASE16_LOWER (unat b div 16))"
  let ?y = "to_ascii_uppercase (sym BASE16_LOWER (unat b mod 16))"
  have lt: "unat b div 16 < 16" "unat b mod 16 < 16"
    using unsigned_less [of b, where 'a = nat] by (auto simp: less_mult_imp_div_less)
  have hx: "is_ascii_hex ?x" "is_ascii_hex ?y" "hexv ?x = unat b div 16" "hexv ?y = unat b mod 16"
    using upper_hex lt by auto
  have ascii: "byte c < 0x80" if "is_ascii_hex c" for c using that by (auto simp: is_ascii_hex_def)
  have "list_all2 (is_symbol BASE16_LOWER) [?x, ?y] (enc_digits (symbol_bits BASE16_LOWER) [b])"
    using hx by (simp add: hex_digits hex_symbol)
  then have "decode_base16 [?x, ?y] = Inr [b]" unfolding decode_base16_def
    using decode_enc_digits [OF encodings_ok(1), of "[?x, ?y]" "[b]" "[?x, ?y]" 0] by simp
  then have "push_bit 4 (hex_value ?x) OR hex_value ?y = b" using base16_pair_ok [OF hx(1,2)] by simp
  then show ?thesis using True hx ascii by (simp add: encode_byte)
qed

lemma percent_encode_Cons:
  "percent_encode (b # bs) es = Option.bind (percent_encode [b] es) (\<lambda>t. map_option (\<lambda>r. t @ r) (percent_encode bs es))"
  by simp

lemma encode_lenient:
  assumes "EncodeSet_contains es 0x25"
  shows "\<exists>t. percent_encode bs es = Some t \<and> (\<forall>c\<in>set t. byte c < 0x80) \<and> triplets_ok t
     \<and> (\<forall>pre out. lenient_from (pre @ t) (length pre) out = out @ bs)"
proof (induction bs)
  case Nil
  show ?case by (simp add: lenient_from.simps)
next
  case (Cons b bs)
  then obtain r where r: "percent_encode bs es = Some r" "\<forall>c\<in>set r. byte c < 0x80" "triplets_ok r"
    "\<And>pre out. lenient_from (pre @ r) (length pre) out = out @ bs" by blast
  obtain t where t: "percent_encode [b] es = Some t" "\<forall>c\<in>set t. byte c < 0x80"
    and one: "(\<exists>c. t = [c] \<and> c \<noteq> CHR ''%'' \<and> as_u8 c = b)
     \<or> (\<exists>x y. t = [CHR ''%'', x, y] \<and> is_ascii_hex x \<and> is_ascii_hex y \<and> push_bit 4 (hex_value x) OR hex_value y = b)"
    using encode_one [OF assms, of b] by (elim exE conjE) (rule that)
  have e: "percent_encode (b # bs) es = Some (t @ r)" using percent_encode_Cons [of b bs es] t(1) r(1) by (simp del: percent_encode.simps)
  from one show ?case
  proof (elim disjE exE conjE)
    fix c assume c: "t = [c]" "c \<noteq> CHR ''%''" "as_u8 c = b"
    have "lenient_from (pre @ c # r) (length pre) out = out @ b # bs" for pre out
      using r(4) [of "pre @ [c]" "out @ [b]"] c unfolding lenient_from.simps [of "pre @ c # r" "length pre"]
      by (simp add: nth_append)
    then show ?thesis using e t r c by auto
  next
    fix x y assume xy: "t = [CHR ''%'', x, y]" "is_ascii_hex x" "is_ascii_hex y"
      "push_bit 4 (hex_value x) OR hex_value y = b"
    have "lenient_from (pre @ CHR ''%'' # x # y # r) (length pre) out = out @ b # bs" for pre out
      using r(4) [of "pre @ [CHR ''%'', x, y]" "out @ [b]"] xy
      unfolding lenient_from.simps [of "pre @ CHR ''%'' # x # y # r" "length pre"]
      by (simp add: nth_append eval_nat_numeral)
    then show ?thesis using e t r xy by auto
  qed
qed

section \<open>Properties\<close>

text \<open>
  The strict decoder never panics, accepts exactly the texts in which every
  percent sign starts a triplet with two hexadecimal digits, and on those agrees with the
  lenient decoder.
\<close>

theorem percent_decode_exact:
  "\<exists>e. percent_decode s = Some (if triplets_ok s then Inr (decode_lenient s) else Inl e)"
  using decode_from_eq [of 0 s "[]"] by (cases "triplets_ok s") (auto simp: percent_decode_def decode_lenient_def)

text \<open>
  With an encode set that contains the percent sign, encoding never fails, gives
  ASCII text, and both decoders give the bytes back.
\<close>

theorem percent_roundtrip:
  assumes "EncodeSet_contains es 0x25"
  shows "\<exists>t. percent_encode bs es = Some t \<and> (\<forall>c\<in>set t. byte c < 0x80)
    \<and> percent_decode t = Some (Inr bs) \<and> decode_lenient t = bs"
proof -
  obtain t where t: "percent_encode bs es = Some t" "\<forall>c\<in>set t. byte c < 0x80" "triplets_ok t"
    "\<And>pre out. lenient_from (pre @ t) (length pre) out = out @ bs" using encode_lenient [OF assms] by blast
  have "decode_lenient t = bs" using t(4) [of "[]" "[]"] by (simp add: decode_lenient_def)
  moreover have "percent_decode t = Some (Inr (decode_lenient t))"
    using decode_from_eq [of 0 t "[]"] t(3) by (simp add: percent_decode_def decode_lenient_def)
  ultimately show ?thesis using t(1,2) by simp
qed

lemma component_has_percent: "EncodeSet_contains COMPONENT 0x25"
  by code_simp

lemma percent_roundtrip_witness: "\<exists>t. percent_encode [0x25, 0xff] COMPONENT = Some t \<and> percent_decode t = Some (Inr [0x25, 0xff])"
  using percent_roundtrip [OF component_has_percent, of "[0x25, 0xff]"] by blast

end
