(* ===== verification/Gc_Heap.thy ===== *)
theory Gc_Heap
  imports Rust_Prelude "HOL-Library.Monad_Syntax"
begin

unbundle bit_operations_syntax

text \<open>
  The garbage-collected heap of \<open>crates/rusty-js-gc/src/lib.rs\<close>: packed object handles with a
  generation, the slot vectors, allocation with reuse of freed slots, the stop-the-world
  collections of the whole heap and of one realm with ephemerons, and the incremental marking
  and sweeping of a realm.

  The heap is four parallel vectors and a stack of free slots, as in the source. A panic (an
  index out of range, a failed \<open>assert!\<close>) is \<open>None\<close>; a loop that did not end would be \<open>None\<close> too,
  since the loops are \<open>partial_function\<close>s in the option monad. \<open>Gc_Mark\<close> and \<open>Gc_Props\<close> show that
  on heaps the operations build every operation returns. The methods of the trait \<open>Trace\<close> are
  the arguments \<open>trace\<close> and \<open>trace_slice\<close>. The full and the realm collection are the same text in
  the source up to the test of the owner; here they share their definitions, with the scope
  \<open>None\<close> for the whole heap and \<open>Some owner\<close> for a realm. Counters of things in memory are
  naturals; where the source saturates at \<open>usize::MAX\<close> the model does.
\<close>

section \<open>Vectors and loops\<close>

text \<open>\<open>xs[i]\<close> and \<open>xs[i] = v\<close> panic out of range; \<open>xs.get(i)\<close> is \<open>at\<close> as well.\<close>

definition at :: "'a list \<Rightarrow> nat \<Rightarrow> 'a option" where
  "at xs i = (if i < length xs then Some (xs ! i) else None)"

definition put :: "'a list \<Rightarrow> nat \<Rightarrow> 'a \<Rightarrow> 'a list option" where
  "put xs i v = (if i < length xs then Some (xs[i := v]) else None)"

fun ofold :: "('x \<Rightarrow> 's \<Rightarrow> 's option) \<Rightarrow> 'x list \<Rightarrow> 's \<Rightarrow> 's option" where
  "ofold f [] s = Some s"
| "ofold f (x # xs) s = f x s \<bind> ofold f xs"

definition USIZE_MAX :: nat where
  "USIZE_MAX = 2 ^ 64 - 1"

definition saturating_mul :: "nat \<Rightarrow> nat \<Rightarrow> nat" where
  "saturating_mul a b = min (a * b) USIZE_MAX"

definition saturating_add :: "nat \<Rightarrow> nat \<Rightarrow> nat" where
  "saturating_add a b = min (a + b) USIZE_MAX"

section \<open>Handles, colours and slots\<close>

definition OBJECT_ID_INDEX_BITS :: nat where
  "OBJECT_ID_INDEX_BITS = 25"

definition OBJECT_ID_INDEX_MASK :: u32 where
  "OBJECT_ID_INDEX_MASK = push_bit OBJECT_ID_INDEX_BITS 1 - 1"

definition OOM_SLOT_MARGIN :: u32 where
  "OOM_SLOT_MARGIN = 65536"

definition OBJECT_ID_MAX_GENERATION :: u16 where
  "OBJECT_ID_MAX_GENERATION = ucast (drop_bit OBJECT_ID_INDEX_BITS (- 1 :: u32))"

definition SOFT_TARGET_PRESSURE_ALLOC_QUANTUM :: nat where
  "SOFT_TARGET_PRESSURE_ALLOC_QUANTUM = 1024"

datatype ObjectId = ObjectId (id_bits: u32)

definition ObjectId_new :: "u32 \<Rightarrow> u16 \<Rightarrow> ObjectId option" where
  "ObjectId_new index gen =
     (if index \<le> OBJECT_ID_INDEX_MASK
      then Some (ObjectId (push_bit OBJECT_ID_INDEX_BITS (ucast gen) OR index))
      else None)"

definition slot_index :: "ObjectId \<Rightarrow> nat" where
  "slot_index oid = unat (id_bits oid AND OBJECT_ID_INDEX_MASK)"

definition generation :: "ObjectId \<Rightarrow> u16" where
  "generation oid = ucast (drop_bit OBJECT_ID_INDEX_BITS (id_bits oid))"

datatype Color = White | Gray | Black

datatype ExternalHandle = ExternalHandle u64

datatype 'a Slot = Object 'a | ExternalSlot ExternalHandle | Free

fun is_Free :: "'a Slot \<Rightarrow> bool" where
  "is_Free Free = True"
| "is_Free _ = False"

fun is_Object :: "'a Slot \<Rightarrow> bool" where
  "is_Object (Object v) = True"
| "is_Object _ = False"

record TraceSlice =
  next_edge :: nat \<comment> \<open>\<open>next_index\<close>\<close>
  complete :: bool

record RealmSweepState =
  sweep_next :: nat \<comment> \<open>\<open>next_index\<close>\<close>
  sweep_freed :: nat \<comment> \<open>\<open>freed\<close>\<close>

record RealmMarkCursor =
  cursor_object :: "(ObjectId \<times> nat) option" \<comment> \<open>\<open>object\<close>\<close>
  cursor_next :: nat \<comment> \<open>\<open>next_index\<close>\<close>

definition RealmSweepState_default :: RealmSweepState where
  "RealmSweepState_default = \<lparr>sweep_next = 0, sweep_freed = 0\<rparr>"

definition RealmMarkCursor_default :: RealmMarkCursor where
  "RealmMarkCursor_default = \<lparr>cursor_object = None, cursor_next = 0\<rparr>"

text \<open>The default method \<open>Trace::trace_slice\<close>.\<close>

definition default_trace_slice ::
    "('a \<Rightarrow> ObjectId list) \<Rightarrow> 'a \<Rightarrow> nat \<Rightarrow> nat \<Rightarrow> ObjectId list \<times> TraceSlice" where
  "default_trace_slice trace v start budget =
     (if start = 0 \<and> 0 < budget then (trace v, \<lparr>next_edge = 0, complete = True\<rparr>)
      else ([], \<lparr>next_edge = start, complete = True\<rparr>))"

section \<open>The heap\<close>

record 'a GcHeap =
  cells :: "'a Slot list" \<comment> \<open>\<open>slots\<close>\<close>
  colors :: "Color list"
  owners :: "nat list"
  generations :: "u16 list"
  free_list :: "u32 list" \<comment> \<open>a stack, its top at the end\<close>
  no_slot_reuse :: bool
  alloc_count :: nat
  threshold :: nat
  growth_permille :: nat
  soft_target_bytes :: nat
  freed_external :: "ExternalHandle list"
  external_bytes_since_collect :: nat
  external_byte_threshold :: nat
  oom :: bool
  oom_sentinel :: "u32 option"

text \<open>
  What the heap reads from its environment: whether \<open>CRUFT_GC_NO_SLOT_REUSE\<close> is set, the values of
  \<open>CRUFT_GC_EXTERNAL_MB\<close> and \<open>CRUFT_GC_TARGET_MB\<close> in bytes and of \<open>CRUFT_GC_HEADROOM\<close> in thousandths
  when they are finite and positive, the resident size of the process, and the floating-point
  interpolation of \<open>autotuned_permille\<close> between the resident size and the target.
\<close>

record GcEnv =
  env_no_reuse :: bool
  env_external :: "nat option"
  env_target :: "nat option"
  env_headroom :: "nat option"
  process_rss_bytes :: nat
  interpolate :: "nat \<Rightarrow> nat \<Rightarrow> nat \<Rightarrow> nat"

definition external_byte_threshold_from_env :: "GcEnv \<Rightarrow> nat" where
  "external_byte_threshold_from_env env =
     (case env_external env of Some b \<Rightarrow> b | None \<Rightarrow> 64 * 2 ^ 20)"

definition soft_target_from_env :: "GcEnv \<Rightarrow> nat" where
  "soft_target_from_env env = (case env_target env of Some b \<Rightarrow> b | None \<Rightarrow> 0)"

definition growth_permille_from_env :: "GcEnv \<Rightarrow> nat" where
  "growth_permille_from_env env = (case env_headroom env of Some f \<Rightarrow> max f 1100 | None \<Rightarrow> 4000)"

definition with_slot_reuse :: "GcEnv \<Rightarrow> bool \<Rightarrow> 'a GcHeap" where
  "with_slot_reuse env reuse =
     (let target = soft_target_from_env env;
          ext = external_byte_threshold_from_env env
      in \<lparr>cells = [], colors = [], owners = [], generations = [], free_list = [],
          no_slot_reuse = \<not> reuse, alloc_count = 0, threshold = 1024,
          growth_permille = growth_permille_from_env env, soft_target_bytes = target,
          freed_external = [], external_bytes_since_collect = 0,
          external_byte_threshold =
            (if target > 0 then min ext (max (target div 2) (2 ^ 20)) else ext),
          oom = False, oom_sentinel = None\<rparr>)"

definition GcHeap_new :: "GcEnv \<Rightarrow> 'a GcHeap" where
  "GcHeap_new env = with_slot_reuse env (\<not> env_no_reuse env)"

definition note_external_alloc :: "nat \<Rightarrow> 'a GcHeap \<Rightarrow> 'a GcHeap" where
  "note_external_alloc bytes h =
     h\<lparr>external_bytes_since_collect := saturating_add (external_bytes_since_collect h) bytes\<rparr>"

definition set_growth_permille :: "nat \<Rightarrow> 'a GcHeap \<Rightarrow> 'a GcHeap" where
  "set_growth_permille permille h = h\<lparr>growth_permille := max permille 1100\<rparr>"

definition generation_matches :: "'a GcHeap \<Rightarrow> nat \<Rightarrow> ObjectId \<Rightarrow> bool" where
  "generation_matches h i oid = (at (generations h) i = Some (generation oid))"

definition retire_slot_index :: "nat \<Rightarrow> 'a GcHeap \<Rightarrow> 'a GcHeap" where
  "retire_slot_index i h =
     (case at (generations h) i of
        None \<Rightarrow> h
      | Some g \<Rightarrow>
          if g < OBJECT_ID_MAX_GENERATION
          then h\<lparr>generations := (generations h)[i := g + 1],
                 free_list := free_list h @ [of_nat i]\<rparr>
          else h)"

section \<open>When to collect\<close>

definition live_len :: "'a GcHeap \<Rightarrow> nat" where
  "live_len h = length (filter (\<lambda>s. \<not> is_Free s) (cells h))"

definition autotuned_permille :: "GcEnv \<Rightarrow> 'a GcHeap \<Rightarrow> nat" where
  "autotuned_permille env h =
     (if soft_target_bytes h = 0 then growth_permille h
      else if process_rss_bytes env = 0 then growth_permille h
      else max (interpolate env (process_rss_bytes env) (soft_target_bytes h) (growth_permille h)) 1100)"

definition adapt_threshold_after_sweep :: "GcEnv \<Rightarrow> 'a GcHeap \<Rightarrow> 'a GcHeap" where
  "adapt_threshold_after_sweep env h =
     (let live_pressure = max (saturating_mul (live_len h) 2) 1024;
          reuse_pressure = (if free_list h = [] then live_pressure
                            else max (length (free_list h) div 2) 1024);
          base = (if no_slot_reuse h then max live_pressure 65536
                  else max (min live_pressure reuse_pressure) 1024)
      in h\<lparr>external_bytes_since_collect := 0,
           threshold := max (saturating_mul base (autotuned_permille env h) div 2000) 1024\<rparr>)"

definition soft_target_pressure_exceeded :: "GcEnv \<Rightarrow> 'a GcHeap \<Rightarrow> bool" where
  "soft_target_pressure_exceeded env h \<longleftrightarrow>
     soft_target_bytes h > 0 \<and> alloc_count h \<ge> SOFT_TARGET_PRESSURE_ALLOC_QUANTUM
     \<and> process_rss_bytes env \<ge> soft_target_bytes h"

definition should_collect :: "GcEnv \<Rightarrow> 'a GcHeap \<Rightarrow> bool" where
  "should_collect env h \<longleftrightarrow>
     alloc_count h \<ge> threshold h
     \<or> external_bytes_since_collect h \<ge> external_byte_threshold h
     \<or> soft_target_pressure_exceeded env h"

section \<open>Allocation\<close>

definition pop_free :: "'a GcHeap \<Rightarrow> (u32 \<times> 'a GcHeap) option" where
  "pop_free h =
     (if no_slot_reuse h \<or> free_list h = [] then None
      else Some (last (free_list h), h\<lparr>free_list := butlast (free_list h)\<rparr>))"

text \<open>Overwriting a slot, with its colour and owner.\<close>

definition fill :: "nat \<Rightarrow> 'a Slot \<Rightarrow> nat \<Rightarrow> 'a GcHeap \<Rightarrow> 'a GcHeap option" where
  "fill i s owner h =
     do {
       ss \<leftarrow> put (cells h) i s;
       cs \<leftarrow> put (colors h) i White;
       os \<leftarrow> put (owners h) i owner;
       Some (h\<lparr>cells := ss, colors := cs, owners := os\<rparr>)
     }"

definition push_slot :: "'a Slot \<Rightarrow> nat \<Rightarrow> 'a GcHeap \<Rightarrow> 'a GcHeap" where
  "push_slot s owner h =
     h\<lparr>cells := cells h @ [s], colors := colors h @ [White], owners := owners h @ [owner],
       generations := generations h @ [0]\<rparr>"

text \<open>The handle of a slot.\<close>

definition handle_at :: "u32 \<Rightarrow> 'a GcHeap \<Rightarrow> ObjectId option" where
  "handle_at idx h = at (generations h) (unat idx) \<bind> ObjectId_new idx"

definition alloc_external_with_owner ::
    "ExternalHandle \<Rightarrow> nat \<Rightarrow> 'a GcHeap \<Rightarrow> (ObjectId \<times> 'a GcHeap) option" where
  "alloc_external_with_owner x owner h0 =
     (let h = h0\<lparr>alloc_count := alloc_count h0 + 1\<rparr> in
      case pop_free h of
        Some (idx, h) \<Rightarrow>
          do { h \<leftarrow> fill (unat idx) (ExternalSlot x) owner h; oid \<leftarrow> handle_at idx h; Some (oid, h) }
      | None \<Rightarrow>
          let idx = of_nat (length (cells h)) in
          if idx \<le> OBJECT_ID_INDEX_MASK
          then let h = push_slot (ExternalSlot x) owner h in
               do { oid \<leftarrow> handle_at idx h; Some (oid, h) }
          else None)"

definition alloc_external :: "ExternalHandle \<Rightarrow> 'a GcHeap \<Rightarrow> (ObjectId \<times> 'a GcHeap) option" where
  "alloc_external x h = alloc_external_with_owner x 0 h"

definition alloc_with_owner :: "'a \<Rightarrow> nat \<Rightarrow> 'a GcHeap \<Rightarrow> (ObjectId \<times> 'a GcHeap) option" where
  "alloc_with_owner v owner h0 =
     (let h = h0\<lparr>alloc_count := alloc_count h0 + 1\<rparr> in
      case pop_free h of
        Some (idx, h) \<Rightarrow>
          do { h \<leftarrow> fill (unat idx) (Object v) owner h; oid \<leftarrow> handle_at idx h; Some (oid, h) }
      | None \<Rightarrow>
          let idx = of_nat (length (cells h)) in
          if idx > OBJECT_ID_INDEX_MASK
          then (case oom_sentinel h of
                  Some s \<Rightarrow>
                    do { h \<leftarrow> fill (unat s) (Object v) owner (h\<lparr>oom := True\<rparr>);
                         oid \<leftarrow> handle_at s h;
                         Some (oid, h) }
                | None \<Rightarrow> None)
          else let h = (if idx = OBJECT_ID_INDEX_MASK - OOM_SLOT_MARGIN then h\<lparr>oom := True\<rparr> else h);
                   h = push_slot (Object v) owner h
               in do { oid \<leftarrow> handle_at idx h; Some (oid, h) })"

definition alloc :: "'a \<Rightarrow> 'a GcHeap \<Rightarrow> (ObjectId \<times> 'a GcHeap) option" where
  "alloc v h = alloc_with_owner v 0 h"

definition reserve_oom_sentinel :: "ObjectId \<Rightarrow> 'a GcHeap \<Rightarrow> 'a GcHeap" where
  "reserve_oom_sentinel oid h = h\<lparr>oom_sentinel := Some (of_nat (slot_index oid))\<rparr>"

definition take_oom :: "'a GcHeap \<Rightarrow> bool \<times> 'a GcHeap" where
  "take_oom h = (oom h, h\<lparr>oom := False\<rparr>)"

definition take_freed_external_handles :: "'a GcHeap \<Rightarrow> ExternalHandle list \<times> 'a GcHeap" where
  "take_freed_external_handles h = (freed_external h, h\<lparr>freed_external := []\<rparr>)"

section \<open>Access through handles\<close>

definition GcHeap_get :: "'a GcHeap \<Rightarrow> ObjectId \<Rightarrow> 'a option" where
  "GcHeap_get h oid =
     (let i = slot_index oid in
      if \<not> generation_matches h i oid then None
      else case at (cells h) i of Some (Object v) \<Rightarrow> Some v | _ \<Rightarrow> None)"

text \<open>Writing \<open>v\<close> through the reference that \<open>get_mut\<close> returns.\<close>

definition GcHeap_write :: "ObjectId \<Rightarrow> 'a \<Rightarrow> 'a GcHeap \<Rightarrow> 'a GcHeap option" where
  "GcHeap_write oid v h =
     (let i = slot_index oid in
      if \<not> generation_matches h i oid then None
      else case at (cells h) i of
             Some (Object u) \<Rightarrow> Some (h\<lparr>cells := (cells h)[i := Object v]\<rparr>)
           | _ \<Rightarrow> None)"

definition is_external_handle :: "'a GcHeap \<Rightarrow> ObjectId \<Rightarrow> bool" where
  "is_external_handle h oid =
     (let i = slot_index oid in
      generation_matches h i oid \<and> (case at (cells h) i of Some (ExternalSlot x) \<Rightarrow> True | _ \<Rightarrow> False))"

definition is_free :: "'a GcHeap \<Rightarrow> ObjectId \<Rightarrow> bool" where
  "is_free h oid =
     (let i = slot_index oid in
      \<not> generation_matches h i oid \<or> (case at (cells h) i of None \<Rightarrow> True | Some s \<Rightarrow> is_Free s))"

definition owner :: "'a GcHeap \<Rightarrow> ObjectId \<Rightarrow> nat option" where
  "owner h oid =
     (let i = slot_index oid in
      if \<not> generation_matches h i oid then None
      else case at (cells h) i of
             Some s \<Rightarrow> if is_Free s then None else at (owners h) i
           | None \<Rightarrow> None)"

definition set_owner :: "ObjectId \<Rightarrow> nat \<Rightarrow> 'a GcHeap \<Rightarrow> (bool \<times> 'a GcHeap) option" where
  "set_owner oid ow h =
     (let i = slot_index oid in
      if \<not> generation_matches h i oid then Some (False, h)
      else case at (cells h) i of
             Some s \<Rightarrow>
               if is_Free s then Some (False, h)
               else do { os \<leftarrow> put (owners h) i ow; Some (True, h\<lparr>owners := os\<rparr>) }
           | None \<Rightarrow> Some (False, h))"

definition preserve_new_owner_allocation ::
    "nat \<Rightarrow> ObjectId \<Rightarrow> 'a GcHeap \<Rightarrow> (bool \<times> 'a GcHeap) option" where
  "preserve_new_owner_allocation ow oid h =
     (let i = slot_index oid in
      if \<not> generation_matches h i oid then Some (False, h)
      else case at (cells h) i of
             Some s \<Rightarrow>
               if \<not> is_Free s \<and> at (owners h) i = Some ow
               then do { cs \<leftarrow> put (colors h) i Black; Some (True, h\<lparr>colors := cs\<rparr>) }
               else Some (False, h)
           | None \<Rightarrow> Some (False, h))"

definition live_count :: "'a GcHeap \<Rightarrow> nat" where
  "live_count h = length (filter is_Object (cells h))"

text \<open>\<open>live_object_ids\<close>; the iterator is read to its end.\<close>

definition live_object_ids :: "'a GcHeap \<Rightarrow> ObjectId list option" where
  "live_object_ids h =
     ofold (\<lambda>i ids. do {
         s \<leftarrow> at (cells h) i;
         if is_Object s
         then do { g \<leftarrow> at (generations h) i; oid \<leftarrow> ObjectId_new (of_nat i) g; Some (ids @ [oid]) }
         else Some ids
       }) [0..<length (cells h)] []"

definition GcHeap_free :: "ObjectId \<Rightarrow> 'a GcHeap \<Rightarrow> 'a GcHeap option" where
  "GcHeap_free oid h =
     (let i = slot_index oid in
      if generation_matches h i oid \<and> i < length (cells h)
      then map_option (retire_slot_index i) (fill i Free 0 h)
      else Some h)"

section \<open>Edges between owners\<close>

record CrossOwnerEdge =
  edge_from :: ObjectId
  edge_from_owner :: nat
  edge_to :: ObjectId
  edge_to_owner :: nat

definition cross_edge ::
    "'a GcHeap \<Rightarrow> nat \<Rightarrow> nat \<Rightarrow> ObjectId \<Rightarrow> CrossOwnerEdge list \<Rightarrow> CrossOwnerEdge list option" where
  "cross_edge h i from_owner to out =
     (let ti = slot_index to in
      if \<not> generation_matches h ti to \<or> ti \<ge> length (cells h) \<or> is_Free (cells h ! ti) then Some out
      else do {
        to_owner \<leftarrow> at (owners h) ti;
        if from_owner \<noteq> to_owner
        then do {
          g \<leftarrow> at (generations h) i;
          from \<leftarrow> ObjectId_new (of_nat i) g;
          Some (out @ [\<lparr>edge_from = from, edge_from_owner = from_owner,
                        edge_to = to, edge_to_owner = to_owner\<rparr>])
        }
        else Some out
      })"

definition cross_owner_edges :: "('a \<Rightarrow> ObjectId list) \<Rightarrow> 'a GcHeap \<Rightarrow> CrossOwnerEdge list option" where
  "cross_owner_edges trace h =
     ofold (\<lambda>i out.
       case cells h ! i of
         Object v \<Rightarrow> do { from_owner \<leftarrow> at (owners h) i; ofold (cross_edge h i from_owner) (trace v) out }
       | _ \<Rightarrow> Some out) [0..<length (cells h)] []"

definition has_cross_owner_edges :: "('a \<Rightarrow> ObjectId list) \<Rightarrow> 'a GcHeap \<Rightarrow> bool option" where
  "has_cross_owner_edges trace h = map_option (\<lambda>edges. edges \<noteq> []) (cross_owner_edges trace h)"

section \<open>Marking\<close>

text \<open>The test of the owner: always true in a collection of the whole heap.\<close>

definition in_scope :: "nat option \<Rightarrow> 'a GcHeap \<Rightarrow> nat \<Rightarrow> bool option" where
  "in_scope sc h i =
     (case sc of None \<Rightarrow> Some True | Some ow \<Rightarrow> map_option (\<lambda>x. x = ow) (at (owners h) i))"

text \<open>
  The condition under which a root, an edge or a value is shaded: a slot in range with the
  right generation, in scope, not free and white.
\<close>

definition to_shade :: "nat option \<Rightarrow> 'a GcHeap \<Rightarrow> ObjectId \<Rightarrow> bool option" where
  "to_shade sc h e =
     (let i = slot_index e in
      if i < length (cells h) \<and> generation_matches h i e
      then do {
        inside \<leftarrow> in_scope sc h i;
        if inside \<and> \<not> is_Free (cells h ! i) then map_option (\<lambda>c. c = White) (at (colors h) i)
        else Some False
      }
      else Some False)"

definition shade ::
    "nat option \<Rightarrow> ObjectId \<Rightarrow> 'a GcHeap \<times> ObjectId list \<Rightarrow> ('a GcHeap \<times> ObjectId list) option" where
  "shade sc e s =
     (let (h, worklist) = s in
      do {
        b \<leftarrow> to_shade sc h e;
        if b
        then do { cs \<leftarrow> put (colors h) (slot_index e) Gray; Some (h\<lparr>colors := cs\<rparr>, worklist @ [e]) }
        else Some (h, worklist)
      })"

definition whiten :: "'a GcHeap \<Rightarrow> 'a GcHeap" where
  "whiten h = h\<lparr>colors := map (\<lambda>_. White) (colors h)\<rparr>"

text \<open>The guard at the head of the loop over the worklist.\<close>

definition skip_entry :: "nat option \<Rightarrow> 'a GcHeap \<Rightarrow> ObjectId \<Rightarrow> bool option" where
  "skip_entry sc h oid =
     (let i = slot_index oid in
      case sc of
        None \<Rightarrow> Some (\<not> generation_matches h i oid)
      | Some ow \<Rightarrow>
          if i \<ge> length (cells h) \<or> \<not> generation_matches h i oid then Some True
          else map_option (\<lambda>x. x \<noteq> ow) (at (owners h) i))"

definition slot_edges :: "('a \<Rightarrow> ObjectId list) \<Rightarrow> 'a Slot \<Rightarrow> ObjectId list" where
  "slot_edges trace s = (case s of Object v \<Rightarrow> trace v | _ \<Rightarrow> [])"

partial_function (option) mark_worklist ::
    "nat option \<Rightarrow> ('a \<Rightarrow> ObjectId list) \<Rightarrow> 'a GcHeap \<Rightarrow> ObjectId list \<Rightarrow> 'a GcHeap option" where
  "mark_worklist sc trace h worklist =
     (if worklist = [] then Some h
      else let oid = last worklist; rest = butlast worklist; i = slot_index oid in
        do {
          skip \<leftarrow> skip_entry sc h oid;
          if skip then mark_worklist sc trace h rest
          else do {
            cs \<leftarrow> put (colors h) i Black;
            s \<leftarrow> at (cells h) i;
            r \<leftarrow> ofold (shade sc) (slot_edges trace s) (h\<lparr>colors := cs\<rparr>, rest);
            mark_worklist sc trace (fst r) (snd r)
          }
        })"

text \<open>One ephemeron: its value is shaded when its key is marked.\<close>

definition ephemeron_ready :: "nat option \<Rightarrow> 'a GcHeap \<Rightarrow> ObjectId \<times> ObjectId \<Rightarrow> bool option" where
  "ephemeron_ready sc h kv =
     (let ki = slot_index (fst kv); vi = slot_index (snd kv) in
      if ki \<ge> length (cells h) \<or> vi \<ge> length (cells h)
         \<or> \<not> generation_matches h ki (fst kv) \<or> \<not> generation_matches h vi (snd kv)
      then Some False
      else do {
        ks \<leftarrow> in_scope sc h ki;
        if \<not> ks then Some False
        else do {
          vs \<leftarrow> in_scope sc h vi;
          if \<not> vs \<or> is_Free (cells h ! ki) \<or> is_Free (cells h ! vi) then Some False
          else do {
            kc \<leftarrow> at (colors h) ki;
            if kc = White then Some False
            else map_option (\<lambda>vc. vc = White) (at (colors h) vi)
          }
        }
      })"

definition visit_ephemeron ::
    "nat option \<Rightarrow> ObjectId \<times> ObjectId \<Rightarrow> 'a GcHeap \<times> ObjectId list \<times> bool
     \<Rightarrow> ('a GcHeap \<times> ObjectId list \<times> bool) option" where
  "visit_ephemeron sc kv s =
     (let (h, worklist, changed) = s in
      do {
        b \<leftarrow> ephemeron_ready sc h kv;
        if b
        then do {
          cs \<leftarrow> put (colors h) (slot_index (snd kv)) Gray;
          Some (h\<lparr>colors := cs\<rparr>, worklist @ [snd kv], True)
        }
        else Some (h, worklist, changed)
      })"

partial_function (option) ephemeron_loop ::
    "nat option \<Rightarrow> ('a \<Rightarrow> ObjectId list) \<Rightarrow> (ObjectId \<times> ObjectId) list \<Rightarrow> 'a GcHeap \<Rightarrow> 'a GcHeap option" where
  "ephemeron_loop sc trace ephemerons h =
     do {
       s \<leftarrow> ofold (visit_ephemeron sc) ephemerons (h, [], False);
       h' \<leftarrow> mark_worklist sc trace (fst s) (fst (snd s));
       if snd (snd s) then ephemeron_loop sc trace ephemerons h' else Some h'
     }"

section \<open>Sweeping\<close>

definition release_slot :: "nat \<Rightarrow> 'a GcHeap \<Rightarrow> 'a GcHeap option" where
  "release_slot i h =
     do {
       ss \<leftarrow> put (cells h) i Free;
       os \<leftarrow> put (owners h) i 0;
       Some (retire_slot_index i (h\<lparr>cells := ss, owners := os\<rparr>))
     }"

definition sweep_slot :: "nat option \<Rightarrow> nat \<Rightarrow> 'a GcHeap \<times> nat \<Rightarrow> ('a GcHeap \<times> nat) option" where
  "sweep_slot sc i s =
     (let (h, freed) = s in
      do {
        inside \<leftarrow> in_scope sc h i;
        c \<leftarrow> at (colors h) i;
        if \<not> inside
        then Some (if c = Black then h\<lparr>colors := (colors h)[i := White]\<rparr> else h, freed)
        else do {
          slot \<leftarrow> at (cells h) i;
          case (c, slot) of
            (White, ExternalSlot x) \<Rightarrow>
              do { h \<leftarrow> release_slot i (h\<lparr>freed_external := freed_external h @ [x]\<rparr>); Some (h, freed + 1) }
          | (White, Object v) \<Rightarrow> do { h \<leftarrow> release_slot i h; Some (h, freed + 1) }
          | (Black, _) \<Rightarrow> Some (h\<lparr>colors := (colors h)[i := White]\<rparr>, freed)
          | _ \<Rightarrow> Some (h, freed)
        }
      })"

section \<open>Stop-the-world collections\<close>

definition collect_scope ::
    "GcEnv \<Rightarrow> ('a \<Rightarrow> ObjectId list) \<Rightarrow> nat option \<Rightarrow> ObjectId list \<Rightarrow> (ObjectId \<times> ObjectId) list
     \<Rightarrow> 'a GcHeap \<Rightarrow> (nat \<times> 'a GcHeap) option" where
  "collect_scope env trace sc roots ephemerons h =
     do {
       s \<leftarrow> ofold (shade sc) roots (whiten h, []);
       h \<leftarrow> mark_worklist sc trace (fst s) (snd s);
       h \<leftarrow> ephemeron_loop sc trace ephemerons h;
       s \<leftarrow> ofold (sweep_slot sc) [0..<length (cells h)] (h, 0);
       Some (snd s, adapt_threshold_after_sweep env ((fst s)\<lparr>alloc_count := 0\<rparr>))
     }"

definition collect_with_ephemerons where
  "collect_with_ephemerons env trace roots ephemerons h = collect_scope env trace None roots ephemerons h"

definition collect where
  "collect env trace roots h = collect_with_ephemerons env trace roots [] h"

definition collect_realm_with_ephemerons where
  "collect_realm_with_ephemerons env trace ow roots ephemerons h =
     collect_scope env trace (Some ow) roots ephemerons h"

definition collect_realm where
  "collect_realm env trace ow roots h = collect_realm_with_ephemerons env trace ow roots [] h"

definition try_collect_realm_with_ephemerons ::
    "GcEnv \<Rightarrow> ('a \<Rightarrow> ObjectId list) \<Rightarrow> nat \<Rightarrow> ObjectId list \<Rightarrow> (ObjectId \<times> ObjectId) list
     \<Rightarrow> 'a GcHeap \<Rightarrow> (CrossOwnerEdge list + nat \<times> 'a GcHeap) option" where
  "try_collect_realm_with_ephemerons env trace ow roots ephemerons h =
     do {
       all \<leftarrow> cross_owner_edges trace h;
       let edges = filter (\<lambda>e. edge_to_owner e = ow) all in
       if edges \<noteq> [] then Some (Inl edges)
       else map_option Inr (collect_realm_with_ephemerons env trace ow roots ephemerons h)
     }"

definition try_collect_realm where
  "try_collect_realm env trace ow roots h = try_collect_realm_with_ephemerons env trace ow roots [] h"

definition maybe_collect ::
    "GcEnv \<Rightarrow> ('a \<Rightarrow> ObjectId list) \<Rightarrow> ObjectId list \<Rightarrow> 'a GcHeap \<Rightarrow> (nat option \<times> 'a GcHeap) option" where
  "maybe_collect env trace roots h =
     (if should_collect env h
      then map_option (\<lambda>r. (Some (fst r), snd r)) (collect env trace roots h)
      else Some (None, h))"

text \<open>Dropping a whole realm.\<close>

definition drop_slot :: "nat \<Rightarrow> nat \<Rightarrow> 'a GcHeap \<times> nat \<Rightarrow> ('a GcHeap \<times> nat) option" where
  "drop_slot ow i s =
     (let (h, freed) = s in
      do {
        own \<leftarrow> at (owners h) i;
        slot \<leftarrow> at (cells h) i;
        if own \<noteq> ow \<or> is_Free slot then Some (h, freed)
        else let h = (case slot of ExternalSlot x \<Rightarrow> h\<lparr>freed_external := freed_external h @ [x]\<rparr> | _ \<Rightarrow> h) in
          do { h \<leftarrow> fill i Free 0 h; Some (retire_slot_index i h, freed + 1) }
      })"

definition sweep_realm :: "nat \<Rightarrow> 'a GcHeap \<Rightarrow> (nat \<times> 'a GcHeap) option" where
  "sweep_realm ow h =
     map_option (\<lambda>s. (snd s, fst s)) (ofold (drop_slot ow) [0..<length (cells h)] (h, 0))"

end
