(* ===== verification/Gc_Mark.thy ===== *)
theory Gc_Mark
  imports Gc_Heap
begin

unbundle bit_operations_syntax

text \<open>
  The mark phase of a stop-the-world collection. Handles that are valid in a heap name its slots;
  the edges between slots are fixed while a collection runs, since only colours change. The
  worklist loop ends with the slots reachable from the shaded ones in black and all others in
  white, and the ephemeron loop with the least set closed under edges and ephemerons.
\<close>

section \<open>Packed handles\<close>

lemma max_generation: "OBJECT_ID_MAX_GENERATION = 127"
  by (simp add: OBJECT_ID_MAX_GENERATION_def OBJECT_ID_INDEX_BITS_def mask_eq_exp_minus_1)

lemma index_mask: "OBJECT_ID_INDEX_MASK = mask OBJECT_ID_INDEX_BITS"
  by (simp add: OBJECT_ID_INDEX_MASK_def mask_eq)

lemma index_mask_le: "idx \<le> OBJECT_ID_INDEX_MASK \<longleftrightarrow> unat idx < 2 ^ 25"
  by (auto simp: OBJECT_ID_INDEX_MASK_def OBJECT_ID_INDEX_BITS_def word_le_nat_alt)

lemma packed_fields:
  fixes idx :: u32 and g :: u16
  assumes "unat idx < 2 ^ 25" "unat g < 2 ^ 7"
  shows "(push_bit 25 (ucast g) OR idx) AND mask 25 = idx"
    "ucast (drop_bit 25 (push_bit 25 (ucast g :: u32) OR idx)) = g"
proof -
  have i: "bit idx n \<Longrightarrow> n < 25" for n
    using take_bit_self [OF assms(1)] by (metis bit_take_bit_iff)
  have g: "bit g n \<Longrightarrow> n < 7" for n
    using take_bit_self [OF assms(2)] by (metis bit_take_bit_iff)
  show "(push_bit 25 (ucast g) OR idx) AND mask 25 = idx"
    by (rule bit_word_eqI) (auto simp: bit_simps dest: i)
  show "ucast (drop_bit 25 (push_bit 25 (ucast g :: u32) OR idx)) = g"
    by (rule bit_word_eqI) (auto simp: bit_simps dest: i g)
qed

text \<open>A handle gives back the slot and the generation it was made of.\<close>

lemma ObjectId_new_eq:
  assumes "unat idx < 2 ^ 25" "g \<le> OBJECT_ID_MAX_GENERATION"
  shows "\<exists>oid. ObjectId_new idx g = Some oid \<and> slot_index oid = unat idx \<and> generation oid = g"
proof -
  have "unat g < 2 ^ 7" using assms(2) by (simp add: max_generation word_le_nat_alt)
  moreover have "ObjectId_new idx g = Some (ObjectId (push_bit 25 (ucast g) OR idx))"
    using assms(1) by (simp add: ObjectId_new_def index_mask_le OBJECT_ID_INDEX_BITS_def)
  ultimately show ?thesis
    using packed_fields [OF assms(1), of g]
    by (simp add: slot_index_def generation_def index_mask OBJECT_ID_INDEX_BITS_def)
qed

lemma unat_of_slot: "i < 2 ^ 25 \<Longrightarrow> unat (of_nat i :: u32) = i"
  by (simp add: unsigned_of_nat take_bit_nat_eq_self)

section \<open>Slots, handles and edges\<close>

definition aligned :: "'a GcHeap \<Rightarrow> bool" where
  "aligned h \<longleftrightarrow> length (colors h) = length (cells h) \<and> length (owners h) = length (cells h)
     \<and> length (generations h) = length (cells h)"

definition scoped :: "nat option \<Rightarrow> 'a GcHeap \<Rightarrow> nat \<Rightarrow> bool" where
  "scoped sc h i \<longleftrightarrow> (case sc of None \<Rightarrow> True | Some ow \<Rightarrow> owners h ! i = ow)"

definition valid :: "nat option \<Rightarrow> 'a GcHeap \<Rightarrow> ObjectId \<Rightarrow> bool" where
  "valid sc h e \<longleftrightarrow> slot_index e < length (cells h) \<and> generations h ! slot_index e = generation e
     \<and> scoped sc h (slot_index e) \<and> \<not> is_Free (cells h ! slot_index e)"

definition edge :: "nat option \<Rightarrow> ('a \<Rightarrow> ObjectId list) \<Rightarrow> 'a GcHeap \<Rightarrow> nat \<Rightarrow> nat \<Rightarrow> bool" where
  "edge sc trace h i j \<longleftrightarrow>
     (\<exists>e \<in> set (slot_edges trace (cells h ! i)). valid sc h e \<and> slot_index e = j)"

text \<open>Every slot has a handle.\<close>

definition sized :: "'a GcHeap \<Rightarrow> bool" where
  "sized h \<longleftrightarrow> aligned h \<and> length (cells h) \<le> 2 ^ 25
     \<and> (\<forall>g \<in> set (generations h). g \<le> OBJECT_ID_MAX_GENERATION)"

lemma at_Some [simp]: "i < length xs \<Longrightarrow> at xs i = Some (xs ! i)"
  by (simp add: at_def)

lemma at_None [simp]: "length xs \<le> i \<Longrightarrow> at xs i = None"
  by (simp add: at_def)

lemma put_Some [simp]: "i < length xs \<Longrightarrow> put xs i v = Some (xs[i := v])"
  by (simp add: put_def)

lemma alignedD:
  assumes "aligned h"
  shows "length (colors h) = length (cells h)" "length (owners h) = length (cells h)"
    "length (generations h) = length (cells h)"
  using assms by (simp_all add: aligned_def)

lemma scoped_colors [simp]: "scoped sc (h\<lparr>colors := cs\<rparr>) i = scoped sc h i"
  by (simp add: scoped_def split: option.split)

lemma valid_colors [simp]: "valid sc (h\<lparr>colors := cs\<rparr>) e = valid sc h e"
  by (simp add: valid_def)

lemma in_scope_eq [simp]: "aligned h \<Longrightarrow> i < length (cells h) \<Longrightarrow> in_scope sc h i = Some (scoped sc h i)"
  by (auto simp: in_scope_def scoped_def aligned_def split: option.splits)

lemma generation_matches_eq:
  "aligned h \<Longrightarrow> generation_matches h i e \<longleftrightarrow> i < length (cells h) \<and> generations h ! i = generation e"
  by (auto simp: generation_matches_def at_def aligned_def)

lemma aligned_colors [simp]:
  "aligned (h\<lparr>colors := cs\<rparr>) \<longleftrightarrow> length cs = length (cells h) \<and> length (owners h) = length (cells h)
     \<and> length (generations h) = length (cells h)"
  by (simp add: aligned_def)

lemma sized_handle:
  assumes "sized h" "i < length (cells h)"
  shows "\<exists>oid. ObjectId_new (of_nat i) (generations h ! i) = Some oid \<and> slot_index oid = i
    \<and> generation oid = generations h ! i"
proof -
  have "unat (of_nat i :: u32) = i" using assms by (intro unat_of_slot) (simp add: sized_def)
  moreover have "generations h ! i \<le> OBJECT_ID_MAX_GENERATION"
    using assms by (simp add: sized_def aligned_def)
  ultimately show ?thesis
    using ObjectId_new_eq [of "of_nat i" "generations h ! i"] assms by (auto simp: sized_def)
qed

lemma to_shade_eq:
  assumes "aligned h"
  shows "to_shade sc h e = Some (valid sc h e \<and> colors h ! slot_index e = White)"
  using assms by (auto simp: to_shade_def Let_def valid_def generation_matches_eq alignedD)

lemma skip_entry_eq: "aligned h \<Longrightarrow> valid sc h e \<Longrightarrow> skip_entry sc h e = Some False"
  by (auto simp: skip_entry_def Let_def valid_def scoped_def generation_matches_eq alignedD
      split: option.splits)

section \<open>Shading\<close>

definition shaded :: "nat set \<Rightarrow> Color list \<Rightarrow> Color list" where
  "shaded T cs = map (\<lambda>i. if i \<in> T \<and> cs ! i = White then Gray else cs ! i) [0..<length cs]"

definition targets :: "nat option \<Rightarrow> 'a GcHeap \<Rightarrow> ObjectId set \<Rightarrow> nat set" where
  "targets sc h E = slot_index ` {e \<in> E. valid sc h e}"

definition whites :: "Color list \<Rightarrow> nat set" where
  "whites cs = {i. i < length cs \<and> cs ! i = White}"

definition marked :: "Color list \<Rightarrow> nat set" where
  "marked cs = {i. i < length cs \<and> cs ! i \<noteq> White}"

lemma length_shaded [simp]: "length (shaded T cs) = length cs"
  by (simp add: shaded_def)

lemma nth_shaded:
  "i < length cs \<Longrightarrow> shaded T cs ! i = (if i \<in> T \<and> cs ! i = White then Gray else cs ! i)"
  by (simp add: shaded_def)

lemma shaded_empty [simp]: "shaded {} cs = cs"
  by (rule nth_equalityI) (simp_all add: nth_shaded)

lemma shaded_shaded [simp]: "shaded T (shaded S cs) = shaded (S \<union> T) cs"
  by (rule nth_equalityI) (auto simp: nth_shaded)

lemma shaded_insert: "i < length cs \<Longrightarrow> cs ! i = White \<Longrightarrow> cs[i := Gray] = shaded {i} cs"
  by (rule nth_equalityI) (auto simp: nth_shaded nth_list_update)

lemma shaded_marked: "i \<notin> whites cs \<Longrightarrow> shaded (insert i T) cs = shaded T cs"
  by (rule nth_equalityI) (auto simp: nth_shaded whites_def)

lemma finite_whites [simp]: "finite (whites cs)"
  by (simp add: whites_def)

lemma whites_shaded: "whites (shaded T cs) = whites cs - T"
  by (auto simp: whites_def nth_shaded split: if_splits)

lemma marked_shaded: "marked (shaded T cs) = marked cs \<union> (T \<inter> whites cs)"
  by (auto simp: marked_def whites_def nth_shaded split: if_splits)

lemma targets_range: "i \<in> targets sc h E \<Longrightarrow> i < length (cells h)"
  by (auto simp: targets_def valid_def)

lemma targets_insert:
  "targets sc h (insert e E) = (if valid sc h e then insert (slot_index e) (targets sc h E) else targets sc h E)"
  by (auto simp: targets_def)

lemma targets_empty [simp]: "targets sc h {} = {}"
  by (simp add: targets_def)

text \<open>The new entries of the worklist are the slots that were white.\<close>

definition fresh_entries :: "nat option \<Rightarrow> 'a GcHeap \<Rightarrow> nat set \<Rightarrow> ObjectId list \<Rightarrow> bool" where
  "fresh_entries sc h S ns \<longleftrightarrow>
     (\<forall>e \<in> set ns. valid sc h e) \<and> distinct (map slot_index ns) \<and> slot_index ` set ns = S"

lemma fresh_entries_Nil [simp]: "fresh_entries sc h {} []"
  by (simp add: fresh_entries_def)

lemma fresh_entries_Cons:
  "fresh_entries sc h S ns \<Longrightarrow> valid sc h e \<Longrightarrow> slot_index e \<notin> S
   \<Longrightarrow> fresh_entries sc h (insert (slot_index e) S) (e # ns)"
  by (auto simp: fresh_entries_def)

lemma fresh_entries_append:
  "fresh_entries sc h S ms \<Longrightarrow> fresh_entries sc h T ns \<Longrightarrow> S \<inter> T = {} \<Longrightarrow> fresh_entries sc h (S \<union> T) (ms @ ns)"
  by (auto simp: fresh_entries_def)

lemma fresh_entries_length: "fresh_entries sc h S ns \<Longrightarrow> length ns = card S"
  unfolding fresh_entries_def by (metis distinct_card length_map list.set_map)

lemma shade_one:
  assumes "aligned h" "length cs = length (cells h)"
  shows "shade sc e (h\<lparr>colors := cs\<rparr>, wl) =
    (if valid sc h e \<and> slot_index e \<in> whites cs
     then Some (h\<lparr>colors := shaded {slot_index e} cs\<rparr>, wl @ [e])
     else Some (h\<lparr>colors := cs\<rparr>, wl))"
  using assms
  by (auto simp: shade_def to_shade_eq alignedD whites_def valid_def shaded_insert)

lemma shade_all:
  assumes h: "aligned h" and "length cs = length (cells h)"
  shows "\<exists>ns. ofold (shade sc) es (h\<lparr>colors := cs\<rparr>, wl)
        = Some (h\<lparr>colors := shaded (targets sc h (set es)) cs\<rparr>, wl @ ns)
      \<and> fresh_entries sc h (targets sc h (set es) \<inter> whites cs) ns"
  using assms(2)
proof (induction es arbitrary: cs wl)
  case Nil
  then show ?case by (auto intro: exI [of _ "[]"])
next
  case (Cons e es)
  let ?i = "slot_index e" and ?T = "targets sc h (set es)"
  show ?case
  proof (cases "valid sc h e \<and> ?i \<in> whites cs")
    case True
    from Cons obtain ns where ns:
      "ofold (shade sc) es (h\<lparr>colors := shaded {?i} cs\<rparr>, wl @ [e])
        = Some (h\<lparr>colors := shaded ?T (shaded {?i} cs)\<rparr>, (wl @ [e]) @ ns)"
      "fresh_entries sc h (?T \<inter> whites (shaded {?i} cs)) ns"
      using Cons.IH [of "shaded {?i} cs" "wl @ [e]"] by auto
    have "fresh_entries sc h (insert ?i (?T \<inter> (whites cs - {?i}))) (e # ns)"
      using ns(2) True by (intro fresh_entries_Cons) (auto simp: whites_shaded)
    moreover have "insert ?i (?T \<inter> (whites cs - {?i})) = insert ?i ?T \<inter> whites cs" using True by auto
    ultimately show ?thesis
      using ns(1) True Cons.prems h
      by (intro exI [of _ "e # ns"]) (simp add: shade_one targets_insert)
  next
    case False
    from Cons obtain ns where ns:
      "ofold (shade sc) es (h\<lparr>colors := cs\<rparr>, wl) = Some (h\<lparr>colors := shaded ?T cs\<rparr>, wl @ ns)"
      "fresh_entries sc h (?T \<inter> whites cs) ns" by blast
    have "shaded (targets sc h (set (e # es))) cs = shaded ?T cs"
      using False by (auto simp: targets_insert shaded_marked)
    moreover have "targets sc h (set (e # es)) \<inter> whites cs = ?T \<inter> whites cs"
      using False by (auto simp: targets_insert)
    moreover have "shade sc e (h\<lparr>colors := cs\<rparr>, wl) = Some (h\<lparr>colors := cs\<rparr>, wl)"
      using False Cons.prems h by (subst shade_one) auto
    ultimately show ?thesis using ns by (intro exI [of _ ns]) (simp del: set_simps)
  qed
qed

section \<open>The worklist loop\<close>

definition grays :: "Color list \<Rightarrow> nat set" where
  "grays cs = {i. i < length cs \<and> cs ! i = Gray}"

definition settled :: "nat option \<Rightarrow> ('a \<Rightarrow> ObjectId list) \<Rightarrow> 'a GcHeap \<Rightarrow> Color list \<Rightarrow> bool" where
  "settled sc trace h cs \<longleftrightarrow>
     (\<forall>i < length cs. \<forall>j. cs ! i = Black \<longrightarrow> edge sc trace h i j \<longrightarrow> cs ! j \<noteq> White)"

definition closed :: "nat option \<Rightarrow> ('a \<Rightarrow> ObjectId list) \<Rightarrow> 'a GcHeap \<Rightarrow> nat set \<Rightarrow> bool" where
  "closed sc trace h R \<longleftrightarrow> (\<forall>i \<in> R. \<forall>j. edge sc trace h i j \<longrightarrow> j \<in> R)"

lemma edge_targets: "edge sc trace h i j \<longleftrightarrow> j \<in> targets sc h (set (slot_edges trace (cells h ! i)))"
  by (auto simp: edge_def targets_def)

lemma grays_shaded: "grays (shaded T cs) = grays cs \<union> (T \<inter> whites cs)"
  by (auto simp: grays_def whites_def nth_shaded split: if_splits)

lemma blacken_sets:
  assumes "i \<in> grays cs"
  shows "grays (cs[i := Black]) = grays cs - {i}" "whites (cs[i := Black]) = whites cs"
    "marked (cs[i := Black]) = marked cs"
  using assms by (auto simp: grays_def whites_def marked_def nth_list_update split: if_splits)

lemma settled_blacken:
  assumes "settled sc trace h cs" "length cs = length (cells h)" "i \<in> grays cs"
    and T: "\<And>j. edge sc trace h i j \<Longrightarrow> j \<in> T \<or> cs ! j \<noteq> White"
  shows "settled sc trace h (shaded T (cs[i := Black]))"
  unfolding settled_def
proof (intro allI impI)
  fix k j
  assume a: "k < length (shaded T (cs[i := Black]))" "shaded T (cs[i := Black]) ! k = Black"
    "edge sc trace h k j"
  then have "j < length cs" using assms(2) targets_range by (force simp: edge_targets)
  moreover have "j \<in> T \<or> cs ! j \<noteq> White"
  proof (cases "k = i")
    case True
    then show ?thesis using a T by simp
  next
    case False
    then show ?thesis using a assms(1) by (auto simp: settled_def nth_shaded split: if_splits)
  qed
  ultimately show "shaded T (cs[i := Black]) ! j \<noteq> White"
    by (cases "j = i") (auto simp: nth_shaded)
qed

lemma mark_worklist_step:
  fixes trace :: "'a \<Rightarrow> ObjectId list"
  assumes h: "aligned h" "length cs = length (cells h)" and wl: "wl \<noteq> []" "fresh_entries sc h (grays cs) wl"
  defines "i \<equiv> slot_index (last wl)"
  defines "T \<equiv> targets sc h (set (slot_edges trace (cells h ! i)))"
  defines "cs' \<equiv> shaded T (cs[i := Black])"
  shows "\<exists>wl'. mark_worklist sc trace (h\<lparr>colors := cs\<rparr>) wl = mark_worklist sc trace (h\<lparr>colors := cs'\<rparr>) wl'
    \<and> fresh_entries sc h (grays cs') wl' \<and> i \<in> grays cs
    \<and> card (whites cs') + length wl' < card (whites cs) + length wl"
proof -
  have v: "valid sc h (last wl)" and i: "i \<in> grays cs"
    using wl by (auto simp: fresh_entries_def i_def)
  have rest: "fresh_entries sc h (grays cs - {i}) (butlast wl)"
  proof -
    have "wl = butlast wl @ [last wl]" using wl by simp
    then have "fresh_entries sc h (grays cs) (butlast wl @ [last wl])" using wl by simp
    then show ?thesis by (auto simp: fresh_entries_def i_def) (metis imageI)
  qed
  obtain ns where ns: "ofold (shade sc) (slot_edges trace (cells h ! i)) (h\<lparr>colors := cs[i := Black]\<rparr>, butlast wl)
      = Some (h\<lparr>colors := cs'\<rparr>, butlast wl @ ns)" "fresh_entries sc h (T \<inter> whites cs) ns"
    using shade_all [OF h(1), of "cs[i := Black]" sc "slot_edges trace (cells h ! i)" "butlast wl"] h i
    by (auto simp: T_def cs'_def blacken_sets)
  have "i < length (cells h)" using i h by (simp add: grays_def)
  then have "mark_worklist sc trace (h\<lparr>colors := cs\<rparr>) wl
      = mark_worklist sc trace (h\<lparr>colors := cs'\<rparr>) (butlast wl @ ns)"
    using h wl v ns(1)
    by (subst mark_worklist.simps) (simp add: skip_entry_eq alignedD Let_def flip: i_def)
  moreover have "fresh_entries sc h (grays cs') (butlast wl @ ns)"
  proof -
    have "(grays cs - {i}) \<inter> (T \<inter> whites cs) = {}" by (auto simp: grays_def whites_def)
    then show ?thesis
      using fresh_entries_append [OF rest ns(2)] by (simp add: cs'_def grays_shaded blacken_sets i)
  qed
  moreover have "card (whites cs') + length (butlast wl @ ns) < card (whites cs) + length wl"
  proof -
    have "card (whites cs') + card (T \<inter> whites cs) = card (whites cs)"
      by (subst card_Un_disjoint [symmetric]) (auto simp: cs'_def whites_shaded blacken_sets i intro: arg_cong [of _ _ card])
    then show ?thesis using fresh_entries_length [OF ns(2)] wl by (cases wl) auto
  qed
  ultimately show ?thesis using i by blast
qed

lemma mark_worklist_spec:
  assumes h: "aligned h"
  shows "length cs = length (cells h) \<Longrightarrow> fresh_entries sc h (grays cs) wl \<Longrightarrow> settled sc trace h cs
    \<Longrightarrow> \<exists>cs'. mark_worklist sc trace (h\<lparr>colors := cs\<rparr>) wl = Some (h\<lparr>colors := cs'\<rparr>)
      \<and> length cs' = length (cells h) \<and> grays cs' = {} \<and> settled sc trace h cs'
      \<and> marked cs \<subseteq> marked cs'
      \<and> (\<forall>R. marked cs \<subseteq> R \<longrightarrow> closed sc trace h R \<longrightarrow> marked cs' \<subseteq> R)"
proof (induction "card (whites cs) + length wl" arbitrary: cs wl rule: less_induct)
  case less
  show ?case
  proof (cases "wl = []")
    case True
    then have "grays cs = {}" using less.prems by (simp add: fresh_entries_def)
    then show ?thesis using True less.prems by (intro exI [of _ cs]) (subst mark_worklist.simps, simp)
  next
    case False
    let ?i = "slot_index (last wl)"
    let ?T = "targets sc h (set (slot_edges trace (cells h ! ?i)))"
    let ?cs = "shaded ?T (cs[?i := Black])"
    obtain wl' where wl': "mark_worklist sc trace (h\<lparr>colors := cs\<rparr>) wl = mark_worklist sc trace (h\<lparr>colors := ?cs\<rparr>) wl'"
      "fresh_entries sc h (grays ?cs) wl'" "?i \<in> grays cs"
      "card (whites ?cs) + length wl' < card (whites cs) + length wl"
      using mark_worklist_step [OF h less.prems(1) False less.prems(2), of trace] by blast
    have st: "settled sc trace h ?cs"
      using settled_blacken [OF less.prems(3,1) wl'(3), of ?T] by (simp add: edge_targets)
    have m: "marked ?cs = marked cs \<union> (?T \<inter> whites cs)" by (simp add: marked_shaded blacken_sets wl'(3))
    obtain cs' where cs': "mark_worklist sc trace (h\<lparr>colors := ?cs\<rparr>) wl' = Some (h\<lparr>colors := cs'\<rparr>)"
      "length cs' = length (cells h)" "grays cs' = {}" "settled sc trace h cs'" "marked ?cs \<subseteq> marked cs'"
      "\<And>R. marked ?cs \<subseteq> R \<Longrightarrow> closed sc trace h R \<Longrightarrow> marked cs' \<subseteq> R"
      using less.hyps [OF wl'(4) _ wl'(2) st] less.prems(1) by auto
    have "marked cs' \<subseteq> R" if R: "marked cs \<subseteq> R" "closed sc trace h R" for R
    proof (rule cs'(6) [OF _ R(2)])
      have "?i \<in> R" using wl'(3) R(1) by (auto simp: grays_def marked_def)
      then show "marked ?cs \<subseteq> R" using R m by (auto simp: closed_def edge_targets)
    qed
    then show ?thesis using cs' wl'(1) m by (intro exI [of _ cs']) auto
  qed
qed

section \<open>The ephemeron loop\<close>

definition eph_closed ::
    "nat option \<Rightarrow> 'a GcHeap \<Rightarrow> (ObjectId \<times> ObjectId) list \<Rightarrow> nat set \<Rightarrow> bool" where
  "eph_closed sc h eph R \<longleftrightarrow>
     (\<forall>(k, v) \<in> set eph. valid sc h k \<longrightarrow> valid sc h v \<longrightarrow> slot_index k \<in> R \<longrightarrow> slot_index v \<in> R)"

lemma eph_closed_Cons:
  "eph_closed sc h (kv # eph) R \<longleftrightarrow>
     (valid sc h (fst kv) \<longrightarrow> valid sc h (snd kv) \<longrightarrow> slot_index (fst kv) \<in> R \<longrightarrow> slot_index (snd kv) \<in> R)
     \<and> eph_closed sc h eph R"
  by (auto simp: eph_closed_def split: prod.splits)

lemma eph_closed_Nil [simp]: "eph_closed sc h [] R"
  by (simp add: eph_closed_def)

lemma ephemeron_ready_eq:
  assumes "aligned h"
  shows "ephemeron_ready sc h kv = Some (valid sc h (fst kv) \<and> valid sc h (snd kv)
    \<and> colors h ! slot_index (fst kv) \<noteq> White \<and> colors h ! slot_index (snd kv) = White)"
  using assms
  by (auto simp: ephemeron_ready_def Let_def valid_def generation_matches_eq alignedD)

lemma visit_ephemeron_eq:
  assumes "aligned h" "length cs = length (cells h)"
  shows "visit_ephemeron sc kv (h\<lparr>colors := cs\<rparr>, wl, ch) =
    (if valid sc h (fst kv) \<and> valid sc h (snd kv)
        \<and> slot_index (fst kv) \<in> marked cs \<and> slot_index (snd kv) \<in> whites cs
     then Some (h\<lparr>colors := shaded {slot_index (snd kv)} cs\<rparr>, wl @ [snd kv], True)
     else Some (h\<lparr>colors := cs\<rparr>, wl, ch))"
  using assms
  by (auto simp: visit_ephemeron_def ephemeron_ready_eq alignedD valid_def marked_def whites_def shaded_insert)

text \<open>One round over the ephemerons shades a set \<open>S\<close> of white slots.\<close>

definition eph_round ::
    "nat option \<Rightarrow> 'a GcHeap \<Rightarrow> (ObjectId \<times> ObjectId) list \<Rightarrow> Color list \<Rightarrow> nat set \<Rightarrow> ObjectId list \<Rightarrow> bool" where
  "eph_round sc h eph cs S ns \<longleftrightarrow>
     fresh_entries sc h S ns \<and> S \<subseteq> whites cs
     \<and> (\<forall>R. marked cs \<subseteq> R \<longrightarrow> eph_closed sc h eph R \<longrightarrow> S \<subseteq> R)
     \<and> (S = {} \<longrightarrow> eph_closed sc h eph (marked cs))"

lemma not_white: "i < length cs \<Longrightarrow> i \<notin> whites cs \<longleftrightarrow> i \<in> marked cs"
  by (auto simp: whites_def marked_def)

lemma visit_all:
  assumes h: "aligned h" and "length cs = length (cells h)"
  shows "\<exists>S ns. ofold (visit_ephemeron sc) eph (h\<lparr>colors := cs\<rparr>, wl, ch)
        = Some (h\<lparr>colors := shaded S cs\<rparr>, wl @ ns, ch \<or> S \<noteq> {})
      \<and> eph_round sc h eph cs S ns"
  using assms(2)
proof (induction eph arbitrary: cs wl ch)
  case Nil
  then show ?case by (intro exI [of _ "{}"] exI [of _ "[]"]) (simp add: eph_round_def)
next
  case (Cons kv eph)
  let ?k = "slot_index (fst kv)" and ?v = "slot_index (snd kv)"
  show ?case
  proof (cases "valid sc h (fst kv) \<and> valid sc h (snd kv) \<and> ?k \<in> marked cs \<and> ?v \<in> whites cs")
    case True
    obtain S ns where IH: "ofold (visit_ephemeron sc) eph (h\<lparr>colors := shaded {?v} cs\<rparr>, wl @ [snd kv], True)
        = Some (h\<lparr>colors := shaded S (shaded {?v} cs)\<rparr>, (wl @ [snd kv]) @ ns, True \<or> S \<noteq> {})"
      "eph_round sc h eph (shaded {?v} cs) S ns"
      using Cons.IH [of "shaded {?v} cs" "wl @ [snd kv]" True] Cons.prems by auto
    have "eph_round sc h (kv # eph) cs (insert ?v S) (snd kv # ns)"
      using IH(2) True
      by (auto simp: eph_round_def eph_closed_Cons whites_shaded marked_shaded intro!: fresh_entries_Cons)
    moreover have "shaded S (shaded {?v} cs) = shaded (insert ?v S) cs" by simp
    ultimately show ?thesis
      using IH(1) True Cons.prems h
      by (intro exI [of _ "insert ?v S"] exI [of _ "snd kv # ns"]) (simp add: visit_ephemeron_eq)
  next
    case False
    obtain S ns where IH: "ofold (visit_ephemeron sc) eph (h\<lparr>colors := cs\<rparr>, wl, ch)
        = Some (h\<lparr>colors := shaded S cs\<rparr>, wl @ ns, ch \<or> S \<noteq> {})" "eph_round sc h eph cs S ns"
      using Cons by blast
    have "eph_round sc h (kv # eph) cs S ns"
      using IH(2) False Cons.prems not_white [of "slot_index (snd kv)" cs]
      by (auto simp: eph_round_def eph_closed_Cons valid_def)
    moreover have "visit_ephemeron sc kv (h\<lparr>colors := cs\<rparr>, wl, ch) = Some (h\<lparr>colors := cs\<rparr>, wl, ch)"
      using False Cons.prems h by (subst visit_ephemeron_eq) auto
    ultimately show ?thesis using IH(1) by (intro exI [of _ S] exI [of _ ns]) simp
  qed
qed

lemma settled_closed:
  assumes "settled sc trace h cs" "grays cs = {}" "length cs = length (cells h)"
  shows "closed sc trace h (marked cs)"
  unfolding closed_def
proof (intro ballI allI impI)
  fix i j assume i: "i \<in> marked cs" and e: "edge sc trace h i j"
  have "cs ! i = Black" using i assms(2) by (cases "cs ! i") (auto simp: marked_def grays_def)
  moreover have "j < length cs" using e assms(3) targets_range by (force simp: edge_targets)
  ultimately show "j \<in> marked cs" using i e assms(1) by (auto simp: settled_def marked_def)
qed

lemma settled_shaded:
  assumes "settled sc trace h cs" "length cs = length (cells h)"
  shows "settled sc trace h (shaded S cs)"
  using assms targets_range by (fastforce simp: settled_def nth_shaded edge_targets split: if_splits)

lemma ephemeron_loop_spec:
  assumes h: "aligned h"
  shows "length cs = length (cells h) \<Longrightarrow> grays cs = {} \<Longrightarrow> settled sc trace h cs
    \<Longrightarrow> \<exists>cs'. ephemeron_loop sc trace eph (h\<lparr>colors := cs\<rparr>) = Some (h\<lparr>colors := cs'\<rparr>)
      \<and> length cs' = length (cells h) \<and> grays cs' = {} \<and> closed sc trace h (marked cs')
      \<and> eph_closed sc h eph (marked cs') \<and> marked cs \<subseteq> marked cs'
      \<and> (\<forall>R. marked cs \<subseteq> R \<longrightarrow> closed sc trace h R \<longrightarrow> eph_closed sc h eph R \<longrightarrow> marked cs' \<subseteq> R)"
proof (induction "card (whites cs)" arbitrary: cs rule: less_induct)
  case less
  obtain S ns where S: "ofold (visit_ephemeron sc) eph (h\<lparr>colors := cs\<rparr>, [], False)
      = Some (h\<lparr>colors := shaded S cs\<rparr>, ns, S \<noteq> {})" "eph_round sc h eph cs S ns"
    using visit_all [OF h less.prems(1), of sc eph "[]" False] by auto
  have "S \<subseteq> whites cs" using S(2) by (simp add: eph_round_def)
  then have g: "grays (shaded S cs) = S" using less.prems by (auto simp: grays_shaded)
  have m: "marked (shaded S cs) = marked cs \<union> S" using \<open>S \<subseteq> whites cs\<close> by (auto simp: marked_shaded)
  obtain cs2 where cs2: "mark_worklist sc trace (h\<lparr>colors := shaded S cs\<rparr>) ns = Some (h\<lparr>colors := cs2\<rparr>)"
    "length cs2 = length (cells h)" "grays cs2 = {}" "settled sc trace h cs2" "marked cs \<union> S \<subseteq> marked cs2"
    "\<And>R. marked cs \<union> S \<subseteq> R \<Longrightarrow> closed sc trace h R \<Longrightarrow> marked cs2 \<subseteq> R"
    using mark_worklist_spec [OF h, of "shaded S cs" sc ns trace] less.prems S(2) g m
      settled_shaded [OF less.prems(3,1)]
    by (auto simp: eph_round_def)
  have sound: "marked cs2 \<subseteq> R" if "marked cs \<subseteq> R" "closed sc trace h R" "eph_closed sc h eph R" for R
    using that S(2) by (intro cs2(6)) (auto simp: eph_round_def)
  show ?case
  proof (cases "S = {}")
    case True
    have "marked cs2 = marked cs"
      using cs2(5) cs2(6) [of "marked cs"] settled_closed [OF less.prems(3,2,1)] True by auto
    moreover have "eph_closed sc h eph (marked cs)" using S(2) True by (simp add: eph_round_def)
    ultimately show ?thesis
      using cs2 S(1) True settled_closed [OF less.prems(3,2,1)]
      by (intro exI [of _ cs2]) (subst ephemeron_loop.simps, simp)
  next
    case False
    have "whites cs2 \<subset> whites cs"
      using False \<open>S \<subseteq> whites cs\<close> cs2(2,5) less.prems(1) by (auto simp: marked_def whites_def)
    then have "card (whites cs2) < card (whites cs)" by (simp add: psubset_card_mono)
    from less.hyps [OF this cs2(2,3,4)] obtain cs' where cs':
      "ephemeron_loop sc trace eph (h\<lparr>colors := cs2\<rparr>) = Some (h\<lparr>colors := cs'\<rparr>)"
      "length cs' = length (cells h)" "grays cs' = {}" "closed sc trace h (marked cs')"
      "eph_closed sc h eph (marked cs')" "marked cs2 \<subseteq> marked cs'"
      "\<And>R. marked cs2 \<subseteq> R \<Longrightarrow> closed sc trace h R \<Longrightarrow> eph_closed sc h eph R \<Longrightarrow> marked cs' \<subseteq> R"
      by blast
    have "ephemeron_loop sc trace eph (h\<lparr>colors := cs\<rparr>) = Some (h\<lparr>colors := cs'\<rparr>)"
      using S(1) False cs2(1) cs'(1) by (subst ephemeron_loop.simps) simp
    then show ?thesis using cs' cs2(5) sound by (intro exI [of _ cs']) auto
  qed
qed

end
