(* ===== verification/Gc_Collect.thy ===== *)
theory Gc_Collect
  imports Gc_Mark
begin

unbundle bit_operations_syntax

text \<open>
  A stop-the-world collection as a whole, of the heap or of one realm: it always returns, and it
  frees exactly the slots in its scope that are not kept. A slot is kept when it is reachable
  from the roots through the edges that \<open>trace\<close> reports and through ephemerons with a kept key.
\<close>

section \<open>What a collection has to keep\<close>

inductive kept ::
    "nat option \<Rightarrow> ('a \<Rightarrow> ObjectId list) \<Rightarrow> 'a GcHeap \<Rightarrow> ObjectId list \<Rightarrow> (ObjectId \<times> ObjectId) list
     \<Rightarrow> nat \<Rightarrow> bool"
  for sc trace h roots eph where
  kept_root: "r \<in> set roots \<Longrightarrow> valid sc h r \<Longrightarrow> kept sc trace h roots eph (slot_index r)"
| kept_edge: "kept sc trace h roots eph i \<Longrightarrow> edge sc trace h i j \<Longrightarrow> kept sc trace h roots eph j"
| kept_ephemeron: "kept sc trace h roots eph (slot_index k) \<Longrightarrow> (k, v) \<in> set eph
    \<Longrightarrow> valid sc h k \<Longrightarrow> valid sc h v \<Longrightarrow> kept sc trace h roots eph (slot_index v)"

lemma kept_valid:
  "kept sc trace h roots eph i \<Longrightarrow> i < length (cells h) \<and> scoped sc h i \<and> \<not> is_Free (cells h ! i)"
  by (induction rule: kept.induct) (auto simp: edge_def valid_def)

lemma kept_closed: "closed sc trace h {i. kept sc trace h roots eph i}"
  by (auto simp: closed_def intro: kept_edge)

lemma kept_eph_closed: "eph_closed sc h eph {i. kept sc trace h roots eph i}"
  by (auto simp: eph_closed_def intro: kept_ephemeron)

lemma kept_least:
  assumes "kept sc trace h roots eph i"
    and "targets sc h (set roots) \<subseteq> R" "closed sc trace h R" "eph_closed sc h eph R"
  shows "i \<in> R"
  using assms(1) assms(2-)
  by (induction rule: kept.induct) (auto simp: targets_def closed_def eph_closed_def)

section \<open>The mark phase\<close>

definition mark_phase ::
    "nat option \<Rightarrow> ('a \<Rightarrow> ObjectId list) \<Rightarrow> ObjectId list \<Rightarrow> (ObjectId \<times> ObjectId) list
     \<Rightarrow> 'a GcHeap \<Rightarrow> 'a GcHeap option" where
  "mark_phase sc trace roots eph h =
     do {
       s \<leftarrow> ofold (shade sc) roots (whiten h, []);
       h \<leftarrow> mark_worklist sc trace (fst s) (snd s);
       ephemeron_loop sc trace eph h
     }"

lemma whiten_sets:
  "grays (map (\<lambda>_. White) cs) = {}" "marked (map (\<lambda>_. White) cs) = {}"
  "whites (map (\<lambda>_. White) cs) = {..<length cs}"
  by (auto simp: grays_def marked_def whites_def)

lemma mark_phase_spec:
  assumes h: "aligned h"
  shows "\<exists>cs. mark_phase sc trace roots eph h = Some (h\<lparr>colors := cs\<rparr>)
    \<and> length cs = length (cells h) \<and> grays cs = {} \<and> marked cs = {i. kept sc trace h roots eph i}"
proof -
  let ?ws = "map (\<lambda>_. White) (colors h)" and ?T = "targets sc h (set roots)"
  have n: "length ?ws = length (cells h)" using h by (simp add: alignedD)
  have T: "?T \<subseteq> {..<length (cells h)}" by (auto dest: targets_range)
  obtain wl where wl: "ofold (shade sc) roots (whiten h, []) = Some (h\<lparr>colors := shaded ?T ?ws\<rparr>, wl)"
    "fresh_entries sc h (?T \<inter> whites ?ws) wl"
    using shade_all [OF h n, of sc roots "[]"] by (auto simp: whiten_def)
  have sets: "grays (shaded ?T ?ws) = ?T" "marked (shaded ?T ?ws) = ?T"
    using T n by (auto simp: grays_shaded marked_shaded whiten_sets)
  have "settled sc trace h (shaded ?T ?ws)" by (auto simp: settled_def nth_shaded split: if_splits)
  then obtain c1 where c1:
    "mark_worklist sc trace (h\<lparr>colors := shaded ?T ?ws\<rparr>) wl = Some (h\<lparr>colors := c1\<rparr>)"
    "length c1 = length (cells h)" "grays c1 = {}" "settled sc trace h c1" "?T \<subseteq> marked c1"
    "\<And>R. ?T \<subseteq> R \<Longrightarrow> closed sc trace h R \<Longrightarrow> marked c1 \<subseteq> R"
    using mark_worklist_spec [OF h, of "shaded ?T ?ws" sc wl trace] wl(2) sets n T
    by (auto simp: whiten_sets Int_absorb2)
  obtain cs where cs: "ephemeron_loop sc trace eph (h\<lparr>colors := c1\<rparr>) = Some (h\<lparr>colors := cs\<rparr>)"
    "length cs = length (cells h)" "grays cs = {}" "closed sc trace h (marked cs)"
    "eph_closed sc h eph (marked cs)" "marked c1 \<subseteq> marked cs"
    "\<And>R. marked c1 \<subseteq> R \<Longrightarrow> closed sc trace h R \<Longrightarrow> eph_closed sc h eph R \<Longrightarrow> marked cs \<subseteq> R"
    using ephemeron_loop_spec [OF h c1(2,3,4), of eph] by blast
  have "?T \<subseteq> {i. kept sc trace h roots eph i}" by (auto simp: targets_def intro: kept_root)
  then have "marked cs \<subseteq> {i. kept sc trace h roots eph i}"
    by (intro cs(7) c1(6) kept_closed kept_eph_closed)
  moreover have "{i. kept sc trace h roots eph i} \<subseteq> marked cs"
    using kept_least [OF _ _ cs(4,5), of roots] c1(5) cs(6) by blast
  ultimately show ?thesis
    using wl(1) c1(1) cs(1,2,3) by (intro exI [of _ cs]) (auto simp: mark_phase_def)
qed

section \<open>The sweep\<close>

text \<open>The heap after the first \<open>k\<close> slots have been swept.\<close>

definition doomed :: "nat option \<Rightarrow> 'a GcHeap \<Rightarrow> nat \<Rightarrow> bool" where
  "doomed sc h i \<longleftrightarrow> scoped sc h i \<and> colors h ! i = White \<and> \<not> is_Free (cells h ! i)"

definition reusable :: "'a GcHeap \<Rightarrow> nat \<Rightarrow> bool" where
  "reusable h i \<longleftrightarrow> generations h ! i < OBJECT_ID_MAX_GENERATION"

definition external_of :: "'a Slot \<Rightarrow> ExternalHandle list" where
  "external_of s = (case s of ExternalSlot x \<Rightarrow> [x] | _ \<Rightarrow> [])"

definition swept_cells where
  "swept_cells P h k = map (\<lambda>i. if i < k \<and> P i then Free else cells h ! i) [0..<length (cells h)]"

definition swept_owners where
  "swept_owners P h k = map (\<lambda>i. if i < k \<and> P i then 0 else owners h ! i) [0..<length (cells h)]"

definition swept_generations where
  "swept_generations P h k =
     map (\<lambda>i. if i < k \<and> P i \<and> reusable h i then generations h ! i + 1 else generations h ! i)
       [0..<length (cells h)]"

definition swept :: "nat option \<Rightarrow> 'a GcHeap \<Rightarrow> nat \<Rightarrow> 'a GcHeap" where
  "swept sc h k = h\<lparr>
     cells := swept_cells (doomed sc h) h k,
     colors := map (\<lambda>i. if i < k \<and> colors h ! i = Black then White else colors h ! i) [0..<length (cells h)],
     owners := swept_owners (doomed sc h) h k,
     generations := swept_generations (doomed sc h) h k,
     free_list := free_list h @ map of_nat (filter (\<lambda>i. doomed sc h i \<and> reusable h i) [0..<k]),
     freed_external := freed_external h
       @ concat (map (\<lambda>i. external_of (cells h ! i)) (filter (doomed sc h) [0..<k]))\<rparr>"

definition doomed_count :: "nat option \<Rightarrow> 'a GcHeap \<Rightarrow> nat \<Rightarrow> nat" where
  "doomed_count sc h k = length (filter (doomed sc h) [0..<k])"

lemma map_upto_update:
  assumes "k < n" "\<And>i. i < n \<Longrightarrow> i \<noteq> k \<Longrightarrow> g i = f i" "g k = v"
  shows "(map f [0..<n])[k := v] = map g [0..<n]"
  using assms by (auto intro!: nth_equalityI simp: nth_list_update)

lemma map_upto_same:
  assumes "\<And>i. i < n \<Longrightarrow> g i = f i"
  shows "map f [0..<n] = map g [0..<n]"
  using assms by auto

lemma swept_0: "aligned h \<Longrightarrow> swept sc h 0 = h"
  by (rule GcHeap.equality)
    (auto simp: swept_def swept_cells_def swept_owners_def swept_generations_def alignedD
      intro: nth_equalityI)

lemma swept_nth:
  assumes "k < length (cells h)"
  shows "cells (swept sc h k) ! k = cells h ! k" "colors (swept sc h k) ! k = colors h ! k"
    "owners (swept sc h k) ! k = owners h ! k" "generations (swept sc h k) ! k = generations h ! k"
    "scoped sc (swept sc h k) k = scoped sc h k"
  using assms
  by (simp_all add: swept_def swept_cells_def swept_owners_def swept_generations_def scoped_def
      split: option.split)

lemma length_swept [simp]:
  "length (cells (swept sc h k)) = length (cells h)"
  "length (colors (swept sc h k)) = length (cells h)"
  "length (owners (swept sc h k)) = length (cells h)"
  "length (generations (swept sc h k)) = length (cells h)"
  by (simp_all add: swept_def swept_cells_def swept_owners_def swept_generations_def)

lemma swept_frame:
  "no_slot_reuse (swept sc h k) = no_slot_reuse h" "alloc_count (swept sc h k) = alloc_count h"
  "threshold (swept sc h k) = threshold h" "growth_permille (swept sc h k) = growth_permille h"
  "soft_target_bytes (swept sc h k) = soft_target_bytes h"
  "external_bytes_since_collect (swept sc h k) = external_bytes_since_collect h"
  "external_byte_threshold (swept sc h k) = external_byte_threshold h"
  "oom (swept sc h k) = oom h" "oom_sentinel (swept sc h k) = oom_sentinel h"
  by (simp_all add: swept_def)

lemma aligned_swept [simp]: "aligned (swept sc h k)"
  by (simp add: aligned_def)

text \<open>Sweeping a slot that is not doomed changes at most its colour.\<close>

lemma swept_Suc_spared:
  assumes "k < length (cells h)" "\<not> doomed sc h k"
  shows "swept sc h (Suc k) =
    (if colors h ! k = Black
     then (swept sc h k)\<lparr>colors := (colors (swept sc h k))[k := White]\<rparr> else swept sc h k)"
  using assms
  by (intro GcHeap.equality)
    (auto simp: swept_def swept_cells_def swept_owners_def swept_generations_def less_Suc_eq
      intro!: map_upto_update [symmetric])

lemma release_slot_eq:
  assumes "k < length (cells h)" "length (owners h) = length (cells h)" "length (generations h) = length (cells h)"
  shows "release_slot k h = Some (h\<lparr>
    cells := (cells h)[k := Free], owners := (owners h)[k := 0],
    generations := (if reusable h k then (generations h)[k := generations h ! k + 1] else generations h),
    free_list := (if reusable h k then free_list h @ [of_nat k] else free_list h)\<rparr>)"
  using assms by (simp add: release_slot_def retire_slot_index_def reusable_def)

lemma swept_Suc_doomed:
  assumes "k < length (cells h)" "doomed sc h k"
  shows "release_slot k ((swept sc h k)
      \<lparr>freed_external := freed_external (swept sc h k) @ external_of (cells h ! k)\<rparr>)
    = Some (swept sc h (Suc k))"
proof -
  have fields: "(cells (swept sc h k))[k := Free] = cells (swept sc h (Suc k))"
    "(owners (swept sc h k))[k := 0] = owners (swept sc h (Suc k))"
    "generations (swept sc h (Suc k)) =
      (if reusable h k then (generations (swept sc h k))[k := generations h ! k + 1] else generations (swept sc h k))"
    "colors (swept sc h (Suc k)) = colors (swept sc h k)"
    "free_list (swept sc h (Suc k)) =
      (if reusable h k then free_list (swept sc h k) @ [of_nat k] else free_list (swept sc h k))"
    "freed_external (swept sc h (Suc k)) = freed_external (swept sc h k) @ external_of (cells h ! k)"
    using assms
    by (auto simp: swept_def swept_cells_def swept_owners_def swept_generations_def less_Suc_eq doomed_def
        intro!: map_upto_update map_upto_update [symmetric])
  have "reusable (swept sc h k) k = reusable h k" using assms by (simp add: reusable_def swept_nth)
  then show ?thesis
    using assms fields
    by (subst release_slot_eq) (auto intro!: GcHeap.equality simp: swept_nth reusable_def swept_frame)
qed

lemma sweep_slot_swept:
  assumes "aligned h" "k < length (cells h)"
  shows "sweep_slot sc k (swept sc h k, doomed_count sc h k)
    = Some (swept sc h (Suc k), doomed_count sc h (Suc k))"
proof (cases "doomed sc h k")
  case True
  then show ?thesis
    using assms swept_Suc_doomed [OF assms(2) True]
    by (cases "cells h ! k")
      (auto simp: sweep_slot_def swept_nth doomed_def doomed_count_def external_of_def)
next
  case False
  then show ?thesis
    using assms swept_Suc_spared [OF assms(2) False]
    by (cases "cells h ! k"; cases "colors h ! k")
      (auto simp: sweep_slot_def swept_nth doomed_def doomed_count_def)
qed

lemma ofold_append: "ofold f (xs @ ys) s = ofold f xs s \<bind> ofold f ys"
proof (induction xs arbitrary: s)
  case (Cons x xs)
  have "ofold f (xs @ ys) = (\<lambda>s. ofold f xs s \<bind> ofold f ys)" by (rule ext) (rule Cons.IH)
  then show ?case by (simp add: Option.bind_assoc)
qed simp

lemma sweep_prefix:
  assumes "aligned h"
  shows "k \<le> length (cells h) \<Longrightarrow> ofold (sweep_slot sc) [0..<k] (h, 0) = Some (swept sc h k, doomed_count sc h k)"
proof (induction k)
  case 0
  then show ?case using assms by (simp add: swept_0 doomed_count_def)
next
  case (Suc k)
  then show ?case using sweep_slot_swept [OF assms, of k sc] by (simp add: ofold_append)
qed

section \<open>A collection as a whole\<close>

text \<open>What a sweep that frees the slots \<open>P\<close> does to a heap, colours and counters apart.\<close>

definition frees :: "(nat \<Rightarrow> bool) \<Rightarrow> 'a GcHeap \<Rightarrow> 'a GcHeap \<Rightarrow> bool" where
  "frees P h h' \<longleftrightarrow>
     cells h' = swept_cells P h (length (cells h)) \<and> owners h' = swept_owners P h (length (cells h))
     \<and> generations h' = swept_generations P h (length (cells h))
     \<and> length (colors h') = length (cells h)
     \<and> free_list h' = free_list h @ map of_nat (filter (\<lambda>i. P i \<and> reusable h i) [0..<length (cells h)])
     \<and> freed_external h' = freed_external h
         @ concat (map (\<lambda>i. external_of (cells h ! i)) (filter P [0..<length (cells h)]))
     \<and> no_slot_reuse h' = no_slot_reuse h \<and> oom h' = oom h \<and> oom_sentinel h' = oom_sentinel h"

lemma frees_nth:
  assumes "frees P h h'" "i < length (cells h)"
  shows "cells h' ! i = (if P i then Free else cells h ! i)"
    "owners h' ! i = (if P i then 0 else owners h ! i)"
    "generations h' ! i = (if P i \<and> reusable h i then generations h ! i + 1 else generations h ! i)"
  using assms by (simp_all add: frees_def swept_cells_def swept_owners_def swept_generations_def)

lemma frees_length:
  assumes "frees P h h'"
  shows "length (cells h') = length (cells h)" "length (owners h') = length (cells h)"
    "length (generations h') = length (cells h)" "aligned h'"
  using assms by (simp_all add: frees_def aligned_def swept_cells_def swept_owners_def swept_generations_def)

lemma frees_cong: "frees P h h' \<Longrightarrow> (\<And>i. i < length (cells h) \<Longrightarrow> P i = Q i) \<Longrightarrow> frees Q h h'"
  by (auto simp: frees_def swept_cells_def swept_owners_def swept_generations_def
      intro!: arg_cong [of _ _ concat] arg_cong [of _ _ "map _"] filter_cong)

text \<open>Access to a heap in which the slots \<open>P\<close> have been freed.\<close>

lemma frees_access:
  assumes f: "frees P h h'" and h: "aligned h" and P: "P (slot_index e) \<Longrightarrow> slot_index e < length (cells h)"
  shows "GcHeap_get h' e = (if P (slot_index e) then None else GcHeap_get h e)"
    "is_external_handle h' e \<longleftrightarrow> \<not> P (slot_index e) \<and> is_external_handle h e"
    "owner h' e = (if P (slot_index e) then None else owner h e)"
proof -
  let ?i = "slot_index e"
  have l: "aligned h'" "length (cells h') = length (cells h)" using frees_length [OF f] by simp_all
  have "at (cells h') ?i = (if P ?i then Some Free else at (cells h) ?i)"
    using frees_nth(1) [OF f, of ?i] P l by (cases "?i < length (cells h)") auto
  moreover have "at (owners h') ?i = at (owners h) ?i" if "\<not> P ?i"
    using frees_nth(2) [OF f, of ?i] that l h by (cases "?i < length (cells h)") (auto simp: alignedD)
  moreover have "generation_matches h' ?i e = generation_matches h ?i e" if "\<not> P ?i"
    using frees_nth(3) [OF f, of ?i] that l h by (auto simp: generation_matches_eq)
  ultimately show "GcHeap_get h' e = (if P ?i then None else GcHeap_get h e)"
    "is_external_handle h' e \<longleftrightarrow> \<not> P ?i \<and> is_external_handle h e"
    "owner h' e = (if P ?i then None else owner h e)"
    by (auto simp: GcHeap_get_def is_external_handle_def owner_def Let_def split: option.split)
qed

definition reclaimed ::
    "nat option \<Rightarrow> ('a \<Rightarrow> ObjectId list) \<Rightarrow> 'a GcHeap \<Rightarrow> ObjectId list \<Rightarrow> (ObjectId \<times> ObjectId) list
     \<Rightarrow> nat \<Rightarrow> bool" where
  "reclaimed sc trace h roots eph i \<longleftrightarrow>
     i < length (cells h) \<and> scoped sc h i \<and> \<not> is_Free (cells h ! i) \<and> \<not> kept sc trace h roots eph i"

lemma frees_swept:
  assumes "aligned h" "length cs = length (cells h)"
  shows "frees (doomed sc (h\<lparr>colors := cs\<rparr>)) h (swept sc (h\<lparr>colors := cs\<rparr>) (length (cells h)))"
  using assms
  by (auto simp: frees_def swept_def swept_cells_def swept_owners_def swept_generations_def reusable_def
      intro!: map_upto_same)

lemma frees_adapt [simp]:
  "frees P h (adapt_threshold_after_sweep env h') = frees P h h'"
  "frees P h (h'\<lparr>alloc_count := n\<rparr>) = frees P h h'"
  by (simp_all add: frees_def adapt_threshold_after_sweep_def Let_def)

lemma swept_colors:
  assumes "grays cs = {}" "length cs = length (cells h)"
  shows "colors (swept sc (h\<lparr>colors := cs\<rparr>) (length (cells h))) = replicate (length (cells h)) White"
proof (rule nth_equalityI)
  fix i assume "i < length (colors (swept sc (h\<lparr>colors := cs\<rparr>) (length (cells h))))"
  then have "i < length (cells h)" "cs ! i \<noteq> Gray" using assms by (auto simp: grays_def)
  then show "colors (swept sc (h\<lparr>colors := cs\<rparr>) (length (cells h))) ! i = replicate (length (cells h)) White ! i"
    by (cases "cs ! i") (simp_all add: swept_def)
qed simp

lemma collect_scope_eq:
  assumes "aligned h" "mark_phase sc trace roots eph h = Some (h\<lparr>colors := cs\<rparr>)" "length cs = length (cells h)"
  shows "collect_scope env trace sc roots eph h = Some (doomed_count sc (h\<lparr>colors := cs\<rparr>) (length (cells h)),
    adapt_threshold_after_sweep env ((swept sc (h\<lparr>colors := cs\<rparr>) (length (cells h)))\<lparr>alloc_count := 0\<rparr>))"
proof -
  have "aligned (h\<lparr>colors := cs\<rparr>)" using assms by (simp add: alignedD)
  have "collect_scope env trace sc roots eph h = (do {
      h \<leftarrow> mark_phase sc trace roots eph h;
      s \<leftarrow> ofold (sweep_slot sc) [0..<length (cells h)] (h, 0);
      Some (snd s, adapt_threshold_after_sweep env ((fst s)\<lparr>alloc_count := 0\<rparr>)) })"
    by (simp add: collect_scope_def mark_phase_def Option.bind_assoc)
  then show ?thesis
    using assms(2) sweep_prefix [OF \<open>aligned (h\<lparr>colors := cs\<rparr>)\<close>, of "length (cells h)" sc] by simp
qed

lemma collect_scope_frees:
  assumes h: "aligned h"
  shows "\<exists>h'. collect_scope env trace sc roots eph h
        = Some (card {i. reclaimed sc trace h roots eph i}, h')
      \<and> frees (reclaimed sc trace h roots eph) h h' \<and> colors h' = replicate (length (cells h)) White"
proof -
  let ?n = "length (cells h)" and ?P = "reclaimed sc trace h roots eph"
  obtain cs where cs: "mark_phase sc trace roots eph h = Some (h\<lparr>colors := cs\<rparr>)" "length cs = ?n"
    "grays cs = {}" "marked cs = {i. kept sc trace h roots eph i}"
    using mark_phase_spec [OF h] by blast
  let ?h = "h\<lparr>colors := cs\<rparr>"
  have "cs ! i = White \<longleftrightarrow> \<not> kept sc trace h roots eph i" if "i < ?n" for i
    using cs(2,4) that by (auto simp: marked_def)
  then have P: "doomed sc ?h i = ?P i" if "i < ?n" for i
    using that by (auto simp: doomed_def reclaimed_def)
  have "{i. ?P i} = {i \<in> {0..<?n}. doomed sc ?h i}" using P by (auto simp: reclaimed_def)
  also have "card \<dots> = doomed_count sc ?h ?n"
    by (simp add: doomed_count_def distinct_length_filter Int_def conj_commute)
  finally have c: "doomed_count sc ?h ?n = card {i. ?P i}" by simp
  have "collect_scope env trace sc roots eph h
    = Some (card {i. ?P i}, adapt_threshold_after_sweep env ((swept sc ?h ?n)\<lparr>alloc_count := 0\<rparr>))"
    using collect_scope_eq [OF h cs(1,2)] c by simp
  moreover have "frees ?P h (swept sc ?h ?n)"
    using frees_swept [OF h cs(2)] by (rule frees_cong) (rule P)
  then have "frees ?P h (adapt_threshold_after_sweep env ((swept sc ?h ?n)\<lparr>alloc_count := 0\<rparr>))"
    by simp
  moreover have "colors (adapt_threshold_after_sweep env ((swept sc ?h ?n)\<lparr>alloc_count := 0\<rparr>))
      = replicate ?n White"
    using swept_colors [OF cs(3,2)] by (simp add: adapt_threshold_after_sweep_def Let_def)
  ultimately show ?thesis by blast
qed

end
