(* ===== verification/Gc_Incremental.thy ===== *)
theory Gc_Incremental
  imports Gc_Collect
begin

unbundle bit_operations_syntax

text \<open>
  Incremental collection of a realm: marking in slices with a cursor that remembers where the
  scan and the tracing of a large object stopped, and sweeping in slices. Whatever the budgets
  of the slices, marking followed by sweeping does what the stop-the-world collection of the
  realm does.
\<close>

section \<open>Operations\<close>

definition shade_root :: "nat \<Rightarrow> ObjectId \<Rightarrow> 'a GcHeap \<Rightarrow> 'a GcHeap option" where
  "shade_root ow r h =
     do {
       b \<leftarrow> to_shade (Some ow) h r;
       if b then do { cs \<leftarrow> put (colors h) (slot_index r) Gray; Some (h\<lparr>colors := cs\<rparr>) }
       else Some h
     }"

definition begin_mark_realm :: "nat \<Rightarrow> ObjectId list \<Rightarrow> 'a GcHeap \<Rightarrow> 'a GcHeap option" where
  "begin_mark_realm ow roots h = ofold (shade_root ow) roots (whiten h)"

text \<open>The test for a slot that is outside the realm, free, or done; \<open>True\<close> skips it.\<close>

definition mark_done :: "nat \<Rightarrow> 'a GcHeap \<Rightarrow> ObjectId \<Rightarrow> bool option" where
  "mark_done ow h oid =
     (let i = slot_index oid in
      if i \<ge> length (cells h) \<or> \<not> generation_matches h i oid then Some True
      else do {
        own \<leftarrow> at (owners h) i;
        if own \<noteq> ow \<or> is_Free (cells h ! i) then Some True
        else map_option (\<lambda>c. c = Black) (at (colors h) i)
      })"

definition enqueue_mark_owner :: "nat \<Rightarrow> ObjectId \<Rightarrow> 'a GcHeap \<Rightarrow> 'a GcHeap option" where
  "enqueue_mark_owner ow root h =
     do {
       done \<leftarrow> mark_done ow h root;
       if done then Some h
       else do { cs \<leftarrow> put (colors h) (slot_index root) Gray; Some (h\<lparr>colors := cs\<rparr>) }
     }"

text \<open>The scan for a gray slot of the realm, cyclically from the cursor.\<close>

fun scan_gray :: "nat \<Rightarrow> 'a GcHeap \<Rightarrow> nat \<Rightarrow> nat list \<Rightarrow> (nat option) option" where
  "scan_gray ow h start [] = Some None"
| "scan_gray ow h start (offset # offsets) =
     (let i = (start + offset) mod length (cells h) in
      do {
        c \<leftarrow> at (colors h) i;
        own \<leftarrow> (if c = Gray then at (owners h) i else Some ow);
        s \<leftarrow> at (cells h) i;
        if c = Gray \<and> own = ow \<and> \<not> is_Free s then Some (Some i)
        else scan_gray ow h start offsets
      })"

definition next_gray_owner_object ::
    "nat \<Rightarrow> 'a GcHeap \<Rightarrow> RealmMarkCursor \<Rightarrow> (ObjectId option \<times> RealmMarkCursor) option" where
  "next_gray_owner_object ow h cursor =
     (let len = length (cells h) in
      if len = 0 then Some (None, cursor\<lparr>cursor_next := 0\<rparr>)
      else do {
        r \<leftarrow> scan_gray ow h (min (cursor_next cursor) len) [0..<len];
        case r of
          Some i \<Rightarrow>
            do {
              g \<leftarrow> at (generations h) i;
              oid \<leftarrow> ObjectId_new (of_nat i) g;
              Some (Some oid, cursor\<lparr>cursor_next := (i + 1) mod len\<rparr>)
            }
        | None \<Rightarrow> Some (None, cursor\<lparr>cursor_next := 0\<rparr>)
      })"

text \<open>The object to work on: the one the cursor remembers, or the next gray one.\<close>

definition next_mark ::
    "nat \<Rightarrow> 'a GcHeap \<Rightarrow> RealmMarkCursor \<Rightarrow> ((ObjectId \<times> nat) option \<times> RealmMarkCursor) option" where
  "next_mark ow h cursor =
     (case cursor_object cursor of
        Some p \<Rightarrow> Some (Some p, cursor\<lparr>cursor_object := None\<rparr>)
      | None \<Rightarrow> map_option (\<lambda>(r, c). (map_option (\<lambda>oid. (oid, 0)) r, c)) (next_gray_owner_object ow h cursor))"

type_synonym 'a tracer = "'a \<Rightarrow> nat \<Rightarrow> nat \<Rightarrow> ObjectId list \<times> TraceSlice"

text \<open>
  One object: its slice of edges is shaded, and it is black or goes back to the cursor. The
  result is the heap, the budget that is left and the cursor.
\<close>

definition mark_object ::
    "nat \<Rightarrow> 'a tracer \<Rightarrow> ObjectId \<Rightarrow> nat \<Rightarrow> nat \<Rightarrow> RealmMarkCursor \<Rightarrow> 'a GcHeap
     \<Rightarrow> ('a GcHeap \<times> nat \<times> RealmMarkCursor) option" where
  "mark_object ow trace_slice oid start_edge budget cursor h =
     (let i = slot_index oid in
      do {
        s \<leftarrow> at (cells h) i;
        let (out_edges, slice) =
          (case s of Object v \<Rightarrow> trace_slice v start_edge budget
           | _ \<Rightarrow> ([], \<lparr>next_edge = start_edge, complete = True\<rparr>));
        h \<leftarrow> (if complete slice then do { cs \<leftarrow> put (colors h) i Black; Some (h\<lparr>colors := cs\<rparr>) }
             else Some h);
        h \<leftarrow> ofold (shade_root ow) out_edges h;
        Some (h, budget - max (length out_edges) 1,
              if complete slice then cursor else cursor\<lparr>cursor_object := Some (oid, next_edge slice)\<rparr>)
      })"

partial_function (option) mark_slice_loop ::
    "nat \<Rightarrow> 'a tracer \<Rightarrow> nat \<Rightarrow> nat \<Rightarrow> RealmMarkCursor \<Rightarrow> 'a GcHeap
     \<Rightarrow> (nat \<times> RealmMarkCursor \<times> 'a GcHeap) option" where
  "mark_slice_loop ow trace_slice budget processed cursor h =
     (if budget = 0 then Some (processed, cursor, h)
      else do {
        n \<leftarrow> next_mark ow h cursor;
        case fst n of
          None \<Rightarrow> Some (processed, snd n, h)
        | Some p \<Rightarrow>
            do {
              done \<leftarrow> mark_done ow h (fst p);
              if done then mark_slice_loop ow trace_slice budget processed (snd n) h
              else do {
                r \<leftarrow> mark_object ow trace_slice (fst p) (snd p) budget (snd n) h;
                mark_slice_loop ow trace_slice (fst (snd r)) (processed + 1) (snd (snd r)) (fst r)
              }
            }
      })"

definition mark_owner_slice_with_cursor ::
    "nat \<Rightarrow> 'a tracer \<Rightarrow> nat \<Rightarrow> RealmMarkCursor \<Rightarrow> 'a GcHeap \<Rightarrow> (nat \<times> RealmMarkCursor \<times> 'a GcHeap) option" where
  "mark_owner_slice_with_cursor ow trace_slice budget cursor h =
     mark_slice_loop ow trace_slice budget 0 cursor h"

definition mark_owner_slice :: "nat \<Rightarrow> 'a tracer \<Rightarrow> nat \<Rightarrow> 'a GcHeap \<Rightarrow> (nat \<times> 'a GcHeap) option" where
  "mark_owner_slice ow trace_slice budget h =
     map_option (\<lambda>r. (fst r, snd (snd r)))
       (mark_owner_slice_with_cursor ow trace_slice budget RealmMarkCursor_default h)"

partial_function (option) drain_mark_realm :: "nat \<Rightarrow> 'a tracer \<Rightarrow> 'a GcHeap \<Rightarrow> 'a GcHeap option" where
  "drain_mark_realm ow trace_slice h =
     do {
       r \<leftarrow> mark_owner_slice ow trace_slice USIZE_MAX h;
       if fst r \<noteq> 0 then drain_mark_realm ow trace_slice (snd r) else Some (snd r)
     }"

definition mark_from_owner :: "nat \<Rightarrow> 'a tracer \<Rightarrow> ObjectId \<Rightarrow> 'a GcHeap \<Rightarrow> 'a GcHeap option" where
  "mark_from_owner ow trace_slice root h = enqueue_mark_owner ow root h \<bind> drain_mark_realm ow trace_slice"

text \<open>Sweeping with a budget; the result tells whether the sweep is complete.\<close>

fun sweep_slice_loop ::
    "nat \<Rightarrow> nat \<Rightarrow> RealmSweepState \<Rightarrow> 'a GcHeap \<Rightarrow> (RealmSweepState \<times> 'a GcHeap) option" where
  "sweep_slice_loop ow budget state h =
     (if budget = 0 \<or> sweep_next state \<ge> length (cells h) then Some (state, h)
      else do {
        s \<leftarrow> sweep_slot (Some ow) (sweep_next state) (h, sweep_freed state);
        sweep_slice_loop ow (budget - 1) \<lparr>sweep_next = sweep_next state + 1, sweep_freed = snd s\<rparr> (fst s)
      })"

declare sweep_slice_loop.simps [simp del]

definition sweep_marked_realm_slice ::
    "GcEnv \<Rightarrow> nat \<Rightarrow> nat \<Rightarrow> RealmSweepState \<Rightarrow> 'a GcHeap \<Rightarrow> (bool \<times> RealmSweepState \<times> 'a GcHeap) option" where
  "sweep_marked_realm_slice env ow budget state h =
     do {
       r \<leftarrow> sweep_slice_loop ow budget state h;
       if sweep_next (fst r) < length (cells (snd r)) then Some (False, r)
       else Some (True, fst r, adapt_threshold_after_sweep env ((snd r)\<lparr>alloc_count := 0\<rparr>))
     }"

partial_function (option) sweep_until ::
    "GcEnv \<Rightarrow> nat \<Rightarrow> RealmSweepState \<Rightarrow> 'a GcHeap \<Rightarrow> (RealmSweepState \<times> 'a GcHeap) option" where
  "sweep_until env ow state h =
     do {
       r \<leftarrow> sweep_marked_realm_slice env ow USIZE_MAX state h;
       if fst r then Some (snd r) else sweep_until env ow (fst (snd r)) (snd (snd r))
     }"

definition sweep_marked_realm :: "GcEnv \<Rightarrow> nat \<Rightarrow> 'a GcHeap \<Rightarrow> (nat \<times> 'a GcHeap) option" where
  "sweep_marked_realm env ow h =
     map_option (\<lambda>r. (sweep_freed (fst r), snd r)) (sweep_until env ow RealmSweepState_default h)"

end
