(* ===== verification/Gc_Slices.thy ===== *)
theory Gc_Slices
  imports Gc_Incremental
begin

text \<open>
  Incremental marking and sweeping of a realm against the stop-the-world collection. The locale
  \<open>edge_slices\<close> is what a collector relies on in an implementation of \<open>Trace\<close>: slices report edges
  of the object only, a complete slice leaves none out, and positions make progress. It is
  interpreted on the default method of the trait here and on script objects in \<open>Gc_Trace\<close>.
\<close>

section \<open>Single operations\<close>

lemma shade_root_all:
  assumes h: "aligned h" and "length cs = length (cells h)"
  shows "ofold (shade_root ow) es (h\<lparr>colors := cs\<rparr>)
    = Some (h\<lparr>colors := shaded (targets (Some ow) h (set es)) cs\<rparr>)"
  using assms(2)
proof (induction es arbitrary: cs)
  case (Cons e es)
  let ?i = "slot_index e"
  have "shade_root ow e (h\<lparr>colors := cs\<rparr>)
      = Some (h\<lparr>colors := shaded (targets (Some ow) h {e}) cs\<rparr>)"
  proof (cases "valid (Some ow) h e \<and> ?i \<in> whites cs")
    case True
    then show ?thesis
      using Cons.prems h
      by (simp add: shade_root_def to_shade_eq alignedD targets_insert whites_def shaded_insert)
  next
    case False
    then have "shaded (targets (Some ow) h {e}) cs = cs" by (auto simp: targets_insert shaded_marked)
    then show ?thesis
      using Cons.prems h False
      by (auto simp: shade_root_def to_shade_eq alignedD whites_def valid_def)
  qed
  moreover have "targets (Some ow) h {e} \<union> targets (Some ow) h (set es) = targets (Some ow) h (set (e # es))"
    by (auto simp: targets_def)
  ultimately show ?case using Cons by (simp del: set_simps)
qed simp

lemma mark_done_eq:
  assumes "aligned h"
  shows "mark_done ow h e = Some (\<not> (valid (Some ow) h e \<and> colors h ! slot_index e \<noteq> Black))"
  using assms
  by (auto simp: mark_done_def Let_def valid_def scoped_def generation_matches_eq alignedD)

lemma begin_mark_realm_eq:
  assumes "aligned h"
  shows "begin_mark_realm ow roots h
    = Some (h\<lparr>colors := shaded (targets (Some ow) h (set roots)) (map (\<lambda>_. White) (colors h))\<rparr>)"
  using shade_root_all [OF assms, of "map (\<lambda>_. White) (colors h)"] assms
  by (simp add: begin_mark_realm_def whiten_def alignedD)

text \<open>Gray slots of the realm, which the scan looks for.\<close>

definition realm_grays :: "nat \<Rightarrow> 'a GcHeap \<Rightarrow> nat set" where
  "realm_grays ow h = {i \<in> grays (colors h). owners h ! i = ow \<and> \<not> is_Free (cells h ! i)}"

lemma scan_gray_spec:
  assumes "aligned h" "0 < length (cells h)"
  shows "case scan_gray ow h start os of
      None \<Rightarrow> False
    | Some None \<Rightarrow> \<forall>offset \<in> set os. (start + offset) mod length (cells h) \<notin> realm_grays ow h
    | Some (Some i) \<Rightarrow> i \<in> realm_grays ow h"
  using assms
  by (induction os)
    (auto simp: realm_grays_def grays_def alignedD Let_def split: option.splits if_splits)

lemma cyclic_index:
  assumes "i < n" "start \<le> (n :: nat)"
  shows "\<exists>offset \<in> {0..<n}. (start + offset) mod n = i"
proof (rule bexI)
  have "start + (i + (n - start)) = i + n" using assms by simp
  then show "(start + (i + (n - start)) mod n) mod n = i"
    using assms by (simp add: mod_add_right_eq)
qed (use assms in simp)

lemma next_gray_spec:
  assumes h: "sized h"
  shows "\<exists>r c. next_gray_owner_object ow h cursor = Some (r, c) \<and> cursor_object c = cursor_object cursor
    \<and> (case r of
         None \<Rightarrow> realm_grays ow h = {}
       | Some e \<Rightarrow> valid (Some ow) h e \<and> slot_index e \<in> realm_grays ow h)"
proof (cases "cells h = []")
  case True
  then have "realm_grays ow h = {}" using h by (auto simp: realm_grays_def grays_def sized_def aligned_def)
  with True show ?thesis by (auto simp: next_gray_owner_object_def)
next
  case False
  let ?n = "length (cells h)" and ?s = "min (cursor_next cursor) (length (cells h))"
  have a: "aligned h" using h by (simp add: sized_def)
  note spec = scan_gray_spec [OF a, where ow = ow and start = ?s and os = "[0..<?n]"]
  show ?thesis
  proof (cases "scan_gray ow h ?s [0..<?n]")
    case None
    then show ?thesis using spec False by simp
  next
    case (Some r)
    show ?thesis
    proof (cases r)
      case None
      have "i \<notin> realm_grays ow h" for i
      proof
        assume i: "i \<in> realm_grays ow h"
        then have "i < ?n" using a by (simp add: realm_grays_def grays_def alignedD)
        then obtain k where "k \<in> {0..<?n}" "(?s + k) mod ?n = i" using cyclic_index [of i ?n ?s] by auto
        then show False using spec Some None False i by auto
      qed
      then show ?thesis
        using Some None False by (auto simp: next_gray_owner_object_def Let_def)
    next
      case r: (Some i)
      then have i: "i \<in> realm_grays ow h" using spec Some False by simp
      then have "i < ?n" using a by (simp add: realm_grays_def grays_def alignedD)
      then obtain e where e: "ObjectId_new (of_nat i) (generations h ! i) = Some e" "slot_index e = i"
        "generation e = generations h ! i"
        using sized_handle [OF h] by blast
      have "valid (Some ow) h e" using e i \<open>i < ?n\<close> by (simp add: valid_def scoped_def realm_grays_def)
      then show ?thesis
        using Some r False e i \<open>i < ?n\<close> a
        by (simp add: next_gray_owner_object_def Let_def alignedD)
    qed
  qed
qed

section \<open>Tracing in slices\<close>

locale edge_slices =
  fixes trace :: "'a \<Rightarrow> ObjectId list"
    and trace_slice :: "'a tracer"
    and seen :: "'a \<Rightarrow> nat \<Rightarrow> ObjectId set"
    and togo :: "'a \<Rightarrow> nat \<Rightarrow> nat"
  assumes seen_start: "seen v 0 = {}"
    and slice_sound: "trace_slice v s b = (out, r) \<Longrightarrow> set out \<subseteq> set (trace v)"
    and slice_complete: "0 < b \<Longrightarrow> trace_slice v s b = (out, r) \<Longrightarrow> complete r
          \<Longrightarrow> set (trace v) \<subseteq> seen v s \<union> set out"
    and slice_partial: "0 < b \<Longrightarrow> trace_slice v s b = (out, r) \<Longrightarrow> \<not> complete r
          \<Longrightarrow> seen v (next_edge r) \<subseteq> seen v s \<union> set out"
    and slice_progress: "0 < b \<Longrightarrow> trace_slice v s b = (out, r) \<Longrightarrow> \<not> complete r
          \<Longrightarrow> togo v (next_edge r) < togo v s"

text \<open>The default method traces the whole object in its first slice.\<close>

definition default_seen :: "('a \<Rightarrow> ObjectId list) \<Rightarrow> 'a \<Rightarrow> nat \<Rightarrow> ObjectId set" where
  "default_seen trace v s = (if s = 0 then {} else set (trace v))"

interpretation whole: edge_slices trace "default_trace_slice trace" "default_seen trace" "\<lambda>_ _. 0" for trace
  by unfold_locales (auto simp: default_trace_slice_def default_seen_def split: if_splits)

section \<open>The state of an incremental mark\<close>

definition cursor_ok ::
    "('a \<Rightarrow> nat \<Rightarrow> ObjectId set) \<Rightarrow> nat \<Rightarrow> 'a GcHeap \<Rightarrow> Color list \<Rightarrow> RealmMarkCursor \<Rightarrow> bool" where
  "cursor_ok seen ow h cs cursor \<longleftrightarrow>
     (case cursor_object cursor of
        None \<Rightarrow> True
      | Some (e, s) \<Rightarrow>
          valid (Some ow) h e \<and> slot_index e \<in> grays cs
          \<and> (\<exists>v. cells h ! slot_index e = Object v \<and> targets (Some ow) h (seen v s) \<subseteq> marked cs))"

definition marking ::
    "('a \<Rightarrow> ObjectId list) \<Rightarrow> ('a \<Rightarrow> nat \<Rightarrow> ObjectId set) \<Rightarrow> nat \<Rightarrow> 'a GcHeap \<Rightarrow> Color list \<Rightarrow> RealmMarkCursor
     \<Rightarrow> bool" where
  "marking trace seen ow h cs cursor \<longleftrightarrow>
     length cs = length (cells h) \<and> (\<forall>i \<in> grays cs. owners h ! i = ow \<and> \<not> is_Free (cells h ! i))
     \<and> settled (Some ow) trace h cs \<and> cursor_ok seen ow h cs cursor"

text \<open>The work that is left: the slots that are not black, each with the slices it may take.\<close>

definition cursor_position :: "RealmMarkCursor \<Rightarrow> nat \<Rightarrow> nat" where
  "cursor_position cursor i =
     (case cursor_object cursor of Some (e, s) \<Rightarrow> (if slot_index e = i then s else 0) | None \<Rightarrow> 0)"

definition slot_work :: "('a \<Rightarrow> nat \<Rightarrow> nat) \<Rightarrow> 'a GcHeap \<Rightarrow> RealmMarkCursor \<Rightarrow> nat \<Rightarrow> nat" where
  "slot_work togo h cursor i =
     Suc (case cells h ! i of Object v \<Rightarrow> togo v (cursor_position cursor i) | _ \<Rightarrow> 0)"

definition unfinished :: "Color list \<Rightarrow> nat set" where
  "unfinished cs = {i. i < length cs \<and> cs ! i \<noteq> Black}"

definition work :: "('a \<Rightarrow> nat \<Rightarrow> nat) \<Rightarrow> 'a GcHeap \<Rightarrow> Color list \<Rightarrow> RealmMarkCursor \<Rightarrow> nat" where
  "work togo h cs cursor = sum (slot_work togo h cursor) (unfinished cs)"

lemma finite_unfinished [simp]: "finite (unfinished cs)"
  by (simp add: unfinished_def)

lemma unfinished_shaded [simp]: "unfinished (shaded T cs) = unfinished cs"
  by (auto simp: unfinished_def nth_shaded split: if_splits)

lemma unfinished_blacken: "i < length cs \<Longrightarrow> unfinished (cs[i := Black]) = unfinished cs - {i}"
  by (auto simp: unfinished_def nth_list_update)

lemma grays_unfinished: "i \<in> grays cs \<Longrightarrow> i \<in> unfinished cs"
  by (simp add: grays_def unfinished_def)

lemma work_less:
  assumes "i \<in> unfinished cs" "slot_work togo h c' i < slot_work togo h c i"
    and "\<And>j. j \<noteq> i \<Longrightarrow> slot_work togo h c' j = slot_work togo h c j"
  shows "work togo h cs c' < work togo h cs c"
proof -
  have "slot_work togo h c' j \<le> slot_work togo h c j" for j
    using assms(2) assms(3) [of j] by (cases "j = i") auto
  then show ?thesis unfolding work_def using assms(1,2) by (intro sum_strict_mono_ex1) auto
qed

lemma work_finished:
  assumes "i \<in> unfinished cs" "\<And>j. j \<noteq> i \<Longrightarrow> slot_work togo h c' j = slot_work togo h c j"
  shows "sum (slot_work togo h c') (unfinished cs - {i}) < work togo h cs c"
proof -
  have "sum (slot_work togo h c') (unfinished cs - {i}) = sum (slot_work togo h c) (unfinished cs - {i})"
    using assms(2) by (intro sum.cong) auto
  moreover have "work togo h cs c = slot_work togo h c i + sum (slot_work togo h c) (unfinished cs - {i})"
    unfolding work_def using assms(1) by (intro sum.remove) simp_all
  ultimately show ?thesis by (simp add: slot_work_def)
qed

section \<open>Driving a collection in slices\<close>

text \<open>A collection in slices: the budgets of the mark slices, then those of the sweep slices.\<close>

fun mark_slices ::
    "nat \<Rightarrow> 'a tracer \<Rightarrow> nat list \<Rightarrow> RealmMarkCursor \<Rightarrow> 'a GcHeap \<Rightarrow> (RealmMarkCursor \<times> 'a GcHeap) option" where
  "mark_slices ow trace_slice [] cursor h = Some (cursor, h)"
| "mark_slices ow trace_slice (b # bs) cursor h =
     do {
       r \<leftarrow> mark_owner_slice_with_cursor ow trace_slice b cursor h;
       mark_slices ow trace_slice bs (fst (snd r)) (snd (snd r))
     }"

fun sweep_slices :: "GcEnv \<Rightarrow> nat \<Rightarrow> nat list \<Rightarrow> RealmSweepState \<Rightarrow> 'a GcHeap \<Rightarrow> (nat \<times> 'a GcHeap) option" where
  "sweep_slices env ow [] state h = None"
| "sweep_slices env ow (b # bs) state h =
     do {
       r \<leftarrow> sweep_marked_realm_slice env ow b state h;
       if fst r then Some (sweep_freed (fst (snd r)), snd (snd r))
       else sweep_slices env ow bs (fst (snd r)) (snd (snd r))
     }"

definition incremental_collect ::
    "GcEnv \<Rightarrow> 'a tracer \<Rightarrow> nat \<Rightarrow> ObjectId list \<Rightarrow> nat list \<Rightarrow> nat list \<Rightarrow> 'a GcHeap \<Rightarrow> (nat \<times> 'a GcHeap) option" where
  "incremental_collect env trace_slice ow roots marks sweeps h =
     do {
       r \<leftarrow> begin_mark_realm ow roots h \<bind> mark_slices ow trace_slice marks RealmMarkCursor_default;
       sweep_slices env ow sweeps RealmSweepState_default (snd r)
     }"

definition mark_work :: "('a \<Rightarrow> nat \<Rightarrow> nat) \<Rightarrow> 'a GcHeap \<Rightarrow> nat" where
  "mark_work togo h = sum (slot_work togo h RealmMarkCursor_default) {..<length (cells h)}"

section \<open>A slice\<close>

context edge_slices
begin

text \<open>The result of working on one object.\<close>

lemma mark_object_step:
  assumes h: "aligned h" and cs: "length cs = length (cells h)"
    "\<forall>i \<in> grays cs. owners h ! i = ow \<and> \<not> is_Free (cells h ! i)" "settled (Some ow) trace h cs"
    and e: "valid (Some ow) h e" "slot_index e \<in> grays cs"
    and seen: "\<And>v. cells h ! slot_index e = Object v \<Longrightarrow> targets (Some ow) h (seen v s) \<subseteq> marked cs"
    and c: "cursor_object c = None" and b: "0 < b"
  shows "\<exists>cs' b' c'. mark_object ow trace_slice e s b c (h\<lparr>colors := cs\<rparr>) = Some (h\<lparr>colors := cs'\<rparr>, b', c')
    \<and> b' < b \<and> marking trace seen ow h cs' c' \<and> marked cs \<subseteq> marked cs'
    \<and> (\<forall>R. marked cs \<subseteq> R \<longrightarrow> closed (Some ow) trace h R \<longrightarrow> marked cs' \<subseteq> R)
    \<and> work togo h cs' c' < work togo h cs (c\<lparr>cursor_object := Some (e, s)\<rparr>)"
proof -
  let ?i = "slot_index e"
  let ?slice = "case cells h ! ?i of Object v \<Rightarrow> trace_slice v s b | _ \<Rightarrow> ([], \<lparr>next_edge = s, complete = True\<rparr>)"
  obtain out r where r: "?slice = (out, r)" by (cases ?slice)
  let ?T = "targets (Some ow) h (set out)"
  have i: "?i < length cs" "?i < length (cells h)" using e(2) cs(1) by (simp_all add: grays_def)
  have out: "set out \<subseteq> set (slot_edges trace (cells h ! ?i))"
    using r slice_sound by (auto simp: slot_edges_def split: Slot.splits)
  have edges: "edge (Some ow) trace h ?i j" if "j \<in> ?T" for j
    using that out by (auto simp: targets_def edge_def)
  have T: "?T \<subseteq> R" if "marked cs \<subseteq> R" "closed (Some ow) trace h R" for R
  proof -
    have "?i \<in> R" using e(2) that(1) by (auto simp: grays_def marked_def)
    then show ?thesis using edges that(2) by (auto simp: closed_def)
  qed
  have gray: "owners h ! j = ow \<and> \<not> is_Free (cells h ! j)" if "j \<in> ?T" for j
    using that by (auto simp: targets_def valid_def scoped_def)
  have res: "mark_object ow trace_slice e s b c (h\<lparr>colors := cs\<rparr>)
    = Some (h\<lparr>colors := shaded ?T (if complete r then cs[?i := Black] else cs)\<rparr>, b - max (length out) 1,
        if complete r then c else c\<lparr>cursor_object := Some (e, next_edge r)\<rparr>)"
    using r h cs(1) i by (simp add: mark_object_def shade_root_all)
  have pos: "slot_work togo h c j = slot_work togo h (c\<lparr>cursor_object := Some (e, s)\<rparr>) j"
    "slot_work togo h (c\<lparr>cursor_object := Some (e, next_edge r)\<rparr>) j = slot_work togo h (c\<lparr>cursor_object := Some (e, s)\<rparr>) j"
    if "j \<noteq> ?i" for j
    using that c by (simp_all add: slot_work_def cursor_position_def split: Slot.split)
  show ?thesis
  proof (cases "complete r")
    case True
    let ?cs = "shaded ?T (cs[?i := Black])"
    have fin: "j \<in> ?T \<or> cs ! j \<noteq> White" if j: "edge (Some ow) trace h ?i j" for j
    proof -
      obtain v where v: "cells h ! ?i = Object v"
        using j by (cases "cells h ! ?i") (auto simp: edge_def slot_edges_def)
      have "set (trace v) \<subseteq> seen v s \<union> set out" using slice_complete [OF b _ True] r v by simp
      then have "j \<in> ?T \<union> targets (Some ow) h (seen v s)"
        using j v by (auto simp: edge_def slot_edges_def targets_def)
      then show ?thesis using seen [OF v] by (auto simp: marked_def)
    qed
    have "marking trace seen ow h ?cs c"
      using cs c settled_blacken [OF cs(3,1) e(2) fin] gray
      by (auto simp: marking_def cursor_ok_def grays_shaded blacken_sets e(2))
    moreover have "marked ?cs = marked cs \<union> (?T \<inter> whites cs)"
      by (simp add: marked_shaded blacken_sets e(2))
    moreover have "work togo h ?cs c < work togo h cs (c\<lparr>cursor_object := Some (e, s)\<rparr>)"
      using work_finished [OF grays_unfinished [OF e(2)] pos(1)] i
      by (simp add: work_def unfinished_blacken)
    ultimately show ?thesis
      using res True T b
      by (intro exI [of _ ?cs] exI [of _ "b - max (length out) 1"] exI [of _ c] conjI) auto
  next
    case False
    let ?cs = "shaded ?T cs" and ?c = "c\<lparr>cursor_object := Some (e, next_edge r)\<rparr>"
    obtain v where v: "cells h ! ?i = Object v" "trace_slice v s b = (out, r)"
      using r False by (cases "cells h ! ?i") auto
    have "targets (Some ow) h (seen v (next_edge r)) \<subseteq> targets (Some ow) h (seen v s) \<union> ?T"
      using slice_partial [OF b v(2) False] by (auto simp: targets_def)
    moreover have m: "marked ?cs = marked cs \<union> ?T"
      using cs(1) targets_range [of _ "Some ow" h "set out"] by (auto simp: marked_shaded not_white [symmetric])
    ultimately have "marking trace seen ow h ?cs ?c"
      using cs e v(1) seen [OF v(1)] settled_shaded [OF cs(3,1)] gray
      by (auto simp: marking_def cursor_ok_def grays_shaded)
    moreover have "work togo h ?cs ?c < work togo h cs (c\<lparr>cursor_object := Some (e, s)\<rparr>)"
    proof -
      have "slot_work togo h ?c ?i < slot_work togo h (c\<lparr>cursor_object := Some (e, s)\<rparr>) ?i"
        using slice_progress [OF b v(2) False] v(1) by (simp add: slot_work_def cursor_position_def)
      then show ?thesis
        using work_less [OF grays_unfinished [OF e(2)] _ pos(2)] by (simp add: work_def)
    qed
    ultimately show ?thesis
      using res False T b m
      by (intro exI [of _ ?cs] exI [of _ "b - max (length out) 1"] exI [of _ ?c] conjI) auto
  qed
qed

text \<open>What the loop of a slice works on next.\<close>

lemma next_mark_spec:
  assumes h: "sized h" and m: "marking trace seen ow h cs c"
  shows "\<exists>r c'. next_mark ow (h\<lparr>colors := cs\<rparr>) c = Some (r, c') \<and> cursor_object c' = None
    \<and> (case r of
         None \<Rightarrow> grays cs = {} \<and> work togo h cs c' = work togo h cs c
       | Some (e, s) \<Rightarrow> valid (Some ow) h e \<and> slot_index e \<in> grays cs
           \<and> (\<forall>v. cells h ! slot_index e = Object v \<longrightarrow> targets (Some ow) h (seen v s) \<subseteq> marked cs)
           \<and> work togo h cs (c'\<lparr>cursor_object := Some (e, s)\<rparr>) = work togo h cs c)"
proof (cases "cursor_object c")
  case None
  have al: "sized (h\<lparr>colors := cs\<rparr>)" using h m by (simp add: sized_def marking_def alignedD)
  have w: "work togo h cs c'' = work togo h cs c" if "\<And>j. cursor_position c'' j = cursor_position c j" for c''
    using that by (auto simp: work_def slot_work_def intro!: sum.cong split: Slot.split)
  obtain r c' where n: "next_gray_owner_object ow (h\<lparr>colors := cs\<rparr>) c = Some (r, c')"
    "cursor_object c' = None"
    "case r of None \<Rightarrow> realm_grays ow (h\<lparr>colors := cs\<rparr>) = {}
     | Some e \<Rightarrow> valid (Some ow) (h\<lparr>colors := cs\<rparr>) e \<and> slot_index e \<in> realm_grays ow (h\<lparr>colors := cs\<rparr>)"
    using next_gray_spec [OF al, of ow c] None by metis
  have "realm_grays ow (h\<lparr>colors := cs\<rparr>) = grays cs" using m by (auto simp: realm_grays_def marking_def)
  with n None show ?thesis
    by (cases r) (auto simp: next_mark_def seen_start cursor_position_def intro!: w)
next
  case (Some p)
  then show ?thesis
    using m by (cases p) (auto simp: next_mark_def marking_def cursor_ok_def intro!: arg_cong [of _ _ "work togo h cs"])
qed

lemma slice_loop_spec:
  assumes h: "sized h"
  shows "marking trace seen ow h cs c
    \<Longrightarrow> \<exists>p' c' cs'. mark_slice_loop ow trace_slice b p c (h\<lparr>colors := cs\<rparr>) = Some (p', c', h\<lparr>colors := cs'\<rparr>)
      \<and> marking trace seen ow h cs' c' \<and> marked cs \<subseteq> marked cs'
      \<and> (\<forall>R. marked cs \<subseteq> R \<longrightarrow> closed (Some ow) trace h R \<longrightarrow> marked cs' \<subseteq> R)
      \<and> p \<le> p' \<and> work togo h cs' c' + (p' - p) \<le> work togo h cs c
      \<and> (0 < b \<longrightarrow> p' = p \<longrightarrow> grays cs' = {}) \<and> (grays cs = {} \<longrightarrow> p' = p)"
proof (induction b arbitrary: p c cs rule: less_induct)
  case (less b)
  have al: "aligned h" using h by (simp add: sized_def)
  have len: "length cs = length (cells h)" using less.prems by (simp add: marking_def)
  show ?case
  proof (cases "b = 0")
    case True
    then show ?thesis using less.prems by (subst mark_slice_loop.simps) auto
  next
    case False
    obtain r c1 where r: "next_mark ow (h\<lparr>colors := cs\<rparr>) c = Some (r, c1)" "cursor_object c1 = None"
      "case r of
         None \<Rightarrow> grays cs = {} \<and> work togo h cs c1 = work togo h cs c
       | Some (e, s) \<Rightarrow> valid (Some ow) h e \<and> slot_index e \<in> grays cs
           \<and> (\<forall>v. cells h ! slot_index e = Object v \<longrightarrow> targets (Some ow) h (seen v s) \<subseteq> marked cs)
           \<and> work togo h cs (c1\<lparr>cursor_object := Some (e, s)\<rparr>) = work togo h cs c"
      using next_mark_spec [OF h less.prems] by blast
    show ?thesis
    proof (cases r)
      case None
      have "mark_slice_loop ow trace_slice b p c (h\<lparr>colors := cs\<rparr>) = Some (p, c1, h\<lparr>colors := cs\<rparr>)"
        using False r(1) None by (subst mark_slice_loop.simps) simp
      moreover have "marking trace seen ow h cs c1" using less.prems r(2) by (simp add: marking_def cursor_ok_def)
      ultimately show ?thesis using r(3) None by auto
    next
      case (Some es)
      obtain e s where es: "es = (e, s)" by (cases es)
      have e: "valid (Some ow) h e" "slot_index e \<in> grays cs"
        "\<And>v. cells h ! slot_index e = Object v \<Longrightarrow> targets (Some ow) h (seen v s) \<subseteq> marked cs"
        "work togo h cs (c1\<lparr>cursor_object := Some (e, s)\<rparr>) = work togo h cs c"
        using r(3) Some es by auto
      have md: "mark_done ow (h\<lparr>colors := cs\<rparr>) e = Some False"
        using al len e(1,2) by (simp add: mark_done_eq alignedD grays_def)
      have m2: "\<forall>i \<in> grays cs. owners h ! i = ow \<and> \<not> is_Free (cells h ! i)" "settled (Some ow) trace h cs"
        using less.prems by (simp_all add: marking_def)
      obtain cs2 b2 c2 where st:
        "mark_object ow trace_slice e s b c1 (h\<lparr>colors := cs\<rparr>) = Some (h\<lparr>colors := cs2\<rparr>, b2, c2)"
        "b2 < b" "marking trace seen ow h cs2 c2" "marked cs \<subseteq> marked cs2"
        "\<And>R. marked cs \<subseteq> R \<Longrightarrow> closed (Some ow) trace h R \<Longrightarrow> marked cs2 \<subseteq> R"
        "work togo h cs2 c2 < work togo h cs c"
        using mark_object_step [OF al len m2 e(1-3) r(2), where b = b] False unfolding e(4) by blast
      obtain p' c' cs' where IH:
        "mark_slice_loop ow trace_slice b2 (p + 1) c2 (h\<lparr>colors := cs2\<rparr>) = Some (p', c', h\<lparr>colors := cs'\<rparr>)"
        "marking trace seen ow h cs' c'" "marked cs2 \<subseteq> marked cs'"
        "\<And>R. marked cs2 \<subseteq> R \<Longrightarrow> closed (Some ow) trace h R \<Longrightarrow> marked cs' \<subseteq> R"
        "p + 1 \<le> p'" "work togo h cs' c' + (p' - (p + 1)) \<le> work togo h cs2 c2"
        using less.IH [OF st(2,3), of "p + 1"] by blast
      have "mark_slice_loop ow trace_slice b p c (h\<lparr>colors := cs\<rparr>) = Some (p', c', h\<lparr>colors := cs'\<rparr>)"
        using False r(1) Some es md st(1) IH(1) by (subst mark_slice_loop.simps) simp
      then show ?thesis using IH st(4-6) e(2) by (intro exI [of _ p'] exI [of _ c'] exI [of _ cs']) auto
    qed
  qed
qed

lemma mark_slices_done:
  assumes h: "sized h"
  shows "marking trace seen ow h cs c \<Longrightarrow> \<forall>b \<in> set bs. 0 < b \<Longrightarrow> work togo h cs c < length bs \<or> grays cs = {}
    \<Longrightarrow> \<exists>c' cs'. mark_slices ow trace_slice bs c (h\<lparr>colors := cs\<rparr>) = Some (c', h\<lparr>colors := cs'\<rparr>)
      \<and> marking trace seen ow h cs' c' \<and> grays cs' = {} \<and> marked cs \<subseteq> marked cs'
      \<and> (\<forall>R. marked cs \<subseteq> R \<longrightarrow> closed (Some ow) trace h R \<longrightarrow> marked cs' \<subseteq> R)"
proof (induction bs arbitrary: cs c)
  case Nil
  then show ?case by auto
next
  case (Cons b bs)
  obtain p c1 cs1 where s: "mark_slice_loop ow trace_slice b 0 c (h\<lparr>colors := cs\<rparr>) = Some (p, c1, h\<lparr>colors := cs1\<rparr>)"
    "marking trace seen ow h cs1 c1" "marked cs \<subseteq> marked cs1"
    "\<And>R. marked cs \<subseteq> R \<Longrightarrow> closed (Some ow) trace h R \<Longrightarrow> marked cs1 \<subseteq> R"
    "work togo h cs1 c1 + p \<le> work togo h cs c" "p = 0 \<Longrightarrow> grays cs1 = {}" "grays cs = {} \<Longrightarrow> p = 0"
    using slice_loop_spec [OF h Cons.prems(1), of b 0] Cons.prems(2) by auto
  have "work togo h cs1 c1 < length bs \<or> grays cs1 = {}" using s(5-7) Cons.prems(3) by auto
  then obtain c' cs' where
    "mark_slices ow trace_slice bs c1 (h\<lparr>colors := cs1\<rparr>) = Some (c', h\<lparr>colors := cs'\<rparr>)"
    "marking trace seen ow h cs' c'" "grays cs' = {}" "marked cs1 \<subseteq> marked cs'"
    "\<And>R. marked cs1 \<subseteq> R \<Longrightarrow> closed (Some ow) trace h R \<Longrightarrow> marked cs' \<subseteq> R"
    using Cons.IH [OF s(2)] Cons.prems(2) by auto
  then show ?case
    using s(1,3,4) by (intro exI [of _ c'] exI [of _ cs']) (auto simp: mark_owner_slice_with_cursor_def)
qed

text \<open>Marking from the roots, in slices, ends with the kept slots in black.\<close>

lemma mark_slices_kept:
  assumes h: "sized h" and bs: "\<forall>b \<in> set bs. 0 < b" "mark_work togo h < length bs"
  shows "\<exists>c cs. begin_mark_realm ow roots h \<bind> mark_slices ow trace_slice bs RealmMarkCursor_default
      = Some (c, h\<lparr>colors := cs\<rparr>) \<and> length cs = length (cells h) \<and> grays cs = {}
    \<and> marked cs = {i. kept (Some ow) trace h roots [] i}"
proof -
  let ?T = "targets (Some ow) h (set roots)" and ?ws = "map (\<lambda>_. White) (colors h)"
  let ?cs = "shaded ?T ?ws"
  have al: "aligned h" using h by (simp add: sized_def)
  have n: "length ?ws = length (cells h)" using al by (simp add: alignedD)
  have T: "?T \<subseteq> {..<length (cells h)}" by (auto dest: targets_range)
  have sets: "grays ?cs = ?T" "marked ?cs = ?T"
    using T n by (auto simp: grays_shaded marked_shaded whiten_sets)
  have "settled (Some ow) trace h ?cs" by (auto simp: settled_def nth_shaded split: if_splits)
  then have m: "marking trace seen ow h ?cs RealmMarkCursor_default"
    using n sets by (auto simp: marking_def cursor_ok_def RealmMarkCursor_default_def targets_def valid_def scoped_def)
  have "unfinished ?ws = {..<length (cells h)}" using n by (auto simp: unfinished_def)
  then have "work togo h ?cs RealmMarkCursor_default = mark_work togo h" by (simp add: work_def mark_work_def)
  then obtain c cs where c: "mark_slices ow trace_slice bs RealmMarkCursor_default (h\<lparr>colors := ?cs\<rparr>)
      = Some (c, h\<lparr>colors := cs\<rparr>)"
    "marking trace seen ow h cs c" "grays cs = {}" "?T \<subseteq> marked cs"
    "\<And>R. ?T \<subseteq> R \<Longrightarrow> closed (Some ow) trace h R \<Longrightarrow> marked cs \<subseteq> R"
    using mark_slices_done [OF h m bs(1)] bs(2) sets(2) by auto
  have len: "length cs = length (cells h)" using c(2) by (simp add: marking_def)
  have "closed (Some ow) trace h (marked cs)"
    using settled_closed [OF _ c(3) len] c(2) by (simp add: marking_def)
  then have "{i. kept (Some ow) trace h roots [] i} \<subseteq> marked cs" using kept_least [OF _ c(4)] by auto
  moreover have "marked cs \<subseteq> {i. kept (Some ow) trace h roots [] i}"
    by (intro c(5) kept_closed) (auto simp: targets_def intro: kept_root)
  ultimately show ?thesis using c(1,3) len al by (auto simp: begin_mark_realm_eq)
qed

end

section \<open>Sweeping in slices\<close>

lemma sweep_slice_loop_eq:
  assumes h: "aligned h"
  shows "k \<le> length (cells h) \<Longrightarrow>
    sweep_slice_loop ow b \<lparr>sweep_next = k, sweep_freed = doomed_count (Some ow) h k\<rparr> (swept (Some ow) h k)
    = Some (\<lparr>sweep_next = min (length (cells h)) (k + b),
             sweep_freed = doomed_count (Some ow) h (min (length (cells h)) (k + b))\<rparr>,
            swept (Some ow) h (min (length (cells h)) (k + b)))"
proof (induction b arbitrary: k)
  case 0
  then show ?case by (subst sweep_slice_loop.simps) (simp add: min_absorb2)
next
  case (Suc b)
  then show ?case
    using sweep_slot_swept [OF h, of k "Some ow"]
    by (subst sweep_slice_loop.simps) (cases "k < length (cells h)", simp_all add: Suc.IH)
qed

lemma sweep_slices_eq:
  assumes h: "aligned h"
  shows "k \<le> length (cells h) \<Longrightarrow> bs \<noteq> [] \<Longrightarrow> length (cells h) \<le> k + sum_list bs \<Longrightarrow>
    sweep_slices env ow bs \<lparr>sweep_next = k, sweep_freed = doomed_count (Some ow) h k\<rparr> (swept (Some ow) h k)
    = Some (doomed_count (Some ow) h (length (cells h)),
        adapt_threshold_after_sweep env ((swept (Some ow) h (length (cells h)))\<lparr>alloc_count := 0\<rparr>))"
proof (induction bs arbitrary: k)
  case (Cons b bs)
  show ?case
  proof (cases "length (cells h) \<le> k + b")
    case True
    then show ?thesis
      using Cons.prems by (simp add: sweep_marked_realm_slice_def sweep_slice_loop_eq [OF h] min_absorb1)
  next
    case False
    moreover have "bs \<noteq> []" using Cons.prems False by (cases bs) auto
    ultimately show ?thesis
      using Cons by (simp add: sweep_marked_realm_slice_def sweep_slice_loop_eq [OF h] min_absorb2)
  qed
qed simp

section \<open>Equivalence with the stop-the-world collection\<close>

lemma colors_unique:
  assumes "length cs = length cs'" "grays cs = {}" "grays cs' = {}" "marked cs = marked cs'"
  shows "cs = cs'"
proof (rule nth_equalityI)
  fix i assume i: "i < length cs"
  then have "i \<in> marked cs \<longleftrightarrow> i \<in> marked cs'" "i \<notin> grays cs" "i \<notin> grays cs'" using assms by simp_all
  then show "cs ! i = cs' ! i"
    using i assms(1) by (cases "cs ! i"; cases "cs' ! i") (auto simp: marked_def grays_def)
qed (use assms in simp)

context edge_slices
begin

lemma incremental_eq:
  assumes h: "sized h" and marks: "\<forall>b \<in> set marks. 0 < b" "mark_work togo h < length marks"
    and sweeps: "sweeps \<noteq> []" "length (cells h) \<le> sum_list sweeps"
  shows "incremental_collect env trace_slice ow roots marks sweeps h = collect_realm env trace ow roots h"
proof -
  have al: "aligned h" using h by (simp add: sized_def)
  obtain c cs where c: "begin_mark_realm ow roots h \<bind> mark_slices ow trace_slice marks RealmMarkCursor_default
      = Some (c, h\<lparr>colors := cs\<rparr>)" "length cs = length (cells h)" "grays cs = {}"
    "marked cs = {i. kept (Some ow) trace h roots [] i}"
    using mark_slices_kept [OF h marks] by blast
  obtain cs' where cs': "mark_phase (Some ow) trace roots [] h = Some (h\<lparr>colors := cs'\<rparr>)"
    "length cs' = length (cells h)" "grays cs' = {}" "marked cs' = {i. kept (Some ow) trace h roots [] i}"
    using mark_phase_spec [OF al] by blast
  have "cs = cs'" using c cs' by (intro colors_unique) simp_all
  have alc: "aligned (h\<lparr>colors := cs\<rparr>)" using al c(2) by (simp add: alignedD)
  show ?thesis
    using c(1) sweep_slices_eq [OF alc, of 0 sweeps env ow] sweeps alc
      collect_scope_eq [OF al cs'(1,2), of env] \<open>cs = cs'\<close>
    by (simp add: incremental_collect_def collect_realm_def collect_realm_with_ephemerons_def
        RealmSweepState_default_def swept_0 doomed_count_def)
qed

end

end
