(* ===== verification/Gc_Handles.thy ===== *)
theory Gc_Handles
  imports Gc_Slices
begin

text \<open>
  Handles over the life of a heap. A handle names a slot and the generation the slot had when it
  was handed out; freeing a slot moves its generation on, so that old handles stop matching, and
  a slot whose generations are used up is never used again. The state of the heap is followed
  through every call of its interface together with the set of handles handed out so far.
\<close>

section \<open>Well-formed heaps\<close>

definition heap_ok :: "'a GcHeap \<Rightarrow> bool" where
  "heap_ok h \<longleftrightarrow> sized h \<and> distinct (free_list h)
     \<and> (\<forall>x \<in> set (free_list h). unat x < length (cells h) \<and> is_Free (cells h ! unat x))
     \<and> (\<forall>i < length (cells h). is_Free (cells h ! i) \<longrightarrow>
          of_nat i \<in> set (free_list h) \<or> generations h ! i = OBJECT_ID_MAX_GENERATION)"

text \<open>Handles that have been handed out are not ahead of their slot, and behind it when it waits for reuse.\<close>

definition known_ok :: "ObjectId set \<Rightarrow> 'a GcHeap \<Rightarrow> bool" where
  "known_ok I h \<longleftrightarrow>
     (\<forall>e \<in> I. slot_index e < length (cells h) \<and> generation e \<le> generations h ! slot_index e
        \<and> (of_nat (slot_index e) \<in> set (free_list h) \<longrightarrow> generation e < generations h ! slot_index e))"

definition stays_dead :: "ObjectId set \<Rightarrow> 'a GcHeap \<Rightarrow> 'a GcHeap \<Rightarrow> bool" where
  "stays_dead I h h' \<longleftrightarrow> (\<forall>e \<in> I. is_free h e \<longrightarrow> is_free h' e)"

text \<open>The contract of a call that hands out no handle.\<close>

definition keeps :: "ObjectId set \<Rightarrow> 'a GcHeap \<Rightarrow> 'a GcHeap \<Rightarrow> bool" where
  "keeps I h h' \<longleftrightarrow>
     (heap_ok h \<longrightarrow> known_ok I h \<longrightarrow> heap_ok h' \<and> known_ok I h' \<and> stays_dead I h h')"

lemma keeps_refl [simp]: "keeps I h h"
  by (simp add: keeps_def stays_dead_def)

lemma keeps_trans: "keeps I h h' \<Longrightarrow> keeps I h' h'' \<Longrightarrow> keeps I h h''"
  by (auto simp: keeps_def stays_dead_def)

lemma keeps_ofold:
  assumes "\<And>x s s'. f x s = Some s' \<Longrightarrow> keeps I (\<pi> s) (\<pi> s')"
  shows "ofold f xs s = Some s' \<Longrightarrow> keeps I (\<pi> s) (\<pi> s')"
proof (induction xs arbitrary: s)
  case (Cons x xs)
  then obtain t where "f x s = Some t" "ofold f xs t = Some s'" by (cases "f x s") auto
  then show ?case using Cons.IH assms keeps_trans by blast
qed simp

lemma is_free_valid: "aligned h \<Longrightarrow> is_free h e \<longleftrightarrow> \<not> valid None h e"
  by (auto simp: is_free_def valid_def scoped_def generation_matches_eq Let_def at_def)

lemma heap_okD: "heap_ok h \<Longrightarrow> sized h" "heap_ok h \<Longrightarrow> aligned h"
  by (simp_all add: heap_ok_def sized_def)

section \<open>Changes that leave the liveness of slots alone\<close>

definition same_liveness :: "'a GcHeap \<Rightarrow> 'a GcHeap \<Rightarrow> bool" where
  "same_liveness h h' \<longleftrightarrow> aligned h' \<and> map is_Free (cells h') = map is_Free (cells h)
     \<and> generations h' = generations h \<and> free_list h' = free_list h"

lemma same_liveness_keeps:
  assumes "aligned h \<Longrightarrow> same_liveness h h'"
  shows "keeps I h h'"
  unfolding keeps_def
proof (intro impI)
  assume h: "heap_ok h" "known_ok I h"
  then have s: "same_liveness h h'" "aligned h" "aligned h'"
    using assms by (simp_all add: heap_okD same_liveness_def)
  then have l: "length (cells h') = length (cells h)"
    unfolding same_liveness_def by (metis length_map)
  then have f: "is_Free (cells h' ! i) = is_Free (cells h ! i)" if "i < length (cells h)" for i
    using s(1) that unfolding same_liveness_def by (metis nth_map)
  show "heap_ok h' \<and> known_ok I h' \<and> stays_dead I h h'"
    using h s l f
    by (auto simp: heap_ok_def known_ok_def stays_dead_def sized_def is_free_valid valid_def scoped_def
        same_liveness_def)
qed

lemma map_is_Free_update:
  "i < length ss \<Longrightarrow> is_Free s = is_Free (ss ! i) \<Longrightarrow> map is_Free (ss[i := s]) = map is_Free ss"
  by (simp add: map_update list_update_same_conv)

section \<open>Freeing a slot\<close>

lemma generation_step:
  assumes "(g :: u16) < OBJECT_ID_MAX_GENERATION"
  shows "g < g + 1" "g + 1 \<le> OBJECT_ID_MAX_GENERATION" "x \<le> g \<Longrightarrow> x < g + 1"
proof -
  have "unat g < 127" using assms by (simp add: max_generation word_less_nat_alt)
  then have "unat (g + 1) = unat g + 1" by (simp add: unat_word_ariths)
  then show "g < g + 1" "g + 1 \<le> OBJECT_ID_MAX_GENERATION" "x \<le> g \<Longrightarrow> x < g + 1"
    using \<open>unat g < 127\<close> by (simp_all add: max_generation word_less_nat_alt word_le_nat_alt)
qed

text \<open>Slot \<open>k\<close> was in use, and is released.\<close>

definition released :: "nat \<Rightarrow> 'a GcHeap \<Rightarrow> 'a GcHeap \<Rightarrow> bool" where
  "released k h h' \<longleftrightarrow> k < length (cells h) \<and> \<not> is_Free (cells h ! k) \<and> aligned h'
     \<and> cells h' = (cells h)[k := Free]
     \<and> generations h' = (if reusable h k then (generations h)[k := generations h ! k + 1] else generations h)
     \<and> free_list h' = (if reusable h k then free_list h @ [of_nat k] else free_list h)"

lemma slot_word_inj: "i < 2 ^ 25 \<Longrightarrow> j < 2 ^ 25 \<Longrightarrow> (of_nat i :: u32) = of_nat j \<longleftrightarrow> i = j"
  by (metis unat_of_slot)

lemma released_heap_ok:
  assumes r: "released k h h'" and h: "heap_ok h"
  shows "heap_ok h'"
proof -
  let ?n = "length (cells h)"
  have k: "k < ?n" "?n \<le> 2 ^ 25" "\<not> is_Free (cells h ! k)" using r h by (simp_all add: released_def heap_ok_def sized_def)
  have l: "length (cells h') = ?n" "length (generations h) = ?n"
    using r h by (simp_all add: released_def heap_okD alignedD)
  have new: "of_nat k \<notin> set (free_list h)" using h k by (auto simp: heap_ok_def unat_of_slot)
  have "g \<le> OBJECT_ID_MAX_GENERATION" if "g \<in> set (generations h')" for g
  proof -
    have "g \<in> set (generations h) \<or> reusable h k \<and> g = generations h ! k + 1"
      using that r by (auto simp: released_def dest: set_update_subset_insert [THEN subsetD] split: if_splits)
    then show ?thesis using h generation_step(2) by (auto simp: heap_ok_def sized_def reusable_def)
  qed
  then have "sized h'" using r h l by (simp add: sized_def heap_ok_def released_def)
  moreover have "distinct (free_list h')" using r h new by (simp add: released_def heap_ok_def)
  moreover have "unat x < length (cells h') \<and> is_Free (cells h' ! unat x)" if "x \<in> set (free_list h')" for x
    using that r h k l by (auto simp: released_def heap_ok_def nth_list_update unat_of_slot split: if_splits)
  moreover have "of_nat i \<in> set (free_list h') \<or> generations h' ! i = OBJECT_ID_MAX_GENERATION"
    if i: "i < length (cells h')" "is_Free (cells h' ! i)" for i
  proof (cases "i = k")
    case True
    have "generations h ! k \<le> OBJECT_ID_MAX_GENERATION" using h k l by (simp add: heap_ok_def sized_def)
    then show ?thesis using r True by (auto simp: released_def reusable_def)
  next
    case False
    then show ?thesis using r h i l by (auto simp: released_def heap_ok_def split: if_splits)
  qed
  ultimately show ?thesis by (simp add: heap_ok_def)
qed

lemma released_keeps:
  assumes "aligned h \<Longrightarrow> released k h h'"
  shows "keeps I h h'"
  unfolding keeps_def
proof (intro impI)
  assume h: "heap_ok h" and I: "known_ok I h"
  then have r: "released k h h'" using assms by (simp add: heap_okD)
  have k: "k < length (cells h)" "length (cells h) \<le> 2 ^ 25"
    using r h by (simp_all add: released_def heap_ok_def sized_def)
  have l: "length (cells h') = length (cells h)" "length (generations h) = length (cells h)" "aligned h" "aligned h'"
    using r h by (simp_all add: released_def heap_okD alignedD)
  have "known_ok I h'"
    unfolding known_ok_def
  proof (intro ballI conjI impI)
    fix e assume e: "e \<in> I"
    then have o: "slot_index e < length (cells h)" "generation e \<le> generations h ! slot_index e"
      "of_nat (slot_index e) \<in> set (free_list h) \<Longrightarrow> generation e < generations h ! slot_index e"
      using I by (simp_all add: known_ok_def)
    show "slot_index e < length (cells h')" using o l by simp
    show "generation e \<le> generations h' ! slot_index e"
      using r o k l generation_step(3) [of "generations h ! k" "generation e"]
      by (auto simp: released_def reusable_def nth_list_update intro: less_imp_le)
    assume m: "of_nat (slot_index e) \<in> set (free_list h')"
    show "generation e < generations h' ! slot_index e"
    proof (cases "slot_index e = k \<and> reusable h k")
      case True
      then show ?thesis
        using r o k l generation_step(3) [of "generations h ! k" "generation e"]
        by (auto simp: released_def reusable_def)
    next
      case False
      then have "of_nat (slot_index e) \<in> set (free_list h)"
        using m r o(1) k by (auto simp: released_def slot_word_inj split: if_splits)
      then show ?thesis using o(3) r False k l by (auto simp: released_def nth_list_update)
    qed
  qed
  moreover have "stays_dead I h h'"
  proof -
    have "is_free h' e" if e: "e \<in> I" "is_free h e" for e
    proof (cases "slot_index e = k")
      case True
      then have "is_Free (cells h' ! slot_index e)" using r k by (simp add: released_def)
      then show ?thesis using l by (simp add: is_free_valid valid_def)
    next
      case False
      then show ?thesis using e r k l by (auto simp: is_free_valid valid_def scoped_def released_def)
    qed
    then show ?thesis by (simp add: stays_dead_def)
  qed
  ultimately show "heap_ok h' \<and> known_ok I h' \<and> stays_dead I h h'" using released_heap_ok [OF r h] by simp
qed

section \<open>Allocation\<close>

definition exhausted :: "'a GcHeap \<Rightarrow> bool" where
  "exhausted h \<longleftrightarrow> (no_slot_reuse h \<or> free_list h = []) \<and> 2 ^ 25 \<le> length (cells h)"

text \<open>The slot an allocation takes, and the heap with it filled.\<close>

definition place :: "'a Slot \<Rightarrow> nat \<Rightarrow> 'a GcHeap \<Rightarrow> (ObjectId \<times> 'a GcHeap) option" where
  "place s ow h =
     (case pop_free h of
        Some (idx, h) \<Rightarrow> do { h \<leftarrow> fill (unat idx) s ow h; oid \<leftarrow> handle_at idx h; Some (oid, h) }
      | None \<Rightarrow>
          let h' = push_slot s ow h in
          do { oid \<leftarrow> handle_at (of_nat (length (cells h))) h'; Some (oid, h') })"

text \<open>What allocating \<open>s\<close> promises: a handle that was never handed out, and nothing else disturbed.\<close>

definition placed :: "ObjectId set \<Rightarrow> 'a Slot \<Rightarrow> 'a GcHeap \<Rightarrow> ObjectId \<Rightarrow> 'a GcHeap \<Rightarrow> bool" where
  "placed I s h e h' \<longleftrightarrow> e \<notin> I \<and> heap_ok h' \<and> known_ok (insert e I) h'
     \<and> generation_matches h' (slot_index e) e \<and> at (cells h') (slot_index e) = Some s
     \<and> (\<forall>e' \<in> I. is_free h' e' = is_free h e' \<and> GcHeap_get h' e' = GcHeap_get h e')"

lemma handle_at_eq:
  assumes "sized h" "unat idx < length (cells h)"
  shows "\<exists>e. handle_at idx h = Some e \<and> slot_index e = unat idx \<and> generation e = generations h ! unat idx"
proof -
  have "unat idx < 2 ^ 25" "generations h ! unat idx \<le> OBJECT_ID_MAX_GENERATION"
    using assms by (simp_all add: sized_def aligned_def)
  from ObjectId_new_eq [OF this] show ?thesis
    using assms by (auto simp: handle_at_def sized_def alignedD)
qed

lemma get_eq: "aligned h \<Longrightarrow>
  GcHeap_get h e = (if valid None h e then (case cells h ! slot_index e of Object v \<Rightarrow> Some v | _ \<Rightarrow> None) else None)"
  by (auto simp: GcHeap_get_def Let_def generation_matches_eq valid_def scoped_def split: Slot.split)

lemma frame_access:
  assumes "aligned h" "aligned h'" "length (cells h) \<le> length (cells h')" "slot_index e < length (cells h)"
    and "cells h' ! slot_index e = cells h ! slot_index e" "generations h' ! slot_index e = generations h ! slot_index e"
  shows "is_free h' e = is_free h e" "GcHeap_get h' e = GcHeap_get h e"
proof -
  have "valid None h' e = valid None h e" using assms by (simp add: valid_def scoped_def)
  then show "is_free h' e = is_free h e" "GcHeap_get h' e = GcHeap_get h e"
    using assms by (simp_all add: is_free_valid get_eq)
qed

lemma place_reuse:
  assumes h: "heap_ok h" "known_ok I h" and f: "\<not> no_slot_reuse h" "free_list h \<noteq> []" and s: "\<not> is_Free s"
  shows "\<exists>e h'. place s ow h = Some (e, h') \<and> placed I s h e h'"
proof -
  let ?x = "last (free_list h)"
  let ?i = "unat ?x"
  let ?h = "h\<lparr>free_list := butlast (free_list h), cells := (cells h)[?i := s], colors := (colors h)[?i := White],
    owners := (owners h)[?i := ow]\<rparr>"
  have x: "?x \<in> set (free_list h)" using f by simp
  then have i: "?i < length (cells h)" "is_Free (cells h ! ?i)" using h by (simp_all add: heap_ok_def)
  have fl: "set (butlast (free_list h)) = set (free_list h) - {?x}" "distinct (butlast (free_list h))"
  proof -
    have d: "distinct (butlast (free_list h) @ [?x])" using h f by (simp add: heap_ok_def)
    then show "distinct (butlast (free_list h))" by simp
    have "set (free_list h) = insert ?x (set (butlast (free_list h)))"
      using f by (metis append_butlast_last_id list.simps(15) rotate1.simps(2) set_rotate1)
    then show "set (butlast (free_list h)) = set (free_list h) - {?x}" using d by auto
  qed
  have al: "aligned h" "aligned ?h" using h by (simp_all add: heap_okD aligned_def sized_def heap_ok_def)
  have sz: "sized ?h" using h al by (simp add: sized_def heap_ok_def)
  obtain e where e: "handle_at ?x ?h = Some e" "slot_index e = ?i" "generation e = generations h ! ?i"
    using handle_at_eq [OF sz, of ?x] i by auto
  have pl: "place s ow h = Some (e, ?h)"
    using f i e(1) al by (simp add: place_def pop_free_def fill_def alignedD)
  have n: "length (cells h) \<le> 2 ^ 25" using h by (simp add: heap_ok_def sized_def)
  have eq: "of_nat j = ?x \<longleftrightarrow> j = ?i" if "j < length (cells h)" for j
    using that n unat_of_slot [of j] by auto
  have old: "slot_index e' \<noteq> ?i \<or> generation e' < generations h ! ?i" if "e' \<in> I" for e'
    using that h x eq [of "slot_index e'"] by (auto simp: known_ok_def)
  have "heap_ok ?h"
    unfolding heap_ok_def
  proof (intro conjI ballI allI impI)
    show "sized ?h" by (rule sz)
    show "distinct (free_list ?h)" using fl by simp
  next
    fix y assume y: "y \<in> set (free_list ?h)"
    then have m: "y \<in> set (free_list h)" "y \<noteq> ?x" using fl(1) by simp_all
    then have "unat y \<noteq> ?i" by (metis unsigned_word_eqI)
    then show "unat y < length (cells ?h)" "is_Free (cells ?h ! unat y)"
      using m(1) h(1) by (simp_all add: heap_ok_def)
  next
    fix j assume j: "j < length (cells ?h)" "is_Free (cells ?h ! j)"
    then have "j \<noteq> ?i" using s by auto
    then show "of_nat j \<in> set (free_list ?h) \<or> generations ?h ! j = OBJECT_ID_MAX_GENERATION"
      using j h fl eq [of j] by (auto simp: heap_ok_def)
  qed
  moreover have "known_ok (insert e I) ?h"
    using h e i fl eq [of ?i] by (auto simp: known_ok_def)
  moreover have "e \<notin> I" using old [of e] e by auto
  moreover have "is_free ?h e' = is_free h e' \<and> GcHeap_get ?h e' = GcHeap_get h e'" if "e' \<in> I" for e'
  proof (cases "slot_index e' = ?i")
    case True
    then have "\<not> valid None h e'" "\<not> valid None ?h e'" using old [OF that] by (auto simp: valid_def)
    then show ?thesis using al by (simp add: is_free_valid get_eq)
  next
    case False
    then show ?thesis using frame_access [OF al, of e'] that h by (simp add: known_ok_def)
  qed
  ultimately show ?thesis
    using pl i e al
    by (intro exI [of _ e] exI [of _ ?h]) (auto simp: placed_def generation_matches_eq)
qed

lemma place_push:
  assumes h: "heap_ok h" "known_ok I h" and f: "no_slot_reuse h \<or> free_list h = []"
    and n: "length (cells h) < 2 ^ 25" and s: "\<not> is_Free s"
  shows "\<exists>e h'. place s ow h = Some (e, h') \<and> placed I s h e h'"
proof -
  let ?n = "length (cells h)" and ?h = "push_slot s ow h"
  have al: "aligned h" "aligned ?h" using h by (simp_all add: heap_okD aligned_def sized_def heap_ok_def push_slot_def)
  have sz: "sized ?h" using h al n by (auto simp: sized_def heap_ok_def push_slot_def)
  have l: "length (cells ?h) = Suc ?n" "length (generations h) = ?n" "length (cells h) \<le> length (cells ?h)"
    using al by (simp_all add: push_slot_def alignedD)
  obtain e where e: "handle_at (of_nat ?n) ?h = Some e" "slot_index e = ?n" "generation e = 0"
    using handle_at_eq [OF sz, of "of_nat ?n"] n l by (auto simp: unat_of_slot push_slot_def nth_append)
  have pl: "place s ow h = Some (e, ?h)" using f e(1) by (auto simp: place_def pop_free_def)
  have "heap_ok ?h"
    unfolding heap_ok_def
  proof (intro conjI ballI allI impI)
    show "sized ?h" by (rule sz)
    show "distinct (free_list ?h)" using h by (simp add: heap_ok_def push_slot_def)
  next
    fix y assume "y \<in> set (free_list ?h)"
    then have "unat y < ?n" "is_Free (cells h ! unat y)" using h by (simp_all add: heap_ok_def push_slot_def)
    then show "unat y < length (cells ?h)" "is_Free (cells ?h ! unat y)" by (simp_all add: push_slot_def nth_append)
  next
    fix j assume j: "j < length (cells ?h)" "is_Free (cells ?h ! j)"
    then have "j < ?n" using s l(1) by (cases "j = ?n") (auto simp: push_slot_def)
    then show "of_nat j \<in> set (free_list ?h) \<or> generations ?h ! j = OBJECT_ID_MAX_GENERATION"
      using j h l(2) by (simp add: heap_ok_def push_slot_def nth_append)
  qed
  moreover have "of_nat ?n \<notin> set (free_list h)" using h n by (auto simp: heap_ok_def unat_of_slot)
  then have "known_ok (insert e I) ?h"
    using h e l by (auto simp: known_ok_def push_slot_def nth_append)
  moreover have "e \<notin> I" using h e by (auto simp: known_ok_def)
  moreover have "is_free ?h e' = is_free h e' \<and> GcHeap_get ?h e' = GcHeap_get h e'" if "e' \<in> I" for e'
    using frame_access [OF al l(3), of e'] that h l by (simp add: known_ok_def push_slot_def nth_append)
  ultimately show ?thesis
    using pl e al l
    by (intro exI [of _ e] exI [of _ ?h])
      (auto simp: placed_def generation_matches_eq push_slot_def nth_append)
qed

end
