(* ===== verification/Gc_History.thy ===== *)
theory Gc_History
  imports Gc_Handles
begin

text \<open>
  Every call of the heap's interface, as a value, and the states a heap can reach through them.
  Each call returns on a well-formed heap and keeps handles that are dead dead; an allocation
  hands out a handle that was never handed out before. The locale \<open>handle_safe\<close> states the
  contract of the calls that hand out nothing.
\<close>

section \<open>Operations that change colours, owners or contents\<close>

lemma keeps_colors: "length cs = length (colors h) \<Longrightarrow> keeps I h (h\<lparr>colors := cs\<rparr>)"
  by (rule same_liveness_keeps) (simp add: same_liveness_def alignedD)

definition recolored :: "'a GcHeap \<Rightarrow> 'a GcHeap \<Rightarrow> bool" where
  "recolored h h' \<longleftrightarrow> (\<exists>cs. h' = h\<lparr>colors := cs\<rparr> \<and> length cs = length (colors h))"

lemma recolored_refl [simp]: "recolored h h"
  unfolding recolored_def by (rule exI [of _ "colors h"]) simp

lemma recolored_trans: "recolored h h' \<Longrightarrow> recolored h' h'' \<Longrightarrow> recolored h h''"
  by (auto simp: recolored_def)

lemma recolored_keeps: "recolored h h' \<Longrightarrow> keeps I h h'"
  by (auto simp: recolored_def keeps_colors)

lemma put_length: "put xs i v = Some ys \<Longrightarrow> length ys = length xs"
  by (auto simp: put_def split: if_splits)

lemma shade_root_recolored: "shade_root ow r h = Some h' \<Longrightarrow> recolored h h'"
  by (auto simp: shade_root_def recolored_def put_length split: bind_splits if_splits intro: exI [of _ "colors h"])

lemma ofold_recolored:
  assumes "\<And>x h h'. f x h = Some h' \<Longrightarrow> recolored h h'"
  shows "ofold f xs h = Some h' \<Longrightarrow> recolored h h'"
proof (induction xs arbitrary: h)
  case (Cons x xs)
  then obtain t where "f x h = Some t" "ofold f xs t = Some h'" by (cases "f x h") auto
  then show ?case using Cons.IH assms recolored_trans by blast
qed simp

lemma begin_mark_recolored: "begin_mark_realm ow roots h = Some h' \<Longrightarrow> recolored h h'"
proof -
  assume "begin_mark_realm ow roots h = Some h'"
  then have "recolored (whiten h) h'"
    unfolding begin_mark_realm_def using ofold_recolored [of "shade_root ow"] shade_root_recolored by blast
  moreover have "recolored h (whiten h)" by (auto simp: recolored_def whiten_def)
  ultimately show ?thesis by (rule recolored_trans [rotated])
qed

lemma enqueue_recolored: "enqueue_mark_owner ow r h = Some h' \<Longrightarrow> recolored h h'"
  by (auto simp: enqueue_mark_owner_def recolored_def put_length split: bind_splits if_splits
      intro: exI [of _ "colors h"])

lemma mark_object_recolored:
  assumes "mark_object ow ts oid s b c h = Some r"
  shows "recolored h (fst r)"
proof -
  obtain slot where slot: "at (cells h) (slot_index oid) = Some slot"
    using assms by (auto simp: mark_object_def Let_def Option.bind_eq_Some_conv)
  let ?slice = "case slot of Object v \<Rightarrow> ts v s b | _ \<Rightarrow> ([], \<lparr>next_edge = s, complete = True\<rparr>)"
  obtain out sl where sl: "?slice = (out, sl)" by (cases ?slice)
  obtain h1 where h1: "(if complete sl then do { cs \<leftarrow> put (colors h) (slot_index oid) Black; Some (h\<lparr>colors := cs\<rparr>) }
      else Some h) = Some h1" "ofold (shade_root ow) out h1 = Some (fst r)"
    using assms slot sl by (auto simp: mark_object_def Option.bind_eq_Some_conv)
  have "recolored h h1"
    using h1(1) by (auto simp: recolored_def put_length Option.bind_eq_Some_conv split: if_splits
        intro: exI [of _ "colors h"])
  moreover have "recolored h1 (fst r)"
    using h1(2) ofold_recolored [of "shade_root ow"] shade_root_recolored by blast
  ultimately show ?thesis by (rule recolored_trans)
qed

lemma mark_slice_loop_recolored:
  assumes "mark_slice_loop ow ts b p c h = Some r"
  shows "recolored h (snd (snd r))"
proof (rule mark_slice_loop.raw_induct [where P = "\<lambda>_ _ _ _ _ h r. recolored h (snd (snd r))", OF _ assms],
    goal_cases)
  case (1 f ow ts b p c h r)
  note IH = 1(1) and eq = 1(2)
  show ?case
  proof (cases "b = 0")
    case True
    then show ?thesis using eq by auto
  next
    case False
    then obtain n where n: "next_mark ow h c = Some n" using eq by (auto simp: Option.bind_eq_Some_conv)
    show ?thesis
    proof (cases "fst n")
      case None
      then show ?thesis using eq False n by auto
    next
      case (Some q)
      then obtain d where d: "mark_done ow h (fst q) = Some d"
        using eq False n by (auto simp: Option.bind_eq_Some_conv)
      show ?thesis
      proof (cases d)
        case True
        then have "f ow ts b p (snd n) h = Some r" using eq False n Some d by simp
        then show ?thesis by (rule IH)
      next
        case no: False
        obtain t where t: "mark_object ow ts (fst q) (snd q) b (snd n) h = Some t"
          "f ow ts (fst (snd t)) (p + 1) (snd (snd t)) (fst t) = Some r"
          using eq False n Some d no by (auto simp: Option.bind_eq_Some_conv)
        show ?thesis using mark_object_recolored [OF t(1)] IH [OF t(2)] by (rule recolored_trans)
      qed
    qed
  qed
qed

lemma mark_owner_slice_recolored: "mark_owner_slice ow ts b h = Some q \<Longrightarrow> recolored h (snd q)"
  by (auto simp: mark_owner_slice_def mark_owner_slice_with_cursor_def dest: mark_slice_loop_recolored)

lemma drain_recolored:
  assumes "drain_mark_realm ow ts h = Some h'"
  shows "recolored h h'"
proof (rule drain_mark_realm.raw_induct [where P = "\<lambda>_ _ h h'. recolored h h'", OF _ assms], goal_cases)
  case (1 f ow ts h h')
  from 1(2) obtain q where q: "mark_owner_slice ow ts USIZE_MAX h = Some q"
    "if fst q \<noteq> 0 then f ow ts (snd q) = Some h' else h' = snd q"
    by (auto simp: Option.bind_eq_Some_conv split: if_splits)
  then show ?case
    using mark_owner_slice_recolored [OF q(1)] 1(1) [of ow ts "snd q" h']
    by (auto intro: recolored_trans split: if_splits)
qed

lemma fields_keep:
  assumes "cells h' = cells h" "generations h' = generations h" "free_list h' = free_list h"
    "length (colors h') = length (colors h)" "length (owners h') = length (owners h)"
  shows "keeps I h h'"
  using assms by (intro same_liveness_keeps) (simp add: same_liveness_def aligned_def)

lemma write_keeps: "GcHeap_write e v h = Some h' \<Longrightarrow> keeps I h h'"
  by (rule same_liveness_keeps)
    (auto simp: GcHeap_write_def Let_def same_liveness_def aligned_def at_def map_is_Free_update
      split: if_splits option.splits Slot.splits)

lemma set_owner_keeps: "set_owner e ow h = Some (b, h') \<Longrightarrow> keeps I h h'"
  by (rule fields_keep)
    (auto simp: set_owner_def Let_def put_length split: if_splits option.splits bind_splits)

lemma preserve_keeps: "preserve_new_owner_allocation ow e h = Some (b, h') \<Longrightarrow> keeps I h h'"
  by (rule fields_keep)
    (auto simp: preserve_new_owner_allocation_def Let_def put_length split: if_splits option.splits bind_splits)

section \<open>Operations that free slots\<close>

lemma release_slot_released:
  assumes "aligned h" "release_slot k h = Some h'" "k < length (cells h)" "\<not> is_Free (cells h ! k)"
  shows "released k h h'"
proof -
  have "length (owners h) = length (cells h)" "length (generations h) = length (cells h)"
    using assms(1) by (simp_all add: alignedD)
  then show ?thesis using assms by (auto simp: release_slot_eq released_def aligned_def)
qed

lemma keepsI: "(heap_ok h \<Longrightarrow> known_ok I h \<Longrightarrow> keeps I h h') \<Longrightarrow> keeps I h h'"
  by (auto simp: keeps_def)

lemma sweep_slot_eq:
  assumes "aligned h" "i < length (cells h)"
  shows "sweep_slot sc i (h, f) =
    (if doomed sc h i
     then map_option (\<lambda>h. (h, f + 1))
       (release_slot i (h\<lparr>freed_external := freed_external h @ external_of (cells h ! i)\<rparr>))
     else Some (if colors h ! i = Black then h\<lparr>colors := (colors h)[i := White]\<rparr> else h, f))"
  using assms
  by (cases "cells h ! i"; cases "colors h ! i")
    (auto simp: sweep_slot_def doomed_def alignedD external_of_def map_conv_bind_option comp_def)

lemma sweep_slot_keeps:
  assumes "sweep_slot sc i (h, f) = Some (h', f')"
  shows "keeps I h h'"
proof (rule keepsI)
  assume "heap_ok h"
  then have al: "aligned h" by (simp add: heap_okD)
  have i: "i < length (cells h)"
    using assms al by (cases "i < length (cells h)") (auto simp: sweep_slot_def in_scope_def alignedD split: option.splits)
  show ?thesis
  proof (cases "doomed sc h i")
    case True
    let ?h = "h\<lparr>freed_external := freed_external h @ external_of (cells h ! i)\<rparr>"
    have "release_slot i ?h = Some h'" using assms True by (simp add: sweep_slot_eq [OF al i])
    then have "released i ?h h'"
      using al i True by (intro release_slot_released) (simp_all add: aligned_def doomed_def)
    then have "released i h h'" by (simp add: released_def reusable_def)
    then show ?thesis by (intro released_keeps)
  next
    case False
    then have "h' = (if colors h ! i = Black then h\<lparr>colors := (colors h)[i := White]\<rparr> else h)"
      using assms by (simp add: sweep_slot_eq [OF al i])
    then show ?thesis by (simp add: keeps_colors)
  qed
qed

lemma sweep_slice_loop_keeps: "sweep_slice_loop ow b st h = Some r \<Longrightarrow> keeps I h (snd r)"
proof (induction b arbitrary: st h)
  case 0
  then show ?case by (subst (asm) sweep_slice_loop.simps) auto
next
  case (Suc b)
  show ?case
  proof (cases "sweep_next st \<ge> length (cells h)")
    case True
    then show ?thesis using Suc.prems by (subst (asm) sweep_slice_loop.simps) auto
  next
    case False
    then obtain h1 f where s: "sweep_slot (Some ow) (sweep_next st) (h, sweep_freed st) = Some (h1, f)"
      "sweep_slice_loop ow b \<lparr>sweep_next = sweep_next st + 1, sweep_freed = f\<rparr> h1 = Some r"
      using Suc.prems by (subst (asm) sweep_slice_loop.simps) (auto simp: Option.bind_eq_Some_conv)
    show ?thesis using sweep_slot_keeps [OF s(1)] Suc.IH [OF s(2)] by (rule keeps_trans)
  qed
qed

lemma fill_free_released:
  assumes "aligned h" "k < length (cells h)" "\<not> is_Free (cells h ! k)" "fill k Free 0 h = Some h1"
  shows "released k h (retire_slot_index k h1)"
  using assms
  by (auto simp: fill_def retire_slot_index_def released_def reusable_def aligned_def split: if_splits)

lemma drop_slot_eq:
  assumes "aligned h" "i < length (cells h)"
  shows "drop_slot ow i (h, f) =
    (if owners h ! i \<noteq> ow \<or> is_Free (cells h ! i) then Some (h, f)
     else map_option (\<lambda>h. (retire_slot_index i h, f + 1))
       (fill i Free 0 (h\<lparr>freed_external := freed_external h @ external_of (cells h ! i)\<rparr>)))"
  using assms
  by (cases "cells h ! i")
    (auto simp: drop_slot_def alignedD external_of_def Let_def map_conv_bind_option comp_def)

lemma drop_slot_keeps:
  assumes "drop_slot ow i (h, f) = Some (h', f')"
  shows "keeps I h h'"
proof (rule keepsI)
  assume "heap_ok h"
  then have al: "aligned h" by (simp add: heap_okD)
  have i: "i < length (cells h)"
    using assms al by (cases "i < length (cells h)") (auto simp: drop_slot_def alignedD)
  show ?thesis
  proof (cases "owners h ! i \<noteq> ow \<or> is_Free (cells h ! i)")
    case True
    then show ?thesis using assms by (simp add: drop_slot_eq [OF al i])
  next
    case False
    let ?h = "h\<lparr>freed_external := freed_external h @ external_of (cells h ! i)\<rparr>"
    obtain h1 where h1: "fill i Free 0 ?h = Some h1" "h' = retire_slot_index i h1"
      using assms False by (auto simp: drop_slot_eq [OF al i])
    have "released i ?h h'"
      unfolding h1(2) using al i False h1(1) by (intro fill_free_released) (simp_all add: aligned_def)
    then have "released i h h'" by (simp add: released_def reusable_def)
    then show ?thesis by (intro released_keeps)
  qed
qed

text \<open>\<open>free\<close> is safe on the handles it was given out for.\<close>

lemma free_keeps:
  assumes "GcHeap_free e h = Some h'" "e \<in> I"
  shows "keeps I h h'"
proof (rule keepsI)
  let ?i = "slot_index e"
  assume h: "heap_ok h" "known_ok I h"
  then have al: "aligned h" by (simp add: heap_okD)
  show ?thesis
  proof (cases "generation_matches h ?i e")
    case False
    then show ?thesis using assms by (simp add: GcHeap_free_def Let_def)
  next
    case True
    then have i: "?i < length (cells h)" "generations h ! ?i = generation e" using al by (simp_all add: generation_matches_eq)
    then obtain h1 where h1: "fill ?i Free 0 h = Some h1" "h' = retire_slot_index ?i h1"
      using assms True by (auto simp: GcHeap_free_def Let_def)
    show ?thesis
    proof (cases "is_Free (cells h ! ?i)")
      case False
      then show ?thesis using fill_free_released [OF al i(1) False h1(1)] h1(2) by (simp add: released_keeps)
    next
      case True
      have "of_nat ?i \<notin> set (free_list h)" using h(2) assms(2) i(2) by (auto simp: known_ok_def)
      then have "generations h ! ?i = OBJECT_ID_MAX_GENERATION"
        using h(1) i(1) True unfolding heap_ok_def by blast
      moreover have "h1 = h\<lparr>cells := (cells h)[?i := Free], colors := (colors h)[?i := White], owners := (owners h)[?i := 0]\<rparr>"
        using h1(1) al i by (simp add: fill_def alignedD)
      ultimately have "h' = h1" using h1(2) al i by (simp add: retire_slot_index_def alignedD)
      then show ?thesis
        using \<open>h1 = _\<close> True i
        by (intro same_liveness_keeps) (simp add: same_liveness_def aligned_def map_is_Free_update)
    qed
  qed
qed

section \<open>Operations return\<close>

lemma release_slot_returns: "aligned h \<Longrightarrow> k < length (cells h) \<Longrightarrow> \<exists>h'. release_slot k h = Some h'"
  by (simp add: release_slot_eq alignedD)

lemma sweep_slot_returns:
  assumes "aligned h" "i < length (cells h)"
  shows "\<exists>h' f'. sweep_slot sc i (h, f) = Some (h', f') \<and> aligned h' \<and> length (cells h') = length (cells h)"
proof (cases "doomed sc h i")
  case True
  then show ?thesis
    using assms by (simp add: sweep_slot_eq release_slot_eq aligned_def)
next
  case False
  then show ?thesis using assms by (simp add: sweep_slot_eq aligned_def)
qed

lemma sweep_slice_loop_returns: "aligned h \<Longrightarrow> \<exists>r. sweep_slice_loop ow b st h = Some r"
proof (induction b arbitrary: st h)
  case 0
  then show ?case by (subst sweep_slice_loop.simps) auto
next
  case (Suc b)
  show ?case
  proof (cases "sweep_next st < length (cells h)")
    case True
    then obtain h1 f where s: "sweep_slot (Some ow) (sweep_next st) (h, sweep_freed st) = Some (h1, f)" "aligned h1"
      using sweep_slot_returns [OF Suc.prems] by blast
    then show ?thesis
      using True Suc.IH [OF s(2)] by (subst sweep_slice_loop.simps) simp
  next
    case False
    then show ?thesis by (subst sweep_slice_loop.simps) auto
  qed
qed

lemma drop_slot_returns:
  assumes "aligned h" "i < length (cells h)"
  shows "\<exists>h' f'. drop_slot ow i (h, f) = Some (h', f') \<and> aligned h' \<and> length (cells h') = length (cells h)"
  using assms by (simp add: drop_slot_eq fill_def retire_slot_index_def aligned_def)

lemma drop_all_returns:
  "aligned h \<Longrightarrow> \<forall>i \<in> set is. i < length (cells h) \<Longrightarrow> \<exists>r. ofold (drop_slot ow) is (h, f) = Some r"
proof (induction "is" arbitrary: h f)
  case (Cons i "is")
  then obtain h1 f1 where d: "drop_slot ow i (h, f) = Some (h1, f1)" "aligned h1" "length (cells h1) = length (cells h)"
    using drop_slot_returns [OF Cons.prems(1), of i ow f] by (meson list.set_intros(1))
  then show ?case using Cons.IH [OF d(2)] Cons.prems by simp
qed simp

text \<open>A slice always comes back, whatever the tracer, the colours and the cursor are.\<close>

lemma mark_object_returns:
  assumes "aligned h" "slot_index e < length (cells h)" "0 < b"
  shows "\<exists>h' b' c'. mark_object ow ts e s b c h = Some (h', b', c') \<and> b' < b"
proof -
  let ?slice = "case cells h ! slot_index e of Object v \<Rightarrow> ts v s b | _ \<Rightarrow> ([], \<lparr>next_edge = s, complete = True\<rparr>)"
  obtain out sl where sl: "?slice = (out, sl)" by (cases ?slice)
  have "\<exists>h'. ofold (shade_root ow) out (h\<lparr>colors := cs\<rparr>) = Some h'" if "length cs = length (cells h)" for cs
    using shade_root_all [OF assms(1) that] by simp
  from this [of "colors h"] this [of "(colors h)[slot_index e := Black]"] show ?thesis
    using assms sl by (auto simp: mark_object_def alignedD)
qed

lemma mark_slice_loop_returns:
  "sized h \<Longrightarrow> \<exists>r. mark_slice_loop ow ts b p c h = Some r"
proof (induction "2 * b + (if cursor_object c = None then 0 else 1)" arbitrary: b p c h rule: less_induct)
  case less
  have al: "aligned h" using less.prems by (simp add: sized_def)
  show ?case
  proof (cases "b = 0")
    case True
    then show ?thesis by (subst mark_slice_loop.simps) simp
  next
    case False
    obtain r c1 where n: "next_mark ow h c = Some (r, c1)" "cursor_object c1 = None"
      "cursor_object c = None \<Longrightarrow> (case r of None \<Rightarrow> True | Some (e, s) \<Rightarrow> mark_done ow h e = Some False)"
    proof (cases "cursor_object c")
      case None
      obtain q c1 where "next_gray_owner_object ow h c = Some (q, c1)" "cursor_object c1 = cursor_object c"
        "case q of None \<Rightarrow> realm_grays ow h = {} | Some e \<Rightarrow> valid (Some ow) h e \<and> slot_index e \<in> realm_grays ow h"
        using next_gray_spec [OF less.prems, of ow c] by blast
      then show ?thesis
        using None al by (intro that [of "map_option (\<lambda>e. (e, 0)) q" c1])
          (auto simp: next_mark_def mark_done_eq realm_grays_def grays_def split: option.splits)
    next
      case (Some q)
      then show ?thesis by (intro that [of "Some q" "c\<lparr>cursor_object := None\<rparr>"]) (simp_all add: next_mark_def)
    qed
    show ?thesis
    proof (cases r)
      case None
      then show ?thesis using False n by (subst mark_slice_loop.simps) simp
    next
      case (Some q)
      obtain e s where q: "q = (e, s)" by (cases q)
      show ?thesis
      proof (cases "mark_done ow h e = Some True")
        case True
        then have c: "cursor_object c \<noteq> None" using n(3) Some q by (cases "cursor_object c") auto
        then have "\<exists>r. mark_slice_loop ow ts b p c1 h = Some r"
          using less.hyps [of b c1 h p] n(2) less.prems by simp
        then show ?thesis using False n(1) Some q True by (subst mark_slice_loop.simps) simp
      next
        case nd: False
        then have v: "valid (Some ow) h e" "mark_done ow h e = Some False" using al by (auto simp: mark_done_eq)
        then obtain h2 b2 c2 where m: "mark_object ow ts e s b c1 h = Some (h2, b2, c2)" "b2 < b"
          using mark_object_returns [OF al, of e b ow ts s c1] False by (auto simp: valid_def)
        have "recolored h h2" using mark_object_recolored [OF m(1)] by simp
        then have "sized h2" using less.prems by (auto simp: recolored_def sized_def aligned_def)
        then have "\<exists>r. mark_slice_loop ow ts b2 (p + 1) c2 h2 = Some r"
          using less.hyps [of b2 c2 h2 "p + 1"] m(2) by simp
        then show ?thesis using False n(1) Some q v(2) m(1) by (subst mark_slice_loop.simps) simp
      qed
    qed
  qed
qed

section \<open>The contract of the calls\<close>

locale handle_safe =
  fixes op :: "'a GcHeap \<Rightarrow> 'a GcHeap option"
    and holds :: "ObjectId set \<Rightarrow> bool" \<comment> \<open>the handles the caller has to hold\<close>
  assumes op_keeps: "holds I \<Longrightarrow> op h = Some h' \<Longrightarrow> keeps I h h'"
    and op_returns: "heap_ok h \<Longrightarrow> \<exists>h'. op h = Some h'"
begin

lemma safe_call:
  assumes "heap_ok h" "known_ok I h" "holds I"
  shows "\<exists>h'. op h = Some h' \<and> heap_ok h' \<and> known_ok I h' \<and> stays_dead I h h'"
  using op_returns [OF assms(1)] op_keeps [OF assms(3)] assms by (auto simp: keeps_def)

end

text \<open>The calls, with their results other than the heap dropped.\<close>

definition write_call :: "ObjectId \<Rightarrow> 'a \<Rightarrow> 'a GcHeap \<Rightarrow> 'a GcHeap option" where
  "write_call e v h = Some (case GcHeap_write e v h of Some h' \<Rightarrow> h' | None \<Rightarrow> h)"

interpretation overwrite: handle_safe "write_call e v" "\<lambda>_. True" for e v
  by unfold_locales (auto simp: write_call_def write_keeps split: option.splits)

interpretation free: handle_safe "GcHeap_free e" "\<lambda>I. e \<in> I" for e
proof
  fix h :: "'a GcHeap" assume "heap_ok h"
  then show "\<exists>h'. GcHeap_free e h = Some h'"
    by (auto simp: GcHeap_free_def Let_def fill_def heap_okD alignedD)
qed (rule free_keeps)

interpretation owned: handle_safe "\<lambda>h. map_option snd (set_owner e ow h)" "\<lambda>_. True" for e ow
proof
  fix h :: "'a GcHeap" assume "heap_ok h"
  then have "aligned h" by (simp add: heap_okD)
  then show "\<exists>h'. map_option snd (set_owner e ow h) = Some h'"
    by (auto simp: set_owner_def Let_def generation_matches_eq alignedD)
qed (auto intro: set_owner_keeps)

interpretation preserve: handle_safe "\<lambda>h. map_option snd (preserve_new_owner_allocation ow e h)" "\<lambda>_. True" for ow e
proof
  fix h :: "'a GcHeap" assume "heap_ok h"
  then have "aligned h" by (simp add: heap_okD)
  then show "\<exists>h'. map_option snd (preserve_new_owner_allocation ow e h) = Some h'"
    by (auto simp: preserve_new_owner_allocation_def Let_def generation_matches_eq alignedD)
qed (auto intro: preserve_keeps)

interpretation sweeping: handle_safe "\<lambda>h. map_option snd (sweep_realm ow h)" "\<lambda>_. True" for ow
proof
  fix h h' :: "'a GcHeap" and I
  assume "map_option snd (sweep_realm ow h) = Some h'"
  then obtain f where f: "ofold (drop_slot ow) [0..<length (cells h)] (h, 0) = Some (h', f)"
    by (auto simp: sweep_realm_def)
  show "keeps I h h'" using keeps_ofold [of "drop_slot ow" I fst, OF _ f] drop_slot_keeps by fastforce
next
  fix h :: "'a GcHeap" assume "heap_ok h"
  then show "\<exists>h'. map_option snd (sweep_realm ow h) = Some h'"
    using drop_all_returns [of h "[0..<length (cells h)]" ow 0] by (auto simp: sweep_realm_def heap_okD)
qed

lemma adapt_keeps: "keeps I h (adapt_threshold_after_sweep env (h\<lparr>alloc_count := n\<rparr>))"
  by (rule fields_keep) (simp_all add: adapt_threshold_after_sweep_def Let_def)

interpretation collecting: handle_safe "\<lambda>h. map_option snd (collect_scope env trace sc roots eph h)" "\<lambda>_. True"
  for env trace sc roots eph
proof
  fix h h' :: "'a GcHeap" and I
  assume c: "map_option snd (collect_scope env trace sc roots eph h) = Some h'"
  show "keeps I h h'"
  proof (rule keepsI)
    assume "heap_ok h"
    then have al: "aligned h" by (simp add: heap_okD)
    obtain cs where cs: "mark_phase sc trace roots eph h = Some (h\<lparr>colors := cs\<rparr>)" "length cs = length (cells h)"
      using mark_phase_spec [OF al] by blast
    let ?h = "h\<lparr>colors := cs\<rparr>"
    let ?s = "swept sc ?h (length (cells h))"
    have "ofold (sweep_slot sc) [0..<length (cells h)] (?h, 0) = Some (?s, doomed_count sc ?h (length (cells h)))"
      using sweep_prefix [of ?h "length (cells h)" sc] al cs(2) by (simp add: alignedD)
    then have "keeps I ?h ?s" using keeps_ofold [of "sweep_slot sc" I fst] sweep_slot_keeps by fastforce
    moreover have "keeps I h ?h" using al cs(2) by (simp add: keeps_colors alignedD)
    moreover have "h' = adapt_threshold_after_sweep env (?s\<lparr>alloc_count := 0\<rparr>)"
      using c collect_scope_eq [OF al cs] by simp
    ultimately show ?thesis using adapt_keeps keeps_trans by blast
  qed
next
  fix h :: "'a GcHeap" assume "heap_ok h"
  then obtain h' where "collect_scope env trace sc roots eph h = Some (card {i. reclaimed sc trace h roots eph i}, h')"
    using collect_scope_frees [of h env trace sc roots eph] by (auto simp: heap_okD)
  then show "\<exists>h'. map_option snd (collect_scope env trace sc roots eph h) = Some h'" by simp
qed

interpretation start: handle_safe "begin_mark_realm ow roots" "\<lambda>_. True" for ow roots
  by unfold_locales (auto intro: begin_mark_recolored recolored_keeps simp: begin_mark_realm_eq heap_okD)

interpretation enqueue: handle_safe "enqueue_mark_owner ow e" "\<lambda>_. True" for ow e
proof
  fix h :: "'a GcHeap" assume "heap_ok h"
  then show "\<exists>h'. enqueue_mark_owner ow e h = Some h'"
    by (auto simp: enqueue_mark_owner_def mark_done_eq heap_okD valid_def alignedD)
qed (auto intro: enqueue_recolored recolored_keeps)

interpretation slice: handle_safe
  "\<lambda>h. map_option (\<lambda>r. snd (snd r)) (mark_owner_slice_with_cursor ow ts b c h)" "\<lambda>_. True" for ow ts b c
proof
  fix h :: "'a GcHeap" assume "heap_ok h"
  then show "\<exists>h'. map_option (\<lambda>r. snd (snd r)) (mark_owner_slice_with_cursor ow ts b c h) = Some h'"
    using mark_slice_loop_returns [of h ow ts b 0 c] by (auto simp: mark_owner_slice_with_cursor_def heap_okD)
next
  fix h h' :: "'a GcHeap" and I
  assume "map_option (\<lambda>r. snd (snd r)) (mark_owner_slice_with_cursor ow ts b c h) = Some h'"
  then obtain r where "mark_slice_loop ow ts b 0 c h = Some r" "h' = snd (snd r)"
    by (auto simp: mark_owner_slice_with_cursor_def)
  then show "keeps I h h'" using mark_slice_loop_recolored recolored_keeps by blast
qed

interpretation sweep_slice: handle_safe
  "\<lambda>h. map_option (\<lambda>r. snd (snd r)) (sweep_marked_realm_slice env ow b st h)" "\<lambda>_. True" for env ow b st
proof
  fix h h' :: "'a GcHeap" and I
  assume "map_option (\<lambda>r. snd (snd r)) (sweep_marked_realm_slice env ow b st h) = Some h'"
  then obtain r where r: "sweep_slice_loop ow b st h = Some r"
    "h' = snd r \<or> h' = adapt_threshold_after_sweep env ((snd r)\<lparr>alloc_count := 0\<rparr>)"
    by (auto simp: sweep_marked_realm_slice_def Option.bind_eq_Some_conv split: if_splits)
  then show "keeps I h h'" using sweep_slice_loop_keeps [OF r(1)] adapt_keeps keeps_trans by blast
next
  fix h :: "'a GcHeap" assume "heap_ok h"
  then obtain r where "sweep_slice_loop ow b st h = Some r"
    using sweep_slice_loop_returns heap_okD(2) by blast
  then show "\<exists>h'. map_option (\<lambda>r. snd (snd r)) (sweep_marked_realm_slice env ow b st h) = Some h'"
    by (cases r) (auto simp: sweep_marked_realm_slice_def)
qed

end
