(* ===== verification/Gc_Trace.thy ===== *)
theory Gc_Trace
  imports Gc_Slices Rust_Str
begin

text \<open>
  How the collector traces script objects: the implementation of \<open>Trace\<close> for \<open>Object\<close> in
  \<open>crates/rusty-js-runtime/src/value.rs\<close>. An object is modelled by the fields that hold
  references. The variants of \<open>Value\<close> other than objects are the type \<open>'p\<close>; the references of an
  object's internal kind (\<open>trace_internal_kind_refs\<close>) are the argument \<open>internal\<close>, and whether the
  object is the storage of a weak collection (\<open>has_own_str\<close>) is a field. The macro \<open>offer!\<close>
  returns from the method when the budget is used up: \<open>Inl\<close> is that early return.
\<close>

section \<open>Objects\<close>

datatype 'p Value = ObjectValue ObjectId | OtherValue 'p

record 'p PropertyDescriptor =
  descriptor_value :: "'p Value" \<comment> \<open>\<open>value\<close>\<close>
  getter :: "'p Value option"
  setter :: "'p Value option"

record ('p, 'k) JsObject =
  proto :: "ObjectId option"
  viewed_buffer :: "ObjectId option"
  private_home :: "ObjectId option"
  private_outer_homes :: "ObjectId list"
  private_pending_homes :: "ObjectId list"
  shape_values :: "'p Value list"
  dense_elements :: "'p Value list"
  weak_collection_storage :: bool
  object_properties :: "(str \<times> 'p PropertyDescriptor) list" \<comment> \<open>\<open>properties\<close>\<close>
  private_fields :: "'p Value list"
  internal_kind :: 'k

fun object_of :: "'p Value \<Rightarrow> ObjectId option" where
  "object_of (ObjectValue oid) = Some oid"
| "object_of (OtherValue x) = None"

definition somes :: "'a option list \<Rightarrow> 'a list" where
  "somes xs = List.map_filter id xs"

section \<open>Tracing at once\<close>

definition property_refs :: "str \<times> 'p PropertyDescriptor \<Rightarrow> ObjectId list" where
  "property_refs kd =
     (if fst kd = ''__weakref_target'' then []
      else somes [object_of (descriptor_value (snd kd)), getter (snd kd) \<bind> object_of,
                  setter (snd kd) \<bind> object_of])"

definition Object_trace :: "('k \<Rightarrow> ObjectId list) \<Rightarrow> ('p, 'k) JsObject \<Rightarrow> ObjectId list" where
  "Object_trace internal v =
     somes [proto v] @ somes [viewed_buffer v] @ somes [private_home v]
     @ private_outer_homes v @ private_pending_homes v
     @ somes (map object_of (shape_values v)) @ somes (map object_of (dense_elements v))
     @ (if \<not> weak_collection_storage v then concat (map property_refs (object_properties v)) else [])
     @ somes (map object_of (private_fields v))
     @ internal (internal_kind v)"

section \<open>Tracing in slices\<close>

text \<open>The running state: the edges reported, how many, and the index of the next position.\<close>

type_synonym offer_state = "ObjectId list \<times> nat \<times> nat"

definition offer ::
    "nat \<Rightarrow> nat \<Rightarrow> ObjectId option \<Rightarrow> offer_state \<Rightarrow> (ObjectId list \<times> TraceSlice) + offer_state" where
  "offer start budget e s =
     (let (ids, emitted, index) = s in
      if index \<ge> start
      then (case e of
              Some oid \<Rightarrow>
                if emitted + 1 \<ge> budget
                then Inl (ids @ [oid], \<lparr>next_edge = index + 1, complete = False\<rparr>)
                else Inr (ids @ [oid], emitted + 1, index + 1)
            | None \<Rightarrow> Inr (ids, emitted, index + 1))
      else Inr (ids, emitted, index + 1))"

fun offers ::
    "nat \<Rightarrow> nat \<Rightarrow> ObjectId option list \<Rightarrow> offer_state \<Rightarrow> (ObjectId list \<times> TraceSlice) + offer_state" where
  "offers start budget [] s = Inr s"
| "offers start budget (e # es) s = rbind (offer start budget e s) (offers start budget es)"

text \<open>A group of positions is entered where the slice starts, or skipped as a whole.\<close>

definition offer_group ::
    "nat \<Rightarrow> nat \<Rightarrow> ObjectId option list \<Rightarrow> offer_state \<Rightarrow> (ObjectId list \<times> TraceSlice) + offer_state" where
  "offer_group start budget es s =
     (let (ids, emitted, index) = s in
      if start < index + length es
      then let begin = start - index in
           offers start budget (drop begin es) (ids, emitted, index + begin)
      else Inr (ids, emitted, index + length es))"

text \<open>Three positions for every property: value, getter and setter.\<close>

definition property_edge :: "(str \<times> 'p PropertyDescriptor) list \<Rightarrow> nat \<Rightarrow> ObjectId option" where
  "property_edge props slot =
     at props (slot div 3) \<bind>
       (\<lambda>(key, d).
          if key = ''__weakref_target'' then None
          else if slot mod 3 = 0 then object_of (descriptor_value d)
          else if slot mod 3 = 1 then getter d \<bind> object_of
          else if slot mod 3 = 2 then setter d \<bind> object_of
          else None)"

definition Object_trace_slice :: "('k \<Rightarrow> ObjectId list) \<Rightarrow> ('p, 'k) JsObject tracer" where
  "Object_trace_slice internal v start budget =
     (if budget = 0 then ([], \<lparr>next_edge = start, complete = False\<rparr>)
      else
        case rbind (offer start budget (proto v) ([], 0, 0)) (\<lambda>s.
             rbind (offer start budget (viewed_buffer v) s) (\<lambda>s.
             rbind (offer start budget (private_home v) s) (\<lambda>s.
             rbind (offer_group start budget (map Some (private_outer_homes v)) s) (\<lambda>s.
             rbind (offer_group start budget (map Some (private_pending_homes v)) s) (\<lambda>s.
             rbind (offer_group start budget (map object_of (shape_values v)) s) (\<lambda>s.
             rbind (offer_group start budget (map object_of (dense_elements v)) s) (\<lambda>s.
             rbind (if \<not> weak_collection_storage v
                    then offer_group start budget
                      (map (property_edge (object_properties v)) [0..<length (object_properties v) * 3]) s
                    else Inr s) (\<lambda>s.
             offer_group start budget (map object_of (private_fields v)) s)))))))) of
          Inl r \<Rightarrow> r
        | Inr (ids, emitted, index) \<Rightarrow>
            (if start \<le> index then ids @ internal (internal_kind v) else ids,
             \<lparr>next_edge = index + 1, complete = True\<rparr>))"

section \<open>The positions of an object\<close>

definition edge_positions :: "('p, 'k) JsObject \<Rightarrow> ObjectId option list" where
  "edge_positions v =
     [proto v, viewed_buffer v, private_home v] @ map Some (private_outer_homes v)
     @ map Some (private_pending_homes v) @ map object_of (shape_values v)
     @ map object_of (dense_elements v)
     @ (if \<not> weak_collection_storage v
        then map (property_edge (object_properties v)) [0..<length (object_properties v) * 3] else [])
     @ map object_of (private_fields v)"

lemma somes_simps [simp]:
  "somes [] = []" "somes (None # xs) = somes xs" "somes (Some x # xs) = x # somes xs"
  "somes (xs @ ys) = somes xs @ somes ys" "somes (map Some zs) = zs"
  by (simp_all add: somes_def map_filter_def)

lemma offers_append: "offers start b (xs @ ys) s = rbind (offers start b xs s) (offers start b ys)"
  by (induction xs arbitrary: s) (auto simp: rbind_def split: sum.split)

lemma offers_skip:
  "index + length es \<le> start \<Longrightarrow> offers start b es (ids, m, index) = Inr (ids, m, index + length es)"
  by (induction es arbitrary: index) (simp_all add: offer_def)

lemma offer_group_offers: "offer_group start b es s = offers start b es s"
proof (cases s)
  case (fields ids m index)
  show ?thesis
  proof (cases "start < index + length es")
    case True
    let ?n = "start - index"
    have "offers start b es s = rbind (offers start b (take ?n es) s) (offers start b (drop ?n es))"
      by (simp flip: offers_append)
    also have "offers start b (take ?n es) s = Inr (ids, m, index + ?n)"
      using True fields offers_skip [of index "take ?n es" start b ids m] by (cases "start \<le> index") auto
    finally show ?thesis using True fields by (simp add: offer_group_def Let_def)
  next
    case False
    then show ?thesis using fields by (simp add: offer_group_def offers_skip)
  qed
qed

lemma trace_slice_offers:
  assumes "0 < b"
  shows "Object_trace_slice internal v start b =
    (case offers start b (edge_positions v) ([], 0, 0) of
       Inl r \<Rightarrow> r
     | Inr (ids, emitted, index) \<Rightarrow>
         (if start \<le> index then ids @ internal (internal_kind v) else ids,
          \<lparr>next_edge = index + 1, complete = True\<rparr>))"
  using assms
  by (auto simp: Object_trace_slice_def edge_positions_def offer_group_offers offers_append rbind_def
      split: sum.splits)

section \<open>What the slices report\<close>

lemma offers_result:
  "case offers start b es (ids, m, k) of
     Inl (out, r) \<Rightarrow> \<exists>j < length es. r = \<lparr>next_edge = k + Suc j, complete = False\<rparr> \<and> start \<le> k + j
       \<and> out = ids @ somes (drop (start - k) (take (Suc j) es))
   | Inr (out, m', k') \<Rightarrow> k' = k + length es \<and> out = ids @ somes (drop (start - k) es)"
proof (induction es arbitrary: ids m k)
  case (Cons e es)
  show ?case
  proof (cases "k < start")
    case True
    then have "start - k = Suc (start - Suc k)" by simp
    then show ?thesis
      using Cons.IH [where ids = ids and m = m and k = "Suc k"] True by (auto simp: offer_def split: sum.splits)
  next
    case False
    then have z: "start - k = 0" "start - Suc k = 0" by simp_all
    show ?thesis
    proof (cases e)
      case None
      then show ?thesis
        using Cons.IH [where ids = ids and m = m and k = "Suc k"] False z
        by (auto simp: offer_def split: sum.splits intro: exI [of _ "Suc _"])
    next
      case (Some x)
      then show ?thesis
        using Cons.IH [where ids = "ids @ [x]" and m = "Suc m" and k = "Suc k"] False z
        by (auto simp: offer_def split: sum.splits intro: exI [of _ "Suc _"])
    qed
  qed
qed simp

lemma property_positions:
  "somes (map (property_edge props) [0..<length props * 3]) = concat (map property_refs props)"
proof (induction props rule: rev_induct)
  case (snoc p props)
  let ?n = "length props * 3" and ?e = "property_edge (props @ [p])"
  have "[0..<length (props @ [p]) * 3] = [0..<?n] @ [?n, ?n + 1, ?n + 2]"
  proof -
    have "length (props @ [p]) * 3 = Suc (Suc (Suc ?n))" by simp
    then show ?thesis by (simp only: upt_Suc) simp
  qed
  moreover have "map ?e [0..<?n] = map (property_edge props) [0..<?n]"
    by (auto simp: property_edge_def at_def nth_append less_mult_imp_div_less)
  moreover have "(?n + 1) div 3 = length props" "(?n + 2) div 3 = length props"
    "(?n + 1) mod 3 = 1" "(?n + 2) mod 3 = 2" by presburger+
  then have "somes (map ?e [?n, ?n + 1, ?n + 2]) = property_refs p"
    by (cases p) (simp add: property_edge_def property_refs_def)
  ultimately show ?case using snoc by (simp only: map_append somes_simps concat_append) simp
qed simp

lemma Object_trace_positions:
  "Object_trace internal v = somes (edge_positions v) @ internal (internal_kind v)"
  by (cases "proto v"; cases "viewed_buffer v"; cases "private_home v")
    (simp_all add: Object_trace_def edge_positions_def property_positions)

lemma Object_trace_slice_result:
  fixes v :: "('p, 'k) JsObject"
  assumes "0 < b"
  defines "L \<equiv> edge_positions v"
  shows "(\<exists>j < length L. Object_trace_slice internal v s b
            = (somes (drop s (take (Suc j) L)), \<lparr>next_edge = Suc j, complete = False\<rparr>) \<and> s \<le> j)
       \<or> Object_trace_slice internal v s b
            = (if s \<le> length L then somes (drop s L) @ internal (internal_kind v) else [],
               \<lparr>next_edge = Suc (length L), complete = True\<rparr>)"
  using offers_result [where start = s and b = b and es = L and ids = "[]" and m = 0 and k = 0]
  by (auto simp: trace_slice_offers [OF assms(1)] L_def split: sum.splits)

definition object_seen :: "('k \<Rightarrow> ObjectId list) \<Rightarrow> ('p, 'k) JsObject \<Rightarrow> nat \<Rightarrow> ObjectId set" where
  "object_seen internal v s =
     (if s \<le> length (edge_positions v) then set (somes (take s (edge_positions v)))
      else set (Object_trace internal v))"

definition object_togo :: "('p, 'k) JsObject \<Rightarrow> nat \<Rightarrow> nat" where
  "object_togo v s = Suc (length (edge_positions v)) - s"

lemma set_somes: "set (somes xs) = {x. Some x \<in> set xs}"
  by (induction xs) (auto simp: somes_def map_filter_def)

lemma somes_split: "set (somes xs) = set (somes (take s xs)) \<union> set (somes (drop s xs))"
  by (metis append_take_drop_id set_append somes_simps(4))

interpretation objects: edge_slices "Object_trace internal" "Object_trace_slice internal"
    "object_seen internal" object_togo for internal
proof
  fix v :: "('p, 'k) JsObject" and internal :: "'k \<Rightarrow> ObjectId list" and s b :: nat and out r
  show "object_seen internal v 0 = {}" by (simp add: object_seen_def)
  assume sl: "Object_trace_slice internal v s b = (out, r)"
  show "set out \<subseteq> set (Object_trace internal v)"
  proof (cases "b = 0")
    case True
    then show ?thesis using sl by (auto simp: Object_trace_slice_def)
  next
    case False
    then show ?thesis
      using sl Object_trace_slice_result [of b v internal s]
      by (auto simp: Object_trace_positions set_somes split: if_splits dest!: in_set_dropD in_set_takeD)
  qed
  assume b: "0 < b"
  note res = Object_trace_slice_result [OF b, of v internal s]
  show "set (Object_trace internal v) \<subseteq> object_seen internal v s \<union> set out" if c: "complete r"
  proof (cases "s \<le> length (edge_positions v)")
    case True
    then have "out = somes (drop s (edge_positions v)) @ internal (internal_kind v)" using c sl res by auto
    then show ?thesis
      using True somes_split [of "edge_positions v" s] by (auto simp: object_seen_def Object_trace_positions)
  next
    case False
    then show ?thesis by (simp add: object_seen_def)
  qed
  assume "\<not> complete r"
  then obtain j where j: "j < length (edge_positions v)" "s \<le> j" "next_edge r = Suc j"
    "out = somes (drop s (take (Suc j) (edge_positions v)))"
    using sl res by auto
  show "object_seen internal v (next_edge r) \<subseteq> object_seen internal v s \<union> set out"
    using j somes_split [of "take (Suc j) (edge_positions v)" s]
    by (auto simp: object_seen_def min_absorb1)
  show "object_togo v (next_edge r) < object_togo v s"
    using j by (simp add: object_togo_def)
qed

section \<open>Reading an object in slices\<close>

fun read_slices :: "(nat \<Rightarrow> nat \<Rightarrow> ObjectId list \<times> TraceSlice) \<Rightarrow> nat \<Rightarrow> nat list \<Rightarrow> ObjectId list option" where
  "read_slices f start [] = None"
| "read_slices f start (b # bs) =
     (let (out, r) = f start b in
      if complete r then Some out else map_option ((@) out) (read_slices f (next_edge r) bs))"

lemma read_slices_from:
  assumes "\<forall>b \<in> set bs. 0 < b" "s \<le> length (edge_positions v)" "length (edge_positions v) < s + length bs"
  shows "read_slices (Object_trace_slice internal v) s bs
    = Some (somes (drop s (edge_positions v)) @ internal (internal_kind v))"
  using assms
proof (induction bs arbitrary: s)
  case (Cons b bs)
  let ?L = "edge_positions v"
  consider j where "j < length ?L" "s \<le> j" "Object_trace_slice internal v s b
      = (somes (drop s (take (Suc j) ?L)), \<lparr>next_edge = Suc j, complete = False\<rparr>)"
    | "Object_trace_slice internal v s b = (somes (drop s ?L) @ internal (internal_kind v),
        \<lparr>next_edge = Suc (length ?L), complete = True\<rparr>)"
    using Object_trace_slice_result [of b v internal s] Cons.prems by auto
  then show ?case
  proof cases
    case 1
    have "drop s ?L = drop s (take (Suc j) ?L) @ drop (Suc j) ?L"
      using 1 append_take_drop_id [of "Suc j" ?L] drop_append [of s "take (Suc j) ?L" "drop (Suc j) ?L"] by simp
    then show ?thesis using 1 Cons by simp
  next
    case 2
    then show ?thesis by simp
  qed
qed simp

end
