(* ===== verification/Gc_Props.thy ===== *)
theory Gc_Props
  imports Gc_History Gc_Trace
begin

text \<open>
  What holds of the heap over its whole life: handles are safe, collections free exactly what is
  unreachable, a realm collected on its own loses nothing that is reachable, and collecting in
  slices is collecting at once.
\<close>

section \<open>The life of a heap\<close>

datatype 'a gc_op =
    CallWrite ObjectId 'a
  | CallFree ObjectId
  | CallSetOwner ObjectId nat
  | CallPreserve nat ObjectId
  | CallSweepRealm nat
  | CallCollect "nat option" "ObjectId list" "(ObjectId \<times> ObjectId) list"
  | CallBeginMark nat "ObjectId list"
  | CallEnqueue nat ObjectId
  | CallMarkSlice nat nat RealmMarkCursor
  | CallSweepSlice nat nat RealmSweepState

fun gc_call :: "GcEnv \<Rightarrow> ('a \<Rightarrow> ObjectId list) \<Rightarrow> 'a tracer \<Rightarrow> 'a gc_op \<Rightarrow> 'a GcHeap \<Rightarrow> 'a GcHeap option" where
  "gc_call env trace ts (CallWrite e v) h = write_call e v h"
| "gc_call env trace ts (CallFree e) h = GcHeap_free e h"
| "gc_call env trace ts (CallSetOwner e ow) h = map_option snd (set_owner e ow h)"
| "gc_call env trace ts (CallPreserve ow e) h = map_option snd (preserve_new_owner_allocation ow e h)"
| "gc_call env trace ts (CallSweepRealm ow) h = map_option snd (sweep_realm ow h)"
| "gc_call env trace ts (CallCollect sc roots eph) h = map_option snd (collect_scope env trace sc roots eph h)"
| "gc_call env trace ts (CallBeginMark ow roots) h = begin_mark_realm ow roots h"
| "gc_call env trace ts (CallEnqueue ow e) h = enqueue_mark_owner ow e h"
| "gc_call env trace ts (CallMarkSlice ow b c) h =
     map_option (\<lambda>r. snd (snd r)) (mark_owner_slice_with_cursor ow ts b c h)"
| "gc_call env trace ts (CallSweepSlice ow b st) h =
     map_option (\<lambda>r. snd (snd r)) (sweep_marked_realm_slice env ow b st h)"

text \<open>A caller frees only handles it was given.\<close>

fun call_holds :: "'a gc_op \<Rightarrow> ObjectId set \<Rightarrow> bool" where
  "call_holds (CallFree e) I = (e \<in> I)"
| "call_holds _ I = True"

lemma gc_call_safe:
  assumes "heap_ok h" "known_ok I h" "call_holds op I"
  shows "\<exists>h'. gc_call env trace ts op h = Some h' \<and> heap_ok h' \<and> known_ok I h' \<and> stays_dead I h h'"
  using assms
  by (cases op)
    (simp_all del: map_option_eq_Some add: overwrite.safe_call free.safe_call owned.safe_call preserve.safe_call sweeping.safe_call
      collecting.safe_call start.safe_call enqueue.safe_call slice.safe_call sweep_slice.safe_call)

inductive gc_reaches ::
    "GcEnv \<Rightarrow> ('a \<Rightarrow> ObjectId list) \<Rightarrow> 'a tracer \<Rightarrow> 'a GcHeap \<Rightarrow> ObjectId set \<Rightarrow> bool"
  for env trace ts where
  reach_new: "gc_reaches env trace ts (GcHeap_new env) {}"
| reach_alloc: "gc_reaches env trace ts h I \<Longrightarrow> \<not> exhausted h \<Longrightarrow> alloc_with_owner v ow h = Some (e, h')
    \<Longrightarrow> gc_reaches env trace ts h' (insert e I)"
| reach_external: "gc_reaches env trace ts h I \<Longrightarrow> \<not> exhausted h
    \<Longrightarrow> alloc_external_with_owner x ow h = Some (e, h') \<Longrightarrow> gc_reaches env trace ts h' (insert e I)"
| reach_call: "gc_reaches env trace ts h I \<Longrightarrow> call_holds op I \<Longrightarrow> gc_call env trace ts op h = Some h'
    \<Longrightarrow> gc_reaches env trace ts h' I"

text \<open>An allocation on a heap that is not exhausted.\<close>

definition counted :: "'a GcHeap \<Rightarrow> bool \<Rightarrow> 'a GcHeap" where
  "counted h flag = h\<lparr>alloc_count := alloc_count h + 1, oom := oom h \<or> flag\<rparr>"

lemma counted_simps [simp]:
  "cells (counted h flag) = cells h" "free_list (counted h flag) = free_list h"
  "no_slot_reuse (counted h flag) = no_slot_reuse h" "generations (counted h flag) = generations h"
  "aligned (counted h flag) = aligned h"
  by (simp_all add: counted_def aligned_def)

lemma counted_frame [simp]:
  "heap_ok (counted h flag) = heap_ok h" "known_ok I (counted h flag) = known_ok I h"
  "is_free (counted h flag) e = is_free h e" "GcHeap_get (counted h flag) e = GcHeap_get h e"
  by (simp_all add: heap_ok_def sized_def known_ok_def is_free_def GcHeap_get_def generation_matches_def Let_def)

lemma placed_counted [simp]: "placed I s (counted h flag) e h' = placed I s h e h'"
  by (simp add: placed_def)

lemma place_ok:
  assumes "heap_ok h" "known_ok I h" "\<not> exhausted h" "\<not> is_Free s"
  shows "\<exists>e h'. place s ow (counted h flag) = Some (e, h') \<and> placed I s h e h'"
proof (cases "no_slot_reuse h \<or> free_list h = []")
  case True
  then show ?thesis
    using assms place_push [of "counted h flag" I s ow] by (auto simp: exhausted_def not_le)
next
  case False
  then show ?thesis using assms place_reuse [of "counted h flag" I s ow] by auto
qed

lemma next_index_fits: "length (cells h) < 2 ^ 25 \<Longrightarrow> (of_nat (length (cells h)) :: u32) \<le> OBJECT_ID_INDEX_MASK"
  by (simp add: index_mask_le unat_of_slot)

lemma alloc_place:
  assumes "\<not> exhausted h"
  shows "\<exists>flag. alloc_with_owner v ow h = place (Object v) ow (counted h flag)"
proof (cases "no_slot_reuse h \<or> free_list h = []")
  case True
  then have n: "(of_nat (length (cells h)) :: u32) \<le> OBJECT_ID_INDEX_MASK"
    using assms by (intro next_index_fits) (auto simp: exhausted_def)
  then show ?thesis
    using True
    by (intro exI [of _ "of_nat (length (cells h)) = OBJECT_ID_INDEX_MASK - OOM_SLOT_MARGIN"])
      (auto simp: alloc_with_owner_def place_def pop_free_def counted_def Let_def)
next
  case False
  then show ?thesis
    by (intro exI [of _ False]) (auto simp: alloc_with_owner_def place_def pop_free_def counted_def Let_def)
qed

lemma alloc_external_place:
  assumes "\<not> exhausted h"
  shows "alloc_external_with_owner x ow h = place (ExternalSlot x) ow (counted h False)"
proof (cases "no_slot_reuse h \<or> free_list h = []")
  case True
  then have "(of_nat (length (cells h)) :: u32) \<le> OBJECT_ID_INDEX_MASK"
    using assms by (intro next_index_fits) (auto simp: exhausted_def)
  then show ?thesis
    using True by (auto simp: alloc_external_with_owner_def place_def pop_free_def counted_def Let_def)
next
  case False
  then show ?thesis by (auto simp: alloc_external_with_owner_def place_def pop_free_def counted_def Let_def)
qed

lemma alloc_ok:
  assumes "heap_ok h" "known_ok I h" "\<not> exhausted h"
  shows "\<exists>e h'. alloc_with_owner v ow h = Some (e, h') \<and> placed I (Object v) h e h'"
    "\<exists>e h'. alloc_external_with_owner x ow h = Some (e, h') \<and> placed I (ExternalSlot x) h e h'"
proof -
  obtain flag where "alloc_with_owner v ow h = place (Object v) ow (counted h flag)"
    using alloc_place [OF assms(3)] by blast
  then show "\<exists>e h'. alloc_with_owner v ow h = Some (e, h') \<and> placed I (Object v) h e h'"
    using place_ok [OF assms] by simp
  show "\<exists>e h'. alloc_external_with_owner x ow h = Some (e, h') \<and> placed I (ExternalSlot x) h e h'"
    using place_ok [OF assms] by (simp add: alloc_external_place [OF assms(3)])
qed

lemma new_ok: "heap_ok (GcHeap_new env)" "known_ok {} (GcHeap_new env)"
  by (simp_all add: GcHeap_new_def with_slot_reuse_def Let_def heap_ok_def sized_def aligned_def known_ok_def)

lemma reaches_ok: "gc_reaches env trace ts h I \<Longrightarrow> heap_ok h \<and> known_ok I h"
proof (induction rule: gc_reaches.induct)
  case (reach_alloc h I v ow e h')
  then show ?case using alloc_ok(1) [of h I v ow] by (auto simp: placed_def)
next
  case (reach_external h I x ow e h')
  then show ?case using alloc_ok(2) [of h I x ow] by (auto simp: placed_def)
next
  case (reach_call h I op h')
  then show ?case using gc_call_safe [of h I op env trace ts] by auto
qed (simp_all add: new_ok)

section \<open>A realm on its own\<close>

text \<open>The audit of edges between owners, in closed form.\<close>

definition crossing :: "('a \<Rightarrow> ObjectId list) \<Rightarrow> 'a GcHeap \<Rightarrow> nat \<Rightarrow> ObjectId \<Rightarrow> bool" where
  "crossing trace h i to \<longleftrightarrow> i < length (cells h) \<and> to \<in> set (slot_edges trace (cells h ! i))
     \<and> valid None h to \<and> owners h ! i \<noteq> owners h ! slot_index to"

lemma cross_edge_eq:
  assumes h: "sized h" and i: "i < length (cells h)"
  shows "\<exists>ce. cross_edge h i (owners h ! i) to out = Some (out @ ce)
    \<and> (if valid None h to \<and> owners h ! i \<noteq> owners h ! slot_index to
       then \<exists>c. ce = [c] \<and> edge_to c = to \<and> edge_to_owner c = owners h ! slot_index to
              \<and> edge_from_owner c = owners h ! i \<and> slot_index (edge_from c) = i
       else ce = [])"
proof -
  have al: "aligned h" using h by (simp add: sized_def)
  obtain e where "ObjectId_new (of_nat i) (generations h ! i) = Some e" "slot_index e = i"
    using sized_handle [OF h i] by blast
  then show ?thesis
    using al i
    by (auto simp: cross_edge_def Let_def valid_def scoped_def generation_matches_eq alignedD)
qed

lemma cross_edges_of:
  assumes h: "sized h" and i: "i < length (cells h)"
  shows "\<exists>ces. ofold (cross_edge h i (owners h ! i)) tos out = Some (out @ ces)
    \<and> (\<forall>ow. (\<exists>c \<in> set ces. edge_to_owner c = ow) \<longleftrightarrow>
         (\<exists>to \<in> set tos. valid None h to \<and> owners h ! i \<noteq> owners h ! slot_index to \<and> owners h ! slot_index to = ow))"
proof (induction tos arbitrary: out)
  case (Cons to tos)
  obtain ce where ce: "cross_edge h i (owners h ! i) to out = Some (out @ ce)"
    "if valid None h to \<and> owners h ! i \<noteq> owners h ! slot_index to
     then \<exists>c. ce = [c] \<and> edge_to c = to \<and> edge_to_owner c = owners h ! slot_index to
            \<and> edge_from_owner c = owners h ! i \<and> slot_index (edge_from c) = i
     else ce = []"
    using cross_edge_eq [OF h i] by blast
  obtain ces where ces: "ofold (cross_edge h i (owners h ! i)) tos (out @ ce) = Some ((out @ ce) @ ces)"
    "\<forall>ow. (\<exists>c \<in> set ces. edge_to_owner c = ow) \<longleftrightarrow>
      (\<exists>to \<in> set tos. valid None h to \<and> owners h ! i \<noteq> owners h ! slot_index to \<and> owners h ! slot_index to = ow)"
    using Cons.IH by blast
  show ?case
    using ce ces by (intro exI [of _ "ce @ ces"]) (auto split: if_splits)
qed simp

lemma cross_owner_edges_spec:
  assumes h: "sized h"
  shows "\<exists>es. cross_owner_edges trace h = Some es
    \<and> (\<forall>ow. filter (\<lambda>e. edge_to_owner e = ow) es = [] \<longleftrightarrow>
         (\<forall>i to. crossing trace h i to \<longrightarrow> owners h ! slot_index to \<noteq> ow))"
proof -
  let ?f = "\<lambda>i out. case cells h ! i of
      Object v \<Rightarrow> do { from_owner \<leftarrow> at (owners h) i; ofold (cross_edge h i from_owner) (trace v) out }
    | _ \<Rightarrow> Some out"
  have al: "aligned h" using h by (simp add: sized_def)
  have step: "\<exists>ces. ?f i out = Some (out @ ces)
      \<and> (\<forall>ow. (\<exists>c \<in> set ces. edge_to_owner c = ow) \<longleftrightarrow> (\<exists>to. crossing trace h i to \<and> owners h ! slot_index to = ow))"
    if i: "i < length (cells h)" for i out
  proof (cases "cells h ! i")
    case (Object v)
    then show ?thesis
      using cross_edges_of [OF h i, of "trace v" out] i al
      by (auto simp: crossing_def slot_edges_def alignedD)
  qed (auto simp: crossing_def slot_edges_def)
  have "\<exists>es. ofold ?f [0..<k] [] = Some es
      \<and> (\<forall>ow. (\<exists>c \<in> set es. edge_to_owner c = ow) \<longleftrightarrow>
           (\<exists>i to. i < k \<and> crossing trace h i to \<and> owners h ! slot_index to = ow))"
    if "k \<le> length (cells h)" for k
    using that
  proof (induction k)
    case (Suc k)
    then have k: "k < length (cells h)" by simp
    obtain es where es: "ofold ?f [0..<k] [] = Some es"
      "\<forall>ow. (\<exists>c \<in> set es. edge_to_owner c = ow) \<longleftrightarrow> (\<exists>i to. i < k \<and> crossing trace h i to \<and> owners h ! slot_index to = ow)"
      using Suc by auto
    obtain ces where ces: "?f k es = Some (es @ ces)"
      "\<forall>ow. (\<exists>c \<in> set ces. edge_to_owner c = ow) \<longleftrightarrow> (\<exists>to. crossing trace h k to \<and> owners h ! slot_index to = ow)"
      using step [OF k] by blast
    have "ofold ?f [0..<Suc k] [] = Some (es @ ces)" using es(1) ces(1) by (simp add: ofold_append)
    moreover have "(\<exists>c \<in> set (es @ ces). edge_to_owner c = ow) \<longleftrightarrow>
        (\<exists>i to. i < Suc k \<and> crossing trace h i to \<and> owners h ! slot_index to = ow)" for ow
      using es(2) ces(2) unfolding less_Suc_eq set_append bex_Un by metis
    ultimately show ?case by blast
  qed simp
  from this [of "length (cells h)"] obtain es where es: "cross_owner_edges trace h = Some es"
    "\<And>ow. (\<exists>c \<in> set es. edge_to_owner c = ow) \<longleftrightarrow>
      (\<exists>i to. i < length (cells h) \<and> crossing trace h i to \<and> owners h ! slot_index to = ow)"
    by (auto simp: cross_owner_edges_def)
  have "i < length (cells h)" if "crossing trace h i to" for i to using that by (simp add: crossing_def)
  then have "filter (\<lambda>e. edge_to_owner e = ow) es = [] \<longleftrightarrow>
      (\<forall>i to. crossing trace h i to \<longrightarrow> owners h ! slot_index to \<noteq> ow)" for ow
    using es(2) [of ow] unfolding filter_empty_conv by metis
  then show ?thesis using es(1) by blast
qed

text \<open>Without edges into the realm, what the whole heap keeps of the realm, the realm keeps.\<close>

lemma kept_in_realm:
  assumes no: "\<And>i to. crossing trace h i to \<Longrightarrow> owners h ! slot_index to \<noteq> ow"
    and eph: "\<And>k v. (k, v) \<in> set eph \<Longrightarrow> owner h v = Some ow \<Longrightarrow> owner h k = Some ow"
    and al: "aligned h"
  shows "kept None trace h roots eph i \<Longrightarrow> owners h ! i = ow \<Longrightarrow> kept (Some ow) trace h roots eph i"
proof (induction rule: kept.induct)
  case (kept_root r)
  then show ?case by (auto simp: valid_def scoped_def intro!: kept.kept_root)
next
  case (kept_edge i j)
  then have i: "i < length (cells h)" using kept_valid by blast
  obtain e where e: "e \<in> set (slot_edges trace (cells h ! i))" "valid None h e" "slot_index e = j"
    using kept_edge.hyps by (auto simp: edge_def)
  have "owners h ! i = ow" using no [of i e] e i kept_edge.prems by (auto simp: crossing_def)
  moreover have "edge (Some ow) trace h i j"
    using e kept_edge.prems by (auto simp: edge_def valid_def scoped_def)
  ultimately show ?case using kept_edge.IH by (auto intro: kept.kept_edge)
next
  case (kept_ephemeron k v)
  have own: "owner h x = Some (owners h ! slot_index x)" if "valid None h x" for x
    using that al by (auto simp: owner_def Let_def valid_def generation_matches_eq alignedD)
  have "owner h v = Some ow" using own [OF kept_ephemeron.hyps(4)] kept_ephemeron.prems by simp
  then have "owners h ! slot_index k = ow"
    using eph [OF kept_ephemeron.hyps(2)] own [OF kept_ephemeron.hyps(3)] by simp
  then have "kept (Some ow) trace h roots eph (slot_index k)" "valid (Some ow) h k" "valid (Some ow) h v"
    using kept_ephemeron.IH kept_ephemeron.hyps kept_ephemeron.prems by (simp_all add: valid_def scoped_def)
  then show ?case using kept.kept_ephemeron [OF _ kept_ephemeron.hyps(2)] by blast
qed

end
