(* ===== verification/Gc_Theorems.thy ===== *)
theory Gc_Theorems
  imports Gc_Props
begin

text \<open>
  The properties of the garbage-collected heap, with examples on small heaps whose objects are
  lists of handles.
\<close>

section \<open>Example heaps\<close>

definition plain_env :: GcEnv where
  "plain_env = \<lparr>env_no_reuse = False, env_external = None, env_target = None, env_headroom = None,
     process_rss_bytes = 0, interpolate = (\<lambda>_ _ growth. growth)\<rparr>"

text \<open>A heap with one object without references, in realm 0.\<close>

definition heap_one :: "ObjectId list GcHeap" where
  "heap_one = \<lparr>cells = [Object []], colors = [White], owners = [0], generations = [0], free_list = [],
     no_slot_reuse = False, alloc_count = 1, threshold = 1024, growth_permille = 4000,
     soft_target_bytes = 0, freed_external = [], external_bytes_since_collect = 0,
     external_byte_threshold = 64 * 2 ^ 20, oom = False, oom_sentinel = None\<rparr>"

lemma example_handle: "slot_index (ObjectId 0) = 0" "generation (ObjectId 0) = 0"
  by (simp_all add: slot_index_def generation_def)

lemma alloc_example: "alloc_with_owner [] 0 (GcHeap_new plain_env) = Some (ObjectId 0, heap_one)"
  by (simp add: alloc_with_owner_def GcHeap_new_def with_slot_reuse_def plain_env_def heap_one_def pop_free_def
      push_slot_def handle_at_def at_def ObjectId_new_def soft_target_from_env_def
      external_byte_threshold_from_env_def growth_permille_from_env_def OBJECT_ID_INDEX_MASK_def
      OBJECT_ID_INDEX_BITS_def OOM_SLOT_MARGIN_def)

lemma reach_heap_one: "gc_reaches plain_env id ts heap_one {ObjectId 0}"
proof -
  have "\<not> exhausted (GcHeap_new plain_env :: ObjectId list GcHeap)"
    by (simp add: exhausted_def GcHeap_new_def with_slot_reuse_def Let_def)
  then show ?thesis
    using reach_alloc [OF reach_new, of plain_env "[]" 0 "ObjectId 0" heap_one id ts] alloc_example by simp
qed

section \<open>Handles\<close>

lemma is_free_get: "aligned h \<Longrightarrow> is_free h e \<Longrightarrow> GcHeap_get h e = None"
  by (simp add: is_free_valid get_eq)

text \<open>
  Property C2: handles are safe. On every heap that calls of the interface can reach, an
  allocation on a heap that is not exhausted returns a handle that was never handed out before,
  reads back the value and disturbs no other handle; and every other call returns without a
  panic and leaves every handle that is dead dead: a stale handle never reaches an object that
  took over its slot.
\<close>

theorem gc_handles_safe:
  assumes "gc_reaches env trace ts h I"
  shows "(\<not> exhausted h \<longrightarrow>
      (\<exists>e h'. alloc_with_owner v ow h = Some (e, h') \<and> e \<notin> I \<and> GcHeap_get h' e = Some v
         \<and> (\<forall>e' \<in> I. GcHeap_get h' e' = GcHeap_get h e')))
    \<and> (call_holds op I \<longrightarrow>
      (\<exists>h'. gc_call env trace ts op h = Some h'
         \<and> (\<forall>e \<in> I. is_free h e \<longrightarrow> is_free h' e \<and> GcHeap_get h' e = None)))"
proof (intro conjI impI)
  have ok: "heap_ok h" "known_ok I h" using reaches_ok [OF assms] by simp_all
  {
    assume "\<not> exhausted h"
    then obtain e h' where a: "alloc_with_owner v ow h = Some (e, h')" "placed I (Object v) h e h'"
      using alloc_ok(1) [OF ok] by blast
    moreover have "GcHeap_get h' e = Some v" using a(2) by (simp add: placed_def GcHeap_get_def)
    ultimately show "\<exists>e h'. alloc_with_owner v ow h = Some (e, h') \<and> e \<notin> I \<and> GcHeap_get h' e = Some v
        \<and> (\<forall>e' \<in> I. GcHeap_get h' e' = GcHeap_get h e')"
      by (auto simp: placed_def)
  }
  assume "call_holds op I"
  then obtain h' where "gc_call env trace ts op h = Some h'" "heap_ok h'" "stays_dead I h h'"
    using gc_call_safe [OF ok] by blast
  then show "\<exists>h'. gc_call env trace ts op h = Some h'
      \<and> (\<forall>e \<in> I. is_free h e \<longrightarrow> is_free h' e \<and> GcHeap_get h' e = None)"
    by (auto simp: stays_dead_def is_free_get heap_okD)
qed

theorem gc_handles_safe_witness:
  "(\<exists>e h'. alloc_with_owner [ObjectId 0] 3 heap_one = Some (e, h') \<and> e \<noteq> ObjectId 0
      \<and> GcHeap_get h' e = Some [ObjectId 0] \<and> GcHeap_get h' (ObjectId 0) = Some [])
   \<and> (\<exists>h'. gc_call plain_env id (default_trace_slice id) (CallFree (ObjectId 0)) heap_one = Some h')"
proof -
  have "\<not> exhausted heap_one" by (simp add: exhausted_def heap_one_def)
  moreover have "GcHeap_get heap_one (ObjectId 0) = Some []"
    by (simp add: GcHeap_get_def generation_matches_def at_def heap_one_def example_handle)
  ultimately show ?thesis
    using gc_handles_safe [OF reach_heap_one [of "default_trace_slice id"], of "[ObjectId 0]" 3 "CallFree (ObjectId 0)"]
    by (auto simp del: gc_call.simps)
qed

section \<open>Collections\<close>

text \<open>
  Property C4: a collection frees exactly what is unreachable. It returns on every heap that can
  be reached; afterwards a handle reads what it read before when its slot is reachable from the
  roots, through the references of objects and through ephemerons whose key is reachable, and
  nothing otherwise. The number it returns is the number of slots freed, and the handles of the
  external objects among them are queued for release, each once.
\<close>

theorem collect_exact:
  assumes "gc_reaches env trace ts h I"
  shows "\<exists>h'. collect_with_ephemerons env' trace roots eph h
        = Some (card {i. reclaimed None trace h roots eph i}, h')
    \<and> (\<forall>e. GcHeap_get h' e = (if kept None trace h roots eph (slot_index e) then GcHeap_get h e else None))
    \<and> (\<forall>e. is_external_handle h' e \<longleftrightarrow> kept None trace h roots eph (slot_index e) \<and> is_external_handle h e)
    \<and> freed_external h' = freed_external h
        @ concat (map (\<lambda>i. external_of (cells h ! i)) (filter (reclaimed None trace h roots eph) [0..<length (cells h)]))"
proof -
  have al: "aligned h" using reaches_ok [OF assms] by (simp add: heap_okD)
  obtain h' where h': "collect_scope env' trace None roots eph h = Some (card {i. reclaimed None trace h roots eph i}, h')"
    "frees (reclaimed None trace h roots eph) h h'"
    using collect_scope_frees [OF al] by blast
  have live: "kept None trace h roots eph (slot_index e) \<or> reclaimed None trace h roots eph (slot_index e)
      \<or> GcHeap_get h e = None \<and> \<not> is_external_handle h e" for e
    using al
    by (auto simp: reclaimed_def scoped_def get_eq is_external_handle_def Let_def generation_matches_eq valid_def
        split: Slot.splits)
  have "\<not> reclaimed None trace h roots eph i" if "kept None trace h roots eph i" for i
    using that by (simp add: reclaimed_def)
  moreover have "i < length (cells h)" if "reclaimed None trace h roots eph i" for i
    using that by (simp add: reclaimed_def)
  ultimately have "GcHeap_get h' e = (if kept None trace h roots eph (slot_index e) then GcHeap_get h e else None)"
    "is_external_handle h' e \<longleftrightarrow> kept None trace h roots eph (slot_index e) \<and> is_external_handle h e" for e
    using frees_access(1,2) [OF h'(2) al, of e] live [of e] by auto
  then show ?thesis using h' by (auto simp: collect_with_ephemerons_def frees_def)
qed

lemma nothing_kept: "\<not> kept sc trace h [] [] i"
  using kept_least [of sc trace h "[]" "[]" i "{}"] by (auto simp: closed_def)

theorem collect_exact_witness:
  "\<exists>h'. collect_with_ephemerons plain_env id [] [] heap_one = Some (1, h')
     \<and> GcHeap_get h' (ObjectId 0) = None"
proof -
  have "{i. reclaimed None id heap_one [] [] i} = {0}"
    by (auto simp: reclaimed_def nothing_kept scoped_def heap_one_def)
  then show ?thesis
    using collect_exact [OF reach_heap_one [of "default_trace_slice id"], of plain_env "[]" "[]"]
    by (auto simp: nothing_kept)
qed

section \<open>Realms\<close>

lemma kept_realm_global: "kept (Some ow) trace h roots eph i \<Longrightarrow> kept None trace h roots eph i"
proof (induction rule: kept.induct)
  case (kept_edge i j)
  then have "edge None trace h i j" by (auto simp: edge_def valid_def scoped_def)
  then show ?case using kept_edge.IH kept.kept_edge by blast
next
  case (kept_ephemeron k v)
  then have "valid None h k" "valid None h v" by (simp_all add: valid_def scoped_def)
  then show ?case using kept.kept_ephemeron [OF kept_ephemeron.IH kept_ephemeron.hyps(2)] by blast
qed (auto simp: valid_def scoped_def intro!: kept.kept_root)

text \<open>
  Property C10: collecting one realm is sound. \<open>try_collect_realm_with_ephemerons\<close> refuses exactly
  when some object of another realm refers into the realm. Otherwise it frees exactly the
  objects of the realm that a collection of the whole heap from the same roots would free, and
  touches nothing outside the realm, provided that no ephemeron keeps a value of the realm
  under a key of another one.
\<close>

theorem realm_collection_sound:
  assumes "gc_reaches env trace ts h I"
    and "\<forall>(k, v) \<in> set eph. owner h v = Some ow \<longrightarrow> owner h k = Some ow"
  shows "if \<exists>i to. crossing trace h i to \<and> owners h ! slot_index to = ow
    then \<exists>es. try_collect_realm_with_ephemerons env' trace ow roots eph h = Some (Inl es) \<and> es \<noteq> []
    else \<exists>n h'. try_collect_realm_with_ephemerons env' trace ow roots eph h = Some (Inr (n, h'))
      \<and> (\<forall>e. GcHeap_get h' e =
            (if owner h e = Some ow \<and> \<not> kept None trace h roots eph (slot_index e) then None else GcHeap_get h e))"
proof -
  have ok: "sized h" "aligned h" using reaches_ok [OF assms(1)] by (simp_all add: heap_okD)
  obtain es where es: "cross_owner_edges trace h = Some es"
    "filter (\<lambda>e. edge_to_owner e = ow) es = [] \<longleftrightarrow> (\<forall>i to. crossing trace h i to \<longrightarrow> owners h ! slot_index to \<noteq> ow)"
    using cross_owner_edges_spec [OF ok(1)] by blast
  show ?thesis
  proof (cases "\<exists>i to. crossing trace h i to \<and> owners h ! slot_index to = ow")
    case True
    then show ?thesis using es by (auto simp: try_collect_realm_with_ephemerons_def Let_def)
  next
    case False
    let ?P = "reclaimed (Some ow) trace h roots eph"
    obtain h' where h': "collect_scope env' trace (Some ow) roots eph h = Some (card {i. ?P i}, h')" "frees ?P h h'"
      using collect_scope_frees [OF ok(2)] by blast
    have kept: "kept (Some ow) trace h roots eph i \<longleftrightarrow> kept None trace h roots eph i" if "owners h ! i = ow" for i
      using that kept_in_realm [OF _ _ ok(2), of trace ow eph roots i] False assms(2) kept_realm_global by blast
    have own: "owner h e = Some ow \<longleftrightarrow> valid None h e \<and> owners h ! slot_index e = ow" for e
      using ok(2) by (auto simp: owner_def Let_def valid_def scoped_def generation_matches_eq alignedD)
    have "GcHeap_get h' e =
        (if owner h e = Some ow \<and> \<not> kept None trace h roots eph (slot_index e) then None else GcHeap_get h e)" for e
    proof -
      have "GcHeap_get h' e = (if ?P (slot_index e) then None else GcHeap_get h e)"
        using frees_access(1) [OF h'(2) ok(2)] by (simp add: reclaimed_def)
      then show ?thesis
        using kept [of "slot_index e"] own [of e] get_eq [OF ok(2), of e]
        by (auto simp: reclaimed_def scoped_def valid_def)
    qed
    moreover have "try_collect_realm_with_ephemerons env' trace ow roots eph h = Some (Inr (card {i. ?P i}, h'))"
      using es False h'(1) by (auto simp: try_collect_realm_with_ephemerons_def collect_realm_with_ephemerons_def Let_def)
    ultimately show ?thesis using False by auto
  qed
qed

theorem realm_collection_sound_witness:
  "\<exists>n h'. try_collect_realm_with_ephemerons plain_env id 0 [] [(ObjectId 0, ObjectId 0)] heap_one = Some (Inr (n, h'))"
proof -
  have "\<not> crossing id heap_one i to" for i to by (auto simp: crossing_def heap_one_def slot_edges_def)
  then show ?thesis
    using realm_collection_sound [OF reach_heap_one [of "default_trace_slice id"],
        of "[(ObjectId 0, ObjectId 0)]" 0 plain_env "[]"]
    by auto
qed

section \<open>Collecting in slices\<close>

text \<open>
  Property C9: collecting a realm in slices is collecting it at once. For every implementation
  of \<open>Trace\<close> whose slices add up to its trace, every budget and every position at which the slices
  stop, marking in slices until the work is done and then sweeping in slices gives the same
  heap, to the last field, and the same count as the stop-the-world collection, which returns.
  The number of mark slices that is enough is bounded by the slots and their edges.
\<close>

theorem incremental_collection:
  assumes "edge_slices trace ts seen togo" "gc_reaches env trace ts h I"
    and "\<forall>b \<in> set marks. 0 < b" "mark_work togo h < length marks"
    and "sweeps \<noteq> []" "length (cells h) \<le> sum_list sweeps"
  shows "\<exists>n h'. incremental_collect env' ts ow roots marks sweeps h = Some (n, h')
    \<and> collect_realm env' trace ow roots h = Some (n, h')"
proof -
  have ok: "sized h" "aligned h" using reaches_ok [OF assms(2)] by (simp_all add: heap_okD)
  obtain n h' where "collect_realm env' trace ow roots h = Some (n, h')"
    using collect_scope_frees [OF ok(2), of env' trace "Some ow" roots "[]"]
    by (auto simp: collect_realm_def collect_realm_with_ephemerons_def)
  then show ?thesis using edge_slices.incremental_eq [OF assms(1) ok(1) assms(3-6)] by simp
qed

theorem incremental_collection_witness:
  "\<exists>n h'. incremental_collect plain_env (default_trace_slice id) 0 [ObjectId 0] [1, 1] [1] heap_one = Some (n, h')
     \<and> collect_realm plain_env id 0 [ObjectId 0] heap_one = Some (n, h')"
proof -
  have "mark_work (\<lambda>_ _. 0) heap_one < 2"
    by (simp add: mark_work_def slot_work_def heap_one_def lessThan_Suc)
  then show ?thesis
    by (intro incremental_collection [OF whole.edge_slices_axioms reach_heap_one]) (simp_all add: heap_one_def)
qed

text \<open>
  Tracing a script object in slices reports exactly the references that tracing it
  at once reports, in the same order, whatever the budgets are, as soon as there are more slices
  than positions for references.
\<close>

theorem object_trace_in_slices:
  assumes "\<forall>b \<in> set bs. 0 < b" "length (edge_positions v) < length bs"
  shows "read_slices (Object_trace_slice internal v) 0 bs = Some (Object_trace internal v)"
  using read_slices_from [OF assms(1), of 0 v internal] assms(2) by (simp add: Object_trace_positions)

definition object_one :: "(unit, unit) JsObject" where
  "object_one = \<lparr>proto = Some (ObjectId 4), viewed_buffer = None, private_home = None, private_outer_homes = [],
     private_pending_homes = [], shape_values = [ObjectValue (ObjectId 5), OtherValue ()], dense_elements = [],
     weak_collection_storage = False, object_properties = [], private_fields = [], internal_kind = ()\<rparr>"

theorem object_trace_in_slices_witness:
  "read_slices (Object_trace_slice (\<lambda>_. [ObjectId 9]) object_one) 0 [1, 1, 1, 1, 1, 1]
     = Some [ObjectId 4, ObjectId 5, ObjectId 9]"
proof -
  have "length (edge_positions object_one) < length [1, 1, 1, 1, 1, 1 :: nat]"
    by (simp add: edge_positions_def object_one_def)
  from object_trace_in_slices [OF _ this, of "\<lambda>_. [ObjectId 9]"] show ?thesis
    by (simp add: Object_trace_def object_one_def)
qed

section \<open>Exhaustion\<close>

text \<open>
  An exhausted heap hands out its sentinel again, with its old handle and the new contents, and
  raises the out-of-memory flag; without a sentinel it panics. External handles always panic.
\<close>

lemma heap_exhaustion:
  assumes "heap_ok h" "exhausted h"
  shows "oom_sentinel h = None \<Longrightarrow> alloc_with_owner v ow h = None"
    "alloc_external_with_owner x ow h = None"
    "oom_sentinel h = Some s \<Longrightarrow> unat s < length (cells h) \<Longrightarrow>
      \<exists>e h'. alloc_with_owner v ow h = Some (e, h') \<and> oom h' \<and> slot_index e = unat s
        \<and> generation e = generations h ! unat s \<and> cells h' = (cells h)[unat s := Object v]"
proof -
  have n: "length (cells h) = 2 ^ 25" using assms by (simp add: heap_ok_def sized_def exhausted_def)
  have u: "unat (of_nat (2 ^ 25) :: u32) = 2 ^ 25" by simp
  have big: "OBJECT_ID_INDEX_MASK < (of_nat (length (cells h)) :: u32)"
    unfolding n not_le [symmetric] index_mask_le u by simp
  have p: "pop_free (h\<lparr>alloc_count := k\<rparr>) = None" for k using assms(2) by (auto simp: pop_free_def exhausted_def)
  show "alloc_external_with_owner x ow h = None"
    using p big [THEN less_le_not_le [THEN iffD1]] by (auto simp: alloc_external_with_owner_def Let_def)
  show "oom_sentinel h = None \<Longrightarrow> alloc_with_owner v ow h = None"
    using p big by (simp add: alloc_with_owner_def Let_def)
  assume s: "oom_sentinel h = Some s" "unat s < length (cells h)"
  let ?h = "h\<lparr>alloc_count := alloc_count h + 1, oom := True, cells := (cells h)[unat s := Object v],
    colors := (colors h)[unat s := White], owners := (owners h)[unat s := ow]\<rparr>"
  have "sized ?h" using assms(1) by (simp add: heap_ok_def sized_def aligned_def)
  from handle_at_eq [OF this, of s] obtain e where "handle_at s ?h = Some e" "slot_index e = unat s"
    "generation e = generations h ! unat s" using s by auto
  then show "\<exists>e h'. alloc_with_owner v ow h = Some (e, h') \<and> oom h' \<and> slot_index e = unat s
      \<and> generation e = generations h ! unat s \<and> cells h' = (cells h)[unat s := Object v]"
    using p big s assms(1) by (simp add: alloc_with_owner_def Let_def fill_def heap_okD alignedD)
qed

end
