(* ===== verification/Gc_Share.thy ===== *)
theory Gc_Share
  imports Gc_Heap "HOL-Library.AList" "HOL-Library.Multiset"
begin

text \<open>
  Sharing between compartments, the second half of \<open>crates/rusty-js-gc/src/lib.rs\<close> with
  \<open>boundary.rs\<close>: the arena of frozen values with atomic reference counts and deferred
  reclamation, the plans that change the counts when a message crosses a boundary, the boundary
  itself with its capability check, mailboxes, and the scheduler that keeps a compartment on one
  worker.

  Counts and epochs are \<open>u64\<close> and wrap, as the atomic operations do. A mailbox is the queue of a
  channel and whether its receiver still exists: sending fails exactly when it does not. The
  mailboxes live in a store, since the sender of a mailbox is shared; a \<open>MailboxSender\<close> is a key
  of the store. A \<open>Mutex\<close> that no code can poison is its contents. A \<open>HashMap\<close> or \<open>HashSet\<close>
  is an association list or a list of distinct keys.
\<close>

section \<open>The arena\<close>

datatype Tier2Handle = Tier2Handle (handle_bits: u64)

definition arena_index :: "Tier2Handle \<Rightarrow> nat" where
  "arena_index t = unat (handle_bits t)"

record 'a Tier2Slot =
  frozen_value :: 'a \<comment> \<open>\<open>value\<close>\<close>
  rc :: u64
  frozen_refs :: "Tier2Handle list" \<comment> \<open>\<open>refs\<close>\<close>

record 'a Tier2Arena =
  arena_slots :: "'a Tier2Slot option list" \<comment> \<open>\<open>slots\<close>\<close>
  retired :: "(u64 \<times> Tier2Handle) list"
  epoch :: u64

definition Tier2Arena_new :: "'a Tier2Arena" where
  "Tier2Arena_new = \<lparr>arena_slots = [], retired = [], epoch = 0\<rparr>"

definition advance_epoch :: "'a Tier2Arena \<Rightarrow> u64 \<times> 'a Tier2Arena" where
  "advance_epoch A = (epoch A + 1, A\<lparr>epoch := epoch A + 1\<rparr>)"

text \<open>\<open>slots.get(h.0 as usize).and_then(|s| s.as_ref())\<close>\<close>

definition slot_of_handle :: "'a Tier2Arena \<Rightarrow> Tier2Handle \<Rightarrow> 'a Tier2Slot option" where
  "slot_of_handle A t = at (arena_slots A) (arena_index t) \<bind> (\<lambda>s. s)"

definition set_slot :: "Tier2Handle \<Rightarrow> 'a Tier2Slot option \<Rightarrow> 'a Tier2Arena \<Rightarrow> 'a Tier2Arena" where
  "set_slot t s A = A\<lparr>arena_slots := (arena_slots A)[arena_index t := s]\<rparr>"

definition Tier2Arena_get :: "'a Tier2Arena \<Rightarrow> Tier2Handle \<Rightarrow> 'a option" where
  "Tier2Arena_get A t = map_option frozen_value (slot_of_handle A t)"

definition refcount :: "'a Tier2Arena \<Rightarrow> Tier2Handle \<Rightarrow> u64 option" where
  "refcount A t = map_option rc (slot_of_handle A t)"

definition arena_live_count :: "'a Tier2Arena \<Rightarrow> nat" where
  "arena_live_count A = length (filter (\<lambda>s. s \<noteq> None) (arena_slots A))"

definition incref :: "Tier2Handle \<Rightarrow> 'a Tier2Arena \<Rightarrow> 'a Tier2Arena" where
  "incref t A =
     (case slot_of_handle A t of
        Some s \<Rightarrow> set_slot t (Some (s\<lparr>rc := rc s + 1\<rparr>)) A
      | None \<Rightarrow> A)"

definition decref :: "Tier2Handle \<Rightarrow> 'a Tier2Arena \<Rightarrow> bool \<times> 'a Tier2Arena" where
  "decref t A =
     (case slot_of_handle A t of
        Some s \<Rightarrow>
          let B = set_slot t (Some (s\<lparr>rc := rc s - 1\<rparr>)) A in
          if rc s = 1 then (True, B\<lparr>retired := retired B @ [(epoch B, t)]\<rparr>) else (False, B)
      | None \<Rightarrow> (False, A))"

datatype CyclicSharedError = CyclicSharedError

definition freeze ::
    "'a \<Rightarrow> Tier2Handle list \<Rightarrow> 'a Tier2Arena \<Rightarrow> (CyclicSharedError + Tier2Handle) \<times> 'a Tier2Arena" where
  "freeze v refs A =
     (let new_id = (of_nat (length (arena_slots A)) :: u64) in
      if \<exists>r \<in> set refs. handle_bits r \<ge> new_id \<or> slot_of_handle A r = None
      then (Inl CyclicSharedError, A)
      else let B = fold incref refs A in
           (Inr (Tier2Handle new_id),
            B\<lparr>arena_slots := arena_slots B @ [Some \<lparr>frozen_value = v, rc = 1, frozen_refs = refs\<rparr>]\<rparr>))"

text \<open>Freeing a handle whose grace period is over: its slot is emptied and its references dropped.\<close>

definition free_retired :: "Tier2Handle \<Rightarrow> nat \<times> 'a Tier2Arena \<Rightarrow> nat \<times> 'a Tier2Arena" where
  "free_retired t s =
     (let (freed, A) = s in
      case slot_of_handle A t of
        Some slot \<Rightarrow> (freed + 1, fold (\<lambda>r A. snd (decref r A)) (frozen_refs slot) (set_slot t None A))
      | None \<Rightarrow> (freed, A))"

definition retire :: "'a Tier2Arena \<Rightarrow> nat \<times> 'a Tier2Arena" where
  "retire A =
     (let to_free = map snd (filter (\<lambda>(e, t). e + 2 \<le> epoch A) (retired A));
          still_pending = filter (\<lambda>(e, t). \<not> e + 2 \<le> epoch A) (retired A)
      in fold free_retired to_free (0, A\<lparr>retired := still_pending\<rparr>))"

section \<open>Crossing plans\<close>

record RefcountDeltaPlan =
  increments :: "Tier2Handle list"
  decrements :: "Tier2Handle list"
  targets_valid :: bool

datatype TargetNotRegisteredError = TargetNotRegisteredError

record 'a Tier3 =
  arena :: "'a Tier2Arena"
  registered :: "u64 list"

definition Tier3_new :: "'a Tier3" where
  "Tier3_new = \<lparr>arena = Tier2Arena_new, registered = []\<rparr>"

definition register :: "u64 \<Rightarrow> 'a Tier3 \<Rightarrow> 'a Tier3" where
  "register c t = t\<lparr>registered := List.insert c (registered t)\<rparr>"

definition unregister :: "u64 \<Rightarrow> 'a Tier3 \<Rightarrow> 'a Tier3" where
  "unregister c t = t\<lparr>registered := remove1 c (registered t)\<rparr>"

definition is_registered :: "'a Tier3 \<Rightarrow> u64 \<Rightarrow> bool" where
  "is_registered t c \<longleftrightarrow> c \<in> set (registered t)"

definition plan_crossing :: "Tier2Handle list \<Rightarrow> Tier2Handle list \<Rightarrow> u64 \<Rightarrow> 'a Tier3 \<Rightarrow> RefcountDeltaPlan" where
  "plan_crossing clone_crossed transfer_crossed to t =
     \<lparr>increments = clone_crossed, decrements = transfer_crossed, targets_valid = is_registered t to\<rparr>"

definition apply_plan :: "RefcountDeltaPlan \<Rightarrow> 'a Tier3 \<Rightarrow> (TargetNotRegisteredError + unit) \<times> 'a Tier3" where
  "apply_plan plan t =
     (if \<not> targets_valid plan then (Inl TargetNotRegisteredError, t)
      else (Inr (), t\<lparr>arena := fold (\<lambda>h A. snd (decref h A)) (decrements plan) (fold incref (increments plan) (arena t))\<rparr>))"

definition tier3_atomic_touches :: "RefcountDeltaPlan \<Rightarrow> nat" where
  "tier3_atomic_touches plan = length (increments plan) + length (decrements plan)"

section \<open>Mailboxes\<close>

record 'm Mailbox =
  queue :: "'m list"
  receiving :: bool \<comment> \<open>the receiver has not been dropped\<close>

type_synonym MailboxSender = nat
type_synonym 'm mailboxes = "'m Mailbox list"

datatype MailboxClosedError = MailboxClosedError

definition Mailbox_new :: "'m mailboxes \<Rightarrow> MailboxSender \<times> 'm mailboxes" where
  "Mailbox_new st = (length st, st @ [\<lparr>queue = [], receiving = True\<rparr>])"

definition mailbox_enqueue :: "MailboxSender \<Rightarrow> 'm \<Rightarrow> 'm mailboxes \<Rightarrow> (MailboxClosedError + unit) \<times> 'm mailboxes" where
  "mailbox_enqueue s m st =
     (case at st s of
        Some mb \<Rightarrow>
          if receiving mb then (Inr (), st[s := mb\<lparr>queue := queue mb @ [m]\<rparr>]) else (Inl MailboxClosedError, st)
      | None \<Rightarrow> (Inl MailboxClosedError, st))"

definition try_dequeue :: "MailboxSender \<Rightarrow> 'm mailboxes \<Rightarrow> 'm option \<times> 'm mailboxes" where
  "try_dequeue s st =
     (case at st s of
        Some mb \<Rightarrow> (case queue mb of [] \<Rightarrow> (None, st) | m # ms \<Rightarrow> (Some m, st[s := mb\<lparr>queue := ms\<rparr>]))
      | None \<Rightarrow> (None, st))"

definition mailbox_drain :: "MailboxSender \<Rightarrow> 'm mailboxes \<Rightarrow> 'm list \<times> 'm mailboxes" where
  "mailbox_drain s st =
     (case at st s of
        Some mb \<Rightarrow> (queue mb, st[s := mb\<lparr>queue := []\<rparr>])
      | None \<Rightarrow> ([], st))"

section \<open>The boundary\<close>

datatype BoundaryError = Transfer str | Capability str | TargetNotRegistered

record ('m, 'c) Envelope =
  message :: 'm
  envelope_capabilities :: "'c list" \<comment> \<open>\<open>capabilities\<close>\<close>

record Crossing =
  clone_crossed :: "Tier2Handle list"
  transfer_crossed :: "Tier2Handle list"

record 'c SendPlan =
  plan_refcount :: RefcountDeltaPlan \<comment> \<open>\<open>refcount\<close>\<close>
  plan_capabilities :: "'c list" \<comment> \<open>\<open>capabilities\<close>\<close>

record 'a BoundaryWrapper =
  tier3 :: "'a Tier3"
  senders :: "(u64 \<times> MailboxSender) list"

definition BoundaryWrapper_new :: "'a BoundaryWrapper" where
  "BoundaryWrapper_new = \<lparr>tier3 = Tier3_new, senders = []\<rparr>"

definition register_compartment :: "u64 \<Rightarrow> MailboxSender \<Rightarrow> 'a BoundaryWrapper \<Rightarrow> 'a BoundaryWrapper" where
  "register_compartment c s w =
     w\<lparr>tier3 := register c (tier3 w), senders := AList.update c s (senders w)\<rparr>"

definition terminate_compartment :: "u64 \<Rightarrow> 'a BoundaryWrapper \<Rightarrow> 'a BoundaryWrapper" where
  "terminate_compartment c w =
     w\<lparr>tier3 := unregister c (tier3 w), senders := AList.delete c (senders w)\<rparr>"

text \<open>Phase A: everything that can be refused is refused before anything changes.\<close>

definition boundary_validate ::
    "u64 \<Rightarrow> Crossing \<Rightarrow> 'c list \<Rightarrow> 'c set \<Rightarrow> (str + unit) \<Rightarrow> 'a BoundaryWrapper \<Rightarrow> BoundaryError + 'c SendPlan" where
  "boundary_validate to crossing caps sender_caps classify w =
     (case classify of
        Inl e \<Rightarrow> Inl (Transfer e)
      | Inr _ \<Rightarrow>
          let plan = plan_crossing (clone_crossed crossing) (transfer_crossed crossing) to (tier3 w) in
          if \<not> targets_valid plan then Inl TargetNotRegistered
          else if \<exists>c \<in> set caps. c \<notin> sender_caps
          then Inl (Capability ''capability not held by sender (no privilege escalation)'')
          else Inr \<lparr>plan_refcount = plan, plan_capabilities = caps\<rparr>)"

text \<open>Phase B; \<open>None\<close> is the panic of \<open>expect\<close>.\<close>

definition boundary_commit ::
    "u64 \<Rightarrow> 'm \<Rightarrow> 'c SendPlan \<Rightarrow> ('m \<Rightarrow> str + 'm) \<Rightarrow> 'a BoundaryWrapper \<Rightarrow> ('m, 'c) Envelope mailboxes
     \<Rightarrow> ((BoundaryError + unit) \<times> 'a BoundaryWrapper \<times> ('m, 'c) Envelope mailboxes) option" where
  "boundary_commit to msg plan clone w st =
     (case clone msg of
        Inl e \<Rightarrow> Some (Inl (Transfer e), w, st)
      | Inr msg \<Rightarrow>
          (case apply_plan (plan_refcount plan) (tier3 w) of
             (Inl _, t) \<Rightarrow> Some (Inl TargetNotRegistered, w\<lparr>tier3 := t\<rparr>, st)
           | (Inr _, t) \<Rightarrow>
               (case map_of (senders w) to of
                  None \<Rightarrow> None
                | Some s \<Rightarrow>
                    (case mailbox_enqueue s \<lparr>message = msg, envelope_capabilities = plan_capabilities plan\<rparr> st of
                       (Inl _, st) \<Rightarrow> Some (Inl TargetNotRegistered, w\<lparr>tier3 := t\<rparr>, st)
                     | (Inr _, st) \<Rightarrow> Some (Inr (), w\<lparr>tier3 := t\<rparr>, st)))))"

definition boundary_send ::
    "u64 \<Rightarrow> 'm \<Rightarrow> Crossing \<Rightarrow> 'c list \<Rightarrow> 'c set \<Rightarrow> (str + unit) \<Rightarrow> ('m \<Rightarrow> str + 'm)
     \<Rightarrow> 'a BoundaryWrapper \<Rightarrow> ('m, 'c) Envelope mailboxes
     \<Rightarrow> ((BoundaryError + unit) \<times> 'a BoundaryWrapper \<times> ('m, 'c) Envelope mailboxes) option" where
  "boundary_send to msg crossing caps sender_caps classify clone w st =
     (case boundary_validate to crossing caps sender_caps classify w of
        Inl e \<Rightarrow> Some (Inl e, w, st)
      | Inr plan \<Rightarrow> boundary_commit to msg plan clone w st)"

section \<open>The worker pool\<close>

text \<open>
  A worker is its mailbox, which stays open as long as its thread runs; a job is an element of the
  type \<open>'j\<close>, and \<open>returns job\<close> says whether running it returns or panics. Nothing catches a panic
  of a job: it ends the thread, and the mailbox goes with it and what is queued there, as it goes
  when the loop ends. \<open>worker_step\<close> is one turn of the loop of the thread, with the job that it
  starts (\<open>None\<close> while \<open>recv\<close> waits: the thread holds a sender of its own mailbox, which is never
  disconnected); \<open>worker_loop\<close> is the whole loop on the messages that it receives, with the jobs
  that it starts, until it ends or waits for more.
\<close>

datatype 'j WorkerMsg = Run 'j | Shutdown

definition worker_step :: "('j \<Rightarrow> bool) \<Rightarrow> 'j WorkerMsg Mailbox \<Rightarrow> ('j option \<times> 'j WorkerMsg Mailbox) option" where
  "worker_step returns mb =
     (case queue mb of
        [] \<Rightarrow> None
      | Run job # msgs \<Rightarrow>
          Some (Some job, if returns job then mb\<lparr>queue := msgs\<rparr> else \<lparr>queue = [], receiving = False\<rparr>)
      | Shutdown # msgs \<Rightarrow> Some (None, \<lparr>queue = [], receiving = False\<rparr>))"

fun worker_loop :: "('j \<Rightarrow> bool) \<Rightarrow> 'j WorkerMsg list \<Rightarrow> 'j list" where
  "worker_loop returns [] = []"
| "worker_loop returns (Run job # msgs) = job # (if returns job then worker_loop returns msgs else [])"
| "worker_loop returns (Shutdown # msgs) = []"

definition WorkerPool_new :: "nat \<Rightarrow> 'j WorkerMsg mailboxes" where
  "WorkerPool_new n = replicate (max n 1) \<lparr>queue = [], receiving = True\<rparr>"

definition pool_submit ::
    "nat \<Rightarrow> 'j \<Rightarrow> 'j WorkerMsg mailboxes \<Rightarrow> (MailboxClosedError + unit) \<times> 'j WorkerMsg mailboxes" where
  "pool_submit worker job ws = mailbox_enqueue (worker mod length ws) (Run job) ws"

definition pool_shutdown :: "'j WorkerMsg mailboxes \<Rightarrow> 'j WorkerMsg mailboxes" where
  "pool_shutdown ws = fold (\<lambda>w ws. snd (mailbox_enqueue w Shutdown ws)) [0..<length ws] ws"

section \<open>The scheduler\<close>

record 'j TurnScheduler =
  pool :: "'j WorkerMsg mailboxes"
  affinity :: "(u64 \<times> nat) list"
  load :: "nat list"
  next_worker :: nat \<comment> \<open>\<open>next\<close>\<close>

definition Scheduler_new :: "nat \<Rightarrow> 'j TurnScheduler" where
  "Scheduler_new threads =
     (let p = WorkerPool_new threads in
      \<lparr>pool = p, affinity = [], load = replicate (length p) 0, next_worker = 0\<rparr>)"

definition worker_of :: "'j TurnScheduler \<Rightarrow> u64 \<Rightarrow> nat option" where
  "worker_of s c = map_of (affinity s) c"

definition pick_worker :: "nat list \<Rightarrow> nat \<Rightarrow> nat" where
  "pick_worker ld start =
     fold (\<lambda>k best. let w = (start + k) mod length ld in if ld ! w < ld ! best then w else best)
       [0..<length ld] start"

definition assign :: "u64 \<Rightarrow> 'j TurnScheduler \<Rightarrow> nat \<times> 'j TurnScheduler" where
  "assign c s =
     (case map_of (affinity s) c of
        Some w \<Rightarrow> (w, s)
      | None \<Rightarrow>
          let n = length (load s); best = pick_worker (load s) (next_worker s mod n) in
          (best, s\<lparr>next_worker := (best + 1) mod n, affinity := AList.update c best (affinity s),
                   load := (load s)[best := load s ! best + 1]\<rparr>))"

definition migrate :: "u64 \<Rightarrow> nat \<Rightarrow> 'j TurnScheduler \<Rightarrow> bool \<times> 'j TurnScheduler" where
  "migrate c to_worker s =
     (let to = to_worker mod length (load s) in
      case map_of (affinity s) c of
        Some from \<Rightarrow>
          if from \<noteq> to
          then let ld = (load s)[from := load s ! from - 1] in
               (True, s\<lparr>load := ld[to := ld ! to + 1], affinity := AList.update c to (affinity s)\<rparr>)
          else (False, s)
      | None \<Rightarrow> (False, s))"

definition scheduler_remove :: "u64 \<Rightarrow> 'j TurnScheduler \<Rightarrow> 'j TurnScheduler" where
  "scheduler_remove c s =
     (case map_of (affinity s) c of
        Some w \<Rightarrow> s\<lparr>affinity := AList.delete c (affinity s), load := (load s)[w := load s ! w - 1]\<rparr>
      | None \<Rightarrow> s)"

definition submit_turn :: "u64 \<Rightarrow> 'j \<Rightarrow> 'j TurnScheduler \<Rightarrow> (MailboxClosedError + unit) \<times> 'j TurnScheduler" where
  "submit_turn c job s =
     (let (w, s) = assign c s; (r, p) = pool_submit w job (pool s) in (r, s\<lparr>pool := p\<rparr>))"

end
