(* ===== verification/Gc_Arena.thy ===== *)
theory Gc_Arena
  imports Gc_Share Gc_Mark
begin

text \<open>
  The arena of frozen values under clients that keep to the rules: a client raises the count
  only of handles it holds, freezes a value only over handles it holds, and drops a handle once.
  Then counts are exact, a handle that is held reads the value it was frozen with, and values
  that nobody holds are reclaimed after their grace period. The state is followed together with
  the multiset of handles that clients hold.
\<close>

section \<open>Exact counts\<close>

text \<open>
  The counts of an arena agree with the handles \<open>D\<close> that somebody holds, and the live handles
  nobody holds are those waiting in \<open>retired\<close> together with those in \<open>T\<close>, which \<open>retire\<close> has
  taken out of it.
\<close>

definition arena_counts_ok :: "'a Tier2Arena \<Rightarrow> Tier2Handle multiset \<Rightarrow> Tier2Handle list \<Rightarrow> bool" where
  "arena_counts_ok A D T \<longleftrightarrow>
     (\<forall>t s. slot_of_handle A t = Some s \<longrightarrow> unat (rc s) = count D t)
     \<and> (\<forall>t. t \<in># D \<longrightarrow> slot_of_handle A t \<noteq> None)
     \<and> distinct (map snd (retired A) @ T)
     \<and> (\<forall>t. t \<in> snd ` set (retired A) \<union> set T \<longleftrightarrow> slot_of_handle A t \<noteq> None \<and> t \<notin># D)"

lemma arena_counts_ok_held:
  assumes "arena_counts_ok A D T" "t \<in># D"
  obtains s where "slot_of_handle A t = Some s" "unat (rc s) = count D t"
  using assms unfolding arena_counts_ok_def by (metis not_None_eq)

lemma handle_eq_iff: "t = t' \<longleftrightarrow> arena_index t = arena_index t'"
  by (cases t; cases t') (auto simp: arena_index_def intro: unsigned_word_eqI)

lemma slot_of_set_slot:
  assumes "arena_index t < length (arena_slots A)"
  shows "slot_of_handle (set_slot t s A) t' = (if t' = t then s else slot_of_handle A t')"
  using assms by (auto simp: slot_of_handle_def set_slot_def at_def nth_list_update handle_eq_iff)

lemma slot_of_handle_range: "slot_of_handle A t = Some s \<Longrightarrow> arena_index t < length (arena_slots A)"
  by (auto simp: slot_of_handle_def at_def split: if_splits)

lemma slot_of_handle_fields [simp]:
  "slot_of_handle (A\<lparr>retired := r\<rparr>) t = slot_of_handle A t" "slot_of_handle (A\<lparr>epoch := e\<rparr>) t = slot_of_handle A t"
  by (simp_all add: slot_of_handle_def)

lemma incref_slot:
  "slot_of_handle (incref t A) t' =
     (if t' = t then map_option (\<lambda>s. s\<lparr>rc := rc s + 1\<rparr>) (slot_of_handle A t) else slot_of_handle A t')"
  by (auto simp: incref_def slot_of_set_slot slot_of_handle_range split: option.split)

lemma decref_slot:
  "slot_of_handle (snd (decref t A)) t' =
     (if t' = t then map_option (\<lambda>s. s\<lparr>rc := rc s - 1\<rparr>) (slot_of_handle A t) else slot_of_handle A t')"
  by (auto simp: decref_def Let_def slot_of_set_slot slot_of_handle_range split: option.split)

lemma incref_retired [simp]: "retired (incref t A) = retired A" "epoch (incref t A) = epoch A"
  by (simp_all add: incref_def set_slot_def split: option.split)

lemma decref_retired:
  "retired (snd (decref t A)) =
     (if \<exists>s. slot_of_handle A t = Some s \<and> rc s = 1 then retired A @ [(epoch A, t)] else retired A)"
  "epoch (snd (decref t A)) = epoch A"
  by (auto simp: decref_def Let_def set_slot_def split: option.split)

lemma incref_counts:
  assumes c: "arena_counts_ok A D T" and t: "t \<in># D" "count D t + 1 < 2 ^ 64"
  shows "arena_counts_ok (incref t A) (add_mset t D) T"
proof -
  obtain s where s: "slot_of_handle A t = Some s" "unat (rc s) = count D t" using arena_counts_ok_held [OF c t(1)] .
  then have "unat (rc s + 1) = count D t + 1" using t(2) by (simp add: unat_word_ariths)
  then show ?thesis using c t s by (auto simp: arena_counts_ok_def incref_slot)
qed

lemma decref_counts:
  assumes c: "arena_counts_ok A D T" and t: "t \<in># D"
  shows "arena_counts_ok (snd (decref t A)) (D - {#t#}) T"
proof -
  obtain s where s: "slot_of_handle A t = Some s" "unat (rc s) = count D t" using arena_counts_ok_held [OF c t] .
  have pos: "0 < count D t" using t by (simp only: count_greater_zero_iff)
  then have "rc s \<noteq> 0" using s(2) by (metis less_irrefl unsigned_0)
  then have m: "unat (rc s - 1) = count D t - 1" using s(2) by (simp add: unat_minus_one)
  have one: "rc s = 1 \<longleftrightarrow> count D t = 1" using s(2) by (metis unat_1 unsigned_word_eqI)
  have mem: "x \<in># D - {#t#} \<longleftrightarrow> (if x = t then count D t \<noteq> 1 else x \<in># D)" for x
    using pos by (auto simp flip: count_greater_zero_iff)
  have "t \<notin> snd ` set (retired A) \<union> set T" using c t by (auto simp: arena_counts_ok_def)
  then show ?thesis
    using c t s m one by (auto simp: arena_counts_ok_def decref_slot decref_retired mem split: if_splits)
qed

lemma increfs_counts:
  assumes "arena_counts_ok A D T" "set rs \<subseteq> set_mset D" "\<forall>t \<in> set rs. count D t + count (mset rs) t < 2 ^ 64"
  shows "arena_counts_ok (fold incref rs A) (D + mset rs) T"
  using assms
proof (induction rs arbitrary: A D)
  case (Cons r rs)
  have "arena_counts_ok (incref r A) (add_mset r D) T" using Cons.prems by (intro incref_counts) auto
  then have "arena_counts_ok (fold incref rs (incref r A)) (add_mset r D + mset rs) T"
    using Cons.prems by (intro Cons.IH) (auto split: if_splits)
  then show ?case by simp
qed simp

lemma decrefs_counts:
  assumes "arena_counts_ok A D T" "mset rs \<subseteq># D"
  shows "arena_counts_ok (fold (\<lambda>r A. snd (decref r A)) rs A) (D - mset rs) T"
  using assms
proof (induction rs arbitrary: A D)
  case (Cons r rs)
  have r: "r \<in># D" using mset_subset_eqD [OF Cons.prems(2), of r] by simp
  have "mset rs \<subseteq># D - {#r#}" using Cons.prems(2) by (simp add: insert_subset_eq_iff)
  then have "arena_counts_ok (fold (\<lambda>r A. snd (decref r A)) rs (snd (decref r A))) (D - {#r#} - mset rs) T"
    using Cons.IH [OF decref_counts [OF Cons.prems(1) r]] by simp
  then show ?case by (simp add: diff_diff_add_mset)
qed simp

section \<open>The references inside the arena\<close>

definition refs_of :: "'a Tier2Slot option \<Rightarrow> Tier2Handle list" where
  "refs_of s = (case s of Some s \<Rightarrow> frozen_refs s | None \<Rightarrow> [])"

definition inner_refs :: "'a Tier2Arena \<Rightarrow> Tier2Handle multiset" where
  "inner_refs A = mset (concat (map refs_of (arena_slots A)))"

lemma inner_slots: "arena_slots A = arena_slots B \<Longrightarrow> inner_refs A = inner_refs B"
  by (simp add: inner_refs_def)

lemma inner_fields [simp]: "inner_refs (A\<lparr>retired := r\<rparr>) = inner_refs A" "inner_refs (A\<lparr>epoch := e\<rparr>) = inner_refs A"
  by (simp_all add: inner_refs_def)

lemma inner_set_slot:
  assumes "slot_of_handle A t = Some s"
  shows "inner_refs (set_slot t s' A) + mset (frozen_refs s) = inner_refs A + mset (refs_of s')"
proof -
  let ?i = "arena_index t" and ?xs = "map refs_of (arena_slots A)"
  have i: "?i < length ?xs" using slot_of_handle_range [OF assms] by simp
  have old: "?xs ! ?i = frozen_refs s"
    using assms i by (auto simp: slot_of_handle_def at_def refs_of_def split: if_splits)
  have "mset (concat (?xs[?i := refs_of s'])) + mset (?xs ! ?i) = mset (concat ?xs) + mset (refs_of s')"
    by (subst (3) id_take_nth_drop [OF i]) (simp add: upd_conv_take_nth_drop [OF i])
  then show ?thesis by (simp add: inner_refs_def set_slot_def old map_update)
qed

lemma incref_inner [simp]: "inner_refs (incref t A) = inner_refs A"
proof (cases "slot_of_handle A t")
  case (Some s)
  then show ?thesis using inner_set_slot [OF Some, of "Some (s\<lparr>rc := rc s + 1\<rparr>)"]
    by (simp add: incref_def refs_of_def)
qed (simp add: incref_def)

lemma decref_inner [simp]: "inner_refs (snd (decref t A)) = inner_refs A"
proof (cases "slot_of_handle A t")
  case (Some s)
  then show ?thesis using inner_set_slot [OF Some, of "Some (s\<lparr>rc := rc s - 1\<rparr>)"]
    by (cases "rc s = 1") (simp_all add: decref_def refs_of_def Let_def)
qed (simp add: decref_def)

lemma increfs_inner [simp]: "inner_refs (fold incref rs A) = inner_refs A"
  by (induction rs arbitrary: A) auto

lemma decrefs_inner [simp]: "inner_refs (fold (\<lambda>r A. snd (decref r A)) rs A) = inner_refs A"
  by (induction rs arbitrary: A) auto

section \<open>Arenas under clients\<close>

text \<open>
  \<open>H\<close> is the multiset of handles that clients hold and \<open>V\<close> remembers the value every handle was
  frozen with. A frozen value refers to older handles only, and nothing was retired in a later
  epoch than the present one.
\<close>

definition recent :: "'a Tier2Arena \<Rightarrow> bool" where
  "recent A \<longleftrightarrow> (\<forall>(e, t) \<in> set (retired A). e \<le> epoch A)"

definition arena_ok ::
    "'a Tier2Arena \<Rightarrow> Tier2Handle multiset \<Rightarrow> (Tier2Handle \<rightharpoonup> 'a) \<Rightarrow> Tier2Handle list \<Rightarrow> bool" where
  "arena_ok A H V T \<longleftrightarrow>
     arena_counts_ok A (H + inner_refs A) T
     \<and> (\<forall>t s. slot_of_handle A t = Some s \<longrightarrow>
          V t = Some (frozen_value s) \<and> (\<forall>r \<in> set (frozen_refs s). arena_index r < arena_index t))
     \<and> recent A \<and> length (arena_slots A) \<le> 2 ^ 64"

text \<open>The slots of one arena are among those of another, apart from their counts.\<close>

definition same_slots :: "'a Tier2Arena \<Rightarrow> 'a Tier2Arena \<Rightarrow> bool" where
  "same_slots A B \<longleftrightarrow>
     length (arena_slots A) = length (arena_slots B) \<and> epoch A = epoch B
     \<and> (\<forall>t s. slot_of_handle B t = Some s \<longrightarrow>
          (\<exists>s'. slot_of_handle A t = Some s' \<and> frozen_value s' = frozen_value s \<and> frozen_refs s' = frozen_refs s))"

lemma same_slots_refl: "same_slots A A"
  by (simp add: same_slots_def)

lemma same_slots_trans: "same_slots A B \<Longrightarrow> same_slots B C \<Longrightarrow> same_slots A C"
  unfolding same_slots_def by metis

lemma same_slots_set_slot_None: "slot_of_handle A t = Some s \<Longrightarrow> same_slots A (set_slot t None A)"
  by (auto simp: same_slots_def slot_of_set_slot slot_of_handle_range) (auto simp: set_slot_def)

lemma incref_length [simp]: "length (arena_slots (incref t A)) = length (arena_slots A)"
  by (simp add: incref_def set_slot_def split: option.split)

lemma decref_length [simp]: "length (arena_slots (snd (decref t A))) = length (arena_slots A)"
  by (simp add: decref_def set_slot_def Let_def split: option.split)

lemma incref_same_slots: "same_slots A (incref t A)"
  by (auto simp: same_slots_def incref_slot split: if_splits)

lemma decref_same_slots: "same_slots A (snd (decref t A))"
  by (auto simp: same_slots_def decref_slot decref_retired split: if_splits)

lemma increfs_same_slots: "same_slots A (fold incref rs A)"
  by (induction rs arbitrary: A) (auto intro: same_slots_refl same_slots_trans incref_same_slots)

lemma decrefs_same_slots: "same_slots A (fold (\<lambda>r A. snd (decref r A)) rs A)"
  by (induction rs arbitrary: A) (auto intro: same_slots_refl same_slots_trans decref_same_slots)

lemma increfs_retired [simp]: "retired (fold incref rs A) = retired A"
  by (induction rs arbitrary: A) auto

lemma decref_recent: "recent A \<Longrightarrow> recent (snd (decref r A))"
  by (auto simp: decref_retired recent_def)

lemma decrefs_recent: "recent A \<Longrightarrow> recent (fold (\<lambda>r A. snd (decref r A)) rs A)"
  by (induction rs arbitrary: A) (auto dest: decref_recent)

text \<open>What is left of \<open>arena_ok\<close> to show when the slots stay the same.\<close>

lemma arena_okI:
  assumes "arena_ok A H V T" "same_slots A B" "arena_counts_ok B (H' + inner_refs B) T'"
    "recent B"
  shows "arena_ok B H' V T'"
  using assms unfolding arena_ok_def same_slots_def by metis

lemma arena_ok_held:
  assumes "arena_ok A H V T" "t \<in># H"
  obtains s where "slot_of_handle A t = Some s" "unat (rc s) = count (H + inner_refs A) t" "V t = Some (frozen_value s)"
proof -
  have "arena_counts_ok A (H + inner_refs A) T" using assms(1) by (simp add: arena_ok_def)
  then obtain s where s: "slot_of_handle A t = Some s" "unat (rc s) = count (H + inner_refs A) t"
    using assms(2) by (metis arena_counts_ok_held union_iff)
  then show ?thesis using assms(1) by (intro that) (auto simp: arena_ok_def)
qed

lemma incref_ok:
  assumes "arena_ok A H V T" "t \<in># H" "count (H + inner_refs A) t + 1 < 2 ^ 64"
  shows "arena_ok (incref t A) (add_mset t H) V T"
proof (rule arena_okI [OF assms(1) incref_same_slots])
  have "arena_counts_ok A (H + inner_refs A) T" using assms(1) by (simp add: arena_ok_def)
  then show "arena_counts_ok (incref t A) (add_mset t H + inner_refs (incref t A)) T"
    using incref_counts assms(2,3) by fastforce
  show "recent (incref t A)" using assms(1) by (simp add: arena_ok_def recent_def)
qed

lemma decrefs_ok:
  assumes "arena_ok A H V T" "mset rs \<subseteq># H"
  shows "arena_ok (fold (\<lambda>r A. snd (decref r A)) rs A) (H - mset rs) V T"
proof (rule arena_okI [OF assms(1) decrefs_same_slots])
  have "arena_counts_ok A (H + inner_refs A) T" using assms(1) by (simp add: arena_ok_def)
  then have "arena_counts_ok (fold (\<lambda>r A. snd (decref r A)) rs A) (H + inner_refs A - mset rs) T"
    by (rule decrefs_counts) (simp add: assms(2) subset_mset.add_increasing2)
  then show "arena_counts_ok (fold (\<lambda>r A. snd (decref r A)) rs A) (H - mset rs + inner_refs (fold (\<lambda>r A. snd (decref r A)) rs A)) T"
    by (simp add: assms(2) subset_mset.add_diff_assoc2)
  show "recent (fold (\<lambda>r A. snd (decref r A)) rs A)" using assms(1) by (intro decrefs_recent) (simp add: arena_ok_def)
qed


lemma advance_epoch_ok:
  assumes "arena_ok A H V T" "epoch A + 1 \<noteq> 0"
  shows "arena_ok (snd (advance_epoch A)) H V T"
proof -
  have "epoch A \<le> epoch A + 1"
    using assms(2) inc_less_eq_triv_imp [of "epoch A"] by (cases "epoch A + 1 \<le> epoch A") auto
  then have "recent (snd (advance_epoch A))" using assms(1) by (auto simp: arena_ok_def recent_def advance_epoch_def)
  then show ?thesis using assms(1) by (auto simp: arena_ok_def advance_epoch_def arena_counts_ok_def)
qed

lemma arena_push_slot:
  assumes "length (arena_slots A) < 2 ^ 64"
  shows "slot_of_handle (A\<lparr>arena_slots := arena_slots A @ [Some s]\<rparr>) t =
           (if t = Tier2Handle (of_nat (length (arena_slots A))) then Some s else slot_of_handle A t)"
proof -
  have "arena_index (Tier2Handle (of_nat (length (arena_slots A)))) = length (arena_slots A)"
    using assms by (simp add: arena_index_def unat_of_nat)
  then show ?thesis
    by (auto simp: slot_of_handle_def at_def nth_append handle_eq_iff split: if_splits)
qed

lemma freeze_ok:
  assumes ok: "arena_ok A H V []" and refs: "set rs \<subseteq> set_mset H" and n: "length (arena_slots A) < 2 ^ 64"
    and room: "\<forall>t \<in> set rs. count (H + inner_refs A) t + count (mset rs) t < 2 ^ 64"
  shows "\<exists>B. freeze v rs A = (Inr (Tier2Handle (of_nat (length (arena_slots A)))), B)
    \<and> arena_ok B (add_mset (Tier2Handle (of_nat (length (arena_slots A)))) H)
        (V(Tier2Handle (of_nat (length (arena_slots A))) \<mapsto> v)) []"
proof -
  let ?n = "length (arena_slots A)" and ?B = "fold incref rs A"
  let ?t = "Tier2Handle (of_nat ?n)" and ?s = "\<lparr>frozen_value = v, rc = 1, frozen_refs = rs\<rparr>"
  let ?C = "?B\<lparr>arena_slots := arena_slots ?B @ [Some ?s]\<rparr>"
  have idx: "arena_index ?t = ?n" using n by (simp add: arena_index_def unat_of_nat)
  have live: "arena_index r < ?n \<and> slot_of_handle A r \<noteq> None" if "r \<in> set rs" for r
    using arena_ok_held [OF ok, of r] refs that by (auto dest: slot_of_handle_range)
  have chk: "\<not> (\<exists>r \<in> set rs. handle_bits r \<ge> of_nat ?n \<or> slot_of_handle A r = None)"
    using live idx by (fastforce simp: arena_index_def word_le_nat_alt)
  have BA: "same_slots A ?B" by (rule increfs_same_slots)
  have lenB: "length (arena_slots ?B) = ?n" using BA by (simp add: same_slots_def)
  have C: "slot_of_handle ?C t = (if t = ?t then Some ?s else slot_of_handle ?B t)" for t
    using arena_push_slot [of ?B ?s t] n lenB by simp
  have fresh: "slot_of_handle ?B ?t = None" using idx lenB by (auto simp: slot_of_handle_def at_def)
  have "arena_counts_ok A (H + inner_refs A) []" using ok by (simp add: arena_ok_def)
  then have cB: "arena_counts_ok ?B (H + inner_refs A + mset rs) []"
    by (rule increfs_counts) (use refs room in auto)
  have nD: "?t \<notin># H + inner_refs A + mset rs" using cB fresh unfolding arena_counts_ok_def by blast
  have innC: "inner_refs ?C = inner_refs A + mset rs"
    using increfs_inner [of rs A] by (simp add: inner_refs_def refs_of_def)
  have eq: "add_mset ?t H + inner_refs ?C = add_mset ?t (H + inner_refs A + mset rs)" by (simp add: innC)
  have rt: "retired ?C = retired A" "epoch ?C = epoch A" using BA by (simp_all add: same_slots_def)
  have "arena_counts_ok ?C (add_mset ?t H + inner_refs ?C) []"
    unfolding eq using cB nD fresh unfolding arena_counts_ok_def C by (auto simp: not_in_iff)
  moreover have "recent ?C" using ok rt by (simp add: arena_ok_def recent_def)
  moreover have "(V(?t \<mapsto> v)) t = Some (frozen_value s) \<and> (\<forall>r \<in> set (frozen_refs s). arena_index r < arena_index t)"
    if "slot_of_handle ?C t = Some s" for t s
  proof (cases "t = ?t")
    case True
    then show ?thesis using that live idx by (auto simp: C)
  next
    case False
    then have "slot_of_handle ?B t = Some s" using that by (simp add: C)
    then obtain s' where "slot_of_handle A t = Some s'" "frozen_value s' = frozen_value s" "frozen_refs s' = frozen_refs s"
      using BA by (auto simp: same_slots_def)
    then show ?thesis using ok False by (auto simp: arena_ok_def)
  qed
  ultimately have "arena_ok ?C (add_mset ?t H) (V(?t \<mapsto> v)) []"
    using n lenB unfolding arena_ok_def by simp
  moreover have "freeze v rs A = (Inr ?t, ?C)" using chk by (simp add: freeze_def Let_def)
  ultimately show ?thesis by blast
qed

section \<open>Reclamation\<close>

lemma decref_live [simp]: "arena_live_count (snd (decref t A)) = arena_live_count A"
proof (cases "slot_of_handle A t")
  case (Some s)
  let ?i = "arena_index t"
  have i: "?i < length (arena_slots A)" using slot_of_handle_range [OF Some] .
  have old: "arena_slots A ! ?i = Some s" using Some i by (auto simp: slot_of_handle_def at_def)
  have "arena_slots (snd (decref t A)) = (arena_slots A)[?i := Some (s\<lparr>rc := rc s - 1\<rparr>)]"
    using Some by (simp add: decref_def Let_def set_slot_def)
  then show ?thesis
    using i old by (simp add: arena_live_count_def length_filter_conv_card nth_list_update)
      (metis (mono_tags, lifting) option.distinct(1))
qed (simp add: decref_def)

lemma decrefs_live [simp]: "arena_live_count (fold (\<lambda>r A. snd (decref r A)) rs A) = arena_live_count A"
  by (induction rs arbitrary: A) auto

lemma empty_slot_live:
  assumes "slot_of_handle A t = Some s"
  shows "Suc (arena_live_count (set_slot t None A)) = arena_live_count A"
proof -
  let ?i = "arena_index t" and ?xs = "arena_slots A"
  have i: "?i < length ?xs" using slot_of_handle_range [OF assms] .
  have old: "?xs ! ?i = Some s" using assms i by (auto simp: slot_of_handle_def at_def)
  have "arena_live_count A = length (filter (\<lambda>s. s \<noteq> None) (take ?i ?xs @ Some s # drop (Suc ?i) ?xs))"
    using id_take_nth_drop [OF i] old by (simp add: arena_live_count_def)
  then show ?thesis by (simp add: arena_live_count_def set_slot_def upd_conv_take_nth_drop [OF i])
qed

lemma free_retired_ok:
  assumes ok: "arena_ok A H V (t # T)"
  shows "\<exists>B. free_retired t (n, A) = (n + 1, B) \<and> arena_ok B H V T
    \<and> Suc (arena_live_count B) = arena_live_count A \<and> epoch B = epoch A"
proof -
  have c: "arena_counts_ok A (H + inner_refs A) (t # T)" using ok by (simp add: arena_ok_def)
  then have t: "slot_of_handle A t \<noteq> None" "t \<notin># H + inner_refs A" by (auto simp: arena_counts_ok_def)
  then obtain s where s: "slot_of_handle A t = Some s" by blast
  let ?B = "set_slot t None A"
  let ?C = "fold (\<lambda>r A. snd (decref r A)) (frozen_refs s) ?B"
  have inn: "inner_refs A = inner_refs ?B + mset (frozen_refs s)"
    using inner_set_slot [OF s, of None] by (simp add: refs_of_def)
  have "retired ?B = retired A" "epoch ?B = epoch A" by (simp_all add: set_slot_def)
  then have cB: "arena_counts_ok ?B (H + inner_refs A) T" and rB: "recent ?B"
    using c t ok slot_of_handle_range [OF s]
    by (auto simp: arena_counts_ok_def slot_of_set_slot arena_ok_def recent_def)
  have "arena_counts_ok ?C (H + inner_refs A - mset (frozen_refs s)) T"
    by (rule decrefs_counts [OF cB]) (simp add: inn)
  then have cC: "arena_counts_ok ?C (H + inner_refs ?C) T" by (simp add: inn)
  have sC: "same_slots A ?C" using same_slots_trans [OF same_slots_set_slot_None [OF s] decrefs_same_slots] .
  have "arena_ok ?C H V T" using arena_okI [OF ok sC cC decrefs_recent [OF rB]] .
  moreover have "Suc (arena_live_count ?C) = arena_live_count A" using empty_slot_live [OF s] by simp
  moreover have "free_retired t (n, A) = (n + 1, ?C)" using s by (simp add: free_retired_def)
  ultimately show ?thesis using sC by (simp add: same_slots_def)
qed

lemma free_all_ok:
  assumes "arena_ok A H V T"
  shows "\<exists>B. fold free_retired T (n, A) = (n + length T, B) \<and> arena_ok B H V []
    \<and> arena_live_count B + length T = arena_live_count A \<and> epoch B = epoch A"
  using assms
proof (induction T arbitrary: A n)
  case (Cons t T)
  obtain B where B: "free_retired t (n, A) = (n + 1, B)" "arena_ok B H V T"
    "Suc (arena_live_count B) = arena_live_count A" "epoch B = epoch A"
    using free_retired_ok [OF Cons.prems] by blast
  then show ?case using Cons.IH [OF B(2), of "n + 1"] by auto
qed simp

lemma split_filters: "mset (filter (\<lambda>x. \<not> P x) xs) + mset (filter P xs) = mset xs"
  by (induction xs) auto

lemma retire_ok:
  assumes ok: "arena_ok A H V []"
  shows "\<exists>B. retire A = (length (filter (\<lambda>(e, t). e + 2 \<le> epoch A) (retired A)), B) \<and> arena_ok B H V []
    \<and> arena_live_count B + length (filter (\<lambda>(e, t). e + 2 \<le> epoch A) (retired A)) = arena_live_count A
    \<and> epoch B = epoch A"
proof -
  let ?P = "\<lambda>(e, t). e + 2 \<le> epoch A" and ?N = "\<lambda>(e, t). \<not> e + 2 \<le> epoch A"
  let ?T = "map snd (filter ?P (retired A))" and ?B = "A\<lparr>retired := filter ?N (retired A)\<rparr>"
  have c: "arena_counts_ok A (H + inner_refs A) []" using ok by (simp add: arena_ok_def)
  have neg: "?N = (\<lambda>x. \<not> ?P x)" by (simp add: fun_eq_iff)
  have "mset (filter ?N (retired A)) + mset (filter ?P (retired A)) = mset (retired A)"
    unfolding neg by (simp add: split_filters)
  then have perm: "mset (map snd (filter ?N (retired A)) @ ?T) = mset (map snd (retired A))"
    by (simp flip: image_mset_union)
  then have "distinct (map snd (filter ?N (retired A)) @ ?T)"
    "set (map snd (filter ?N (retired A)) @ ?T) = set (map snd (retired A))"
    using c mset_eq_imp_distinct_iff [OF perm] mset_eq_setD [OF perm] by (simp_all add: arena_counts_ok_def)
  then have "arena_counts_ok ?B (H + inner_refs ?B) ?T" using c by (simp add: arena_counts_ok_def)
  moreover have "recent ?B" using ok by (auto simp: arena_ok_def recent_def)
  moreover have "same_slots A ?B" by (simp add: same_slots_def)
  ultimately have "arena_ok ?B H V ?T" using arena_okI [OF ok] by blast
  from free_all_ok [OF this, of 0] show ?thesis by (simp add: retire_def arena_live_count_def)
qed

end
