(* ===== verification/Gc_Arena_Props.thy ===== *)
theory Gc_Arena_Props
  imports Gc_Arena
begin

text \<open>
  The arena of frozen values over whole histories: the states that clients reach, that what they
  hold keeps its value and is counted exactly, and that what nobody holds is reclaimed.
\<close>

text \<open>
  \<open>H\<close> is the multiset of the handles that clients hold, \<open>V\<close> the value every handle was frozen
  with. A client raises or lowers the count of a handle it holds, freezes a value over handles it
  holds, and anybody may advance the epoch or reclaim. No count, index or epoch passes \<open>2 ^ 64\<close>.
\<close>

inductive arena_reaches :: "'a Tier2Arena \<Rightarrow> Tier2Handle multiset \<Rightarrow> (Tier2Handle \<rightharpoonup> 'a) \<Rightarrow> bool" where
  arena_start: "arena_reaches Tier2Arena_new {#} Map.empty"
| arena_freeze: "arena_reaches A H V \<Longrightarrow> set rs \<subseteq> set_mset H \<Longrightarrow> length (arena_slots A) < 2 ^ 64
    \<Longrightarrow> \<forall>t \<in> set rs. count (H + inner_refs A) t + count (mset rs) t < 2 ^ 64
    \<Longrightarrow> freeze v rs A = (Inr t, B) \<Longrightarrow> arena_reaches B (add_mset t H) (V(t \<mapsto> v))"
| arena_incref: "arena_reaches A H V \<Longrightarrow> t \<in># H \<Longrightarrow> count (H + inner_refs A) t + 1 < 2 ^ 64
    \<Longrightarrow> arena_reaches (incref t A) (add_mset t H) V"
| arena_decref: "arena_reaches A H V \<Longrightarrow> t \<in># H \<Longrightarrow> arena_reaches (snd (decref t A)) (H - {#t#}) V"
| arena_advance: "arena_reaches A H V \<Longrightarrow> epoch A + 1 \<noteq> 0 \<Longrightarrow> arena_reaches (snd (advance_epoch A)) H V"
| arena_retire: "arena_reaches A H V \<Longrightarrow> arena_reaches (snd (retire A)) H V"

lemma Tier2Arena_new_ok: "arena_ok Tier2Arena_new {#} Map.empty []"
  by (auto simp: arena_ok_def arena_counts_ok_def Tier2Arena_new_def slot_of_handle_def at_def recent_def inner_refs_def)

lemma arena_reaches_ok: "arena_reaches A H V \<Longrightarrow> arena_ok A H V []"
proof (induction rule: arena_reaches.induct)
  case (arena_freeze A H V rs v t B)
  obtain C where C: "freeze v rs A = (Inr (Tier2Handle (of_nat (length (arena_slots A)))), C)"
    "arena_ok C (add_mset (Tier2Handle (of_nat (length (arena_slots A)))) H)
      (V(Tier2Handle (of_nat (length (arena_slots A))) \<mapsto> v)) []"
    using freeze_ok [OF arena_freeze.IH arena_freeze.hyps(2-4), of v] by blast
  then show ?case using arena_freeze.hyps(5) by (simp del: fun_upd_apply)
next
  case (arena_decref A H V t)
  then show ?case using decrefs_ok [of A H V "[]" "[t]"] by simp
next
  case (arena_retire A H V)
  then show ?case using retire_ok [of A H V] by auto
qed (simp_all add: Tier2Arena_new_ok incref_ok advance_epoch_ok)

lemma word_of_count: "unat (w :: u64) = n \<Longrightarrow> w = of_nat n"
  by auto

section \<open>Reclaiming everything\<close>

definition reclaim_cycle :: "'a Tier2Arena \<Rightarrow> 'a Tier2Arena" where
  "reclaim_cycle A = snd (retire (snd (advance_epoch (snd (advance_epoch A)))))"

lemma inner_refs_mem:
  assumes "t \<in># inner_refs A" "length (arena_slots A) \<le> 2 ^ 64"
  obtains u s where "slot_of_handle A u = Some s" "t \<in> set (frozen_refs s)"
proof -
  obtain i where i: "i < length (arena_slots A)" "t \<in> set (refs_of (arena_slots A ! i))"
    using assms(1) by (fastforce simp: inner_refs_def dest: in_set_conv_nth [THEN iffD1])
  then obtain s where s: "arena_slots A ! i = Some s" "t \<in> set (frozen_refs s)"
    by (cases "arena_slots A ! i") (auto simp: refs_of_def)
  have "arena_index (Tier2Handle (of_nat i)) = i"
    using i(1) assms(2) by (simp add: arena_index_def unat_of_nat)
  then have "slot_of_handle A (Tier2Handle (of_nat i)) = Some s"
    using i(1) s(1) by (simp add: slot_of_handle_def at_def)
  then show ?thesis using that s(2) by blast
qed

text \<open>The youngest live value is referred to by no other, so when clients hold nothing it waits in \<open>retired\<close>.\<close>

lemma unheld_retired:
  assumes ok: "arena_ok A {#} V []" and live: "0 < arena_live_count A"
  shows "retired A \<noteq> []"
proof -
  let ?L = "{arena_index t |t. slot_of_handle A t \<noteq> None}"
  have len: "length (arena_slots A) \<le> 2 ^ 64" and c: "arena_counts_ok A (inner_refs A) []"
    using ok by (simp_all add: arena_ok_def)
  obtain i where i: "i < length (arena_slots A)" "arena_slots A ! i \<noteq> None"
    using live unfolding arena_live_count_def length_greater_0_conv filter_empty_conv by (metis in_set_conv_nth)
  have "arena_index (Tier2Handle (of_nat i)) = i" using i(1) len by (simp add: arena_index_def unat_of_nat)
  then have "i \<in> ?L" using i by (auto simp: slot_of_handle_def at_def intro!: exI [of _ "Tier2Handle (of_nat i)"])
  moreover have fin: "finite ?L"
    by (rule finite_subset [of _ "{..<length (arena_slots A)}"]) (auto dest: slot_of_handle_range)
  ultimately have "Max ?L \<in> ?L" by (intro Max_in) auto
  then obtain t where t: "Max ?L = arena_index t" "slot_of_handle A t \<noteq> None" by blast
  have "t \<notin># inner_refs A"
  proof
    assume "t \<in># inner_refs A"
    then obtain u s where u: "slot_of_handle A u = Some s" "t \<in> set (frozen_refs s)"
      using inner_refs_mem len by blast
    then have "arena_index t < arena_index u" using ok by (auto simp: arena_ok_def)
    moreover have "arena_index u \<in> ?L" using u(1) by auto
    then have "arena_index u \<le> Max ?L" using fin by (rule Max_ge [rotated])
    ultimately show False using t(1) by simp
  qed
  then have "t \<in> snd ` set (retired A)" using c t(2) by (auto simp: arena_counts_ok_def)
  then show ?thesis by auto
qed

lemma reclaim_cycle_ok:
  assumes ok: "arena_ok A {#} V []" and e: "unat (epoch A) + 2 < 2 ^ 64"
  shows "arena_ok (reclaim_cycle A) {#} V []" "unat (epoch (reclaim_cycle A)) = unat (epoch A) + 2"
    "arena_live_count (reclaim_cycle A) \<le> arena_live_count A - 1"
proof -
  let ?B = "snd (advance_epoch (snd (advance_epoch A)))"
  have e1: "unat (epoch A + 1) = unat (epoch A) + 1" and e2: "unat (epoch A + 2) = unat (epoch A) + 2"
    using e by (simp_all add: unat_word_ariths)
  have B: "epoch ?B = epoch A + 2" "retired ?B = retired A" "arena_live_count ?B = arena_live_count A"
    by (simp_all add: advance_epoch_def arena_live_count_def)
  have "epoch A + 1 \<noteq> 0" using e1 by (metis Suc_eq_plus1 nat.distinct(1) unsigned_0)
  moreover have "epoch A + 2 \<noteq> 0" using e2 by (metis Suc_eq_plus1 add_2_eq_Suc' nat.distinct(1) unsigned_0)
  then have "epoch (snd (advance_epoch A)) + 1 \<noteq> 0" by (simp add: advance_epoch_def add.commute)
  ultimately have okB: "arena_ok ?B {#} V []" using advance_epoch_ok [OF advance_epoch_ok [OF ok]] by simp
  have all: "filter (\<lambda>(e, t). e + 2 \<le> epoch A + 2) (retired A) = retired A"
  proof -
    have "a + 2 \<le> epoch A + 2" if "a \<le> epoch A" for a
      using that e e2 by (simp add: word_le_nat_alt unat_word_ariths)
    then show ?thesis using ok by (auto simp: arena_ok_def recent_def intro!: filter_True)
  qed
  obtain C where C: "retire ?B = (length (retired A), C)" "arena_ok C {#} V []"
    "arena_live_count C + length (retired A) = arena_live_count A" "epoch C = epoch A + 2"
    using retire_ok [OF okB] unfolding B all by blast
  then show "arena_ok (reclaim_cycle A) {#} V []" "unat (epoch (reclaim_cycle A)) = unat (epoch A) + 2"
    using e2 by (simp_all add: reclaim_cycle_def)
  show "arena_live_count (reclaim_cycle A) \<le> arena_live_count A - 1"
    using C unheld_retired [OF ok] by (cases "arena_live_count A"; cases "retired A") (auto simp: reclaim_cycle_def)
qed

lemma reclaim_cycles:
  assumes "arena_ok A {#} V []" "arena_live_count A \<le> n" "unat (epoch A) + 2 * n < 2 ^ 64"
  shows "arena_live_count ((reclaim_cycle ^^ n) A) = 0"
  using assms
proof (induction n arbitrary: A)
  case (Suc n)
  have e: "unat (epoch A) + 2 < 2 ^ 64" using Suc.prems(3) by simp
  note cycle = reclaim_cycle_ok [OF Suc.prems(1) e]
  have "arena_live_count ((reclaim_cycle ^^ n) (reclaim_cycle A)) = 0"
    using cycle Suc.prems by (intro Suc.IH) auto
  then show ?case by (simp add: funpow_Suc_right del: funpow.simps)
qed simp

text \<open>A history: two values, the second over the first, whose own handle is then dropped.\<close>

definition shared_pair :: "nat Tier2Arena" where
  "shared_pair =
     snd (decref (Tier2Handle 0) (snd (freeze 20 [Tier2Handle 0] (snd (freeze 10 [] Tier2Arena_new)))))"

lemmas arena_eval = freeze_def Tier2Arena_new_def incref_def decref_def slot_of_handle_def at_def
  set_slot_def arena_index_def inner_refs_def refs_of_def Let_def

lemma shared_pair_eval:
  "shared_pair = \<lparr>arena_slots = [Some \<lparr>frozen_value = 10, rc = 1, frozen_refs = []\<rparr>,
     Some \<lparr>frozen_value = 20, rc = 1, frozen_refs = [Tier2Handle 0]\<rparr>], retired = [], epoch = 0\<rparr>"
  by (simp add: shared_pair_def arena_eval)

lemma shared_pair_reached: "arena_reaches shared_pair {#Tier2Handle 1#} [Tier2Handle 0 \<mapsto> 10, Tier2Handle 1 \<mapsto> 20]"
proof -
  let ?A = "snd (freeze (10 :: nat) [] Tier2Arena_new)"
  have a: "freeze (10 :: nat) [] Tier2Arena_new = (Inr (Tier2Handle 0), ?A)" by (simp add: arena_eval)
  have A: "arena_reaches ?A {#Tier2Handle 0#} [Tier2Handle 0 \<mapsto> 10]"
    using arena_freeze [OF arena_start _ _ _ a] by (simp add: Tier2Arena_new_def)
  let ?B = "snd (freeze 20 [Tier2Handle 0] ?A)"
  have b: "freeze 20 [Tier2Handle 0] ?A = (Inr (Tier2Handle 1), ?B)" by (simp add: arena_eval)
  have "arena_reaches ?B {#Tier2Handle 1, Tier2Handle 0#} [Tier2Handle 0 \<mapsto> 10, Tier2Handle 1 \<mapsto> 20]"
    using arena_freeze [OF A _ _ _ b] by (simp add: arena_eval)
  from arena_decref [OF this, of "Tier2Handle 0"] show ?thesis by (simp add: shared_pair_def)
qed

section \<open>Properties\<close>

text \<open>
  Property C11: however clients that keep to the rules share frozen values, a handle that somebody
  holds reads the value it was frozen with, and its reference count is exactly the number of times
  clients hold it plus the number of times live frozen values refer to it: reclamation never frees
  a value that is still held and no count is lost.
\<close>

theorem frozen_values_safe:
  assumes "arena_reaches A H V" "t \<in># H"
  shows "V t \<noteq> None \<and> Tier2Arena_get A t = V t
    \<and> refcount A t = Some (of_nat (count H t + count (inner_refs A) t))
    \<and> count H t + count (inner_refs A) t < 2 ^ 64"
proof -
  obtain s where s: "slot_of_handle A t = Some s" "unat (rc s) = count (H + inner_refs A) t" "V t = Some (frozen_value s)"
    using arena_ok_held [OF arena_reaches_ok [OF assms(1)] assms(2)] .
  then have "refcount A t = Some (of_nat (count H t + count (inner_refs A) t))"
    using word_of_count [OF s(2)] by (simp add: refcount_def)
  moreover have "count H t + count (inner_refs A) t < 2 ^ 64" using s(2) unsigned_less [of "rc s", where 'a = nat] by simp
  ultimately show ?thesis using s by (simp add: Tier2Arena_get_def)
qed

theorem frozen_values_safe_witness:
  "Tier2Arena_get shared_pair (Tier2Handle 1) = Some 20 \<and> refcount shared_pair (Tier2Handle 1) = Some 1"
  using frozen_values_safe [OF shared_pair_reached, of "Tier2Handle 1"]
  by (simp add: shared_pair_eval inner_refs_def refs_of_def)

text \<open>
  Property C12: once clients hold nothing any more, as many reclamation cycles (two epochs and a
  call of \<open>retire\<close>) as there are live values empty the arena, references between frozen values
  included: nothing frozen is leaked.
\<close>

theorem frozen_values_reclaimed:
  assumes "arena_reaches A {#} V" "unat (epoch A) + 2 * arena_live_count A < 2 ^ 64"
  shows "arena_live_count ((reclaim_cycle ^^ arena_live_count A) A) = 0"
  using reclaim_cycles [OF arena_reaches_ok [OF assms(1)] order.refl assms(2)] .

theorem frozen_values_reclaimed_witness:
  "arena_live_count ((reclaim_cycle ^^ 2) (snd (decref (Tier2Handle 1) shared_pair))) = 0"
proof -
  let ?A = "snd (decref (Tier2Handle 1) shared_pair)"
  have r: "arena_reaches ?A {#} [Tier2Handle 0 \<mapsto> 10, Tier2Handle 1 \<mapsto> 20]"
    using arena_decref [OF shared_pair_reached, of "Tier2Handle 1"] by simp
  have n: "arena_live_count ?A = 2" "epoch ?A = 0"
    by (simp_all add: shared_pair_eval arena_live_count_def arena_eval)
  show ?thesis using frozen_values_reclaimed [OF r] unfolding n by simp
qed

end
