(* ===== verification/Gc_Boundary.thy ===== *)
theory Gc_Boundary
  imports Gc_Arena_Props
begin

text \<open>
  Messages between compartments: what \<open>boundary_send\<close> does on every outcome, on every wrapper
  that clients can build, and how a crossing changes what is held of the arena.
\<close>

section \<open>The states of a boundary\<close>

text \<open>
  A compartment is registered exactly when its mailbox is known. The wrapper keeps the two
  together, \<open>tier3_mut\<close> lets a client change one without the other.
\<close>

definition wired :: "'a BoundaryWrapper \<Rightarrow> ('m, 'c) Envelope mailboxes \<Rightarrow> bool" where
  "wired w st \<longleftrightarrow>
     distinct (registered (tier3 w)) \<and> set (registered (tier3 w)) = dom (map_of (senders w))
     \<and> (\<forall>c s. map_of (senders w) c = Some s \<longrightarrow> s < length st)"

text \<open>
  Clients register compartments with mailboxes that exist, terminate them, send, change the arena
  through \<open>tier3_mut().arena_mut()\<close>, and use the mailboxes: a mailbox never disappears, its queue
  and whether its receiver exists may change. The public \<open>tier3_mut\<close> also gives them the
  registrations (\<open>register\<close> and \<open>unregister\<close> of \<open>Tier3\<close>, or another \<open>Tier3\<close> altogether); the first
  argument says whether that was used.
\<close>

inductive boundary_reaches :: "bool \<Rightarrow> 'a BoundaryWrapper \<Rightarrow> ('m, 'c) Envelope mailboxes \<Rightarrow> bool" where
  boundary_start: "boundary_reaches False BoundaryWrapper_new []"
| boundary_register: "boundary_reaches d w st \<Longrightarrow> s < length st \<Longrightarrow> boundary_reaches d (register_compartment c s w) st"
| boundary_terminate: "boundary_reaches d w st \<Longrightarrow> boundary_reaches d (terminate_compartment c w) st"
| boundary_sent: "boundary_reaches d w st
    \<Longrightarrow> boundary_send to m crossing caps sender_caps classify clone w st = Some (r, w', st') \<Longrightarrow> boundary_reaches d w' st'"
| boundary_arena: "boundary_reaches d w st \<Longrightarrow> boundary_reaches d (w\<lparr>tier3 := (tier3 w)\<lparr>arena := A\<rparr>\<rparr>) st"
| boundary_tier3: "boundary_reaches d w st \<Longrightarrow> boundary_reaches True (w\<lparr>tier3 := T\<rparr>) st"
| boundary_mailbox: "boundary_reaches d w st \<Longrightarrow> boundary_reaches d w (st[s := mb])"
| boundary_mailbox_new: "boundary_reaches d w st \<Longrightarrow> boundary_reaches d w (snd (Mailbox_new st))"

lemma mailbox_enqueue_length [simp]: "length (snd (mailbox_enqueue s m st)) = length st"
  by (simp add: mailbox_enqueue_def split: option.split)

lemma apply_plan_frame: "registered (snd (apply_plan plan t)) = registered t"
  by (simp add: apply_plan_def)

lemma boundary_send_frame:
  assumes "boundary_send to m crossing caps sender_caps classify clone w st = Some (r, w', st')"
  shows "senders w' = senders w \<and> registered (tier3 w') = registered (tier3 w) \<and> length st' = length st"
proof -
  have "registered t = registered (tier3 w)" if "apply_plan p (tier3 w) = (x, t)" for p x t
    using apply_plan_frame [of p "tier3 w"] that by simp
  moreover have "length st' = length st" if "mailbox_enqueue s e st = (x, st')" for s e x and st' :: "('b, 'c) Envelope mailboxes"
    using mailbox_enqueue_length [of s e st] that by simp
  ultimately show ?thesis
    using assms by (auto simp: boundary_send_def boundary_commit_def split: sum.splits prod.splits option.splits)
qed

lemma boundary_reaches_wired: "boundary_reaches d w st \<Longrightarrow> \<not> d \<Longrightarrow> wired w st"
proof (induction rule: boundary_reaches.induct)
  case (boundary_register d w st s c)
  then show ?case
    by (auto simp: wired_def register_compartment_def register_def update_conv' split: if_splits)
next
  case (boundary_terminate d w st c)
  then show ?case
    by (auto simp: wired_def terminate_compartment_def unregister_def delete_conv' restrict_map_def split: if_splits)
next
  case (boundary_sent d w st to m crossing caps sender_caps classify clone r w' st')
  then show ?case using boundary_send_frame by (fastforce simp: wired_def)
qed (auto simp: wired_def BoundaryWrapper_new_def Tier3_new_def Mailbox_new_def intro: less_SucI)

section \<open>Crossing the arena\<close>

lemma increfs_reach:
  assumes "arena_reaches A H V" "set rs \<subseteq> set_mset H" "\<forall>t \<in> set rs. count (H + inner_refs A) t + count (mset rs) t < 2 ^ 64"
  shows "arena_reaches (fold incref rs A) (H + mset rs) V"
  using assms
proof (induction rs arbitrary: A H)
  case (Cons r rs)
  have "arena_reaches (incref r A) (add_mset r H) V"
    using Cons.prems by (intro arena_incref) auto
  then have "arena_reaches (fold incref rs (incref r A)) (add_mset r H + mset rs) V"
    using Cons.prems by (intro Cons.IH) (auto split: if_splits)
  then show ?case by simp
qed simp

lemma decrefs_reach:
  assumes "arena_reaches A H V" "mset rs \<subseteq># H"
  shows "arena_reaches (fold (\<lambda>r A. snd (decref r A)) rs A) (H - mset rs) V"
  using assms
proof (induction rs arbitrary: A H)
  case (Cons r rs)
  have r: "r \<in># H" using mset_subset_eqD [OF Cons.prems(2), of r] by simp
  have "mset rs \<subseteq># H - {#r#}" using Cons.prems(2) by (simp add: insert_subset_eq_iff)
  then have "arena_reaches (fold (\<lambda>r A. snd (decref r A)) rs (snd (decref r A))) (H - {#r#} - mset rs) V"
    using Cons.IH [OF arena_decref [OF Cons.prems(1) r]] by simp
  then show ?case by (simp add: diff_diff_add_mset)
qed simp

section \<open>Outcomes\<close>

text \<open>The mailbox of a registered compartment is open when its receiver still exists.\<close>

definition open_mailbox :: "'a BoundaryWrapper \<Rightarrow> ('m, 'c) Envelope mailboxes \<Rightarrow> u64 \<Rightarrow> MailboxSender option" where
  "open_mailbox w st to =
     (case map_of (senders w) to of
        Some s \<Rightarrow> (if s < length st \<and> receiving (st ! s) then Some s else None)
      | None \<Rightarrow> None)"

definition crossed :: "Crossing \<Rightarrow> 'a BoundaryWrapper \<Rightarrow> 'a BoundaryWrapper" where
  "crossed crossing w =
     w\<lparr>tier3 := (tier3 w)\<lparr>arena := fold (\<lambda>h A. snd (decref h A)) (transfer_crossed crossing)
                                    (fold incref (clone_crossed crossing) (arena (tier3 w)))\<rparr>\<rparr>"

text \<open>Nothing stands against the send: what \<open>validate\<close> checks, and the clone of the message.\<close>

definition nothing_refused ::
    "u64 \<Rightarrow> 'm \<Rightarrow> 'c list \<Rightarrow> 'c set \<Rightarrow> (str + unit) \<Rightarrow> ('m \<Rightarrow> str + 'm) \<Rightarrow> 'a BoundaryWrapper \<Rightarrow> bool" where
  "nothing_refused to m caps sender_caps classify clone w \<longleftrightarrow>
     (\<exists>u. classify = Inr u) \<and> is_registered (tier3 w) to \<and> set caps \<subseteq> sender_caps \<and> (\<exists>m'. clone m = Inr m')"

lemma enqueue_open:
  "mailbox_enqueue s m st =
     (if s < length st \<and> receiving (st ! s) then (Inr (), st[s := (st ! s)\<lparr>queue := queue (st ! s) @ [m]\<rparr>])
      else (Inl MailboxClosedError, st))"
  by (auto simp: mailbox_enqueue_def at_def split: option.splits if_splits)

lemma boundary_send_eq:
  "boundary_send to m crossing caps sender_caps classify clone w st =
    (case classify of Inl e \<Rightarrow> Some (Inl (Transfer e), w, st) | Inr _ \<Rightarrow>
     if \<not> is_registered (tier3 w) to then Some (Inl TargetNotRegistered, w, st)
     else if \<not> set caps \<subseteq> sender_caps
     then Some (Inl (Capability ''capability not held by sender (no privilege escalation)''), w, st)
     else (case clone m of Inl e \<Rightarrow> Some (Inl (Transfer e), w, st) | Inr m' \<Rightarrow>
       if map_of (senders w) to = None then None
       else (case open_mailbox w st to of None \<Rightarrow> Some (Inl TargetNotRegistered, crossed crossing w, st) | Some s \<Rightarrow>
         Some (Inr (), crossed crossing w,
          st[s := (st ! s)\<lparr>queue := queue (st ! s) @ [\<lparr>message = m', envelope_capabilities = caps\<rparr>]\<rparr>]))))"
  by (auto simp: boundary_send_def boundary_validate_def boundary_commit_def plan_crossing_def apply_plan_def
    crossed_def open_mailbox_def enqueue_open Let_def split: sum.splits option.splits)

section \<open>Properties\<close>

text \<open>
  Property C13: the outcomes of a send, on every boundary that clients can build, the registrations
  they change through \<open>tier3_mut\<close> included. A send panics exactly when nothing is refused (the
  message is classified as cloneable and cloned, the target is registered, every capability attached
  is held by the sender) and no mailbox is known for the target; that never happens as long as
  compartments are registered through the wrapper only. Otherwise it succeeds exactly when nothing
  is refused and the target still reads its mailbox. Then exactly one envelope, with exactly the
  attached capabilities, is appended to that mailbox and the counts are changed by the crossing. A
  send that fails leaves every mailbox as it was, and the arena too, with one exception: when the
  receiver of a registered target is gone, the counts have already been changed.
\<close>

theorem boundary_send_atomic:
  assumes "boundary_reaches direct w st"
  shows "(boundary_send to m crossing caps sender_caps classify clone w st = None
          \<longleftrightarrow> nothing_refused to m caps sender_caps classify clone w \<and> map_of (senders w) to = None)
    \<and> (\<not> direct \<longrightarrow> boundary_send to m crossing caps sender_caps classify clone w st \<noteq> None)
    \<and> (\<forall>r w' st'. boundary_send to m crossing caps sender_caps classify clone w st = Some (r, w', st') \<longrightarrow>
        (r = Inr () \<longleftrightarrow> nothing_refused to m caps sender_caps classify clone w \<and> open_mailbox w st to \<noteq> None)
        \<and> (r = Inr () \<longrightarrow> w' = crossed crossing w \<and> (\<exists>s m'. map_of (senders w) to = Some s \<and> clone m = Inr m'
              \<and> st' = st[s := (st ! s)\<lparr>queue := queue (st ! s) @ [\<lparr>message = m', envelope_capabilities = caps\<rparr>]\<rparr>]))
        \<and> (r \<noteq> Inr () \<longrightarrow> st' = st \<and> (w' = w \<or> r = Inl TargetNotRegistered \<and> w' = crossed crossing w
              \<and> is_registered (tier3 w) to \<and> open_mailbox w st to = None)))"
proof -
  have none: "boundary_send to m crossing caps sender_caps classify clone w st = None
      \<longleftrightarrow> nothing_refused to m caps sender_caps classify clone w \<and> map_of (senders w) to = None"
    unfolding nothing_refused_def boundary_send_eq by (auto split: sum.splits option.splits if_splits)
  moreover have "\<exists>s. map_of (senders w) to = Some s" if "\<not> direct" "is_registered (tier3 w) to"
    using boundary_reaches_wired [OF assms that(1)] that(2) by (auto simp: wired_def is_registered_def)
  then have "\<not> direct \<Longrightarrow> boundary_send to m crossing caps sender_caps classify clone w st \<noteq> None"
    unfolding none nothing_refused_def by auto
  ultimately show ?thesis
    unfolding nothing_refused_def boundary_send_eq
    by (auto simp: open_mailbox_def split: sum.splits option.splits if_splits)
qed

theorem boundary_send_atomic_witness:
  "boundary_send 1 ''hi'' \<lparr>clone_crossed = [], transfer_crossed = []\<rparr> [2] {2 :: nat} (Inr ()) Inr
     (register_compartment 1 0 BoundaryWrapper_new :: nat BoundaryWrapper) [\<lparr>queue = [], receiving = True\<rparr>] \<noteq> None
   \<and> boundary_send 3 ''hi'' \<lparr>clone_crossed = [], transfer_crossed = []\<rparr> [2] {2 :: nat} (Inr ()) Inr
     ((register_compartment 1 0 BoundaryWrapper_new :: nat BoundaryWrapper)\<lparr>tier3 := register 3 Tier3_new\<rparr>)
     [\<lparr>queue = [], receiving = True\<rparr>] = None"
proof -
  let ?w = "register_compartment 1 0 BoundaryWrapper_new :: nat BoundaryWrapper" and ?t = "register 3 Tier3_new :: nat Tier3"
  let ?st = "[\<lparr>queue = [], receiving = True\<rparr>] :: (string, nat) Envelope mailboxes"
  have w: "boundary_reaches False ?w ?st"
    using boundary_register [OF boundary_mailbox_new [OF boundary_start], of 0 1] by (simp add: Mailbox_new_def)
  have "map_of (senders (?w\<lparr>tier3 := ?t\<rparr>)) 3 = None" "is_registered (tier3 (?w\<lparr>tier3 := ?t\<rparr>)) 3"
    by (simp_all add: register_compartment_def BoundaryWrapper_new_def is_registered_def register_def Tier3_new_def)
  then have "boundary_send 3 ''hi'' \<lparr>clone_crossed = [], transfer_crossed = []\<rparr> [2] {2} (Inr ()) Inr (?w\<lparr>tier3 := ?t\<rparr>) ?st = None"
    by (subst boundary_send_atomic [OF boundary_tier3 [OF w], THEN conjunct1]) (simp add: nothing_refused_def)
  moreover have "boundary_send 1 ''hi'' \<lparr>clone_crossed = [], transfer_crossed = []\<rparr> [2] {2} (Inr ()) Inr ?w ?st \<noteq> None"
    by (rule boundary_send_atomic [OF w, THEN conjunct2, THEN conjunct1, THEN mp]) simp
  ultimately show ?thesis by blast
qed

text \<open>
  A send that succeeds keeps the books of the arena: when the clients hold \<open>H\<close>, the
  sender clones handles that are held and gives up handles that are held after that, the arena
  afterwards is one that clients reach holding \<open>H\<close> with the cloned handles added and the
  transferred ones removed, every handle with the value it had. So what is still held reads its
  value, and no count is lost in a crossing.
\<close>

theorem crossing_keeps_counts:
  assumes "arena_reaches (arena (tier3 w)) H V" "set (clone_crossed crossing) \<subseteq> set_mset H"
    "\<forall>t \<in> set (clone_crossed crossing).
       count (H + inner_refs (arena (tier3 w))) t + count (mset (clone_crossed crossing)) t < 2 ^ 64"
    "mset (transfer_crossed crossing) \<subseteq># H + mset (clone_crossed crossing)"
    "boundary_send to m crossing caps sender_caps classify clone w st = Some (Inr (), w', st')"
  shows "arena_reaches (arena (tier3 w')) (H + mset (clone_crossed crossing) - mset (transfer_crossed crossing)) V"
proof -
  have "w' = crossed crossing w"
    using assms(5) unfolding boundary_send_eq
    by (auto split: sum.splits option.splits if_splits)
  then show ?thesis
    using decrefs_reach [OF increfs_reach [OF assms(1-3)] assms(4)] by (simp add: crossed_def)
qed

theorem crossing_keeps_counts_witness:
  "\<exists>w'. boundary_send 1 ''hi'' \<lparr>clone_crossed = [Tier2Handle 1], transfer_crossed = []\<rparr> [] ({} :: nat set) (Inr ()) Inr
     (register_compartment 1 0 \<lparr>tier3 = \<lparr>arena = shared_pair, registered = []\<rparr>, senders = []\<rparr>)
     [\<lparr>queue = [], receiving = True\<rparr>]
     = Some (Inr (), w', [\<lparr>queue = [\<lparr>message = ''hi'', envelope_capabilities = []\<rparr>], receiving = True\<rparr>])
   \<and> arena_reaches (arena (tier3 w')) {#Tier2Handle 1, Tier2Handle 1#} [Tier2Handle 0 \<mapsto> 10, Tier2Handle 1 \<mapsto> 20]"
proof -
  let ?x = "\<lparr>clone_crossed = [Tier2Handle 1], transfer_crossed = []\<rparr>"
  let ?w = "register_compartment 1 0 \<lparr>tier3 = \<lparr>arena = shared_pair, registered = []\<rparr>, senders = []\<rparr>"
  let ?st = "[\<lparr>queue = [], receiving = True\<rparr>] :: (string, nat) Envelope mailboxes"
  let ?st' = "[\<lparr>queue = [\<lparr>message = ''hi'', envelope_capabilities = []\<rparr>], receiving = True\<rparr>] :: (string, nat) Envelope mailboxes"
  have sent: "boundary_send 1 ''hi'' ?x [] {} (Inr ()) Inr ?w ?st = Some (Inr (), crossed ?x ?w, ?st')"
    unfolding boundary_send_eq
    by (simp add: open_mailbox_def register_compartment_def register_def is_registered_def)
  have "arena_reaches (arena (tier3 ?w)) {#Tier2Handle 1#} [Tier2Handle 0 \<mapsto> 10, Tier2Handle 1 \<mapsto> 20]"
    using shared_pair_reached by (simp add: register_compartment_def register_def)
  from crossing_keeps_counts [OF this _ _ _ sent] sent show ?thesis
    by (simp add: register_compartment_def register_def shared_pair_eval inner_refs_def refs_of_def)
qed

end
