(* ===== verification/Gc_Schedule.thy ===== *)
theory Gc_Schedule
  imports Gc_Boundary
begin

text \<open>
  The scheduler over whole histories: its loads are the numbers of compartments on each worker, a
  new compartment goes to a least loaded worker, and the turns of a compartment run in the order
  in which they were submitted.
\<close>

section \<open>Choosing a worker\<close>

lemma pick_worker_least:
  assumes "start < length ld"
  shows "pick_worker ld start < length ld" "w < length ld \<Longrightarrow> ld ! pick_worker ld start \<le> ld ! w"
proof -
  let ?n = "length ld" and ?f = "\<lambda>k best. let w = (start + k) mod length ld in if ld ! w < ld ! best then w else best"
  have *: "fold ?f ks b < ?n \<and> ld ! fold ?f ks b \<le> ld ! b \<and> (\<forall>k \<in> set ks. ld ! fold ?f ks b \<le> ld ! ((start + k) mod ?n))"
    if "b < ?n" for ks b
    using that
  proof (induction ks arbitrary: b)
    case (Cons k ks)
    then have "?f k b < ?n" by (auto simp: Let_def intro: mod_less_divisor)
    from Cons.IH [OF this] show ?case by (auto simp: Let_def split: if_splits)
  qed simp
  show "pick_worker ld start < ?n" using * [OF assms] by (simp add: pick_worker_def)
  assume w: "w < ?n"
  have "(start + (w + ?n - start) mod ?n) mod ?n = w"
    using assms w by (simp add: mod_add_right_eq)
  then have "\<exists>k \<in> set [0..<?n]. (start + k) mod ?n = w"
    using w by (intro bexI [of _ "(w + ?n - start) mod ?n"]) (auto intro: mod_less_divisor)
  then show "ld ! pick_worker ld start \<le> ld ! w" using * [OF assms, of "[0..<?n]"] by (auto simp: pick_worker_def)
qed

section \<open>Loads\<close>

text \<open>Loads \<open>ld\<close> that count the compartments which \<open>m\<close> puts on each worker.\<close>

definition loads_ok :: "nat list \<Rightarrow> (u64 \<rightharpoonup> nat) \<Rightarrow> bool" where
  "loads_ok ld m \<longleftrightarrow> finite (dom m) \<and> ran m \<subseteq> {..<length ld} \<and> (\<forall>w < length ld. ld ! w = card {c. m c = Some w})"

lemma loads_finite: "loads_ok ld m \<Longrightarrow> finite {c. m c = Some w}"
  by (rule finite_subset [of _ "dom m"]) (auto simp: loads_ok_def)

lemma loads_add:
  assumes "loads_ok ld m" "m c = None" "w < length ld"
  shows "loads_ok (ld[w := ld ! w + 1]) (m(c \<mapsto> w))"
proof -
  have "{d. (m(c \<mapsto> w)) d = Some v} = (if v = w then insert c {d. m d = Some v} else {d. m d = Some v})" for v
    using assms(2) by auto
  then show ?thesis
    using assms loads_finite [OF assms(1), of w] unfolding loads_ok_def by (auto simp: nth_list_update ran_def)
qed

lemma loads_del:
  assumes "loads_ok ld m" "m c = Some w"
  shows "loads_ok (ld[w := ld ! w - 1]) (m(c := None))"
proof -
  have "{d. (m(c := None)) d = Some v} = (if v = w then {d. m d = Some v} - {c} else {d. m d = Some v})" for v
    using assms(2) by auto
  then show ?thesis
    using assms loads_finite [OF assms(1), of w] unfolding loads_ok_def
    by (auto simp: nth_list_update ran_def card_Diff_singleton)
qed

lemma loads_ran: "loads_ok ld m \<Longrightarrow> m c = Some w \<Longrightarrow> w < length ld"
  by (auto simp: loads_ok_def ran_def)

definition sched_ok :: "'j TurnScheduler \<Rightarrow> bool" where
  "sched_ok s \<longleftrightarrow> 0 < length (load s) \<and> length (pool s) = length (load s) \<and> loads_ok (load s) (worker_of s)"

inductive sched_reaches :: "'j TurnScheduler \<Rightarrow> bool" where
  sched_start: "sched_reaches (Scheduler_new n)"
| sched_assign: "sched_reaches s \<Longrightarrow> sched_reaches (snd (assign c s))"
| sched_migrate: "sched_reaches s \<Longrightarrow> sched_reaches (snd (migrate c w s))"
| sched_remove: "sched_reaches s \<Longrightarrow> sched_reaches (scheduler_remove c s)"
| sched_submit: "sched_reaches s \<Longrightarrow> sched_reaches (snd (submit_turn c job s))"
| sched_worker: "sched_reaches s \<Longrightarrow> sched_reaches (s\<lparr>pool := (pool s)[w := mb]\<rparr>)" \<comment> \<open>a thread takes a job or ends\<close>

lemma worker_of_eq: "worker_of s = map_of (affinity s)"
  by (simp add: worker_of_def fun_eq_iff)

lemma worker_of_pool [simp]: "worker_of (s\<lparr>pool := p\<rparr>) = worker_of s"
  by (simp add: worker_of_eq)

lemma assign_known: "worker_of s c = Some w \<Longrightarrow> assign c s = (w, s)"
  by (simp add: assign_def worker_of_eq)

lemma assign_new:
  assumes ok: "sched_ok s" and new: "worker_of s c = None" and a: "assign c s = (w, t)"
  shows "w < length (load s)" "v < length (load s) \<Longrightarrow> load s ! w \<le> load s ! v"
    "load t = (load s)[w := load s ! w + 1]" "pool t = pool s" "worker_of t = (worker_of s)(c \<mapsto> w)"
proof -
  have st: "next_worker s mod length (load s) < length (load s)" using ok by (simp add: sched_ok_def)
  have w: "w = pick_worker (load s) (next_worker s mod length (load s))"
    using a new by (auto simp: assign_def worker_of_eq Let_def)
  show "w < length (load s)" "v < length (load s) \<Longrightarrow> load s ! w \<le> load s ! v"
    using pick_worker_least [OF st] by (simp_all add: w)
  show "load t = (load s)[w := load s ! w + 1]" "pool t = pool s" "worker_of t = (worker_of s)(c \<mapsto> w)"
    using a new by (auto simp: assign_def worker_of_eq Let_def update_conv')
qed

lemma assign_ok:
  assumes "sched_ok s"
  shows "sched_ok (snd (assign c s))"
proof (cases "worker_of s c")
  case None
  obtain w t where a: "assign c s = (w, t)" by force
  show ?thesis using assms loads_add [of "load s" "worker_of s" c w] None
    unfolding a snd_conv by (simp add: sched_ok_def assign_new [OF assms None a])
qed (simp add: assign_known assms)

lemma migrate_ok:
  assumes "sched_ok s"
  shows "sched_ok (snd (migrate c w s))"
proof (cases "worker_of s c")
  case (Some f)
  let ?to = "w mod length (load s)" and ?ld = "(load s)[f := load s ! f - 1]"
  have l: "loads_ok ?ld ((worker_of s)(c := None))" using loads_del assms Some by (auto simp: sched_ok_def)
  have "?to < length ?ld" using assms by (simp add: sched_ok_def)
  from loads_add [OF l _ this, of c] show ?thesis
    using assms Some by (auto simp: migrate_def Let_def sched_ok_def worker_of_eq update_conv')
qed (simp add: migrate_def worker_of_eq assms)

lemma scheduler_remove_ok:
  assumes "sched_ok s"
  shows "sched_ok (scheduler_remove c s)"
proof (cases "worker_of s c")
  case (Some w)
  then show ?thesis using loads_del [of "load s" "worker_of s" c w] assms
    by (auto simp: scheduler_remove_def sched_ok_def worker_of_eq delete_conv')
qed (simp add: scheduler_remove_def worker_of_eq assms)

lemma submit_turn_eq:
  assumes "assign c s = (w, t)"
  shows "submit_turn c job s = (fst (pool_submit w job (pool t)), t\<lparr>pool := snd (pool_submit w job (pool t))\<rparr>)"
  using assms by (simp add: submit_turn_def Let_def case_prod_unfold)

lemma Scheduler_new_ok: "sched_ok (Scheduler_new n)"
  by (auto simp: sched_ok_def Scheduler_new_def WorkerPool_new_def loads_ok_def worker_of_eq Let_def)

lemma sched_reaches_ok: "sched_reaches s \<Longrightarrow> sched_ok s"
proof (induction rule: sched_reaches.induct)
  case (sched_submit s c job)
  obtain w t where a: "assign c s = (w, t)" by force
  have "sched_ok t" using assign_ok [OF sched_submit.IH, of c] a by simp
  then show ?case by (simp add: submit_turn_eq [OF a] sched_ok_def pool_submit_def)
qed (simp_all add: Scheduler_new_ok assign_ok migrate_ok scheduler_remove_ok, simp add: sched_ok_def)

section \<open>Turns\<close>

text \<open>
  A run of a fresh scheduler: turns are submitted while the threads work, in any interleaving.
  \<open>js\<close> are the turns submitted so far and \<open>acc\<close> those that were accepted; \<open>started w\<close> are the jobs that
  worker \<open>w\<close> has started. Every job ends, with a return or a panic.
\<close>

inductive turns_run ::
    "('j \<Rightarrow> bool) \<Rightarrow> nat \<Rightarrow> (u64 \<times> 'j) list \<Rightarrow> (u64 \<times> 'j) list \<Rightarrow> 'j TurnScheduler \<Rightarrow> (nat \<Rightarrow> 'j list) \<Rightarrow> bool"
  for returns :: "'j \<Rightarrow> bool" and n :: nat where
  run_start: "turns_run returns n [] [] (Scheduler_new n) (\<lambda>_. [])"
| run_submit: "turns_run returns n js acc s started \<Longrightarrow> submit_turn c job s = (r, s')
    \<Longrightarrow> turns_run returns n (js @ [(c, job)]) (if r = Inr () then acc @ [(c, job)] else acc) s' started"
| run_worker: "turns_run returns n js acc s started \<Longrightarrow> w < length (pool s) \<Longrightarrow> worker_step returns (pool s ! w) = Some (x, mb)
    \<Longrightarrow> turns_run returns n js acc (s\<lparr>pool := (pool s)[w := mb]\<rparr>)
          (started(w := started w @ (case x of None \<Rightarrow> [] | Some job \<Rightarrow> [job])))"

text \<open>The jobs of the compartments of a worker, and what a thread runs of a sequence of jobs.\<close>

definition jobs_on :: "'j TurnScheduler \<Rightarrow> (u64 \<times> 'j) list \<Rightarrow> nat \<Rightarrow> 'j list" where
  "jobs_on s js w = map snd (filter (\<lambda>(c, job). worker_of s c = Some w) js)"

lemma jobs_on_pool [simp]: "jobs_on (s\<lparr>pool := p\<rparr>) = jobs_on s"
  by (simp add: jobs_on_def fun_eq_iff)

definition run_until :: "('j \<Rightarrow> bool) \<Rightarrow> 'j list \<Rightarrow> 'j list" where
  "run_until returns js = takeWhile returns js @ take 1 (dropWhile returns js)"

lemma run_until_simps [simp]: "run_until returns [] = []"
  "run_until returns (j # js) = j # (if returns j then run_until returns js else [])"
  by (simp_all add: run_until_def)

lemma run_until_append: "list_all returns xs \<Longrightarrow> run_until returns (xs @ ys) = xs @ run_until returns ys"
  by (induction xs) simp_all

lemma worker_loop_stop [simp]: "worker_loop returns (map Run js @ [Shutdown]) = run_until returns js"
  by (induction js) auto

lemma pool_shutdown_nth:
  assumes "w < length ws"
  shows "pool_shutdown ws ! w =
    (if receiving (ws ! w) then (ws ! w)\<lparr>queue := queue (ws ! w) @ [Shutdown]\<rparr> else ws ! w)"
proof -
  have "length (fold (\<lambda>w ws. snd (mailbox_enqueue w Shutdown ws)) [0..<k] ws) = length ws
    \<and> (\<forall>v < length ws. fold (\<lambda>w ws. snd (mailbox_enqueue w Shutdown ws)) [0..<k] ws ! v =
         (if v < k \<and> receiving (ws ! v) then (ws ! v)\<lparr>queue := queue (ws ! v) @ [Shutdown]\<rparr> else ws ! v))" for k
    by (induction k) (auto simp: enqueue_open nth_list_update less_Suc_eq)
  then show ?thesis using assms by (simp add: pool_shutdown_def)
qed

text \<open>
  What holds of a worker in a run: an open mailbox holds the jobs that were accepted and not yet
  started, in order, and every started one has returned; a mailbox is closed by a job that panicked,
  the last one that was started.
\<close>

definition worker_ok :: "('j \<Rightarrow> bool) \<Rightarrow> 'j list \<Rightarrow> 'j list \<Rightarrow> 'j WorkerMsg Mailbox \<Rightarrow> bool" where
  "worker_ok returns mine started mb \<longleftrightarrow>
     (if receiving mb then list_all returns started \<and> (\<exists>q. queue mb = map Run q \<and> mine = started @ q)
      else queue mb = [] \<and> \<not> list_all returns started \<and> started = run_until returns mine)"

definition turns_in ::
    "('j \<Rightarrow> bool) \<Rightarrow> nat \<Rightarrow> (u64 \<times> 'j) list \<Rightarrow> (u64 \<times> 'j) list \<Rightarrow> 'j TurnScheduler \<Rightarrow> (nat \<Rightarrow> 'j list) \<Rightarrow> bool" where
  "turns_in returns n js acc s started \<longleftrightarrow> sched_ok s \<and> length (pool s) = max n 1
     \<and> (\<forall>(c, job) \<in> set js. worker_of s c \<noteq> None) \<and> set acc \<subseteq> set js
     \<and> (list_all (returns \<circ> snd) js \<longrightarrow> acc = js)
     \<and> (\<forall>w < length (pool s). worker_ok returns (jobs_on s acc w) (started w) (pool s ! w))"

lemma worker_ok_started:
  assumes "worker_ok returns mine started mb"
  shows "set started \<subseteq> set mine"
proof -
  have "set (run_until returns mine) \<subseteq> set mine"
    by (auto simp: run_until_def dest: set_takeWhileD in_set_takeD set_dropWhileD)
  then show ?thesis using assms by (auto simp: worker_ok_def split: if_splits)
qed

lemma worker_ok_start: "worker_ok returns [] [] \<lparr>queue = [], receiving = True\<rparr>"
  by (simp add: worker_ok_def)

lemma worker_ok_accept:
  assumes "worker_ok returns mine started mb" "receiving mb"
  shows "worker_ok returns (mine @ [job]) started (mb\<lparr>queue := queue mb @ [Run job]\<rparr>)"
  using assms by (auto simp: worker_ok_def intro: exI [of _ "q @ [job]" for q])

lemma worker_ok_step:
  assumes "worker_ok returns mine started mb" "worker_step returns mb = Some (x, mb')"
  shows "worker_ok returns mine (started @ (case x of None \<Rightarrow> [] | Some job \<Rightarrow> [job])) mb'"
proof -
  have rec: "receiving mb" using assms by (auto simp: worker_ok_def worker_step_def split: if_splits)
  then obtain q where q: "queue mb = map Run q" "mine = started @ q" "list_all returns started" using assms(1) by (auto simp: worker_ok_def)
  then obtain job q' where "q = job # q'" using assms(2) by (cases q) (auto simp: worker_step_def)
  then show ?thesis using assms(2) q rec by (auto simp: worker_step_def worker_ok_def run_until_append)
qed

lemma assign_keeps:
  assumes "sched_ok s" "assign c s = (w, t)"
  shows "sched_ok t" "worker_of t c = Some w" "w < length (pool t)" "pool t = pool s"
    "worker_of s d \<noteq> None \<or> d \<noteq> c \<Longrightarrow> worker_of t d = worker_of s d"
proof -
  show ok: "sched_ok t" using assign_ok [OF assms(1), of c] assms(2) by simp
  have "worker_of t c = Some w \<and> pool t = pool s \<and> (worker_of s d \<noteq> None \<or> d \<noteq> c \<longrightarrow> worker_of t d = worker_of s d)"
  proof (cases "worker_of s c")
    case None
    then show ?thesis using assign_new(4,5) [OF assms(1) None assms(2)] by auto
  next
    case (Some v)
    then show ?thesis using assign_known [OF Some] assms(2) by auto
  qed
  then show "worker_of t c = Some w" "pool t = pool s"
    "worker_of s d \<noteq> None \<or> d \<noteq> c \<Longrightarrow> worker_of t d = worker_of s d" by blast+
  then show "w < length (pool t)" using ok loads_ran by (auto simp: sched_ok_def)
qed

lemma turns_in_submit:
  assumes ti: "turns_in returns n js acc s started" and sub: "submit_turn c job s = (r, s')"
  shows "turns_in returns n (js @ [(c, job)]) (if r = Inr () then acc @ [(c, job)] else acc) s' started"
    and "r = Inr () \<longleftrightarrow> list_all returns (started (fst (assign c s)))"
proof -
  obtain w t where a: "assign c s = (w, t)" by force
  have ok: "sched_ok s" and len: "length (pool s) = max n 1" using ti by (simp_all add: turns_in_def)
  note t = assign_keeps [OF ok a]
  have old: "worker_of t d = worker_of s d" if "(d, k) \<in> set js" for d k
    using t(5) ti that by (fastforce simp: turns_in_def)
  then have on: "jobs_on t acc v = jobs_on s acc v" for v
    using ti unfolding jobs_on_def turns_in_def by (auto intro!: arg_cong [of _ _ "map snd"] filter_cong)
  have on': "jobs_on t (acc @ [(c, job)]) v = (if v = w then jobs_on s acc v @ [job] else jobs_on s acc v)" for v
    using t(2) on [of v] by (auto simp: jobs_on_def)
  have w: "worker_ok returns (jobs_on s acc v) (started v) (pool t ! v)" if "v < length (pool t)" for v
    using ti t(4) that by (simp add: turns_in_def)
  have known: "\<forall>(d, k) \<in> set (js @ [(c, job)]). worker_of t d \<noteq> None"
    using ti old t(2) by (fastforce simp: turns_in_def)
  have acc: "set acc \<subseteq> set js" "list_all (returns \<circ> snd) js \<Longrightarrow> acc = js" using ti by (simp_all add: turns_in_def)
  have s': "r = (if receiving (pool t ! w) then Inr () else Inl MailboxClosedError)"
    "s' = (if receiving (pool t ! w) then t\<lparr>pool := (pool t)[w := (pool t ! w)\<lparr>queue := queue (pool t ! w) @ [Run job]\<rparr>]\<rparr> else t)"
    using sub t(3) by (auto simp: submit_turn_eq [OF a] pool_submit_def enqueue_open)
  show r: "r = Inr () \<longleftrightarrow> list_all returns (started (fst (assign c s)))"
    using w [OF t(3)] by (auto simp: s'(1) a worker_ok_def split: if_splits)
  show "turns_in returns n (js @ [(c, job)]) (if r = Inr () then acc @ [(c, job)] else acc) s' started"
  proof (cases "receiving (pool t ! w)")
    case True
    have "worker_ok returns (jobs_on s acc w @ [job]) (started w) ((pool t ! w)\<lparr>queue := queue (pool t ! w) @ [Run job]\<rparr>)"
      using worker_ok_accept [OF w [OF t(3)] True] .
    then show ?thesis
      using True t w known acc len by (auto simp: s' turns_in_def sched_ok_def on' nth_list_update)
  next
    case False
    then have "\<not> list_all returns (started w)" using w [OF t(3)] by (metis worker_ok_def)
    moreover have "set (started w) \<subseteq> set (jobs_on s acc w)" using worker_ok_started [OF w [OF t(3)]] .
    ultimately have "\<not> list_all (returns \<circ> snd) js" using acc(1) by (fastforce simp: list_all_iff jobs_on_def)
    then show ?thesis using False t w known acc len by (auto simp: s' turns_in_def on)
  qed
qed

lemma turns_run_in: "turns_run returns n js acc s started \<Longrightarrow> turns_in returns n js acc s started"
proof (induction rule: turns_run.induct)
  case run_start
  then show ?case using Scheduler_new_ok [of n]
    by (simp add: turns_in_def jobs_on_def) (simp add: Scheduler_new_def WorkerPool_new_def Let_def worker_ok_start)
next
  case (run_submit js acc s started c job r s')
  then show ?case by (intro turns_in_submit(1))
next
  case (run_worker js acc s started w x mb)
  then have "worker_ok returns (jobs_on s acc w) (started w @ (case x of None \<Rightarrow> [] | Some job \<Rightarrow> [job])) mb"
    by (intro worker_ok_step) (auto simp: turns_in_def)
  then show ?case using run_worker.IH by (auto simp: turns_in_def sched_ok_def nth_list_update)
qed

section \<open>An even spread\<close>

definition even_spread :: "'j TurnScheduler \<Rightarrow> bool" where
  "even_spread s \<longleftrightarrow> (\<forall>v < length (load s). \<forall>w < length (load s). load s ! v \<le> load s ! w + 1)"

lemma assign_even:
  assumes "sched_ok s" "even_spread s"
  shows "even_spread (snd (assign c s))"
proof (cases "worker_of s c")
  case None
  obtain w t where a: "assign c s = (w, t)" by force
  note n = assign_new [OF assms(1) None a]
  show ?thesis using assms(2) n(1,2) by (auto simp: even_spread_def a n(3) nth_list_update le_SucI)
qed (simp add: assign_known assms)

lemma assigns_even:
  fixes n defines "s \<equiv> \<lambda>cs. fold (\<lambda>c s. snd (assign c s)) cs (Scheduler_new n)"
  shows "sched_ok (s cs) \<and> even_spread (s cs)"
  unfolding s_def
proof (induction cs rule: rev_induct)
  case Nil
  then show ?case using Scheduler_new_ok [of n] by (simp, simp add: even_spread_def Scheduler_new_def Let_def)
qed (auto intro: assign_ok assign_even)

section \<open>Properties\<close>

text \<open>
  Whatever was assigned, migrated, removed and submitted, the load of every worker is
  exactly the number of compartments that live on it, every compartment lives on a worker that
  exists, and assigning a compartment answers the worker it already has, without any change, or
  puts a new one on a worker that no other undercuts.
\<close>

theorem scheduler_loads_exact:
  assumes "sched_reaches s" "assign c s = (w, t)"
  shows "(\<forall>v < length (pool s). load s ! v = card {d. worker_of s d = Some v})
    \<and> (\<forall>d v. worker_of s d = Some v \<longrightarrow> v < length (pool s))
    \<and> (case worker_of s c of
         Some v \<Rightarrow> w = v \<and> t = s
       | None \<Rightarrow> w < length (pool s) \<and> (\<forall>v < length (pool s). load s ! w \<le> load s ! v)
           \<and> worker_of t = (worker_of s)(c \<mapsto> w))"
proof -
  have ok: "sched_ok s" using sched_reaches_ok [OF assms(1)] .
  then have "\<forall>v < length (pool s). load s ! v = card {d. worker_of s d = Some v}"
    "\<forall>d v. worker_of s d = Some v \<longrightarrow> v < length (pool s)"
    using loads_ran by (auto simp: sched_ok_def loads_ok_def)
  moreover have "length (pool s) = length (load s)" using ok by (simp add: sched_ok_def)
  ultimately show ?thesis
    using assign_new [OF ok _ assms(2)] assign_known [of s c] assms(2) by (auto split: option.split)
qed

theorem scheduler_loads_exact_witness:
  "fst (assign 7 (snd (assign 5 (Scheduler_new 2 :: nat TurnScheduler)))) = 1
   \<and> card {d. worker_of (snd (assign 5 (Scheduler_new 2 :: nat TurnScheduler))) d = Some 0} = 1"
proof -
  let ?s = "snd (assign 5 (Scheduler_new 2 :: nat TurnScheduler))"
  have ev: "?s = \<lparr>pool = WorkerPool_new 2, affinity = [(5, 0)], load = [1, 0], next_worker = 1\<rparr>"
    by (simp add: Scheduler_new_def WorkerPool_new_def assign_def pick_worker_def Let_def eval_nat_numeral)
  have r: "sched_reaches ?s" by (intro sched_assign sched_start)
  obtain w t where a: "assign 7 ?s = (w, t)" by force
  have n: "length (pool ?s) = 2" by (simp add: ev WorkerPool_new_def)
  have z: "(0 :: nat) < length (pool ?s)" "1 < length (pool ?s)" by (simp_all add: n)
  have "worker_of ?s 7 = None" by (simp add: ev worker_of_def)
  then have "w < 2" "load ?s ! w \<le> load ?s ! 1" "load ?s ! 0 = card {d. worker_of ?s d = Some 0}"
    using scheduler_loads_exact [OF r a] z by (auto simp: n)
  moreover have "load ?s = [1, 0]" by (simp add: ev)
  ultimately show ?thesis using a by (auto simp: less_2_cases_iff)
qed

text \<open>
  Compartments that are only assigned spread evenly: whichever they are and however
  often each is assigned, the loads of any two workers differ by at most one.
\<close>

theorem scheduler_spreads_evenly:
  assumes "s = fold (\<lambda>c s. snd (assign c s)) cs (Scheduler_new n)" "v < length (pool s)" "w < length (pool s)"
  shows "load s ! v \<le> load s ! w + 1"
proof -
  have "sched_ok s \<and> even_spread s" unfolding assms(1) by (rule assigns_even)
  then show ?thesis using assms(2,3) by (simp add: even_spread_def sched_ok_def)
qed

theorem scheduler_spreads_evenly_witness:
  "load (fold (\<lambda>c s. snd (assign c s)) [1, 2, 3] (Scheduler_new 2 :: nat TurnScheduler)) ! 0 \<le>
   load (fold (\<lambda>c s. snd (assign c s)) [1, 2, 3] (Scheduler_new 2 :: nat TurnScheduler)) ! 1 + 1"
  by (rule scheduler_spreads_evenly [OF refl])
    (simp_all add: Scheduler_new_def WorkerPool_new_def assign_def pick_worker_def Let_def eval_nat_numeral)

text \<open>
  Property C33: what becomes of the turns submitted to a fresh scheduler while its threads work, in
  any interleaving, and of what is queued when it is shut down; jobs end with a return or a panic,
  which nothing catches. Every worker runs the accepted jobs of the compartments that live on it,
  each once and in the order of submission, up to and including the first that panics. A turn is
  refused exactly when a job on its worker has panicked before. So as long as every job returns,
  every turn is accepted and run; one that panics takes the turns that are queued behind it with it,
  of other compartments too, and every later turn on that worker is refused.
\<close>

theorem turns_run_in_order:
  assumes "turns_run returns n js acc s started"
  shows "length (pool s) = max n 1 \<and> (\<forall>(c, job) \<in> set js. worker_of s c \<noteq> None)
    \<and> (\<forall>w < length (pool s). started w @ worker_loop returns (queue (pool_shutdown (pool s) ! w)) = run_until returns (jobs_on s acc w))
    \<and> (fst (submit_turn c job s) = Inr () \<longleftrightarrow> list_all returns (started (fst (assign c s))))
    \<and> (list_all (returns \<circ> snd) js \<longrightarrow> acc = js
        \<and> (\<forall>w < length (pool s). started w @ worker_loop returns (queue (pool_shutdown (pool s) ! w)) = jobs_on s js w))"
proof -
  have ti: "turns_in returns n js acc s started" using turns_run_in [OF assms] .
  have started: "started w @ worker_loop returns (queue (pool_shutdown (pool s) ! w)) = run_until returns (jobs_on s acc w)"
    if "w < length (pool s)" for w
  proof -
    have "worker_ok returns (jobs_on s acc w) (started w) (pool s ! w)" using ti that by (simp add: turns_in_def)
    then show ?thesis by (auto simp: pool_shutdown_nth [OF that] worker_ok_def run_until_append split: if_splits)
  qed
  have "run_until returns (jobs_on s js w) = jobs_on s js w" if "list_all (returns \<circ> snd) js" for w
  proof -
    have "list_all returns (jobs_on s js w)" using that by (auto simp: list_all_iff jobs_on_def)
    then show ?thesis using run_until_append [of returns "jobs_on s js w" "[]"] by simp
  qed
  moreover have "fst (submit_turn c job s) = Inr () \<longleftrightarrow> list_all returns (started (fst (assign c s)))"
    using turns_in_submit(2) [OF ti] by (metis prod.collapse)
  ultimately show ?thesis using ti started by (auto simp: turns_in_def)
qed

text \<open>On one worker: the first turn panics, the second is lost and the third is refused.\<close>

theorem turns_run_in_order_witness:
  "\<exists>s started. turns_run (\<lambda>j. j \<noteq> 20) 1 [(1, 20), (2, 30)] [(1, 20), (2, 30 :: nat)] s started
    \<and> started 0 @ worker_loop (\<lambda>j. j \<noteq> 20) (queue (pool_shutdown (pool s) ! 0)) = [20]
    \<and> fst (submit_turn 1 40 s) \<noteq> Inr ()"
proof -
  let ?ret = "\<lambda>j :: nat. j \<noteq> 20" and ?started = "(\<lambda>_. [])(0 := [] @ (case Some 20 of None \<Rightarrow> [] | Some job \<Rightarrow> [job])) :: nat \<Rightarrow> nat list"
  let ?s = "\<lambda>mb. \<lparr>pool = [mb], affinity = [(1, 0), (2, 0)], load = [Suc (Suc 0)], next_worker = 0\<rparr> :: nat TurnScheduler"
  let ?mb = "\<lparr>queue = [], receiving = False\<rparr> :: nat WorkerMsg Mailbox"
  note ev = submit_turn_def Scheduler_new_def WorkerPool_new_def assign_def pick_worker_def pool_submit_def mailbox_enqueue_def at_def
  have 1: "turns_run ?ret 1 ([] @ [(1, 20)]) (if Inr () = (Inr () :: MailboxClosedError + unit) then [] @ [(1, 20)] else [])
      (snd (submit_turn 1 20 (Scheduler_new 1))) (\<lambda>_. [])"
    by (rule run_submit [OF run_start]) (simp add: ev)
  have 2: "turns_run ?ret 1 (([] @ [(1, 20)]) @ [(2, 30)]) (if Inr () = (Inr () :: MailboxClosedError + unit)
      then (if Inr () = (Inr () :: MailboxClosedError + unit) then [] @ [(1, 20)] else []) @ [(2, 30)] else [])
      (?s \<lparr>queue = [Run 20, Run 30], receiving = True\<rparr>) (\<lambda>_. [])"
    using run_submit [OF 1, of 2 30 "Inr ()"] by (simp add: ev)
  have 3: "turns_run ?ret 1 [(1, 20), (2, 30)] [(1, 20), (2, 30)] (?s ?mb) ?started"
    using run_worker [OF 2, of 0 "Some 20" ?mb] by (simp add: worker_step_def)
  have len: "0 < length (pool (?s ?mb))" by simp
  have "jobs_on (?s ?mb) [(1, 20), (2, 30)] 0 = [20, 30]" "fst (assign 1 (?s ?mb)) = 0"
    by (simp_all add: jobs_on_def worker_of_def assign_def)
  then show ?thesis using turns_run_in_order [OF 3, of 1 40] 3 len by (intro exI [of _ "?s ?mb"] exI [of _ ?started]) auto
qed

end
