(* ===== verification/Websocket.thy ===== *)
theory Websocket
  imports Hpack Http2_Codec
begin

unbundle bit_operations_syntax

text \<open>
  The WebSocket codec \<open>crates/websocket/src/lib.rs\<close>: frames with their three forms of length and
  their mask, the limits, the reassembly of fragmented messages and close payloads (the opening
  handshake is in \<open>Websocket_Handshake\<close>). A mask \<open>[u8; 4]\<close> is a quadruple. Lengths are naturals: the
  decoder refuses lengths of \<open>2 ^ 63\<close> and more and a vector has fewer than \<open>2 ^ 63\<close> bytes, so that no
  sum of the source overflows and the \<open>checked_add\<close> of the reassembler always succeeds.
\<close>

section \<open>Frames\<close>

datatype Opcode = Continuation | Text | Binary | Close | Ping | Pong

definition Opcode_from_u8 :: "u8 \<Rightarrow> Opcode option" where
  "Opcode_from_u8 b =
     (let x = b AND 0x0F in
      if x = 0x0 then Some Continuation else if x = 0x1 then Some Text else if x = 0x2 then Some Binary
      else if x = 0x8 then Some Close else if x = 0x9 then Some Ping else if x = 0xA then Some Pong
      else None)"

fun Opcode_as_u8 :: "Opcode \<Rightarrow> u8" where
  "Opcode_as_u8 Continuation = 0x0"
| "Opcode_as_u8 Text = 0x1"
| "Opcode_as_u8 Binary = 0x2"
| "Opcode_as_u8 Close = 0x8"
| "Opcode_as_u8 Ping = 0x9"
| "Opcode_as_u8 Pong = 0xA"

fun is_control :: "Opcode \<Rightarrow> bool" where
  "is_control Close = True"
| "is_control Ping = True"
| "is_control Pong = True"
| "is_control _ = False"

type_synonym Mask = "u8 \<times> u8 \<times> u8 \<times> u8"

record WsFrame =
  fin :: bool
  opcode :: Opcode
  ws_payload :: bytes \<comment> \<open>\<open>payload\<close>\<close>
  ws_mask :: "Mask option" \<comment> \<open>\<open>mask\<close>\<close>

record Message =
  msg_opcode :: Opcode
  msg_payload :: bytes

record FrameLimits =
  max_frame_payload :: nat
  max_message_payload :: nat

definition FrameLimits_default :: FrameLimits where
  "FrameLimits_default = \<lparr>max_frame_payload = 16 * 1024 * 1024, max_message_payload = 64 * 1024 * 1024\<rparr>"

datatype WsError =
  UnexpectedEnd | InvalidOpcode u8 | ControlTooLong | ControlFragmented | ReservedBitsSet
  | PayloadTooLong | MessageTooLong | UnexpectedContinuation | FragmentAlreadyStarted
  | InvalidTextUtf8 | InvalidClosePayload | InvalidCloseCode u16 | InvalidHandshakeKey
  | UnsupportedWebSocketVersion | OriginRejected | UnmaskedClientFrame | MaskedServerFrame
  | Crypto str

section \<open>Masks\<close>

definition mask_at :: "Mask \<Rightarrow> nat \<Rightarrow> u8" where
  "mask_at m i = (case m of (a, b, c, d) \<Rightarrow> [a, b, c, d] ! (i mod 4))"

text \<open>The bytes of the mask in a frame.\<close>

definition mask_part :: "Mask option \<Rightarrow> bytes" where
  "mask_part mk = (case mk of Some (a, b, c, d) \<Rightarrow> [a, b, c, d] | None \<Rightarrow> [])"

definition apply_mask :: "Mask option \<Rightarrow> bytes \<Rightarrow> bytes" where
  "apply_mask mk p =
     (case mk of None \<Rightarrow> p | Some m \<Rightarrow> map (\<lambda>(i, b). b XOR mask_at m i) (enumerate 0 p))"

section \<open>Encoding\<close>

definition length_bytes :: "u8 \<Rightarrow> nat \<Rightarrow> WsError + bytes" where
  "length_bytes mask_bit len =
     (if len \<le> 125 then Inr [mask_bit OR of_nat len]
      else if len \<le> 0xFFFF
      then Inr [mask_bit OR 126, ucast (drop_bit 8 (of_nat len :: u64)), ucast ((of_nat len :: u64) AND 0xFF)]
      else if len \<le> 0x7FFFFFFFFFFFFFFF
      then Inr ((mask_bit OR 127)
             # map (\<lambda>shift. ucast (drop_bit (8 * shift) (of_nat len :: u64) AND 0xFF)) (rev [0..<8]))
      else Inl PayloadTooLong)"

definition Ws_encode_frame :: "WsFrame \<Rightarrow> WsError + bytes" where
  "Ws_encode_frame frame =
     (if is_control (opcode frame) \<and> 125 < length (ws_payload frame) then Inl ControlTooLong
      else if is_control (opcode frame) \<and> \<not> fin frame then Inl ControlFragmented
      else
        let b0 = (if fin frame then 0x80 else 0x00) OR Opcode_as_u8 (opcode frame);
            mask_bit = (if ws_mask frame \<noteq> None then 0x80 else 0x00) in
        rbind (length_bytes mask_bit (length (ws_payload frame))) (\<lambda>lb.
          Inr (b0 # lb @ mask_part (ws_mask frame) @ apply_mask (ws_mask frame) (ws_payload frame))))"

definition encode_client_frame :: "WsFrame \<Rightarrow> WsError + bytes" where
  "encode_client_frame frame =
     (if ws_mask frame = None then Inl UnmaskedClientFrame else Ws_encode_frame frame)"

definition encode_server_frame :: "WsFrame \<Rightarrow> WsError + bytes" where
  "encode_server_frame frame =
     (if ws_mask frame \<noteq> None then Inl MaskedServerFrame else Ws_encode_frame frame)"

section \<open>Decoding\<close>

text \<open>The length of the payload, and the offset behind the length.\<close>

definition read_length :: "bytes \<Rightarrow> u8 \<Rightarrow> WsError + (nat \<times> nat)" where
  "read_length buf len7 =
     (if len7 \<le> 125 then Inr (unat len7, 2)
      else if len7 = 126
      then (if length buf < 4 then Inl UnexpectedEnd
            else Inr (unat (push_bit 8 (ucast (buf ! 2)) OR ucast (buf ! 3) :: u64), 4))
      else if length buf < 10 then Inl UnexpectedEnd
      else let l = fold (\<lambda>i l. push_bit 8 l OR ucast (buf ! (2 + i))) [0..<8] (0 :: u64) in
           if l > 0x7FFFFFFFFFFFFFFF then Inl PayloadTooLong else Inr (unat l, 10))"

definition read_mask :: "bytes \<Rightarrow> bool \<Rightarrow> nat \<Rightarrow> WsError + (Mask option \<times> nat)" where
  "read_mask buf masked pos =
     (if masked
      then if length buf < pos + 4 then Inl UnexpectedEnd
           else Inr (Some (buf ! pos, buf ! (pos + 1), buf ! (pos + 2), buf ! (pos + 3)), pos + 4)
      else Inr (None, pos))"

definition decode_frame_with_limits :: "bytes \<Rightarrow> FrameLimits \<Rightarrow> WsError + (WsFrame \<times> nat)" where
  "decode_frame_with_limits buf limits =
     (if length buf < 2 then Inl UnexpectedEnd
      else
        let b0 = buf ! 0; f = (b0 AND 0x80 \<noteq> 0) in
        if b0 AND 0x70 \<noteq> 0 then Inl ReservedBitsSet
        else rbind (ok_or (InvalidOpcode (b0 AND 0x0F)) (Opcode_from_u8 (b0 AND 0x0F))) (\<lambda>op.
          if is_control op \<and> \<not> f then Inl ControlFragmented
          else
            let b1 = buf ! 1; masked = (b1 AND 0x80 \<noteq> 0); len7 = b1 AND 0x7F in
            rbind (read_length buf len7) (\<lambda>(payload_len, pos).
              if payload_len > max_frame_payload limits then Inl PayloadTooLong
              else if is_control op \<and> payload_len > 125 then Inl ControlTooLong
              else rbind (read_mask buf masked pos) (\<lambda>(m, pos).
                if length buf < pos + payload_len then Inl UnexpectedEnd
                else Inr (\<lparr>fin = f, opcode = op,
                           ws_payload = apply_mask m (take payload_len (drop pos buf)), ws_mask = m\<rparr>,
                          pos + payload_len)))))"

definition Ws_decode_frame :: "bytes \<Rightarrow> WsError + (WsFrame \<times> nat)" where
  "Ws_decode_frame buf =
     decode_frame_with_limits buf \<lparr>max_frame_payload = 2 ^ 64 - 1, max_message_payload = 2 ^ 64 - 1\<rparr>"

definition decode_server_frame_with_limits :: "bytes \<Rightarrow> FrameLimits \<Rightarrow> WsError + (WsFrame \<times> nat)" where
  "decode_server_frame_with_limits buf limits =
     rbind (decode_frame_with_limits buf limits) (\<lambda>(frame, used).
       if ws_mask frame = None then Inl UnmaskedClientFrame else Inr (frame, used))"

definition decode_server_frame :: "bytes \<Rightarrow> WsError + (WsFrame \<times> nat)" where
  "decode_server_frame buf = decode_server_frame_with_limits buf FrameLimits_default"

definition decode_client_frame_with_limits :: "bytes \<Rightarrow> FrameLimits \<Rightarrow> WsError + (WsFrame \<times> nat)" where
  "decode_client_frame_with_limits buf limits =
     rbind (decode_frame_with_limits buf limits) (\<lambda>(frame, used).
       if ws_mask frame \<noteq> None then Inl MaskedServerFrame else Inr (frame, used))"

definition decode_client_frame :: "bytes \<Rightarrow> WsError + (WsFrame \<times> nat)" where
  "decode_client_frame buf = decode_client_frame_with_limits buf FrameLimits_default"

section \<open>Messages\<close>

record MessageReassembler =
  limits :: FrameLimits
  current_opcode :: "Opcode option"
  partial_payload :: bytes \<comment> \<open>\<open>payload\<close>\<close>

definition MessageReassembler_new :: "FrameLimits \<Rightarrow> MessageReassembler" where
  "MessageReassembler_new l = \<lparr>limits = l, current_opcode = None, partial_payload = []\<rparr>"

definition validate_message_payload :: "Opcode \<Rightarrow> bytes \<Rightarrow> WsError + unit" where
  "validate_message_payload op p =
     (if op = Text \<and> from_utf8 p = None then Inl InvalidTextUtf8 else Inr ())"

text \<open>A frame changes the reassembler also when it is refused.\<close>

definition push_frame ::
    "WsFrame \<Rightarrow> MessageReassembler \<Rightarrow> (WsError + Message option) \<times> MessageReassembler" where
  "push_frame frame r =
     (if is_control (opcode frame)
      then (Inr (Some \<lparr>msg_opcode = opcode frame, msg_payload = ws_payload frame\<rparr>), r)
      else if opcode frame \<noteq> Continuation
      then
        (if current_opcode r \<noteq> None then (Inl FragmentAlreadyStarted, r)
         else if length (ws_payload frame) > max_message_payload (limits r) then (Inl MessageTooLong, r)
         else if fin frame
         then (rbind (validate_message_payload (opcode frame) (ws_payload frame)) (\<lambda>_.
                 Inr (Some \<lparr>msg_opcode = opcode frame, msg_payload = ws_payload frame\<rparr>)), r)
         else (Inr None, r\<lparr>current_opcode := Some (opcode frame), partial_payload := ws_payload frame\<rparr>))
      else
        (case current_opcode r of
           None \<Rightarrow> (Inl UnexpectedContinuation, r)
         | Some op \<Rightarrow>
             let next_len = length (partial_payload r) + length (ws_payload frame) in
             if next_len > max_message_payload (limits r)
             then (Inl MessageTooLong, r\<lparr>current_opcode := None, partial_payload := []\<rparr>)
             else
               let p = partial_payload r @ ws_payload frame in
               if fin frame
               then (rbind (validate_message_payload op p) (\<lambda>_. Inr (Some \<lparr>msg_opcode = op, msg_payload = p\<rparr>)),
                     r\<lparr>current_opcode := None, partial_payload := []\<rparr>)
               else (Inr None, r\<lparr>partial_payload := p\<rparr>)))"

section \<open>Close frames\<close>

record CloseFrame =
  close_code :: "u16 option" \<comment> \<open>\<open>code\<close>\<close>
  close_reason :: str \<comment> \<open>\<open>reason\<close>\<close>

definition encode_close :: "u16 option \<Rightarrow> str \<Rightarrow> bytes" where
  "encode_close code reason =
     (case code of
        Some c \<Rightarrow> ucast (drop_bit 8 c) # ucast (c AND 0xFF) # as_bytes reason
      | None \<Rightarrow> [])"

definition validate_close_code :: "u16 \<Rightarrow> WsError + unit" where
  "validate_close_code code =
     (if 1000 \<le> code \<and> code \<le> 1003 \<or> 1007 \<le> code \<and> code \<le> 1014 \<or> 3000 \<le> code \<and> code \<le> 4999 then Inr ()
      else Inl (InvalidCloseCode code))"

definition decode_close :: "bytes \<Rightarrow> WsError + CloseFrame" where
  "decode_close p =
     (if p = [] then Inr \<lparr>close_code = None, close_reason = []\<rparr>
      else if length p < 2 then Inl InvalidClosePayload
      else
        let code = push_bit 8 (ucast (p ! 0)) OR ucast (p ! 1) in
        rbind (validate_close_code code) (\<lambda>_.
          rbind (ok_or InvalidClosePayload (from_utf8 (drop 2 p))) (\<lambda>reason.
            Inr \<lparr>close_code = Some code, close_reason = reason\<rparr>)))"

end
