(* ===== verification/Websocket_Props.thy ===== *)
theory Websocket_Props
  imports Websocket
begin

unbundle bit_operations_syntax

text \<open>
  What the WebSocket codec promises: frames read back as they were written, whatever follows them
  and wherever the stream is cut, and a reassembler that is bounded and independent of how a
  message was fragmented.
\<close>

section \<open>Bytes of the header\<close>

lemma first_byte:
  fixes f op defines "b0 \<equiv> (if f then 0x80 else 0x00) OR Opcode_as_u8 op"
  shows "b0 AND 0x80 \<noteq> 0 \<longleftrightarrow> f" "b0 AND 0x70 = 0" "Opcode_from_u8 (b0 AND 0x0F) = Some op"
  unfolding b0_def by (cases op; cases f; simp add: Opcode_from_u8_def)+

lemma second_byte:
  assumes "n \<le> 127"
  shows "(of_nat n :: u8) AND 0x80 = 0 \<and> (of_nat n :: u8) AND 0x7F = of_nat n
    \<and> (0x80 OR (of_nat n :: u8)) AND 0x80 = 0x80 \<and> (0x80 OR (of_nat n :: u8)) AND 0x7F = of_nat n
    \<and> unat (of_nat n :: u8) = n"
proof -
  have "list_all (\<lambda>n. (of_nat n :: u8) AND 0x80 = 0 \<and> (of_nat n :: u8) AND 0x7F = of_nat n
    \<and> (0x80 OR (of_nat n :: u8)) AND 0x80 = 0x80 \<and> (0x80 OR (of_nat n :: u8)) AND 0x7F = of_nat n
    \<and> unat (of_nat n :: u8) = n) [0..<128]" by code_simp
  then show ?thesis using assms by (simp add: list_all_iff)
qed

text \<open>The big-endian bytes of a length give it back.\<close>

lemma low_byte: "ucast (ucast ((w :: u64) AND 0xFF) :: u8) = take_bit 8 w" "ucast (ucast w :: u8) = take_bit 8 w"
proof -
  have "(0xFF :: u64) = mask 8" by (simp add: mask_eq_exp_minus_1)
  then have "w AND 0xFF = take_bit 8 w" by (simp add: take_bit_eq_mask)
  then show "ucast (ucast (w AND 0xFF) :: u8) = take_bit 8 w" by (auto intro!: bit_word_eqI simp: bit_simps)
  show "ucast (ucast w :: u8) = take_bit 8 w" by (auto intro!: bit_word_eqI simp: bit_simps)
qed

lemma shift_in_byte:
  fixes w :: u64
  shows "push_bit k (push_bit 8 a OR take_bit 8 (drop_bit k w)) OR take_bit k w = push_bit (k + 8) a OR take_bit (k + 8) w"
  by (rule bit_word_eqI) (auto simp: bit_simps)

lemma be_bytes:
  fixes w :: u64
  shows "fold (\<lambda>b l. push_bit 8 l OR ucast b) (map (\<lambda>s. ucast (drop_bit (8 * s) w AND 0xFF) :: u8) (rev [0..<k])) a
    = push_bit (8 * k) a OR take_bit (8 * k) w"
proof (induction k arbitrary: a)
  case (Suc k)
  let ?f = "\<lambda>(b :: u8) l. push_bit 8 l OR ucast b" and ?g = "\<lambda>s. ucast (drop_bit (8 * s) w AND 0xFF) :: u8"
  have "rev [0..<Suc k] = k # rev [0..<k]" by simp
  then have "fold ?f (map ?g (rev [0..<Suc k])) a = fold ?f (map ?g (rev [0..<k])) (?f (?g k) a)"
    by (simp only: list.map fold_simps)
  also have "\<dots> = push_bit (8 * k) (push_bit 8 a OR take_bit 8 (drop_bit (8 * k) w)) OR take_bit (8 * k) w"
    by (simp only: Suc low_byte(1))
  also have "\<dots> = push_bit (8 * Suc k) a OR take_bit (8 * Suc k) w"
    using shift_in_byte [of "8 * k" a w] by (simp only: mult_Suc_right add.commute)
  finally show ?case .
qed simp

lemma two_bytes:
  fixes w :: u64
  assumes "unat w < 2 ^ 16"
  shows "push_bit 8 (ucast (ucast (drop_bit 8 w) :: u8)) OR ucast (ucast (w AND 0xFF) :: u8) = w"
  using shift_in_byte [of 8 0 w] take_bit_self [OF assms] unfolding low_byte(1) unfolding low_byte(2) by simp

section \<open>Reading what was written\<close>

lemma mask_mask: "apply_mask m (apply_mask m p) = p"
  by (auto simp: apply_mask_def enumerate_eq_zip xor.assoc intro!: nth_equalityI split: option.split)

lemma apply_mask_length [simp]: "length (apply_mask m p) = length p"
  by (simp add: apply_mask_def split: option.split)

lemma short_length_read:
  assumes "len \<le> 125" "mb = 0 \<or> mb = 0x80"
  shows "(mb OR of_nat len :: u8) AND 0x80 = mb" "read_length buf ((mb OR of_nat len) AND 0x7F) = Inr (len, 2)"
  using assms second_byte [of len] by (auto simp: read_length_def word_le_nat_alt)

lemma medium_length_read:
  assumes "len \<le> 0xFFFF" "mb = 0 \<or> mb = 0x80"
    and buf: "4 \<le> length buf \<Longrightarrow> buf ! 2 = ucast (drop_bit 8 (of_nat len :: u64)) \<and> buf ! 3 = ucast ((of_nat len :: u64) AND 0xFF)"
  shows "(mb OR 126 :: u8) AND 0x80 = mb"
    "read_length buf ((mb OR 126) AND 0x7F) = (if length buf < 4 then Inl UnexpectedEnd else Inr (len, 4))"
proof -
  have "unat (of_nat len :: u64) = len" using assms(1) by (simp add: unat_of_nat)
  then show "read_length buf ((mb OR 126) AND 0x7F) = (if length buf < 4 then Inl UnexpectedEnd else Inr (len, 4))"
    using assms(1,2) buf two_bytes [of "of_nat len"] by (auto simp: read_length_def)
  show "(mb OR 126 :: u8) AND 0x80 = mb" using assms(2) by auto
qed

lemma long_length_read:
  assumes "len \<le> 0x7FFFFFFFFFFFFFFF" "mb = 0 \<or> mb = 0x80"
    and buf: "10 \<le> length buf \<Longrightarrow>
      take 8 (drop 2 buf) = map (\<lambda>s. ucast (drop_bit (8 * s) (of_nat len :: u64) AND 0xFF)) (rev [0..<8])"
  shows "(mb OR 127 :: u8) AND 0x80 = mb"
    "read_length buf ((mb OR 127) AND 0x7F) = (if length buf < 10 then Inl UnexpectedEnd else Inr (len, 10))"
proof -
  have w: "unat (of_nat len :: u64) = len" using assms(1) by (simp add: unat_of_nat)
  have "fold (\<lambda>i l. push_bit 8 l OR ucast (buf ! (2 + i))) [0..<8] (0 :: u64) = of_nat len" if "10 \<le> length buf"
  proof -
    have "map (\<lambda>i. buf ! (2 + i)) [0..<8] = take 8 (drop 2 buf)"
      using that by (intro nth_equalityI) (auto simp: add.commute)
    then have "fold (\<lambda>i l. push_bit 8 l OR ucast (buf ! (2 + i))) [0..<8] (0 :: u64)
        = fold (\<lambda>b l. push_bit 8 l OR ucast b) (take 8 (drop 2 buf)) 0"
      by (simp only: fold_map comp_def flip: \<open>map (\<lambda>i. buf ! (2 + i)) [0..<8] = take 8 (drop 2 buf)\<close>)
    also have "\<dots> = push_bit 64 0 OR take_bit 64 (of_nat len)"
      unfolding buf [OF that] using be_bytes [of "of_nat len" 8 0] by simp
    finally show ?thesis by (simp add: take_bit_word_eq_self)
  qed
  moreover have "\<not> (of_nat len :: u64) > 0x7FFFFFFFFFFFFFFF" using assms(1) w by (simp add: word_less_nat_alt)
  ultimately show "read_length buf ((mb OR 127) AND 0x7F) = (if length buf < 10 then Inl UnexpectedEnd else Inr (len, 10))"
    using assms(2) w by (auto simp: read_length_def Let_def)
  show "(mb OR 127 :: u8) AND 0x80 = mb" using assms(2) by auto
qed

lemma length_bytes_read:
  assumes lb: "length_bytes mb len = Inr lb" and mb: "mb = 0 \<or> mb = 0x80" and k: "2 \<le> length buf"
    and buf: "buf = take k (b0 # lb @ ys)"
  shows "buf ! 1 AND 0x80 = mb"
    "read_length buf (buf ! 1 AND 0x7F) = (if length buf < 1 + length lb then Inl UnexpectedEnd else Inr (len, 1 + length lb))"
proof -
  have nth: "i < length buf \<Longrightarrow> buf ! i = (b0 # lb @ ys) ! i" for i using buf by simp
  consider "len \<le> 125" "lb = [mb OR of_nat len]"
    | "125 < len" "len \<le> 0xFFFF"
      "lb = [mb OR 126, ucast (drop_bit 8 (of_nat len :: u64)), ucast ((of_nat len :: u64) AND 0xFF)]"
    | "0xFFFF < len" "len \<le> 0x7FFFFFFFFFFFFFFF"
      "lb = (mb OR 127) # map (\<lambda>s. ucast (drop_bit (8 * s) (of_nat len :: u64) AND 0xFF)) (rev [0..<8])"
    using lb by (auto simp: length_bytes_def simp del: upt_rec_numeral split: if_splits)
  then have "buf ! 1 AND 0x80 = mb \<and>
    read_length buf (buf ! 1 AND 0x7F) = (if length buf < 1 + length lb then Inl UnexpectedEnd else Inr (len, 1 + length lb))"
  proof cases
    case 1
    then show ?thesis using short_length_read [OF 1(1) mb] nth [of 1] k by simp
  next
    case 2
    have "4 \<le> length buf \<Longrightarrow> buf ! 2 = ucast (drop_bit 8 (of_nat len :: u64)) \<and> buf ! 3 = ucast ((of_nat len :: u64) AND 0xFF)"
      using nth [of 2] nth [of 3] 2(3) by (simp add: numeral_3_eq_3)
    then show ?thesis using medium_length_read [OF 2(2) mb, of buf] nth [of 1] k 2(3) by simp
  next
    case 3
    have "10 \<le> length buf \<Longrightarrow>
      take 8 (drop 2 buf) = map (\<lambda>s. ucast (drop_bit (8 * s) (of_nat len :: u64) AND 0xFF)) (rev [0..<8])"
      using buf 3(3) by (auto simp: drop_take drop_Cons' min_def simp del: upt_rec_numeral split: if_splits)
    then show ?thesis using long_length_read [OF 3(2) mb, of buf] nth [of 1] k 3(3) by (simp del: upt_rec_numeral)
  qed
  then show "buf ! 1 AND 0x80 = mb"
    "read_length buf (buf ! 1 AND 0x7F) = (if length buf < 1 + length lb then Inl UnexpectedEnd else Inr (len, 1 + length lb))"
    by blast+
qed

lemma mask_part_read:
  assumes "buf = take k (xs @ mask_part m @ ys)" "length xs \<le> length buf"
  shows "read_mask buf (m \<noteq> None) (length xs) =
    (if length buf < length xs + length (mask_part m) then Inl UnexpectedEnd
     else Inr (m, length xs + length (mask_part m)))"
proof (cases m)
  case (Some q)
  obtain a b c d where "q = (a, b, c, d)" by (cases q)
  then show ?thesis using Some assms by (auto simp: read_mask_def mask_part_def nth_append min_def split: if_splits)
qed (use assms in \<open>auto simp: read_mask_def mask_part_def\<close>)

text \<open>
  What the decoder makes of the beginning of a stream that starts with an encoded frame: the
  frame, or the request for more bytes.
\<close>

lemma decode_stream_prefix:
  assumes enc: "Ws_encode_frame f = Inr bs" and fits: "length (ws_payload f) \<le> max_frame_payload l"
  shows "decode_frame_with_limits (take k (bs @ rest)) l =
    (if length (take k (bs @ rest)) < length bs then Inl UnexpectedEnd else Inr (f, length bs))"
proof -
  let ?p = "ws_payload f" and ?buf = "take k (bs @ rest)"
  let ?mb = "if ws_mask f \<noteq> None then 0x80 else 0x00 :: u8" and ?m = "mask_part (ws_mask f)"
  let ?b0 = "(if fin f then 0x80 else 0x00) OR Opcode_as_u8 (opcode f)"
  obtain lb where lb: "length_bytes ?mb (length ?p) = Inr lb" and ctl: "is_control (opcode f) \<longrightarrow> length ?p \<le> 125 \<and> fin f"
    and bs: "bs = ?b0 # lb @ ?m @ apply_mask (ws_mask f) ?p"
    using enc by (auto simp: Ws_encode_frame_def rbind_Inr_iff Let_def split: if_splits)
  have ne: "lb \<noteq> []" using lb by (auto simp: length_bytes_def split: if_splits)
  show ?thesis
  proof (cases "length ?buf < 2")
    case True
    then show ?thesis using bs ne by (auto simp: decode_frame_with_limits_def neq_Nil_conv)
  next
    case False
    have b0: "?buf ! 0 = ?b0" using False bs by (simp add: min_def split: if_splits)
    have buf: "?buf = take k (?b0 # lb @ (?m @ apply_mask (ws_mask f) ?p @ rest))" using bs by simp
    have mb: "?mb = 0 \<or> ?mb = 0x80" by simp
    note len = length_bytes_read [OF lb mb _ buf]
    have lbs: "length bs = 1 + length lb + length ?m + length ?p" by (simp add: bs)
    have masked: "?buf ! 1 AND 0x80 \<noteq> 0 \<longleftrightarrow> ws_mask f \<noteq> None" using len(1) False by (simp split: if_splits)
    have rm: "read_mask ?buf (ws_mask f \<noteq> None) (1 + length lb) =
        (if length ?buf < 1 + length lb + length ?m then Inl UnexpectedEnd else Inr (ws_mask f, 1 + length lb + length ?m))"
      if "1 + length lb \<le> length ?buf"
    proof -
      have l: "length (?b0 # lb) = 1 + length lb" by simp
      have "?buf = take k ((?b0 # lb) @ ?m @ (apply_mask (ws_mask f) ?p @ rest))" by (simp add: bs)
      from mask_part_read [OF this, unfolded l, OF that] show ?thesis .
    qed
    have pl: "take (length ?p) (drop (1 + length lb + length ?m) ?buf) = apply_mask (ws_mask f) ?p"
      if "length bs \<le> length ?buf" using that lbs by (simp add: bs drop_take)
    have rl: "read_length ?buf (?buf ! 1 AND 0x7F) =
        (if length ?buf < 1 + length lb then Inl UnexpectedEnd else Inr (length ?p, 1 + length lb))"
      using len(2) False by simp
    have fr: "f = \<lparr>fin = fin f, opcode = opcode f, ws_payload = ?p, ws_mask = ws_mask f\<rparr>" by simp
    show ?thesis
      unfolding decode_frame_with_limits_def b0 Let_def masked rl
      using False fits ctl first_byte [of "fin f" "opcode f"] rm pl lbs fr
      by (cases "length ?buf < 1 + length lb"; cases "length ?buf < 1 + length lb + length ?m"; cases "length ?buf < length bs")
        (simp_all add: mask_mask not_less del: length_take)
  qed
qed

text \<open>A frame as the stream sees it; every frame that can be encoded within the limits is valid.\<close>

definition frame_bytes :: "WsFrame \<Rightarrow> bytes" where
  "frame_bytes f = (case Ws_encode_frame f of Inr bs \<Rightarrow> bs | Inl e \<Rightarrow> [])"

definition sendable :: "FrameLimits \<Rightarrow> WsFrame \<Rightarrow> bool" where
  "sendable l f \<longleftrightarrow> (\<exists>bs. Ws_encode_frame f = Inr bs) \<and> length (ws_payload f) \<le> max_frame_payload l"

interpretation ws: framed frame_bytes "\<lambda>buf. ok_opt (decode_frame_with_limits buf l)" "\<lambda>f. f" "sendable l" for l
proof
  show "ok_opt (decode_frame_with_limits (frame_bytes m @ rest) l) = Some (m, length (frame_bytes m))"
    if "sendable l m" for m rest
    using that decode_stream_prefix [of m "frame_bytes m" l "length (frame_bytes m @ rest)" rest]
    by (auto simp: sendable_def frame_bytes_def)
  show "ok_opt (decode_frame_with_limits (take k (frame_bytes m)) l) = None"
    if "sendable l m" "k < length (frame_bytes m)" for m k
    using that decode_stream_prefix [of m "frame_bytes m" l k "[]"] by (auto simp: sendable_def frame_bytes_def)
qed

section \<open>Reassembly\<close>

text \<open>
  Reading frames until one is refused: the messages delivered, the error that ended it, and the
  reassembler.
\<close>

fun push_frames :: "WsFrame list \<Rightarrow> MessageReassembler \<Rightarrow> Message list \<times> WsError option \<times> MessageReassembler" where
  "push_frames [] r = ([], None, r)"
| "push_frames (f # fs) r =
     (case push_frame f r of
        (Inl e, r) \<Rightarrow> ([], Some e, r)
      | (Inr m, r) \<Rightarrow>
          (let (ms, e, r) = push_frames fs r in (case m of Some m \<Rightarrow> m # ms | None \<Rightarrow> ms, e, r)))"

definition reassembler_ok :: "MessageReassembler \<Rightarrow> bool" where
  "reassembler_ok r \<longleftrightarrow>
     (current_opcode r = None \<longrightarrow> partial_payload r = [])
     \<and> (\<forall>op. current_opcode r = Some op \<longrightarrow> op = Text \<or> op = Binary)
     \<and> length (partial_payload r) \<le> max_message_payload (limits r)"

definition message_ok :: "FrameLimits \<Rightarrow> Message \<Rightarrow> bool" where
  "message_ok l m \<longleftrightarrow> is_control (msg_opcode m)
     \<or> (msg_opcode m = Text \<and> from_utf8 (msg_payload m) \<noteq> None \<or> msg_opcode m = Binary)
       \<and> length (msg_payload m) \<le> max_message_payload l"

lemma opcode_split: "\<not> is_control op \<Longrightarrow> op \<noteq> Continuation \<Longrightarrow> op = Text \<or> op = Binary"
  by (cases op) auto

lemma push_frame_ok:
  assumes "reassembler_ok r" "push_frame f r = (res, r')"
  shows "reassembler_ok r' \<and> limits r' = limits r \<and> (\<forall>m. res = Inr (Some m) \<longrightarrow> message_ok (limits r) m)"
  using assms opcode_split [of "opcode f"]
  by (auto simp: push_frame_def reassembler_ok_def message_ok_def validate_message_payload_def Let_def
      split: if_splits option.splits)

lemma push_frames_ok:
  "reassembler_ok r \<Longrightarrow> push_frames fs r = (ms, e, r')
   \<Longrightarrow> reassembler_ok r' \<and> limits r' = limits r \<and> (\<forall>m \<in> set ms. message_ok (limits r) m)"
proof (induction fs arbitrary: r ms e r')
  case (Cons f fs)
  obtain res r1 where p: "push_frame f r = (res, r1)" by force
  note one = push_frame_ok [OF Cons.prems(1) p]
  show ?case
  proof (cases res)
    case (Inl x)
    then show ?thesis using Cons.prems(2) p one by auto
  next
    case (Inr m)
    obtain ms1 e1 r2 where q: "push_frames fs r1 = (ms1, e1, r2)" by (cases "push_frames fs r1")
    then show ?thesis using Cons.IH [OF _ q] one Cons.prems(2) p Inr by (auto split: option.splits)
  qed
qed simp

text \<open>
  The frames of a message in pieces: the data frames of a sequence of frames, as finality, opcode
  and payload; control frames may stand between them.
\<close>

fun conts :: "bytes list \<Rightarrow> (bool \<times> Opcode \<times> bytes) list" where
  "conts [] = []"
| "conts [p] = [(True, Continuation, p)]"
| "conts (p # q # ps) = (False, Continuation, p) # conts (q # ps)"

fun fragments :: "Opcode \<Rightarrow> bytes list \<Rightarrow> (bool \<times> Opcode \<times> bytes) list" where
  "fragments op [] = []"
| "fragments op [p] = [(True, op, p)]"
| "fragments op (p # q # ps) = (False, op, p) # conts (q # ps)"

definition data_parts :: "WsFrame list \<Rightarrow> (bool \<times> Opcode \<times> bytes) list" where
  "data_parts fs = map (\<lambda>f. (fin f, opcode f, ws_payload f)) (filter (\<lambda>f. \<not> is_control (opcode f)) fs)"

definition control_messages :: "WsFrame list \<Rightarrow> Message list" where
  "control_messages fs =
     map (\<lambda>f. \<lparr>msg_opcode = opcode f, msg_payload = ws_payload f\<rparr>) (filter (\<lambda>f. is_control (opcode f)) fs)"

lemma parts_Cons:
  "data_parts (f # fs) = (if is_control (opcode f) then data_parts fs else (fin f, opcode f, ws_payload f) # data_parts fs)"
  "control_messages (f # fs) = (if is_control (opcode f)
     then \<lparr>msg_opcode = opcode f, msg_payload = ws_payload f\<rparr> # control_messages fs else control_messages fs)"
  by (simp_all add: data_parts_def control_messages_def)

lemma push_control: "is_control (opcode f) \<Longrightarrow>
  push_frame f r = (Inr (Some \<lparr>msg_opcode = opcode f, msg_payload = ws_payload f\<rparr>), r)"
  by (simp add: push_frame_def)

lemma push_controls: "data_parts fs = [] \<Longrightarrow> push_frames fs r = (control_messages fs, None, r)"
  by (induction fs) (auto simp: parts_Cons control_messages_def push_control split: if_splits)

lemma push_conts:
  assumes "data_parts fs = conts ps" "ps \<noteq> []" "current_opcode r = Some op" "is_control op = False"
    "length (partial_payload r) + length (concat ps) \<le> max_message_payload (limits r)"
    "op = Text \<Longrightarrow> from_utf8 (partial_payload r @ concat ps) \<noteq> None"
  shows "\<exists>ms. push_frames fs r = (ms, None, r\<lparr>current_opcode := None, partial_payload := []\<rparr>)
    \<and> filter (\<lambda>m. \<not> is_control (msg_opcode m)) ms = [\<lparr>msg_opcode = op, msg_payload = partial_payload r @ concat ps\<rparr>]
    \<and> filter (\<lambda>m. is_control (msg_opcode m)) ms = control_messages fs"
  using assms
proof (induction fs arbitrary: r ps)
  case Nil
  then show ?case by (cases ps rule: conts.cases) (auto simp: data_parts_def)
next
  case (Cons f fs)
  show ?case
  proof (cases "is_control (opcode f)")
    case True
    then have "data_parts fs = conts ps" using Cons.prems(1) by (simp add: parts_Cons)
    then obtain ms where "push_frames fs r = (ms, None, r\<lparr>current_opcode := None, partial_payload := []\<rparr>)"
      "filter (\<lambda>m. \<not> is_control (msg_opcode m)) ms = [\<lparr>msg_opcode = op, msg_payload = partial_payload r @ concat ps\<rparr>]"
      "filter (\<lambda>m. is_control (msg_opcode m)) ms = control_messages fs"
      using Cons.IH [of ps r] Cons.prems(2-6) by blast
    then show ?thesis using True by (simp add: push_control parts_Cons)
  next
    case False
    then have d: "(fin f, opcode f, ws_payload f) # data_parts fs = conts ps" using Cons.prems(1) by (simp add: parts_Cons)
    show ?thesis
    proof (cases ps rule: conts.cases)
      case (2 p)
      then have f: "fin f" "opcode f = Continuation" "ws_payload f = p" "data_parts fs = []" using d by auto
      then have "push_frame f r = (Inr (Some \<lparr>msg_opcode = op, msg_payload = partial_payload r @ p\<rparr>),
          r\<lparr>current_opcode := None, partial_payload := []\<rparr>)"
        using Cons.prems 2 by (auto simp: push_frame_def validate_message_payload_def Let_def)
      then show ?thesis using f 2 Cons.prems(4) push_controls [OF f(4)] False
        by (auto simp: parts_Cons control_messages_def filter_map comp_def)
    next
      case (3 p q qs)
      then have f: "\<not> fin f" "opcode f = Continuation" "ws_payload f = p" "data_parts fs = conts (q # qs)" using d by auto
      let ?r = "r\<lparr>partial_payload := partial_payload r @ p\<rparr>"
      have "push_frame f r = (Inr None, ?r)" using f Cons.prems(3,5) 3 by (simp add: push_frame_def Let_def)
      moreover obtain ms where "push_frames fs ?r = (ms, None, ?r\<lparr>current_opcode := None, partial_payload := []\<rparr>)"
        "filter (\<lambda>m. \<not> is_control (msg_opcode m)) ms = [\<lparr>msg_opcode = op, msg_payload = partial_payload ?r @ concat (q # qs)\<rparr>]"
        "filter (\<lambda>m. is_control (msg_opcode m)) ms = control_messages fs"
        using Cons.IH [of "q # qs" ?r] f(4) Cons.prems(3-6) 3 by auto
      ultimately show ?thesis using 3 False by (simp add: parts_Cons)
    qed (use Cons.prems(2) in simp)
  qed
qed

lemma push_fragments:
  assumes "data_parts fs = fragments op ps" "ps \<noteq> []" "op = Text \<or> op = Binary" "current_opcode r = None"
    "partial_payload r = []" "length (concat ps) \<le> max_message_payload (limits r)"
    "op = Text \<Longrightarrow> from_utf8 (concat ps) \<noteq> None"
  shows "\<exists>ms. push_frames fs r = (ms, None, r)
    \<and> filter (\<lambda>m. \<not> is_control (msg_opcode m)) ms = [\<lparr>msg_opcode = op, msg_payload = concat ps\<rparr>]
    \<and> filter (\<lambda>m. is_control (msg_opcode m)) ms = control_messages fs"
  using assms
proof (induction fs)
  case Nil
  then show ?case by (cases ps rule: conts.cases) (auto simp: data_parts_def)
next
  case (Cons f fs)
  have op: "\<not> is_control op" "op \<noteq> Continuation" using Cons.prems(3) by auto
  show ?case
  proof (cases "is_control (opcode f)")
    case True
    then have "data_parts fs = fragments op ps" using Cons.prems(1) by (simp add: parts_Cons)
    then show ?thesis using Cons.IH Cons.prems(2-) True by (auto simp: push_control parts_Cons)
  next
    case False
    then have d: "(fin f, opcode f, ws_payload f) # data_parts fs = fragments op ps" using Cons.prems(1) by (simp add: parts_Cons)
    show ?thesis
    proof (cases ps rule: conts.cases)
      case (2 p)
      then have f: "fin f" "opcode f = op" "ws_payload f = p" "data_parts fs = []" using d by auto
      then have "push_frame f r = (Inr (Some \<lparr>msg_opcode = op, msg_payload = p\<rparr>), r)"
        using Cons.prems 2 op by (auto simp: push_frame_def validate_message_payload_def)
      then show ?thesis using f 2 op push_controls [OF f(4)] False
        by (auto simp: parts_Cons control_messages_def filter_map comp_def)
    next
      case (3 p q qs)
      then have f: "\<not> fin f" "opcode f = op" "ws_payload f = p" "data_parts fs = conts (q # qs)" using d by auto
      let ?r = "r\<lparr>current_opcode := Some op, partial_payload := p\<rparr>"
      have "push_frame f r = (Inr None, ?r)" using f Cons.prems(4,6) 3 op by (simp add: push_frame_def)
      moreover have "?r\<lparr>current_opcode := None, partial_payload := []\<rparr> = r" using Cons.prems(4,5) by simp
      ultimately show ?thesis
        using push_conts [OF f(4), of ?r op] Cons.prems(6,7) 3 op False by (auto simp: parts_Cons)
    qed (use Cons.prems(2) in simp)
  qed
qed

section \<open>Properties\<close>

text \<open>
  Property C28: frames on a stream. Frames that the encoder accepts and whose payload is within the
  limit, written one after the other with any masks and followed by a part of another, are read
  back as those frames, masks undone, and the part is left for the next read; the decoder asks for
  more bytes on it and reports nothing else.
\<close>

theorem ws_stream_roundtrip:
  assumes "\<forall>f \<in> set fs. sendable l f" "sendable l f" "k < length (frame_bytes f)" "length fs \<le> n"
  shows "take_all (\<lambda>buf. ok_opt (decode_frame_with_limits buf l)) n (concat (map frame_bytes fs) @ take k (frame_bytes f))
      = (fs, take k (frame_bytes f))
    \<and> decode_frame_with_limits (take k (frame_bytes f)) l = Inl UnexpectedEnd"
proof
  show "take_all (\<lambda>buf. ok_opt (decode_frame_with_limits buf l)) n (concat (map frame_bytes fs) @ take k (frame_bytes f))
      = (fs, take k (frame_bytes f))" using ws.stream [OF assms(1,4,2,3)] by simp
  obtain bs where "Ws_encode_frame f = Inr bs" "length (ws_payload f) \<le> max_frame_payload l"
    using assms(2) by (auto simp: sendable_def)
  then show "decode_frame_with_limits (take k (frame_bytes f)) l = Inl UnexpectedEnd"
    using decode_stream_prefix [of f bs l k "[]"] assms(3) by (simp add: frame_bytes_def)
qed

theorem ws_stream_roundtrip_witness:
  "take_all (\<lambda>buf. ok_opt (decode_frame_with_limits buf FrameLimits_default)) 1
     (frame_bytes \<lparr>fin = True, opcode = Text, ws_payload = [104, 105], ws_mask = Some (1, 2, 3, 4)\<rparr> @ [0x8A])
   = ([\<lparr>fin = True, opcode = Text, ws_payload = [104, 105], ws_mask = Some (1, 2, 3, 4)\<rparr>], [0x8A])"
proof -
  let ?f = "\<lparr>fin = True, opcode = Text, ws_payload = [104, 105], ws_mask = Some (1, 2, 3, 4)\<rparr>"
  let ?g = "\<lparr>fin = True, opcode = Pong, ws_payload = [], ws_mask = None\<rparr>"
  have g: "frame_bytes ?g = [0x8A, 0]" by (simp add: frame_bytes_def Ws_encode_frame_def length_bytes_def mask_part_def apply_mask_def)
  have "sendable FrameLimits_default ?f" "sendable FrameLimits_default ?g"
    by (simp_all add: sendable_def FrameLimits_default_def Ws_encode_frame_def length_bytes_def)
  then show ?thesis using ws_stream_roundtrip [of "[?f]" FrameLimits_default ?g 1 1] by (simp add: g)
qed

text \<open>
  Property C30: whatever frames arrive, the reassembler keeps at most \<open>max_message_payload\<close> bytes,
  has an opcode exactly while a text or binary message is open and no left-over bytes otherwise,
  also after an error; and every message it delivers is a control frame or a text or binary
  message within the limit, texts in valid UTF-8.
\<close>

theorem ws_reassembly_bounded:
  "push_frames fs (MessageReassembler_new l) = (ms, e, r)
   \<Longrightarrow> length (partial_payload r) \<le> max_message_payload l \<and> (current_opcode r = None \<longrightarrow> partial_payload r = [])
     \<and> current_opcode r \<in> {None, Some Text, Some Binary}
     \<and> (\<forall>m \<in> set ms. is_control (msg_opcode m) \<or> length (msg_payload m) \<le> max_message_payload l
          \<and> (msg_opcode m = Binary \<or> msg_opcode m = Text \<and> (\<exists>s. from_utf8 (msg_payload m) = Some s)))"
  using push_frames_ok [of "MessageReassembler_new l" fs ms e r]
  by (cases "current_opcode r") (auto simp: reassembler_ok_def MessageReassembler_new_def message_ok_def)

theorem ws_reassembly_bounded_witness:
  "\<exists>ms e r. push_frames [\<lparr>fin = False, opcode = Text, ws_payload = [104], ws_mask = None\<rparr>]
      (MessageReassembler_new FrameLimits_default) = (ms, e, r)
    \<and> length (partial_payload r) \<le> max_message_payload FrameLimits_default \<and> current_opcode r = Some Text"
proof -
  let ?r = "\<lparr>limits = FrameLimits_default, current_opcode = Some Text, partial_payload = [104]\<rparr>"
  have p: "push_frames [\<lparr>fin = False, opcode = Text, ws_payload = [104], ws_mask = None\<rparr>]
      (MessageReassembler_new FrameLimits_default) = ([], None, ?r)"
    by (simp add: push_frame_def MessageReassembler_new_def FrameLimits_default_def)
  then show ?thesis using ws_reassembly_bounded [OF p] by auto
qed

text \<open>
  Property C29: the fragmentation of a message does not matter. A text or binary message within the
  limit, texts in valid UTF-8 as a whole, sent in any number of pieces, at any cut (in the middle
  of a character too), with control frames anywhere between them, is delivered once, whole, and
  every control frame is delivered too; afterwards the reassembler is as it was.
\<close>

theorem ws_fragmentation_transparent:
  assumes "data_parts fs = fragments op ps" "ps \<noteq> []" "op = Text \<and> from_utf8 (concat ps) \<noteq> None \<or> op = Binary"
    "length (concat ps) \<le> max_message_payload l"
  shows "\<exists>ms. push_frames fs (MessageReassembler_new l) = (ms, None, MessageReassembler_new l)
    \<and> filter (\<lambda>m. \<not> is_control (msg_opcode m)) ms = [\<lparr>msg_opcode = op, msg_payload = concat ps\<rparr>]
    \<and> filter (\<lambda>m. is_control (msg_opcode m)) ms = control_messages fs"
  using assms by (intro push_fragments) (auto simp: MessageReassembler_new_def)

theorem ws_fragmentation_transparent_witness:
  "\<exists>ms. push_frames [\<lparr>fin = False, opcode = Binary, ws_payload = [1], ws_mask = None\<rparr>,
       \<lparr>fin = True, opcode = Ping, ws_payload = [], ws_mask = None\<rparr>,
       \<lparr>fin = True, opcode = Continuation, ws_payload = [2], ws_mask = None\<rparr>] (MessageReassembler_new FrameLimits_default)
     = (ms, None, MessageReassembler_new FrameLimits_default)
   \<and> filter (\<lambda>m. \<not> is_control (msg_opcode m)) ms = [\<lparr>msg_opcode = Binary, msg_payload = [1, 2]\<rparr>]"
  using ws_fragmentation_transparent [of "[\<lparr>fin = False, opcode = Binary, ws_payload = [1], ws_mask = None\<rparr>,
       \<lparr>fin = True, opcode = Ping, ws_payload = [], ws_mask = None\<rparr>,
       \<lparr>fin = True, opcode = Continuation, ws_payload = [2], ws_mask = None\<rparr>]" Binary "[[1], [2]]" FrameLimits_default]
  by (auto simp: data_parts_def FrameLimits_default_def)

end
