(* ===== verification/Websocket_Handshake.thy ===== *)
theory Websocket_Handshake
  imports Websocket_Props Basen_Props
begin

unbundle bit_operations_syntax

text \<open>
  The opening handshake of \<open>crates/websocket/src/lib.rs\<close>: the base64 codec
  the crate has of its own, the key of the client, the answer of the server and the checks of a
  request. The random bytes and the digest come from the crypto crate and are arguments: the
  properties hold for every digest.

  The encoder is compared with the base-N codec (\<open>Basen\<close>), of which it is a second, hand-unrolled
  implementation.
\<close>

section \<open>Base64 by hand\<close>

definition WS_ALPHABET :: str where
  "WS_ALPHABET = ''ABCDEFGHIJKLMNOPQRSTUVWXYZabcdefghijklmnopqrstuvwxyz0123456789+/''"

definition sextet :: "u32 \<Rightarrow> nat \<Rightarrow> char" where
  "sextet v k = WS_ALPHABET ! unat (drop_bit k v AND 0x3F)"

fun base64_encode :: "bytes \<Rightarrow> str" where
  "base64_encode (a # b # c # rest) =
     (let v = push_bit 16 (ucast a) OR push_bit 8 (ucast b) OR ucast c in
      [sextet v 18, sextet v 12, sextet v 6, sextet v 0] @ base64_encode rest)"
| "base64_encode [a] =
     (let v = push_bit 16 (ucast a) in [sextet v 18, sextet v 12, CHR ''='', CHR ''=''])"
| "base64_encode [a, b] =
     (let v = push_bit 16 (ucast a) OR push_bit 8 (ucast b) in [sextet v 18, sextet v 12, sextet v 6, CHR ''=''])"
| "base64_encode [] = []"

text \<open>The value of a character at position \<open>i\<close> of its chunk; \<open>=\<close> counts as padding from position 2 on.\<close>

definition sextet_val :: "nat \<Rightarrow> char \<Rightarrow> (nat \<times> nat) option" where
  "sextet_val i c =
     (let b = byte c in
      if byte (CHR ''A'') \<le> b \<and> b \<le> byte (CHR ''Z'') then Some (b - byte (CHR ''A''), 0)
      else if byte (CHR ''a'') \<le> b \<and> b \<le> byte (CHR ''z'') then Some (b - byte (CHR ''a'') + 26, 0)
      else if byte (CHR ''0'') \<le> b \<and> b \<le> byte (CHR ''9'') then Some (b - byte (CHR ''0'') + 52, 0)
      else if c = CHR ''+'' then Some (62, 0)
      else if c = CHR ''/'' then Some (63, 0)
      else if c = CHR ''='' \<and> 2 \<le> i then Some (0, 1)
      else None)"

definition decode_chunk :: "char \<Rightarrow> char \<Rightarrow> char \<Rightarrow> char \<Rightarrow> bytes option" where
  "decode_chunk c0 c1 c2 c3 =
     (case (sextet_val 0 c0, sextet_val 1 c1, sextet_val 2 c2, sextet_val 3 c3) of
        (Some (v0, p0), Some (v1, p1), Some (v2, p2), Some (v3, p3)) \<Rightarrow>
          (let pad = p0 + p1 + p2 + p3;
               n = push_bit 18 (of_nat v0) OR push_bit 12 (of_nat v1) OR push_bit 6 (of_nat v2) OR of_nat v3 :: u32 in
           if 0 < pad \<and> (\<exists>c \<in> set (drop (4 - pad) [c0, c1, c2, c3]). c \<noteq> CHR ''='') then None
           else Some (ucast (drop_bit 16 n AND 0xFF)
                  # (if pad < 2 then [ucast (drop_bit 8 n AND 0xFF)] else [])
                  @ (if pad = 0 then [ucast (n AND 0xFF)] else [])))
      | _ \<Rightarrow> None)"

fun decode_chunks :: "str \<Rightarrow> bytes option" where
  "decode_chunks (c0 # c1 # c2 # c3 # cs) =
     Option.bind (decode_chunk c0 c1 c2 c3) (\<lambda>bs. map_option (\<lambda>rest. bs @ rest) (decode_chunks cs))"
| "decode_chunks cs = Some []"

definition base64_decode :: "str \<Rightarrow> bytes option" where
  "base64_decode s = (if s = [] \<or> length s mod 4 \<noteq> 0 then None else decode_chunks s)"

section \<open>Handshake\<close>

definition ACCEPT_MAGIC :: str where
  "ACCEPT_MAGIC = ''258EAFA5-E914-47DA-95CA-C5AB0DC85B11''"

text \<open>\<open>random\<close> is what \<open>get_random_values\<close> does with the buffer of 16 bytes.\<close>

definition generate_key :: "str + bytes \<Rightarrow> WsError + str" where
  "generate_key random = (case random of Inl e \<Rightarrow> Inl (Crypto (''RNG: '' @ e)) | Inr bs \<Rightarrow> Inr (base64_encode bs))"

definition derive_accept :: "(bytes \<Rightarrow> bytes) \<Rightarrow> str \<Rightarrow> str" where
  "derive_accept sha1 client_key = base64_encode (sha1 (as_bytes (client_key @ ACCEPT_MAGIC)))"

definition verify_accept :: "(bytes \<Rightarrow> bytes) \<Rightarrow> str \<Rightarrow> str \<Rightarrow> bool" where
  "verify_accept sha1 client_key server_accept \<longleftrightarrow> derive_accept sha1 client_key = server_accept"

definition validate_client_key :: "str \<Rightarrow> WsError + unit" where
  "validate_client_key key =
     rbind (ok_or InvalidHandshakeKey (base64_decode key)) (\<lambda>decoded.
       if length decoded = 16 then Inr () else Inl InvalidHandshakeKey)"

record HandshakePolicy =
  allowed_origins :: "str list"

definition HandshakePolicy_allow_any :: HandshakePolicy where
  "HandshakePolicy_allow_any = \<lparr>allowed_origins = []\<rparr>"

definition validate_server_handshake_request :: "str \<Rightarrow> str \<Rightarrow> str option \<Rightarrow> HandshakePolicy \<Rightarrow> WsError + unit" where
  "validate_server_handshake_request key version origin policy =
     (if trim version \<noteq> ''13'' then Inl UnsupportedWebSocketVersion
      else rbind (validate_client_key key) (\<lambda>_.
        if allowed_origins policy \<noteq> []
        then rbind (ok_or OriginRejected origin) (\<lambda>origin.
               if \<not> list_ex (\<lambda>allowed. allowed = origin) (allowed_origins policy) then Inl OriginRejected else Inr ())
        else Inr ()))"

section \<open>The encoder is the base-N codec\<close>

text \<open>The digits that the unrolled encoder writes, and how many padding characters follow.\<close>

fun ws_digits :: "bytes \<Rightarrow> nat list" where
  "ws_digits (a # b # c # rest) =
     (let v = unat a * 65536 + unat b * 256 + unat c in
      [v div 262144, v div 4096 mod 64, v div 64 mod 64, v mod 64] @ ws_digits rest)"
| "ws_digits [a] = [unat a * 65536 div 262144, unat a * 65536 div 4096 mod 64]"
| "ws_digits [a, b] = (let v = unat a * 65536 + unat b * 256 in [v div 262144, v div 4096 mod 64, v div 64 mod 64])"
| "ws_digits [] = []"

definition ws_pad :: "nat \<Rightarrow> nat" where
  "ws_pad n = (3 - n mod 3) mod 3"

lemma byte_less: "unat (b :: u8) < 256"
  using unsigned_less [of b, where 'a = nat] by simp

lemma split_sextets:
  "v = v div 262144 * 262144 + v div 4096 mod 64 * 4096 + v div 64 mod 64 * 64 + v mod 64" for v :: nat
proof -
  have "v div 4096 = v div 262144 * 64 + v div 4096 mod 64" "v div 64 = v div 4096 * 64 + v div 64 mod 64"
    using div_mult_mod_eq [of "v div 4096" 64] div_mult_mod_eq [of "v div 64" 64]
    by (simp_all flip: div_mult2_eq)
  then show ?thesis using div_mult_mod_eq [of v 64] by linarith
qed

lemma ws_digits_val:
  "digits 6 (ws_digits bs) \<and> 6 * length (ws_digits bs) = 8 * length bs + 2 * ws_pad (length bs)
   \<and> radix_val 6 (ws_digits bs) = radix_val 8 (map unat bs) * 2 ^ (2 * ws_pad (length bs))"
proof (induction bs rule: ws_digits.induct)
  case (1 a b c rest)
  let ?v = "unat a * 65536 + unat b * 256 + unat c"
  have "?v < 16777216" using byte_less [of a] byte_less [of b] byte_less [of c] by linarith
  then have d: "?v div 262144 < 64" by linarith
  have pad: "ws_pad (length (a # b # c # rest)) = ws_pad (length rest)" by (simp add: ws_pad_def)
  let ?n = "length (ws_digits rest)"
  have "radix_val 6 (ws_digits (a # b # c # rest)) = ?v * 2 ^ (6 * ?n) + radix_val 6 (ws_digits rest)"
  proof -
    have "radix_val 6 [?v div 262144, ?v div 4096 mod 64, ?v div 64 mod 64, ?v mod 64] = ?v"
      using split_sextets [of ?v] by simp
    then show ?thesis by (simp only: ws_digits.simps Let_def radix_val_simps(3))
  qed
  also have "\<dots> = radix_val 8 (map unat (a # b # c # rest)) * 2 ^ (2 * ws_pad (length rest))"
    using "1.IH" by (simp add: power_add algebra_simps)
  finally show ?case using 1 d pad by (simp add: Let_def)
next
  case (2 a)
  then show ?case using byte_less [of a] split_sextets [of "unat a * 65536"] by (simp add: ws_pad_def)
next
  case (3 a b)
  let ?v = "unat a * 65536 + unat b * 256"
  have "?v < 16777216" using byte_less [of a] byte_less [of b] by linarith
  then have d: "?v div 262144 < 64" by linarith
  then show ?case using split_sextets [of ?v] by (simp add: ws_pad_def Let_def)
qed (simp add: ws_pad_def)

text \<open>The three bytes of a group in a word of 24 bits.\<close>

lemma unat_group:
  "unat (push_bit 16 (ucast (a :: u8)) OR push_bit 8 (ucast (b :: u8)) OR ucast (c :: u8) :: u32)
   = unat a * 65536 + unat b * 256 + unat c"
proof -
  note l = byte_less [of a] byte_less [of b] byte_less [of c]
  have u: "unat (ucast x :: u32) = unat x" for x :: u8 using byte_less [of x] by (simp add: unsigned_ucast_eq take_bit_nat_eq_self)
  have "unat (push_bit 16 (ucast a :: u32)) = push_bit 16 (unat a)" "unat (push_bit 8 (ucast b :: u32)) = push_bit 8 (unat b)"
    unfolding unsigned_push_bit_eq u using l by (simp_all add: push_bit_eq_mult take_bit_nat_eq_self)
  then have "unat (push_bit 16 (ucast a) OR push_bit 8 (ucast b) OR ucast c :: u32) = push_bit 16 (unat a) OR (push_bit 8 (unat b) OR unat c)"
    by (simp add: unsigned_or_eq u)
  also have "push_bit 8 (unat b) OR unat c = unat b * 256 + unat c" using push_or_add [of "unat c" 8 "unat b"] l by simp
  also have "push_bit 16 (unat a) OR (unat b * 256 + unat c) = unat a * 65536 + (unat b * 256 + unat c)"
    using push_or_add [of "unat b * 256 + unat c" 16 "unat a"] l by simp
  finally show ?thesis by simp
qed

lemma sextet_sym: "sextet v k = sym BASE64 (unat v div 2 ^ k mod 64)"
proof -
  have "(0x3F :: u32) = mask 6" by (simp add: mask_eq_exp_minus_1)
  then have "unat (drop_bit k v AND 0x3F) = unat v div 2 ^ k mod 64"
    unfolding \<open>0x3F = mask 6\<close> unat_mask unat_drop_bit_eq by (simp add: drop_bit_eq_div)
  then show ?thesis by (simp add: sextet_def sym_def WS_ALPHABET_def BASE64_def new_unchecked_def)
qed

lemma sextets_sym:
  fixes a b c :: u8 defines "v \<equiv> unat a * 65536 + unat b * 256 + unat c"
    and "w \<equiv> push_bit 16 (ucast a) OR push_bit 8 (ucast b) OR ucast c :: u32"
  shows "sextet w 18 = sym BASE64 (v div 262144)" "sextet w 12 = sym BASE64 (v div 4096 mod 64)"
    "sextet w 6 = sym BASE64 (v div 64 mod 64)" "sextet w 0 = sym BASE64 (v mod 64)"
proof -
  have "v < 16777216" using byte_less [of a] byte_less [of b] byte_less [of c] unfolding v_def by linarith
  then have "v div 262144 mod 64 = v div 262144" by simp
  moreover have "unat w = v" unfolding v_def w_def by (rule unat_group)
  ultimately show "sextet w 18 = sym BASE64 (v div 262144)" "sextet w 12 = sym BASE64 (v div 4096 mod 64)"
    "sextet w 6 = sym BASE64 (v div 64 mod 64)" "sextet w 0 = sym BASE64 (v mod 64)"
    by (simp_all add: sextet_sym)
qed

lemma base64_encode_digits:
  "base64_encode bs = map (sym BASE64) (ws_digits bs) @ replicate (ws_pad (length bs)) (CHR ''='')"
proof (induction bs rule: base64_encode.induct)
  case (1 a b c rest)
  then show ?case using sextets_sym [of a b c] by (simp add: Let_def ws_pad_def)
next
  case (2 a)
  then show ?case using sextets_sym [of a 0 0] by (simp add: Let_def ws_pad_def numeral_2_eq_2)
next
  case (3 a b)
  then show ?case using sextets_sym [of a b 0] by (simp add: Let_def ws_pad_def)
qed (simp add: ws_pad_def)

lemma ws_digits_enc: "ws_digits bs = enc_digits 6 bs"
proof (rule enc_digits_unique)
  show "2 * ws_pad (length bs) < 6" by (simp add: ws_pad_def)
qed (use ws_digits_val [of bs] in simp_all)

lemma pad_loop_four:
  assumes "(length out + p) mod 4 = 0" "p \<le> 2"
  shows "pad_loop 4 out = Some (out @ replicate p (CHR ''=''))"
proof -
  consider "p = 0" | "p = 1" | "p = 2" using assms(2) by linarith
  then show ?thesis
  proof cases
    case 1
    then show ?thesis using assms by (simp add: pad_loop.simps)
  next
    case 2
    then show ?thesis using assms by (simp add: pad_loop.simps [of 4 out] pad_loop.simps [of 4 "out @ ''=''"] mod_Suc split: if_splits)
  next
    case 3
    then show ?thesis using assms
      by (simp add: pad_loop.simps [of 4 out] pad_loop.simps [of 4 "out @ ''=''"] pad_loop.simps [of 4 "out @ ''==''"]
        mod_Suc numeral_2_eq_2 split: if_splits)
  qed
qed

lemma ws_pad_total: "\<exists>z. n + ws_pad n = 3 * z"
proof -
  obtain q r where n: "n = 3 * q + r" and "r < 3" by (metis mult_div_mod_eq mod_less_divisor zero_less_numeral)
  then have "r = 0 \<or> r = 1 \<or> r = 2" by linarith
  then have "n + ws_pad n = 3 * q \<or> n + ws_pad n = 3 * (q + 1)" unfolding n by (auto simp: ws_pad_def)
  then show ?thesis by blast
qed

lemma base64_encode_basen: "encode_base64 bs = Some (base64_encode bs)"
proof -
  have v: "enc_valid BASE64" using case_sensitive_encodings_ok(1) by (simp add: enc_ok_def)
  have q: "output_quantum 6 = 4" by code_simp
  obtain z where "length bs + ws_pad (length bs) = 3 * z" using ws_pad_total by blast
  moreover have "6 * (length (ws_digits bs) + ws_pad (length bs)) = 8 * (length bs + ws_pad (length bs))"
    using ws_digits_val [of bs] by simp
  ultimately have "length (ws_digits bs) + ws_pad (length bs) = 4 * z" by simp
  then have "(length (ws_digits bs) + ws_pad (length bs)) mod 4 = 0" by simp
  moreover have "ws_pad (length bs) \<le> 2" by (simp add: ws_pad_def)
  ultimately have "pad_loop 4 (map (sym BASE64) (ws_digits bs)) = Some (base64_encode bs)"
    unfolding base64_encode_digits by (intro pad_loop_four) simp_all
  moreover have "padding BASE64 \<noteq> PadNone" by (simp add: BASE64_def new_unchecked_def)
  ultimately show ?thesis by (simp add: encode_base64_def encode_digits [OF v] q ws_digits_enc)
qed

section \<open>Reading a key back\<close>

lemma sextet_val_sym:
  assumes "d < 64"
  shows "sextet_val i (sym BASE64 d) = Some (d, 0)" "sym BASE64 d \<noteq> CHR ''=''"
proof -
  have al: "alphabet BASE64 = WS_ALPHABET" by (simp add: BASE64_def new_unchecked_def WS_ALPHABET_def)
  have len: "length WS_ALPHABET = 64" by (simp add: WS_ALPHABET_def)
  have "map (sextet_val 0) WS_ALPHABET = map (\<lambda>d. Some (d, 0)) [0..<64]" by (simp add: WS_ALPHABET_def sextet_val_def upt_conv_Cons)
  then have d: "sextet_val 0 (sym BASE64 d) = Some (d, 0)" using assms len by (simp add: sym_def al list_eq_iff_nth_eq)
  have "CHR ''='' \<notin> set WS_ALPHABET" by (simp add: WS_ALPHABET_def)
  moreover have "sym BASE64 d \<in> set WS_ALPHABET" using assms len by (simp add: sym_def al)
  ultimately have "sym BASE64 d \<noteq> CHR ''=''" by metis
  then have "sextet_val i (sym BASE64 d) = sextet_val 0 (sym BASE64 d)" by (simp add: sextet_val_def)
  then show "sextet_val i (sym BASE64 d) = Some (d, 0)" by (simp add: d)
  show "sym BASE64 d \<noteq> CHR ''=''" by fact
qed

lemma sextet_val_pad: "sextet_val i (CHR ''='') = (if 2 \<le> i then Some (0, 1) else None)"
  by (simp add: sextet_val_def)

lemma unat_sextets:
  assumes "d0 < 64" "d1 < 64" "d2 < 64" "d3 < (64 :: nat)"
  shows "unat (push_bit 18 (of_nat d0) OR push_bit 12 (of_nat d1) OR push_bit 6 (of_nat d2) OR of_nat d3 :: u32)
    = d0 * 262144 + d1 * 4096 + d2 * 64 + d3"
proof -
  have u: "unat (push_bit k (of_nat d) :: u32) = push_bit k d" if "d < 64" "k \<le> 18" for d k
  proof -
    have "d * 2 ^ k < 2 ^ 6 * 2 ^ k" using that by simp
    also have "\<dots> \<le> 2 ^ 32" using that(2) power_increasing [of "6 + k" 32 "2 :: nat"] by (simp add: power_add)
    finally show ?thesis unfolding unsigned_push_bit_eq using that
      by (simp add: unat_of_nat push_bit_eq_mult take_bit_nat_eq_self)
  qed
  have "unat (push_bit 18 (of_nat d0) OR push_bit 12 (of_nat d1) OR push_bit 6 (of_nat d2) OR of_nat d3 :: u32)
      = push_bit 18 d0 OR (push_bit 12 d1 OR (push_bit 6 d2 OR d3))"
    using u [OF assms(1), of 18] u [OF assms(2), of 12] u [OF assms(3), of 6] u [OF assms(4), of 0]
    by (simp add: unsigned_or_eq)
  also have "push_bit 6 d2 OR d3 = d2 * 64 + d3" using push_or_add [of d3 6 d2] assms by simp
  also have "push_bit 12 d1 OR (d2 * 64 + d3) = d1 * 4096 + (d2 * 64 + d3)" using push_or_add [of "d2 * 64 + d3" 12 d1] assms by simp
  also have "push_bit 18 d0 OR (d1 * 4096 + (d2 * 64 + d3)) = d0 * 262144 + (d1 * 4096 + (d2 * 64 + d3))"
    using push_or_add [of "d1 * 4096 + (d2 * 64 + d3)" 18 d0] assms by simp
  finally show ?thesis by simp
qed

lemma byte_out: "ucast (drop_bit k (n :: u32) AND 0xFF) = (of_nat (unat n div 2 ^ k) :: u8)" "ucast (n AND 0xFF) = (of_nat (unat n) :: u8)"
proof -
  have m: "(0xFF :: u32) = mask 8" by (simp add: mask_eq_exp_minus_1)
  have *: "ucast (w AND 0xFF) = (of_nat (unat w) :: u8)" for w :: u32
  proof (rule unsigned_word_eqI)
    show "unat (ucast (w AND 0xFF) :: u8) = unat (of_nat (unat w) :: u8)"
      unfolding m by (simp add: unsigned_ucast_eq unat_mask unat_of_nat take_bit_eq_mod)
  qed
  show "ucast (drop_bit k n AND 0xFF) = (of_nat (unat n div 2 ^ k) :: u8)"
    unfolding * unfolding unat_drop_bit_eq by (simp add: drop_bit_eq_div)
  show "ucast (n AND 0xFF) = (of_nat (unat n) :: u8)" by (rule *)
qed

lemma word_of_mod: "x mod 256 = unat b \<Longrightarrow> (of_nat x :: u8) = b"
proof (rule unsigned_word_eqI)
  assume "x mod 256 = unat b"
  then show "unat (of_nat x :: u8) = unat b" by (simp add: unat_of_nat)
qed

lemma group_bytes:
  fixes a b c :: u8 defines "v \<equiv> unat a * 65536 + unat b * 256 + unat c"
  shows "(of_nat (v div 65536) :: u8) = a" "(of_nat (v div 256) :: u8) = b" "(of_nat v :: u8) = c"
    "v div 262144 < 64"
    "unat (push_bit 18 (of_nat (v div 262144)) OR push_bit 12 (of_nat (v div 4096 mod 64))
       OR push_bit 6 (of_nat (v div 64 mod 64)) OR of_nat (v mod 64) :: u32) = v"
proof -
  note l = byte_less [of a] byte_less [of b] byte_less [of c]
  show d: "v div 262144 < 64" using l unfolding v_def by linarith
  then show "unat (push_bit 18 (of_nat (v div 262144)) OR push_bit 12 (of_nat (v div 4096 mod 64))
       OR push_bit 6 (of_nat (v div 64 mod 64)) OR of_nat (v mod 64) :: u32) = v"
    using unat_sextets [of "v div 262144" "v div 4096 mod 64" "v div 64 mod 64" "v mod 64"] split_sextets [of v] by simp
  have "v div 65536 = unat a" "v div 256 = unat a * 256 + unat b" using l unfolding v_def by linarith+
  then have "v div 65536 mod 256 = unat a" "v div 256 mod 256 = unat b" using l by simp_all
  moreover have "v = unat c + (unat a * 256 + unat b) * 256" by (simp add: v_def)
  then have "v mod 256 = unat c" using l(3) by (simp only: mod_mult_self1 mod_less)
  ultimately show "(of_nat (v div 65536) :: u8) = a" "(of_nat (v div 256) :: u8) = b" "(of_nat v :: u8) = c"
    by (simp_all add: word_of_mod)
qed

lemma decode_chunk_vals:
  fixes v0 v1 v2 v3 :: nat defines "v \<equiv> v0 * 262144 + v1 * 4096 + v2 * 64 + v3"
  assumes "sextet_val 0 c0 = Some (v0, 0)" "sextet_val 1 c1 = Some (v1, 0)"
    "sextet_val 2 c2 = Some (v2, p2)" "sextet_val 3 c3 = Some (v3, p3)"
    and l: "v0 < 64" "v1 < 64" "v2 < 64" "v3 < 64"
  shows "decode_chunk c0 c1 c2 c3 =
     (if 0 < p2 + p3 \<and> (\<exists>c \<in> set (drop (4 - (p2 + p3)) [c0, c1, c2, c3]). c \<noteq> CHR ''='') then None
      else Some (of_nat (v div 65536) # (if p2 + p3 < 2 then [of_nat (v div 256)] else []) @ (if p2 + p3 = 0 then [of_nat v] else [])))"
  unfolding decode_chunk_def assms(2-5) option.case prod.case Let_def byte_out(1)
  unfolding byte_out(2) unat_sextets [OF l] v_def by simp

lemma decode_chunk_syms:
  fixes v :: nat assumes "v div 262144 < 64"
  shows "decode_chunk (sym BASE64 (v div 262144)) (sym BASE64 (v div 4096 mod 64)) (sym BASE64 (v div 64 mod 64)) (sym BASE64 (v mod 64))
       = Some [of_nat (v div 65536), of_nat (v div 256), of_nat v]"
    "v mod 64 = 0 \<Longrightarrow> decode_chunk (sym BASE64 (v div 262144)) (sym BASE64 (v div 4096 mod 64)) (sym BASE64 (v div 64 mod 64)) (CHR ''='')
       = Some [of_nat (v div 65536), of_nat (v div 256)]"
    "v mod 64 = 0 \<Longrightarrow> v div 64 mod 64 = 0 \<Longrightarrow>
       decode_chunk (sym BASE64 (v div 262144)) (sym BASE64 (v div 4096 mod 64)) (CHR ''='') (CHR ''='') = Some [of_nat (v div 65536)]"
proof -
  note d = sextet_val_sym(1) [OF assms] sextet_val_sym(1) [of "v div 4096 mod 64"]
  note split = split_sextets [of v, symmetric]
  show "decode_chunk (sym BASE64 (v div 262144)) (sym BASE64 (v div 4096 mod 64)) (sym BASE64 (v div 64 mod 64)) (sym BASE64 (v mod 64))
       = Some [of_nat (v div 65536), of_nat (v div 256), of_nat v]"
    using decode_chunk_vals [OF d sextet_val_sym(1) sextet_val_sym(1), of "v div 64 mod 64" "v mod 64"] assms unfolding split by simp
  assume z: "v mod 64 = 0"
  show "decode_chunk (sym BASE64 (v div 262144)) (sym BASE64 (v div 4096 mod 64)) (sym BASE64 (v div 64 mod 64)) (CHR ''='')
       = Some [of_nat (v div 65536), of_nat (v div 256)]"
    using decode_chunk_vals [OF d sextet_val_sym(1), of "v div 64 mod 64" "CHR ''=''" 0 1] assms split
    unfolding z by (simp add: sextet_val_pad)
  assume z2: "v div 64 mod 64 = 0"
  show "decode_chunk (sym BASE64 (v div 262144)) (sym BASE64 (v div 4096 mod 64)) (CHR ''='') (CHR ''='') = Some [of_nat (v div 65536)]"
    using decode_chunk_vals [OF d, of "CHR ''=''" 0 1 "CHR ''=''" 0 1] assms split
    unfolding z z2 by (simp add: sextet_val_pad)
qed

lemma decode_chunk_group:
  fixes a b c :: u8 defines "w \<equiv> push_bit 16 (ucast a) OR push_bit 8 (ucast b) OR ucast c :: u32"
  shows "decode_chunk (sextet w 18) (sextet w 12) (sextet w 6) (sextet w 0) = Some [a, b, c]"
    "c = 0 \<Longrightarrow> decode_chunk (sextet w 18) (sextet w 12) (sextet w 6) (CHR ''='') = Some [a, b]"
    "c = 0 \<Longrightarrow> b = 0 \<Longrightarrow> decode_chunk (sextet w 18) (sextet w 12) (CHR ''='') (CHR ''='') = Some [a]"
proof -
  define v where "v = unat a * 65536 + unat b * 256 + unat c"
  note g = group_bytes [of a b c, folded v_def] and sx = sextets_sym [of a b c, folded v_def w_def]
  note dc = decode_chunk_syms [OF g(4)]
  show "decode_chunk (sextet w 18) (sextet w 12) (sextet w 6) (sextet w 0) = Some [a, b, c]"
    unfolding sx dc(1) g(1-3) ..
  assume c: "c = 0"
  then have "v = (unat a * 1024 + unat b * 4) * 64" by (simp add: v_def)
  then have z: "v mod 64 = 0" by simp
  show "decode_chunk (sextet w 18) (sextet w 12) (sextet w 6) (CHR ''='') = Some [a, b]"
    unfolding sx dc(2) [OF z] g(1,2) ..
  assume "b = 0"
  then have "v = (unat a * 16) * 64 * 64" using c by (simp add: v_def)
  then have z2: "v div 64 mod 64 = 0" by simp
  show "decode_chunk (sextet w 18) (sextet w 12) (CHR ''='') (CHR ''='') = Some [a]"
    unfolding sx dc(3) [OF z z2] g(1) ..
qed

lemma decode_chunks_encode: "decode_chunks (base64_encode bs) = Some bs"
proof (induction bs rule: base64_encode.induct)
  case (1 a b c rest)
  then show ?case by (simp add: Let_def decode_chunk_group(1))
next
  case (2 a)
  then show ?case using decode_chunk_group(3) [of 0 0 a] by (simp add: Let_def)
next
  case (3 a b)
  then show ?case using decode_chunk_group(2) [of 0 a b] by (simp add: Let_def)
qed simp

lemma base64_encode_length: "length (base64_encode bs) mod 4 = 0 \<and> (base64_encode bs = [] \<longleftrightarrow> bs = [])"
  by (induction bs rule: base64_encode.induct) (auto simp: Let_def)

lemma base64_decode_encode: "base64_decode (base64_encode bs) = (if bs = [] then None else Some bs)"
  using base64_encode_length [of bs] decode_chunks_encode [of bs] by (simp add: base64_decode_def)

lemma validate_client_key_encode:
  "validate_client_key (base64_encode bs) = (if length bs = 16 then Inr () else Inl InvalidHandshakeKey)"
  by (auto simp: validate_client_key_def base64_decode_encode)

section \<open>Properties of the handshake\<close>

text \<open>The base64 encoder that the WebSocket crate unrolls by hand, three bytes at a time
  over a 32-bit word, gives on every input what the generic base-N encoder gives for the standard
  padded alphabet; and the crate's decoder reads it back, the empty text excepted, which it refuses.\<close>

theorem ws_base64_is_basen:
  "encode_base64 bs = Some (base64_encode bs)
   \<and> base64_decode (base64_encode bs) = (if bs = [] then None else Some bs)"
  by (simp add: base64_encode_basen base64_decode_encode)

text \<open>
  Property C31: the opening handshake. A key that the client generates from 16 random bytes is their
  standard base64 text and passes the server's check of the key, so that the request is accepted exactly for version 13 and an origin
  of the policy, if the policy names any; a rejected request says which of the two it was, the version
  first. The answer that the server derives is accepted by the client, it is the only one that is, and
  it carries the whole digest of the key and the fixed text.
\<close>

theorem ws_handshake:
  assumes "length bs = 16" "\<And>m. length (sha1 m) = 20"
  shows "\<exists>key. generate_key (Inr bs) = Inr key \<and> encode_base64 bs = Some key
     \<and> (validate_server_handshake_request key version origin policy =
        (if trim version \<noteq> ''13'' then Inl UnsupportedWebSocketVersion
         else if allowed_origins policy = [] \<or> (\<exists>h \<in> set (allowed_origins policy). origin = Some h) then Inr ()
         else Inl OriginRejected))
     \<and> (\<forall>answer. verify_accept sha1 key answer \<longleftrightarrow> answer = derive_accept sha1 key)
     \<and> base64_decode (derive_accept sha1 key) = Some (sha1 (as_bytes key @ as_bytes ACCEPT_MAGIC))"
proof (intro exI conjI)
  show "generate_key (Inr bs) = Inr (base64_encode bs)" by (simp add: generate_key_def)
  show "encode_base64 bs = Some (base64_encode bs)" by (rule base64_encode_basen)
  show "validate_server_handshake_request (base64_encode bs) version origin policy =
     (if trim version \<noteq> ''13'' then Inl UnsupportedWebSocketVersion
      else if allowed_origins policy = [] \<or> (\<exists>h \<in> set (allowed_origins policy). origin = Some h) then Inr ()
      else Inl OriginRejected)"
    using assms(1) by (cases origin)
      (auto simp: validate_server_handshake_request_def validate_client_key_encode list_ex_iff)
  show "\<forall>answer. verify_accept sha1 (base64_encode bs) answer \<longleftrightarrow> answer = derive_accept sha1 (base64_encode bs)"
    by (auto simp: verify_accept_def)
  have "sha1 m \<noteq> []" for m using assms(2) [of m] by auto
  then show "base64_decode (derive_accept sha1 (base64_encode bs)) = Some (sha1 (as_bytes (base64_encode bs) @ as_bytes ACCEPT_MAGIC))"
    by (simp add: derive_accept_def base64_decode_encode as_bytes_def)
qed

theorem ws_handshake_witness:
  "\<exists>key. generate_key (Inr (replicate 16 7)) = Inr key
     \<and> validate_server_handshake_request key '' 13'' (Some ''https://a'') \<lparr>allowed_origins = [''https://a'']\<rparr> = Inr ()"
proof -
  have "trim '' 13'' = ''13''" by code_simp
  then show ?thesis
    using ws_handshake [of "replicate 16 7" "\<lambda>_. replicate 20 0" "'' 13''" "Some ''https://a''" "\<lparr>allowed_origins = [''https://a'']\<rparr>"]
    by auto
qed

text \<open>The decoder takes padding in every group, not only in the last: a key of sixteen padded groups,
  which is no base64 text, passes as a key of 16 bytes.\<close>

lemma ws_key_inner_padding: "validate_client_key (concat (replicate 16 ''AA=='')) = Inr ()"
  by code_simp

end
