(* ===== verification/Http1_Codec.thy ===== *)
theory Http1_Codec
  imports Basen
begin

text \<open>
  The HTTP/1.1 codec \<open>crates/http-codec/src/lib.rs\<close>: header sections with their limits, the
  framing of bodies by length or in chunks, whole requests and responses in both directions, and
  the decoder that the client feeds with what arrives.

  Bytes and text are byte strings alike, so that \<open>from_utf8\<close> is the test \<open>utf8_valid\<close>; a position
  in a buffer that a loop advances is the rest of the buffer from there. Lengths are naturals:
  the sums of the source stay below \<open>2 ^ 64\<close>, since a chunk is held against the limit of the body
  before its sz is added, with one exception, \<open>parse_chunked_trailers\<close>, whose position wraps
  as it does in a release build and which may run for ever (\<open>None\<close>).
\<close>

section \<open>Limits, messages and errors\<close>

definition MAX_HEADER_SECTION_BYTES :: nat where
  "MAX_HEADER_SECTION_BYTES = 16 * 1024"

definition MAX_HEADER_LINE_BYTES :: nat where
  "MAX_HEADER_LINE_BYTES = 8 * 1024"

definition MAX_HEADER_COUNT :: nat where
  "MAX_HEADER_COUNT = 100"

definition MAX_DECODED_BODY_BYTES :: nat where
  "MAX_DECODED_BODY_BYTES = 16 * 1024 * 1024"

definition MAX_CHUNK_COUNT :: nat where
  "MAX_CHUNK_COUNT = 100000"

type_synonym header_list = "(str \<times> str) list"

record ParsedRequest =
  pq_method :: str
  pq_target :: str
  pq_version :: str
  pq_headers :: header_list
  pq_body :: str
  pq_trailers :: header_list

record ParsedResponse =
  pr_version :: str
  pr_status :: u16
  pr_reason :: str
  pr_headers :: header_list
  pr_body :: str

record ResponseHead =
  rh_version :: str
  rh_status :: u16
  rh_reason :: str
  rh_headers :: header_list

datatype CodecError =
  Truncated | BadStartLine str | BadHeader str | BadVersion str | BadStatus str
  | BadChunkEncoding str | ContentLengthMismatch | LimitExceeded str

datatype BodyFraming = Chunked | Length nat | Eof | Empty

section \<open>Lines\<close>

abbreviation CRLF :: str where
  "CRLF \<equiv> [CHR 0x0D, CHR 0x0A]"

definition find_header_end_from :: "str \<Rightarrow> nat \<Rightarrow> nat option" where
  "find_header_end_from bytes start =
     (if length bytes < 4 then None
      else let start = min start (length bytes - 4) in
           map_option (\<lambda>i. start + i + 4) (find_str (CRLF @ CRLF) (drop start bytes)))"

definition find_header_end :: "str \<Rightarrow> nat option" where
  "find_header_end bytes = find_header_end_from bytes 0"

text \<open>The first line and the rest, at the first line end (\<open>windows(2).position\<close>).\<close>

definition split_first_line :: "str \<Rightarrow> str \<times> str" where
  "split_first_line s =
     (case find_str CRLF s of Some i \<Rightarrow> (take i s, drop (i + 2) s) | None \<Rightarrow> (s, []))"

text \<open>\<open>splitn(n, ' ')\<close>\<close>

fun splitn :: "nat \<Rightarrow> char \<Rightarrow> str \<Rightarrow> str list" where
  "splitn 0 d s = []"
| "splitn (Suc 0) d s = [s]"
| "splitn (Suc (Suc n)) d s = (case split_once d s of None \<Rightarrow> [s] | Some (a, b) \<Rightarrow> a # splitn (Suc n) d b)"

abbreviation ascii_lower :: "str \<Rightarrow> str" where
  "ascii_lower s \<equiv> map to_ascii_lowercase s"

section \<open>Headers\<close>

definition section_limit :: CodecError where
  "section_limit = LimitExceeded (''header section exceeds '' @ show_nat MAX_HEADER_SECTION_BYTES @ '' bytes'')"

definition validate_header_section :: "str \<Rightarrow> CodecError + unit" where
  "validate_header_section sec =
     (if length sec > MAX_HEADER_SECTION_BYTES then Inl section_limit else Inr ())"

definition validate_header_buffer_len :: "nat \<Rightarrow> CodecError + unit" where
  "validate_header_buffer_len len =
     (if len > MAX_HEADER_SECTION_BYTES then Inl section_limit else Inr ())"

definition case_insensitive_values :: "header_list \<Rightarrow> str \<Rightarrow> str list" where
  "case_insensitive_values headers name =
     map snd (filter (\<lambda>(n, _). ascii_lower n = ascii_lower name) headers)"

definition is_field_name_byte :: "char \<Rightarrow> bool" where
  "is_field_name_byte b \<longleftrightarrow>
     b \<in> set [CHR ''!'', CHR ''#'', CHR ''$'', CHR ''%'', CHR ''&'', CHR 0x27, CHR ''*'', CHR ''+'', CHR ''-'',
              CHR ''.'', CHR ''^'', CHR ''_'', CHR 0x60, CHR ''|'', CHR ''~'']
     \<or> is_digit b \<or> is_ascii_alphabetic b"

definition validate_header_name :: "str \<Rightarrow> CodecError + unit" where
  "validate_header_name name =
     (if name = [] then Inl (BadHeader ''empty header name'')
      else if \<not> list_all is_field_name_byte name then Inl (BadHeader (''invalid header name '' @ name))
      else Inr ())"

definition validate_header_value :: "str \<Rightarrow> CodecError + unit" where
  "validate_header_value value =
     (if list_ex (\<lambda>b. b \<in> set [CHR 0x0D, CHR 0x0A, CHR 0x00]) value
      then Inl (BadHeader ''invalid header value byte'') else Inr ())"

definition validate_http_version :: "str \<Rightarrow> CodecError + unit" where
  "validate_http_version version =
     (if version = ''HTTP/1.1'' then Inr () else Inl (BadVersion version))"

definition parse_header_line :: "str \<Rightarrow> CodecError + (str \<times> str)" where
  "parse_header_line line =
     (case split_once (CHR '':'') line of
        None \<Rightarrow> Inl (BadHeader line)
      | Some (name_raw, rest) \<Rightarrow>
          if name_raw \<noteq> trim name_raw then Inl (BadHeader ''whitespace before header colon'')
          else rbind (validate_header_name name_raw) (\<lambda>_.
            let value = trim rest in
            rbind (validate_header_value value) (\<lambda>_. Inr (name_raw, value))))"

fun parse_header_lines :: "header_list \<Rightarrow> str list \<Rightarrow> CodecError + header_list" where
  "parse_header_lines out [] = Inr out"
| "parse_header_lines out (line # lines) =
     (if line = [] then parse_header_lines out lines
      else if length line > MAX_HEADER_LINE_BYTES
      then Inl (LimitExceeded (''header line exceeds '' @ show_nat MAX_HEADER_LINE_BYTES @ '' bytes''))
      else if length out \<ge> MAX_HEADER_COUNT
      then Inl (LimitExceeded (''header count exceeds '' @ show_nat MAX_HEADER_COUNT))
      else (case parse_header_line line of
              Inl e \<Rightarrow> Inl e
            | Inr h \<Rightarrow> parse_header_lines (out @ [h]) lines))"

definition parse_headers :: "str \<Rightarrow> CodecError + header_list" where
  "parse_headers sec =
     rbind (validate_header_section sec) (\<lambda>_.
       if \<not> utf8_valid sec then Inl (BadHeader ''non-UTF-8 header bytes'')
       else parse_header_lines [] (split_str CRLF sec))"

section \<open>Framing\<close>

definition checked_body_len :: "nat \<Rightarrow> CodecError + unit" where
  "checked_body_len len =
     (if len > MAX_DECODED_BODY_BYTES
      then Inl (LimitExceeded (''decoded body exceeds '' @ show_nat MAX_DECODED_BODY_BYTES @ '' bytes'')) else Inr ())"

definition checked_add_body_len :: "nat \<Rightarrow> nat \<Rightarrow> CodecError + nat" where
  "checked_add_body_len current add =
     (if current + add \<ge> 2 ^ 64 then Inl (LimitExceeded ''decoded body length overflow'')
      else rbind (checked_body_len (current + add)) (\<lambda>_. Inr (current + add)))"

fun seen_length :: "str option \<Rightarrow> str list \<Rightarrow> CodecError + str option" where
  "seen_length seen [] = Inr seen"
| "seen_length seen (value # vs) =
     (case seen of
        Some prev \<Rightarrow>
          if prev \<noteq> trim value then Inl (BadHeader ''conflicting content-length headers'')
          else seen_length seen vs
      | None \<Rightarrow> seen_length (Some (trim value)) vs)"

definition content_length :: "header_list \<Rightarrow> CodecError + nat option" where
  "content_length headers =
     rbind (seen_length None (case_insensitive_values headers ''content-length'')) (\<lambda>seen.
       case seen of
         None \<Rightarrow> Inr None
       | Some cl \<Rightarrow> rbind (ok_or (BadHeader (''invalid content-length '' @ cl)) (parse_uint 64 cl)) (\<lambda>n. Inr (Some n)))"

definition transfer_encoding :: "header_list \<Rightarrow> CodecError + str list option" where
  "transfer_encoding headers =
     (let values = case_insensitive_values headers ''transfer-encoding'' in
      if values = [] then Inr None
      else rbind (rcollect (\<lambda>token.
               let token = trim token in
               if token = [] then Inl (BadHeader ''empty transfer-encoding token'') else Inr (ascii_lower token))
             (concat (map (split_char (CHR '','')) values))) (\<lambda>tokens. Inr (Some tokens)))"

definition is_ascii_hexdigit :: "char \<Rightarrow> bool" where
  "is_ascii_hexdigit c \<longleftrightarrow>
     is_digit c \<or> 97 \<le> byte c \<and> byte c \<le> 102 \<or> 65 \<le> byte c \<and> byte c \<le> 70"

definition hexdigit_val :: "char \<Rightarrow> nat" where
  "hexdigit_val c = (if is_digit c then byte c - 48 else if 97 \<le> byte c then byte c - 87 else byte c - 55)"

text \<open>\<open>usize::from_str_radix(s, 16)\<close> on hexadecimal digits.\<close>

definition from_str_radix16 :: "str \<Rightarrow> nat option" where
  "from_str_radix16 s =
     (let n = foldl (\<lambda>acc c. acc * 16 + hexdigit_val c) 0 s in if n < 2 ^ 64 then Some n else None)"

definition parse_chunk_size_line :: "str \<Rightarrow> CodecError + nat" where
  "parse_chunk_size_line line =
     (if \<not> utf8_valid line then Inl (BadChunkEncoding ''non-UTF-8 chunk size'')
      else let size_hex = hd (split_char (CHR '';'') line) in
           if size_hex = [] \<or> \<not> list_all is_ascii_hexdigit size_hex
           then Inl (BadChunkEncoding (''bad chunk size '' @ size_hex))
           else ok_or (BadChunkEncoding (''bad chunk size '' @ size_hex)) (from_str_radix16 size_hex))"

definition decode_framing :: "header_list \<Rightarrow> CodecError + BodyFraming option" where
  "decode_framing headers =
     rbind (transfer_encoding headers) (\<lambda>te.
     rbind (content_length headers) (\<lambda>cl.
       if te \<noteq> None \<and> cl \<noteq> None then Inl (BadHeader ''content-length with transfer-encoding'')
       else (case te of
               Some tokens \<Rightarrow>
                 if tokens = [] \<or> last tokens \<noteq> ''chunked''
                 then Inl (BadHeader ''transfer-encoding chunked must be final'')
                 else if list_ex (\<lambda>t. t \<noteq> ''chunked'') tokens then Inl (BadHeader ''unsupported transfer-encoding'')
                 else Inr (Some Chunked)
             | None \<Rightarrow>
                 (case cl of
                    Some n \<Rightarrow> rbind (checked_body_len n) (\<lambda>_. Inr (Some (Length n)))
                  | None \<Rightarrow> Inr None))))"

section \<open>Chunks\<close>

text \<open>\<open>format!("{:X}", n)\<close>\<close>

definition upper_hex_digit :: "nat \<Rightarrow> char" where
  "upper_hex_digit d = (if d < 10 then char_of (48 + d) else char_of (55 + d))"

fun show_hex :: "nat \<Rightarrow> str" where
  "show_hex n = (if n < 16 then [upper_hex_digit n] else show_hex (n div 16) @ [upper_hex_digit (n mod 16)])"

declare show_hex.simps [simp del]

definition chunked_encode :: "str list \<Rightarrow> str" where
  "chunked_encode chunks =
     concat (map (\<lambda>c. show_hex (length c) @ CRLF @ c @ CRLF) chunks) @ ''0'' @ CRLF @ CRLF"

lemma find_str_drop_shorter: "find_str CRLF s = Some i \<Longrightarrow> length (drop (i + 2) s) < length s"
  using find_str_Some_length [of CRLF s i] by simp

definition chunk_limit :: CodecError where
  "chunk_limit = LimitExceeded (''chunk count exceeds '' @ show_nat MAX_CHUNK_COUNT)"

function chunked_decode_loop :: "str \<Rightarrow> nat \<Rightarrow> str \<Rightarrow> CodecError + str" where
  "chunked_decode_loop out chunks bytes =
     (if bytes = [] then Inl (BadChunkEncoding ''no zero-chunk terminator'')
      else (case find_str CRLF bytes of
        None \<Rightarrow> Inl Truncated
      | Some line_end \<Rightarrow>
          (case parse_chunk_size_line (take line_end bytes) of
             Inl e \<Rightarrow> Inl e
           | Inr sz \<Rightarrow>
               let rest = drop (line_end + 2) bytes in
               if sz = 0
               then (if \<not> prefix CRLF rest \<and> find_str CRLF rest = None
                     then Inl (BadChunkEncoding ''missing terminator'') else Inr out)
               else if chunks \<ge> MAX_CHUNK_COUNT then Inl chunk_limit
               else (case checked_add_body_len (length out) sz of
                 Inl e \<Rightarrow> Inl e
               | Inr _ \<Rightarrow>
                   if sz > length rest then Inl (BadChunkEncoding ''chunk size exceeds remaining bytes'')
                   else let out' = out @ take sz rest; rest' = drop sz rest in
                     if length rest' < 2 then Inl (BadChunkEncoding ''incomplete: chunk CRLF not yet received'')
                     else if take 2 rest' \<noteq> CRLF then Inl (BadChunkEncoding ''chunk not followed by CRLF'')
                     else chunked_decode_loop out' (chunks + 1) (drop 2 rest')))))"
  by pat_completeness auto
termination
  by (relation "measure (\<lambda>(out, chunks, bytes). length bytes)")
     (auto dest!: find_str_Some_length)

declare chunked_decode_loop.simps [simp del]

definition chunked_decode :: "str \<Rightarrow> CodecError + str" where
  "chunked_decode bytes = chunked_decode_loop [] 0 bytes"

text \<open>\<open>i\<close> is the position of \<open>bytes\<close> in the body.\<close>

function chunked_consumed_loop :: "nat \<Rightarrow> nat \<Rightarrow> nat \<Rightarrow> str \<Rightarrow> CodecError + nat" where
  "chunked_consumed_loop decoded chunks i bytes =
     (if bytes = [] then Inl Truncated
      else (case find_str CRLF bytes of
        None \<Rightarrow> Inl (BadChunkEncoding ''missing chunk-size CRLF'')
      | Some line_end \<Rightarrow>
          (case parse_chunk_size_line (take line_end bytes) of
             Inl e \<Rightarrow> Inl e
           | Inr sz \<Rightarrow>
               let i = i + line_end + 2; rest = drop (line_end + 2) bytes in
               if sz = 0
               then (if prefix CRLF rest then Inr (i + 2)
                     else (case find_str (CRLF @ CRLF) rest of
                             None \<Rightarrow> Inl (BadChunkEncoding ''missing terminator'')
                           | Some term \<Rightarrow> Inr (i + term + 4)))
               else if chunks \<ge> MAX_CHUNK_COUNT then Inl chunk_limit
               else (case checked_add_body_len decoded sz of
                 Inl e \<Rightarrow> Inl e
               | Inr decoded \<Rightarrow>
                   if sz + 2 > length rest then Inl Truncated
                   else let rest' = drop sz rest in
                     if take 2 rest' \<noteq> CRLF then Inl (BadChunkEncoding ''chunk not followed by CRLF'')
                     else chunked_consumed_loop decoded (chunks + 1) (i + sz + 2) (drop 2 rest')))))"
  by pat_completeness auto
termination
  by (relation "measure (\<lambda>(decoded, chunks, i, bytes). length bytes)")
     (auto dest!: find_str_Some_length)

declare chunked_consumed_loop.simps [simp del]

definition chunked_consumed_len :: "str \<Rightarrow> CodecError + nat" where
  "chunked_consumed_len bytes = chunked_consumed_loop 0 0 0 bytes"

section \<open>Trailers\<close>

text \<open>\<open>String::from_utf8_lossy\<close>: an ill-formed sequence becomes one U+FFFD per maximal prefix of a character.\<close>

definition bad_seq_len :: "str \<Rightarrow> nat" where
  "bad_seq_len s =
     (let b = byte (hd s); ts = tl s in
      if utf8_need b = None \<or> ts = [] \<or> \<not> utf8_tail_ok b (take 1 ts) then 1
      else if length ts < 2 \<or> \<not> utf8_tail_ok b (take 2 ts) then 2
      else 3)"

function from_utf8_lossy :: "str \<Rightarrow> str" where
  "from_utf8_lossy s =
     (if s = [] then []
      else (case utf8_char_len s of
              Some n \<Rightarrow> take n s @ from_utf8_lossy (drop n s)
            | None \<Rightarrow> [CHR 0xEF, CHR 0xBF, CHR 0xBD] @ from_utf8_lossy (drop (bad_seq_len s) s)))"
  by pat_completeness auto
termination
  by (relation "measure length") (auto dest: utf8_char_len_bounds simp: bad_seq_len_def Let_def)

declare from_utf8_lossy.simps [simp del]

definition trailer_of_line :: "str \<Rightarrow> header_list" where
  "trailer_of_line line =
     (case split_once (CHR '':'') line of
        None \<Rightarrow> []
      | Some (n, v) \<Rightarrow>
          let name = trim (from_utf8_lossy n); val = trim (from_utf8_lossy v) in
          if name \<noteq> [] then [(name, val)] else [])"

function trailer_lines :: "str \<Rightarrow> header_list" where
  "trailer_lines bytes =
     (case find_str CRLF bytes of
        None \<Rightarrow> []
      | Some rel \<Rightarrow>
          if rel = 0 then [] else trailer_of_line (take rel bytes) @ trailer_lines (drop (rel + 2) bytes))"
  by pat_completeness auto
termination
  by (relation "measure length") (auto dest: find_str_drop_shorter)

declare trailer_lines.simps [simp del]

partial_function (option) chunked_trailers_loop :: "str \<Rightarrow> nat \<Rightarrow> header_list option" where
  [code]: "chunked_trailers_loop bytes i =
     (if i \<ge> length bytes then Some []
      else (case find_str CRLF (drop i bytes) of
        None \<Rightarrow> Some []
      | Some rel \<Rightarrow>
          (case parse_chunk_size_line (take rel (drop i bytes)) of
             Inl _ \<Rightarrow> Some []
           | Inr sz \<Rightarrow>
               if sz = 0 then Some (trailer_lines (drop (i + rel + 2) bytes))
               else let i' = (i + rel + 2 + sz) mod 2 ^ 64 in
                 if (i' + 2) mod 2 ^ 64 > length bytes then Some []
                 else chunked_trailers_loop bytes ((i' + 2) mod 2 ^ 64))))"

definition parse_chunked_trailers :: "str \<Rightarrow> header_list option" where
  "parse_chunked_trailers bytes = chunked_trailers_loop bytes 0"

section \<open>Reading whole messages\<close>

definition decode_body :: "header_list \<Rightarrow> str \<Rightarrow> CodecError + str" where
  "decode_body headers body_bytes =
     rbind (decode_framing headers) (\<lambda>fr.
       case fr of
         Some Chunked \<Rightarrow> chunked_decode body_bytes
       | Some (Length n) \<Rightarrow>
           rbind (checked_body_len n) (\<lambda>_.
             if length body_bytes < n then Inl ContentLengthMismatch else Inr (take n body_bytes))
       | Some Empty \<Rightarrow> Inr []
       | _ \<Rightarrow> rbind (checked_body_len (length body_bytes)) (\<lambda>_. Inr body_bytes))"

definition decode_body_exact :: "header_list \<Rightarrow> str \<Rightarrow> CodecError + str" where
  "decode_body_exact headers body_bytes =
     rbind (decode_framing headers) (\<lambda>fr.
       case fr of
         Some (Length n) \<Rightarrow>
           if length body_bytes \<noteq> n then Inl ContentLengthMismatch else decode_body headers body_bytes
       | _ \<Rightarrow> decode_body headers body_bytes)"

definition is_chunked :: "header_list \<Rightarrow> bool" where
  "is_chunked headers \<longleftrightarrow>
     list_ex (\<lambda>(k, v). ascii_lower k = ''transfer-encoding'' \<and> contains_str ''chunked'' (ascii_lower v)) headers"

text \<open>A request up to its trailers, with the bytes in which they are looked for.\<close>

definition parse_request_body :: "str \<Rightarrow> CodecError + (ParsedRequest \<times> str)" where
  "parse_request_body bytes =
     rbind (ok_or Truncated (find_header_end bytes)) (\<lambda>header_end.
     let header_section = take (header_end - 4) bytes; body_section = drop header_end bytes in
     rbind (validate_header_section header_section) (\<lambda>_.
     let (start_line, headers_bytes) = split_first_line header_section in
     if \<not> utf8_valid start_line then Inl (BadStartLine ''non-UTF-8 start line'')
     else
       let parts = splitn 3 (CHR '' '') start_line in
       if length parts \<noteq> 3 then Inl (BadStartLine start_line)
       else
         rbind (validate_http_version (parts ! 2)) (\<lambda>_.
         rbind (parse_headers headers_bytes) (\<lambda>headers.
         rbind (decode_body_exact headers body_section) (\<lambda>body.
           Inr (\<lparr>pq_method = parts ! 0, pq_target = parts ! 1, pq_version = parts ! 2, pq_headers = headers,
                 pq_body = body, pq_trailers = []\<rparr>, body_section))))))"

text \<open>\<open>None\<close>: the search for trailers does not end.\<close>

definition parse_request :: "str \<Rightarrow> (CodecError + ParsedRequest) option" where
  "parse_request bytes =
     (case parse_request_body bytes of
        Inl e \<Rightarrow> Some (Inl e)
      | Inr (req, body_section) \<Rightarrow>
          if is_chunked (pq_headers req)
          then map_option (\<lambda>ts. Inr (req\<lparr>pq_trailers := ts\<rparr>)) (parse_chunked_trailers body_section)
          else Some (Inr req))"

definition parse_head_section :: "str \<Rightarrow> CodecError + ResponseHead" where
  "parse_head_section header_section =
     rbind (validate_header_section header_section) (\<lambda>_.
     let (status_line, headers_bytes) = split_first_line header_section in
     if \<not> utf8_valid status_line then Inl (BadStartLine ''non-UTF-8 status line'')
     else
       let parts = splitn 3 (CHR '' '') status_line in
       if length parts < 2 then Inl (BadStartLine status_line)
       else rbind (validate_http_version (parts ! 0)) (\<lambda>_.
            rbind (ok_or (BadStatus (parts ! 1)) (parse_u16 (parts ! 1))) (\<lambda>status.
            rbind (parse_headers headers_bytes) (\<lambda>headers.
              Inr \<lparr>rh_version = parts ! 0, rh_status = status,
                   rh_reason = (if length parts = 3 then parts ! 2 else []), rh_headers = headers\<rparr>))))"

definition parse_response :: "str \<Rightarrow> CodecError + ParsedResponse" where
  "parse_response bytes =
     rbind (ok_or Truncated (find_header_end bytes)) (\<lambda>header_end.
     rbind (parse_head_section (take (header_end - 4) bytes)) (\<lambda>head.
     rbind (decode_body_exact (rh_headers head) (drop header_end bytes)) (\<lambda>body.
       Inr \<lparr>pr_version = rh_version head, pr_status = rh_status head, pr_reason = rh_reason head,
            pr_headers = rh_headers head, pr_body = body\<rparr>)))"

definition message_consumed_len :: "str \<Rightarrow> CodecError + nat" where
  "message_consumed_len bytes =
     rbind (ok_or Truncated (find_header_end bytes)) (\<lambda>header_end.
       let header_section = take (header_end - 4) bytes in
       rbind (validate_header_section header_section) (\<lambda>_.
       rbind (parse_headers (snd (split_first_line header_section))) (\<lambda>headers.
       rbind (decode_framing headers) (\<lambda>fr.
         case fr of
           Some (Length n) \<Rightarrow>
             if length (drop header_end bytes) < n then Inl ContentLengthMismatch else Inr (header_end + n)
         | Some Chunked \<Rightarrow> rbind (chunked_consumed_len (drop header_end bytes)) (\<lambda>n. Inr (header_end + n))
         | _ \<Rightarrow> Inr header_end))))"

section \<open>Writing messages\<close>

definition write_header :: "str \<times> str \<Rightarrow> CodecError + str" where
  "write_header h =
     rbind (validate_header_name (fst h)) (\<lambda>_.
     rbind (validate_header_value (snd h)) (\<lambda>_. Inr (fst h @ '': '' @ snd h @ CRLF)))"

definition has_header :: "str \<Rightarrow> header_list \<Rightarrow> bool" where
  "has_header name headers \<longleftrightarrow> list_ex (\<lambda>(n, _). ascii_lower n = name) headers"

definition write_headers :: "header_list \<Rightarrow> nat \<Rightarrow> bool \<Rightarrow> CodecError + str" where
  "write_headers headers body_len auto_content_length =
     rbind (rcollect write_header headers) (\<lambda>lines.
       let has_cl = has_header ''content-length'' headers; has_te = has_header ''transfer-encoding'' headers in
       if has_cl \<and> has_te then Inl (BadHeader ''content-length with transfer-encoding'')
       else Inr (concat lines
         @ (if auto_content_length \<and> \<not> has_cl \<and> \<not> has_te
            then ''Content-Length: '' @ show_nat body_len @ CRLF else [])))"

definition method_omits_bodyless_content_length :: "str \<Rightarrow> bool" where
  "method_omits_bodyless_content_length m \<longleftrightarrow>
     map to_ascii_uppercase m \<in> set [''GET'', ''HEAD'', ''DELETE'', ''OPTIONS'', ''TRACE'', ''CONNECT'']"

definition try_serialize_request :: "str \<Rightarrow> str \<Rightarrow> header_list \<Rightarrow> str \<Rightarrow> CodecError + str" where
  "try_serialize_request m target headers body =
     (let auto_content_length = (\<not> (body = [] \<and> method_omits_bodyless_content_length m)) in
      rbind (write_headers headers (length body) auto_content_length) (\<lambda>hs.
        Inr (m @ '' '' @ target @ '' HTTP/1.1'' @ CRLF @ hs @ CRLF @ body)))"

definition try_serialize_response :: "u16 \<Rightarrow> str \<Rightarrow> header_list \<Rightarrow> str \<Rightarrow> CodecError + str" where
  "try_serialize_response status reason headers body =
     rbind (write_headers headers (length body) True) (\<lambda>hs.
       Inr (''HTTP/1.1 '' @ show_nat (unat status) @ '' '' @ reason @ CRLF @ hs @ CRLF @ body))"

definition try_serialize_response_head :: "u16 \<Rightarrow> str \<Rightarrow> header_list \<Rightarrow> CodecError + str" where
  "try_serialize_response_head status reason headers =
     rbind (write_headers headers 0 False) (\<lambda>hs.
       Inr (''HTTP/1.1 '' @ show_nat (unat status) @ '' '' @ reason @ CRLF @ hs @ CRLF))"

text \<open>\<open>None\<close>: the panic of \<open>expect\<close>.\<close>

definition serialize_request :: "str \<Rightarrow> str \<Rightarrow> header_list \<Rightarrow> str \<Rightarrow> str option" where
  "serialize_request m target headers body = ok_opt (try_serialize_request m target headers body)"

definition serialize_response :: "u16 \<Rightarrow> str \<Rightarrow> header_list \<Rightarrow> str \<Rightarrow> str option" where
  "serialize_response status reason headers body = ok_opt (try_serialize_response status reason headers body)"

section \<open>The decoder\<close>

definition body_framing :: "ResponseHead \<Rightarrow> CodecError + BodyFraming" where
  "body_framing head =
     (if rh_status head < 200 \<or> rh_status head = 204 \<or> rh_status head = 304 then Inr Empty
      else rbind (decode_framing (rh_headers head)) (\<lambda>fr. Inr (unwrap_or Eof fr)))"

datatype ChunkState = CSize | CData nat | CDataCrlf | CTrailer

record ResponseDecoder =
  buf :: str
  header_scan_start :: nat
  rd_head :: "ResponseHead option" \<comment> \<open>\<open>head\<close>\<close>
  rd_framing :: BodyFraming \<comment> \<open>\<open>framing\<close>\<close>
  emitted :: nat
  chunks_seen :: nat
  chunk :: ChunkState
  complete :: bool
  closed :: bool
  rd_trailers :: header_list \<comment> \<open>\<open>trailers\<close>\<close>

definition ResponseDecoder_new :: ResponseDecoder where
  "ResponseDecoder_new =
     \<lparr>buf = [], header_scan_start = 0, rd_head = None, rd_framing = Eof, emitted = 0, chunks_seen = 0,
      chunk = CSize, complete = False, closed = False, rd_trailers = []\<rparr>"

definition decoder_push :: "str \<Rightarrow> ResponseDecoder \<Rightarrow> ResponseDecoder" where
  "decoder_push bytes d = d\<lparr>buf := buf d @ bytes\<rparr>"

definition decoder_close :: "ResponseDecoder \<Rightarrow> ResponseDecoder" where
  "decoder_close d =
     (let d = d\<lparr>closed := True\<rparr> in
      if rd_head d \<noteq> None \<and> rd_framing d = Eof \<and> buf d = [] then d\<lparr>complete := True\<rparr> else d)"

definition decoder_head :: "ResponseDecoder \<Rightarrow> (CodecError + ResponseHead option) \<times> ResponseDecoder" where
  "decoder_head d =
     (if rd_head d \<noteq> None then (Inr (rd_head d), d)
      else (case find_header_end_from (buf d) (header_scan_start d) of
        None \<Rightarrow>
          (case validate_header_buffer_len (length (buf d) - 3) of
             Inl e \<Rightarrow> (Inl e, d)
           | Inr _ \<Rightarrow>
               if closed d \<and> buf d \<noteq> [] then (Inl Truncated, d)
               else (Inr None, d\<lparr>header_scan_start := length (buf d) - 3\<rparr>))
      | Some e \<Rightarrow>
          (case parse_head_section (take (e - 4) (buf d)) of
             Inl err \<Rightarrow> (Inl err, d)
           | Inr head \<Rightarrow>
               (case body_framing head of
                  Inl err \<Rightarrow> (Inl err, d)
                | Inr fr \<Rightarrow>
                    let d = d\<lparr>rd_framing := fr, buf := drop e (buf d)\<rparr>;
                        d = (if fr = Empty \<or> fr = Length 0 then d\<lparr>complete := True\<rparr> else d);
                        d = d\<lparr>rd_head := Some head\<rparr> in
                    (Inr (Some head), d)))))"

definition decoder_framing :: "ResponseDecoder \<Rightarrow> (CodecError + BodyFraming option) \<times> ResponseDecoder" where
  "decoder_framing d =
     (case decoder_head d of
        (Inl e, d) \<Rightarrow> (Inl e, d)
      | (Inr None, d) \<Rightarrow> (Inr None, d)
      | (Inr (Some _), d) \<Rightarrow> (Inr (Some (rd_framing d)), d))"

text \<open>The inner loop of the trailer state: the rest of the buffer, whether the empty line was found, and the trailers.\<close>

function trailer_loop :: "str \<Rightarrow> header_list \<Rightarrow> str \<times> bool \<times> header_list" where
  "trailer_loop bytes ts =
     (case find_str CRLF bytes of
        None \<Rightarrow> (bytes, False, ts)
      | Some rel \<Rightarrow>
          if rel = 0 then (drop 2 bytes, True, ts)
          else trailer_loop (drop (rel + 2) bytes) (ts @ trailer_of_line (take rel bytes)))"
  by pat_completeness auto
termination
  by (relation "measure (\<lambda>(bytes, ts). length bytes)") (auto dest: find_str_drop_shorter)

declare trailer_loop.simps [simp del]

definition chunk_rank :: "ChunkState \<Rightarrow> nat" where
  "chunk_rank c = (case c of CData _ \<Rightarrow> 1 | _ \<Rightarrow> 0)"

function read_chunked :: "str \<Rightarrow> ResponseDecoder \<Rightarrow> (CodecError + str) \<times> ResponseDecoder" where
  "read_chunked out d =
     (case chunk d of
        CSize \<Rightarrow>
          (case find_str CRLF (buf d) of
             None \<Rightarrow>
               if closed d then (Inl (BadChunkEncoding ''connection closed mid chunk-size''), d) else (Inr out, d)
           | Some line_end \<Rightarrow>
               (case parse_chunk_size_line (take line_end (buf d)) of
                  Inl e \<Rightarrow> (Inl e, d)
                | Inr sz \<Rightarrow>
                    let d' = d\<lparr>buf := drop (line_end + 2) (buf d)\<rparr> in
                    if sz = 0 then read_chunked out (d'\<lparr>chunk := CTrailer\<rparr>)
                    else if chunks_seen d \<ge> MAX_CHUNK_COUNT then (Inl chunk_limit, d')
                    else let d'' = d'\<lparr>chunks_seen := chunks_seen d + 1\<rparr> in
                      (case checked_add_body_len (emitted d) sz of
                         Inl e \<Rightarrow> (Inl e, d'')
                       | Inr _ \<Rightarrow> read_chunked out (d''\<lparr>chunk := CData sz\<rparr>))))
      | CData remaining \<Rightarrow>
          if buf d = []
          then if closed d then (Inl (BadChunkEncoding ''connection closed mid chunk''), d) else (Inr out, d)
          else let tk = min remaining (length (buf d)) in
            (case checked_add_body_len (emitted d) tk of
               Inl e \<Rightarrow> (Inl e, d)
             | Inr _ \<Rightarrow>
                 read_chunked (out @ take tk (buf d))
                   (d\<lparr>buf := drop tk (buf d), emitted := emitted d + tk,
                      chunk := (if tk = remaining then CDataCrlf else CData (remaining - tk))\<rparr>))
      | CDataCrlf \<Rightarrow>
          if length (buf d) < 2 then (Inr out, d)
          else if take 2 (buf d) \<noteq> CRLF then (Inl (BadChunkEncoding ''missing chunk CRLF''), d)
          else read_chunked out (d\<lparr>buf := drop 2 (buf d), chunk := CSize\<rparr>)
      | CTrailer \<Rightarrow>
          (case trailer_loop (buf d) (rd_trailers d) of
             (rest, done, ts) \<Rightarrow>
               (Inr out, d\<lparr>buf := rest, rd_trailers := ts, complete := (complete d \<or> done)\<rparr>)))"
  by pat_completeness auto
termination
  by (relation "measures [\<lambda>(out, d). length (buf d), \<lambda>(out, d). chunk_rank (chunk d)]")
     (auto simp: chunk_rank_def min_def dest!: find_str_Some_length)

declare read_chunked.simps [simp del]

definition read_body :: "ResponseDecoder \<Rightarrow> (CodecError + str) \<times> ResponseDecoder" where
  "read_body d =
     (case decoder_head d of
        (Inl e, d) \<Rightarrow> (Inl e, d)
      | (Inr h, d) \<Rightarrow>
          if h = None \<or> complete d then (Inr [], d)
          else (case rd_framing d of
            Empty \<Rightarrow> (Inr [], d)
          | Length n \<Rightarrow>
              (case checked_body_len n of
                 Inl e \<Rightarrow> (Inl e, d)
               | Inr _ \<Rightarrow>
                   let want = n - emitted d; tk = min want (length (buf d)); out = take tk (buf d);
                       d = d\<lparr>buf := drop tk (buf d), emitted := emitted d + tk\<rparr> in
                   if emitted d = n then (Inr out, d\<lparr>complete := True\<rparr>)
                   else if closed d then (Inl ContentLengthMismatch, d)
                   else (Inr out, d))
          | Eof \<Rightarrow>
              (case checked_add_body_len (emitted d) (length (buf d)) of
                 Inl e \<Rightarrow> (Inl e, d)
               | Inr _ \<Rightarrow>
                   (Inr (buf d),
                    d\<lparr>buf := [], emitted := emitted d + length (buf d), complete := (complete d \<or> closed d)\<rparr>))
          | Chunked \<Rightarrow> read_chunked [] d))"

end
