(* ===== verification/Http1_Stream.thy ===== *)
theory Http1_Stream
  imports Http1_Codec
begin

text \<open>
  The decoder of \<open>Http1_Codec\<close> on a response that arrives in pieces. The locale \<open>resumable\<close> is the
  contract of a reader that can be fed at any time: what it has read is a prefix of what it would
  have read from more input, and it goes on from there. In it, reading after every piece is shown
  to be reading once; it is interpreted on the decoder, up to the place from which the search for
  the end of the head is resumed, which is shown not to matter.
\<close>

section \<open>Searching\<close>

lemma prefix_short: "length pat \<le> length a \<Longrightarrow> prefix pat (a @ b) \<longleftrightarrow> prefix pat a"
  by (metis prefix_length_prefix prefix_prefix prefixI)

lemma find_str_append: "find_str pat s = Some i \<Longrightarrow> find_str pat (s @ t) = Some i"
proof (induction pat s arbitrary: i rule: find_str.induct)
  case (1 pat)
  then show ?case by (cases t) (auto split: if_splits)
next
  case (2 pat c cs)
  show ?case
  proof (cases "prefix pat (c # cs)")
    case True
    then have "prefix pat (c # cs @ t)" using prefix_prefix [of pat "c # cs" t] by simp
    then show ?thesis using "2.prems" True by simp
  next
    case False
    then obtain j where j: "find_str pat cs = Some j" "i = Suc j" using "2.prems" by auto
    then have "\<not> prefix pat (c # cs @ t)" using False find_str_Some_length [OF j(1)] prefix_short [of pat "c # cs" t] by simp
    then show ?thesis using "2.IH" [OF False j(1)] j(2) by simp
  qed
qed

lemma find_str_prefix: "find_str pat s = Some i \<Longrightarrow> prefix pat (drop i s)"
  by (induction pat s arbitrary: i rule: find_str.induct) (auto split: if_splits)

lemma find_str_least: "find_str pat s = None \<Longrightarrow> i + length pat \<le> length s \<Longrightarrow> \<not> prefix pat (drop i s)"
proof (induction pat s arbitrary: i rule: find_str.induct)
  case (2 pat c cs)
  then show ?case by (cases i) (auto split: if_splits)
qed auto

lemma find_str_None_append:
  assumes "find_str pat s = None" "find_str pat (s @ t) = Some i"
  shows "length s < i + length pat"
proof (rule ccontr)
  assume "\<not> length s < i + length pat"
  then have le: "i + length pat \<le> length s" by simp
  have "prefix pat (drop i s @ drop (i - length s) t)" using find_str_prefix [OF assms(2)] by simp
  then have "prefix pat (drop i s)" using le prefix_short [of pat "drop i s"] by simp
  then show False using find_str_least [OF assms(1) le] by simp
qed

text \<open>If the pattern does not begin before position \<open>k\<close>, the search can start there.\<close>

lemma find_str_skip:
  assumes "k \<le> length s" "pat \<noteq> []" "find_str pat (take (k + length pat - 1) s) = None"
  shows "find_str pat s = map_option ((+) k) (find_str pat (drop k s))"
  using assms
proof (induction k arbitrary: s)
  case 0
  then show ?case by (cases "find_str pat s") simp_all
next
  case (Suc k)
  then obtain c cs where s: "s = c # cs" by (cases s) auto
  have l: "take (Suc k + length pat - 1) s = c # take (k + length pat - 1) cs"
    using Suc.prems(2) s by (cases pat) auto
  then have n: "\<not> prefix pat (c # take (k + length pat - 1) cs)" and f: "find_str pat (take (k + length pat - 1) cs) = None"
    using Suc.prems(3) by (auto split: if_splits)
  have "\<not> prefix pat (c # cs)"
  proof
    assume "prefix pat (c # cs)"
    then have "prefix pat (take (Suc k + length pat - 1) s @ drop (Suc k + length pat - 1) s)" unfolding s by (simp only: append_take_drop_id)
    moreover have "length pat \<le> length s" using \<open>prefix pat (c # cs)\<close> s prefix_length_le by blast
    ultimately have "prefix pat (take (Suc k + length pat - 1) s)" using Suc.prems(2)
      by (subst (asm) prefix_short) (auto simp: min_def)
    then show False using n l by simp
  qed
  then show ?case using Suc.IH [of cs] Suc.prems(1,2) f s by (simp add: option.map_comp comp_def)
qed

section \<open>Readers that can be fed at any time\<close>

text \<open>The result of a read with earlier output in front.\<close>

definition prep :: "'o list \<Rightarrow> ('e + 'o list) \<times> 's \<Rightarrow> ('e + 'o list) \<times> 's" where
  "prep out r = (map_sum id ((@) out) (fst r), snd r)"

lemma prep_simps [simp]: "prep out (Inl e, s) = (Inl e, s)" "prep out (Inr x, s) = (Inr (out @ x), s)"
  "prep [] r = r" "prep a (prep b r) = prep (a @ b) r"
  by (cases "fst r"; cases r; simp add: prep_def)+

text \<open>Feed and read, piece by piece, until a read fails.\<close>

fun drive :: "('b list \<Rightarrow> 's \<Rightarrow> 's) \<Rightarrow> ('s \<Rightarrow> ('e + 'o list) \<times> 's) \<Rightarrow> 'b list list \<Rightarrow> 's \<Rightarrow> ('e + 'o list) \<times> 's" where
  "drive push read [] s = (Inr [], s)"
| "drive push read (p # ps) s =
     (case read (push p s) of (Inl e, s') \<Rightarrow> (Inl e, s') | (Inr out, s') \<Rightarrow> prep out (drive push read ps s'))"

text \<open>The same outcome: the same kind of error, or the same output and the same state.\<close>

definition same :: "('e \<Rightarrow> 'k) \<Rightarrow> ('e + 'a) \<times> 's \<Rightarrow> ('e + 'a) \<times> 's \<Rightarrow> bool" where
  "same kind r r' \<longleftrightarrow> map_sum kind id (fst r) = map_sum kind id (fst r') \<and> (is_ok (fst r) \<longrightarrow> snd r = snd r')"

lemma same_refl [simp]: "same kind r r"
  by (simp add: same_def)

lemma same_trans: "same kind r r' \<Longrightarrow> same kind r' r'' \<Longrightarrow> same kind r r''"
  by (cases "fst r"; cases "fst r'"; cases "fst r''") (auto simp: same_def)

lemma same_sym: "same kind r r' \<Longrightarrow> same kind r' r"
  by (cases "fst r"; cases "fst r'") (auto simp: same_def)

lemma same_prep: "same kind r r' \<Longrightarrow> same kind (prep out r) (prep out r')"
  by (cases "fst r"; cases "fst r'") (auto simp: same_def prep_def)

lemma same_Inl: "same kind (Inl e, s) r \<longleftrightarrow> (\<exists>e'. fst r = Inl e' \<and> kind e' = kind e)"
  by (cases "fst r") (auto simp: same_def)

lemma same_Inr: "same kind (Inr x, s) r \<longleftrightarrow> r = (Inr x, s)"
  by (cases r; cases "fst r") (auto simp: same_def)

locale resumable =
  fixes push :: "'b list \<Rightarrow> 's \<Rightarrow> 's"
    and read :: "'s \<Rightarrow> ('e + 'o list) \<times> 's"
    and ok :: "'s \<Rightarrow> bool"
    and kind :: "'e \<Rightarrow> 'k"
  assumes push_append: "push (a @ b) s = push b (push a s)"
    and push_ok: "ok s \<Longrightarrow> ok (push p s)"
    and read_ok: "ok s \<Longrightarrow> read s = (Inr out, s') \<Longrightarrow> ok s'"
    and read_fail: "ok s \<Longrightarrow> read s = (Inl e, s') \<Longrightarrow> same kind (Inl e, s') (read (push p s))"
    and read_resume: "ok s \<Longrightarrow> read s = (Inr out, s') \<Longrightarrow> same kind (prep out (read (push p s'))) (read (push p s))"
begin

lemma drive_once: "ok s \<Longrightarrow> same kind (drive push read (p # ps) s) (read (push (p @ concat ps) s))"
proof (induction ps arbitrary: p s)
  case Nil
  then show ?case by (auto split: prod.splits sum.splits)
next
  case (Cons q qs)
  let ?whole = "read (push (q @ concat qs) (push p s))"
  have ok: "ok (push p s)" using Cons.prems by (rule push_ok)
  show ?case
  proof (cases "read (push p s)")
    case (Pair r s')
    show ?thesis
    proof (cases r)
      case (Inl e)
      then show ?thesis using read_fail [OF ok, of e s' "q @ concat qs"] Pair by (simp add: push_append)
    next
      case (Inr out)
      have "same kind (prep out (drive push read (q # qs) s')) (prep out (read (push (q @ concat qs) s')))"
        using Cons.IH [OF read_ok [OF ok]] Pair Inr by (intro same_prep) blast
      then show ?thesis using read_resume [OF ok, of out s' "q @ concat qs"] Pair Inr
        by (simp add: push_append del: drive.simps(2)) (subst drive.simps, auto intro: same_trans)
    qed
  qed
qed

end

section \<open>Chunks\<close>

text \<open>While a chunk is open, it fits the limit of the body.\<close>

definition chunk_ok :: "ResponseDecoder \<Rightarrow> bool" where
  "chunk_ok d \<longleftrightarrow> (\<forall>r. chunk d = CData r \<longrightarrow> emitted d + r \<le> MAX_DECODED_BODY_BYTES)"

lemma body_limit_small: "MAX_DECODED_BODY_BYTES < 2 ^ 64"
  by (simp add: MAX_DECODED_BODY_BYTES_def)

lemma checked_add_ok [simp]: "a + b \<le> MAX_DECODED_BODY_BYTES \<Longrightarrow> checked_add_body_len a b = Inr (a + b)"
  using body_limit_small by (simp add: checked_add_body_len_def checked_body_len_def)

lemma checked_add_Inr: "checked_add_body_len a b = Inr n \<Longrightarrow> n = a + b \<and> a + b \<le> MAX_DECODED_BODY_BYTES"
  by (auto simp: checked_add_body_len_def checked_body_len_def split: if_splits)

text \<open>One round of the loop: it stops, with an error or without, or goes on with more output.\<close>

datatype chunk_next = Halt "CodecError option" ResponseDecoder | Go str ResponseDecoder

definition chunk_step :: "ResponseDecoder \<Rightarrow> chunk_next" where
  "chunk_step d =
     (case chunk d of
        CSize \<Rightarrow>
          (case find_str CRLF (buf d) of
             None \<Rightarrow> Halt (if closed d then Some (BadChunkEncoding ''connection closed mid chunk-size'') else None) d
           | Some line_end \<Rightarrow>
               (case parse_chunk_size_line (take line_end (buf d)) of
                  Inl e \<Rightarrow> Halt (Some e) d
                | Inr sz \<Rightarrow>
                    let d' = d\<lparr>buf := drop (line_end + 2) (buf d)\<rparr> in
                    if sz = 0 then Go [] (d'\<lparr>chunk := CTrailer\<rparr>)
                    else if chunks_seen d \<ge> MAX_CHUNK_COUNT then Halt (Some chunk_limit) d'
                    else let d'' = d'\<lparr>chunks_seen := chunks_seen d + 1\<rparr> in
                      (case checked_add_body_len (emitted d) sz of
                         Inl e \<Rightarrow> Halt (Some e) d''
                       | Inr _ \<Rightarrow> Go [] (d''\<lparr>chunk := CData sz\<rparr>))))
      | CData remaining \<Rightarrow>
          if buf d = [] then Halt (if closed d then Some (BadChunkEncoding ''connection closed mid chunk'') else None) d
          else let tk = min remaining (length (buf d)) in
            (case checked_add_body_len (emitted d) tk of
               Inl e \<Rightarrow> Halt (Some e) d
             | Inr _ \<Rightarrow>
                 Go (take tk (buf d))
                   (d\<lparr>buf := drop tk (buf d), emitted := emitted d + tk,
                      chunk := (if tk = remaining then CDataCrlf else CData (remaining - tk))\<rparr>))
      | CDataCrlf \<Rightarrow>
          if length (buf d) < 2 then Halt None d
          else if take 2 (buf d) \<noteq> CRLF then Halt (Some (BadChunkEncoding ''missing chunk CRLF'')) d
          else Go [] (d\<lparr>buf := drop 2 (buf d), chunk := CSize\<rparr>)
      | CTrailer \<Rightarrow>
          (case trailer_loop (buf d) (rd_trailers d) of
             (rest, done, ts) \<Rightarrow> Halt None (d\<lparr>buf := rest, rd_trailers := ts, complete := (complete d \<or> done)\<rparr>)))"

definition halt :: "CodecError option \<Rightarrow> str \<Rightarrow> CodecError + str" where
  "halt e out = (case e of None \<Rightarrow> Inr out | Some e \<Rightarrow> Inl e)"

lemma read_chunked_step:
  "read_chunked out d = (case chunk_step d of Halt e d' \<Rightarrow> (halt e out, d') | Go x d' \<Rightarrow> read_chunked (out @ x) d')"
  unfolding read_chunked.simps [of out d] chunk_step_def Let_def
  by (cases "chunk d"; cases "closed d")
     (simp_all add: halt_def split: option.split sum.split prod.split)

lemma chunk_step_less:
  "chunk_step d = Go x d' \<Longrightarrow> (d', d) \<in> measures [\<lambda>d. length (buf d), \<lambda>d. chunk_rank (chunk d)]"
  by (auto simp: chunk_step_def Let_def chunk_rank_def min_def dest!: find_str_Some_length
      split: ChunkState.splits option.splits sum.splits prod.splits if_splits)

lemma chunk_loop_induct [case_names step]:
  assumes "\<And>d. (\<And>x d'. chunk_step d = Go x d' \<Longrightarrow> P d') \<Longrightarrow> P d"
  shows "P d"
proof (induction d rule: wf_induct_rule [OF wf_measures [of "[\<lambda>d. length (buf d), \<lambda>d. chunk_rank (chunk d)]"]])
  case (1 d)
  then show ?case using assms chunk_step_less by blast
qed

lemma read_chunked_prep: "read_chunked out d = prep out (read_chunked [] d)"
proof (induction d arbitrary: out rule: chunk_loop_induct)
  case (step d)
  show ?case
  proof (cases "chunk_step d")
    case (Halt e d')
    then show ?thesis by (cases e) (simp_all add: read_chunked_step [of _ d] halt_def)
  next
    case (Go x d')
    then show ?thesis using step [OF Go, of "out @ x"] step [OF Go, of x] by (simp add: read_chunked_step [of _ d])
  qed
qed

lemma chunk_step_ok: "chunk_ok d \<Longrightarrow> chunk_step d = Go x d' \<Longrightarrow> chunk_ok d'"
  by (auto simp: chunk_step_def chunk_ok_def Let_def dest!: checked_add_Inr
      split: ChunkState.splits option.splits sum.splits prod.splits if_splits)

lemma decoder_push_simps [simp]:
  "buf (decoder_push p d) = buf d @ p" "chunk (decoder_push p d) = chunk d" "closed (decoder_push p d) = closed d"
  "emitted (decoder_push p d) = emitted d" "chunks_seen (decoder_push p d) = chunks_seen d"
  "complete (decoder_push p d) = complete d" "rd_trailers (decoder_push p d) = rd_trailers d"
  "rd_head (decoder_push p d) = rd_head d" "rd_framing (decoder_push p d) = rd_framing d"
  "header_scan_start (decoder_push p d) = header_scan_start d" "decoder_push [] d = d"
  "decoder_push b (decoder_push a d) = decoder_push (a @ b) d"
  by (simp_all add: decoder_push_def)

lemma chunk_ok_push [simp]: "chunk_ok (decoder_push p d) = chunk_ok d"
  by (simp add: chunk_ok_def)

lemma trailer_loop_append:
  "trailer_loop bytes ts = (rest, fin, ts')
   \<Longrightarrow> trailer_loop (bytes @ p) ts = (if fin then (rest @ p, True, ts') else trailer_loop (rest @ p) ts')"
proof (induction bytes ts arbitrary: rest fin ts' rule: trailer_loop.induct)
  case (1 bytes ts)
  show ?case
  proof (cases "find_str CRLF bytes")
    case None
    then show ?thesis using "1.prems" by (simp add: trailer_loop.simps [of bytes])
  next
    case (Some rel)
    have l: "rel + 2 \<le> length bytes" using find_str_Some_length [OF Some] by simp
    show ?thesis
    proof (cases "rel = 0")
      case True
      then show ?thesis using "1.prems" Some l
        by (simp add: trailer_loop.simps [of bytes] trailer_loop.simps [of "bytes @ p"] find_str_append)
    next
      case False
      then show ?thesis using "1.IH" [OF Some False, of rest fin ts'] "1.prems" Some l
        by (simp add: trailer_loop.simps [of bytes] trailer_loop.simps [of "bytes @ p"] find_str_append)
    qed
  qed
qed

lemma chunk_step_push_fail:
  assumes "\<not> closed d" "chunk_ok d" "chunk_step d = Halt (Some e) d'"
  shows "\<exists>d''. chunk_step (decoder_push p d) = Halt (Some e) d''"
proof (cases "chunk d")
  case CSize
  then show ?thesis using assms
    by (auto simp: chunk_step_def Let_def find_str_append dest: find_str_Some_length
        split: option.splits sum.splits if_splits)
next
  case (CData r)
  then have "emitted d + min r (length (buf d)) \<le> MAX_DECODED_BODY_BYTES" using assms(2) by (auto simp: chunk_ok_def)
  then show ?thesis using assms CData by (auto simp: chunk_step_def Let_def split: if_splits)
next
  case CDataCrlf
  then show ?thesis using assms by (auto simp: chunk_step_def split: if_splits)
next
  case CTrailer
  then show ?thesis using assms by (auto simp: chunk_step_def split: prod.splits)
qed

lemma chunk_step_halt_self: "chunk_step d = Halt None d' \<Longrightarrow> chunk d \<noteq> CTrailer \<Longrightarrow> d' = d"
  by (cases "chunk d") (simp_all add: chunk_step_def Let_def split: option.splits sum.splits if_splits)

lemma chunk_step_push_halt:
  assumes "\<not> complete d" "chunk_step d = Halt None d'"
  shows "chunk_step (decoder_push p d) = (if complete d' then Halt None (decoder_push p d') else chunk_step (decoder_push p d'))"
proof (cases "chunk d")
  case CTrailer
  obtain rest fin ts where t: "trailer_loop (buf d) (rd_trailers d) = (rest, fin, ts)" by (metis prod_cases3)
  then have d': "d' = d\<lparr>buf := rest, rd_trailers := ts, complete := fin\<rparr>" using assms CTrailer by (simp add: chunk_step_def)
  show ?thesis using CTrailer trailer_loop_append [OF t, of p] assms(1)
    by (cases fin) (auto simp: chunk_step_def d' decoder_push_def split: prod.splits)
qed (use assms(1) chunk_step_halt_self [OF assms(2)] in simp_all)

text \<open>A round that goes on goes on in the same way when there is more input; only a piece of a chunk gets longer.\<close>

lemma read_chunked_push:
  assumes "chunk_ok d" "chunk_step d = Go x d'"
  shows "read_chunked out (decoder_push p d) = read_chunked (out @ x) (decoder_push p d')"
proof (cases "\<exists>r. chunk d = CData r \<and> length (buf d) < r")
  case True
  then obtain r where r: "chunk d = CData r" "length (buf d) < r" by blast
  let ?l = "length (buf d)"
  have e: "emitted d + r \<le> MAX_DECODED_BODY_BYTES" using assms(1) r by (simp add: chunk_ok_def)
  then have x: "x = buf d" and d': "d' = d\<lparr>buf := [], emitted := emitted d + ?l, chunk := CData (r - ?l)\<rparr>"
    using assms(2) r by (auto simp: chunk_step_def Let_def split: if_splits)
  show ?thesis
  proof (cases "p = []")
    case True
    then show ?thesis using assms(2) by (simp add: read_chunked_step [of out d])
  next
    case False
    let ?k = "min (r - ?l) (length p)"
    have k: "min r (?l + length p) = ?l + ?k" using r by linarith
    have "chunk_step (decoder_push p d) = Go (buf d @ take ?k p)
        (d\<lparr>buf := drop ?k p, emitted := emitted d + ?l + ?k, chunk := (if ?l + ?k = r then CDataCrlf else CData (r - (?l + ?k)))\<rparr>)"
      using r False e k by (auto simp: chunk_step_def decoder_push_def Let_def min_def split: if_splits)
    moreover have "chunk_step (decoder_push p d') = Go (take ?k p)
        (d\<lparr>buf := drop ?k p, emitted := emitted d + ?l + ?k, chunk := (if ?k = r - ?l then CDataCrlf else CData (r - ?l - ?k))\<rparr>)"
      using r False e by (auto simp: chunk_step_def decoder_push_def d' Let_def min_def split: if_splits)
    moreover have "(?l + ?k = r) = (?k = r - ?l)" using r by linarith
    ultimately show ?thesis by (simp add: read_chunked_step [of _ "decoder_push p d"] read_chunked_step [of _ "decoder_push p d'"] x)
  qed
next
  case False
  have "chunk_step (decoder_push p d) = Go x (decoder_push p d')"
  proof (cases "chunk d")
    case CSize
    then show ?thesis using assms(2)
      by (auto simp: chunk_step_def Let_def find_str_append decoder_push_def dest: find_str_Some_length
          split: option.splits sum.splits if_splits)
  next
    case (CData r)
    then have m: "min r (length (buf d)) = r" "min r (length (buf d) + length p) = r" "emitted d + r \<le> MAX_DECODED_BODY_BYTES"
      using False assms(1) by (auto simp: chunk_ok_def)
    then show ?thesis using assms(2) CData by (auto simp: chunk_step_def Let_def decoder_push_def split: if_splits)
  qed (use assms(2) in \<open>auto simp: chunk_step_def decoder_push_def split: if_splits prod.splits\<close>)
  then show ?thesis by (simp add: read_chunked_step [of out "decoder_push p d"])
qed

lemma read_chunked_fail_push:
  "\<not> closed d \<Longrightarrow> chunk_ok d \<Longrightarrow> read_chunked out d = (Inl e, d') \<Longrightarrow> fst (read_chunked out (decoder_push p d)) = Inl e"
proof (induction d arbitrary: out rule: chunk_loop_induct)
  case (step d)
  show ?case
  proof (cases "chunk_step d")
    case (Halt h h')
    then have "h = Some e" using step.prems(3) by (auto simp: read_chunked_step [of out d] halt_def split: option.splits)
    then obtain h'' where "chunk_step (decoder_push p d) = Halt (Some e) h''"
      using chunk_step_push_fail [OF step.prems(1,2)] Halt by blast
    then show ?thesis by (simp add: read_chunked_step [of out "decoder_push p d"] halt_def)
  next
    case (Go x d1)
    have "\<not> closed d1" using Go step.prems(1)
      by (auto simp: chunk_step_def Let_def split: ChunkState.splits option.splits sum.splits prod.splits if_splits)
    moreover have "chunk_ok d1" using chunk_step_ok [OF step.prems(2) Go] .
    ultimately show ?thesis using step.IH [OF Go, of "out @ x"] step.prems(3) read_chunked_push [OF step.prems(2) Go, of out p]
      by (simp add: read_chunked_step [of out d] Go)
  qed
qed

lemma chunk_step_keeps:
  "chunk_step d = Go x d' \<Longrightarrow> closed d' = closed d \<and> complete d' = complete d \<and> rd_framing d' = rd_framing d \<and> rd_head d' = rd_head d"
  "chunk_step d = Halt h d' \<Longrightarrow> closed d' = closed d \<and> rd_framing d' = rd_framing d \<and> rd_head d' = rd_head d"
  by (auto simp: chunk_step_def Let_def split: ChunkState.splits option.splits sum.splits prod.splits if_splits)

lemma read_chunked_keeps:
  "read_chunked out d = (r, d') \<Longrightarrow> closed d' = closed d \<and> rd_framing d' = rd_framing d \<and> rd_head d' = rd_head d \<and> (chunk_ok d \<longrightarrow> is_ok r \<longrightarrow> chunk_ok d')"
proof (induction d arbitrary: out rule: chunk_loop_induct)
  case (step d)
  show ?case
  proof (cases "chunk_step d")
    case (Halt h h')
    then have "chunk_ok d \<Longrightarrow> h = None \<Longrightarrow> chunk_ok h'"
      by (auto simp: chunk_step_def chunk_ok_def Let_def split: ChunkState.splits option.splits sum.splits prod.splits if_splits)
    then show ?thesis using step.prems Halt chunk_step_keeps(2) [OF Halt]
      by (auto simp: read_chunked_step [of out d] halt_def split: option.splits)
  next
    case (Go x d1)
    then show ?thesis using step.IH [OF Go, of "out @ x"] step.prems chunk_step_keeps(1) [OF Go] chunk_step_ok [OF _ Go]
      by (auto simp: read_chunked_step [of out d])
  qed
qed

lemma read_chunked_resume:
  "chunk_ok d \<Longrightarrow> \<not> complete d \<Longrightarrow> read_chunked out d = (Inr x, d')
   \<Longrightarrow> read_chunked out (decoder_push p d) = (if complete d' then (Inr x, decoder_push p d') else read_chunked x (decoder_push p d'))"
proof (induction d arbitrary: out rule: chunk_loop_induct)
  case (step d)
  show ?case
  proof (cases "chunk_step d")
    case (Halt h h')
    then have "h = None" "x = out" "h' = d'" using step.prems(3) by (auto simp: read_chunked_step [of out d] halt_def split: option.splits)
    then show ?thesis using chunk_step_push_halt [OF step.prems(2), of d' p] Halt
      by (simp add: read_chunked_step [of out "decoder_push p d"] read_chunked_step [of out "decoder_push p d'"] halt_def)
  next
    case (Go y d1)
    then have "\<not> complete d1" using chunk_step_keeps(1) [OF Go] step.prems(2) by simp
    then show ?thesis using step.IH [OF Go, of "out @ y"] step.prems(3) chunk_step_ok [OF step.prems(1) Go]
        read_chunked_push [OF step.prems(1) Go, of out p]
      by (simp add: read_chunked_step [of out d] Go)
  qed
qed

section \<open>The decoder up to the start of its search\<close>

definition norm :: "ResponseDecoder \<Rightarrow> ResponseDecoder" where
  "norm d = d\<lparr>header_scan_start := 0\<rparr>"

definition read_norm :: "ResponseDecoder \<Rightarrow> (CodecError + str) \<times> ResponseDecoder" where
  "read_norm d = map_prod id norm (read_body d)"

text \<open>Where the search has been, there is no end of a head.\<close>

definition scan_ok :: "ResponseDecoder \<Rightarrow> bool" where
  "scan_ok d \<longleftrightarrow> rd_head d = None \<longrightarrow> header_scan_start d = 0 \<or>
     header_scan_start d + 3 \<le> length (buf d) \<and> find_str (CRLF @ CRLF) (take (header_scan_start d + 3) (buf d)) = None"

lemma find_str_take_None: "find_str pat s = None \<Longrightarrow> pat \<noteq> [] \<Longrightarrow> find_str pat (take k s) = None"
  by (metis append_take_drop_id find_str_append option.exhaust option.distinct(1))

lemma find_header_end_scan:
  assumes "scan_ok d" "rd_head d = None"
  shows "find_header_end_from (buf d) (header_scan_start d) = find_header_end_from (buf d) 0"
proof (cases "length (buf d) < 4 \<or> header_scan_start d = 0")
  case False
  let ?k = "min (header_scan_start d) (length (buf d) - 4)"
  have n: "find_str (CRLF @ CRLF) (take (header_scan_start d + 3) (buf d)) = None" using assms False by (auto simp: scan_ok_def)
  have "take (?k + 3) (take (header_scan_start d + 3) (buf d)) = take (?k + 3) (buf d)" by simp
  then have "find_str (CRLF @ CRLF) (take (?k + length (CRLF @ CRLF) - 1) (buf d)) = None"
    using find_str_take_None [OF n, of "?k + 3"] by (simp add: numeral_3_eq_3)
  then have "find_str (CRLF @ CRLF) (buf d) = map_option ((+) ?k) (find_str (CRLF @ CRLF) (drop ?k (buf d)))"
    using False by (intro find_str_skip) auto
  then show ?thesis using False by (simp add: find_header_end_from_def Let_def option.map_comp comp_def add.assoc)
qed (auto simp: find_header_end_from_def)

lemma norm_simps [simp]:
  "buf (norm d) = buf d" "chunk (norm d) = chunk d" "closed (norm d) = closed d" "complete (norm d) = complete d"
  "rd_head (norm d) = rd_head d" "rd_framing (norm d) = rd_framing d" "header_scan_start (norm d) = 0"
  "norm (norm d) = norm d" "chunk_ok (norm d) = chunk_ok d" "norm (decoder_push p d) = decoder_push p (norm d)"
  by (simp_all add: norm_def chunk_ok_def decoder_push_def)

lemma norm_id: "header_scan_start d = 0 \<Longrightarrow> norm d = d"
  by (simp add: norm_def)

text \<open>With the head there, the search plays no part.\<close>

lemma read_body_headed:
  "rd_head d \<noteq> None \<Longrightarrow> read_body d =
     (if complete d then (Inr [], d)
      else (case rd_framing d of
            Empty \<Rightarrow> (Inr [], d)
          | Length n \<Rightarrow>
              (case checked_body_len n of
                 Inl e \<Rightarrow> (Inl e, d)
               | Inr _ \<Rightarrow>
                   let tk = min (n - emitted d) (length (buf d));
                       d' = d\<lparr>buf := drop tk (buf d), emitted := emitted d + tk\<rparr> in
                   if emitted d + tk = n then (Inr (take tk (buf d)), d'\<lparr>complete := True\<rparr>)
                   else if closed d then (Inl ContentLengthMismatch, d')
                   else (Inr (take tk (buf d)), d'))
          | Eof \<Rightarrow>
              (case checked_add_body_len (emitted d) (length (buf d)) of
                 Inl e \<Rightarrow> (Inl e, d)
               | Inr _ \<Rightarrow>
                   (Inr (buf d),
                    d\<lparr>buf := [], emitted := emitted d + length (buf d), complete := closed d\<rparr>))
          | Chunked \<Rightarrow> read_chunked [] d))"
  by (auto simp: read_body_def decoder_head_def Let_def split: BodyFraming.split sum.split)

lemma chunk_step_scan:
  "chunk_step (d\<lparr>header_scan_start := k\<rparr>) =
     (case chunk_step d of Halt e d' \<Rightarrow> Halt e (d'\<lparr>header_scan_start := k\<rparr>) | Go x d' \<Rightarrow> Go x (d'\<lparr>header_scan_start := k\<rparr>))"
  by (cases "chunk d") (simp_all add: chunk_step_def Let_def split: option.split sum.split prod.split)

lemma read_chunked_scan:
  "read_chunked out (d\<lparr>header_scan_start := k\<rparr>) = map_prod id (\<lambda>d. d\<lparr>header_scan_start := k\<rparr>) (read_chunked out d)"
proof (induction d arbitrary: out rule: chunk_loop_induct)
  case (step d)
  show ?case
  proof (cases "chunk_step d")
    case (Halt h h')
    then show ?thesis by (simp add: read_chunked_step [of out d] read_chunked_step [of out "d\<lparr>header_scan_start := k\<rparr>"] chunk_step_scan)
  next
    case (Go x d1)
    then show ?thesis using step [OF Go]
      by (simp add: read_chunked_step [of out d] read_chunked_step [of out "d\<lparr>header_scan_start := k\<rparr>"] chunk_step_scan)
  qed
qed

lemma read_body_scan:
  assumes "rd_head d \<noteq> None"
  shows "read_body (d\<lparr>header_scan_start := k\<rparr>) = map_prod id (\<lambda>d. d\<lparr>header_scan_start := k\<rparr>) (read_body d)"
proof -
  have h: "rd_head (d\<lparr>header_scan_start := k\<rparr>) \<noteq> None" using assms by simp
  show ?thesis
  proof (cases "complete d")
    case False
    show ?thesis
    proof (cases "rd_framing d")
      case Chunked
      then show ?thesis unfolding read_body_headed [OF assms] read_body_headed [OF h] using False by (simp add: read_chunked_scan)
    next
      case (Length n)
      then show ?thesis unfolding read_body_headed [OF assms] read_body_headed [OF h] Let_def using False
        by (cases "checked_body_len n") simp_all
    next
      case Eof
      then show ?thesis unfolding read_body_headed [OF assms] read_body_headed [OF h] using False
        by (cases "checked_add_body_len (emitted d) (length (buf d))") simp_all
    next
      case Empty
      then show ?thesis unfolding read_body_headed [OF assms] read_body_headed [OF h] using False by simp
    qed
  qed (simp add: read_body_headed [OF assms] read_body_headed [OF h])
qed

lemma decoder_head_Some:
  assumes "decoder_head d = (Inr (Some h), d')"
  shows "rd_head d' = Some h"
  using assms by (simp add: decoder_head_def Let_def split: option.splits sum.splits if_splits) (auto split: if_splits)

lemma read_body_unheaded:
  "read_body d =
     (case decoder_head d of
        (Inl e, d') \<Rightarrow> (Inl e, d') | (Inr None, d') \<Rightarrow> (Inr [], d') | (Inr (Some h), d') \<Rightarrow> read_body d')"
proof (cases "decoder_head d")
  case (Pair r d')
  show ?thesis
  proof (cases r)
    case (Inl e)
    then show ?thesis using Pair by (simp add: read_body_def)
  next
    case (Inr ho)
    show ?thesis
    proof (cases ho)
      case None
      then show ?thesis using Pair Inr by (simp add: read_body_def)
    next
      case (Some h)
      have 1: "decoder_head d = (Inr (Some h), d')" using Pair Inr Some by simp
      then have 2: "decoder_head d' = (Inr (Some h), d')" by (simp add: decoder_head_def [of d'] decoder_head_Some)
      show ?thesis by (simp only: read_body_def 1 2 prod.case sum.case option.case)
    qed
  qed
qed

section \<open>The decoder is resumable\<close>

text \<open>The kind of an error: limits are not told apart by their text.\<close>

fun limit_kind :: "CodecError \<Rightarrow> CodecError" where
  "limit_kind (LimitExceeded _) = LimitExceeded []"
| "limit_kind e = e"

definition stream_ok :: "ResponseDecoder \<Rightarrow> bool" where
  "stream_ok d \<longleftrightarrow> \<not> closed d \<and> chunk_ok d \<and> (rd_head d = None \<or> rd_framing d \<noteq> Chunked \<longrightarrow> chunk d = CSize)"

lemma stream_ok_push [simp]: "stream_ok (decoder_push p d) = stream_ok d"
  by (simp add: stream_ok_def)

lemma checked_add_Inl: "(\<exists>e. checked_add_body_len a b = Inl e) \<longleftrightarrow> MAX_DECODED_BODY_BYTES < a + b"
  using body_limit_small by (auto simp: checked_add_body_len_def checked_body_len_def)

lemma checked_add_kind: "checked_add_body_len a b = Inl e \<Longrightarrow> limit_kind e = LimitExceeded []"
  by (auto simp: checked_add_body_len_def checked_body_len_def split: if_splits)

lemma checked_add_assoc: "checked_add_body_len a (b + c) = checked_add_body_len (a + b) c"
  by (simp add: checked_add_body_len_def add.assoc)

lemma headed_fail:
  assumes "rd_head d \<noteq> None" "stream_ok d" "read_body d = (Inl e, d')"
  shows "same limit_kind (Inl e, d') (read_body (decoder_push p d))"
proof -
  have h: "rd_head (decoder_push p d) \<noteq> None" using assms(1) by simp
  note rb = read_body_headed [OF assms(1)] read_body_headed [OF h]
  have c: "\<not> complete d" using assms(3) by (auto simp: rb)
  show ?thesis
  proof (cases "rd_framing d")
    case Chunked
    then have "fst (read_chunked [] (decoder_push p d)) = Inl e"
      using assms(2,3) c read_chunked_fail_push [of d "[]" e d' p] by (simp add: rb stream_ok_def)
    then show ?thesis using Chunked c by (simp add: rb same_Inl)
  next
    case (Length n)
    then show ?thesis using assms(2,3) c by (auto simp: rb same_Inl stream_ok_def Let_def split: sum.splits if_splits)
  next
    case Eof
    then have e: "checked_add_body_len (emitted d) (length (buf d)) = Inl e" using assms(3) c
      by (auto simp: rb split: sum.splits)
    then have "MAX_DECODED_BODY_BYTES < emitted d + length (buf d @ p)" using checked_add_Inl [of "emitted d" "length (buf d)"] by auto
    then obtain e' where "checked_add_body_len (emitted d) (length (buf d @ p)) = Inl e'" using checked_add_Inl by blast
    then show ?thesis using Eof c e checked_add_kind by (simp add: rb same_Inl)
  next
    case Empty
    then show ?thesis using assms(3) c by (simp add: rb)
  qed
qed

lemma headed_ok:
  assumes "rd_head d \<noteq> None" "stream_ok d" "read_body d = (Inr x, d')"
  shows "stream_ok d' \<and> rd_head d' = rd_head d \<and> rd_framing d' = rd_framing d"
proof (cases "complete d")
  case False
  note rb = read_body_headed [OF assms(1)]
  show ?thesis
  proof (cases "rd_framing d")
    case Chunked
    then show ?thesis using assms(1,2,3) False read_chunked_keeps [of "[]" d "Inr x" d'] by (auto simp: rb stream_ok_def)
  next
    case (Length n)
    then show ?thesis using assms False by (auto simp: rb stream_ok_def Let_def chunk_ok_def split: sum.splits if_splits)
  next
    case Eof
    then show ?thesis using assms False by (auto simp: rb stream_ok_def chunk_ok_def split: sum.splits)
  next
    case Empty
    then show ?thesis using assms False by (simp add: rb)
  qed
qed (use assms in \<open>simp add: read_body_headed\<close>)

lemma headed_resume:
  assumes "rd_head d \<noteq> None" "stream_ok d" "read_body d = (Inr x, d')"
  shows "same limit_kind (prep x (read_body (decoder_push p d'))) (read_body (decoder_push p d))"
proof -
  have h: "rd_head (decoder_push p d) \<noteq> None" and h': "rd_head (decoder_push p d') \<noteq> None" and fr: "rd_framing d' = rd_framing d"
    using assms(1) headed_ok [OF assms] by simp_all
  note rb = read_body_headed [OF assms(1)] read_body_headed [OF h] read_body_headed [OF h']
  show ?thesis
  proof (cases "complete d")
    case True
    then show ?thesis using assms(3) by (simp add: read_body_headed [OF assms(1)])
  next
    case c: False
    show ?thesis
    proof (cases "rd_framing d")
      case Chunked
      then have r: "read_chunked [] d = (Inr x, d')" using assms(3) c by (simp add: read_body_headed [OF assms(1)])
      have ok: "chunk_ok d" using assms(2) by (simp add: stream_ok_def)
      show ?thesis using read_chunked_resume [OF ok c r, of p] read_chunked_prep [of x "decoder_push p d'"] Chunked c
        by (simp add: read_body_headed [OF h] read_body_headed [OF h'] fr)
    next
      case (Length n)
      then have n: "checked_body_len n = Inr ()" using assms(3) c
        by (cases "checked_body_len n") (simp_all add: read_body_headed [OF assms(1)])
      let ?tk = "min (n - emitted d) (length (buf d))"
      have x: "x = take ?tk (buf d)" and d': "d' = d\<lparr>buf := drop ?tk (buf d), emitted := emitted d + ?tk, complete := (emitted d + ?tk = n)\<rparr>"
        using assms(2,3) c n Length by (auto simp: read_body_headed [OF assms(1)] Let_def stream_ok_def split: if_splits)
      show ?thesis
      proof (cases "emitted d + ?tk = n")
        case True
        then have "min (n - emitted d) (length (buf d @ p)) = ?tk" by (simp add: min_def split: if_splits)
        then show ?thesis unfolding rb using True c n Length x d'
          by (simp add: same_Inr Let_def decoder_push_def)
      next
        case False
        show ?thesis
        proof (cases "n < emitted d")
          case True
          then have "x = [] \<and> d' = d" using x d' c False by simp
          then show ?thesis by simp
        next
          case le: False
          then have l: "length (buf d) < n - emitted d" using False by (auto simp: min_def split: if_splits)
          then have x: "x = buf d" and d': "d' = d\<lparr>buf := [], emitted := emitted d + length (buf d)\<rparr>"
            using x d' c False by simp_all
          let ?k = "min (n - (emitted d + length (buf d))) (length p)"
          have k: "min (n - emitted d) (length (buf d) + length p) = length (buf d) + ?k" using l by linarith
          show ?thesis unfolding rb using c n Length assms(2)
            by (simp add: k x d' fr stream_ok_def same_Inr Let_def decoder_push_def add.assoc)
        qed
      qed
    next
      case Eof
      then have x: "x = buf d" "d' = d\<lparr>buf := [], emitted := emitted d + length (buf d)\<rparr>"
        using assms(2,3) c by (auto simp: read_body_headed [OF assms(1)] stream_ok_def split: sum.splits)
      then show ?thesis unfolding rb using Eof c assms(2) checked_add_assoc [of "emitted d" "length (buf d)" "length p"]
        by (cases "checked_add_body_len (emitted d + length (buf d)) (length p)")
           (simp_all add: stream_ok_def same_Inl same_Inr decoder_push_def add.assoc)
    next
      case Empty
      then show ?thesis using assms(3) c by (simp add: rb)
    qed
  qed
qed

section \<open>The head\<close>

lemma find_header_end_0: "find_header_end_from b 0 = map_option (\<lambda>i. i + 4) (find_str (CRLF @ CRLF) b)"
proof (cases "length b < 4")
  case True
  then have "find_str (CRLF @ CRLF) b = None" using find_str_Some_length [of "CRLF @ CRLF" b] by (cases "find_str (CRLF @ CRLF) b") auto
  then show ?thesis using True by (simp add: find_header_end_from_def)
qed (simp add: find_header_end_from_def)

lemma find_end_push: "find_header_end_from b 0 = Some e \<Longrightarrow> find_header_end_from (b @ p) 0 = Some e \<and> 4 \<le> e \<and> e \<le> length b"
  using find_str_append [of "CRLF @ CRLF" b _ p] find_str_Some_length [of "CRLF @ CRLF" b] by (auto simp: find_header_end_0)

lemma parse_head_section_limit:
  "MAX_HEADER_SECTION_BYTES < length s \<Longrightarrow> parse_head_section s = Inl section_limit"
  by (simp add: parse_head_section_def validate_header_section_def)

lemma head_fail:
  assumes "rd_head d = None" "header_scan_start d = 0" "\<not> closed d" "decoder_head d = (Inl e, d')"
  shows "fst (decoder_head (decoder_push p d)) = Inl e"
proof (cases "find_header_end_from (buf d) 0")
  case None
  then have long: "MAX_HEADER_SECTION_BYTES < length (buf d) - 3" and e: "e = section_limit"
    using assms by (auto simp: decoder_head_def validate_header_buffer_len_def split: if_splits)
  show ?thesis
  proof (cases "find_header_end_from (buf d @ p) 0")
    case None
    then show ?thesis using assms long e by (simp add: decoder_head_def validate_header_buffer_len_def)
  next
    case (Some i)
    then obtain j where j: "find_str (CRLF @ CRLF) (buf d @ p) = Some j" "i = j + 4" by (auto simp: find_header_end_0)
    have "length (buf d) < j + 4" using find_str_None_append [OF _ j(1)] None by (simp add: find_header_end_0)
    moreover have "j + 4 \<le> length (buf d @ p)" using find_str_Some_length [OF j(1)] by simp
    ultimately have "MAX_HEADER_SECTION_BYTES < length (take (i - 4) (buf d @ p))" using long j(2) by simp
    then have "parse_head_section (take (i - 4) (buf d @ p)) = Inl section_limit" by (rule parse_head_section_limit)
    then show ?thesis using assms e Some by (simp add: decoder_head_def)
  qed
next
  case (Some i)
  then show ?thesis using assms find_end_push [OF Some, of p]
    by (auto simp: decoder_head_def Let_def split: sum.splits)
qed

lemma head_found:
  assumes "rd_head d = None" "header_scan_start d = 0" "decoder_head d = (Inr (Some h), d')"
  shows "decoder_head (decoder_push p d) = (Inr (Some h), decoder_push p d') \<and> header_scan_start d' = 0
    \<and> (stream_ok d \<longrightarrow> stream_ok d')"
proof -
  obtain i where i: "find_header_end_from (buf d) 0 = Some i"
    using assms by (cases "find_header_end_from (buf d) 0") (auto simp: decoder_head_def split: sum.splits if_splits)
  have l: "4 \<le> i" "i \<le> length (buf d)" "find_header_end_from (buf d @ p) 0 = Some i" using find_end_push [OF i] by auto
  obtain fr where fr: "parse_head_section (take (i - 4) (buf d)) = Inr h" "body_framing h = Inr fr"
    using assms i by (auto simp: decoder_head_def Let_def split: sum.splits)
  have d': "d' = d\<lparr>rd_framing := fr, buf := drop i (buf d), complete := (fr = Empty \<or> fr = Length 0 \<or> complete d), rd_head := Some h\<rparr>"
    using assms i fr by (auto simp: decoder_head_def Let_def split: if_splits)
  then show ?thesis using assms(1,2) l fr
    by (auto simp: decoder_head_def Let_def decoder_push_def stream_ok_def chunk_ok_def)
qed

lemma head_missing:
  assumes "rd_head d = None" "decoder_head d = (Inr None, d')"
  shows "d' = d\<lparr>header_scan_start := length (buf d) - 3\<rparr> \<and> find_header_end_from (buf d) (header_scan_start d) = None"
  using assms by (auto simp: decoder_head_def Let_def split: option.splits sum.splits if_splits)

lemma read_norm_headed:
  assumes "rd_head d \<noteq> None" "header_scan_start d = 0"
  shows "read_norm d = read_body d"
proof -
  have "d\<lparr>header_scan_start := 0\<rparr> = d" using assms(2) by simp
  moreover have "norm = (\<lambda>d. d\<lparr>header_scan_start := 0\<rparr>)" by (simp add: norm_def fun_eq_iff)
  ultimately show ?thesis using read_body_scan [OF assms(1), of 0] by (simp add: read_norm_def)
qed

lemma read_norm_found:
  assumes "rd_head d = None" "header_scan_start d = 0" "decoder_head d = (Inr (Some h), d')"
  shows "read_norm (decoder_push p d) = read_norm (decoder_push p d')"
  using head_found [OF assms, of p] read_body_unheaded [of "decoder_push p d"] by (simp add: read_norm_def)

lemma read_norm_found_self:
  assumes "rd_head d = None" "header_scan_start d = 0" "decoder_head d = (Inr (Some h), d')"
  shows "read_norm d = read_norm d'"
  using read_norm_found [OF assms, of "[]"] by simp

definition fresh_ok :: "ResponseDecoder \<Rightarrow> bool" where
  "fresh_ok d \<longleftrightarrow> stream_ok d \<and> header_scan_start d = 0"

lemma headed_laws:
  assumes "fresh_ok d" "rd_head d \<noteq> None"
  shows "read_norm d = (Inl e, d') \<Longrightarrow> same limit_kind (Inl e, d') (read_norm (decoder_push p d))"
    and "read_norm d = (Inr x, d') \<Longrightarrow> fresh_ok d' \<and> same limit_kind (prep x (read_norm (decoder_push p d'))) (read_norm (decoder_push p d))"
proof -
  have ok: "stream_ok d" "header_scan_start d = 0" using assms(1) by (simp_all add: fresh_ok_def)
  have n: "read_norm d = read_body d" using assms(2) ok(2) by (rule read_norm_headed)
  have np: "read_norm (decoder_push p d) = read_body (decoder_push p d)" using assms(2) ok(2) by (intro read_norm_headed) simp_all
  show "read_norm d = (Inl e, d') \<Longrightarrow> same limit_kind (Inl e, d') (read_norm (decoder_push p d))"
    using headed_fail [OF assms(2) ok(1)] unfolding n np by blast
  assume r: "read_norm d = (Inr x, d')"
  then have z: "header_scan_start d' = 0" by (auto simp: read_norm_def map_prod_def split: prod.splits)
  have k: "stream_ok d'" "rd_head d' = rd_head d" using headed_ok [OF assms(2) ok(1)] r unfolding n by auto
  then have "read_norm (decoder_push p d') = read_body (decoder_push p d')" using assms(2) z by (intro read_norm_headed) simp_all
  then show "fresh_ok d' \<and> same limit_kind (prep x (read_norm (decoder_push p d'))) (read_norm (decoder_push p d))"
    using headed_resume [OF assms(2) ok(1)] r k z unfolding n np by (simp add: fresh_ok_def)
qed

lemma stream_laws:
  assumes "fresh_ok d"
  shows "read_norm d = (Inl e, d') \<Longrightarrow> same limit_kind (Inl e, d') (read_norm (decoder_push p d))"
    and "read_norm d = (Inr x, d') \<Longrightarrow> fresh_ok d' \<and> same limit_kind (prep x (read_norm (decoder_push p d'))) (read_norm (decoder_push p d))"
proof -
  have ok: "stream_ok d" "header_scan_start d = 0" "\<not> closed d" using assms by (simp_all add: fresh_ok_def stream_ok_def)
  consider (headed) "rd_head d \<noteq> None" | (failed) e' d1 where "rd_head d = None" "decoder_head d = (Inl e', d1)"
    | (missing) d1 where "rd_head d = None" "decoder_head d = (Inr None, d1)"
    | (found) h d1 where "rd_head d = None" "decoder_head d = (Inr (Some h), d1)"
    by (metis obj_sumE option.exhaust surj_pair)
  then have "(read_norm d = (Inl e, d') \<longrightarrow> same limit_kind (Inl e, d') (read_norm (decoder_push p d)))
    \<and> (read_norm d = (Inr x, d') \<longrightarrow> fresh_ok d' \<and> same limit_kind (prep x (read_norm (decoder_push p d'))) (read_norm (decoder_push p d)))"
  proof cases
    case headed
    then show ?thesis using headed_laws [OF assms] by blast
  next
    case failed
    then show ?thesis using head_fail [OF failed(1) ok(2,3) failed(2), of p] read_body_unheaded [of d] read_body_unheaded [of "decoder_push p d"]
      by (auto simp: read_norm_def same_Inl split: prod.splits)
  next
    case missing
    then have "norm d1 = norm d" using head_missing [OF missing] by (simp add: norm_def)
    then have "read_norm d = (Inr [], d)" using missing ok(2) read_body_unheaded [of d] by (simp add: read_norm_def norm_id)
    then show ?thesis using assms by auto
  next
    case found
    then have "fresh_ok d1" "rd_head d1 \<noteq> None" using head_found [OF found(1) ok(2) found(2)] decoder_head_Some [OF found(2)] ok(1)
      by (simp_all add: fresh_ok_def)
    then show ?thesis unfolding read_norm_found_self [OF found(1) ok(2) found(2)] read_norm_found [OF found(1) ok(2) found(2)]
      using headed_laws by blast
  qed
  then show "read_norm d = (Inl e, d') \<Longrightarrow> same limit_kind (Inl e, d') (read_norm (decoder_push p d))"
    and "read_norm d = (Inr x, d') \<Longrightarrow> fresh_ok d' \<and> same limit_kind (prep x (read_norm (decoder_push p d'))) (read_norm (decoder_push p d))"
    by blast+
qed

interpretation h1: resumable decoder_push read_norm fresh_ok limit_kind
proof
  show "decoder_push (a @ b) d = decoder_push b (decoder_push a d)" for a b d by simp
  show "fresh_ok d \<Longrightarrow> fresh_ok (decoder_push p d)" for d p by (simp add: fresh_ok_def)
  show "fresh_ok d \<Longrightarrow> read_norm d = (Inr x, d') \<Longrightarrow> fresh_ok d'" for d x d' using stream_laws(2) by blast
  show "fresh_ok d \<Longrightarrow> read_norm d = (Inl e, d') \<Longrightarrow> same limit_kind (Inl e, d') (read_norm (decoder_push p d))" for d e d' p
    using stream_laws(1) by blast
  show "fresh_ok d \<Longrightarrow> read_norm d = (Inr x, d') \<Longrightarrow> same limit_kind (prep x (read_norm (decoder_push p d'))) (read_norm (decoder_push p d))"
    for d x d' p using stream_laws(2) by blast
qed

text \<open>Reading piece by piece with the search resumed where it stopped.\<close>

lemma scan_ok_push: "scan_ok d \<Longrightarrow> scan_ok (decoder_push p d)"
  by (auto simp: scan_ok_def)

lemma read_body_keeps_head:
  assumes "rd_head d \<noteq> None" "read_body d = (r, d')"
  shows "rd_head d' = rd_head d"
proof (cases "complete d")
  case False
  then show ?thesis using assms read_chunked_keeps [of "[]" d r d']
    by (cases "rd_framing d") (auto simp: read_body_headed Let_def split: sum.splits if_splits)
qed (use assms in \<open>simp add: read_body_headed\<close>)

lemma decoder_head_norm:
  assumes "scan_ok d" "rd_head d = None" "decoder_head d = (r, d')"
  shows "\<exists>d''. decoder_head (norm d) = (r, d'') \<and> norm d'' = norm d' \<and> (\<forall>h. r = Inr (Some h) \<longrightarrow> d'' = norm d')"
proof (cases "find_header_end_from (buf d) 0")
  case None
  then show ?thesis using assms find_header_end_scan [OF assms(1,2)]
    by (auto simp: decoder_head_def validate_header_buffer_len_def split: if_splits) (simp_all add: norm_def)
next
  case (Some i)
  then show ?thesis using assms find_header_end_scan [OF assms(1,2)]
    by (auto simp: decoder_head_def Let_def split: sum.splits) (simp_all add: norm_def)
qed

lemma read_body_norm:
  assumes "scan_ok d" "read_body d = (r, d')"
  shows "read_norm (norm d) = (r, norm d') \<and> (is_ok r \<longrightarrow> scan_ok d')"
proof (cases "rd_head d")
  case (Some h)
  then have "read_body (norm d) = (r, norm d')" using read_body_scan [of d 0] assms(2) by (simp add: norm_def)
  moreover have "rd_head d' \<noteq> None" using read_body_keeps_head [OF _ assms(2)] Some by simp
  ultimately show ?thesis by (auto simp: read_norm_def scan_ok_def)
next
  case None
  obtain r1 d1 where h: "decoder_head d = (r1, d1)" by fastforce
  obtain d2 where h2: "decoder_head (norm d) = (r1, d2)" "norm d2 = norm d1" "\<And>h. r1 = Inr (Some h) \<Longrightarrow> d2 = norm d1"
    using decoder_head_norm [OF assms(1) None h] by blast
  note ub = read_body_unheaded [of d] read_body_unheaded [of "norm d"]
  show ?thesis
  proof (cases r1)
    case (Inl e)
    then show ?thesis using h h2 ub assms(2) by (simp add: read_norm_def)
  next
    case (Inr ho)
    show ?thesis
    proof (cases ho)
      case None
      then have "scan_ok d1"
        using head_missing [OF \<open>rd_head d = None\<close>, of d1] h Inr find_header_end_scan [OF assms(1) \<open>rd_head d = None\<close>]
          find_str_take_None [of "CRLF @ CRLF" "buf d"] by (auto simp: scan_ok_def find_header_end_0)
      then show ?thesis using h h2 ub assms(2) Inr None by (simp add: read_norm_def)
    next
      case (Some hd)
      have "read_body d1 = (r, d')" "read_body (norm d) = read_body (norm d1)" using h h2 ub assms(2) Inr Some by simp_all
      moreover have "rd_head d1 \<noteq> None" using decoder_head_Some h Inr Some by fastforce
      ultimately show ?thesis using read_body_scan [of d1 0] read_body_keeps_head [of d1 r d']
        by (auto simp: read_norm_def norm_def scan_ok_def)
    qed
  qed
qed

lemma drive_norm:
  "scan_ok d \<Longrightarrow> drive decoder_push read_norm ps (norm d) = map_prod id norm (drive decoder_push read_body ps d)"
proof (induction ps arbitrary: d)
  case (Cons p ps)
  obtain r d' where r: "read_body (decoder_push p d) = (r, d')" by fastforce
  note n = read_body_norm [OF scan_ok_push [OF Cons.prems] r]
  show ?case
  proof (cases r)
    case (Inl e)
    then show ?thesis using r n by simp
  next
    case (Inr x)
    then show ?thesis using r n Cons.IH [of d'] by (simp add: prep_def)
  qed
qed simp

end
