(* ===== verification/Http1_Message.thy ===== *)
theory Http1_Message
  imports Http1_Stream
begin

text \<open>
  What the serializer of \<open>Http1_Codec\<close> writes is what the parser reads: the head of a message is a
  sequence of lines, and none of the texts that the serializer accepts as a header can end its
  line early. The last section compares the parser of a whole response with the decoder.
\<close>

section \<open>Lines\<close>

definition text_lines :: "str list \<Rightarrow> str" where
  "text_lines ls = concat (map (\<lambda>l. l @ CRLF) ls)"

lemma text_lines_simps [simp]: "text_lines [] = []" "text_lines (l # ls) = l @ CRLF @ text_lines ls"
  "text_lines (ls @ ms) = text_lines ls @ text_lines ms"
  by (simp_all add: text_lines_def)

definition is_line :: "str \<Rightarrow> bool" where
  "is_line l \<longleftrightarrow> l \<noteq> [] \<and> CHR 0x0D \<notin> set l"

lemma find_str_skip_notin:
  "hd pat \<notin> set a \<Longrightarrow> pat \<noteq> [] \<Longrightarrow> find_str pat (a @ b) = map_option ((+) (length a)) (find_str pat b)"
proof (induction a)
  case Nil
  then show ?case by (cases "find_str pat b") simp_all
next
  case (Cons c a)
  then have "\<not> prefix pat (c # a @ b)" by (cases pat) auto
  then show ?case using Cons by (simp add: option.map_comp comp_def)
qed

lemma find_crlf [simp]: "CHR 0x0D \<notin> set a \<Longrightarrow> find_str CRLF (a @ CHR 0x0D # CHR 0x0A # b) = Some (length a)"
  by (simp add: find_str_skip_notin)

lemma find_crlf_None: "CHR 0x0D \<notin> set a \<Longrightarrow> find_str CRLF a = None"
  using find_str_skip_notin [of CRLF a "[]"] by simp

lemma find_head_end:
  "ls \<noteq> [] \<Longrightarrow> (\<And>l. l \<in> set ls \<Longrightarrow> is_line l) \<Longrightarrow>
   find_str (CRLF @ CRLF) (text_lines ls @ CRLF @ b) = Some (length (text_lines ls) - 2)"
proof (induction ls)
  case (Cons l ls)
  have l: "hd (CRLF @ CRLF) \<notin> set l" using Cons.prems(2) [of l] by (simp add: is_line_def)
  show ?case
  proof (cases ls)
    case Nil
    then show ?thesis using find_str_skip_notin [OF l, of "CRLF @ CRLF @ b"] by simp
  next
    case (Cons m ms)
    then obtain c cs where m: "m = c # cs" "c \<noteq> CHR 0x0D" using Cons.prems(2) [of m] by (cases m) (auto simp: is_line_def)
    have "find_str (CRLF @ CRLF) (text_lines ls @ CRLF @ b) = Some (length (text_lines ls) - 2)"
      using Cons.IH Cons.prems Cons by simp
    moreover have "find_str (CRLF @ CRLF) (CRLF @ text_lines ls @ CRLF @ b)
        = map_option (\<lambda>i. i + 2) (find_str (CRLF @ CRLF) (text_lines ls @ CRLF @ b))"
      using m Cons by (simp add: option.map_comp comp_def)
    moreover have "2 \<le> length (text_lines ls)" using Cons by simp
    ultimately show ?thesis using find_str_skip_notin [OF l, of "CRLF @ text_lines ls @ CRLF @ b"] by simp
  qed
qed simp

text \<open>The section before the end: the first line and the others.\<close>

definition section_of :: "str list \<Rightarrow> str" where
  "section_of ls = take (length (text_lines ls) - 2) (text_lines ls)"

lemma section_of_simps: "section_of [] = []" "section_of [l] = l" "section_of (l # m # ms) = l @ CRLF @ section_of (m # ms)"
  by (simp_all add: section_of_def)

lemma section_of_length: "length (section_of ls) = length (text_lines ls) - 2"
  by (simp add: section_of_def)

lemma split_first_line_section:
  "CHR 0x0D \<notin> set l \<Longrightarrow> split_first_line (section_of (l # ls)) = (l, section_of ls)"
  by (cases ls) (simp_all add: section_of_simps split_first_line_def find_crlf_None find_crlf)

lemma split_section:
  "(\<And>l. l \<in> set ls \<Longrightarrow> CHR 0x0D \<notin> set l) \<Longrightarrow> split_str CRLF (section_of ls) = (if ls = [] then [[]] else ls)"
proof (induction ls rule: induct_list012)
  case (2 l)
  then show ?case by (simp add: section_of_simps split_str.simps find_crlf_None)
next
  case (3 l m ms)
  then show ?case by (simp add: section_of_simps split_str.simps [of CRLF "l @ _"] find_crlf)
qed (simp add: section_of_simps split_str.simps)

lemma utf8_section: "(\<And>l. l \<in> set ls \<Longrightarrow> utf8_valid l) \<Longrightarrow> utf8_valid (section_of ls)"
  by (induction ls rule: induct_list012) (simp_all add: section_of_simps utf8_valid_append)

section \<open>Header lines\<close>

definition header_line :: "str \<times> str \<Rightarrow> str" where
  "header_line h = fst h @ '': '' @ snd h"

definition header_ok :: "str \<times> str \<Rightarrow> bool" where
  "header_ok h \<longleftrightarrow> is_ok (validate_header_name (fst h)) \<and> is_ok (validate_header_value (snd h)) \<and> utf8_valid (snd h)"

lemma field_name_graph: "is_field_name_byte c \<Longrightarrow> is_graph c \<and> c \<noteq> CHR '':'' \<and> c \<noteq> CHR 0x0D \<and> byte c < 0x80"
  by (auto simp: is_field_name_byte_def is_graph_def is_digit_def is_ascii_alphabetic_def is_ascii_upper_def is_ascii_lower_def)

lemma header_name: "is_ok (validate_header_name n) \<longleftrightarrow> n \<noteq> [] \<and> list_all is_field_name_byte n"
  by (simp add: validate_header_name_def)

lemma header_value: "is_ok (validate_header_value v) \<longleftrightarrow> CHR 0x0D \<notin> set v \<and> CHR 0x0A \<notin> set v \<and> CHR 0x00 \<notin> set v"
  by (auto simp: validate_header_value_def list_ex_iff)

lemma set_trim_with: "set (trim_with encs s) \<subseteq> set s"
proof (induction encs s rule: trim_with.induct)
  case (1 encs s)
  have "set r \<subseteq> set s" if "strip_any encs s = Some r" for r
    using that by (induction encs) (auto simp: strip_prefix_Some split: option.splits if_splits)
  then show ?case using 1 by (subst trim_with.simps) (auto split: option.splits)
qed

lemma set_trim: "set (trim s) \<subseteq> set s"
  using set_trim_with [of "map rev ws_encodings" "rev (trim_start s)"] set_trim_with [of ws_encodings s]
  by (auto simp: trim_def trim_end_def trim_start_def)

lemma trim_space: "trim (CHR '' '' # s) = trim s"
  by (simp add: trim_def trim_start_def trim_with.simps [of _ "CHR '' '' # s"] ws_encodings_def)

lemma header_line_ok: "header_ok h \<Longrightarrow> is_line (header_line h) \<and> utf8_valid (header_line h)"
proof -
  assume h: "header_ok h"
  then have "list_all is_field_name_byte (fst h)" by (simp add: header_ok_def header_name)
  then have a: "byte c < 0x80 \<and> c \<noteq> CHR 0x0D" if "c \<in> set (fst h)" for c using field_name_graph that by (auto simp: list_all_iff)
  have "utf8_valid (header_line h)" unfolding header_line_def using a h by (subst ascii_valid) (auto simp: header_ok_def)
  moreover have "is_line (header_line h)" using a h by (auto simp: is_line_def header_line_def header_ok_def header_value)
  ultimately show ?thesis by simp
qed

lemma parse_header_line_ok: "header_ok h \<Longrightarrow> parse_header_line (header_line h) = Inr (fst h, trim (snd h))"
proof -
  assume h: "header_ok h"
  then have n: "fst h \<noteq> []" "list_all is_field_name_byte (fst h)" by (simp_all add: header_ok_def header_name)
  then have g: "is_graph c \<and> c \<noteq> CHR '':''" if "c \<in> set (fst h)" for c using field_name_graph that by (auto simp: list_all_iff)
  then have "trim (fst h) = fst h" using n(1) by (intro trim_graph) simp
  moreover have "split_once (CHR '':'') (header_line h) = Some (fst h, '' '' @ snd h)"
    unfolding header_line_def using split_once_append [of "CHR '':''" "fst h" "'' '' @ snd h"] g by auto
  moreover have "is_ok (validate_header_value (trim (snd h)))" using h set_trim [of "snd h"] by (auto simp: header_ok_def header_value)
  moreover have "is_ok (validate_header_name (fst h))" using h by (simp add: header_ok_def)
  ultimately show ?thesis by (auto simp: parse_header_line_def trim_space is_ok_iff)
qed

lemma parse_header_lines_ok:
  "(\<And>h. h \<in> set hs \<Longrightarrow> header_ok h \<and> length (header_line h) \<le> MAX_HEADER_LINE_BYTES) \<Longrightarrow>
   length out + length hs \<le> MAX_HEADER_COUNT \<Longrightarrow>
   parse_header_lines out (map header_line hs) = Inr (out @ map (\<lambda>h. (fst h, trim (snd h))) hs)"
proof (induction hs arbitrary: out)
  case (Cons h hs)
  have "header_line h \<noteq> []" by (simp add: header_line_def)
  moreover have "header_ok h" "\<not> MAX_HEADER_LINE_BYTES < length (header_line h)" using Cons.prems(1) [of h] by auto
  ultimately show ?case using Cons.prems Cons.IH [of "out @ [(fst h, trim (snd h))]"] by (simp add: parse_header_line_ok)
qed simp

lemma parse_headers_ok:
  assumes "\<And>h. h \<in> set hs \<Longrightarrow> header_ok h \<and> length (header_line h) \<le> MAX_HEADER_LINE_BYTES"
    and "length hs \<le> MAX_HEADER_COUNT" "length (section_of (map header_line hs)) \<le> MAX_HEADER_SECTION_BYTES"
  shows "parse_headers (section_of (map header_line hs)) = Inr (map (\<lambda>h. (fst h, trim (snd h))) hs)"
proof -
  have "split_str CRLF (section_of (map header_line hs)) = (if hs = [] then [[]] else map header_line hs)"
    using assms(1) header_line_ok by (subst split_section) (auto simp: is_line_def)
  moreover have "utf8_valid (section_of (map header_line hs))" using assms(1) header_line_ok by (intro utf8_section) auto
  ultimately show ?thesis using assms parse_header_lines_ok [of hs "[]"]
    by (simp add: parse_headers_def validate_header_section_def)
qed

section \<open>Writing headers\<close>

definition content_length_header :: "nat \<Rightarrow> str \<times> str" where
  "content_length_header n = (''Content-Length'', show_nat n)"

lemma write_header_Inr:
  "write_header h = Inr l \<longleftrightarrow> is_ok (validate_header_name (fst h)) \<and> is_ok (validate_header_value (snd h)) \<and> l = header_line h @ CRLF"
  by (auto simp: write_header_def header_line_def is_ok_iff rbind_Inr_iff)

lemma rcollect_write_header:
  "rcollect write_header hs = Inr ls \<Longrightarrow>
   (\<forall>h \<in> set hs. is_ok (validate_header_name (fst h)) \<and> is_ok (validate_header_value (snd h))) \<and> concat ls = text_lines (map header_line hs)"
  by (induction hs arbitrary: ls) (auto simp: rbind_Inr_iff write_header_Inr)

lemma write_headers_Inr:
  assumes "write_headers hs n auto = Inr w"
  shows "\<forall>h \<in> set hs. is_ok (validate_header_name (fst h)) \<and> is_ok (validate_header_value (snd h))"
    and "w = text_lines (map header_line (hs @
           (if auto \<and> \<not> has_header ''content-length'' hs \<and> \<not> has_header ''transfer-encoding'' hs then [content_length_header n] else [])))"
proof -
  obtain ls where ls: "rcollect write_header hs = Inr ls" using assms by (auto simp: write_headers_def rbind_Inr_iff)
  show "\<forall>h \<in> set hs. is_ok (validate_header_name (fst h)) \<and> is_ok (validate_header_value (snd h))"
    using rcollect_write_header [OF ls] by blast
  show "w = text_lines (map header_line (hs @
           (if auto \<and> \<not> has_header ''content-length'' hs \<and> \<not> has_header ''transfer-encoding'' hs then [content_length_header n] else [])))"
    using assms ls rcollect_write_header [OF ls]
    by (simp add: write_headers_def Let_def header_line_def content_length_header_def split: if_splits)
qed

lemma digit_plain: "is_digit c \<Longrightarrow> byte c < 0x80 \<and> c \<noteq> CHR 0x0D \<and> c \<noteq> CHR 0x0A \<and> c \<noteq> CHR 0x00 \<and> c \<noteq> CHR '' ''"
  by (auto simp: is_digit_def)

lemma show_nat_plain: "c \<in> set (show_nat n) \<Longrightarrow> byte c < 0x80 \<and> c \<noteq> CHR 0x0D \<and> c \<noteq> CHR 0x0A \<and> c \<noteq> CHR 0x00 \<and> c \<noteq> CHR '' ''"
  using show_nat_digits digit_plain by blast

lemma utf8_show_nat: "utf8_valid (show_nat n)"
  using ascii_valid [of "show_nat n" "[]"] show_nat_plain by simp

lemma header_ok_content_length: "header_ok (content_length_header n)"
proof -
  have "validate_header_name ''Content-Length'' = Inr ()"
    by (simp add: validate_header_name_def is_field_name_byte_def is_ascii_alphabetic_def is_ascii_upper_def is_ascii_lower_def)
  then show ?thesis using show_nat_plain utf8_show_nat by (auto simp: header_ok_def content_length_header_def header_value)
qed

lemma trim_show_nat: "trim (show_nat n) = show_nat n"
  using show_nat_digits [OF hd_in_set [OF show_nat_not_Nil [of n]]] show_nat_digits [OF last_in_set [OF show_nat_not_Nil [of n]]]
  by (intro trim_graph) (simp add: is_digit_graph)

section \<open>Framing by the written length\<close>

lemma lower_other [simp]: "byte c < 65 \<or> 90 < byte c \<Longrightarrow> to_ascii_lowercase c = c"
  by (auto simp: to_ascii_lowercase_def is_ascii_upper_def)

lemma lower_CL [simp]: "to_ascii_lowercase (CHR ''C'') = CHR ''c''" "to_ascii_lowercase (CHR ''L'') = CHR ''l''"
  by code_simp+

lemma values_none: "\<not> has_header name hs \<Longrightarrow> ascii_lower name = name \<Longrightarrow> case_insensitive_values (map (\<lambda>h. (fst h, f h)) hs) name = []"
  by (induction hs) (auto simp: has_header_def case_insensitive_values_def)

lemma decode_framing_length:
  assumes "\<not> has_header ''content-length'' hs" "\<not> has_header ''transfer-encoding'' hs" "n \<le> MAX_DECODED_BODY_BYTES"
  shows "decode_framing (map (\<lambda>h. (fst h, trim (snd h))) (hs @ [content_length_header n])) = Inr (Some (Length n))"
proof -
  let ?hs = "map (\<lambda>h. (fst h, trim (snd h))) (hs @ [content_length_header n])"
  have lo: "ascii_lower ''content-length'' = ''content-length''" "ascii_lower ''transfer-encoding'' = ''transfer-encoding''" by code_simp+
  have "case_insensitive_values ?hs ''transfer-encoding'' = []"
    using values_none [OF assms(2) lo(2)] by (simp add: case_insensitive_values_def content_length_header_def)
  then have "transfer_encoding ?hs = Inr None" by (simp add: transfer_encoding_def)
  moreover have "case_insensitive_values ?hs ''content-length'' = [show_nat n]"
    using values_none [OF assms(1) lo(1)]
    by (simp add: case_insensitive_values_def content_length_header_def trim_show_nat)
  then have "content_length ?hs = Inr (Some n)"
    using parse_uint_show_nat [of n 64] assms(3) body_limit_small by (simp add: content_length_def trim_show_nat)
  ultimately show ?thesis using assms(3) by (simp add: decode_framing_def checked_body_len_def)
qed

section \<open>Responses\<close>

definition status_line :: "u16 \<Rightarrow> str \<Rightarrow> str" where
  "status_line status reason = ''HTTP/1.1 '' @ show_nat (unat status) @ '' '' @ reason"

lemma status_line_ok:
  assumes "CHR 0x0D \<notin> set reason" "utf8_valid reason"
  shows "is_line (status_line status reason)" "utf8_valid (status_line status reason)"
    "splitn 3 (CHR '' '') (status_line status reason) = [''HTTP/1.1'', show_nat (unat status), reason]"
proof -
  show "is_line (status_line status reason)" using assms(1) show_nat_plain by (auto simp: is_line_def status_line_def)
  show "utf8_valid (status_line status reason)" unfolding status_line_def
    using utf8_valid_append [OF utf8_show_nat] assms(2) by simp
  have "split_once (CHR '' '') (''HTTP/1.1'' @ CHR '' '' # show_nat (unat status) @ '' '' @ reason)
      = Some (''HTTP/1.1'', show_nat (unat status) @ '' '' @ reason)" by (rule split_once_append) simp
  moreover have "split_once (CHR '' '') (show_nat (unat status) @ CHR '' '' # reason) = Some (show_nat (unat status), reason)"
    using show_nat_plain by (intro split_once_append) auto
  ultimately show "splitn 3 (CHR '' '') (status_line status reason) = [''HTTP/1.1'', show_nat (unat status), reason]"
    by (simp add: status_line_def numeral_3_eq_3)
qed

definition fits :: "header_list \<Rightarrow> bool" where
  "fits hs \<longleftrightarrow> length hs \<le> MAX_HEADER_COUNT \<and> list_all (\<lambda>h. length (header_line h) \<le> MAX_HEADER_LINE_BYTES) hs"

lemma parse_head_ok:
  assumes "CHR 0x0D \<notin> set reason" "utf8_valid reason" "\<And>h. h \<in> set hs \<Longrightarrow> header_ok h" "fits hs"
    and "length (text_lines (status_line status reason # map header_line hs)) \<le> MAX_HEADER_SECTION_BYTES"
  shows "parse_head_section (section_of (status_line status reason # map header_line hs))
    = Inr \<lparr>rh_version = ''HTTP/1.1'', rh_status = status, rh_reason = reason, rh_headers = map (\<lambda>h. (fst h, trim (snd h))) hs\<rparr>"
proof -
  note sl = status_line_ok [OF assms(1,2), of status]
  have cr: "CHR 0x0D \<notin> set (status_line status reason)" using sl(1) by (simp add: is_line_def)
  have "parse_headers (section_of (map header_line hs)) = Inr (map (\<lambda>h. (fst h, trim (snd h))) hs)"
    using assms(3-5) by (intro parse_headers_ok) (auto simp: fits_def list_all_iff section_of_length)
  then show ?thesis using sl(2,3) assms(5) parse_u16_show [of status]
    by (simp add: parse_head_section_def split_first_line_section [OF cr] validate_header_section_def section_of_length validate_http_version_def)
qed

lemma head_of_text:
  assumes "is_line l" "\<And>m. m \<in> set ls \<Longrightarrow> is_line m"
  shows "find_header_end_from (text_lines (l # ls) @ CRLF @ b) 0 = Some (length (text_lines (l # ls)) + 2)"
    and "take (length (text_lines (l # ls)) - 2) (text_lines (l # ls) @ CRLF @ b) = section_of (l # ls)"
    and "drop (length (text_lines (l # ls)) + 2) (text_lines (l # ls) @ CRLF @ b) = b"
proof -
  have "find_str (CRLF @ CRLF) (text_lines (l # ls) @ CRLF @ b) = Some (length (text_lines (l # ls)) - 2)"
    using assms by (intro find_head_end) auto
  then show "find_header_end_from (text_lines (l # ls) @ CRLF @ b) 0 = Some (length (text_lines (l # ls)) + 2)"
    by (simp add: find_header_end_0 del: text_lines_simps(2)) simp
  show "take (length (text_lines (l # ls)) - 2) (text_lines (l # ls) @ CRLF @ b) = section_of (l # ls)"
    by (simp add: section_of_def del: text_lines_simps(2))
  have "drop (length a + 2) (a @ CRLF @ b) = b" for a by simp
  then show "drop (length (text_lines (l # ls)) + 2) (text_lines (l # ls) @ CRLF @ b) = b" .
qed

text \<open>
  The headers that a serialized response has, the length that is added when the caller gave no
  framing header included, and what the peer reads of them.
\<close>

definition sent_headers :: "header_list \<Rightarrow> nat \<Rightarrow> header_list" where
  "sent_headers hs n =
     hs @ (if has_header ''content-length'' hs \<or> has_header ''transfer-encoding'' hs then [] else [content_length_header n])"

definition received_headers :: "header_list \<Rightarrow> nat \<Rightarrow> header_list" where
  "received_headers hs n = map (\<lambda>h. (fst h, trim (snd h))) (sent_headers hs n)"

lemma serialized_response_head:
  assumes ser: "try_serialize_response status reason hs body = Inr bs"
    and "CHR 0x0D \<notin> set reason" "utf8_valid reason" and u: "list_all (\<lambda>h. utf8_valid (snd h)) hs"
    and f: "fits (sent_headers hs (length body))" and len: "length bs \<le> MAX_HEADER_SECTION_BYTES + length body"
  obtains e where "find_header_end_from bs 0 = Some e" "drop e bs = body" "parse_head_section (take (e - 4) bs)
    = Inr \<lparr>rh_version = ''HTTP/1.1'', rh_status = status, rh_reason = reason, rh_headers = received_headers hs (length body)\<rparr>"
proof -
  let ?hs = "sent_headers hs (length body)"
  obtain hw where hw: "write_headers hs (length body) True = Inr hw"
    and "bs = ''HTTP/1.1 '' @ show_nat (unat status) @ '' '' @ reason @ CRLF @ hw @ CRLF @ body"
    using ser by (auto simp: try_serialize_response_def rbind_Inr_iff)
  then have bs: "bs = text_lines (status_line status reason # map header_line ?hs) @ CRLF @ body"
    using write_headers_Inr(2) [OF hw] by (auto simp: sent_headers_def status_line_def)
  have ok: "header_ok h" if "h \<in> set ?hs" for h
    using that write_headers_Inr(1) [OF hw] u header_ok_content_length
    by (auto simp: sent_headers_def header_ok_def list_all_iff split: if_splits)
  have lines: "is_line m" if "m \<in> set (map header_line ?hs)" for m
  proof -
    obtain h where "h \<in> set ?hs" "m = header_line h" using \<open>m \<in> set (map header_line ?hs)\<close> unfolding set_map by blast
    then show ?thesis using header_line_ok [OF ok] by blast
  qed
  define L where "L = status_line status reason # map header_line ?hs"
  note sl = status_line_ok(1) [OF assms(2,3), of status]
  have "find_header_end_from bs 0 = Some (length (text_lines L) + 2)" unfolding bs L_def by (rule head_of_text(1) [OF sl lines])
  moreover have t: "take (length (text_lines L) + 2 - 4) bs = section_of L"
    using head_of_text(2) [OF sl lines, of "map header_line ?hs" body] unfolding bs L_def by (simp del: text_lines_simps map_append)
  moreover have "drop (length (text_lines L) + 2) bs = body" unfolding bs L_def by (rule head_of_text(3) [OF sl lines])
  moreover have "parse_head_section (section_of L)
      = Inr \<lparr>rh_version = ''HTTP/1.1'', rh_status = status, rh_reason = reason, rh_headers = received_headers hs (length body)\<rparr>"
    unfolding received_headers_def L_def using assms(2,3) ok f len by (intro parse_head_ok) (auto simp: bs simp del: text_lines_simps)
  ultimately show thesis using that by simp
qed

lemma received_framing:
  assumes "\<not> has_header ''content-length'' hs" "\<not> has_header ''transfer-encoding'' hs" "n \<le> MAX_DECODED_BODY_BYTES"
  shows "decode_framing (received_headers hs n) = Inr (Some (Length n))"
  unfolding received_headers_def sent_headers_def using assms decode_framing_length by simp

section \<open>The decoder and the parser of a whole response\<close>

lemma read_chunked_go: "chunk_step d = Go x d' \<Longrightarrow> read_chunked out d = read_chunked (out @ x) d'"
  by (simp add: read_chunked_step [of out d])

lemma read_chunked_trailer: "chunk d = CTrailer \<Longrightarrow> fst (read_chunked out d) = Inr out"
  by (simp add: read_chunked_step [of out d] chunk_step_def halt_def split: prod.split)

lemma chunk_size_step:
  assumes "chunk d = CSize" "find_str CRLF (buf d) = Some i" "parse_chunk_size_line (take i (buf d)) = Inr sz" "sz \<noteq> 0"
    "chunks_seen d < MAX_CHUNK_COUNT" "emitted d + sz \<le> MAX_DECODED_BODY_BYTES" "sz + 2 \<le> length r" "take 2 (drop sz r) = CRLF"
    and r: "r = drop (i + 2) (buf d)"
  shows "read_chunked out d = read_chunked (out @ take sz r)
    (d\<lparr>buf := drop 2 (drop sz r), emitted := emitted d + sz, chunks_seen := chunks_seen d + 1\<rparr>)"
proof -
  let ?d1 = "d\<lparr>buf := r, chunks_seen := chunks_seen d + 1, chunk := CData sz\<rparr>"
  let ?d2 = "?d1\<lparr>buf := drop sz r, emitted := emitted d + sz, chunk := CDataCrlf\<rparr>"
  let ?d3 = "?d2\<lparr>buf := drop 2 (drop sz r), chunk := CSize\<rparr>"
  have 1: "chunk_step d = Go [] ?d1" using assms by (simp add: chunk_step_def)
  have "min sz (length r) = sz" "r \<noteq> []" using assms(7) by auto
  then have 2: "chunk_step ?d1 = Go (take sz r) ?d2" using assms(6) by (simp add: chunk_step_def)
  have 3: "chunk_step ?d2 = Go [] ?d3" using assms(7,8) by (simp add: chunk_step_def)
  have "?d3 = d\<lparr>buf := drop 2 (drop sz r), emitted := emitted d + sz, chunks_seen := chunks_seen d + 1\<rparr>" using assms(1) by simp
  then show ?thesis unfolding read_chunked_go [OF 1] read_chunked_go [OF 2] read_chunked_go [OF 3] append_Nil2 by (simp only:)
qed

lemma chunked_decode_Inr:
  assumes "chunked_decode_loop out n bytes = Inr res"
  obtains i where "find_str CRLF bytes = Some i" "parse_chunk_size_line (take i bytes) = Inr 0" "res = out"
      "find_str CRLF (drop (i + 2) bytes) \<noteq> None"
  | i sz r where "find_str CRLF bytes = Some i" "parse_chunk_size_line (take i bytes) = Inr sz" "sz \<noteq> 0" "r = drop (i + 2) bytes"
      "n < MAX_CHUNK_COUNT" "length out + sz \<le> MAX_DECODED_BODY_BYTES" "sz + 2 \<le> length r" "take 2 (drop sz r) = CRLF"
      "chunked_decode_loop (out @ take sz r) (n + 1) (drop 2 (drop sz r)) = Inr res"
proof -
  obtain i sz where i: "bytes \<noteq> []" "find_str CRLF bytes = Some i" "parse_chunk_size_line (take i bytes) = Inr sz"
    using assms by (subst (asm) chunked_decode_loop.simps) (auto split: if_splits option.splits sum.splits)
  define r where "r = drop (i + 2) bytes"
  note eq = assms [unfolded chunked_decode_loop.simps [of out n bytes], simplified i option.case sum.case if_False Let_def, folded r_def]
  show thesis
  proof (cases "sz = 0")
    case True
    moreover have "prefix CRLF r \<Longrightarrow> find_str CRLF r \<noteq> None" by (cases r) auto
    ultimately show ?thesis using that(1) [of i] i eq by (auto simp: r_def split: if_splits)
  next
    case False
    then show ?thesis using that(2) [OF i(2,3) False r_def] eq
      by (auto split: if_splits sum.splits dest: checked_add_Inr)
  qed
qed

lemma chunked_decode_reads:
  "chunked_decode_loop out n bytes = Inr res \<Longrightarrow> chunk d = CSize \<Longrightarrow> buf d = bytes \<Longrightarrow> emitted d = length out
   \<Longrightarrow> chunks_seen d = n \<Longrightarrow> fst (read_chunked out d) = Inr res"
proof (induction "length bytes" arbitrary: out n bytes d rule: less_induct)
  case less
  from less.prems(1) show ?case
  proof (cases rule: chunked_decode_Inr)
    case (1 i)
    let ?d = "d\<lparr>buf := drop (i + 2) bytes, chunk := CTrailer\<rparr>"
    have "chunk_step d = Go [] ?d" using 1 less.prems by (simp add: chunk_step_def)
    then have "read_chunked out d = read_chunked out ?d" using read_chunked_go [of d "[]" ?d out] by (simp only: append_Nil2)
    also have "fst \<dots> = Inr out" by (intro read_chunked_trailer) simp
    finally show ?thesis using 1 by simp
  next
    case (2 i sz r)
    let ?d = "d\<lparr>buf := drop 2 (drop sz r), emitted := emitted d + sz, chunks_seen := chunks_seen d + 1\<rparr>"
    have "length (drop 2 (drop sz r)) < length bytes" using 2(4,7) by simp
    then have "fst (read_chunked (out @ take sz r) ?d) = Inr res" using less.hyps [OF _ 2(9), of ?d] less.prems 2(7) by simp
    moreover have "read_chunked out d = read_chunked (out @ take sz r) ?d" using less.prems 2 by (intro chunk_size_step) auto
    ultimately show ?thesis by simp
  qed
qed

end
