(* ===== verification/Http1_Chunks.thy ===== *)
theory Http1_Chunks
  imports Http1_Message
begin

text \<open>
  The chunked encoding of \<open>Http1_Codec\<close>: sizes are read back, chunks are decoded and measured as they
  were encoded, the measured length depends on nothing behind it, and the search for trailers ends
  on every body that decodes.
\<close>

section \<open>Sizes\<close>

lemma upper_hex_digit_val:
  assumes "d < 16"
  shows "is_ascii_hexdigit (upper_hex_digit d)" "hexdigit_val (upper_hex_digit d) = d" "byte (upper_hex_digit d) < 0x80"
    "upper_hex_digit d \<noteq> CHR '';''" "upper_hex_digit d \<noteq> CHR 0x0D"
proof -
  have b: "byte (upper_hex_digit d) = (if d < 10 then 48 + d else 55 + d)" using assms by (simp add: upper_hex_digit_def)
  show "is_ascii_hexdigit (upper_hex_digit d)" "hexdigit_val (upper_hex_digit d) = d" "byte (upper_hex_digit d) < 0x80"
    using assms by (auto simp: is_ascii_hexdigit_def hexdigit_val_def is_digit_def b)
  show "upper_hex_digit d \<noteq> CHR '';''" "upper_hex_digit d \<noteq> CHR 0x0D" using assms b by (auto split: if_splits)
qed

lemma show_hex_digits:
  "c \<in> set (show_hex n) \<Longrightarrow> is_ascii_hexdigit c \<and> byte c < 0x80 \<and> c \<noteq> CHR '';'' \<and> c \<noteq> CHR 0x0D"
proof (induction n rule: show_hex.induct)
  case (1 n)
  then show ?case using upper_hex_digit_val [of n] upper_hex_digit_val [of "n mod 16"]
    by (subst (asm) (2) show_hex.simps) (auto split: if_splits)
qed

lemma show_hex_not_Nil [simp]: "show_hex n \<noteq> []"
  by (subst show_hex.simps) simp

lemma show_hex_val: "foldl (\<lambda>acc c. acc * 16 + hexdigit_val c) 0 (show_hex n) = n"
proof (induction n rule: show_hex.induct)
  case (1 n)
  then show ?case using upper_hex_digit_val [of n] upper_hex_digit_val [of "n mod 16"] by (subst show_hex.simps) auto
qed

lemma parse_show_hex: "n < 2 ^ 64 \<Longrightarrow> parse_chunk_size_line (show_hex n) = Inr n"
proof -
  assume n: "n < 2 ^ 64"
  have "utf8_valid (show_hex n)" using ascii_valid [of "show_hex n" "[]"] show_hex_digits by simp
  moreover have "split_char (CHR '';'') (show_hex n) = [show_hex n]" using show_hex_digits by (intro split_char_notin) blast
  moreover have "list_all is_ascii_hexdigit (show_hex n)" using show_hex_digits by (auto simp: list_all_iff)
  ultimately show ?thesis using n by (simp add: parse_chunk_size_line_def from_str_radix16_def show_hex_val)
qed

section \<open>Chunks that were encoded\<close>

definition chunk_text :: "str \<Rightarrow> str" where
  "chunk_text c = show_hex (length c) @ CRLF @ c @ CRLF"

lemma show_hex_0: "show_hex 0 = ''0''"
  by code_simp

lemma chunked_encode_chunks: "chunked_encode cs = concat (map chunk_text cs) @ chunk_text []"
  by (simp add: chunked_encode_def chunk_text_def [abs_def] show_hex_0)

lemma find_chunk_line: "find_str CRLF (chunk_text c @ b) = Some (length (show_hex (length c)))"
proof -
  have "CHR 0x0D \<notin> set (show_hex (length c))" using show_hex_digits by blast
  then show ?thesis by (simp add: chunk_text_def)
qed

lemma chunk_text_parts:
  "take (length (show_hex (length c))) (chunk_text c @ b) = show_hex (length c)"
  "drop (length (show_hex (length c)) + 2) (chunk_text c @ b) = c @ CRLF @ b"
  by (simp_all add: chunk_text_def)

lemma decode_chunk_text:
  assumes "c \<noteq> []" "n < MAX_CHUNK_COUNT" "length out + length c \<le> MAX_DECODED_BODY_BYTES"
  shows "chunked_decode_loop out n (chunk_text c @ b) = chunked_decode_loop (out @ c) (n + 1) b"
    and "chunked_consumed_loop (length out) n i (chunk_text c @ b) = chunked_consumed_loop (length (out @ c)) (n + 1) (i + length (chunk_text c)) b"
proof -
  have sz: "parse_chunk_size_line (show_hex (length c)) = Inr (length c)"
    using assms(3) body_limit_small by (intro parse_show_hex) simp
  define s where "s = chunk_text c @ b"
  have s: "s \<noteq> []" "find_str CRLF s = Some (length (show_hex (length c)))" "take (length (show_hex (length c))) s = show_hex (length c)"
    "drop (length (show_hex (length c)) + 2) s = c @ CRLF @ b"
    unfolding s_def using find_chunk_line chunk_text_parts by (auto simp: chunk_text_def)
  show "chunked_decode_loop out n (chunk_text c @ b) = chunked_decode_loop (out @ c) (n + 1) b"
    unfolding s_def [symmetric] chunked_decode_loop.simps [of out n s] s(2,3) option.case sz sum.case Let_def s(4)
    using s(1) assms by simp
  show "chunked_consumed_loop (length out) n i (chunk_text c @ b) = chunked_consumed_loop (length (out @ c)) (n + 1) (i + length (chunk_text c)) b"
    unfolding s_def [symmetric] chunked_consumed_loop.simps [of "length out" n i s] s(2,3) option.case sz sum.case Let_def s(4)
    using s(1) assms by (simp add: chunk_text_def add.assoc)
qed

lemma decode_last_chunk:
  "chunked_decode_loop out n (chunk_text [] @ b) = Inr out"
  "chunked_consumed_loop k n i (chunk_text [] @ b) = Inr (i + length (chunk_text []))"
proof -
  have t: "chunk_text [] = ''0'' @ CRLF @ CRLF" by (simp add: chunk_text_def show_hex_0)
  have sz: "parse_chunk_size_line ''0'' = Inr 0" using parse_show_hex [of 0] by (simp add: show_hex_0)
  show "chunked_decode_loop out n (chunk_text [] @ b) = Inr out"
    by (simp add: chunked_decode_loop.simps [of out n] t sz)
  show "chunked_consumed_loop k n i (chunk_text [] @ b) = Inr (i + length (chunk_text []))"
    by (simp add: chunked_consumed_loop.simps [of k n i] t sz)
qed

lemma decode_chunks:
  "[] \<notin> set cs \<Longrightarrow> n + length cs \<le> MAX_CHUNK_COUNT \<Longrightarrow> length out + length (concat cs) \<le> MAX_DECODED_BODY_BYTES \<Longrightarrow>
   chunked_decode_loop out n (concat (map chunk_text cs) @ b) = chunked_decode_loop (out @ concat cs) (n + length cs) b
   \<and> chunked_consumed_loop (length out) n i (concat (map chunk_text cs) @ b)
     = chunked_consumed_loop (length (out @ concat cs)) (n + length cs) (i + length (concat (map chunk_text cs))) b"
proof (induction cs arbitrary: out n i)
  case (Cons c cs)
  have "c \<noteq> []" "n < MAX_CHUNK_COUNT" "length out + length c \<le> MAX_DECODED_BODY_BYTES" using Cons.prems by auto
  from decode_chunk_text [OF this] show ?case using Cons.IH [of "n + 1" "out @ c" "i + length (chunk_text c)"] Cons.prems
    by (simp add: add.assoc)
qed simp

section \<open>Where a chunked body ends\<close>

lemma find_str_take: "find_str pat s = Some i \<Longrightarrow> i + length pat \<le> k \<Longrightarrow> find_str pat (take k s @ x) = Some i"
proof -
  assume f: "find_str pat s = Some i" and k: "i + length pat \<le> k"
  have "find_str pat (take k s) = Some i"
  proof (cases "find_str pat (take k s)")
    case None
    have "length (take k s) < i + length pat" using find_str_None_append [OF None, of "drop k s" i] f by simp
    then show ?thesis using k find_str_Some_length [OF f] by simp
  next
    case (Some j)
    then show ?thesis using find_str_append [OF Some, of "drop k s"] f by simp
  qed
  then show ?thesis by (rule find_str_append)
qed

lemma find_crlf_before: "find_str (CRLF @ CRLF) r = Some t \<Longrightarrow> find_str CRLF r \<noteq> None"
proof
  assume t: "find_str (CRLF @ CRLF) r = Some t" and n: "find_str CRLF r = None"
  have "t + 2 \<le> length r" using find_str_Some_length [OF t] by simp
  then have "\<not> prefix CRLF (drop t r)" using find_str_least [OF n, of t] by simp
  moreover have "prefix CRLF (drop t r)" using append_prefixD [OF find_str_prefix [OF t]] .
  ultimately show False by contradiction
qed

lemma chunked_consumed_Inr:
  assumes "chunked_consumed_loop k n i bytes = Inr m"
  obtains (last) j r where "find_str CRLF bytes = Some j" "parse_chunk_size_line (take j bytes) = Inr 0" "r = drop (j + 2) bytes"
      "prefix CRLF r" "m = i + (j + 2) + 2"
  | (trailers) j r t where "find_str CRLF bytes = Some j" "parse_chunk_size_line (take j bytes) = Inr 0" "r = drop (j + 2) bytes"
      "\<not> prefix CRLF r" "find_str (CRLF @ CRLF) r = Some t" "m = i + (j + 2) + (t + 4)"
  | (chunk) j sz r where "find_str CRLF bytes = Some j" "parse_chunk_size_line (take j bytes) = Inr sz" "sz \<noteq> 0" "r = drop (j + 2) bytes"
      "n < MAX_CHUNK_COUNT" "k + sz \<le> MAX_DECODED_BODY_BYTES" "sz + 2 \<le> length r" "take 2 (drop sz r) = CRLF"
      "chunked_consumed_loop (k + sz) (n + 1) (i + (j + 2) + (sz + 2)) (drop 2 (drop sz r)) = Inr m"
proof -
  obtain j sz where i: "bytes \<noteq> []" "find_str CRLF bytes = Some j" "parse_chunk_size_line (take j bytes) = Inr sz"
    using assms by (subst (asm) chunked_consumed_loop.simps) (auto split: if_splits option.splits sum.splits)
  define r where "r = drop (j + 2) bytes"
  note eq = assms [unfolded chunked_consumed_loop.simps [of k n i bytes], simplified i option.case sum.case if_False Let_def, folded r_def]
  show thesis
  proof (cases "sz = 0")
    case True
    show ?thesis
    proof (cases "prefix CRLF r")
      case prefix: True
      then show ?thesis using True i eq by (intro last [of j r]) (auto simp: r_def)
    next
      case False
      then show ?thesis using True i eq trailers [of j r] by (auto simp: r_def split: option.splits)
    qed
  next
    case False
    then show ?thesis using chunk [OF i(2,3) False r_def] eq
      by (auto simp: add.assoc split: if_splits sum.splits dest!: checked_add_Inr)
  qed
qed

lemma consumed_intros:
  assumes "find_str CRLF b = Some j" "parse_chunk_size_line (take j b) = Inr sz" "r = drop (j + 2) b"
  shows "sz = 0 \<Longrightarrow> prefix CRLF r \<Longrightarrow> chunked_consumed_loop k n i b = Inr (i + (j + 2) + 2)"
    "sz = 0 \<Longrightarrow> \<not> prefix CRLF r \<Longrightarrow> find_str (CRLF @ CRLF) r = Some t \<Longrightarrow> chunked_consumed_loop k n i b = Inr (i + (j + 2) + (t + 4))"
    "sz \<noteq> 0 \<Longrightarrow> n < MAX_CHUNK_COUNT \<Longrightarrow> k + sz \<le> MAX_DECODED_BODY_BYTES \<Longrightarrow> sz + 2 \<le> length r \<Longrightarrow> take 2 (drop sz r) = CRLF \<Longrightarrow>
     chunked_consumed_loop k n i b = chunked_consumed_loop (k + sz) (n + 1) (i + (j + 2) + (sz + 2)) (drop 2 (drop sz r))"
    "sz = 0 \<Longrightarrow> find_str CRLF r \<noteq> None \<Longrightarrow> chunked_decode_loop out n b = Inr out"
    "sz \<noteq> 0 \<Longrightarrow> n < MAX_CHUNK_COUNT \<Longrightarrow> length out + sz \<le> MAX_DECODED_BODY_BYTES \<Longrightarrow> sz + 2 \<le> length r \<Longrightarrow> take 2 (drop sz r) = CRLF \<Longrightarrow>
     chunked_decode_loop out n b = chunked_decode_loop (out @ take sz r) (n + 1) (drop 2 (drop sz r))"
proof -
  have b: "(b = []) = False" using assms(1) by auto
  note c = chunked_consumed_loop.simps [of k n i b, unfolded b if_False assms(1,2) option.case sum.case Let_def, folded assms(3)]
  note d = chunked_decode_loop.simps [of out n b, unfolded b if_False assms(1,2) option.case sum.case Let_def, folded assms(3)]
  show "sz = 0 \<Longrightarrow> prefix CRLF r \<Longrightarrow> chunked_consumed_loop k n i b = Inr (i + (j + 2) + 2)" by (simp add: c)
  show "sz = 0 \<Longrightarrow> \<not> prefix CRLF r \<Longrightarrow> find_str (CRLF @ CRLF) r = Some t \<Longrightarrow> chunked_consumed_loop k n i b = Inr (i + (j + 2) + (t + 4))" by (simp add: c)
  show "sz \<noteq> 0 \<Longrightarrow> n < MAX_CHUNK_COUNT \<Longrightarrow> k + sz \<le> MAX_DECODED_BODY_BYTES \<Longrightarrow> sz + 2 \<le> length r \<Longrightarrow> take 2 (drop sz r) = CRLF \<Longrightarrow>
     chunked_consumed_loop k n i b = chunked_consumed_loop (k + sz) (n + 1) (i + (j + 2) + (sz + 2)) (drop 2 (drop sz r))"
    by (simp add: c add.assoc)
  show "sz = 0 \<Longrightarrow> find_str CRLF r \<noteq> None \<Longrightarrow> chunked_decode_loop out n b = Inr out" by (simp add: d)
  show "sz \<noteq> 0 \<Longrightarrow> n < MAX_CHUNK_COUNT \<Longrightarrow> length out + sz \<le> MAX_DECODED_BODY_BYTES \<Longrightarrow> sz + 2 \<le> length r \<Longrightarrow> take 2 (drop sz r) = CRLF \<Longrightarrow>
     chunked_decode_loop out n b = chunked_decode_loop (out @ take sz r) (n + 1) (drop 2 (drop sz r))" by (auto simp: d)
qed

lemma find_cut:
  assumes "find_str CRLF b = Some j" "j + 2 \<le> l"
  shows "find_str CRLF (take l b @ x) = Some j" "take j (take l b @ x) = take j b"
    "drop (j + 2) (take l b @ x) = take (l - (j + 2)) (drop (j + 2) b) @ x"
proof -
  have "j + 2 \<le> length b" using find_str_Some_length [OF assms(1)] by simp
  then show "find_str CRLF (take l b @ x) = Some j" "take j (take l b @ x) = take j b"
    "drop (j + 2) (take l b @ x) = take (l - (j + 2)) (drop (j + 2) b) @ x"
    using assms find_str_take [OF assms(1), of l x] by (auto simp: min_def drop_take)
qed

lemma prefix_take: "prefix pat r \<Longrightarrow> length pat \<le> l \<Longrightarrow> prefix pat (take l r @ y)"
proof -
  assume p: "prefix pat r" and l: "length pat \<le> l"
  have "length pat \<le> length (take l r)" using l prefix_length_le [OF p] by simp
  moreover have "prefix pat (take l r @ drop l r)" using p by simp
  ultimately show ?thesis using prefix_short by blast
qed

lemma prefix_take_iff: "length pat \<le> l \<Longrightarrow> length pat \<le> length r \<Longrightarrow> prefix pat (take l r @ y) = prefix pat r"
  using prefix_short [of pat "take l r" y] prefix_short [of pat "take l r" "drop l r"] by simp

lemma prefix_find: "prefix CRLF r \<Longrightarrow> find_str CRLF r \<noteq> None"
  by (cases r) auto

lemma consumed_own_bytes:
  "chunked_consumed_loop k n i bytes = Inr m \<Longrightarrow> length out = k \<Longrightarrow> i < m \<and> m \<le> i + length bytes
   \<and> chunked_consumed_loop k n i (take (m - i) bytes @ y) = Inr m \<and> is_ok (chunked_decode_loop out n (take (m - i) bytes @ y))"
proof (induction "length bytes" arbitrary: k n i bytes out rule: less_induct)
  case less
  have len: "j + 2 + length r = length bytes" if "find_str CRLF bytes = Some j" "r = drop (j + 2) bytes" for j r
    using find_str_Some_length [OF that(1)] that(2) by simp
  from less.prems(1) show ?case
  proof (cases rule: chunked_consumed_Inr)
    case (last j r)
    have l: "m - i = j + 2 + 2" "j + 2 \<le> m - i" "2 \<le> length r" using last(5) prefix_length_le [OF last(4)] by simp_all
    note c = find_cut [OF last(1) l(2), of y, folded last(3)]
    have p: "prefix CRLF (drop (j + 2) (take (m - i) bytes @ y))" unfolding c(3) unfolding l(1) using last(4) by (intro prefix_take) simp_all
    note r = consumed_intros [OF c(1) last(2) [folded c(2)] refl]
    show ?thesis using r(1) [OF refl p, of k n i] r(4) [OF refl prefix_find [OF p], of out n] last(5) len [OF last(1,3)] l(3) by simp
  next
    case (trailers j r t)
    have tl: "t + 4 \<le> length r" using find_str_Some_length [OF trailers(5)] by simp
    have l: "m - i = j + 2 + (t + 4)" "j + 2 \<le> m - i" using trailers(6) by simp_all
    note c = find_cut [OF trailers(1) l(2), of y, folded trailers(3)]
    let ?r = "drop (j + 2) (take (m - i) bytes @ y)"
    have p: "\<not> prefix CRLF ?r" unfolding c(3) unfolding l(1) using trailers(4) tl prefix_take_iff [of CRLF "t + 4" r y] by (simp add: add.commute)
    have f: "find_str (CRLF @ CRLF) ?r = Some t" unfolding c(3) unfolding l(1) using find_str_take [OF trailers(5), of "t + 4" y] by (simp add: add.commute)
    note r = consumed_intros [OF c(1) trailers(2) [folded c(2)] refl]
    show ?thesis using r(2) [OF refl p f, of k n i] r(4) [OF refl find_crlf_before [OF f], of out n] trailers(6) len [OF trailers(1,3)] tl by simp
  next
    case (chunk j sz r)
    let ?i = "i + (j + 2) + (sz + 2)" and ?b = "drop 2 (drop sz r)"
    have shorter: "length ?b < length bytes" using len [OF chunk(1,4)] by simp
    have out: "length (out @ take sz r) = k + sz" using less.prems(2) chunk(7) by simp
    have IH: "?i < m \<and> m \<le> ?i + length ?b \<and> chunked_consumed_loop (k + sz) (n + 1) ?i (take (m - ?i) ?b @ y) = Inr m
        \<and> is_ok (chunked_decode_loop (out @ take sz r) (n + 1) (take (m - ?i) ?b @ y))"
      using less.hyps [OF shorter chunk(9) out] .
    let ?l = "m - i - (j + 2)"
    have l: "j + 2 \<le> m - i" "sz + 2 \<le> ?l" "m - ?i = ?l - (sz + 2)" "?l \<le> length r" using IH chunk(7) by auto
    note c = find_cut [OF chunk(1) l(1), of y, folded chunk(4)]
    let ?r = "take ?l r @ y"
    have r: "sz + 2 \<le> length ?r" "take sz ?r = take sz r" "take 2 (drop sz ?r) = CRLF" "drop 2 (drop sz ?r) = take (m - ?i) ?b @ y"
      using l chunk(7,8) by (auto simp: drop_take min_def)
    note ci = consumed_intros [OF c(1) chunk(2) [folded c(2)] c(3) [symmetric]]
    show ?thesis
      using ci(3) [OF chunk(3,5,6) r(1,3), of i] ci(5) [OF chunk(3,5) _ r(1,3), of out] IH r(2,4) chunk(6,7) len [OF chunk(1,4)] less.prems(2) by auto
  qed
qed

section \<open>The search for trailers\<close>

lemma trailers_loop_ends:
  "length bytes < 2 ^ 64 \<Longrightarrow> i \<le> length bytes \<Longrightarrow> chunked_decode_loop out n (drop i bytes) = Inr res
   \<Longrightarrow> \<exists>ts. chunked_trailers_loop bytes i = Some ts"
proof (induction "length bytes - i" arbitrary: i out n rule: less_induct)
  case less
  from less.prems(3) show ?case
  proof (cases rule: chunked_decode_Inr)
    case (1 j)
    then show ?thesis by (subst chunked_trailers_loop.simps) simp
  next
    case (2 j sz r)
    let ?i = "i + j + 2 + sz"
    have l: "?i + 2 \<le> length bytes" using 2(4,7) by simp
    then have m: "?i mod 2 ^ 64 = ?i" "(?i + 2) mod 2 ^ 64 = ?i + 2" using less.prems(1) by simp_all
    have "drop 2 (drop sz r) = drop (?i + 2) bytes" using 2(4) by (simp add: ac_simps)
    then have "\<exists>ts. chunked_trailers_loop bytes (?i + 2) = Some ts" using less.hyps [of "?i + 2"] less.prems(1) 2(9) l by simp
    then show ?thesis using 2(1,2,3) l m by (subst chunked_trailers_loop.simps) (simp add: Let_def)
  qed
qed

text \<open>A size just below \<open>2 ^ 64\<close> takes the position back to the start.\<close>

definition turning_size :: str where
  "turning_size = ''FFFFFFFFFFFFFFEC'' @ CRLF"

lemma trailers_loop_turns:
  assumes "chunked_trailers_loop s i = Some ts"
  shows "\<not> (s = turning_size \<and> i = 0)"
proof (rule chunked_trailers_loop.raw_induct [where P = "\<lambda>s i ts. \<not> (s = turning_size \<and> i = 0)", OF _ assms])
  fix loop and s :: str and i and ts :: header_list
  assume IH: "\<And>s i ts. loop s i = Some ts \<Longrightarrow> \<not> (s = turning_size \<and> i = 0)"
    and body: "(if length s \<le> i then Some []
      else case find_str CRLF (drop i s) of None \<Rightarrow> Some []
           | Some rel \<Rightarrow>
               (case parse_chunk_size_line (take rel (drop i s)) of Inl _ \<Rightarrow> Some []
                | Inr sz \<Rightarrow>
                    if sz = 0 then Some (trailer_lines (drop (i + rel + 2) s))
                    else let i' = (i + rel + 2 + sz) mod 2 ^ 64 in
                         if (i' + 2) mod 2 ^ 64 > length s then Some [] else loop s ((i' + 2) mod 2 ^ 64))) = Some ts"
  show "\<not> (s = turning_size \<and> i = 0)"
  proof
    assume si: "s = turning_size \<and> i = 0"
    have f: "find_str CRLF turning_size = Some 16" "length turning_size = 18" by code_simp+
    have p: "parse_chunk_size_line (take 16 turning_size) = Inr 18446744073709551596"
      by (simp add: turning_size_def parse_chunk_size_line_def is_ascii_hexdigit_def is_digit_def from_str_radix16_def hexdigit_val_def)
    then have "loop turning_size 0 = Some ts" using body si f by (simp add: Let_def)
    then show False using IH by blast
  qed
qed

lemma trailers_loop_turning: "parse_chunked_trailers turning_size = None"
  using trailers_loop_turns [of turning_size 0] by (cases "chunked_trailers_loop turning_size 0") (simp_all add: parse_chunked_trailers_def)

end
