(* ===== verification/Http1_Server.thy ===== *)
theory Http1_Server
  imports Http1_Chunks
begin

text \<open>
  How the server reads one request from a connection: \<open>read_request\<close> and \<open>request_complete\<close> of
  \<open>crates/cruft/src/http.rs\<close>, over \<open>message_consumed_len\<close> of the codec. The socket and the clock
  are given by what they answer in each turn of the loop: the milliseconds since the start and the
  result of \<open>stream_try_read\<close>. Switching the socket to non-blocking mode and back, and the sleep of
  a millisecond when there is nothing to read, have no other effect and are left out.
\<close>

section \<open>The reading loop\<close>

definition MAX_REQUEST_BYTES :: nat where
  "MAX_REQUEST_BYTES = MAX_DECODED_BODY_BYTES + 64 * 1024"

record ReadRequest =
  rr_request :: str \<comment> \<open>\<open>request\<close>\<close>
  rr_leftover :: str \<comment> \<open>\<open>leftover\<close>\<close>

definition no_request :: ReadRequest where
  "no_request = \<lparr>rr_request = [], rr_leftover = []\<rparr>"

text \<open>\<open>Ok(Some(chunk))\<close>, \<open>Ok(None)\<close>, and \<open>Err(e)\<close> with the text of the error.\<close>

datatype TryRead = ReadChunk str | WouldBlock | ReadFailed str

text \<open>The first match of the loop: the result, if the bytes received settle it.\<close>

definition request_ready :: "str \<Rightarrow> (str + ReadRequest) option" where
  "request_ready bytes =
     (case message_consumed_len bytes of
        Inr n \<Rightarrow> if n \<le> length bytes then Some (Inr \<lparr>rr_request = take n bytes, rr_leftover = drop n bytes\<rparr>) else None
      | Inl Truncated \<Rightarrow> None
      | Inl ContentLengthMismatch \<Rightarrow> None
      | Inl (LimitExceeded e) \<Rightarrow> Some (Inl e)
      | Inl _ \<Rightarrow> Some (Inr \<lparr>rr_request = bytes, rr_leftover = []\<rparr>))"

text \<open>Answering \<open>Expect: 100-continue\<close> once the head is there: whether it was looked for, and what is written.\<close>

definition expect_continue :: "bool \<Rightarrow> str \<Rightarrow> bool \<times> str" where
  "expect_continue handled bytes =
     (if handled then (True, [])
      else (case find_str (CRLF @ CRLF) bytes of
        None \<Rightarrow> (False, [])
      | Some hdr_end \<Rightarrow>
          (True, if contains_str ''100-continue'' (ascii_lower (take hdr_end bytes))
                 then ''HTTP/1.1 100 Continue'' @ CRLF @ CRLF else [])))"

text \<open>
  The loop, on what the clock and the socket answer in each turn, with the bytes it writes. \<open>None\<close>:
  it still waits when the answers end.
\<close>

fun read_request_loop :: "nat \<Rightarrow> (nat \<times> TryRead) list \<Rightarrow> bool \<Rightarrow> str \<Rightarrow> (str + ReadRequest) option \<times> str" where
  "read_request_loop idle [] handled bytes =
     (case request_ready bytes of
        Some r \<Rightarrow> (Some r, [])
      | None \<Rightarrow> (None, snd (expect_continue handled bytes)))"
| "read_request_loop idle ((elapsed, rd) # turns) handled bytes =
     (case request_ready bytes of
        Some r \<Rightarrow> (Some r, [])
      | None \<Rightarrow>
          (let (handled, written) = expect_continue handled bytes;
               give_up = (if bytes = [] then Inr no_request else Inl ''incomplete request'');
               continue = (\<lambda>bytes. map_prod id (\<lambda>w. written @ w) (read_request_loop idle turns handled bytes)) in
           if 500 \<le> elapsed then (Some give_up, written)
           else if bytes = [] \<and> idle \<le> elapsed then (Some (Inr no_request), written)
           else (case rd of
             ReadChunk piece \<Rightarrow>
               if piece = [] then (Some give_up, written)
               else if MAX_REQUEST_BYTES < length (bytes @ piece) then (Some (Inl ''request too large''), written)
               else continue (bytes @ piece)
           | WouldBlock \<Rightarrow> continue bytes
           | ReadFailed e \<Rightarrow> (Some (Inl e), written))))"

definition read_request :: "nat \<Rightarrow> str \<Rightarrow> (nat \<times> TryRead) list \<Rightarrow> (str + ReadRequest) option \<times> str" where
  "read_request idle bytes turns = read_request_loop idle turns False bytes"

definition request_complete :: "str \<Rightarrow> bool" where
  "request_complete bytes =
     (case message_consumed_len bytes of
        Inr n \<Rightarrow> n \<le> length bytes
      | Inl Truncated \<Rightarrow> False
      | Inl ContentLengthMismatch \<Rightarrow> False
      | Inl _ \<Rightarrow> True)"

section \<open>Facts of the loop\<close>

text \<open>A request is complete exactly when the loop stops on it.\<close>

lemma request_complete_ready: "request_complete bytes \<longleftrightarrow> request_ready bytes \<noteq> None"
  by (auto simp: request_complete_def request_ready_def split: sum.splits CodecError.splits)

lemma nothing_ready: "request_ready [] = None"
  by (simp add: request_ready_def message_consumed_len_def find_header_end_def find_header_end_0 ok_or_def)

lemma read_request_first:
  assumes "t < 500" "t < idle" "piece \<noteq> []" "length piece \<le> MAX_REQUEST_BYTES" "request_ready piece = Some r"
  shows "fst (read_request idle [] ((t, ReadChunk piece) # turns)) = Some r"
proof -
  have "fst (read_request_loop idle turns h piece) = Some r" for h
    using assms(5) by (cases "(idle, turns, h, piece)" rule: read_request_loop.cases) simp_all
  then show ?thesis using assms(1-4) by (simp add: read_request_def nothing_ready split_beta)
qed

text \<open>The loop ends with the first turn after half a second, whatever the socket does.\<close>

lemma read_request_ends: "(t, rd) \<in> set turns \<Longrightarrow> 500 \<le> t \<Longrightarrow> fst (read_request_loop idle turns h bytes) \<noteq> None"
proof (induction turns arbitrary: h bytes)
  case (Cons x turns)
  then show ?case by (cases x) (auto simp: Let_def split: option.split prod.split TryRead.split)
qed simp

end
