(* ===== verification/Http1_Props.thy ===== *)
theory Http1_Props
  imports Http1_Server
begin

text \<open>
  The properties of the HTTP/1.1 codec: the decoder does not depend on how a response was cut into
  pieces and agrees with the parser of whole responses; a response that was serialized is received
  as it was meant; the chunked encoding; where a message ends in a stream of messages; and what a
  target with line ends in it does to a request.
\<close>

section \<open>The decoder in one go\<close>

lemma decoder_new_ok: "fresh_ok ResponseDecoder_new" "scan_ok ResponseDecoder_new" "norm ResponseDecoder_new = ResponseDecoder_new"
  by (simp_all add: fresh_ok_def stream_ok_def chunk_ok_def ResponseDecoder_new_def scan_ok_def norm_def)

lemma drive_once_new:
  assumes "ps \<noteq> []"
  shows "same limit_kind (map_prod id norm (drive decoder_push read_body ps ResponseDecoder_new))
    (map_prod id norm (read_body (decoder_push (concat ps) ResponseDecoder_new)))"
proof -
  obtain p qs where ps: "ps = p # qs" using assms by (cases ps) auto
  have "same limit_kind (drive decoder_push read_norm ps ResponseDecoder_new) (read_norm (decoder_push (concat ps) ResponseDecoder_new))"
    using h1.drive_once [OF decoder_new_ok(1), of p qs] by (simp add: ps del: drive.simps)
  then show ?thesis using drive_norm [OF decoder_new_ok(2), of ps] by (simp add: decoder_new_ok(3) read_norm_def del: drive.simps)
qed

lemma drive_new_Inr:
  assumes "ps \<noteq> []" "read_body (decoder_push (concat ps) ResponseDecoder_new) = (Inr x, d)"
  shows "\<exists>d'. drive decoder_push read_body ps ResponseDecoder_new = (Inr x, d') \<and> norm d' = norm d"
  using same_sym [OF drive_once_new [OF assms(1)]] assms(2)
  by (cases "drive decoder_push read_body ps ResponseDecoder_new") (auto simp: same_Inr map_prod_def)

lemma parse_response_head:
  assumes "parse_response bs = Inr r"
  obtains e h where "find_header_end_from bs 0 = Some e" "parse_head_section (take (e - 4) bs) = Inr h"
    "decode_body_exact (rh_headers h) (drop e bs) = Inr (pr_body r)"
    "h = \<lparr>rh_version = pr_version r, rh_status = pr_status r, rh_reason = pr_reason r, rh_headers = pr_headers r\<rparr>"
  using assms by (auto simp: parse_response_def find_header_end_def rbind_Inr_iff ok_or_Inr_iff)

lemma decode_body_exact_Inr:
  assumes "decode_body_exact hs b = Inr body"
  obtains "decode_framing hs = Inr (Some Chunked)" "chunked_decode b = Inr body"
  | "decode_framing hs = Inr (Some (Length (length b)))" "body = b" "length b \<le> MAX_DECODED_BODY_BYTES"
  | "decode_framing hs = Inr None" "body = b" "length b \<le> MAX_DECODED_BODY_BYTES"
proof -
  obtain fr where fr: "decode_framing hs = Inr fr" using assms by (auto simp: decode_body_exact_def rbind_Inr_iff)
  have "fr = None \<or> fr = Some Chunked \<or> (\<exists>n. fr = Some (Length n))"
    using fr by (auto simp: decode_framing_def rbind_Inr_iff split: option.splits if_splits)
  then consider "fr = None" | "fr = Some Chunked" | n where "fr = Some (Length n)" by blast
  then show thesis
  proof cases
    case 1
    then have "body = b" "length b \<le> MAX_DECODED_BODY_BYTES"
      using assms fr by (simp_all add: decode_body_exact_def decode_body_def rbind_Inr_iff checked_body_len_def split: if_splits)
    then show ?thesis using that(3) fr 1 by blast
  next
    case 2
    then have "chunked_decode b = Inr body" using assms fr by (simp add: decode_body_exact_def decode_body_def)
    then show ?thesis using that(1) fr 2 by blast
  next
    case (3 n)
    then have "n = length b" "body = b" "length b \<le> MAX_DECODED_BODY_BYTES"
      using assms fr by (simp_all add: decode_body_exact_def decode_body_def rbind_Inr_iff checked_body_len_def split: if_splits)
    then show ?thesis using that(2) fr 3 by blast
  qed
qed

text \<open>The decoder after it has read the head.\<close>

definition after_head :: "ResponseHead \<Rightarrow> BodyFraming \<Rightarrow> str \<Rightarrow> ResponseDecoder" where
  "after_head h fr b = ResponseDecoder_new\<lparr>rd_framing := fr, buf := b, complete := (fr = Empty \<or> fr = Length 0), rd_head := Some h\<rparr>"

lemma after_head_simps [simp]:
  "rd_head (after_head h fr b) = Some h" "rd_framing (after_head h fr b) = fr" "buf (after_head h fr b) = b"
  "emitted (after_head h fr b) = 0" "chunks_seen (after_head h fr b) = 0" "chunk (after_head h fr b) = CSize"
  "complete (after_head h fr b) \<longleftrightarrow> fr = Empty \<or> fr = Length 0" "closed (after_head h fr b) = False"
  by (simp_all add: after_head_def ResponseDecoder_new_def)

lemma read_body_after_head:
  assumes "find_header_end_from bs 0 = Some e" "parse_head_section (take (e - 4) bs) = Inr h" "body_framing h = Inr fr"
  shows "read_body (decoder_push bs ResponseDecoder_new) = read_body (after_head h fr (drop e bs))"
proof -
  have "decoder_head (decoder_push bs ResponseDecoder_new) = (Inr (Some h), after_head h fr (drop e bs))"
    using assms by (simp add: decoder_head_def after_head_def ResponseDecoder_new_def decoder_push_def Let_def)
  then show ?thesis using read_body_unheaded [of "decoder_push bs ResponseDecoder_new"] by simp
qed

lemma read_after_head:
  "read_body (after_head h Empty b) = (Inr [], after_head h Empty b)"
  "n \<le> MAX_DECODED_BODY_BYTES \<Longrightarrow> \<exists>d. read_body (after_head h (Length n) b) = (Inr (take n b), d) \<and> rd_head d = Some h
     \<and> rd_framing d = Length n \<and> (complete d \<longleftrightarrow> n \<le> length b) \<and> buf d = drop n b"
  "length b \<le> MAX_DECODED_BODY_BYTES \<Longrightarrow> \<exists>d. read_body (after_head h Eof b) = (Inr b, d) \<and> rd_head d = Some h
     \<and> rd_framing d = Eof \<and> buf d = []"
  "chunked_decode b = Inr x \<Longrightarrow> \<exists>d. read_body (after_head h Chunked b) = (Inr x, d) \<and> rd_head d = Some h \<and> rd_framing d = Chunked"
proof -
  show "read_body (after_head h Empty b) = (Inr [], after_head h Empty b)" by (subst read_body_headed) simp_all
  show "\<exists>d. read_body (after_head h (Length n) b) = (Inr (take n b), d) \<and> rd_head d = Some h
     \<and> rd_framing d = Length n \<and> (complete d \<longleftrightarrow> n \<le> length b) \<and> buf d = drop n b" if "n \<le> MAX_DECODED_BODY_BYTES"
    using that by (subst read_body_headed) (auto simp: checked_body_len_def Let_def min_def)
  show "\<exists>d. read_body (after_head h Eof b) = (Inr b, d) \<and> rd_head d = Some h \<and> rd_framing d = Eof \<and> buf d = []"
    if "length b \<le> MAX_DECODED_BODY_BYTES"
    using that by (subst read_body_headed) auto
  assume x: "chunked_decode b = Inr x"
  have "fst (read_chunked [] (after_head h Chunked b)) = Inr x"
    using x by (intro chunked_decode_reads [of "[]" 0 b]) (simp_all add: chunked_decode_def)
  then obtain d where d: "read_chunked [] (after_head h Chunked b) = (Inr x, d)" by (cases "read_chunked [] (after_head h Chunked b)") auto
  then have "rd_head d = Some h \<and> rd_framing d = Chunked" using read_chunked_keeps [OF d] by simp
  moreover have "read_body (after_head h Chunked b) = (Inr x, d)" using d by (subst read_body_headed) simp_all
  ultimately show "\<exists>d. read_body (after_head h Chunked b) = (Inr x, d) \<and> rd_head d = Some h \<and> rd_framing d = Chunked" by blast
qed

text \<open>A status with a body: neither informational nor 204 or 304.\<close>

definition has_body :: "u16 \<Rightarrow> bool" where
  "has_body status \<longleftrightarrow> 200 \<le> status \<and> status \<noteq> 204 \<and> status \<noteq> 304"

lemma body_framing_status: "body_framing h = (if has_body (rh_status h)
    then rbind (decode_framing (rh_headers h)) (\<lambda>fr. Inr (unwrap_or Eof fr)) else Inr Empty)"
  by (auto simp: body_framing_def has_body_def not_less)

text \<open>The parser of a whole response and the decoder agree.\<close>

lemma read_whole_response:
  assumes "parse_response bs = Inr r" "has_body (pr_status r)"
  shows "\<exists>d. read_body (decoder_push bs ResponseDecoder_new) = (Inr (pr_body r), d)
    \<and> rd_head d = Some \<lparr>rh_version = pr_version r, rh_status = pr_status r, rh_reason = pr_reason r, rh_headers = pr_headers r\<rparr>"
proof -
  obtain e h where h: "find_header_end_from bs 0 = Some e" "parse_head_section (take (e - 4) bs) = Inr h"
    "decode_body_exact (rh_headers h) (drop e bs) = Inr (pr_body r)"
    "h = \<lparr>rh_version = pr_version r, rh_status = pr_status r, rh_reason = pr_reason r, rh_headers = pr_headers r\<rparr>"
    using parse_response_head [OF assms(1)] .
  note st = body_framing_status
  from h(3) show ?thesis
  proof (cases rule: decode_body_exact_Inr)
    case 1
    then have fr: "body_framing h = Inr Chunked" using assms(2) h(4) by (simp add: st)
    show ?thesis unfolding read_body_after_head [OF h(1,2) fr] using read_after_head(4) [OF 1(2), of h] h(4) by auto
  next
    case 2
    then have fr: "body_framing h = Inr (Length (length (drop e bs)))" using assms(2) h(4) by (simp add: st)
    show ?thesis unfolding read_body_after_head [OF h(1,2) fr] using read_after_head(2) [OF 2(3), of h "drop e bs"] 2(2) h(4) by auto
  next
    case 3
    then have fr: "body_framing h = Inr Eof" using assms(2) h(4) by (simp add: st)
    show ?thesis unfolding read_body_after_head [OF h(1,2) fr] using read_after_head(3) [OF 3(3), of h] 3(2) h(4) by auto
  qed
qed

lemma read_response_pieces:
  assumes "read_body (decoder_push (concat ps) ResponseDecoder_new) = (Inr x, d)" "ps \<noteq> []"
  obtains d' where "drive decoder_push read_body ps ResponseDecoder_new = (Inr x, d')" "rd_head d' = rd_head d"
    "rd_framing d' = rd_framing d" "complete d' = complete d"
proof -
  obtain d' where d': "drive decoder_push read_body ps ResponseDecoder_new = (Inr x, d')" "norm d' = norm d"
    using drive_new_Inr [OF assms(2,1)] by blast
  have "rd_head d' = rd_head d" "rd_framing d' = rd_framing d" "complete d' = complete d"
    using d'(2) norm_simps by metis+
  then show thesis using that d'(1) by blast
qed

section \<open>Messages in a stream\<close>

lemma framing_cases:
  assumes "decode_framing hs = Inr fr"
  shows "fr = None \<or> fr = Some Chunked \<or> (\<exists>n. fr = Some (Length n) \<and> n \<le> MAX_DECODED_BODY_BYTES)"
  using assms by (auto simp: decode_framing_def rbind_Inr_iff checked_body_len_def split: option.splits if_splits)

lemma message_consumed_Inr:
  assumes "message_consumed_len bs = Inr n"
  obtains e hs fr where "find_header_end_from bs 0 = Some e" "validate_header_section (take (e - 4) bs) = Inr ()"
    "parse_headers (snd (split_first_line (take (e - 4) bs))) = Inr hs" "decode_framing hs = Inr fr"
    "(case fr of Some (Length m) \<Rightarrow> m \<le> length bs - e \<and> n = e + m
      | Some Chunked \<Rightarrow> (\<exists>m. chunked_consumed_len (drop e bs) = Inr m \<and> n = e + m) | _ \<Rightarrow> n = e)"
proof -
  obtain e hs fr where e: "find_header_end_from bs 0 = Some e" "validate_header_section (take (e - 4) bs) = Inr ()"
    "parse_headers (snd (split_first_line (take (e - 4) bs))) = Inr hs" "decode_framing hs = Inr fr"
    using assms by (auto simp: message_consumed_len_def find_header_end_def rbind_Inr_iff ok_or_Inr_iff Let_def)
  then have "(case fr of
           Some (Length m) \<Rightarrow> if length bs - e < m then Inl ContentLengthMismatch else Inr (e + m)
         | Some Chunked \<Rightarrow> rbind (chunked_consumed_len (drop e bs)) (\<lambda>n. Inr (e + n))
         | _ \<Rightarrow> Inr e) = Inr n"
    using assms by (simp add: message_consumed_len_def find_header_end_def)
  then have "case fr of Some (Length m) \<Rightarrow> m \<le> length bs - e \<and> n = e + m
      | Some Chunked \<Rightarrow> (\<exists>m. chunked_consumed_len (drop e bs) = Inr m \<and> n = e + m) | _ \<Rightarrow> n = e"
    by (auto simp: rbind_Inr_iff split: option.splits BodyFraming.splits if_splits)
  then show thesis using that e by blast
qed

lemma message_cut:
  assumes "message_consumed_len bs = Inr n"
  shows "n \<le> length bs \<and> message_consumed_len (take n bs @ y) = Inr n"
proof -
  obtain e hs fr where e: "find_header_end_from bs 0 = Some e" "validate_header_section (take (e - 4) bs) = Inr ()"
    "parse_headers (snd (split_first_line (take (e - 4) bs))) = Inr hs" "decode_framing hs = Inr fr"
    and n: "case fr of Some (Length m) \<Rightarrow> m \<le> length bs - e \<and> n = e + m
      | Some Chunked \<Rightarrow> (\<exists>m. chunked_consumed_len (drop e bs) = Inr m \<and> n = e + m) | _ \<Rightarrow> n = e"
    using message_consumed_Inr [OF assms] .
  have l: "e \<le> length bs" "4 \<le> e" using find_end_push [OF e(1)] by auto
  have en: "e \<le> n" using n by (auto split: option.splits BodyFraming.splits)
  obtain j where j: "find_str (CRLF @ CRLF) bs = Some j" "e = j + 4" using e(1) by (auto simp: find_header_end_0)
  have f: "find_header_end_from (take n bs @ y) 0 = Some e"
    using find_str_take [OF j(1), of n y] j(2) en by (simp add: find_header_end_0)
  have t: "take (e - 4) (take n bs @ y) = take (e - 4) bs" "drop e (take n bs @ y) = take (n - e) (drop e bs) @ y"
    using en l by (auto simp: min_def drop_take)
  note mc = message_consumed_len_def [of "take n bs @ y", unfolded find_header_end_def f ok_or_simps rbind_simps Let_def t e(2-4)]
  show ?thesis
  proof (cases fr)
    case None
    then show ?thesis using mc n l by simp
  next
    case (Some g)
    then consider m where "g = Length m" | "g = Chunked" using framing_cases [OF e(4)] by auto
    then show ?thesis
    proof cases
      case 1
      then show ?thesis using mc n l Some by auto
    next
      case 2
      then obtain m where m: "chunked_consumed_len (drop e bs) = Inr m" "n = e + m" using n Some by auto
      have "m \<le> length (drop e bs)" "chunked_consumed_len (take m (drop e bs) @ y) = Inr m"
        using consumed_own_bytes [of 0 0 0 "drop e bs" m "[]" y] m(1) by (simp_all add: chunked_consumed_len_def)
      then show ?thesis using mc Some 2 m(2) l by simp
    qed
  qed
qed

lemma chunked_framing:
  assumes "decode_framing hs = Inr fr" "is_chunked hs"
  shows "fr = Some Chunked"
proof -
  have lo: "ascii_lower ''transfer-encoding'' = ''transfer-encoding''" by code_simp
  obtain k v where "(k, v) \<in> set hs" "ascii_lower k = ''transfer-encoding''" using assms(2) by (auto simp: is_chunked_def list_ex_iff)
  then have "(k, v) \<in> set (filter (\<lambda>(n, _). ascii_lower n = ascii_lower ''transfer-encoding'') hs)" unfolding lo by simp
  then have "case_insensitive_values hs ''transfer-encoding'' \<noteq> []" unfolding case_insensitive_values_def by (metis empty_iff list.map_disc_iff list.set(1))
  then have te: "te \<noteq> None" if "transfer_encoding hs = Inr te" for te using that by (auto simp: transfer_encoding_def Let_def rbind_Inr_iff)
  obtain te cl where "transfer_encoding hs = Inr te" "content_length hs = Inr cl" using assms(1) by (auto simp: decode_framing_def rbind_Inr_iff)
  then show ?thesis using assms(1) te by (auto simp: decode_framing_def split: if_splits)
qed

text \<open>The errors of a start line.\<close>

fun start_line_error :: "CodecError \<Rightarrow> bool" where
  "start_line_error (BadStartLine _) = True"
| "start_line_error (BadVersion _) = True"
| "start_line_error _ = False"

lemma request_trailers_end:
  assumes "length b < 2 ^ 64" "decode_body_exact hs b = Inr body" "is_chunked hs"
  shows "\<exists>ts. parse_chunked_trailers b = Some ts"
proof -
  obtain fr where fr: "decode_framing hs = Inr fr" using assms(2) by (auto simp: decode_body_exact_def rbind_Inr_iff)
  then have "chunked_decode b = Inr body" using assms(2) chunked_framing [OF fr assms(3)] by (simp add: decode_body_exact_def decode_body_def)
  then show ?thesis using trailers_loop_ends [of b 0 "[]" 0 body] assms(1) by (simp add: parse_chunked_trailers_def chunked_decode_def)
qed

lemma parse_request_body_Inr:
  "parse_request_body bs = Inr (req, b) \<Longrightarrow> (\<exists>e. b = drop e bs) \<and> decode_body_exact (pq_headers req) b = Inr (pq_body req)"
  by (auto simp: parse_request_body_def rbind_Inr_iff Let_def case_prod_beta split: if_splits)

lemma parse_request_total:
  assumes "length bs < 2 ^ 64"
  shows "\<exists>r. parse_request bs = Some r"
proof (cases "parse_request_body bs")
  case (Inr x)
  obtain req b where x: "x = (req, b)" by fastforce
  note r = parse_request_body_Inr [OF Inr [unfolded x]]
  then have "length b < 2 ^ 64" using assms by auto
  then show ?thesis using request_trailers_end [of b "pq_headers req" "pq_body req"] r Inr x by (auto simp: parse_request_def)
qed (simp add: parse_request_def)

lemma parse_request_errors:
  assumes "parse_request bs = Some (Inl e)"
  shows "parse_request_body bs = Inl e"
  using assms by (auto simp: parse_request_def split: sum.splits prod.splits if_splits)

lemma parse_message_cut:
  assumes "message_consumed_len bs = Inr n" "parse_request_body (take n bs) = Inl err"
  shows "start_line_error err"
proof -
  obtain e hs fr where e: "find_header_end_from (take n bs) 0 = Some e" "validate_header_section (take (e - 4) (take n bs)) = Inr ()"
    "parse_headers (snd (split_first_line (take (e - 4) (take n bs)))) = Inr hs" "decode_framing hs = Inr fr"
    and n: "case fr of Some (Length m) \<Rightarrow> m \<le> length (take n bs) - e \<and> n = e + m
      | Some Chunked \<Rightarrow> (\<exists>m. chunked_consumed_len (drop e (take n bs)) = Inr m \<and> n = e + m) | _ \<Rightarrow> n = e"
    using message_consumed_Inr [of "take n bs" n] message_cut [OF assms(1), of "[]"] by auto
  have l: "n \<le> length bs" using message_cut [OF assms(1)] by simp
  have "\<exists>body. decode_body_exact hs (drop e (take n bs)) = Inr body"
  proof (cases fr)
    case None
    then show ?thesis using n e(4) by (simp add: decode_body_exact_def decode_body_def checked_body_len_def)
  next
    case (Some g)
    then consider m where "g = Length m" "m \<le> MAX_DECODED_BODY_BYTES" | "g = Chunked" using framing_cases [OF e(4)] by auto
    then show ?thesis
    proof cases
      case 1
      then show ?thesis using n e(4) l Some by (simp add: decode_body_exact_def decode_body_def checked_body_len_def)
    next
      case 2
      then obtain m where "chunked_consumed_len (drop e (take n bs)) = Inr m" "n = e + m" using n Some by auto
      then have "is_ok (chunked_decode (drop e (take n bs)))"
        using consumed_own_bytes [of 0 0 0 "drop e (take n bs)" m "[]" "[]"] by (simp add: chunked_consumed_len_def chunked_decode_def drop_take)
      then show ?thesis using e(4) 2 Some by (auto simp: decode_body_exact_def decode_body_def is_ok_iff)
    qed
  qed
  then show ?thesis using assms(2) e(1-3)
    by (auto simp: parse_request_body_def find_header_end_def Let_def validate_http_version_def case_prod_beta split: if_splits)
qed

section \<open>Heads of requests\<close>

lemma text_head:
  assumes "is_line l" "list_all header_ok hs" "fits hs"
    and "length (text_lines (l # map header_line hs)) \<le> MAX_HEADER_SECTION_BYTES"
    and "L = l # map header_line hs" "bs = text_lines L @ CRLF @ b"
  shows "find_header_end_from bs 0 = Some (length (text_lines L) + 2)"
    "take (length (text_lines L) + 2 - 4) bs = section_of L" "drop (length (text_lines L) + 2) bs = b"
    "validate_header_section (section_of L) = Inr ()" "split_first_line (section_of L) = (l, section_of (map header_line hs))"
    "parse_headers (section_of (map header_line hs)) = Inr (map (\<lambda>h. (fst h, trim (snd h))) hs)"
proof -
  have lines: "is_line m" if "m \<in> set (map header_line hs)" for m using that header_line_ok assms(2) by (auto simp: list_all_iff)
  show "find_header_end_from bs 0 = Some (length (text_lines L) + 2)" unfolding assms(5,6) by (rule head_of_text(1) [OF assms(1) lines])
  show "take (length (text_lines L) + 2 - 4) bs = section_of L"
    using head_of_text(2) [OF assms(1) lines, of "map header_line hs" b] unfolding assms(5,6) by (simp del: text_lines_simps)
  show "drop (length (text_lines L) + 2) bs = b" unfolding assms(5,6) by (rule head_of_text(3) [OF assms(1) lines])
  show "validate_header_section (section_of L) = Inr ()" using assms(4,5) by (simp add: validate_header_section_def section_of_length del: text_lines_simps)
  show "split_first_line (section_of L) = (l, section_of (map header_line hs))"
    unfolding assms(5) using assms(1) by (intro split_first_line_section) (auto simp: is_line_def)
  show "parse_headers (section_of (map header_line hs)) = Inr (map (\<lambda>h. (fst h, trim (snd h))) hs)"
    using assms(2-4) by (intro parse_headers_ok) (auto simp: fits_def list_all_iff section_of_length)
qed

lemma consumed_of_text:
  assumes "is_line l" "list_all header_ok hs" "fits hs"
    and "length (text_lines (l # map header_line hs)) \<le> MAX_HEADER_SECTION_BYTES"
  shows "message_consumed_len (text_lines (l # map header_line hs) @ CRLF @ b) =
    rbind (decode_framing (map (\<lambda>h. (fst h, trim (snd h))) hs)) (\<lambda>fr.
      case fr of
        Some (Length n) \<Rightarrow> if length b < n then Inl ContentLengthMismatch else Inr (length (text_lines (l # map header_line hs)) + 2 + n)
      | Some Chunked \<Rightarrow> rbind (chunked_consumed_len b) (\<lambda>n. Inr (length (text_lines (l # map header_line hs)) + 2 + n))
      | _ \<Rightarrow> Inr (length (text_lines (l # map header_line hs)) + 2))"
  unfolding message_consumed_len_def find_header_end_def text_head(1) [OF assms refl refl] ok_or_simps rbind_simps Let_def
    text_head(2-6) [OF assms refl refl] snd_conv ..

lemma parse_request_of_text:
  assumes "is_line l" "list_all header_ok hs" "fits hs"
    and "length (text_lines (l # map header_line hs)) \<le> MAX_HEADER_SECTION_BYTES"
    and "utf8_valid l" "splitn 3 (CHR '' '') l = [m, t, ''HTTP/1.1'']"
  shows "parse_request_body (text_lines (l # map header_line hs) @ CRLF @ b) =
    rbind (decode_body_exact (map (\<lambda>h. (fst h, trim (snd h))) hs) b) (\<lambda>body.
      Inr (\<lparr>pq_method = m, pq_target = t, pq_version = ''HTTP/1.1'', pq_headers = map (\<lambda>h. (fst h, trim (snd h))) hs,
            pq_body = body, pq_trailers = []\<rparr>, b))"
  unfolding parse_request_body_def find_header_end_def text_head(1) [OF assms(1-4) refl refl] ok_or_simps rbind_simps Let_def
    text_head(2-5) [OF assms(1-4) refl refl] prod.case assms(6)
  by (simp add: assms(5) validate_http_version_def text_head(6) [OF assms(1-4) refl refl])

definition chunked_head :: str where
  "chunked_head = ''POST / HTTP/1.1'' @ CRLF @ ''Transfer-Encoding: chunked'' @ CRLF @ CRLF"

text \<open>Without a line feed there is no line.\<close>

lemma find_crlf_no_lf: "CHR 0x0A \<notin> set p \<Longrightarrow> find_str CRLF p = None"
proof (induction p)
  case (Cons c p)
  then have "\<not> prefix CRLF (c # p)" by (cases p) auto
  then show ?case using Cons by simp
qed simp

lemma cut_line:
  assumes "p \<noteq> []" "CHR 0x0A \<notin> set p"
  shows "chunked_consumed_loop k n i p = Inl (BadChunkEncoding ''missing chunk-size CRLF'')"
    and "chunked_decode_loop out n p = Inl Truncated"
  using find_crlf_no_lf [OF assms(2)] assms(1) by (simp_all add: chunked_consumed_loop.simps [of k n i p] chunked_decode_loop.simps [of out n p])

text \<open>The head of a message whose body is chunked, within the limits of the receiver.\<close>

definition chunked_request_head :: "str \<Rightarrow> header_list \<Rightarrow> bool" where
  "chunked_request_head l hs \<longleftrightarrow> is_line l \<and> list_all header_ok hs \<and> fits hs
     \<and> length (text_lines (l # map header_line hs)) \<le> MAX_HEADER_SECTION_BYTES
     \<and> decode_framing (map (\<lambda>h. (fst h, trim (snd h))) hs) = Inr (Some Chunked)"

lemma chunked_request_consumed:
  assumes "chunked_request_head l hs"
  shows "message_consumed_len (text_lines (l # map header_line hs) @ CRLF @ b) =
    rbind (chunked_consumed_len b) (\<lambda>n. Inr (length (text_lines (l # map header_line hs) @ CRLF) + n))"
  using assms consumed_of_text [of l hs b] by (simp add: chunked_request_head_def del: text_lines_simps)

lemma chunked_head_ok: "chunked_request_head ''POST / HTTP/1.1'' [(''Transfer-Encoding'', ''chunked'')]"
proof -
  have "header_ok (''Transfer-Encoding'', ''chunked'')"
    by (simp add: header_ok_def validate_header_name_def validate_header_value_def is_field_name_byte_def is_ascii_alphabetic_def is_ascii_upper_def is_ascii_lower_def)
  moreover have "decode_framing (map (\<lambda>h. (fst h, trim (snd h))) [(''Transfer-Encoding'', ''chunked'')]) = Inr (Some Chunked)" by code_simp
  ultimately show ?thesis
    by (simp add: chunked_request_head_def is_line_def fits_def header_line_def MAX_HEADER_COUNT_def MAX_HEADER_LINE_BYTES_def MAX_HEADER_SECTION_BYTES_def)
qed

lemma chunked_head_consumed:
  "message_consumed_len (chunked_head @ b) = rbind (chunked_consumed_len b) (\<lambda>n. Inr (length chunked_head + n))"
proof -
  have t: "chunked_head = text_lines (''POST / HTTP/1.1'' # map header_line [(''Transfer-Encoding'', ''chunked'')]) @ CRLF"
    by (simp add: chunked_head_def header_line_def)
  show ?thesis unfolding t append_assoc using chunked_request_consumed [OF chunked_head_ok] by simp
qed

lemma chunked_request_refused:
  assumes "chunked_request_head l hs" "chunked_decode b = Inl e"
  shows "\<exists>e. parse_request (text_lines (l # map header_line hs) @ CRLF @ b) = Some (Inl e)"
proof -
  note h = assms(1) [unfolded chunked_request_head_def]
  note hd = text_head [OF h [THEN conjunct1] h [THEN conjunct2, THEN conjunct1] h [THEN conjunct2, THEN conjunct2, THEN conjunct1]
      h [THEN conjunct2, THEN conjunct2, THEN conjunct2, THEN conjunct1] refl refl]
  have d: "decode_body_exact (map (\<lambda>h. (fst h, trim (snd h))) hs) b = Inl e"
    using h assms(2) by (simp add: decode_body_exact_def decode_body_def)
  have "\<exists>e. parse_request_body (text_lines (l # map header_line hs) @ CRLF @ b) = Inl e"
    unfolding parse_request_body_def find_header_end_def hd(1) ok_or_simps rbind_simps Let_def hd(2-5) prod.case hd(6) d
    by (auto simp: validate_http_version_def)
  then show ?thesis by (auto simp: parse_request_def)
qed

text \<open>A target that carries a header.\<close>

lemma target_injected:
  assumes "header_ok (n, v)" "length (header_line (n, v)) \<le> MAX_HEADER_LINE_BYTES"
    and "ascii_lower n \<noteq> ''content-length''" "ascii_lower n \<noteq> ''transfer-encoding''"
  shows "\<exists>target bs. try_serialize_request ''GET'' target [] [] = Inr bs
    \<and> parse_request bs = Some (Inr \<lparr>pq_method = ''GET'', pq_target = ''/'', pq_version = ''HTTP/1.1'',
        pq_headers = [(n, trim v), (''X'', ''HTTP/1.1'')], pq_body = [], pq_trailers = []\<rparr>)"
proof (intro exI conjI)
  let ?hs = "[(n, v), (''X'', ''HTTP/1.1'')]" and ?l = "''GET / HTTP/1.1''"
  let ?bs = "text_lines (?l # map header_line ?hs) @ CRLF @ []"
  have "method_omits_bodyless_content_length ''GET''" by code_simp
  then show "try_serialize_request ''GET'' (''/ HTTP/1.1'' @ CRLF @ header_line (n, v) @ CRLF @ ''X:'') [] [] = Inr ?bs"
    by (simp add: try_serialize_request_def write_headers_def has_header_def header_line_def)
  have x: "header_ok (''X'', ''HTTP/1.1'')"
    by (simp add: header_ok_def validate_header_name_def validate_header_value_def is_field_name_byte_def is_ascii_alphabetic_def is_ascii_upper_def)
  have ts: "trim ''HTTP/1.1'' = ''HTTP/1.1''" "splitn 3 (CHR '' '') ?l = [''GET'', ''/'', ''HTTP/1.1'']"
    "ascii_lower ''X'' = ''x''" "ascii_lower ''transfer-encoding'' = ''transfer-encoding''" "ascii_lower ''content-length'' = ''content-length''"
    by code_simp+
  have hs: "map (\<lambda>h. (fst h, trim (snd h))) ?hs = [(n, trim v), (''X'', ''HTTP/1.1'')]" using ts(1) by simp
  have "case_insensitive_values [(n, trim v), (''X'', ''HTTP/1.1'')] ''content-length'' = []"
    "case_insensitive_values [(n, trim v), (''X'', ''HTTP/1.1'')] ''transfer-encoding'' = []"
    unfolding case_insensitive_values_def ts(4,5) using assms(3,4) ts(3) by (simp_all del: list.map(2))
  then have fr: "decode_framing [(n, trim v), (''X'', ''HTTP/1.1'')] = Inr None"
    by (simp add: decode_framing_def transfer_encoding_def content_length_def)
  have nc: "\<not> is_chunked [(n, trim v), (''X'', ''HTTP/1.1'')]" using assms(4) ts(3) by (simp add: is_chunked_def del: list.map(2))
  have "parse_request_body ?bs = rbind (decode_body_exact (map (\<lambda>h. (fst h, trim (snd h))) ?hs) []) (\<lambda>body.
      Inr (\<lparr>pq_method = ''GET'', pq_target = ''/'', pq_version = ''HTTP/1.1'', pq_headers = map (\<lambda>h. (fst h, trim (snd h))) ?hs,
            pq_body = body, pq_trailers = []\<rparr>, []))"
    using assms(1,2) x ts(2) by (intro parse_request_of_text)
      (auto simp: is_line_def fits_def header_line_def MAX_HEADER_COUNT_def MAX_HEADER_LINE_BYTES_def MAX_HEADER_SECTION_BYTES_def)
  then have "parse_request_body ?bs = Inr (\<lparr>pq_method = ''GET'', pq_target = ''/'', pq_version = ''HTTP/1.1'',
      pq_headers = [(n, trim v), (''X'', ''HTTP/1.1'')], pq_body = [], pq_trailers = []\<rparr>, [])"
    unfolding hs by (simp add: decode_body_exact_def decode_body_def fr checked_body_len_def)
  then show "parse_request ?bs = Some (Inr \<lparr>pq_method = ''GET'', pq_target = ''/'', pq_version = ''HTTP/1.1'',
        pq_headers = [(n, trim v), (''X'', ''HTTP/1.1'')], pq_body = [], pq_trailers = []\<rparr>)"
    using nc by (simp add: parse_request_def del: text_lines_simps)
qed

section \<open>Properties\<close>

text \<open>
  Property C15: the pieces in which a response arrives do not matter. Feeding the decoder piece by
  piece and reading after every piece gives the same body bytes and the same state as any other
  division of the same stream, up to where the search for the end of the head is resumed; if it
  fails, it fails with the same kind of error. Heads cut in the middle of their end, chunk sizes
  and chunks cut anywhere and trailers are included.
\<close>

theorem http1_segmentation:
  assumes "concat ps = concat qs" "ps \<noteq> []" "qs \<noteq> []"
  shows "same limit_kind (map_prod id norm (drive decoder_push read_body ps ResponseDecoder_new))
    (map_prod id norm (drive decoder_push read_body qs ResponseDecoder_new))"
  using drive_once_new [OF assms(2)] same_sym [OF drive_once_new [OF assms(3)]] assms(1) same_trans by metis

theorem http1_segmentation_witness:
  "same limit_kind (map_prod id norm (drive decoder_push read_body [''HTTP/1.1 2'', ''00 OK''] ResponseDecoder_new))
    (map_prod id norm (drive decoder_push read_body [''HTTP/1.1 200 OK''] ResponseDecoder_new))"
  using http1_segmentation [of "[''HTTP/1.1 2'', ''00 OK'']" "[''HTTP/1.1 200 OK'']"] by simp



text \<open>
  Property C24: the chunked encoding. What \<open>chunked_encode\<close> writes, with anything behind it, is decoded
  to the chunks up to the first empty one, and the measured length ends exactly there, as long as
  these are within the limits on the number of chunks and on the size of a body. Chunks that
  are all non-empty are therefore read back completely and the rest of the stream is not touched;
  an empty chunk is written like the end of the body, and what follows it is taken for the next
  message.
\<close>

theorem http1_chunked_exact:
  assumes "ts = takeWhile (\<lambda>c. c \<noteq> []) cs" "length ts \<le> MAX_CHUNK_COUNT" "length (concat ts) \<le> MAX_DECODED_BODY_BYTES"
  shows "chunked_decode (chunked_encode cs @ rest) = Inr (concat ts)
    \<and> chunked_consumed_len (chunked_encode cs @ rest) = Inr (length (chunked_encode ts))
    \<and> prefix (chunked_encode ts) (chunked_encode cs)"
proof -
  have ne: "[] \<notin> set ts" using assms(1) by (auto dest: set_takeWhileD)
  obtain y where y: "chunked_encode cs = concat (map chunk_text ts) @ chunk_text [] @ y"
  proof (cases "dropWhile (\<lambda>c. c \<noteq> []) cs")
    case Nil
    then have "ts = cs" using assms(1) takeWhile_dropWhile_id [of "\<lambda>c. c \<noteq> []" cs] by simp
    then show ?thesis using that [of "[]"] by (simp add: chunked_encode_chunks)
  next
    case (Cons d ds)
    then have "d = []" using hd_dropWhile [of "\<lambda>c. c \<noteq> []" cs] by simp
    then have "cs = ts @ [] # ds" using Cons assms(1) takeWhile_dropWhile_id [of "\<lambda>c. c \<noteq> []" cs] by simp
    then show ?thesis using that [of "concat (map chunk_text ds) @ chunk_text []"] by (simp add: chunked_encode_chunks)
  qed
  have "chunked_decode_loop [] 0 (concat (map chunk_text ts) @ chunk_text [] @ y @ rest) = Inr (concat ts)
      \<and> chunked_consumed_loop 0 0 0 (concat (map chunk_text ts) @ chunk_text [] @ y @ rest) = Inr (length (chunked_encode ts))"
    using decode_chunks [OF ne, of 0 "[]" "chunk_text [] @ y @ rest" 0] assms(2,3) by (simp add: decode_last_chunk chunked_encode_chunks)
  then show ?thesis unfolding chunked_decode_def chunked_consumed_len_def y by (simp add: chunked_encode_chunks)
qed

theorem http1_chunked_exact_witness:
  "chunked_decode (chunked_encode [''ab'', [], ''c''] @ ''x'') = Inr ''ab''"
  using http1_chunked_exact [of "[''ab'']" "[''ab'', [], ''c'']" "''x''"] by (simp add: MAX_CHUNK_COUNT_def MAX_DECODED_BODY_BYTES_def)

text \<open>
  Property C16: where a request ends. The length that \<open>message_consumed_len\<close> reports is within the
  buffer and depends only on the bytes it covers, so that the requests of a connection are divided
  in one way only, whatever follows them; and those bytes are a request whose body can be decoded:
  \<open>parse_request\<close> either accepts them or complains about the start line.
\<close>

theorem http1_message_boundary:
  assumes "message_consumed_len bs = Inr n" "length bs < 2 ^ 64"
  shows "n \<le> length bs \<and> message_consumed_len (take n bs @ next) = Inr n
    \<and> (\<exists>r. parse_request (take n bs) = Some r \<and> (\<forall>e. r = Inl e \<longrightarrow> start_line_error e))"
proof -
  obtain r where r: "parse_request (take n bs) = Some r" 
    using parse_request_total [OF le_less_trans [OF _ assms(2)], of "take n bs"] by auto
  then have "start_line_error e" if "r = Inl e" for e
    using parse_message_cut [OF assms(1) parse_request_errors] that by simp
  then show ?thesis using message_cut [OF assms(1)] r by blast
qed

theorem http1_message_boundary_witness:
  "message_consumed_len (chunked_head @ ''0'' @ CRLF @ CRLF @ ''GET'') = Inr (length chunked_head + 5)
   \<and> message_consumed_len (take (length chunked_head + 5) (chunked_head @ ''0'' @ CRLF @ CRLF @ ''GET'') @ ''y'') = Inr (length chunked_head + 5)"
proof -
  have "chunked_consumed_len (chunk_text [] @ ''GET'') = Inr (length (chunk_text []))"
    by (simp add: chunked_consumed_len_def decode_last_chunk)
  then have m: "message_consumed_len (chunked_head @ ''0'' @ CRLF @ CRLF @ ''GET'') = Inr (length chunked_head + 5)"
    unfolding chunked_head_consumed by (simp add: chunk_text_def show_hex_0)
  then show ?thesis using http1_message_boundary [OF m, of "''y''"] by (simp add: chunked_head_def)
qed

text \<open>
  Property C25: \<open>parse_request\<close> returns on every input that fits into memory, although the search for
  trailers that it ends with, called on its own, does not: its position is not checked and wraps,
  and on a single line with a size just below \<open>2 ^ 64\<close> it goes round for ever.
\<close>

theorem http1_parse_terminates:
  "(length bs < 2 ^ 64 \<longrightarrow> (\<exists>r. parse_request bs = Some r)) \<and> parse_chunked_trailers (''FFFFFFFFFFFFFFEC'' @ CRLF) = None"
  using parse_request_total [of bs] trailers_loop_turning by (simp add: turning_size_def)

theorem http1_parse_terminates_witness:
  "\<exists>r. parse_request (''GET / HTTP/1.1'' @ CRLF @ CRLF) = Some r"
  using http1_parse_terminates [of "''GET / HTTP/1.1'' @ CRLF @ CRLF"] by simp



text \<open>
  Property C26: names and values of headers are checked for line ends, the target of a request is
  not. A request with a carriage return or a line feed in the value of a header is refused. But for
  every well-formed header within the limit of a line, the two framing headers apart, there is a
  target with line ends in it that the serializer accepts, and the server reads a request for
  another target that has the header, although the caller gave no header at all.
\<close>

theorem http1_target_injection:
  assumes "header_ok (n, v)" "length (header_line (n, v)) \<le> MAX_HEADER_LINE_BYTES"
    and "ascii_lower n \<noteq> ''content-length''" "ascii_lower n \<noteq> ''transfer-encoding''"
  shows "(\<forall>m t hs body. (\<exists>(k, w) \<in> set hs. CHR 0x0D \<in> set w \<or> CHR 0x0A \<in> set w) \<longrightarrow> (\<exists>e. try_serialize_request m t hs body = Inl e))
    \<and> (\<exists>target bs. try_serialize_request ''GET'' target [] [] = Inr bs
    \<and> parse_request bs = Some (Inr \<lparr>pq_method = ''GET'', pq_target = ''/'', pq_version = ''HTTP/1.1'',
        pq_headers = [(n, trim v), (''X'', ''HTTP/1.1'')], pq_body = [], pq_trailers = []\<rparr>))"
proof (intro conjI target_injected [OF assms] allI impI)
  fix m t body and hs :: header_list
  assume bad: "\<exists>(k, w) \<in> set hs. CHR 0x0D \<in> set w \<or> CHR 0x0A \<in> set w"
  show "\<exists>e. try_serialize_request m t hs body = Inl e"
  proof (cases "try_serialize_request m t hs body")
    case (Inr bs)
    then obtain w where "write_headers hs (length body) (\<not> (body = [] \<and> method_omits_bodyless_content_length m)) = Inr w"
      by (auto simp: try_serialize_request_def Let_def rbind_Inr_iff)
    then show ?thesis using write_headers_Inr(1) bad header_value by fastforce
  qed simp
qed

theorem http1_target_injection_witness:
  "\<exists>target bs. try_serialize_request ''GET'' target [] [] = Inr bs
    \<and> parse_request bs = Some (Inr \<lparr>pq_method = ''GET'', pq_target = ''/'', pq_version = ''HTTP/1.1'',
        pq_headers = [(''Role'', ''admin''), (''X'', ''HTTP/1.1'')], pq_body = [], pq_trailers = []\<rparr>)"
proof -
  have "header_ok (''Role'', ''admin'')"
    by (simp add: header_ok_def validate_header_name_def validate_header_value_def is_field_name_byte_def is_ascii_alphabetic_def
      is_ascii_upper_def is_ascii_lower_def)
  moreover have "trim ''admin'' = ''admin''" by code_simp
  ultimately show ?thesis using http1_target_injection [of "''Role''" "''admin''"]
    by (simp add: header_line_def MAX_HEADER_LINE_BYTES_def)
qed

end
