(* ===== verification/Spec2Isabelle.thy ===== *)
theory Spec2Isabelle
  imports Caps_Config IndexMap Semver_Canon Http2_Conn_Out Shape_Tree Percent Gc_Theorems Gc_Schedule Websocket_Handshake Http1_Props
begin

text \<open>
  Verification of the core libraries of cruft, a JavaScript runtime with a capability system, a
  package manager and protocol and text codecs of its own.

  \<^bold>\<open>The parts of the program and how they interact.\<close> A script runs in an interpreter whose host
  functions (files, network, processes, environment, native addons) ask the capability
  dispatcher before they act. What a module may do comes from a \<open>cruft-caps.json\<close>, read with
  the JSON crate and installed per module by the module loader. Script objects keep their
  properties in an insertion-ordered hash map and share hidden classes, which inline caches
  compare by address. They live in a heap with handles, which a collector traces from the roots
  of the interpreter, at once or a slice at a time between turns. Compartments (realms with a
  heap of their own) share frozen values through a counted arena, send messages through a
  boundary that checks capabilities, and run their turns on a pool of workers. The package manager
  picks versions with the range grammar of \<open>semver.rs\<close>. The HTTP/2 server is a stack of three crates: frames, header compression, and
  the connection, which the socket loop feeds with bytes and asks for responses. HTTP/1.1
  servers and clients share one codec, WebSocket connections have a codec of their own. Texts go through the base-N codec and percent encoding.

  \<^bold>\<open>Theories and sources\<close> (all paths under \<open>src/crates/\<close>).

  \<^item> \<open>Rust_Prelude\<close>, \<open>Rust_Str\<close>, \<open>Rust_Path\<close>, \<open>Utf8\<close>: what the crates use of Rust's standard
    library. A result is a sum with its bind, a \<open>Mutex\<close> is a value with a poison flag, machine
    integers are words, a \<open>str\<close> is the list of its UTF-8 bytes, a path is the byte string it was
    made from.
  \<^item> \<open>Caps\<close>, \<open>Caps_Dispatch\<close>, \<open>Caps_Config\<close>: \<open>rusty-js-runtime/src/caps.rs\<close>, \<open>caps_config.rs\<close>, the
    grant bookkeeping of \<open>module.rs\<close> and the caller classification of \<open>cruft/src/fs.rs\<close>. The
    record \<open>CapDispatcher\<close> has the fields of the struct; each \<open>require_*\<close> check returns its
    verdict and the dispatcher with the log it leaves. What is read from the operating system
    is the argument \<open>HostEnv\<close>.
  \<^item> \<open>Json_Manifest\<close>, \<open>Json_Total\<close>, \<open>Json_Roundtrip\<close>: \<open>rusty-json-manifest/src/lib.rs\<close>, values, parser
    and the two printers.
  \<^item> \<open>IndexMap\<close>: \<open>rusty-js-indexmap/src/lib.rs\<close>. The record keeps the entry vector and the
    optional index; the hash function is an argument.
  \<^item> \<open>SmallVec\<close>, \<open>Shapes\<close>, \<open>Shape_Tree\<close>: \<open>rusty-js-smallvec/src/lib.rs\<close> and
    \<open>rusty-js-shapes/src/shape.rs\<close>, on an explicit heap with reference counts, since the
    properties depend on which shapes are alive.
  \<^item> \<open>Gc_Heap\<close>, \<open>Gc_Incremental\<close>: the first half of \<open>rusty-js-gc/src/lib.rs\<close>, the heap and its
    collections. The record \<open>GcHeap\<close> has the fields of the struct \<open>Heap\<close>; the collection of the
    whole heap and that of a realm, the same text up to the test of the owner, are
    \<open>collect_scope\<close>. \<open>Gc_Mark\<close>, \<open>Gc_Collect\<close>, \<open>Gc_Slices\<close>: marking, sweeping, slices.
    \<open>Gc_Handles\<close>, \<open>Gc_History\<close>, \<open>Gc_Props\<close>, \<open>Gc_Theorems\<close>: histories of calls. \<open>Gc_Trace\<close>: the
    implementation of \<open>Trace\<close> for script objects in \<open>rusty-js-runtime/src/value.rs\<close>.
  \<^item> \<open>Gc_Share\<close>: the second half of \<open>rusty-js-gc/src/lib.rs\<close> and \<open>boundary.rs\<close>: the arena, crossing
    plans, mailboxes, the boundary, the worker pool and the scheduler. \<open>Gc_Arena\<close>,
    \<open>Gc_Arena_Props\<close>, \<open>Gc_Boundary\<close>, \<open>Gc_Schedule\<close>: their lemmas.
  \<^item> \<open>Semver\<close>, \<open>Semver_Order\<close>, \<open>Semver_Text\<close>, \<open>Semver_Props\<close>, \<open>Semver_Choice\<close>, \<open>Semver_Canon\<close>:
    \<open>rusty-js-pm/src/semver.rs\<close>.
  \<^item> \<open>Http2_Codec\<close>: \<open>http2-codec/src/lib.rs\<close>. \<open>Hpack\<close>, \<open>Hpack_Int\<close>, \<open>Hpack_Huffman\<close>, \<open>Hpack_Block\<close>:
    \<open>http2-hpack/src/lib.rs\<close>.
  \<^item> \<open>Http2_Conn\<close>, \<open>Http2_Conn_Send\<close>, \<open>Http2_Conn_Inv\<close>, \<open>Http2_Conn_Ledger\<close>, \<open>Http2_Conn_Feed\<close>,
    \<open>Http2_Conn_Props\<close>, \<open>Http2_Conn_Out\<close>: \<open>http2-conn/src/lib.rs\<close>. The record \<open>Http2Connection\<close>
    has the fields of the struct; each frame handler is one definition on the connection and
    the feed result under construction, \<open>handle_frame\<close> dispatches to them and \<open>feed\<close> is the read
    loop.
  \<^item> \<open>Http1_Codec\<close>: \<open>http-codec/src/lib.rs\<close>; \<open>Http1_Stream\<close>, \<open>Http1_Message\<close>, \<open>Http1_Chunks\<close>,
    \<open>Http1_Props\<close>: its lemmas. \<open>Http1_Server\<close>: \<open>read_request\<close> and \<open>request_complete\<close> of
    \<open>cruft/src/http.rs\<close>, the loop that reads one request; what the clock and the socket answer is
    an argument. The record \<open>ResponseDecoder\<close> has the fields of the struct; a call
    returns its result and the decoder it leaves, also when it fails.
  \<^item> \<open>Websocket\<close>, \<open>Websocket_Props\<close>, \<open>Websocket_Handshake\<close>: \<open>websocket/src/lib.rs\<close>. The random bytes
    of a key and the SHA-1 digest are arguments.
  \<^item> \<open>Basen\<close>, \<open>Basen_Props\<close>: \<open>rusty-js-basen/src/lib.rs\<close>. \<open>Percent\<close>:
    \<open>rusty-js-percent-encoding/src/lib.rs\<close>, on top of \<open>Basen\<close>.

  \<^bold>\<open>What the lemmas show.\<close>

  \<^item> Capabilities: a request succeeds exactly when its mode does not bind the caller or the
    caller holds the authority; sealed modes deny by default; grants to one module change no
    decision for another; in audit mode the log lists exactly the calls made. The eight checks
    satisfy one contract, the locale \<open>cap_gate\<close>. From the text of a configuration: which paths
    and endpoints a module reaches, and how \<open>..\<close> in a path leaves a granted directory.
  \<^item> JSON: the parser returns on every input, and parsing undoes both printers.
  \<^item> Ordered map and small vector: every sequence of operations behaves like an association
    list in insertion order (locale \<open>ordered_map\<close>) and like a list (locale \<open>vec_spec\<close>), under
    every hash function and capacity; the panics in the source are unreachable.
  \<^item> Hidden classes: over every sequence of clones, drops, transitions and parent lookups (an
    inductive step relation) live shapes with the same names are the same address, counts are
    exact, nothing is freed while it is held, and everything is freed when it is not. Names stay
    distinct only as long as clients ask \<open>slot_of\<close> before they add one.
  \<^item> Garbage-collected heap: over every history of calls (the inductive relation \<open>gc_reaches\<close>) no
    call panics on a heap that is not exhausted, an allocation returns a fresh handle and a dead
    handle stays dead (locale \<open>handle_safe\<close>, interpreted on each operation); a collection
    frees exactly what is not reachable from the roots through references and ephemerons (the
    inductive predicate \<open>kept\<close>); the collection of a realm behind its audit frees nothing that
    the whole heap can reach; marking and sweeping in slices, whatever the budgets, do what the
    collection at once does, for every tracer that satisfies the locale \<open>edge_slices\<close>, which is
    interpreted on the default method and on script objects.
  \<^item> Shared values, boundary and scheduler: over the histories of well-behaved clients counts are
    exact, what is held keeps its value, and what is not is reclaimed; a send succeeds exactly
    when every check passes and delivers one envelope with the attached capabilities, and panics
    only if registrations were changed behind the wrapper; loads are exact, compartments spread
    evenly, and in every interleaving of submissions and threads (the inductive relation
    \<open>turns_run\<close>) the turns of a worker run once, in order, up to the first job that panics.
  \<^item> Versions: precedence is a total order (locale \<open>total_cmp\<close>, the contract of Rust's \<open>Ord\<close>, and an
    instance of \<open>linorder\<close>), caret, tilde and hyphen ranges mean what they are documented to
    mean, with their overflow cases, the prerelease rule, and the selection functions choose
    the best version.
  \<^item> HTTP/2 frames and header compression: encode and decode are inverse on frames, settings,
    prefix integers, Huffman strings and header blocks; the dynamic table is the one of the RFC;
    the decoder keeps its memory bounds on every input; the inputs on which it panics.
  \<^item> HTTP/2 connection. Sending: a flush is compared with its closed form, which gives flow
    control for every visiting order of the pending responses, and completion as soon as the
    windows are large enough. Receiving: the locale \<open>frame_invariant\<close> carries a property from the
    frame handlers to the read loop; it is interpreted on the resource invariant \<open>conn_ok\<close>, on
    the ledger of requests handed out, on the monotony of the flags and on the well-formedness
    of the output. On these rest the bounds on the tables of streams and headers and on windows over the whole life of a
    connection (the inductive relation \<open>served\<close>) and on the bytes left over by a call that returns
    \<open>Ok\<close> (there is none after a wrong preface), that a request sent is the request delivered,
    that the segmentation of the byte stream does not matter, that a response can be read back
    by the peer, and two ways in which a peer gets more out of the server than it should.
  \<^item> HTTP/1.1: the locale \<open>resumable\<close> is the contract of a reader that is fed in pieces; it is
    interpreted on the response decoder, which therefore does not depend on the division of the
    stream. A response that was serialized is received with exactly its headers, and with its body
    unless the caller gave a length of its own that does not fit; the
    chunked encoding is read back up to the first empty chunk; the end of a message depends on
    its own bytes only, and those are a message that can be parsed; the parser returns on every
    input, while the search for trailers alone need not; a target can carry headers into a request; and
    the server's reading loop gives up on a valid request that is cut inside a chunk size.
  \<^item> WebSocket: frames written with any masks are read back from a stream that may end in the
    middle of a frame (the locale \<open>framed\<close>, which HTTP/2 frames satisfy too); reassembly keeps its
    limit and its well-formedness on every input, and gives the same message however it was
    fragmented and whatever control frames came between; the base64 codec of the crate is the
    base-N codec; a generated key passes the check, which leaves the version and the origin to
    decide, and exactly one answer is accepted.
  \<^item> Base-N and percent codecs: the round trips, and exactly which texts decode to what.

  \<^bold>\<open>Integers, fuel and parameters.\<close> Integers that the source lets wrap or truncates are words.
  Lengths of data that is in memory, counters and \<open>usize\<close> values that only measure such data are
  naturals; \<open>usize\<close> has 64 bits. The windows of a connection are \<open>i64\<close> in the source and \<open>int\<close> in
  the model, which agrees because they are shown to stay below \<open>2 ^ 63\<close> in absolute value. The JSON
  parser takes fuel, a number derived from the length of the input that is shown to be never
  used up; the marking loops of the collector and the search for HTTP/1.1 trailers are partial
  functions in the option monad, and are shown to return on every reachable heap and on every
  body that was decoded; the other loops are recursions with a termination
  proof. The order in which a
  \<open>HashMap\<close> is visited and the hash of a key are arguments, and the theorems hold for every choice
  (the order has to be a permutation of the keys). Panics are \<open>None\<close> or a constructor of the
  outcome type, errors are \<open>Inl\<close> or a constructor that carries the state left behind.

  \<^bold>\<open>Not modelled, and why.\<close> The interpreter with its intrinsics, the bytecode compiler, the
  JIT, the parsers and type checkers of JavaScript and CruftScript, the SQL engines, the
  WebAssembly engine, cryptography, TLS and compression are each larger than what is modelled
  here and rest on one another through the interpreter's value type. The host libraries use raw
  pointers and system calls. Unicode tables are generated data. Of
  the module loader only the capability bookkeeping is modelled, of the package manager only
  versions and ranges. Sockets and files are I/O. Of the collector's
  crate the creation and joining of threads is left out (a worker is its mailbox and the turns of
  its loop; whether a job returns or panics is an argument, and a job that never ends is not
  considered), and what the heap reads from its environment, with one floating-point
  interpolation, is the argument \<open>GcEnv\<close>; of a script object's references those of its internal
  kind are an argument. The order of the next steps: form data and
  punycode on top of the text codecs, package integrity strings on top of the base-N codec, and
  the HTTP/2 client beside the server.
\<close>

end
